(* ===== verification/Prelude.thy ===== *)
theory Prelude
  imports Main "HOL-Library.Word" "HOL-Library.Multiset"
begin

text \<open>
  Prelude of the development: the names of the C types that several components share, the
  collections of facts that carry the component proofs, and generic lemmas on lists, words and
  integers.

  A C \<open>unsigned char\<close> is a \<open>byte\<close>; a C \<open>int\<close> whose bit pattern matters (values carried by
  atoms and by the client protocol) is an \<open>int32\<close>, read with \<open>sint\<close> as the signed value.
  Sizes, indices and levels that the code keeps in an \<open>int\<close> and never lets overflow are HOL
  \<open>int\<close>s, with the 32-bit bounds stated where they matter.
  Behaviour that C leaves undefined (a read or a write outside an array, a null dereference)
  is the value \<^const>\<open>None\<close> of a model function with an option result.
\<close>

unbundle bit_operations_syntax

type_synonym byte = "8 word"
type_synonym int32 = "32 word"
type_synonym addr = nat


subsection \<open>Lists updated by index\<close>

lemma mset_concat_update:
  assumes "i < length xss"
  shows "mset (concat (xss[i := ys])) + mset (xss ! i) = mset (concat xss) + mset ys"
  using assms
proof (induction xss arbitrary: i)
  case Nil
  then show ?case by simp
next
  case (Cons xs xss)
  then show ?case by (cases i) (auto simp: ac_simps)
qed

lemma fold_fold_concat: "fold (fold f) xss a = fold f (concat xss) a"
  by (induction xss arbitrary: a) auto

lemma find_map_of:
  "(\<And>c. c \<in> set cs \<Longrightarrow> P c \<longleftrightarrow> fst c = k) \<Longrightarrow> map_option snd (find P cs) = map_of cs k"
  by (induction cs) auto

lemma concat_replicate_Nil [simp]: "concat (replicate n []) = []"
  by (induction n) auto

subsection \<open>C strings\<close>

text \<open>
  A C string argument is a HOL string without the terminating zero byte; a string that C code
  can build has no zero byte inside.
\<close>

definition c_string :: "string \<Rightarrow> bool" where
  "c_string s \<longleftrightarrow> CHR 0x00 \<notin> set s"

lemma c_string_Nil [simp]: "c_string []"
  by (simp add: c_string_def)

lemma c_string_Cons [simp]: "c_string (c # s) \<longleftrightarrow> c \<noteq> CHR 0x00 \<and> c_string s"
  by (auto simp: c_string_def)

definition byte_of_char :: "char \<Rightarrow> byte" where
  "byte_of_char c = word_of_int (int (of_char c :: nat))"

definition char_of_byte :: "byte \<Rightarrow> char" where
  "char_of_byte b = char_of (unat b)"

lemma char_of_byte_of_char [simp]: "char_of_byte (byte_of_char c) = c"
proof -
  have "(of_char c :: nat) < 256" by simp
  then have "unat (byte_of_char c) = (of_char c :: nat)"
    by (simp add: byte_of_char_def unat_of_nat)
  then show ?thesis by (simp add: char_of_byte_def)
qed

lemma byte_of_char_of_byte [simp]: "byte_of_char (char_of_byte b) = b"
proof -
  have "unat b < 256" using unsigned_less [of b, where ?'a = nat] by simp
  then show ?thesis by (simp add: byte_of_char_def char_of_byte_def)
qed

lemma byte_of_char_eq_0 [simp]: "byte_of_char c = 0 \<longleftrightarrow> c = CHR 0x00"
proof -
  have "byte_of_char (CHR 0x00) = 0" by (simp add: byte_of_char_def)
  then show ?thesis by (metis char_of_byte_of_char)
qed

end
