(* ===== verification/Atom.thy ===== *)
theory Atom
  imports Prelude "HOL-Library.Monad_Syntax"
begin

text \<open>
  Atoms (\<open>include/fts/atom.h\<close>, \<open>fts/atom.c\<close>) and object references (\<open>include/fts/object.h\<close>).

  An \<open>fts_atom_t\<close> is a tagged word: its \<open>type\<close> is a pointer to a class, one of the six primitive
  classes or the class of the object it holds. The tag of an object atom is not stored in the
  model: \<open>fts_set_object\<close> always copies it from the object, so it is read back through the
  environment. Symbols, pointers and objects are addresses; a string atom is modelled by the
  characters it points to, which is all that \<open>strcmp\<close> and the hash loop read.
\<close>

subsection \<open>Doubles\<close>

text \<open>
  A C \<open>double\<close> is its 64-bit IEEE pattern. The code compares doubles with \<open>==\<close> and converts them
  to integers; both are written out on the pattern, NaN and the two zeros included.
\<close>

datatype double = Double (dbits: "64 word")

definition dbl_neg :: "double \<Rightarrow> bool" where
  "dbl_neg x = bit (dbits x) 63"

definition dbl_mag :: "double \<Rightarrow> nat" where
  "dbl_mag x = unat (take_bit 63 (dbits x))"

definition dbl_nan :: "double \<Rightarrow> bool" where
  "dbl_nan x \<longleftrightarrow> dbl_mag x > 0x7FF0000000000000"

definition dbl_key :: "double \<Rightarrow> int" where
  "dbl_key x = (if dbl_neg x then - int (dbl_mag x) else int (dbl_mag x))"

definition dbl_eq :: "double \<Rightarrow> double \<Rightarrow> bool" where
  "dbl_eq x y \<longleftrightarrow> \<not> dbl_nan x \<and> \<not> dbl_nan y \<and> dbl_key x = dbl_key y"

text \<open>Truncation towards zero: sign, biased exponent and mantissa of the pattern.\<close>

definition dbl_trunc :: "double \<Rightarrow> int" where
  "dbl_trunc x =
     (let e = dbl_mag x div 2 ^ 52; m = 2 ^ 52 + dbl_mag x mod 2 ^ 52;
          n = (if e < 1023 then 0 else if e < 1075 then m div 2 ^ (1075 - e) else m * 2 ^ (e - 1075))
      in if dbl_neg x then - int n else int n)"

lemma dbl_eq_refl: "dbl_eq x x \<longleftrightarrow> \<not> dbl_nan x"
  by (simp add: dbl_eq_def)

lemma dbl_eq_sym: "dbl_eq x y = dbl_eq y x"
  by (auto simp: dbl_eq_def)

lemma dbl_eq_trans: "dbl_eq x y \<Longrightarrow> dbl_eq y z \<Longrightarrow> dbl_eq x z"
  by (auto simp: dbl_eq_def)

lemma dbl_eq_trunc: "dbl_eq x y \<Longrightarrow> dbl_trunc x = dbl_trunc y"
  by (auto simp: dbl_eq_def dbl_key_def dbl_trunc_def Let_def split: if_splits)

subsection \<open>Classes and atoms\<close>

datatype class_ref = VoidClass | IntClass | FloatClass | SymbolClass | PointerClass | StringClass
  | UserClass addr

datatype atom = AVoid | AInt int32 | AFloat double | ASymbol addr | APointer addr | AString string
  | AObject addr

text \<open>
  What the classes of the objects contribute: the class of an object, and the hash and equality
  function pointers of a class, which the packages define.
\<close>

record class_env =
  obj_class :: "addr \<Rightarrow> addr"
  class_hash :: "addr \<Rightarrow> atom \<Rightarrow> int32"
  class_equals :: "addr \<Rightarrow> addr \<Rightarrow> addr \<Rightarrow> bool"

fun fts_get_class :: "class_env \<Rightarrow> atom \<Rightarrow> class_ref" where
  "fts_get_class E AVoid = VoidClass"
| "fts_get_class E (AInt _) = IntClass"
| "fts_get_class E (AFloat _) = FloatClass"
| "fts_get_class E (ASymbol _) = SymbolClass"
| "fts_get_class E (APointer _) = PointerClass"
| "fts_get_class E (AString _) = StringClass"
| "fts_get_class E (AObject x) = UserClass (obj_class E x)"

definition fts_atom_same_type :: "class_env \<Rightarrow> atom \<Rightarrow> atom \<Rightarrow> bool" where
  "fts_atom_same_type E a b \<longleftrightarrow> fts_get_class E a = fts_get_class E b"

definition fts_atom_identical :: "class_env \<Rightarrow> atom \<Rightarrow> atom \<Rightarrow> bool" where
  "fts_atom_identical E a b =
     (if \<not> fts_atom_same_type E a b then False
      else case (a, b) of
          (AVoid, _) \<Rightarrow> b = AVoid
        | (AInt i, AInt j) \<Rightarrow> i = j
        | (AFloat x, AFloat y) \<Rightarrow> dbl_eq x y
        | (ASymbol s, ASymbol t) \<Rightarrow> s = t
        | (APointer p, APointer q) \<Rightarrow> p = q
        | (AString s, AString t) \<Rightarrow> s = t
        | (AObject x, AObject y) \<Rightarrow> x = y
        | _ \<Rightarrow> False)"

definition nan_atom :: "atom \<Rightarrow> bool" where
  "nan_atom a = (case a of AFloat x \<Rightarrow> dbl_nan x | _ \<Rightarrow> False)"

lemma fts_atom_identical_refl: "fts_atom_identical E a a \<longleftrightarrow> \<not> nan_atom a"
  by (cases a) (auto simp: fts_atom_identical_def fts_atom_same_type_def nan_atom_def dbl_eq_refl)

lemma fts_atom_identical_sym: "fts_atom_identical E a b = fts_atom_identical E b a"
  by (cases a; cases b) (auto simp: fts_atom_identical_def fts_atom_same_type_def dbl_eq_sym)

lemma fts_atom_identical_trans:
  "fts_atom_identical E a b \<Longrightarrow> fts_atom_identical E b c \<Longrightarrow> fts_atom_identical E a c"
  by (cases a; cases b; cases c)
    (auto simp: fts_atom_identical_def fts_atom_same_type_def intro: dbl_eq_trans split: if_splits)

subsection \<open>Reference counts\<close>

text \<open>
  The store of objects: the \<open>refcnt\<close> field of every live object. A freed object has no entry; to
  refer or release it is a use after free, the result \<^const>\<open>None\<close>. Destroying an object removes
  its entry; what its class's deconstructor does to other objects is not modelled.
\<close>

type_synonym obj_store = "addr \<Rightarrow> int option"

definition fts_object_refer :: "addr \<Rightarrow> obj_store \<Rightarrow> obj_store option" where
  "fts_object_refer x st = (case st x of None \<Rightarrow> None | Some n \<Rightarrow> Some (st(x := Some (n + 1))))"

definition fts_object_release :: "addr \<Rightarrow> obj_store \<Rightarrow> obj_store option" where
  "fts_object_release x st =
     (case st x of None \<Rightarrow> None
      | Some n \<Rightarrow> Some (if n - 1 > 0 then st(x := Some (n - 1)) else st(x := None)))"

definition fts_atom_refer :: "atom \<Rightarrow> obj_store \<Rightarrow> obj_store option" where
  "fts_atom_refer a st = (case a of AObject x \<Rightarrow> fts_object_refer x st | _ \<Rightarrow> Some st)"

definition fts_atom_release :: "atom \<Rightarrow> obj_store \<Rightarrow> obj_store option" where
  "fts_atom_release a st = (case a of AObject x \<Rightarrow> fts_object_release x st | _ \<Rightarrow> Some st)"

text \<open>\<open>fts_atom_assign\<close>: the new contents of the destination and the new store.\<close>

definition fts_atom_assign :: "atom \<Rightarrow> atom \<Rightarrow> obj_store \<Rightarrow> (atom \<times> obj_store) option" where
  "fts_atom_assign dest src st =
     do { st1 \<leftarrow> fts_atom_release dest st; st2 \<leftarrow> fts_atom_refer src st1; Some (src, st2) }"

definition fts_atom_void :: "atom \<Rightarrow> obj_store \<Rightarrow> (atom \<times> obj_store) option" where
  "fts_atom_void dest st = do { st1 \<leftarrow> fts_atom_release dest st; Some (AVoid, st1) }"

text \<open>
  The accounting: \<open>ext x\<close> references are held outside of the slots \<open>xs\<close> under consideration, and
  every object that is referenced at all is live with exactly as many counts as references.
\<close>

definition ocount :: "addr \<Rightarrow> atom list \<Rightarrow> nat" where
  "ocount x xs = length (filter (\<lambda>a. a = AObject x) xs)"

definition balanced :: "obj_store \<Rightarrow> (addr \<Rightarrow> nat) \<Rightarrow> atom list \<Rightarrow> bool" where
  "balanced st ext xs \<longleftrightarrow>
     (\<forall>x. ext x + ocount x xs > 0 \<longrightarrow> st x = Some (int (ext x + ocount x xs)))"

definition held :: "(addr \<Rightarrow> nat) \<Rightarrow> atom \<Rightarrow> bool" where
  "held ext a = (case a of AObject x \<Rightarrow> ext x > 0 | _ \<Rightarrow> True)"

lemma ocount_simps [simp]:
  "ocount x [] = 0"
  "ocount x (a # xs) = (if a = AObject x then Suc (ocount x xs) else ocount x xs)"
  "ocount x (xs @ ys) = ocount x xs + ocount x ys"
  by (simp_all add: ocount_def)

lemma ocount_replicate_Void [simp]: "ocount x (replicate n AVoid) = 0"
  by (induction n) auto

lemma balanced_cong: "(\<And>x. ocount x xs = ocount x ys) \<Longrightarrow> balanced st ext xs = balanced st ext ys"
  by (simp add: balanced_def)

lemma balanced_release:
  assumes "balanced st ext (a # xs)"
  shows "\<exists>st'. fts_atom_release a st = Some st' \<and> balanced st' ext xs"
proof (cases a)
  case (AObject x)
  with assms have "st x = Some (int (ext x + Suc (ocount x xs)))"
    by (auto simp: balanced_def)
  with assms AObject show ?thesis
    by (auto simp: fts_atom_release_def fts_object_release_def balanced_def split: if_splits)
qed (use assms in \<open>auto simp: fts_atom_release_def balanced_def\<close>)

lemma balanced_refer:
  assumes "balanced st ext xs" and "held ext a"
  shows "\<exists>st'. fts_atom_refer a st = Some st' \<and> balanced st' ext (a # xs)"
proof (cases a)
  case (AObject x)
  with assms have "st x = Some (int (ext x + ocount x xs))"
    by (auto simp: balanced_def held_def)
  with assms AObject show ?thesis
    by (auto simp: fts_atom_refer_def fts_object_refer_def balanced_def held_def)
qed (use assms in \<open>auto simp: fts_atom_refer_def balanced_def\<close>)

lemma balanced_assign:
  assumes "balanced st ext (d # xs)" and "held ext a"
  shows "\<exists>st'. fts_atom_assign d a st = Some (a, st') \<and> balanced st' ext (a # xs)"
  using balanced_release [OF assms(1)] balanced_refer [OF _ assms(2)]
  by (fastforce simp: fts_atom_assign_def)

lemma balanced_void:
  assumes "balanced st ext (d # xs)"
  shows "\<exists>st'. fts_atom_void d st = Some (AVoid, st') \<and> balanced st' ext (AVoid # xs)"
  using balanced_release [OF assms] by (fastforce simp: fts_atom_void_def balanced_def)

end
