(* ===== verification/Hashtable.thy ===== *)
theory Hashtable
  imports Atom
begin

text \<open>
  Hash tables (\<open>fts/hashtable.c\<close>): separate chaining over atoms, with rehashing.

  A bucket is the list of the cells of its chain, in chain order. A \<open>fts_hashtable_cell_t **\<close>,
  the link that \<open>lookup_cell\<close> returns, is a bucket number with a position in the chain; the
  position equal to the length of the chain is the null link at its end.
  The section proves that the table refines a map from keys to values: the locale \<open>key_table\<close>
  states the contract, and the table is an interpretation of it.
\<close>

type_synonym cell = "atom \<times> atom"

record hashtable =
  ht_length :: nat
  ht_count :: nat
  ht_rehash_count :: nat
  ht_table :: "cell list list"

text \<open>\<open>h = (h << 1) + *s\<close> over the characters, which are signed.\<close>

fun hash_string :: "int32 \<Rightarrow> string \<Rightarrow> int32" where
  "hash_string h [] = h"
| "hash_string h (c # s) = hash_string (push_bit 1 h + scast (byte_of_char c)) s"

definition hash :: "class_env \<Rightarrow> atom \<Rightarrow> int32" where
  "hash E a =
     (case a of
        AVoid \<Rightarrow> 0
      | AInt i \<Rightarrow> i
      | AFloat x \<Rightarrow> word_of_int (dbl_trunc x)
      | ASymbol s \<Rightarrow> drop_bit 3 (of_nat s)
      | APointer p \<Rightarrow> drop_bit 3 (of_nat p)
      | AString s \<Rightarrow> hash_string 0 s
      | AObject x \<Rightarrow> class_hash E (obj_class E x) a)"

definition equals :: "class_env \<Rightarrow> atom \<Rightarrow> atom \<Rightarrow> bool" where
  "equals E a b =
     (if \<not> fts_atom_same_type E a b then False
      else case (a, b) of
          (AVoid, _) \<Rightarrow> b = AVoid
        | (AInt i, AInt j) \<Rightarrow> i = j
        | (AFloat x, AFloat y) \<Rightarrow> dbl_eq x y
        | (ASymbol s, ASymbol t) \<Rightarrow> s = t
        | (APointer p, APointer q) \<Rightarrow> p = q
        | (AString s, AString t) \<Rightarrow> s = t
        | (AObject x, AObject y) \<Rightarrow> class_equals E (obj_class E x) x y
        | _ \<Rightarrow> False)"

datatype capacity = FTS_HASHTABLE_SMALL | FTS_HASHTABLE_MEDIUM | FTS_HASHTABLE_BIG | Other_capacity

fun initial_length :: "capacity \<Rightarrow> nat" where
  "initial_length FTS_HASHTABLE_SMALL = 7"
| "initial_length FTS_HASHTABLE_MEDIUM = 101"
| "initial_length FTS_HASHTABLE_BIG = 1031"
| "initial_length Other_capacity = 101"

text \<open>\<open>(int)(length * 0.75)\<close>: the product is exact in a double for every length the code uses.\<close>

definition load_limit :: "nat \<Rightarrow> nat" where
  "load_limit n = 3 * n div 4"

definition fts_hashtable_init :: "capacity \<Rightarrow> hashtable" where
  "fts_hashtable_init c =
     (let n = initial_length c
      in \<lparr>ht_length = n, ht_count = 0, ht_rehash_count = load_limit n, ht_table = replicate n []\<rparr>)"

definition fts_hashtable_clear :: "hashtable \<Rightarrow> hashtable" where
  "fts_hashtable_clear h = h\<lparr>ht_table := replicate (ht_length h) [], ht_count := 0\<rparr>"

fun chain_position :: "class_env \<Rightarrow> atom \<Rightarrow> cell list \<Rightarrow> nat" where
  "chain_position E key [] = 0"
| "chain_position E key (c # cs) =
     (if \<not> equals E (fst c) key then Suc (chain_position E key cs) else 0)"

definition bucket_of :: "class_env \<Rightarrow> nat \<Rightarrow> atom \<Rightarrow> nat" where
  "bucket_of E n key = unat (hash E key) mod n"

definition lookup_cell :: "class_env \<Rightarrow> hashtable \<Rightarrow> atom \<Rightarrow> nat \<times> nat" where
  "lookup_cell E h key =
     (let i = bucket_of E (ht_length h) key in (i, chain_position E key (ht_table h ! i)))"

definition fts_hashtable_get :: "class_env \<Rightarrow> hashtable \<Rightarrow> atom \<Rightarrow> atom option" where
  "fts_hashtable_get E h key =
     (case lookup_cell E h key of (i, p) \<Rightarrow>
        let chain = ht_table h ! i
        in if p < length chain then Some (snd (chain ! p)) else None)"

definition primes_suite :: "nat list" where
  "primes_suite = [7, 17, 31, 67, 127, 257, 521, 1031, 2053, 4099, 8191, 16411, 32771, 65537,
     131071, 262147, 524287, 1048583, 2097169, 4194319, 8388617, 16777259, 33554467]"

definition new_length :: "nat \<Rightarrow> nat" where
  "new_length n = (case find (\<lambda>p. n < p) primes_suite of Some p \<Rightarrow> p | None \<Rightarrow> last primes_suite)"

definition rehash_cell :: "class_env \<Rightarrow> nat \<Rightarrow> cell \<Rightarrow> cell list list \<Rightarrow> cell list list" where
  "rehash_cell E n c tab =
     (let index = bucket_of E n (fst c) in tab[index := c # tab ! index])"

definition rehash :: "class_env \<Rightarrow> hashtable \<Rightarrow> hashtable" where
  "rehash E h =
     (let n = new_length (ht_length h)
      in h\<lparr>ht_length := n, ht_rehash_count := load_limit n,
           ht_table := fold (fold (rehash_cell E n)) (ht_table h) (replicate n [])\<rparr>)"

text \<open>\<open>put\<close> returns 1 when the key was already mapped.\<close>

definition fts_hashtable_put :: "class_env \<Rightarrow> hashtable \<Rightarrow> atom \<Rightarrow> atom \<Rightarrow> bool \<times> hashtable" where
  "fts_hashtable_put E h key v =
     (case lookup_cell E h key of (i, p) \<Rightarrow>
        let chain = ht_table h ! i
        in if p < length chain
           then (True, h\<lparr>ht_table := (ht_table h)[i := chain[p := (fst (chain ! p), v)]]\<rparr>)
           else let h1 = h\<lparr>ht_table := (ht_table h)[i := chain @ [(key, v)]], ht_count := ht_count h + 1\<rparr>
                in (False, if ht_count h1 \<ge> ht_rehash_count h1 then rehash E h1 else h1))"

definition fts_hashtable_remove :: "class_env \<Rightarrow> hashtable \<Rightarrow> atom \<Rightarrow> bool \<times> hashtable" where
  "fts_hashtable_remove E h key =
     (case lookup_cell E h key of (i, p) \<Rightarrow>
        let chain = ht_table h ! i
        in if p < length chain
           then (True, h\<lparr>ht_table := (ht_table h)[i := take p chain @ drop (Suc p) chain],
                         ht_count := ht_count h - 1\<rparr>)
           else (False, h))"

subsection \<open>Keys\<close>

text \<open>
  A NaN is never equal to itself, and the equality of objects belongs to their class; every other
  key is determined by its normal form, which forgets the sign of a floating-point zero.
\<close>

definition plain :: "atom \<Rightarrow> bool" where
  "plain a = (case a of AFloat x \<Rightarrow> \<not> dbl_nan x | AObject _ \<Rightarrow> False | _ \<Rightarrow> True)"

definition nkey :: "atom \<Rightarrow> atom" where
  "nkey a = (case a of AFloat x \<Rightarrow> AFloat (if dbl_mag x = 0 then Double 0 else x) | _ \<Rightarrow> a)"

lemma dbl_eqI:
  assumes "dbl_mag x = dbl_mag y" and "dbl_neg x = dbl_neg y"
  shows "x = y"
proof -
  have low: "take_bit 63 (dbits x) = take_bit 63 (dbits y)"
    using assms(1) unfolding dbl_mag_def by (rule word_unat_eq_iff [THEN iffD2])
  have "dbits x = dbits y"
  proof (rule bit_word_eqI)
    fix n assume "n < LENGTH(64)"
    then consider "n < 63" | "n = 63" by fastforce
    then show "bit (dbits x) n = bit (dbits y) n"
    proof cases
      case 1
      then show ?thesis using low by (metis bit_take_bit_iff)
    next
      case 2
      then show ?thesis using assms(2) by (simp add: dbl_neg_def)
    qed
  qed
  then show ?thesis by (simp add: double.expand)
qed

lemma dbl_zero_key: "dbl_mag (Double 0) = 0" "\<not> dbl_nan (Double 0)"
  by (simp_all add: dbl_mag_def dbl_nan_def)

lemma dbl_eq_nkey:
  assumes "\<not> dbl_nan x" "\<not> dbl_nan y"
  shows "dbl_eq x y \<longleftrightarrow> nkey (AFloat x) = nkey (AFloat y)"
proof
  assume "dbl_eq x y"
  then show "nkey (AFloat x) = nkey (AFloat y)"
    by (auto simp: dbl_eq_def dbl_key_def nkey_def dbl_zero_key split: if_splits intro: dbl_eqI)
next
  assume "nkey (AFloat x) = nkey (AFloat y)"
  then show "dbl_eq x y"
    using assms by (auto simp: dbl_eq_def dbl_key_def nkey_def dbl_zero_key split: if_splits)
qed

lemma equals_nkey: "plain a \<Longrightarrow> plain b \<Longrightarrow> equals E a b \<longleftrightarrow> nkey a = nkey b"
  by (cases a; cases b)
    (auto simp: plain_def equals_def fts_atom_same_type_def dbl_eq_nkey, auto simp: nkey_def)

lemma hash_nkey:
  assumes "plain a" "plain b" "nkey a = nkey b"
  shows "hash E a = hash E b"
proof (cases "\<exists>x. a = AFloat x")
  case True
  then obtain x where a: "a = AFloat x" by blast
  with assms(3) obtain y where b: "b = AFloat y"
    by (cases b) (auto simp: nkey_def)
  from a b assms have "dbl_eq x y"
    using dbl_eq_nkey [of x y] by (simp add: plain_def)
  then show ?thesis by (simp add: a b hash_def dbl_eq_trunc)
next
  case False
  then have "nkey a = a" by (cases a) (auto simp: nkey_def)
  with assms(3) False have "b = a" by (cases b) (auto simp: nkey_def)
  then show ?thesis by simp
qed

lemma bucket_of_nkey: "plain a \<Longrightarrow> plain b \<Longrightarrow> nkey a = nkey b \<Longrightarrow> bucket_of E n a = bucket_of E n b"
  unfolding bucket_of_def by (metis hash_nkey)

subsection \<open>The invariant and the map a table stands for\<close>

definition cells :: "hashtable \<Rightarrow> cell list" where
  "cells h = concat (ht_table h)"

definition well_placed :: "class_env \<Rightarrow> nat \<Rightarrow> cell list list \<Rightarrow> bool" where
  "well_placed E n tab \<longleftrightarrow>
     length tab = n \<and> (\<forall>i < n. \<forall>c \<in> set (tab ! i). bucket_of E n (fst c) = i)"

definition keys_ok :: "cell list \<Rightarrow> bool" where
  "keys_ok cs \<longleftrightarrow> (\<forall>c \<in> set cs. plain (fst c)) \<and> distinct (map (nkey \<circ> fst) cs)"

definition ht_inv :: "class_env \<Rightarrow> hashtable \<Rightarrow> bool" where
  "ht_inv E h \<longleftrightarrow>
     ht_length h \<in> set (101 # primes_suite) \<and> ht_rehash_count h = load_limit (ht_length h) \<and>
     well_placed E (ht_length h) (ht_table h) \<and> keys_ok (cells h) \<and> ht_count h = length (cells h)"

definition ht_abs :: "hashtable \<Rightarrow> atom \<Rightarrow> atom option" where
  "ht_abs h = map_of (map (apfst nkey) (cells h))"

definition ht_loaded :: "hashtable \<Rightarrow> bool" where
  "ht_loaded h \<longleftrightarrow> ht_count h < ht_rehash_count h \<or> ht_length h = last primes_suite"

lemma length_pos: "n \<in> set (101 # primes_suite) \<Longrightarrow> 0 < n"
proof -
  have "list_all ((<) 0) (101 # primes_suite)" by (simp add: primes_suite_def)
  then show "n \<in> set (101 # primes_suite) \<Longrightarrow> 0 < n" by (metis list_all_iff)
qed

lemma bucket_of_less: "0 < n \<Longrightarrow> bucket_of E n k < n"
  by (simp add: bucket_of_def)

lemma keys_ok_mset: "mset cs = mset ds \<Longrightarrow> keys_ok cs = keys_ok ds"
proof -
  assume *: "mset cs = mset ds"
  then have "set cs = set ds" by (rule mset_eq_setD)
  moreover have "distinct (map (nkey \<circ> fst) cs) = distinct (map (nkey \<circ> fst) ds)"
    using * by (metis mset_eq_imp_distinct_iff mset_map)
  ultimately show ?thesis by (simp add: keys_ok_def)
qed

lemma distinct_fst_apfst: "distinct (map fst (map (apfst nkey) cs)) \<longleftrightarrow> distinct (map (nkey \<circ> fst) cs)"
  by (simp add: comp_def)

lemma map_of_mset:
  assumes "keys_ok cs" "mset cs = mset ds"
  shows "map_of (map (apfst nkey) cs) = map_of (map (apfst nkey) ds)"
proof -
  from assms have ok: "keys_ok ds" using keys_ok_mset by blast
  have s: "set (map (apfst nkey) cs) = set (map (apfst nkey) ds)"
    using mset_eq_setD [OF assms(2)] by simp
  have d: "distinct (map fst (map (apfst nkey) cs))" "distinct (map fst (map (apfst nkey) ds))"
    using assms(1) ok unfolding keys_ok_def distinct_fst_apfst by blast+
  show ?thesis using map_of_inject_set [OF d] s by blast
qed

lemma chain_position_find:
  "chain_position E key cs \<le> length cs"
  "(if chain_position E key cs < length cs then Some (snd (cs ! chain_position E key cs)) else None) =
   map_option snd (find (\<lambda>c. equals E (fst c) key) cs)"
  by (induction cs) auto

lemma chain_position_hit:
  "chain_position E key cs < length cs \<Longrightarrow> equals E (fst (cs ! chain_position E key cs)) key"
  by (induction cs) auto

lemma chain_position_miss:
  "chain_position E key cs = length cs \<Longrightarrow> c \<in> set cs \<Longrightarrow> \<not> equals E (fst c) key"
  by (induction cs) (auto split: if_splits)

lemma nth_cells: "i < length (ht_table h) \<Longrightarrow> c \<in> set (ht_table h ! i) \<Longrightarrow> c \<in> set (cells h)"
  unfolding cells_def by (auto intro: nth_mem)

lemma ht_inv_bucket:
  assumes "ht_inv E h"
  shows "bucket_of E (ht_length h) key < length (ht_table h)"
  using assms length_pos [of "ht_length h"]
  by (auto simp: ht_inv_def well_placed_def intro: bucket_of_less)

lemma ht_inv_in_bucket:
  assumes inv: "ht_inv E h" and c: "c \<in> set (cells h)"
  shows "c \<in> set (ht_table h ! bucket_of E (ht_length h) (fst c))"
proof -
  from c obtain ch where "ch \<in> set (ht_table h)" "c \<in> set ch" by (auto simp: cells_def)
  then obtain i where "i < length (ht_table h)" "c \<in> set (ht_table h ! i)"
    by (metis in_set_conv_nth)
  moreover from this inv have "bucket_of E (ht_length h) (fst c) = i"
    by (simp add: ht_inv_def well_placed_def)
  ultimately show ?thesis by simp
qed

lemma ht_inv_plain: "ht_inv E h \<Longrightarrow> c \<in> set (cells h) \<Longrightarrow> plain (fst c)"
  by (simp add: ht_inv_def keys_ok_def)

lemma ht_abs_SomeI:
  assumes "ht_inv E h" "c \<in> set (cells h)"
  shows "ht_abs h (nkey (fst c)) = Some (snd c)"
proof -
  have "distinct (map fst (map (apfst nkey) (cells h)))"
    using assms(1) unfolding ht_inv_def keys_ok_def distinct_fst_apfst by blast
  moreover have "(nkey (fst c), snd c) \<in> set (map (apfst nkey) (cells h))"
    using assms(2) by (force simp: apfst_def map_prod_def)
  ultimately show ?thesis unfolding ht_abs_def by simp
qed

lemma ht_abs_SomeD:
  assumes "ht_abs h k = Some v"
  obtains c where "c \<in> set (cells h)" "nkey (fst c) = k" "snd c = v"
  using map_of_SomeD [OF assms [unfolded ht_abs_def]] by auto

text \<open>What the link returned by \<open>lookup_cell\<close> points to, in terms of the map.\<close>

lemma lookup_hit:
  assumes inv: "ht_inv E h" and key: "plain key"
    and lk: "lookup_cell E h key = (i, p)" and p: "p < length (ht_table h ! i)"
  shows "ht_abs h (nkey key) = Some (snd (ht_table h ! i ! p))" "nkey (fst (ht_table h ! i ! p)) = nkey key"
proof -
  let ?c = "ht_table h ! i ! p"
  from lk have i: "i = bucket_of E (ht_length h) key"
    and pos: "p = chain_position E key (ht_table h ! i)" by (auto simp: lookup_cell_def Let_def)
  have c: "?c \<in> set (cells h)"
    using p ht_inv_bucket [OF inv, of key] i by (intro nth_cells [of i]) auto
  have "equals E (fst ?c) key" using chain_position_hit p pos by blast
  then show nk: "nkey (fst ?c) = nkey key"
    using equals_nkey [OF ht_inv_plain [OF inv c] key] by blast
  show "ht_abs h (nkey key) = Some (snd ?c)"
    using ht_abs_SomeI [OF inv c] nk by simp
qed

lemma lookup_miss:
  assumes inv: "ht_inv E h" and key: "plain key"
    and lk: "lookup_cell E h key = (i, p)" and p: "\<not> p < length (ht_table h ! i)"
  shows "ht_abs h (nkey key) = None"
proof (rule ccontr)
  assume "ht_abs h (nkey key) \<noteq> None"
  then obtain c where c: "c \<in> set (cells h)" "nkey (fst c) = nkey key"
    by (metis ht_abs_SomeD not_None_eq)
  from lk have i: "i = bucket_of E (ht_length h) key"
    and pos: "p = chain_position E key (ht_table h ! i)" by (auto simp: lookup_cell_def Let_def)
  have pl: "plain (fst c)" by (rule ht_inv_plain [OF inv c(1)])
  have "c \<in> set (ht_table h ! i)"
    using ht_inv_in_bucket [OF inv c(1)] bucket_of_nkey [OF pl key c(2)] i by simp
  moreover have "chain_position E key (ht_table h ! i) = length (ht_table h ! i)"
    using p pos chain_position_find(1) [of E key "ht_table h ! i"] by simp
  ultimately have "\<not> equals E (fst c) key" by (rule chain_position_miss [rotated])
  then show False using equals_nkey [OF pl key] c(2) by blast
qed

lemma get_abs:
  assumes "ht_inv E h" "plain key"
  shows "fts_hashtable_get E h key = ht_abs h (nkey key)"
proof -
  obtain i p where lk: "lookup_cell E h key = (i, p)" by fastforce
  show ?thesis
    using lookup_hit [OF assms lk] lookup_miss [OF assms lk]
    by (auto simp: fts_hashtable_get_def lk Let_def)
qed

subsection \<open>Invariant and effect of the operations\<close>

lemma ht_inv_init: "ht_inv E (fts_hashtable_init c)"
  by (cases c) (auto simp: ht_inv_def fts_hashtable_init_def Let_def well_placed_def keys_ok_def
      cells_def primes_suite_def)

lemma ht_abs_init [simp]: "ht_abs (fts_hashtable_init c) = Map.empty"
  by (simp add: ht_abs_def cells_def fts_hashtable_init_def Let_def)

lemma ht_inv_clear: "ht_inv E h \<Longrightarrow> ht_inv E (fts_hashtable_clear h)"
  by (auto simp: ht_inv_def fts_hashtable_clear_def well_placed_def keys_ok_def cells_def)

lemma ht_abs_clear [simp]: "ht_abs (fts_hashtable_clear h) = Map.empty"
  by (simp add: ht_abs_def cells_def fts_hashtable_clear_def)

lemma well_placed_update:
  assumes "well_placed E n tab" and "\<And>c. c \<in> set ch \<Longrightarrow> bucket_of E n (fst c) = i"
  shows "well_placed E n (tab[i := ch])"
  unfolding well_placed_def
proof (intro conjI allI impI ballI)
  show "length (tab[i := ch]) = n" using assms(1) by (simp add: well_placed_def)
  fix j c assume "j < n" "c \<in> set (tab[i := ch] ! j)"
  then show "bucket_of E n (fst c) = j"
    using assms by (cases "j = i") (auto simp: well_placed_def simp del: split_paired_All)
qed

lemma well_placed_bucketD:
  "well_placed E n tab \<Longrightarrow> i < length tab \<Longrightarrow> c \<in> set (tab ! i) \<Longrightarrow> bucket_of E n (fst c) = i"
  by (simp add: well_placed_def)

lemma rehash_cell_spec:
  assumes "well_placed E n tab" "0 < n"
  shows "well_placed E n (rehash_cell E n c tab)"
    and "mset (concat (rehash_cell E n c tab)) = add_mset c (mset (concat tab))"
proof -
  let ?i = "bucket_of E n (fst c)"
  have i: "?i < length tab"
    using assms bucket_of_less [of n E "fst c"] by (simp add: well_placed_def)
  show "well_placed E n (rehash_cell E n c tab)"
    using assms(1) well_placed_bucketD [OF assms(1) i]
    by (auto simp: rehash_cell_def Let_def intro!: well_placed_update)
  show "mset (concat (rehash_cell E n c tab)) = add_mset c (mset (concat tab))"
    using mset_concat_update [OF i, of "c # tab ! ?i"] by (simp add: rehash_cell_def Let_def)
qed

lemma rehash_fold_spec:
  assumes "well_placed E n tab" "0 < n"
  shows "well_placed E n (fold (rehash_cell E n) cs tab) \<and>
         mset (concat (fold (rehash_cell E n) cs tab)) = mset cs + mset (concat tab)"
  using assms
proof (induction cs arbitrary: tab)
  case Nil
  then show ?case by simp
next
  case (Cons c cs)
  then show ?case
    using rehash_cell_spec [OF Cons.prems, of c] Cons.IH [of "rehash_cell E n c tab"] by simp
qed

lemma new_length_in: "new_length n \<in> set (101 # primes_suite)"
proof -
  have "last primes_suite \<in> set primes_suite" by (intro last_in_set) (simp add: primes_suite_def)
  then show ?thesis
    unfolding new_length_def by (auto split: option.split simp: find_Some_iff)
qed

lemma well_placed_empty: "well_placed E n (replicate n [])"
  by (simp add: well_placed_def)

lemma rehash_spec:
  shows "mset (cells (rehash E h)) = mset (cells h)"
    and "well_placed E (ht_length (rehash E h)) (ht_table (rehash E h))"
    and "ht_length (rehash E h) = new_length (ht_length h)"
    and "ht_rehash_count (rehash E h) = load_limit (new_length (ht_length h))"
    and "ht_count (rehash E h) = ht_count h"
  using rehash_fold_spec [OF well_placed_empty length_pos [OF new_length_in], of E "ht_length h" "cells h"]
  by (simp_all add: rehash_def Let_def cells_def fold_fold_concat)

text \<open>The part of the invariant that does not bound the load.\<close>

lemma rehash_inv:
  assumes "keys_ok (cells h)" "ht_count h = length (cells h)"
  shows "ht_inv E (rehash E h)" and "ht_abs (rehash E h) = ht_abs h"
proof -
  have m: "mset (cells (rehash E h)) = mset (cells h)" by (rule rehash_spec)
  have ok: "keys_ok (cells (rehash E h))"
    using keys_ok_mset [OF m] assms(1) by blast
  have "length (cells (rehash E h)) = length (cells h)" using m by (rule mset_eq_length)
  then show "ht_inv E (rehash E h)"
    unfolding ht_inv_def using ok assms(2) rehash_spec [of E h] new_length_in by simp
  show "ht_abs (rehash E h) = ht_abs h"
    unfolding ht_abs_def by (rule map_of_mset [OF ok m])
qed

text \<open>One bucket changed: cells removed from it and added to it.\<close>

lemma mset_cells_change:
  assumes "i < length tab" "tab ! i = xs @ ds @ ys"
  shows "\<exists>R. mset (concat tab) = mset ds + R \<and> (\<forall>cs. mset (concat (tab[i := xs @ cs @ ys])) = mset cs + R)"
proof (intro exI conjI allI)
  let ?R = "mset (concat (tab[i := xs @ ys]))"
  have "?R + mset (tab ! i) = mset (concat tab) + mset (xs @ ys)"
    using assms(1) by (rule mset_concat_update)
  then show "mset (concat tab) = mset ds + ?R" by (simp add: assms(2) ac_simps)
  fix cs
  have "mset (concat ((tab[i := xs @ ys])[i := xs @ cs @ ys])) + mset ((tab[i := xs @ ys]) ! i) =
        ?R + mset (xs @ cs @ ys)"
    using assms(1) by (intro mset_concat_update) simp
  then show "mset (concat (tab[i := xs @ cs @ ys])) = mset cs + ?R"
    using assms(1) by (simp add: ac_simps)
qed

abbreviation cell_map :: "cell list \<Rightarrow> atom \<Rightarrow> atom option" where
  "cell_map cs \<equiv> map_of (map (apfst nkey) cs)"

lemma keys_ok_Cons:
  "keys_ok (c # cs) \<longleftrightarrow> plain (fst c) \<and> keys_ok cs \<and> cell_map cs (nkey (fst c)) = None"
  by (auto simp: keys_ok_def map_of_eq_None_iff image_iff)

lemma cell_map_Cons: "cell_map (c # cs) = (cell_map cs)(nkey (fst c) \<mapsto> snd c)"
  by (cases c) simp

lemma cells_change:
  assumes inv: "ht_inv E h" and i: "i < length (ht_table h)" "ht_table h ! i = xs @ ds @ ys"
  obtains r where "mset (cells h) = mset (ds @ r)" "keys_ok (ds @ r)" "ht_abs h = cell_map (ds @ r)"
    and "\<And>cs n. keys_ok (cs @ r) \<Longrightarrow> (\<And>c. c \<in> set cs \<Longrightarrow> bucket_of E (ht_length h) (fst c) = i) \<Longrightarrow>
         (let h' = h\<lparr>ht_table := (ht_table h)[i := xs @ cs @ ys], ht_count := length (cs @ r)\<rparr>
          in ht_inv E h' \<and> ht_abs h' = cell_map (cs @ r))"
proof -
  obtain R where R: "mset (cells h) = mset ds + R"
    "\<And>cs. mset (concat ((ht_table h)[i := xs @ cs @ ys])) = mset cs + R"
    using mset_cells_change [OF i] unfolding cells_def by blast
  obtain r where r: "mset r = R" using ex_mset by blast
  have m: "mset (cells h) = mset (ds @ r)" using R(1) r by simp
  have ok: "keys_ok (cells h)" using inv by (simp add: ht_inv_def)
  have ok': "keys_ok (ds @ r)" using ok keys_ok_mset [OF m] by blast
  have abs: "ht_abs h = cell_map (ds @ r)" unfolding ht_abs_def using ok m by (rule map_of_mset)
  show ?thesis
  proof (rule that [OF m ok' abs])
    fix cs
    assume ok'': "keys_ok (cs @ r)" and b: "\<And>c. c \<in> set cs \<Longrightarrow> bucket_of E (ht_length h) (fst c) = i"
    let ?h = "h\<lparr>ht_table := (ht_table h)[i := xs @ cs @ ys], ht_count := length (cs @ r)\<rparr>"
    have m': "mset (cells ?h) = mset (cs @ r)" using R(2) r by (simp add: cells_def)
    have wp: "well_placed E (ht_length h) (ht_table h)" using inv by (simp add: ht_inv_def)
    have "well_placed E (ht_length h) ((ht_table h)[i := xs @ cs @ ys])"
      using wp b well_placed_bucketD [OF wp i(1)] i(2) by (intro well_placed_update) auto
    then have "ht_inv E ?h"
      using inv ok'' keys_ok_mset [OF m'] mset_eq_length [OF m'] unfolding ht_inv_def by simp
    moreover have "ht_abs ?h = cell_map (cs @ r)"
      unfolding ht_abs_def using keys_ok_mset [OF m'] ok'' m' by (intro map_of_mset) blast+
    ultimately show "let h' = ?h in ht_inv E h' \<and> ht_abs h' = cell_map (cs @ r)" by (simp add: Let_def)
  qed
qed

lemma ht_count_same: "n = ht_count h \<Longrightarrow> h\<lparr>ht_table := t, ht_count := n\<rparr> = h\<lparr>ht_table := t\<rparr>"
  by simp

text \<open>A cell found by \<open>lookup_cell\<close>, replaced or unlinked.\<close>

lemma cells_hit:
  assumes inv: "ht_inv E h" and key: "plain key"
    and lk: "lookup_cell E h key = (i, p)" and p: "p < length (ht_table h ! i)"
    and ch: "ch = ht_table h ! i" "c = ch ! p"
  obtains r where "keys_ok (c # r)" "ht_abs h = cell_map (c # r)" "ht_count h = Suc (length r)"
    "nkey (fst c) = nkey key"
    "\<And>v. let h' = h\<lparr>ht_table := (ht_table h)[i := ch[p := (fst c, v)]]\<rparr>
         in ht_inv E h' \<and> ht_abs h' = cell_map ((fst c, v) # r)"
    "let h' = h\<lparr>ht_table := (ht_table h)[i := take p ch @ drop (Suc p) ch], ht_count := ht_count h - 1\<rparr>
     in ht_inv E h' \<and> ht_abs h' = cell_map r"
proof -
  have ib: "i = bucket_of E (ht_length h) key" using lk by (simp add: lookup_cell_def Let_def)
  have i: "i < length (ht_table h)" using ht_inv_bucket [OF inv] ib by simp
  have split: "ht_table h ! i = take p ch @ [c] @ drop (Suc p) ch"
    using p by (simp add: ch id_take_nth_drop)
  obtain r where r: "mset (cells h) = mset ([c] @ r)" "keys_ok ([c] @ r)" "ht_abs h = cell_map ([c] @ r)"
    and step: "\<And>cs. keys_ok (cs @ r) \<Longrightarrow> (\<And>c. c \<in> set cs \<Longrightarrow> bucket_of E (ht_length h) (fst c) = i) \<Longrightarrow>
       (let h' = h\<lparr>ht_table := (ht_table h)[i := take p ch @ cs @ drop (Suc p) ch], ht_count := length (cs @ r)\<rparr>
        in ht_inv E h' \<and> ht_abs h' = cell_map (cs @ r))"
    using cells_change [OF inv i split] by metis
  have bc: "bucket_of E (ht_length h) (fst c) = i"
    using inv i p by (simp add: ht_inv_def well_placed_def ch)
  have n: "ht_count h = Suc (length r)"
    using inv mset_eq_length [OF r(1)] by (simp add: ht_inv_def)
  have "let h' = h\<lparr>ht_table := (ht_table h)[i := ch[p := (fst c, v)]]\<rparr>
        in ht_inv E h' \<and> ht_abs h' = cell_map ((fst c, v) # r)" for v
  proof -
    have "length ([(fst c, v)] @ r) = ht_count h" using n by simp
    moreover have "take p ch @ [(fst c, v)] @ drop (Suc p) ch = ch[p := (fst c, v)]"
      using p ch by (simp add: upd_conv_take_nth_drop)
    ultimately show ?thesis
      using step [of "[(fst c, v)]"] r(2) bc by (simp add: keys_ok_Cons Let_def ht_count_same)
  qed
  moreover have "let h' = h\<lparr>ht_table := (ht_table h)[i := take p ch @ drop (Suc p) ch], ht_count := ht_count h - 1\<rparr>
     in ht_inv E h' \<and> ht_abs h' = cell_map r"
    using step [of "[]"] r(2) n by (simp add: keys_ok_Cons Let_def)
  ultimately show ?thesis
    using that [of r] r n lookup_hit(2) [OF inv key lk p] by (simp add: ch)
qed

text \<open>A new cell linked at the end of its chain.\<close>

lemma cells_miss:
  assumes inv: "ht_inv E h" and key: "plain key"
    and lk: "lookup_cell E h key = (i, p)" and p: "\<not> p < length (ht_table h ! i)"
    and h': "h' = h\<lparr>ht_table := (ht_table h)[i := ht_table h ! i @ [(key, v)]], ht_count := ht_count h + 1\<rparr>"
  shows "ht_inv E h'" "ht_abs h' = (ht_abs h)(nkey key \<mapsto> v)" "ht_abs h (nkey key) = None"
proof -
  have ib: "i = bucket_of E (ht_length h) key" using lk by (simp add: lookup_cell_def Let_def)
  have i: "i < length (ht_table h)" using ht_inv_bucket [OF inv] ib by simp
  show miss: "ht_abs h (nkey key) = None" using lookup_miss [OF inv key lk p] .
  obtain r where r: "mset (cells h) = mset ([] @ r)" "keys_ok ([] @ r)" "ht_abs h = cell_map ([] @ r)"
    and step: "\<And>cs. keys_ok (cs @ r) \<Longrightarrow> (\<And>c. c \<in> set cs \<Longrightarrow> bucket_of E (ht_length h) (fst c) = i) \<Longrightarrow>
       (let h' = h\<lparr>ht_table := (ht_table h)[i := ht_table h ! i @ cs @ []], ht_count := length (cs @ r)\<rparr>
        in ht_inv E h' \<and> ht_abs h' = cell_map (cs @ r))"
    using cells_change [OF inv i, of "ht_table h ! i" "[]" "[]"] by auto
  have n: "ht_count h = length r"
    using inv mset_eq_length [OF r(1)] by (simp add: ht_inv_def)
  have "keys_ok ([(key, v)] @ r)" using r(2,3) key miss by (simp add: keys_ok_Cons)
  then show "ht_inv E h'" "ht_abs h' = (ht_abs h)(nkey key \<mapsto> v)"
    using step [of "[(key, v)]"] ib n r(3) by (simp_all add: Let_def h')
qed

lemma put_spec:
  assumes inv: "ht_inv E h" and key: "plain key"
  shows "ht_inv E (snd (fts_hashtable_put E h key v)) \<and>
         ht_abs (snd (fts_hashtable_put E h key v)) = (ht_abs h)(nkey key \<mapsto> v) \<and>
         (fst (fts_hashtable_put E h key v) \<longleftrightarrow> ht_abs h (nkey key) \<noteq> None)"
proof -
  obtain i p where lk: "lookup_cell E h key = (i, p)" by fastforce
  show ?thesis
  proof (cases "p < length (ht_table h ! i)")
    case True
    show ?thesis
      by (rule cells_hit [OF inv key lk True refl refl])
        (use True in \<open>auto simp: fts_hashtable_put_def lk Let_def fun_eq_iff\<close>)
  next
    case False
    define h1 where
      h1: "h1 = h\<lparr>ht_table := (ht_table h)[i := ht_table h ! i @ [(key, v)]], ht_count := ht_count h + 1\<rparr>"
    note miss = cells_miss [OF inv key lk False h1]
    have "ht_inv E (rehash E h1)" "ht_abs (rehash E h1) = ht_abs h1"
      using rehash_inv [of h1 E] miss(1) by (simp_all add: ht_inv_def)
    moreover have "fts_hashtable_put E h key v =
        (False, if ht_count h1 \<ge> ht_rehash_count h1 then rehash E h1 else h1)"
      using False by (simp add: fts_hashtable_put_def lk Let_def h1)
    ultimately show ?thesis using miss by simp
  qed
qed

lemma table_remove_spec:
  assumes inv: "ht_inv E h" and key: "plain key"
  shows "ht_inv E (snd (fts_hashtable_remove E h key)) \<and>
         ht_abs (snd (fts_hashtable_remove E h key)) = (ht_abs h)(nkey key := None) \<and>
         (fst (fts_hashtable_remove E h key) \<longleftrightarrow> ht_abs h (nkey key) \<noteq> None)"
proof -
  obtain i p where lk: "lookup_cell E h key = (i, p)" by fastforce
  show ?thesis
  proof (cases "p < length (ht_table h ! i)")
    case True
    show ?thesis
      by (rule cells_hit [OF inv key lk True refl refl])
        (use True in \<open>auto simp: fts_hashtable_remove_def lk Let_def fun_eq_iff keys_ok_Cons\<close>)
  next
    case False
    then show ?thesis
      using lookup_miss [OF inv key lk False] inv
      by (auto simp: fts_hashtable_remove_def lk Let_def)
  qed
qed

text \<open>The load: a rehash makes room, except at the largest length.\<close>

lemma primes_suite_facts:
  "list_all odd (101 # primes_suite)" "list_all (\<lambda>p. p \<le> 33554467) (101 # primes_suite)"
  "last primes_suite = 33554467" "33554467 \<in> set primes_suite"
  by (simp_all add: primes_suite_def)

lemma primes_suite_odd: "n \<in> set (101 # primes_suite) \<Longrightarrow> odd n"
  using primes_suite_facts(1) by (metis list_all_iff)

lemma primes_suite_le: "n \<in> set (101 # primes_suite) \<Longrightarrow> n \<le> last primes_suite"
  using primes_suite_facts(2,3) by (metis list_all_iff)

lemma new_length_less: "n < last primes_suite \<Longrightarrow> n < new_length n \<and> new_length n \<in> set primes_suite"
  using primes_suite_facts(3,4) unfolding new_length_def
  by (auto split: option.split simp: find_None_iff find_Some_iff)

lemma new_length_last: "new_length (last primes_suite) = last primes_suite"
proof -
  have "find (\<lambda>p. last primes_suite < p) primes_suite = None"
    using primes_suite_le unfolding find_None_iff by (metis list.set_intros(2) not_le)
  then show ?thesis by (simp add: new_length_def)
qed

lemma new_length_cases:
  assumes "n \<in> set (101 # primes_suite)"
  obtains "n = last primes_suite" "new_length n = last primes_suite" | "n + 2 \<le> new_length n" "n < last primes_suite"
proof (cases "n = last primes_suite")
  case True
  show ?thesis using that(1) True new_length_last by metis
next
  case False
  then have "n < last primes_suite" using primes_suite_le [OF assms] by linarith
  moreover from this have "n < new_length n" "odd (new_length n)"
    using new_length_less primes_suite_odd by (metis, metis list.set_intros(2))
  moreover have "odd n" by (rule primes_suite_odd [OF assms])
  ultimately have "n + 2 \<le> new_length n" by presburger
  then show ?thesis using that(2) \<open>n < last primes_suite\<close> by blast
qed

lemma load_limit_grows:
  assumes "n \<in> set (101 # primes_suite)"
  shows "(n = last primes_suite \<and> new_length n = last primes_suite) \<or> load_limit n < load_limit (new_length n)"
  using assms
proof (rule new_length_cases)
  assume "n + 2 \<le> new_length n"
  then show ?thesis unfolding load_limit_def by linarith
qed simp

lemma ht_loaded_init: "ht_loaded (fts_hashtable_init c)"
  by (cases c) (auto simp: ht_loaded_def fts_hashtable_init_def Let_def load_limit_def)

lemma ht_loaded_put:
  assumes inv: "ht_inv E h" and load: "ht_loaded h"
  shows "ht_loaded (snd (fts_hashtable_put E h key v))"
proof -
  obtain i p where lk: "lookup_cell E h key = (i, p)" by fastforce
  let ?t = "(ht_table h)[i := ht_table h ! i @ [(key, v)]]"
  let ?h1 = "h\<lparr>ht_table := ?t, ht_count := ht_count h + 1\<rparr>"
  have len: "ht_length h \<in> set (101 # primes_suite)" and lim: "ht_rehash_count h = load_limit (ht_length h)"
    using inv unfolding ht_inv_def by blast+
  have "ht_loaded (rehash E ?h1)" if "ht_rehash_count h \<le> ht_count h + 1"
  proof (rule new_length_cases [OF len])
    assume "new_length (ht_length h) = last primes_suite"
    then show ?thesis by (simp add: ht_loaded_def rehash_spec)
  next
    assume "ht_length h + 2 \<le> new_length (ht_length h)" "ht_length h < last primes_suite"
    then show ?thesis
      using load_limit_grows [OF len] load lim that
      by (auto simp: ht_loaded_def rehash_spec load_limit_def)
  qed
  then show ?thesis
    using load unfolding fts_hashtable_put_def lk Let_def prod.case
    by (simp add: ht_loaded_def)
qed

lemma ht_loaded_remove: "ht_loaded h \<Longrightarrow> ht_loaded (snd (fts_hashtable_remove E h key))"
  by (auto simp: fts_hashtable_remove_def Let_def ht_loaded_def split: prod.split)

subsection \<open>Iterators\<close>

text \<open>
  The iterator walks the buckets from the last to the first. \<open>it_cell\<close> is the rest of the chain from
  the current cell (empty for a null pointer). Reading the table at a negative index, which happens
  when an exhausted iterator is asked again, is \<^const>\<open>None\<close>; so is using an iterator that
  \<open>has_more\<close> has freed (its data is \<^const>\<open>None\<close>).
\<close>

record ht_iterator =
  it_table :: "cell list list"
  it_index :: int
  it_keys :: bool
  it_cell :: "cell list"

text \<open>\<open>while (i->index--) if (table[index]) ...\<close>: the final index and the cell found.\<close>

fun scan_back :: "cell list list \<Rightarrow> nat \<Rightarrow> int \<times> cell list" where
  "scan_back tab 0 = (-1, [])"
| "scan_back tab (Suc n) = (if tab ! n \<noteq> [] then (int n, tab ! n) else scan_back tab n)"

definition hashtable_iterator_get :: "hashtable \<Rightarrow> bool \<Rightarrow> ht_iterator" where
  "hashtable_iterator_get h keys =
     \<lparr>it_table = ht_table h, it_index = int (ht_length h), it_keys = keys, it_cell = []\<rparr>"

definition fts_hashtable_get_keys :: "hashtable \<Rightarrow> ht_iterator" where
  "fts_hashtable_get_keys h = hashtable_iterator_get h True"

definition fts_hashtable_get_values :: "hashtable \<Rightarrow> ht_iterator" where
  "fts_hashtable_get_values h = hashtable_iterator_get h False"

definition hashtable_iterator_has_more :: "ht_iterator \<Rightarrow> (bool \<times> ht_iterator option) option" where
  "hashtable_iterator_has_more i =
     (if it_cell i \<noteq> [] then Some (True, Some i)
      else if it_index i < 0 then None
      else case scan_back (it_table i) (nat (it_index i)) of
          (k, []) \<Rightarrow> Some (False, None)
        | (k, c # cs) \<Rightarrow> Some (True, Some (i\<lparr>it_index := k, it_cell := c # cs\<rparr>)))"

definition hashtable_iterator_next :: "ht_iterator \<Rightarrow> (atom option \<times> ht_iterator) option" where
  "hashtable_iterator_next i =
     (let found = (if it_cell i \<noteq> [] then Some i
                   else if it_index i < 0 then None
                   else case scan_back (it_table i) (nat (it_index i)) of
                       (k, cs) \<Rightarrow> Some (i\<lparr>it_index := k, it_cell := cs\<rparr>))
      in case found of
           None \<Rightarrow> None
         | Some i1 \<Rightarrow>
             (case it_cell i1 of
                [] \<Rightarrow> Some (None, i1)
              | c # cs \<Rightarrow> Some (Some (if it_keys i1 then fst c else snd c), i1\<lparr>it_cell := cs\<rparr>)))"

text \<open>The loop of the callers: \<open>while (has_more(i)) { next(i, &a); ... }\<close>, with fuel.\<close>

fun iterate :: "nat \<Rightarrow> ht_iterator \<Rightarrow> atom list option" where
  "iterate 0 i = None"
| "iterate (Suc fuel) i =
     (case hashtable_iterator_has_more i of
        Some (True, Some i1) \<Rightarrow>
          (case hashtable_iterator_next i1 of
             Some (Some a, i2) \<Rightarrow> map_option ((#) a) (iterate fuel i2)
           | _ \<Rightarrow> None)
      | Some (False, None) \<Rightarrow> Some []
      | _ \<Rightarrow> None)"

definition it_rest :: "ht_iterator \<Rightarrow> cell list" where
  "it_rest i = it_cell i @ concat (rev (take (nat (it_index i)) (it_table i)))"

lemma scan_back_spec:
  assumes "n \<le> length tab" "scan_back tab n = (k, cs)"
  shows "concat (rev (take n tab)) = cs @ concat (rev (take (nat k) tab))"
    and "cs \<noteq> [] \<Longrightarrow> 0 \<le> k \<and> nat k \<le> length tab" and "cs = [] \<Longrightarrow> k = -1"
  using assms by (induction n) (auto simp: take_Suc_conv_app_nth split: if_splits)

lemma iterate_rest:
  assumes "0 \<le> it_index i" "nat (it_index i) \<le> length (it_table i)" "length (it_rest i) < fuel"
  shows "iterate fuel i = Some (map (if it_keys i then fst else snd) (it_rest i))"
  using assms
proof (induction fuel arbitrary: i)
  case 0
  then show ?case by simp
next
  case (Suc fuel)
  show ?case
  proof (cases "it_cell i")
    case (Cons c cs)
    then show ?thesis
      using Suc.IH [of "i\<lparr>it_cell := cs\<rparr>"] Suc.prems
      by (simp add: hashtable_iterator_has_more_def hashtable_iterator_next_def it_rest_def)
  next
    case Nil
    obtain k ds where sb: "scan_back (it_table i) (nat (it_index i)) = (k, ds)" by fastforce
    note spec = scan_back_spec [OF Suc.prems(2) sb]
    show ?thesis
    proof (cases ds)
      case Nil
      then show ?thesis
        using Nil \<open>it_cell i = []\<close> sb spec(1,3) Suc.prems(1)
        by (auto simp: hashtable_iterator_has_more_def it_rest_def)
    next
      case (Cons d ds')
      then show ?thesis
        using \<open>it_cell i = []\<close> sb spec Suc.prems
          Suc.IH [of "i\<lparr>it_index := k, it_cell := ds'\<rparr>"]
        by (simp add: hashtable_iterator_has_more_def hashtable_iterator_next_def it_rest_def)
    qed
  qed
qed

lemma iterate_all:
  assumes "ht_inv E h" "length (cells h) < fuel"
  shows "iterate fuel (hashtable_iterator_get h keys) =
         Some (map (if keys then fst else snd) (concat (rev (ht_table h))))"
proof -
  have len: "length (ht_table h) = ht_length h" using assms(1) by (simp add: ht_inv_def well_placed_def)
  have "length (concat (rev (ht_table h))) = length (cells h)"
    by (simp add: cells_def length_concat rev_map [symmetric])
  then show ?thesis
    using iterate_rest [of "hashtable_iterator_get h keys" fuel] assms(2) len
    by (simp add: hashtable_iterator_get_def it_rest_def)
qed

subsection \<open>The contract\<close>

text \<open>
  What the clients of the table (symbols, shared values, object sets, class method tables) rely on:
  a finite map over keys taken up to an equivalence.
\<close>

locale key_table =
  fixes ok :: "'k \<Rightarrow> bool" and nf :: "'k \<Rightarrow> 'k"
    and inv :: "'t \<Rightarrow> bool" and lookup :: "'t \<Rightarrow> 'k \<Rightarrow> 'v option"
    and update :: "'t \<Rightarrow> 'k \<Rightarrow> 'v \<Rightarrow> bool \<times> 't" and delete :: "'t \<Rightarrow> 'k \<Rightarrow> bool \<times> 't"
  assumes inv_update: "inv t \<Longrightarrow> ok k \<Longrightarrow> inv (snd (update t k v))"
    and inv_delete: "inv t \<Longrightarrow> ok k \<Longrightarrow> inv (snd (delete t k))"
    and lookup_update: "inv t \<Longrightarrow> ok k \<Longrightarrow> ok k' \<Longrightarrow>
      lookup (snd (update t k v)) k' = (if nf k = nf k' then Some v else lookup t k')"
    and lookup_delete: "inv t \<Longrightarrow> ok k \<Longrightarrow> ok k' \<Longrightarrow>
      lookup (snd (delete t k)) k' = (if nf k = nf k' then None else lookup t k')"
    and lookup_nf: "inv t \<Longrightarrow> ok k \<Longrightarrow> ok k' \<Longrightarrow> nf k = nf k' \<Longrightarrow> lookup t k = lookup t k'"
    and update_found: "inv t \<Longrightarrow> ok k \<Longrightarrow> fst (update t k v) \<longleftrightarrow> lookup t k \<noteq> None"
    and delete_found: "inv t \<Longrightarrow> ok k \<Longrightarrow> fst (delete t k) \<longleftrightarrow> lookup t k \<noteq> None"
begin

lemma lookup_update_same: "inv t \<Longrightarrow> ok k \<Longrightarrow> lookup (snd (update t k v)) k = Some v"
  by (simp add: lookup_update)

lemma lookup_update_other:
  "inv t \<Longrightarrow> ok k \<Longrightarrow> ok k' \<Longrightarrow> nf k \<noteq> nf k' \<Longrightarrow> lookup (snd (update t k v)) k' = lookup t k'"
  by (simp add: lookup_update)

text \<open>A second \<open>put\<close> of a key reports the first, and a \<open>remove\<close> undoes it.\<close>

lemma update_update_found:
  "inv t \<Longrightarrow> ok k \<Longrightarrow> fst (update (snd (update t k v)) k w)"
  by (simp add: update_found inv_update lookup_update_same)

lemma lookup_delete_update:
  "inv t \<Longrightarrow> ok k \<Longrightarrow> ok k' \<Longrightarrow>
   lookup (snd (delete (snd (update t k v)) k)) k' = (if nf k = nf k' then None else lookup t k')"
  by (simp add: lookup_delete lookup_update inv_update)

text \<open>Filling a table with a list of bindings.\<close>

primrec update_all :: "'t \<Rightarrow> ('k \<times> 'v) list \<Rightarrow> 't" where
  "update_all t [] = t"
| "update_all t (b # bs) = update_all (snd (update t (fst b) (snd b))) bs"

lemma inv_update_all: "inv t \<Longrightarrow> (\<And>b. b \<in> set bs \<Longrightarrow> ok (fst b)) \<Longrightarrow> inv (update_all t bs)"
  by (induction bs arbitrary: t) (auto simp: inv_update)

lemma lookup_update_all:
  assumes "inv t" "\<And>b. b \<in> set bs \<Longrightarrow> ok (fst b)" "ok k"
  shows "lookup (update_all t bs) k =
         (case map_of (rev (map (apfst nf) bs)) (nf k) of Some v \<Rightarrow> Some v | None \<Rightarrow> lookup t k)"
  using assms
proof (induction bs arbitrary: t)
  case Nil
  then show ?case by simp
next
  case (Cons b bs)
  then show ?case
    by (simp add: inv_update lookup_update map_add_def split: option.split)
qed

end

interpretation ht: key_table plain nkey "ht_inv E" "fts_hashtable_get E" "fts_hashtable_put E"
    "fts_hashtable_remove E" for E
proof unfold_locales
  fix t :: hashtable and k k' v :: atom
  assume inv: "ht_inv E t" and k: "plain k"
  show "ht_inv E (snd (fts_hashtable_put E t k v))" "ht_inv E (snd (fts_hashtable_remove E t k))"
    using put_spec [OF inv k] table_remove_spec [OF inv k] by blast+
  show "fst (fts_hashtable_put E t k v) = (fts_hashtable_get E t k \<noteq> None)"
    "fst (fts_hashtable_remove E t k) = (fts_hashtable_get E t k \<noteq> None)"
    using put_spec [OF inv k] table_remove_spec [OF inv k] get_abs [OF inv k] by simp_all
  assume k': "plain k'"
  show "fts_hashtable_get E (snd (fts_hashtable_put E t k v)) k' =
        (if nkey k = nkey k' then Some v else fts_hashtable_get E t k')"
    using put_spec [OF inv k, of v] get_abs [OF _ k'] inv by auto
  show "fts_hashtable_get E (snd (fts_hashtable_remove E t k)) k' =
        (if nkey k = nkey k' then None else fts_hashtable_get E t k')"
    using table_remove_spec [OF inv k] get_abs [OF _ k'] inv by auto
  assume "nkey k = nkey k'"
  then show "fts_hashtable_get E t k = fts_hashtable_get E t k'"
    using get_abs [OF inv k] get_abs [OF inv k'] by simp
qed

subsection \<open>Sequences of operations\<close>

datatype table_op = Put_op atom atom | Remove_op atom | Clear_op

fun apply_table_op :: "class_env \<Rightarrow> table_op \<Rightarrow> hashtable \<Rightarrow> hashtable" where
  "apply_table_op E (Put_op k v) h = snd (fts_hashtable_put E h k v)"
| "apply_table_op E (Remove_op k) h = snd (fts_hashtable_remove E h k)"
| "apply_table_op E Clear_op h = fts_hashtable_clear h"

fun op_plain :: "table_op \<Rightarrow> bool" where
  "op_plain (Put_op k v) = plain k"
| "op_plain (Remove_op k) = plain k"
| "op_plain Clear_op = True"

text \<open>The same operation on the finite map that a table stands for.\<close>

fun apply_map_op :: "table_op \<Rightarrow> (atom \<Rightarrow> atom option) \<Rightarrow> atom \<Rightarrow> atom option" where
  "apply_map_op (Put_op k v) m = m(nkey k \<mapsto> v)"
| "apply_map_op (Remove_op k) m = m(nkey k := None)"
| "apply_map_op Clear_op m = Map.empty"

lemma table_op_step:
  assumes "ht_inv E h" "op_plain p"
  shows "ht_inv E (apply_table_op E p h) \<and> ht_abs (apply_table_op E p h) = apply_map_op p (ht_abs h)"
  using assms by (cases p) (simp_all add: put_spec table_remove_spec ht_inv_clear)

lemma table_ops:
  "ht_inv E h \<Longrightarrow> list_all op_plain ps \<Longrightarrow>
     ht_inv E (fold (apply_table_op E) ps h) \<and>
     ht_abs (fold (apply_table_op E) ps h) = fold apply_map_op ps (ht_abs h)"
  by (induction ps arbitrary: h) (simp_all add: table_op_step)

lemma ht_loaded_clear: "ht_inv E h \<Longrightarrow> ht_loaded (fts_hashtable_clear h)"
  by (auto simp: ht_loaded_def fts_hashtable_clear_def ht_inv_def load_limit_def primes_suite_def)

lemma table_ops_loaded:
  "ht_inv E h \<Longrightarrow> ht_loaded h \<Longrightarrow> list_all op_plain ps \<Longrightarrow> ht_loaded (fold (apply_table_op E) ps h)"
proof (induction ps arbitrary: h)
  case (Cons p ps)
  have "ht_loaded (apply_table_op E p h)"
    using Cons.prems by (cases p) (simp_all add: ht_loaded_put ht_loaded_remove ht_loaded_clear)
  with Cons show ?case by (simp add: table_op_step)
qed simp

lemma mset_concat_rev: "mset (concat (rev xss)) = mset (concat xss)"
  by (induction xss) auto

lemma iterate_keys:
  assumes inv: "ht_inv E h" and fuel: "ht_count h < fuel"
  shows "\<exists>ks. iterate fuel (fts_hashtable_get_keys h) = Some ks \<and> length ks = ht_count h \<and>
           distinct (map nkey ks) \<and> set (map nkey ks) = dom (ht_abs h)"
proof -
  let ?cs = "concat (rev (ht_table h))"
  have m: "mset ?cs = mset (cells h)"
    by (simp add: cells_def mset_concat_rev)
  then have keys: "keys_ok ?cs"
    using inv keys_ok_mset [OF m] by (simp add: ht_inv_def)
  have "iterate fuel (fts_hashtable_get_keys h) = Some (map fst ?cs)"
    using iterate_all [OF inv, of fuel True] inv fuel by (simp add: fts_hashtable_get_keys_def ht_inv_def)
  moreover have "length ?cs = ht_count h"
    using inv m by (metis ht_inv_def size_mset)
  moreover have "distinct (map nkey (map fst ?cs))"
    using keys by (simp add: keys_ok_def)
  moreover have "set (map nkey (map fst ?cs)) = dom (ht_abs h)"
    using mset_eq_setD [OF m] by (simp add: ht_abs_def dom_map_of_conv_image_fst image_image)
  ultimately show ?thesis by (metis length_map)
qed

end
