(* ===== verification/Fifo.thy ===== *)
theory Fifo
  imports Prelude
begin

text \<open>
  Byte fifos (\<open>fts/fifo.c\<close>): the ring indices shared by one reader and one writer. The module only
  moves indices; the bytes are copied by its callers through \<open>fts_fifo_read_pointer\<close> and
  \<open>fts_fifo_write_pointer\<close>. The two levels \<open>assert\<close> their range: a failed assertion is \<^const>\<open>None\<close>.
\<close>

record fifo =
  read_index :: int
  write_index :: int
  fifo_size :: int

definition fts_fifo_init :: "int \<Rightarrow> fifo" where
  "fts_fifo_init sz = \<lparr>read_index = 0, write_index = 0, fifo_size = sz\<rparr>"

definition level :: "int \<Rightarrow> int \<Rightarrow> int option" where
  "level sz n0 =
     (let n = (if n0 < 0 then n0 + sz else n0) in if 0 \<le> n \<and> n < sz then Some n else None)"

definition fts_fifo_read_level :: "fifo \<Rightarrow> int option" where
  "fts_fifo_read_level f = level (fifo_size f) (write_index f - read_index f)"

definition fts_fifo_write_level :: "fifo \<Rightarrow> int option" where
  "fts_fifo_write_level f = level (fifo_size f) (read_index f - write_index f - 1)"

definition wrap :: "int \<Rightarrow> int \<Rightarrow> int" where
  "wrap sz i = (if i \<ge> sz then i - sz else i)"

definition fts_fifo_incr_read :: "fifo \<Rightarrow> int \<Rightarrow> fifo" where
  "fts_fifo_incr_read f incr = f\<lparr>read_index := wrap (fifo_size f) (read_index f + incr)\<rparr>"

definition fts_fifo_incr_write :: "fifo \<Rightarrow> int \<Rightarrow> fifo" where
  "fts_fifo_incr_write f incr = f\<lparr>write_index := wrap (fifo_size f) (write_index f + incr)\<rparr>"

lemmas fifo_defs = fts_fifo_init_def fts_fifo_read_level_def fts_fifo_write_level_def
  fts_fifo_incr_read_def fts_fifo_incr_write_def level_def wrap_def Let_def

subsection \<open>The invariant and the levels\<close>

definition fifo_inv :: "fifo \<Rightarrow> bool" where
  "fifo_inv f \<longleftrightarrow> 0 < fifo_size f \<and> 0 \<le> read_index f \<and> read_index f < fifo_size f \<and>
     0 \<le> write_index f \<and> write_index f < fifo_size f"

definition fill :: "fifo \<Rightarrow> int" where
  "fill f = (write_index f - read_index f) mod fifo_size f"

lemma mod_wrapped:
  fixes a n :: int
  shows "- n \<le> a \<Longrightarrow> a < n \<Longrightarrow> a mod n = (if a < 0 then a + n else a)"
proof (cases "a < 0")
  case True
  assume "- n \<le> a"
  then have "(a + n) mod n = a + n" using True by (intro mod_pos_pos_trivial) auto
  then show ?thesis using True by simp
qed (auto intro: mod_pos_pos_trivial)

lemma read_level_fill: "fifo_inv f \<Longrightarrow> fts_fifo_read_level f = Some (fill f)"
  by (auto simp: fifo_inv_def fifo_defs fill_def mod_wrapped)

lemma write_level_fill: "fifo_inv f \<Longrightarrow> fts_fifo_write_level f = Some (fifo_size f - 1 - fill f)"
  by (auto simp: fifo_inv_def fifo_defs fill_def mod_wrapped)

lemma fill_bounds: "fifo_inv f \<Longrightarrow> 0 \<le> fill f \<and> fill f < fifo_size f"
  by (simp add: fifo_inv_def fill_def)

lemma fifo_inv_init: "0 < sz \<Longrightarrow> fifo_inv (fts_fifo_init sz) \<and> fill (fts_fifo_init sz) = 0"
  by (simp add: fifo_inv_def fifo_defs fill_def)

lemma incr_read_spec:
  assumes "fifo_inv f" "0 \<le> n" "n \<le> fill f"
  shows "fifo_inv (fts_fifo_incr_read f n)" "fill (fts_fifo_incr_read f n) = fill f - n"
  using assms by (auto simp: fifo_inv_def fifo_defs fill_def mod_wrapped split: if_splits)

lemma incr_write_spec:
  assumes "fifo_inv f" "0 \<le> n" "n \<le> fifo_size f - 1 - fill f"
  shows "fifo_inv (fts_fifo_incr_write f n)" "fill (fts_fifo_incr_write f n) = fill f + n"
  using assms by (auto simp: fifo_inv_def fifo_defs fill_def mod_wrapped split: if_splits)

subsection \<open>One reader and one writer\<close>

text \<open>
  The reader and the writer run in different threads, and each uses a level that the other may have
  outdated. The system state holds the buffer, the fifo, and what each side last read: the
  space the writer saw and the bytes the reader saw. \<open>sys_sent\<close> and \<open>sys_received\<close> are the
  histories. A write copies one chunk behind the write pointer and then publishes it with
  \<open>fts_fifo_incr_write\<close>; a read copies one chunk at the read pointer and then releases it.
\<close>

record ('a) fifo_sys =
  sys_fifo :: fifo
  sys_buf :: "int \<Rightarrow> 'a"
  seen_space :: int
  seen_bytes :: int
  sys_sent :: "'a list"
  sys_received :: "'a list"

definition ring_write :: "int \<Rightarrow> int \<Rightarrow> 'a list \<Rightarrow> (int \<Rightarrow> 'a) \<Rightarrow> int \<Rightarrow> 'a" where
  "ring_write sz w xs b i =
     (let k = (i - w) mod sz
      in if 0 \<le> i \<and> i < sz \<and> k < int (length xs) then xs ! nat k else b i)"

definition ring_read :: "int \<Rightarrow> int \<Rightarrow> nat \<Rightarrow> (int \<Rightarrow> 'a) \<Rightarrow> 'a list" where
  "ring_read sz r n b = map (\<lambda>k. b ((r + int k) mod sz)) [0..<n]"

inductive fifo_step :: "'a fifo_sys \<Rightarrow> 'a fifo_sys \<Rightarrow> bool" where
  look_write: "fts_fifo_write_level (sys_fifo s) = Some n \<Longrightarrow> fifo_step s (s\<lparr>seen_space := n\<rparr>)"
| look_read: "fts_fifo_read_level (sys_fifo s) = Some n \<Longrightarrow> fifo_step s (s\<lparr>seen_bytes := n\<rparr>)"
| put: "int (length xs) \<le> seen_space s \<Longrightarrow>
    fifo_step s (s\<lparr>sys_buf := ring_write (fifo_size (sys_fifo s)) (write_index (sys_fifo s)) xs (sys_buf s),
                   sys_fifo := fts_fifo_incr_write (sys_fifo s) (int (length xs)),
                   seen_space := seen_space s - int (length xs), sys_sent := sys_sent s @ xs\<rparr>)"
| take: "int n \<le> seen_bytes s \<Longrightarrow>
    fifo_step s (s\<lparr>sys_received := sys_received s @ ring_read (fifo_size (sys_fifo s)) (read_index (sys_fifo s)) n (sys_buf s),
                   sys_fifo := fts_fifo_incr_read (sys_fifo s) (int n),
                   seen_bytes := seen_bytes s - int n\<rparr>)"

definition fifo_start :: "int \<Rightarrow> (int \<Rightarrow> 'a) \<Rightarrow> 'a fifo_sys" where
  "fifo_start sz b = \<lparr>sys_fifo = fts_fifo_init sz, sys_buf = b, seen_space = 0, seen_bytes = 0,
     sys_sent = [], sys_received = []\<rparr>"

inductive fifo_reachable :: "int \<Rightarrow> 'a fifo_sys \<Rightarrow> bool" for sz where
  start: "fifo_reachable sz (fifo_start sz b)"
| step: "fifo_reachable sz s \<Longrightarrow> fifo_step s t \<Longrightarrow> fifo_reachable sz t"

definition pending :: "'a fifo_sys \<Rightarrow> 'a list" where
  "pending s = ring_read (fifo_size (sys_fifo s)) (read_index (sys_fifo s)) (nat (fill (sys_fifo s))) (sys_buf s)"

definition fifo_sys_inv :: "'a fifo_sys \<Rightarrow> bool" where
  "fifo_sys_inv s \<longleftrightarrow>
     fifo_inv (sys_fifo s) \<and> sys_sent s = sys_received s @ pending s \<and>
     0 \<le> seen_bytes s \<and> seen_bytes s \<le> fill (sys_fifo s) \<and>
     0 \<le> seen_space s \<and> seen_space s \<le> fifo_size (sys_fifo s) - 1 - fill (sys_fifo s)"

lemma length_ring_read [simp]: "length (ring_read sz r n b) = n"
  by (simp add: ring_read_def)

lemma ring_read_add:
  "ring_read sz r (m + n) b = ring_read sz r m b @ ring_read sz ((r + int m) mod sz) n b"
proof -
  have "[0..<m + n] = [0..<m] @ map (\<lambda>k. m + k) [0..<n]"
    by (simp add: upt_add_eq_append [of 0 m n, simplified] map_add_upt add.commute)
  then show ?thesis by (simp add: ring_read_def comp_def mod_add_left_eq add.assoc)
qed

lemma wrap_mod: "0 \<le> r \<Longrightarrow> r < sz \<Longrightarrow> 0 \<le> n \<Longrightarrow> n < sz \<Longrightarrow> wrap sz (r + n) = (r + n) mod sz"
  using mod_wrapped [of sz "r + n - sz"] mod_add_self2 [of "r + n - sz" sz]
  by (auto simp: wrap_def)

text \<open>The two publishing steps on the contents.\<close>

lemma pending_take:
  assumes inv: "fifo_inv f" and n: "int n \<le> fill f" and f: "sys_fifo s = f"
  shows "pending s = ring_read (fifo_size f) (read_index f) n (sys_buf s) @
           pending (s\<lparr>sys_fifo := fts_fifo_incr_read f (int n)\<rparr>)"
proof -
  have "nat (fill f) = n + nat (fill f - int n)" using n by simp
  moreover have "read_index (fts_fifo_incr_read f (int n)) = (read_index f + int n) mod fifo_size f"
    using inv n fill_bounds [OF inv] by (simp add: fts_fifo_incr_read_def fifo_inv_def wrap_mod)
  moreover have "fifo_size (fts_fifo_incr_read f (int n)) = fifo_size f"
    by (simp add: fts_fifo_incr_read_def)
  ultimately show ?thesis
    using incr_read_spec [OF inv _ n] by (simp add: pending_def f ring_read_add)
qed

lemma pending_put:
  assumes inv: "fifo_inv f" and n: "int (length xs) \<le> fifo_size f - 1 - fill f" and f: "sys_fifo s = f"
    and b: "b = ring_write (fifo_size f) (write_index f) xs (sys_buf s)"
  shows "pending (s\<lparr>sys_buf := b, sys_fifo := fts_fifo_incr_write f (int (length xs))\<rparr>) = pending s @ xs"
proof (rule nth_equalityI)
  let ?f' = "fts_fifo_incr_write f (int (length xs))"
  let ?m = "nat (fill f)" let ?z = "fifo_size f" let ?r = "read_index f"
  have keep: "read_index ?f' = ?r" "fifo_size ?f' = ?z" by (simp_all add: fts_fifo_incr_write_def)
  have fill': "fill ?f' = fill f + int (length xs)" using incr_write_spec [OF inv _ n] by simp
  have fb: "0 \<le> fill f" "fill f < ?z" using fill_bounds [OF inv] by auto
  have z: "0 < ?z" using inv by (simp add: fifo_inv_def)
  have w: "(?r + fill f) mod ?z = write_index f"
    using inv by (simp add: fill_def mod_simps fifo_inv_def)
  show "length (pending (s\<lparr>sys_buf := b, sys_fifo := ?f'\<rparr>)) = length (pending s @ xs)"
    using fill' fb by (simp add: pending_def keep f)
  fix k assume "k < length (pending (s\<lparr>sys_buf := b, sys_fifo := ?f'\<rparr>))"
  then have kn: "k < nat (fill f + int (length xs))" using fill' by (simp add: pending_def keep)
  then have k: "int k < fill f + int (length xs)" using fb by linarith
  let ?i = "(?r + int k) mod ?z"
  have off: "(?i - write_index f) mod ?z = (int k - fill f) mod ?z"
    unfolding w [symmetric] by (simp add: mod_simps)
  have read: "pending (s\<lparr>sys_buf := b, sys_fifo := ?f'\<rparr>) ! k = b ?i"
    using kn fill' by (simp add: pending_def keep ring_read_def)
  show "pending (s\<lparr>sys_buf := b, sys_fifo := ?f'\<rparr>) ! k = (pending s @ xs) ! k"
  proof (cases "k < ?m")
    case True
    then have "(int k - fill f) mod ?z = int k - fill f + ?z"
      using fb by (subst mod_wrapped) auto
    then have "b ?i = sys_buf s ?i" using n True fb off b by (simp add: ring_write_def Let_def)
    then show ?thesis using True read by (simp add: pending_def f ring_read_def nth_append)
  next
    case False
    then have "(int k - fill f) mod ?z = int (k - ?m)"
      using fb k n by (subst mod_wrapped) auto
    moreover have "nat (int k - fill f) = k - ?m" using fb False by linarith
    ultimately have "b ?i = xs ! (k - ?m)" using k False fb off b z by (simp add: ring_write_def Let_def)
    then show ?thesis using False read by (simp add: pending_def f ring_read_def nth_append)
  qed
qed

lemma fifo_step_inv: "fifo_step s t \<Longrightarrow> fifo_sys_inv s \<Longrightarrow> fifo_sys_inv t"
proof (induction rule: fifo_step.induct)
  case (look_write s n)
  then show ?case using write_level_fill [of "sys_fifo s"] fill_bounds [of "sys_fifo s"]
    by (auto simp: fifo_sys_inv_def pending_def)
next
  case (look_read s n)
  then show ?case using read_level_fill [of "sys_fifo s"] fill_bounds [of "sys_fifo s"]
    by (auto simp: fifo_sys_inv_def pending_def)
next
  case (put xs s)
  let ?f = "sys_fifo s"
  from put have inv: "fifo_inv ?f" and n: "int (length xs) \<le> fifo_size ?f - 1 - fill ?f"
    by (auto simp: fifo_sys_inv_def)
  have "fifo_size (fts_fifo_incr_write ?f (int (length xs))) = fifo_size ?f"
    by (simp add: fts_fifo_incr_write_def)
  then show ?case
    using put incr_write_spec [OF inv _ n] pending_put [OF inv n refl refl]
    by (simp add: fifo_sys_inv_def pending_def)
next
  case (take n s)
  let ?f = "sys_fifo s"
  from take have inv: "fifo_inv ?f" and n: "int n \<le> fill ?f" by (auto simp: fifo_sys_inv_def)
  have "fifo_size (fts_fifo_incr_read ?f (int n)) = fifo_size ?f"
    by (simp add: fts_fifo_incr_read_def)
  then show ?case
    using take incr_read_spec [OF inv _ n] pending_take [OF inv n refl]
    by (simp add: fifo_sys_inv_def pending_def)
qed

lemma fifo_reachable_inv: "fifo_reachable sz s \<Longrightarrow> 0 < sz \<Longrightarrow> fifo_sys_inv s"
proof (induction rule: fifo_reachable.induct)
  case (start b)
  then show ?case
    using fifo_inv_init [OF start] by (simp add: fifo_sys_inv_def fifo_start_def pending_def ring_read_def)
       (simp add: fts_fifo_init_def)
next
  case (step s t)
  then show ?case by (blast intro: fifo_step_inv)
qed

end
