(* ===== verification/Stack.thy ===== *)
theory Stack
  imports Prelude
begin

text \<open>
  Growable stacks and strings (\<open>fts/stack.c\<close> and the macros of \<open>include/fts/stack.h\<close>).

  The buffer has \<open>alloc\<close> slots; a slot that was allocated and not yet written is \<^const>\<open>None\<close>.
  Reading such a slot, or accessing the buffer outside of its slots, makes the result of the
  operation \<^const>\<open>None\<close>. Popping more elements than there are drives the size below zero,
  after which every access is outside of the buffer: the model stops at the pop.
\<close>

record 'a stack =
  st_buffer :: "'a option list"
  st_size :: nat

definition FTS_STACK_BLOCK_SIZE :: nat where
  "FTS_STACK_BLOCK_SIZE = 256"

abbreviation st_alloc :: "'a stack \<Rightarrow> nat" where
  "st_alloc s \<equiv> length (st_buffer s)"

definition fts_stack_init :: "'a stack" where
  "fts_stack_init = \<lparr>st_buffer = replicate FTS_STACK_BLOCK_SIZE None, st_size = 0\<rparr>"

definition realloc :: "'a option list \<Rightarrow> nat \<Rightarrow> 'a option list" where
  "realloc b n = take n b @ replicate (n - length b) None"

definition fts_stack_realloc :: "'a stack \<Rightarrow> nat \<Rightarrow> bool \<times> 'a stack" where
  "fts_stack_realloc s alloc =
     (if alloc > st_alloc s then (True, s\<lparr>st_buffer := realloc (st_buffer s) alloc\<rparr>) else (False, s))"

definition fts_stack_clear :: "'a stack \<Rightarrow> 'a stack" where
  "fts_stack_clear s = s\<lparr>st_size := 0\<rparr>"

definition buffer_write :: "nat \<Rightarrow> 'a \<Rightarrow> 'a stack \<Rightarrow> 'a stack option" where
  "buffer_write i x s =
     (if i < st_alloc s then Some (s\<lparr>st_buffer := (st_buffer s)[i := Some x]\<rparr>) else None)"

definition fts_stack_push :: "'a \<Rightarrow> 'a stack \<Rightarrow> 'a stack option" where
  "fts_stack_push x s =
     (let s1 = (if st_size s \<ge> st_alloc s then snd (fts_stack_realloc s (2 * st_alloc s)) else s)
      in map_option (\<lambda>s2. s2\<lparr>st_size := Suc (st_size s2)\<rparr>) (buffer_write (st_size s1) x s1))"

text \<open>The \<open>do alloc += FTS_STACK_BLOCK_SIZE while (alloc < size)\<close> of \<open>__fts_stack_append\<close>.\<close>

function append_alloc :: "nat \<Rightarrow> nat \<Rightarrow> nat" where
  "append_alloc alloc n =
     (let alloc' = alloc + FTS_STACK_BLOCK_SIZE in if alloc' < n then append_alloc alloc' n else alloc')"
  by pat_completeness auto
termination
  by (relation "measure (\<lambda>(alloc, n). n - alloc)") (auto simp: FTS_STACK_BLOCK_SIZE_def)

declare append_alloc.simps [simp del]

definition fts_stack_append :: "'a list \<Rightarrow> 'a stack \<Rightarrow> 'a stack" where
  "fts_stack_append xs s =
     (let sz = st_size s + length xs;
          b = (if st_alloc s < sz then realloc (st_buffer s) (append_alloc (st_alloc s) sz) else st_buffer s)
      in \<lparr>st_buffer = take (st_size s) b @ map Some xs @ drop sz b, st_size = sz\<rparr>)"

definition fts_stack_pop :: "nat \<Rightarrow> 'a stack \<Rightarrow> 'a stack option" where
  "fts_stack_pop n s = (if n \<le> st_size s then Some (s\<lparr>st_size := st_size s - n\<rparr>) else None)"

definition buffer_read :: "nat \<Rightarrow> 'a stack \<Rightarrow> 'a option" where
  "buffer_read i s = (if i < st_alloc s then st_buffer s ! i else None)"

text \<open>The typed accessors, with the default value the code returns on an empty stack.\<close>

definition fts_stack_top_or :: "'a \<Rightarrow> 'a stack \<Rightarrow> 'a option" where
  "fts_stack_top_or d s = (if st_size s > 0 then buffer_read (st_size s - 1) s else Some d)"

definition fts_stack_pop_or :: "'a \<Rightarrow> 'a stack \<Rightarrow> ('a option \<times> 'a stack)" where
  "fts_stack_pop_or d s =
     (if st_size s > 0 then (buffer_read (st_size s - 1) s, s\<lparr>st_size := st_size s - 1\<rparr>) else (Some d, s))"

definition fts_stack_get_or :: "'a \<Rightarrow> 'a stack \<Rightarrow> int \<Rightarrow> 'a option" where
  "fts_stack_get_or d s i = (if 0 \<le> i \<and> i < int (st_size s) then buffer_read (nat i) s else Some d)"

subsection \<open>Strings\<close>

text \<open>A string stack keeps the terminating zero byte as its last element.\<close>

definition fts_string_init :: "string option \<Rightarrow> char stack" where
  "fts_string_init str =
     (case str of
        Some s \<Rightarrow> fts_stack_append (s @ [CHR 0x00]) fts_stack_init
      | None \<Rightarrow> \<lparr>st_buffer = (st_buffer fts_stack_init)[0 := Some (CHR 0x00)], st_size = 1\<rparr>)"

definition fts_string_set :: "string \<Rightarrow> char stack \<Rightarrow> char stack" where
  "fts_string_set x s = fts_stack_append (x @ [CHR 0x00]) (s\<lparr>st_size := 0\<rparr>)"

definition fts_string_append :: "string \<Rightarrow> char stack \<Rightarrow> char stack" where
  "fts_string_append x s = fts_stack_append (x @ [CHR 0x00]) (s\<lparr>st_size := st_size s - 1\<rparr>)"

definition fts_string_clear :: "char stack \<Rightarrow> char stack option" where
  "fts_string_clear s = buffer_write 0 (CHR 0x00) (s\<lparr>st_size := 1\<rparr>)"

text \<open>\<open>fts_string_append_char\<close> writes the character and the terminator, and leaves the size.\<close>

definition fts_string_append_char :: "char \<Rightarrow> char stack \<Rightarrow> char stack option" where
  "fts_string_append_char x s =
     (let s1 = (if st_size s \<ge> st_alloc s then snd (fts_stack_realloc s (2 * st_alloc s)) else s)
      in case buffer_write (st_size s1 - 1) x s1 of
           None \<Rightarrow> None
         | Some s2 \<Rightarrow> buffer_write (st_size s2) (CHR 0x00) s2)"

subsection \<open>Stacks refine lists\<close>

definition stack_inv :: "'a stack \<Rightarrow> bool" where
  "stack_inv s \<longleftrightarrow> 0 < st_alloc s \<and> st_size s \<le> st_alloc s \<and> (\<forall>i < st_size s. st_buffer s ! i \<noteq> None)"

definition elems :: "'a stack \<Rightarrow> 'a list" where
  "elems s = map the (take (st_size s) (st_buffer s))"

definition stack_is :: "'a stack \<Rightarrow> 'a list \<Rightarrow> bool" where
  "stack_is s xs \<longleftrightarrow> stack_inv s \<and> elems s = xs"

lemma stack_is_alt:
  "stack_is s xs \<longleftrightarrow> 0 < st_alloc s \<and> st_size s = length xs \<and> (\<exists>r. st_buffer s = map Some xs @ r)"
proof
  assume "stack_is s xs"
  then have inv: "stack_inv s" and xs: "xs = elems s" by (simp_all add: stack_is_def)
  have "map Some xs = take (st_size s) (st_buffer s)"
    using inv by (intro nth_equalityI) (auto simp: xs elems_def stack_inv_def)
  then have "st_buffer s = map Some xs @ drop (st_size s) (st_buffer s)"
    by simp
  moreover have "st_size s = length xs" using inv by (simp add: xs elems_def stack_inv_def)
  ultimately show "0 < st_alloc s \<and> st_size s = length xs \<and> (\<exists>r. st_buffer s = map Some xs @ r)"
    using inv by (auto simp: stack_inv_def)
next
  assume "0 < st_alloc s \<and> st_size s = length xs \<and> (\<exists>r. st_buffer s = map Some xs @ r)"
  then show "stack_is s xs"
    by (auto simp: stack_is_def stack_inv_def elems_def nth_append comp_def)
qed

lemma stack_is_size: "stack_is s xs \<Longrightarrow> st_size s = length xs"
  by (simp add: stack_is_alt)

lemma stack_is_init: "stack_is fts_stack_init []"
  by (simp add: stack_is_alt fts_stack_init_def FTS_STACK_BLOCK_SIZE_def)

lemma stack_is_clear: "stack_is s xs \<Longrightarrow> stack_is (fts_stack_clear s) []"
  by (simp add: stack_is_alt fts_stack_clear_def)

lemma realloc_append: "length xs \<le> n \<Longrightarrow> \<exists>r. realloc (xs @ r0) n = xs @ r"
  by (simp add: realloc_def)

lemma stack_is_realloc: "stack_is s xs \<Longrightarrow> stack_is (snd (fts_stack_realloc s n)) xs"
  by (auto simp: stack_is_alt fts_stack_realloc_def realloc_def)

lemma stack_is_push:
  assumes "stack_is s xs"
  shows "\<exists>s'. fts_stack_push x s = Some s' \<and> stack_is s' (xs @ [x])"
proof -
  define s1 where "s1 = (if st_size s \<ge> st_alloc s then snd (fts_stack_realloc s (2 * st_alloc s)) else s)"
  have is1: "stack_is s1 xs" using assms stack_is_realloc by (auto simp: s1_def)
  have room: "st_size s1 < st_alloc s1"
    using assms by (auto simp: s1_def stack_is_alt fts_stack_realloc_def realloc_def)
  obtain r where r: "st_buffer s1 = map Some xs @ r" and n: "st_size s1 = length xs"
    using is1 by (auto simp: stack_is_alt)
  obtain y r' where "r = y # r'" using room r n by (cases r) auto
  then show ?thesis
    using room r n by (simp add: fts_stack_push_def s1_def [symmetric] buffer_write_def stack_is_alt
        list_update_append)
qed

lemma append_alloc_ge: "n \<le> append_alloc alloc n" "alloc < append_alloc alloc n"
proof (induction alloc n rule: append_alloc.induct)
  case (1 alloc n)
  {
    case 1
    show ?case using "1.IH" by (subst append_alloc.simps) (simp add: Let_def)
  next
    case 2
    show ?case using "1.IH"(2) by (subst append_alloc.simps) (auto simp: Let_def FTS_STACK_BLOCK_SIZE_def)
  }
qed

lemma stack_is_append:
  assumes "stack_is s xs"
  shows "stack_is (fts_stack_append ys s) (xs @ ys)"
proof -
  obtain r where r: "st_buffer s = map Some xs @ r" and n: "st_size s = length xs"
    using assms by (auto simp: stack_is_alt)
  let ?sz = "st_size s + length ys"
  define b where "b = (if st_alloc s < ?sz then realloc (st_buffer s) (append_alloc (st_alloc s) ?sz) else st_buffer s)"
  have "length xs \<le> append_alloc (st_alloc s) ?sz"
    using append_alloc_ge(1) [of ?sz "st_alloc s"] n by simp
  then have "\<exists>r'. b = map Some xs @ r'" using r by (auto simp: b_def realloc_def)
  then have "take (length xs) b = map Some xs" by auto
  moreover have "0 < st_alloc s" using assms by (simp add: stack_is_alt)
  moreover have "length b \<ge> ?sz \<and> length b \<ge> st_alloc s"
    using append_alloc_ge [of ?sz "st_alloc s"] append_alloc_ge(2) [of "st_alloc s" ?sz]
    by (auto simp: b_def realloc_def)
  moreover have "fts_stack_append ys s =
      \<lparr>st_buffer = take (st_size s) b @ map Some ys @ drop ?sz b, st_size = ?sz\<rparr>"
    by (simp add: fts_stack_append_def Let_def b_def)
  ultimately show ?thesis using n by (auto simp: stack_is_alt)
qed

lemma stack_is_pop:
  assumes "stack_is s xs" "n \<le> length xs"
  shows "\<exists>s'. fts_stack_pop n s = Some s' \<and> stack_is s' (take (length xs - n) xs)"
proof -
  obtain r where "st_buffer s = map Some xs @ r" "st_size s = length xs" "0 < st_alloc s"
    using assms by (auto simp: stack_is_alt)
  moreover from this have "st_buffer s = map Some (take (length xs - n) xs) @ map Some (drop (length xs - n) xs) @ r"
    by (metis append_assoc append_take_drop_id map_append)
  ultimately show ?thesis using assms(2) by (auto simp: fts_stack_pop_def stack_is_alt)
qed

lemma stack_is_read: "stack_is s xs \<Longrightarrow> i < length xs \<Longrightarrow> buffer_read i s = Some (xs ! i)"
  by (auto simp: stack_is_alt buffer_read_def nth_append)

lemma stack_is_top: "stack_is s xs \<Longrightarrow> fts_stack_top_or d s = Some (if xs = [] then d else last xs)"
  using stack_is_read [of s xs "length xs - 1"]
  by (auto simp: fts_stack_top_or_def stack_is_size last_conv_nth)

text \<open>A string stack holds a C string when its elements are the characters and the terminator.\<close>

definition string_is :: "char stack \<Rightarrow> string \<Rightarrow> bool" where
  "string_is s x \<longleftrightarrow> stack_is s (x @ [CHR 0x00]) \<and> c_string x"

lemma stack_is_shrink: "stack_is s (xs @ ys) \<Longrightarrow> stack_is (s\<lparr>st_size := length xs\<rparr>) xs"
  by (auto simp: stack_is_alt)

lemma string_is_set: "stack_is s xs \<Longrightarrow> c_string x \<Longrightarrow> string_is (fts_string_set x s) x"
  using stack_is_append [of "s\<lparr>st_size := 0\<rparr>" "[]" "x @ [CHR 0x00]"]
  by (simp add: string_is_def fts_string_set_def stack_is_alt)

lemma string_is_append:
  assumes "string_is s x" "c_string y"
  shows "string_is (fts_string_append y s) (x @ y)"
proof -
  have "stack_is (s\<lparr>st_size := length x\<rparr>) x"
    using assms(1) stack_is_shrink by (auto simp: string_is_def)
  moreover have "st_size s - 1 = length x" using assms(1) by (simp add: string_is_def stack_is_alt)
  ultimately show ?thesis
    using stack_is_append [of "s\<lparr>st_size := length x\<rparr>" x "y @ [CHR 0x00]"] assms
    by (auto simp: string_is_def fts_string_append_def c_string_def)
qed

lemma string_is_init:
  "c_string x \<Longrightarrow> string_is (fts_string_init (Some x)) x" "string_is (fts_string_init None) []"
  using stack_is_append [OF stack_is_init, of "x @ [CHR 0x00]"]
  by (simp_all add: string_is_def fts_string_init_def)
    (simp add: stack_is_alt fts_stack_init_def FTS_STACK_BLOCK_SIZE_def numeral_eq_Suc)

end
