(* ===== verification/AtomArray.thy ===== *)
theory AtomArray
  imports Atom
begin

text \<open>
  Arrays of atoms (\<open>fts/array.c\<close>). The buffer \<open>ar_atoms\<close> has as many slots as the code's \<open>alloc\<close>;
  the first \<open>ar_size\<close> are the contents. The operations count object references through the
  store; an access outside of the buffer, or a use of a freed object, is \<^const>\<open>None\<close>.
  The source atoms of an operation are a list of their own: they do not alias the buffer.
\<close>

definition ARRAY_DEFAULT_ALLOC_INCREMENT :: nat where
  "ARRAY_DEFAULT_ALLOC_INCREMENT = 64"

record atom_array =
  ar_atoms :: "atom list"
  ar_size :: nat
  ar_alloc_increment :: nat

type_synonym array_result = "(atom_array \<times> obj_store) option"

text \<open>\<open>fts_atom_assign(array->atoms + i, at)\<close>\<close>

definition assign_at :: "nat \<Rightarrow> atom \<Rightarrow> atom list \<times> obj_store \<Rightarrow> (atom list \<times> obj_store) option" where
  "assign_at i at = (\<lambda>(xs, st).
     if i < length xs
     then do { (x, st1) \<leftarrow> fts_atom_assign (xs ! i) at st; Some (xs[i := x], st1) }
     else None)"

primrec assign_all :: "(nat \<times> atom) list \<Rightarrow> atom list \<times> obj_store \<Rightarrow> (atom list \<times> obj_store) option" where
  "assign_all [] s = Some s"
| "assign_all (p # ps) s = do { s1 \<leftarrow> assign_at (fst p) (snd p) s; assign_all ps s1 }"

text \<open>\<open>while (array->alloc < new_size) array->alloc += array->alloc_increment\<close>, the increment positive.\<close>

function grow_alloc :: "nat \<Rightarrow> nat \<Rightarrow> nat \<Rightarrow> nat" where
  "grow_alloc inc alloc n = (if alloc < n \<and> 0 < inc then grow_alloc inc (alloc + inc) n else alloc)"
  by pat_completeness auto
termination
  by (relation "measure (\<lambda>(inc, alloc, n). n - alloc)") auto

declare grow_alloc.simps [simp del]

definition fts_array_set_size :: "atom_array \<Rightarrow> int \<Rightarrow> obj_store \<Rightarrow> array_result" where
  "fts_array_set_size a new_size st =
     (if new_size > int (length (ar_atoms a))
      then let n = nat new_size; alloc = grow_alloc (ar_alloc_increment a) (length (ar_atoms a)) n
           in Some (a\<lparr>ar_atoms := take (ar_size a) (ar_atoms a) @ replicate (alloc - ar_size a) AVoid,
                      ar_size := n\<rparr>, st)
      else let n = nat new_size
           in do { (xs, st1) \<leftarrow> assign_all (map (\<lambda>i. (i, AVoid)) [n..<ar_size a]) (ar_atoms a, st);
                   Some (a\<lparr>ar_atoms := xs, ar_size := n\<rparr>, st1) })"

definition fts_array_clear :: "atom_array \<Rightarrow> obj_store \<Rightarrow> array_result" where
  "fts_array_clear a st =
     (if ar_size a \<noteq> 0
      then do { (xs, st1) \<leftarrow> assign_all (map (\<lambda>i. (i, AVoid)) [0..<ar_size a]) (ar_atoms a, st);
                Some (a\<lparr>ar_atoms := xs, ar_size := 0\<rparr>, st1) }
      else Some (a, st))"

definition fts_array_set :: "atom_array \<Rightarrow> atom list \<Rightarrow> obj_store \<Rightarrow> array_result" where
  "fts_array_set a at st =
     do { (a1, st1) \<leftarrow> fts_array_set_size a (int (length at)) st;
          (xs, st2) \<leftarrow> assign_all (zip [0..<length at] at) (ar_atoms a1, st1);
          Some (a1\<lparr>ar_atoms := xs\<rparr>, st2) }"

definition fts_array_init :: "atom list \<Rightarrow> obj_store \<Rightarrow> array_result" where
  "fts_array_init at st =
     (let a = \<lparr>ar_atoms = [], ar_size = 0, ar_alloc_increment = ARRAY_DEFAULT_ALLOC_INCREMENT\<rparr>
      in if at \<noteq> [] then fts_array_set a at st else Some (a, st))"

definition fts_array_destroy :: "atom_array \<Rightarrow> obj_store \<Rightarrow> array_result" where
  "fts_array_destroy a st =
     do { (a1, st1) \<leftarrow> fts_array_clear a st; Some (a1\<lparr>ar_atoms := [], ar_size := 0\<rparr>, st1) }"

definition fts_array_set_element :: "atom_array \<Rightarrow> int \<Rightarrow> atom \<Rightarrow> obj_store \<Rightarrow> array_result" where
  "fts_array_set_element a index at st =
     do { (a1, st1) \<leftarrow> (if index \<ge> int (ar_size a) then fts_array_set_size a (index + 1) st else Some (a, st));
          if index < 0 then None
          else do { (xs, st2) \<leftarrow> assign_at (nat index) at (ar_atoms a1, st1);
                    Some (a1\<lparr>ar_atoms := xs\<rparr>, st2) } }"

text \<open>\<open>for (i = size - 1; i >= index; i--) atoms[ac + i] = atoms[i]\<close>\<close>

definition shift_up :: "nat \<Rightarrow> nat \<Rightarrow> nat \<Rightarrow> atom list \<Rightarrow> atom list" where
  "shift_up ac index n xs = fold (\<lambda>i xs. xs[ac + i := xs ! i]) (rev [index..<n]) xs"

text \<open>The new atoms are stored without releasing the slot, then referred.\<close>

primrec put_all :: "nat \<Rightarrow> atom list \<Rightarrow> atom list \<times> obj_store \<Rightarrow> (atom list \<times> obj_store) option" where
  "put_all i [] s = Some s"
| "put_all i (a # as) s =
     (case s of (xs, st) \<Rightarrow>
        if i < length xs then do { st1 \<leftarrow> fts_atom_refer a st; put_all (Suc i) as (xs[i := a], st1) } else None)"

definition fts_array_insert :: "atom_array \<Rightarrow> int \<Rightarrow> atom list \<Rightarrow> obj_store \<Rightarrow> array_result" where
  "fts_array_insert a index0 at st =
     (let n = ar_size a; index = (if index0 > int n then int n else index0); ac = length at
      in if index < 0 then None
         else do { (a1, st1) \<leftarrow> fts_array_set_size a (int (n + ac)) st;
                   (xs, st2) \<leftarrow> put_all (nat index) at (shift_up ac (nat index) n (ar_atoms a1), st1);
                   Some (a1\<lparr>ar_atoms := xs\<rparr>, st2) })"

definition fts_array_prepend :: "atom_array \<Rightarrow> atom list \<Rightarrow> obj_store \<Rightarrow> array_result" where
  "fts_array_prepend a at st = fts_array_insert a 0 at st"

definition fts_array_append :: "atom_array \<Rightarrow> atom list \<Rightarrow> obj_store \<Rightarrow> array_result" where
  "fts_array_append a at st = fts_array_insert a (int (ar_size a)) at st"

definition fts_array_prepend_int :: "atom_array \<Rightarrow> int32 \<Rightarrow> obj_store \<Rightarrow> array_result" where
  "fts_array_prepend_int a i st = fts_array_insert a 0 [AInt i] st"

definition fts_array_prepend_float :: "atom_array \<Rightarrow> double \<Rightarrow> obj_store \<Rightarrow> array_result" where
  "fts_array_prepend_float a f st = fts_array_insert a 0 [AFloat f] st"

definition fts_array_prepend_symbol :: "atom_array \<Rightarrow> addr \<Rightarrow> obj_store \<Rightarrow> array_result" where
  "fts_array_prepend_symbol a s st = fts_array_insert a 0 [ASymbol s] st"

text \<open>\<open>fts_array_set_size(array, size + 1)\<close>, then a plain store into the new slot.\<close>

definition append_raw :: "atom_array \<Rightarrow> atom \<Rightarrow> obj_store \<Rightarrow> array_result" where
  "append_raw a at st =
     do { (a1, st1) \<leftarrow> fts_array_set_size a (int (ar_size a) + 1) st;
          Some (a1\<lparr>ar_atoms := (ar_atoms a1)[ar_size a := at]\<rparr>, st1) }"

definition fts_array_append_int :: "atom_array \<Rightarrow> int32 \<Rightarrow> obj_store \<Rightarrow> array_result" where
  "fts_array_append_int a i st = append_raw a (AInt i) st"

definition fts_array_append_float :: "atom_array \<Rightarrow> double \<Rightarrow> obj_store \<Rightarrow> array_result" where
  "fts_array_append_float a f st = append_raw a (AFloat f) st"

definition fts_array_append_symbol :: "atom_array \<Rightarrow> addr \<Rightarrow> obj_store \<Rightarrow> array_result" where
  "fts_array_append_symbol a s st = append_raw a (ASymbol s) st"

definition fts_array_append_object :: "atom_array \<Rightarrow> addr \<Rightarrow> obj_store \<Rightarrow> array_result" where
  "fts_array_append_object a x st =
     do { (a1, st1) \<leftarrow> append_raw a (AObject x) st; st2 \<leftarrow> fts_object_refer x st1; Some (a1, st2) }"

text \<open>
  One turn of the loop of \<open>fts_array_cut\<close>: release, shift, void. A negative index either makes the
  loop access the buffer below its start or, with no tail to shift, leaves a negative size.
\<close>

definition cut_move :: "nat \<Rightarrow> nat \<Rightarrow> atom list \<times> obj_store \<Rightarrow> (atom list \<times> obj_store) option" where
  "cut_move n p = (\<lambda>(xs, st).
     if n + p < length xs
     then do { st1 \<leftarrow> fts_atom_release (xs ! p) st; Some (xs[p := xs ! (n + p), n + p := AVoid], st1) }
     else None)"

primrec cut_moves :: "nat \<Rightarrow> nat list \<Rightarrow> atom list \<times> obj_store \<Rightarrow> (atom list \<times> obj_store) option" where
  "cut_moves n [] s = Some s"
| "cut_moves n (p # ps) s = do { s1 \<leftarrow> cut_move n p s; cut_moves n ps s1 }"

definition fts_array_cut :: "atom_array \<Rightarrow> int \<Rightarrow> int \<Rightarrow> obj_store \<Rightarrow> array_result" where
  "fts_array_cut a index n0 st =
     (let sz = int (ar_size a); n = (if index + n0 > sz then sz - index else n0)
      in if n > 0
         then if index < 0 then None
              else do { (xs, st1) \<leftarrow> cut_moves (nat n) [nat index..<nat (sz - n)] (ar_atoms a, st);
                        Some (a\<lparr>ar_atoms := xs, ar_size := nat (sz - n)\<rparr>, st1) }
         else Some (a, st))"

definition fts_array_copy :: "atom_array \<Rightarrow> atom_array \<Rightarrow> obj_store \<Rightarrow> array_result" where
  "fts_array_copy org copy st =
     do { (c1, st1) \<leftarrow> fts_array_clear copy st;
          (c2, st2) \<leftarrow> fts_array_set_size c1 (int (ar_size org)) st1;
          (xs, st3) \<leftarrow> assign_all (zip [0..<ar_size org] (ar_atoms org)) (ar_atoms c2, st2);
          Some (c2\<lparr>ar_atoms := xs\<rparr>, st3) }"

subsection \<open>Contents and accounting\<close>

definition arr_is :: "atom_array \<Rightarrow> atom list \<Rightarrow> bool" where
  "arr_is a xs \<longleftrightarrow> ar_size a = length xs \<and> 0 < ar_alloc_increment a \<and>
     (\<exists>k. ar_atoms a = xs @ replicate k AVoid)"

definition arr_ok :: "obj_store \<Rightarrow> (addr \<Rightarrow> nat) \<Rightarrow> atom_array \<Rightarrow> atom list \<Rightarrow> bool" where
  "arr_ok st ext a xs \<longleftrightarrow> arr_is a xs \<and> balanced st ext xs"

abbreviation all_held :: "(addr \<Rightarrow> nat) \<Rightarrow> atom list \<Rightarrow> bool" where
  "all_held ext at \<equiv> list_all (held ext) at"

lemma held_void [simp]: "held ext AVoid"
  by (simp add: held_def)

lemma all_held_replicate [simp]: "all_held ext (replicate n AVoid)"
  by (induction n) auto

lemma balanced_voids [simp]:
  "balanced st ext (xs @ replicate k AVoid) = balanced st ext xs"
  "balanced st ext (xs @ ys @ replicate k AVoid) = balanced st ext (xs @ ys)"
  by (simp_all add: balanced_def)

lemma balanced_rotate: "balanced st ext (xs @ y # ys) = balanced st ext (y # xs @ ys)"
  by (rule balanced_cong) simp

lemma assign_all_spec:
  assumes "length mid = length ys" "all_held ext ys" "balanced st ext (pre @ mid @ post)"
  shows "\<exists>st'. assign_all (zip [length pre..<length pre + length ys] ys) (pre @ mid @ post, st) =
           Some (pre @ ys @ post, st') \<and> balanced st' ext (pre @ ys @ post)"
  using assms
proof (induction ys arbitrary: pre mid st)
  case Nil
  then show ?case by simp
next
  case (Cons y ys)
  then obtain m mid' where mid: "mid = m # mid'" by (cases mid) auto
  have "balanced st ext (m # pre @ mid' @ post)"
    using Cons.prems(3) by (simp add: mid balanced_rotate)
  then obtain st1 where st1: "fts_atom_assign m y st = Some (y, st1)" "balanced st1 ext ((pre @ [y]) @ mid' @ post)"
    using balanced_assign [of st ext m "pre @ mid' @ post" y] Cons.prems(2) by (auto simp: balanced_rotate)
  obtain st2 where "assign_all (zip [length (pre @ [y])..<length (pre @ [y]) + length ys] ys)
      ((pre @ [y]) @ mid' @ post, st1) = Some ((pre @ [y]) @ ys @ post, st2)"
    "balanced st2 ext ((pre @ [y]) @ ys @ post)"
    using Cons.IH [OF _ _ st1(2)] Cons.prems mid by auto
  moreover have "[length pre..<length pre + length (y # ys)] = length pre # [Suc (length pre)..<Suc (length pre) + length ys]"
    by (simp add: upt_rec)
  ultimately show ?case using st1 by (simp add: mid assign_at_def)
qed

lemma zip_voids: "map (\<lambda>i. (i, AVoid)) [n..<m] = zip [n..<m] (replicate (m - n) AVoid)"
  by (rule nth_equalityI) auto

lemma assign_all_voids:
  assumes "balanced st ext (pre @ mid @ post)"
  shows "\<exists>st'. assign_all (map (\<lambda>i. (i, AVoid)) [length pre..<length pre + length mid]) (pre @ mid @ post, st) =
           Some (pre @ replicate (length mid) AVoid @ post, st') \<and> balanced st' ext (pre @ post)"
proof -
  have "balanced st' ext (pre @ replicate (length mid) AVoid @ post) = balanced st' ext (pre @ post)" for st'
    by (rule balanced_cong) simp
  then show ?thesis
    using assign_all_spec [of mid "replicate (length mid) AVoid" ext st pre post] assms
    by (simp add: zip_voids)
qed

lemma grow_alloc_ge: "0 < inc \<Longrightarrow> n \<le> grow_alloc inc alloc n \<and> alloc \<le> grow_alloc inc alloc n"
proof (induction inc alloc n rule: grow_alloc.induct)
  case (1 inc alloc n)
  then show ?case
    by (cases "alloc < n") (simp_all add: grow_alloc.simps [of inc alloc n])
qed

lemma set_size_spec:
  assumes "arr_ok st ext a xs"
  shows "\<exists>a' st'. fts_array_set_size a n st = Some (a', st') \<and>
           arr_ok st' ext a' (take (nat n) xs @ replicate (nat n - length xs) AVoid) \<and>
           ar_alloc_increment a' = ar_alloc_increment a"
proof -
  obtain k where a: "ar_size a = length xs" "ar_atoms a = xs @ replicate k AVoid" "0 < ar_alloc_increment a"
    and bal: "balanced st ext xs" using assms by (auto simp: arr_ok_def arr_is_def)
  show ?thesis
  proof (cases "n > int (length (ar_atoms a))")
    case True
    let ?m = "grow_alloc (ar_alloc_increment a) (length (ar_atoms a)) (nat n)"
    have "nat n \<le> ?m" using grow_alloc_ge [OF a(3)] by blast
    then have "replicate (?m - length xs) AVoid = replicate (nat n - length xs) AVoid @ replicate (?m - nat n) AVoid"
      using True a by (simp add: replicate_add [symmetric])
    then show ?thesis
      using True a bal by (auto simp: fts_array_set_size_def Let_def arr_ok_def arr_is_def)
  next
    case False
    let ?n = "nat n"
    have split: "xs @ replicate k AVoid = take ?n xs @ drop ?n xs @ replicate k AVoid" by simp
    obtain st' where st': "assign_all (map (\<lambda>i. (i, AVoid)) [?n..<length xs]) (ar_atoms a, st) =
        Some (take ?n xs @ replicate (length xs - ?n) AVoid @ replicate k AVoid, st')"
      "balanced st' ext (take ?n xs)"
    proof (cases "?n \<le> length xs")
      case True
      then have len: "length (take ?n xs) = ?n" "length (drop ?n xs) = length xs - ?n"
        "?n + (length xs - ?n) = length xs" by auto
      have "balanced st ext (take ?n xs @ drop ?n xs @ replicate k AVoid)" using bal by simp
      from assign_all_voids [OF this] show ?thesis
        unfolding len append_assoc [symmetric] append_take_drop_id a(2) [symmetric]
        using that by auto
    qed (use bal a that in auto)
    have "replicate (length xs - ?n) AVoid @ replicate k AVoid =
        replicate (?n - length xs) AVoid @ replicate (length xs + k - ?n) AVoid"
      using False a by (simp add: replicate_add [symmetric])
    then show ?thesis
      using False a st' by (fastforce simp: fts_array_set_size_def Let_def arr_ok_def arr_is_def)
  qed
qed

lemma clear_spec:
  assumes "arr_ok st ext a xs"
  shows "\<exists>a' st'. fts_array_clear a st = Some (a', st') \<and> arr_ok st' ext a' []"
proof -
  obtain k where a: "ar_size a = length xs" "ar_atoms a = xs @ replicate k AVoid" "0 < ar_alloc_increment a"
    and bal: "balanced st ext xs" using assms by (auto simp: arr_ok_def arr_is_def)
  show ?thesis
    using assign_all_voids [of st ext "[]" xs "replicate k AVoid"] bal a
    by (auto simp: fts_array_clear_def arr_ok_def arr_is_def replicate_add [symmetric] balanced_def)
qed

lemma set_spec:
  assumes "arr_ok st ext a xs" "all_held ext at"
  shows "\<exists>a' st'. fts_array_set a at st = Some (a', st') \<and> arr_ok st' ext a' at"
proof -
  let ?ys = "take (length at) xs @ replicate (length at - length xs) AVoid"
  obtain a1 st1 where 1: "fts_array_set_size a (int (length at)) st = Some (a1, st1)" "arr_ok st1 ext a1 ?ys"
    using set_size_spec [OF assms(1), of "int (length at)"] by auto
  then obtain k where k: "ar_atoms a1 = ?ys @ replicate k AVoid" "balanced st1 ext (?ys @ replicate k AVoid)"
    by (auto simp: arr_ok_def arr_is_def)
  have "length ?ys = length at" by simp
  then show ?thesis
    using assign_all_spec [of ?ys at ext st1 "[]" "replicate k AVoid"] assms(2) k 1
    by (auto simp: fts_array_set_def arr_ok_def arr_is_def)
qed

lemma destroy_spec:
  assumes "arr_ok st ext a xs"
  shows "\<exists>a' st'. fts_array_destroy a st = Some (a', st') \<and> arr_ok st' ext a' []"
  using clear_spec [OF assms] by (fastforce simp: fts_array_destroy_def arr_ok_def arr_is_def)

lemma init_spec:
  assumes "balanced st ext []" "all_held ext at"
  shows "\<exists>a' st'. fts_array_init at st = Some (a', st') \<and> arr_ok st' ext a' at"
proof -
  let ?a = "\<lparr>ar_atoms = [], ar_size = 0, ar_alloc_increment = ARRAY_DEFAULT_ALLOC_INCREMENT\<rparr>"
  have "arr_ok st ext ?a []"
    using assms by (simp add: arr_ok_def arr_is_def ARRAY_DEFAULT_ALLOC_INCREMENT_def)
  then show ?thesis
    using set_spec [of st ext ?a "[]" at] assms(2) by (auto simp: fts_array_init_def Let_def)
qed

lemma set_element_spec:
  assumes "arr_ok st ext a xs" "held ext at" "0 \<le> index"
  shows "\<exists>a' st'. fts_array_set_element a index at st = Some (a', st') \<and>
           arr_ok st' ext a' ((xs @ replicate (Suc (nat index) - length xs) AVoid)[nat index := at])"
proof -
  let ?i = "nat index" let ?ys = "xs @ replicate (Suc ?i - length xs) AVoid"
  have size_a: "ar_size a = length xs" using assms(1) by (simp add: arr_ok_def arr_is_def)
  obtain a1 st1 where 1: "(if index \<ge> int (ar_size a) then fts_array_set_size a (index + 1) st else Some (a, st)) = Some (a1, st1)"
    and ok: "arr_ok st1 ext a1 ?ys"
    using set_size_spec [OF assms(1), of "index + 1"] assms(1,3) size_a
    by (cases "index \<ge> int (ar_size a)") (auto simp: nat_add_distrib)
  from ok obtain k where k: "ar_atoms a1 = ?ys @ replicate k AVoid" "balanced st1 ext ?ys"
    by (auto simp: arr_ok_def arr_is_def)
  have i: "?i < length ?ys" by simp
  then have ys: "?ys = take ?i ?ys @ [?ys ! ?i] @ drop (Suc ?i) ?ys"
    by (simp only: append_Cons append_Nil id_take_nth_drop [OF i, symmetric])
  then have "balanced st1 ext (?ys ! ?i # take ?i ?ys @ drop (Suc ?i) ?ys)"
    using k(2) by (metis append_Cons append_Nil balanced_rotate)
  then obtain st2 where st2: "fts_atom_assign (?ys ! ?i) at st1 = Some (at, st2)"
    "balanced st2 ext (at # take ?i ?ys @ drop (Suc ?i) ?ys)"
    using balanced_assign [OF _ assms(2)] by blast
  then have "balanced st2 ext (?ys[?i := at])"
    using i by (simp only: upd_conv_take_nth_drop balanced_rotate)
  moreover have "(?ys @ replicate k AVoid) ! ?i = ?ys ! ?i" "(?ys @ replicate k AVoid)[?i := at] = ?ys[?i := at] @ replicate k AVoid"
    using i by (simp_all only: nth_append list_update_append if_True)
  moreover have "?i < length (?ys @ replicate k AVoid)" using i by simp
  ultimately show ?thesis
    using 1 ok k(1) st2(1) assms(3)
    by (simp del: append_assoc add: fts_array_set_element_def assign_at_def arr_ok_def arr_is_def)
qed

lemma put_all_spec:
  assumes "length mid = length ys" "all_held ext ys" "balanced st ext (pre @ post)"
  shows "\<exists>st'. put_all (length pre) ys (pre @ mid @ post, st) = Some (pre @ ys @ post, st') \<and>
           balanced st' ext (pre @ ys @ post)"
  using assms
proof (induction ys arbitrary: pre mid st)
  case Nil
  then show ?case by simp
next
  case (Cons y ys)
  then obtain m mid' where mid: "mid = m # mid'" by (cases mid) auto
  obtain st1 where st1: "fts_atom_refer y st = Some st1" "balanced st1 ext ((pre @ [y]) @ post)"
    using balanced_refer [OF Cons.prems(3), of y] Cons.prems(2) by (auto simp: balanced_rotate)
  obtain st2 where "put_all (length (pre @ [y])) ys ((pre @ [y]) @ mid' @ post, st1) =
      Some ((pre @ [y]) @ ys @ post, st2)" "balanced st2 ext ((pre @ [y]) @ ys @ post)"
    using Cons.IH [OF _ _ st1(2)] Cons.prems mid by auto
  then show ?case using st1 by (simp add: mid)
qed

lemma shift_up_spec:
  "\<exists>w'. length w' = length w \<and>
     shift_up (length w) (length pre) (length pre + length suf) (pre @ suf @ w @ post) = pre @ w' @ suf @ post"
proof (induction suf arbitrary: w post rule: rev_induct)
  case Nil
  show ?case by (auto simp: shift_up_def)
next
  case (snoc s suf)
  let ?n = "length pre + length suf"
  obtain v where v: "length v = length w" "(s # w)[length w := s] = v @ [s]"
  proof (cases w rule: rev_cases)
    case Nil
    then show ?thesis using that [of "[]"] by simp
  next
    case (snoc u z)
    then show ?thesis using that [of "s # u"] by (simp add: list_update_append)
  qed
  have nth: "(pre @ (suf @ [s]) @ w @ post) ! ?n = s" by (simp add: nth_append)
  have "((s # w) @ post)[length w := s] = v @ s # post"
    using v(2) by (subst list_update_append1) simp_all
  then have "(pre @ suf @ (s # w) @ post)[length w + ?n := s] = pre @ suf @ v @ s # post"
    by (simp add: list_update_append)
  then have "(pre @ (suf @ [s]) @ w @ post)[length w + ?n := (pre @ (suf @ [s]) @ w @ post) ! ?n] =
      pre @ suf @ v @ s # post" unfolding nth by simp
  then have "shift_up (length w) (length pre) (length pre + length (suf @ [s])) (pre @ (suf @ [s]) @ w @ post) =
      shift_up (length v) (length pre) ?n (pre @ suf @ v @ s # post)"
    using v(1) by (simp add: shift_up_def)
  then show ?case using snoc.IH [of v "s # post"] v(1) by simp
qed

lemma array_insert_spec:
  assumes "arr_ok st ext a xs" "all_held ext at" "0 \<le> index"
  shows "\<exists>a' st'. fts_array_insert a index at st = Some (a', st') \<and>
           arr_ok st' ext a' (take (nat index) xs @ at @ drop (nat index) xs)"
proof -
  define i where "i = min (nat index) (length xs)"
  let ?pre = "take i xs" let ?suf = "drop i xs" let ?w = "replicate (length at) AVoid"
  have size_a: "ar_size a = length xs" using assms(1) by (simp add: arr_ok_def arr_is_def)
  have i: "length ?pre = i" "length ?pre + length ?suf = length xs" "?pre @ ?suf = xs"
    by (auto simp: i_def)
  have cut: "?pre = take (nat index) xs" "?suf = drop (nat index) xs" by (auto simp: i_def min_def)
  have idx: "nat (if index > int (length xs) then int (length xs) else index) = i"
    using assms(3) by (auto simp: i_def)
  obtain a1 st1 where 1: "fts_array_set_size a (int (length xs + length at)) st = Some (a1, st1)"
    "arr_ok st1 ext a1 (xs @ ?w)"
    using set_size_spec [OF assms(1), of "int (length xs + length at)"] by (auto simp: nat_int_add)
  then obtain k where k: "ar_atoms a1 = ?pre @ ?suf @ ?w @ replicate k AVoid"
    and bal: "balanced st1 ext (?pre @ ?suf @ replicate k AVoid)"
    using i(3) by (auto simp: arr_ok_def arr_is_def append_assoc [symmetric] simp del: append_assoc)
  obtain w' where w': "length w' = length at" "shift_up (length at) i (length xs) (ar_atoms a1) =
      ?pre @ w' @ ?suf @ replicate k AVoid"
    using shift_up_spec [of ?w ?pre ?suf "replicate k AVoid"] i unfolding k by auto
  obtain st2 where "put_all i at (?pre @ w' @ ?suf @ replicate k AVoid, st1) =
      Some (?pre @ at @ ?suf @ replicate k AVoid, st2)" "balanced st2 ext (?pre @ at @ ?suf @ replicate k AVoid)"
    using put_all_spec [OF w'(1) assms(2) bal] i(1) by auto
  moreover have "balanced st2 ext (?pre @ at @ ?suf @ replicate k AVoid) = balanced st2 ext (?pre @ at @ ?suf)"
    by (rule balanced_cong) simp
  ultimately show ?thesis
    using 1 w' assms(3) idx i(2) size_a
    by (auto simp: fts_array_insert_def Let_def arr_ok_def arr_is_def cut)
qed

lemma append_raw_spec:
  assumes "arr_ok st ext a xs"
  shows "\<exists>a' st'. append_raw a at st = Some (a', st') \<and> arr_is a' (xs @ [at]) \<and> balanced st' ext xs"
proof -
  obtain a1 st1 where 1: "fts_array_set_size a (int (length xs) + 1) st = Some (a1, st1)"
    "arr_ok st1 ext a1 (xs @ [AVoid])"
    using set_size_spec [OF assms, of "int (length xs) + 1"] by (auto simp: nat_add_distrib)
  then show ?thesis
    using assms by (auto simp: append_raw_def arr_ok_def arr_is_def balanced_def list_update_append)
qed

lemma append_object_spec:
  assumes "arr_ok st ext a xs" "0 < ext x"
  shows "\<exists>a' st'. fts_array_append_object a x st = Some (a', st') \<and> arr_ok st' ext a' (xs @ [AObject x])"
proof -
  obtain a1 st1 where 1: "append_raw a (AObject x) st = Some (a1, st1)" "arr_is a1 (xs @ [AObject x])"
    "balanced st1 ext xs" using append_raw_spec [OF assms(1)] by blast
  then obtain st2 where "fts_object_refer x st1 = Some st2" "balanced st2 ext (AObject x # xs)"
    using balanced_refer [of st1 ext xs "AObject x"] assms(2) by (auto simp: held_def fts_atom_refer_def)
  then show ?thesis
    using 1 balanced_rotate [of st2 ext xs "AObject x" "[]"]
    by (auto simp: fts_array_append_object_def arr_ok_def)
qed

lemma append_plain_spec:
  assumes "arr_ok st ext a xs" "\<forall>x. at \<noteq> AObject x"
  shows "\<exists>a' st'. append_raw a at st = Some (a', st') \<and> arr_ok st' ext a' (xs @ [at])"
proof -
  have "balanced st' ext (xs @ [at]) = balanced st' ext xs" for st'
    using assms(2) by (intro balanced_cong) auto
  then show ?thesis using append_raw_spec [OF assms(1), of at] by (simp add: arr_ok_def)
qed

lemma cut_moves_spec:
  assumes "length c = n" "0 < n" "balanced st ext (pre @ c @ tail @ post)"
  shows "\<exists>st'. cut_moves n [length pre..<length pre + length tail] (pre @ c @ tail @ post, st) =
             Some (pre @ tail @ drop (length tail) (c @ replicate (length tail) AVoid) @ post, st') \<and>
           balanced st' ext (pre @ tail @ drop (length tail) (c @ replicate (length tail) AVoid) @ post)"
  using assms
proof (induction tail arbitrary: pre c st)
  case Nil
  then show ?case by simp
next
  case (Cons t tail)
  then obtain d ds where c: "c = d # ds" by (cases c) auto
  let ?p = "length pre" let ?l = "pre @ (d # ds) @ (t # tail) @ post"
  have n: "n = Suc (length ds)" using Cons.prems(1) c by simp
  have "balanced st ext (d # pre @ ds @ t # tail @ post)"
    using Cons.prems(3) by (simp add: c balanced_rotate)
  then obtain st1 where st1: "fts_atom_release d st = Some st1" "balanced st1 ext (pre @ ds @ t # tail @ post)"
    using balanced_release by blast
  have nth: "?l ! ?p = d" "?l ! (n + ?p) = t" by (simp_all add: nth_append n)
  have upd: "?l[?p := t, n + ?p := AVoid] = (pre @ [t]) @ (ds @ [AVoid]) @ tail @ post"
    by (simp add: n list_update_append)
  have bal: "balanced st1 ext ((pre @ [t]) @ (ds @ [AVoid]) @ tail @ post)"
    using st1(2) balanced_cong [of "pre @ ds @ t # tail @ post" "(pre @ [t]) @ (ds @ [AVoid]) @ tail @ post"]
    by auto
  have step: "cut_move n ?p (?l, st) = Some ((pre @ [t]) @ (ds @ [AVoid]) @ tail @ post, st1)"
    unfolding cut_move_def prod.case nth upd [symmetric] by (simp add: st1 n)
  have range: "[?p..<?p + length (t # tail)] = ?p # [length (pre @ [t])..<length (pre @ [t]) + length tail]"
    by (simp add: upt_rec)
  have "drop (length tail) ((ds @ [AVoid]) @ replicate (length tail) AVoid) =
      drop (length (t # tail)) (c @ replicate (length (t # tail)) AVoid)"
    by (simp add: c)
  moreover have "cut_moves n (?p # ps) (?l, st) = cut_moves n ps ((pre @ [t]) @ (ds @ [AVoid]) @ tail @ post, st1)" for ps
    by (simp only: cut_moves.simps step Option.bind.simps)
  moreover have "length (ds @ [AVoid]) = n" by (simp add: n)
  ultimately show ?case
    using Cons.IH [OF _ Cons.prems(2) bal] unfolding range c by (simp only: append_assoc append_Cons append_Nil)
qed

text \<open>
  Cutting \<open>c\<close> out of \<open>pre @ c @ tail\<close>: the contents are right and every reference is still counted
  for some slot of the buffer, but when the tail is shorter than the cut, the last atoms of the cut
  stay behind in the slots after the contents.
\<close>

lemma cut_spec:
  assumes "arr_ok st ext a (pre @ c @ tail)" "c \<noteq> []"
    and "index = int (length pre)" "n = int (length c) \<or> (tail = [] \<and> n \<ge> int (length c))"
  shows "\<exists>a' st' k. fts_array_cut a index n st = Some (a', st') \<and> ar_size a' = length (pre @ tail) \<and>
           ar_alloc_increment a' = ar_alloc_increment a \<and>
           ar_atoms a' = pre @ tail @ drop (length tail) c @ replicate k AVoid \<and>
           balanced st' ext (pre @ tail @ drop (length tail) c)"
proof -
  obtain k where a: "ar_size a = length (pre @ c @ tail)" "ar_atoms a = pre @ c @ tail @ replicate k AVoid"
    and bal: "balanced st ext (pre @ c @ tail @ replicate k AVoid)"
    using assms(1) by (auto simp: arr_ok_def arr_is_def balanced_def)
  let ?m = "length tail - (length tail - length c)"
  have d: "drop (length tail) (c @ replicate (length tail) AVoid) = drop (length tail) c @ replicate ?m AVoid"
    by simp
  obtain st' where st': "cut_moves (length c) [length pre..<length pre + length tail] (ar_atoms a, st) =
      Some (pre @ tail @ drop (length tail) c @ replicate ?m AVoid @ replicate k AVoid, st')"
    and b: "balanced st' ext (pre @ tail @ drop (length tail) c @ replicate ?m AVoid @ replicate k AVoid)"
    using cut_moves_spec [OF refl _ bal] assms(2) unfolding d a(2) by auto
  have b': "balanced st' ext (pre @ tail @ drop (length tail) c)"
    using b by (simp add: balanced_def)
  have n: "nat (if index + n > int (ar_size a) then int (ar_size a) - index else n) = length c"
    "int (ar_size a) - (if index + n > int (ar_size a) then int (ar_size a) - index else n) =
     int (length pre + length tail)"
    "(if index + n > int (ar_size a) then int (ar_size a) - index else n) > 0"
    using assms(2-4) a(1) by auto
  have "fts_array_cut a index n st = Some (a\<lparr>ar_atoms := pre @ tail @ drop (length tail) c @
      replicate ?m AVoid @ replicate k AVoid, ar_size := length pre + length tail\<rparr>, st')"
    using st' assms(3) unfolding fts_array_cut_def Let_def n(2) if_P [OF n(3)] n(1) by (simp add: nat_int_add)
  then show ?thesis using b' by (auto simp: replicate_add [symmetric])
qed

lemma copy_spec:
  assumes "arr_ok st ext c ys" "arr_is org xs" "all_held ext xs"
  shows "\<exists>c' st'. fts_array_copy org c st = Some (c', st') \<and> arr_ok st' ext c' xs"
proof -
  obtain c1 st1 where 1: "fts_array_clear c st = Some (c1, st1)" "arr_ok st1 ext c1 []"
    using clear_spec [OF assms(1)] by blast
  obtain c2 st2 where 2: "fts_array_set_size c1 (int (length xs)) st1 = Some (c2, st2)"
    "arr_ok st2 ext c2 (replicate (length xs) AVoid)"
    using set_size_spec [OF 1(2), of "int (length xs)"] by auto
  obtain k where k: "ar_atoms c2 = replicate (length xs) AVoid @ replicate k AVoid"
    "balanced st2 ext (replicate (length xs) AVoid @ replicate k AVoid)"
    using 2(2) by (auto simp: arr_ok_def arr_is_def)
  obtain j where j: "ar_size org = length xs" "ar_atoms org = xs @ replicate j AVoid"
    using assms(2) by (auto simp: arr_is_def)
  have "zip [0..<length xs] (xs @ replicate j AVoid) = zip [0..<length xs] xs" by (simp add: zip_append2)
  then show ?thesis
    using assign_all_spec [of "replicate (length xs) AVoid" xs ext st2 "[]" "replicate k AVoid"] assms(3) k 1 2 j
    by (auto simp: fts_array_copy_def arr_ok_def arr_is_def)
qed

end
