(* ===== verification/Heap.thy ===== *)
theory Heap
  imports Prelude
begin

text \<open>
  The block allocator (\<open>fts/mem.c\<close>): a heap hands out blocks of one size from a free list that is
  threaded through the free blocks themselves.

  Memory is \<open>h_mem\<close>, the pointer stored in the first word of a block; 0 is the null pointer. The
  result of \<open>malloc\<close> in \<open>fts_heap_grow\<close> is an argument: the address of a region of fresh memory.
  \<open>h_live\<close> is a ghost field, the blocks that are handed out.
\<close>

definition FREE_TO_USED_RATIO :: nat where "FREE_TO_USED_RATIO = 5"
definition SHARED_HEAP_MAX_SIZE :: nat where "SHARED_HEAP_MAX_SIZE = 256"
text \<open>The word sizes of the ILP32 machines the code was written for.\<close>

definition sizeof_ptr :: nat where "sizeof_ptr = 4"
definition sizeof_long :: nat where "sizeof_long = 4"

record heap =
  h_mem :: "addr \<Rightarrow> addr"
  free_list :: addr
  block_size :: nat
  current_block_group :: nat
  reserved_blocks :: nat
  h_live :: "addr set"

definition unshared_heap :: "nat \<Rightarrow> heap" where
  "unshared_heap bs = \<lparr>h_mem = (\<lambda>_. 0), free_list = 0,
     block_size = (if bs > sizeof_ptr then bs else sizeof_ptr),
     current_block_group = 64, reserved_blocks = 0, h_live = {}\<rparr>"

definition shared_heap :: "nat \<Rightarrow> heap" where
  "shared_heap idx = \<lparr>h_mem = (\<lambda>_. 0), free_list = 0, block_size = (idx + 1) * sizeof_long,
     current_block_group = 64, reserved_blocks = 0, h_live = {}\<rparr>"

text \<open>
  \<open>fts_heap_new\<close> over the array \<open>fts_heaps\<close> of shared heaps: the index of a shared heap (\<open>Inl\<close>) or
  a heap of its own (\<open>Inr\<close>). An index outside of the array is \<^const>\<open>None\<close>.
\<close>

definition n_heaps :: nat where
  "n_heaps = SHARED_HEAP_MAX_SIZE div sizeof_long + 1"

definition mem_init :: "heap option list" where
  "mem_init = replicate n_heaps None"

definition fts_heap_new :: "nat \<Rightarrow> heap option list \<Rightarrow> ((nat + heap) \<times> heap option list) option" where
  "fts_heap_new bs heaps =
     (if bs > SHARED_HEAP_MAX_SIZE then Some (Inr (unshared_heap bs), heaps)
      else let idx = bs div sizeof_long
           in if idx \<ge> length heaps then None
              else case heaps ! idx of
                  Some h \<Rightarrow> Some (Inl idx, heaps)
                | None \<Rightarrow> Some (Inl idx, heaps[idx := Some (shared_heap idx)]))"

text \<open>The loop of \<open>fts_heap_grow\<close> that links block \<open>i\<close> to block \<open>i + 1\<close>.\<close>

primrec link_blocks :: "addr \<Rightarrow> nat \<Rightarrow> nat \<Rightarrow> (addr \<Rightarrow> addr) \<Rightarrow> addr \<Rightarrow> addr" where
  "link_blocks mem bs 0 m = m"
| "link_blocks mem bs (Suc i) m = (link_blocks mem bs i m)(mem + i * bs := mem + (i + 1) * bs)"

definition fts_heap_grow :: "addr \<Rightarrow> heap \<Rightarrow> heap" where
  "fts_heap_grow mem p =
     (let g = current_block_group p; bs = block_size p;
          m1 = link_blocks mem bs (g - 1) (h_mem p);
          m2 = m1(mem + (g - 1) * bs := free_list p);
          r = reserved_blocks p + g
      in p\<lparr>h_mem := m2, free_list := mem, reserved_blocks := r,
           current_block_group := (if r div FREE_TO_USED_RATIO > g div 2
                                   then (r div FREE_TO_USED_RATIO) * 2 else g)\<rparr>)"

definition fts_heap_alloc :: "addr \<Rightarrow> heap \<Rightarrow> addr \<times> heap" where
  "fts_heap_alloc mem p =
     (let p1 = (if free_list p = 0 then fts_heap_grow mem p else p); m = free_list p1
      in (m, p1\<lparr>free_list := h_mem p1 m, h_live := insert m (h_live p1)\<rparr>))"

definition fts_heap_free :: "addr \<Rightarrow> heap \<Rightarrow> heap" where
  "fts_heap_free a p =
     p\<lparr>h_mem := (h_mem p)(a := free_list p), free_list := a, h_live := h_live p - {a}\<rparr>"

text \<open>A caller that stores into a block it holds overwrites the link word of that block only.\<close>

definition store_block :: "addr \<Rightarrow> addr \<Rightarrow> heap \<Rightarrow> heap" where
  "store_block a v p = p\<lparr>h_mem := (h_mem p)(a := v)\<rparr>"

subsection \<open>The free list as a list\<close>

primrec free_path :: "(addr \<Rightarrow> addr) \<Rightarrow> addr \<Rightarrow> addr list \<Rightarrow> addr \<Rightarrow> bool" where
  "free_path m x [] y \<longleftrightarrow> x = y"
| "free_path m x (a # as) y \<longleftrightarrow> x \<noteq> 0 \<and> a = x \<and> free_path m (m x) as y"

lemma free_path_append:
  "free_path m x (as @ bs) z \<longleftrightarrow> (\<exists>y. free_path m x as y \<and> free_path m y bs z)"
  by (induction as arbitrary: x) auto

lemma free_path_upd: "a \<notin> set as \<Longrightarrow> free_path (m(a := v)) x as y = free_path m x as y"
  by (induction as arbitrary: x) auto

lemma free_path_cong: "(\<And>a. a \<in> set as \<Longrightarrow> m a = m' a) \<Longrightarrow> free_path m x as y = free_path m' x as y"
  by (induction as arbitrary: x) auto

definition block_group :: "addr \<Rightarrow> nat \<Rightarrow> nat \<Rightarrow> addr list" where
  "block_group mem bs n = map (\<lambda>i. mem + i * bs) [0..<n]"

lemma distinct_block_group: "0 < bs \<Longrightarrow> distinct (block_group mem bs n)"
  by (simp add: block_group_def distinct_map inj_on_def)

lemma set_group: "set (block_group mem bs n) = (\<lambda>i. mem + i * bs) ` {..<n}"
  by (auto simp: block_group_def)

lemma link_blocks_other: "a \<notin> set (block_group mem bs n) \<Longrightarrow> link_blocks mem bs n m a = m a"
  by (induction n) (auto simp: block_group_def)

lemma link_blocks_path:
  "0 < bs \<Longrightarrow> 0 < mem \<Longrightarrow> free_path (link_blocks mem bs n m) mem (block_group mem bs n) (mem + n * bs)"
proof (induction n)
  case 0
  then show ?case by (simp add: block_group_def)
next
  case (Suc n)
  have new: "mem + n * bs \<notin> set (block_group mem bs n)"
    using distinct_block_group [of bs mem "Suc n"] Suc.prems by (simp add: block_group_def)
  have "block_group mem bs (Suc n) = block_group mem bs n @ [mem + n * bs]" by (simp add: block_group_def)
  moreover have "free_path (link_blocks mem bs (Suc n) m) mem (block_group mem bs n) (mem + n * bs)"
    unfolding link_blocks.simps free_path_upd [OF new] using Suc by blast
  moreover have "link_blocks mem bs (Suc n) m (mem + n * bs) = mem + Suc n * bs" by simp
  ultimately show ?case
    using Suc.prems by (simp add: free_path_append del: link_blocks.simps)
qed

definition heap_is :: "heap \<Rightarrow> addr list \<Rightarrow> bool" where
  "heap_is p as \<longleftrightarrow>
     free_path (h_mem p) (free_list p) as 0 \<and> distinct as \<and> 0 \<notin> set as \<and> set as \<inter> h_live p = {} \<and>
     0 < block_size p \<and> 2 \<le> current_block_group p \<and> 0 \<notin> h_live p"

text \<open>What \<open>malloc\<close> guarantees of the region it returns for \<open>n\<close> blocks.\<close>

definition fresh_region :: "heap \<Rightarrow> addr list \<Rightarrow> addr \<Rightarrow> bool" where
  "fresh_region p as mem \<longleftrightarrow> mem \<noteq> 0 \<and>
     set (block_group mem (block_size p) (current_block_group p)) \<inter> (set as \<union> h_live p) = {}"

lemma heap_is_new: "heap_is (unshared_heap bs) []" "heap_is (shared_heap idx) []"
  by (auto simp: heap_is_def unshared_heap_def shared_heap_def sizeof_ptr_def sizeof_long_def)

lemma heap_is_grow:
  assumes hp: "heap_is p as" and fresh: "fresh_region p as mem"
  shows "heap_is (fts_heap_grow mem p) (block_group mem (block_size p) (current_block_group p) @ as)"
proof -
  let ?g = "current_block_group p" let ?bs = "block_size p"
  obtain k where k: "?g = Suc k" using hp by (cases ?g) (auto simp: heap_is_def)
  let ?m1 = "link_blocks mem ?bs k (h_mem p)" let ?last = "mem + k * ?bs"
  have bs: "0 < ?bs" and mem: "0 < mem" using hp fresh by (auto simp: heap_is_def fresh_region_def)
  have grp: "block_group mem ?bs ?g = block_group mem ?bs k @ [?last]" by (simp add: k block_group_def)
  have d: "distinct (block_group mem ?bs ?g)" using bs by (rule distinct_block_group)
  have disj: "set (block_group mem ?bs ?g) \<inter> (set as \<union> h_live p) = {}" using fresh by (simp add: fresh_region_def)
  have "free_path (?m1(?last := free_list p)) mem (block_group mem ?bs k) ?last"
    using link_blocks_path [OF bs mem, of k "h_mem p"] d grp by (simp add: free_path_upd)
  moreover have "free_path (?m1(?last := free_list p)) (free_list p) as 0 = free_path (h_mem p) (free_list p) as 0"
  proof (rule free_path_cong)
    fix a assume "a \<in> set as"
    then have "a \<notin> set (block_group mem ?bs k)" "a \<noteq> ?last" using disj grp by auto
    then show "(?m1(?last := free_list p)) a = h_mem p a" by (simp add: link_blocks_other)
  qed
  ultimately have "free_path (h_mem (fts_heap_grow mem p)) mem (block_group mem ?bs ?g @ as) 0"
    using hp mem grp by (auto simp: free_path_append fts_heap_grow_def Let_def k heap_is_def)
  moreover have "0 \<notin> set (block_group mem ?bs ?g)" using mem by (auto simp: block_group_def)
  moreover have "2 \<le> current_block_group (fts_heap_grow mem p)"
    using hp by (auto simp: fts_heap_grow_def Let_def heap_is_def)
  ultimately show ?thesis
    using hp d disj by (auto simp: heap_is_def fts_heap_grow_def Let_def)
qed

lemma heap_is_alloc_nonempty:
  assumes "heap_is p (a # as)"
  shows "fst (fts_heap_alloc mem p) = a" "heap_is (snd (fts_heap_alloc mem p)) as"
    "h_live (snd (fts_heap_alloc mem p)) = insert a (h_live p)"
  using assms by (auto simp: heap_is_def fts_heap_alloc_def Let_def)

lemma heap_is_alloc:
  assumes hp: "heap_is p as" and fresh: "as = [] \<Longrightarrow> fresh_region p as mem"
  shows "\<exists>a as'. fst (fts_heap_alloc mem p) = a \<and> a \<notin> h_live p \<and> a \<noteq> 0 \<and>
           heap_is (snd (fts_heap_alloc mem p)) as' \<and>
           h_live (snd (fts_heap_alloc mem p)) = insert a (h_live p)"
proof (cases as)
  case (Cons a as')
  then show ?thesis
    using heap_is_alloc_nonempty [of p a as' mem] hp by (auto simp: heap_is_def)
next
  case Nil
  then have null: "free_list p = 0" using hp by (simp add: heap_is_def)
  let ?q = "fts_heap_grow mem p"
  obtain a as' where g: "block_group mem (block_size p) (current_block_group p) @ as = a # as'"
    using hp by (cases "block_group mem (block_size p) (current_block_group p)") (auto simp: heap_is_def block_group_def)
  have q: "heap_is ?q (a # as')" using heap_is_grow [OF hp fresh [OF Nil]] g by simp
  have "free_list ?q \<noteq> 0" using q by (simp add: heap_is_def)
  then have "fts_heap_alloc mem p = fts_heap_alloc mem ?q" using null by (simp add: fts_heap_alloc_def)
  moreover have "h_live ?q = h_live p" by (simp add: fts_heap_grow_def Let_def)
  ultimately show ?thesis
    using heap_is_alloc_nonempty [OF q, of mem] q by (auto simp: heap_is_def)
qed

lemma heap_is_free:
  assumes "heap_is p as" "a \<in> h_live p"
  shows "heap_is (fts_heap_free a p) (a # as)"
proof -
  have "a \<notin> set as" "a \<noteq> 0" using assms by (auto simp: heap_is_def)
  then show ?thesis using assms by (auto simp: heap_is_def fts_heap_free_def free_path_upd)
qed

lemma heap_is_store:
  assumes "heap_is p as" "a \<in> h_live p"
  shows "heap_is (store_block a v p) as"
proof -
  have "a \<notin> set as" using assms by (auto simp: heap_is_def)
  then show ?thesis using assms by (simp add: heap_is_def store_block_def free_path_upd)
qed

text \<open>Runs of a client: allocations, stores into its own blocks, frees of its own blocks.\<close>

inductive heap_step :: "heap \<Rightarrow> heap \<Rightarrow> bool" where
  alloc: "(\<And>as. heap_is p as \<Longrightarrow> as = [] \<Longrightarrow> fresh_region p as mem) \<Longrightarrow>
    heap_step p (snd (fts_heap_alloc mem p))"
| store: "a \<in> h_live p \<Longrightarrow> heap_step p (store_block a v p)"
| free: "a \<in> h_live p \<Longrightarrow> heap_step p (fts_heap_free a p)"

inductive heap_reachable :: "heap \<Rightarrow> bool" where
  unshared: "heap_reachable (unshared_heap bs)"
| shared: "heap_reachable (shared_heap idx)"
| step: "heap_reachable p \<Longrightarrow> heap_step p q \<Longrightarrow> heap_reachable q"

lemma heap_reachable_is: "heap_reachable p \<Longrightarrow> \<exists>as. heap_is p as"
proof (induction rule: heap_reachable.induct)
  case (unshared bs)
  show ?case using heap_is_new by blast
next
  case (shared idx)
  show ?case using heap_is_new by blast
next
  case (step p q)
  then obtain as where as: "heap_is p as" by blast
  from step.hyps(2) show ?case
  proof cases
    case (alloc mem)
    then show ?thesis using heap_is_alloc [OF as, of mem] as by blast
  next
    case (store a v)
    then show ?thesis using heap_is_store [OF as] by blast
  next
    case (free a)
    then show ?thesis using heap_is_free [OF as] by blast
  qed
qed

lemma shared_index: "bs \<le> SHARED_HEAP_MAX_SIZE \<Longrightarrow> bs div sizeof_long < n_heaps"
  by (simp add: SHARED_HEAP_MAX_SIZE_def sizeof_long_def n_heaps_def)

end
