(* ===== verification/FtsList.thy ===== *)
theory FtsList
  imports Atom
begin

text \<open>
  Linked lists of atoms (\<open>fts/list.c\<close>). A \<open>fts_list_t *\<close> is the list of the atoms from that node
  on, \<open>[]\<close> for a null pointer; the operations that splice nodes return the new head.
\<close>

type_synonym fts_list = "atom list"

definition fts_list_next :: "fts_list \<Rightarrow> fts_list" where
  "fts_list_next l = (case l of [] \<Rightarrow> [] | _ # xs \<Rightarrow> xs)"

definition fts_list_get :: "fts_list \<Rightarrow> atom option" where
  "fts_list_get l = (case l of [] \<Rightarrow> None | x # _ \<Rightarrow> Some x)"

definition fts_list_set :: "fts_list \<Rightarrow> atom \<Rightarrow> fts_list" where
  "fts_list_set l a = (case l of [] \<Rightarrow> [] | _ # xs \<Rightarrow> a # xs)"

text \<open>\<open>while (list->next) list = list->next\<close>\<close>

fun fts_list_last :: "fts_list \<Rightarrow> fts_list" where
  "fts_list_last [] = []"
| "fts_list_last [x] = [x]"
| "fts_list_last (x # y # xs) = fts_list_last (y # xs)"

text \<open>\<open>last->next = node\<close> at the node that \<open>fts_list_last\<close> finds.\<close>

fun link_last :: "fts_list \<Rightarrow> fts_list \<Rightarrow> fts_list" where
  "link_last [] node = node"
| "link_last [x] node = x # node"
| "link_last (x # y # xs) node = x # link_last (y # xs) node"

definition fts_list_append :: "fts_list \<Rightarrow> atom \<Rightarrow> fts_list" where
  "fts_list_append l data = (if l = [] then [data] else link_last l [data])"

definition fts_list_prepend :: "fts_list \<Rightarrow> atom \<Rightarrow> fts_list" where
  "fts_list_prepend l data = data # l"

text \<open>
  \<open>while ((index-- > 1) && tmp) tmp = tmp->next\<close>, then the node goes after \<open>tmp\<close>, or at the end when
  \<open>tmp\<close> ran off the list.
\<close>

fun insert_after :: "fts_list \<Rightarrow> atom \<Rightarrow> int \<Rightarrow> fts_list option" where
  "insert_after [] data index = None"
| "insert_after (x # xs) data index =
     (if index > 1 then map_option ((#) x) (insert_after xs data (index - 1)) else Some (x # data # xs))"

definition fts_list_insert :: "fts_list \<Rightarrow> atom \<Rightarrow> int \<Rightarrow> fts_list" where
  "fts_list_insert l data index =
     (case insert_after l data index of Some l' \<Rightarrow> l' | None \<Rightarrow> fts_list_append l data)"

text \<open>The first node that holds an identical atom is unlinked.\<close>

fun fts_list_remove :: "class_env \<Rightarrow> fts_list \<Rightarrow> atom \<Rightarrow> fts_list" where
  "fts_list_remove E [] data = []"
| "fts_list_remove E (x # xs) data =
     (if fts_atom_identical E x data then xs else x # fts_list_remove E xs data)"

fun fts_list_get_nth :: "fts_list \<Rightarrow> int \<Rightarrow> fts_list" where
  "fts_list_get_nth [] n = []"
| "fts_list_get_nth (x # xs) n = (if n > 0 then fts_list_get_nth xs (n - 1) else x # xs)"

fun fts_list_get_size :: "fts_list \<Rightarrow> nat" where
  "fts_list_get_size [] = 0"
| "fts_list_get_size (x # xs) = Suc (fts_list_get_size xs)"

text \<open>The iterator: its data is the rest of the list; \<open>next\<close> dereferences it.\<close>

definition list_iterator_has_more :: "fts_list \<Rightarrow> bool" where
  "list_iterator_has_more i \<longleftrightarrow> i \<noteq> []"

definition list_iterator_next :: "fts_list \<Rightarrow> (atom \<times> fts_list) option" where
  "list_iterator_next i = (case i of [] \<Rightarrow> None | x # xs \<Rightarrow> Some (x, xs))"

subsection \<open>Against the list operations\<close>

lemma link_last_append: "l \<noteq> [] \<Longrightarrow> link_last l node = l @ node"
  by (induction l node rule: link_last.induct) auto

lemma append_spec: "fts_list_append l a = l @ [a]"
  by (simp add: fts_list_append_def link_last_append)

lemma last_spec: "fts_list_last l = (if l = [] then [] else [last l])"
  by (induction l rule: fts_list_last.induct) auto

lemma insert_after_spec:
  "insert_after l a i =
     (if nat (max 1 i) \<le> length l then Some (take (nat (max 1 i)) l @ a # drop (nat (max 1 i)) l) else None)"
proof (induction l arbitrary: i)
  case Nil
  then show ?case by simp
next
  case (Cons x l)
  show ?case
  proof (cases "i > 1")
    case True
    then have "nat (max 1 i) = Suc (nat (max 1 (i - 1)))" by simp
    then show ?thesis using True Cons.IH [of "i - 1"] by auto
  next
    case False
    then have "nat (max 1 i) = 1" by simp
    then show ?thesis using False by simp
  qed
qed

lemma list_insert_spec:
  "fts_list_insert l a i = take (nat (max 1 i)) l @ a # drop (nat (max 1 i)) l"
  by (simp add: fts_list_insert_def insert_after_spec append_spec)

lemma list_remove_spec:
  "fts_list_remove E l a =
     (case dropWhile (\<lambda>x. \<not> fts_atom_identical E x a) l of
        [] \<Rightarrow> l | _ # ys \<Rightarrow> takeWhile (\<lambda>x. \<not> fts_atom_identical E x a) l @ ys)"
  by (induction l) (auto split: list.split, metis dropWhile_eq_Nil_conv list.distinct(1))

lemma get_nth_spec: "fts_list_get_nth l n = drop (nat n) l"
proof (induction l n rule: fts_list_get_nth.induct)
  case (2 x xs n)
  then show ?case by (cases "n > 0") (auto simp: drop_Cons' nat_diff_distrib)
qed simp

lemma get_size_spec: "fts_list_get_size l = length l"
  by (induction l) auto

end
