(* ===== verification/SymbolTable.thy ===== *)
theory SymbolTable
  imports Hashtable
begin

text \<open>
  Symbols (\<open>fts/symbol.c\<close>) and shared values (the end of \<open>fts/hashtable.c\<close>).

  A symbol is the address of an interned string. The state is the global table, which maps string
  keys to pointer values, and the memory of the interned copies. The address that \<open>fts_malloc\<close>
  returns for a new copy is an argument. \<open>fts_get_pointer\<close> reads the value word of an atom; on an
  atom that is not a pointer the result is \<^const>\<open>None\<close>.
\<close>

record symtab =
  sy_table :: hashtable
  sy_mem :: "addr \<Rightarrow> string option"

fun fts_get_pointer :: "atom \<Rightarrow> addr option" where
  "fts_get_pointer (APointer p) = Some p"
| "fts_get_pointer _ = None"

definition symbol_init :: symtab where
  "symbol_init = \<lparr>sy_table = fts_hashtable_init FTS_HASHTABLE_BIG, sy_mem = Map.empty\<rparr>"

definition fts_new_symbol :: "class_env \<Rightarrow> string \<Rightarrow> addr \<Rightarrow> symtab \<Rightarrow> (addr \<times> symtab) option" where
  "fts_new_symbol E s p st =
     (case fts_hashtable_get E (sy_table st) (AString s) of
        Some v \<Rightarrow> map_option (\<lambda>q. (q, st)) (fts_get_pointer v)
      | None \<Rightarrow> Some (p, st\<lparr>sy_table := snd (fts_hashtable_put E (sy_table st) (AString s) (APointer p)),
                            sy_mem := (sy_mem st)(p := Some s)\<rparr>))"

text \<open>The table and the memory agree: exactly the interned copies are mapped.\<close>

definition sym_inv :: "class_env \<Rightarrow> symtab \<Rightarrow> bool" where
  "sym_inv E st \<longleftrightarrow> ht_inv E (sy_table st) \<and>
     (\<forall>s v. fts_hashtable_get E (sy_table st) (AString s) = Some v \<longleftrightarrow>
            (\<exists>p. v = APointer p \<and> sy_mem st p = Some s))"

lemma plain_string [simp]: "plain (AString s)" "plain (ASymbol x)" "plain (APointer x)" "plain AVoid"
    "plain (AInt i)"
  by (simp_all add: plain_def)

lemma nkey_string [simp]: "nkey (AString s) = AString s" "nkey (ASymbol x) = ASymbol x"
    "nkey (APointer x) = APointer x" "nkey AVoid = AVoid" "nkey (AInt i) = AInt i"
  by (simp_all add: nkey_def)

lemma sym_inv_init: "sym_inv E symbol_init"
proof -
  have "fts_hashtable_get E (fts_hashtable_init FTS_HASHTABLE_BIG) (AString s) = None" for s
    using get_abs [OF ht_inv_init, of "AString s" E FTS_HASHTABLE_BIG] by simp
  then show ?thesis by (simp add: sym_inv_def symbol_init_def ht_inv_init)
qed

lemma new_symbol_spec:
  assumes inv: "sym_inv E st" and p: "sy_mem st p = None"
  shows "\<exists>q st'. fts_new_symbol E s p st = Some (q, st') \<and> sym_inv E st' \<and> sy_mem st' q = Some s \<and>
           (\<forall>r t. sy_mem st r = Some t \<longrightarrow> sy_mem st' r = Some t) \<and>
           (if \<exists>r. sy_mem st r = Some s then st' = st else q = p)"
proof (cases "fts_hashtable_get E (sy_table st) (AString s)")
  case (Some v)
  then obtain q where "v = APointer q" "sy_mem st q = Some s" using inv by (auto simp: sym_inv_def)
  then show ?thesis using Some inv by (auto simp: fts_new_symbol_def)
next
  case None
  let ?t = "snd (fts_hashtable_put E (sy_table st) (AString s) (APointer p))"
  let ?st = "st\<lparr>sy_table := ?t, sy_mem := (sy_mem st)(p := Some s)\<rparr>"
  have tab: "ht_inv E (sy_table st)" using inv by (simp add: sym_inv_def)
  have new: "\<nexists>r. sy_mem st r = Some s" using inv None unfolding sym_inv_def by (metis option.distinct(1))
  have upd: "fts_hashtable_get E ?t (AString x) =
      (if s = x then Some (APointer p) else fts_hashtable_get E (sy_table st) (AString x))" for x
    using ht.lookup_update [OF tab, of "AString s" "AString x" "APointer p"] by simp
  have old: "(fts_hashtable_get E (sy_table st) (AString x) = Some v) =
      (\<exists>q. v = APointer q \<and> sy_mem st q = Some x)" for x v
    using inv by (simp add: sym_inv_def)
  have "(fts_hashtable_get E ?t (AString x) = Some v) =
      (\<exists>q. v = APointer q \<and> ((sy_mem st)(p := Some s)) q = Some x)" for x v
  proof (cases "s = x")
    case True
    then show ?thesis using upd [of x] new by auto
  next
    case False
    then show ?thesis using upd [of x] old [of x v] p by (cases v) auto
  qed
  then have "sym_inv E ?st"
    using ht.inv_update [OF tab, of "AString s" "APointer p"] by (simp add: sym_inv_def)
  then show ?thesis using None new p by (auto simp: fts_new_symbol_def)
qed

text \<open>Equality of symbols is equality of names.\<close>

lemma symbol_eq_iff:
  assumes "sym_inv E st" "sy_mem st p = Some s" "sy_mem st q = Some t"
  shows "p = q \<longleftrightarrow> s = t"
proof
  assume "s = t"
  then have "fts_hashtable_get E (sy_table st) (AString s) = Some (APointer p)"
    "fts_hashtable_get E (sy_table st) (AString s) = Some (APointer q)"
    using assms by (auto simp: sym_inv_def)
  then show "p = q" by simp
qed (use assms in auto)

text \<open>A sequence of \<open>fts_new_symbol\<close> calls, as \<open>fts_predefine_symbols\<close> makes.\<close>

primrec new_symbols :: "class_env \<Rightarrow> (string \<times> addr) list \<Rightarrow> symtab \<Rightarrow> (addr list \<times> symtab) option" where
  "new_symbols E [] st = Some ([], st)"
| "new_symbols E (b # bs) st =
     (case fts_new_symbol E (fst b) (snd b) st of
        None \<Rightarrow> None
      | Some (q, st1) \<Rightarrow>
          (case new_symbols E bs st1 of None \<Rightarrow> None | Some (qs, st2) \<Rightarrow> Some (q # qs, st2)))"

lemma new_symbol_mem_None:
  assumes "sym_inv E st" "sy_mem st p = None" "fts_new_symbol E s p st = Some (q, st')"
    "sy_mem st r = None" "r \<noteq> p"
  shows "sy_mem st' r = None"
  using assms
  by (auto simp: fts_new_symbol_def split: option.splits)

lemma new_symbols_spec:
  assumes "sym_inv E st" "distinct (map snd bs)" "\<forall>b \<in> set bs. sy_mem st (snd b) = None"
  shows "\<exists>qs st'. new_symbols E bs st = Some (qs, st') \<and> sym_inv E st' \<and>
           list_all2 (\<lambda>q b. sy_mem st' q = Some (fst b)) qs bs \<and>
           (\<forall>r t. sy_mem st r = Some t \<longrightarrow> sy_mem st' r = Some t)"
  using assms
proof (induction bs arbitrary: st)
  case Nil
  then show ?case by simp
next
  case (Cons b bs)
  have p: "sy_mem st (snd b) = None" using Cons.prems(3) by simp
  obtain q st1 where 1: "fts_new_symbol E (fst b) (snd b) st = Some (q, st1)" "sym_inv E st1"
    "sy_mem st1 q = Some (fst b)" "\<forall>r t. sy_mem st r = Some t \<longrightarrow> sy_mem st1 r = Some t"
    using new_symbol_spec [OF Cons.prems(1) p] by blast
  have "\<forall>b \<in> set bs. sy_mem st1 (snd b) = None"
    using new_symbol_mem_None [OF Cons.prems(1) p 1(1)] Cons.prems(2,3) by (metis imageI list.set_intros(2) set_map distinct.simps(2) list.simps(9))
  then obtain qs st2 where "new_symbols E bs st1 = Some (qs, st2)" "sym_inv E st2"
    "list_all2 (\<lambda>q b. sy_mem st2 q = Some (fst b)) qs bs"
    "\<forall>r t. sy_mem st1 r = Some t \<longrightarrow> sy_mem st2 r = Some t"
    using Cons.IH [OF 1(2)] Cons.prems(2) by auto
  then show ?case using 1 by auto
qed

subsection \<open>Shared values\<close>

definition fts_shared_get :: "class_env \<Rightarrow> hashtable \<Rightarrow> addr \<Rightarrow> addr option" where
  "fts_shared_get E shared name =
     (case fts_hashtable_get E shared (ASymbol name) of Some a \<Rightarrow> fts_get_pointer a | None \<Rightarrow> Some 0)"

definition fts_shared_set :: "class_env \<Rightarrow> hashtable \<Rightarrow> addr \<Rightarrow> addr \<Rightarrow> hashtable" where
  "fts_shared_set E shared name pointer = snd (fts_hashtable_put E shared (ASymbol name) (APointer pointer))"

lemma shared_get_set:
  assumes "ht_inv E shared"
  shows "fts_shared_get E (fts_shared_set E shared n p) n' = (if n = n' then Some p else fts_shared_get E shared n')"
  using ht.lookup_update [OF assms, of "ASymbol n" "ASymbol n'" "APointer p"]
  by (simp add: fts_shared_get_def fts_shared_set_def)

end
