(* ===== verification/ObjectSet.thy ===== *)
theory ObjectSet
  imports Hashtable SymbolTable
begin

text \<open>
  Object sets (\<open>fts/objectset.c\<close>), which a client mirrors through messages, and object lists
  (\<open>fts/objectlist.c\<close>).

  The state of an object set is its hash table, keyed by object pointers with void values, and the
  messages sent to the client so far. The mirror is what a client that obeys the messages holds.
\<close>

datatype set_message = Msg_clear | Msg_append addr | Msg_remove addr

record objectset =
  os_table :: hashtable
  os_sent :: "set_message list"

definition fts_objectset_init :: objectset where
  "fts_objectset_init = \<lparr>os_table = fts_hashtable_init FTS_HASHTABLE_SMALL, os_sent = []\<rparr>"

definition fts_objectset_clear :: "objectset \<Rightarrow> objectset" where
  "fts_objectset_clear s =
     s\<lparr>os_table := fts_hashtable_clear (os_table s), os_sent := os_sent s @ [Msg_clear]\<rparr>"

definition fts_objectset_add :: "class_env \<Rightarrow> objectset \<Rightarrow> addr \<Rightarrow> objectset" where
  "fts_objectset_add E s obj =
     (case fts_hashtable_put E (os_table s) (APointer obj) AVoid of (exists_already, t) \<Rightarrow>
        if \<not> exists_already then s\<lparr>os_table := t, os_sent := os_sent s @ [Msg_append obj]\<rparr>
        else s\<lparr>os_table := t\<rparr>)"

definition fts_objectset_remove :: "class_env \<Rightarrow> objectset \<Rightarrow> addr \<Rightarrow> objectset" where
  "fts_objectset_remove E s obj =
     s\<lparr>os_table := snd (fts_hashtable_remove E (os_table s) (APointer obj)),
       os_sent := os_sent s @ [Msg_remove obj]\<rparr>"

definition fts_objectset_get_objects :: "objectset \<Rightarrow> ht_iterator" where
  "fts_objectset_get_objects s = fts_hashtable_get_keys (os_table s)"

definition members :: "class_env \<Rightarrow> objectset \<Rightarrow> addr set" where
  "members E s = {x. fts_hashtable_get E (os_table s) (APointer x) \<noteq> None}"

text \<open>The client: the members in the order of their arrival.\<close>

fun mirror :: "addr list \<Rightarrow> set_message list \<Rightarrow> addr list" where
  "mirror xs [] = xs"
| "mirror xs (Msg_clear # ms) = mirror [] ms"
| "mirror xs (Msg_append x # ms) = mirror (xs @ [x]) ms"
| "mirror xs (Msg_remove x # ms) = mirror (removeAll x xs) ms"

datatype set_op = Add addr | Remove addr | Clear

fun apply_set_op :: "class_env \<Rightarrow> set_op \<Rightarrow> objectset \<Rightarrow> objectset" where
  "apply_set_op E (Add x) s = fts_objectset_add E s x"
| "apply_set_op E (Remove x) s = fts_objectset_remove E s x"
| "apply_set_op E Clear s = fts_objectset_clear s"

lemma mirror_append: "mirror xs (ms @ ns) = mirror (mirror xs ms) ns"
  by (induction xs ms rule: mirror.induct) auto

definition os_inv :: "class_env \<Rightarrow> objectset \<Rightarrow> bool" where
  "os_inv E s \<longleftrightarrow> ht_inv E (os_table s) \<and>
     distinct (mirror [] (os_sent s)) \<and> set (mirror [] (os_sent s)) = members E s"

lemma get_clear: "ht_inv E h \<Longrightarrow> plain k \<Longrightarrow> fts_hashtable_get E (fts_hashtable_clear h) k = None"
  using get_abs [OF ht_inv_clear, of E h k] by simp

lemma os_inv_init: "os_inv E fts_objectset_init"
proof -
  have "fts_hashtable_get E (fts_hashtable_init FTS_HASHTABLE_SMALL) (APointer x) = None" for x
    using get_abs [OF ht_inv_init, of "APointer x"] by simp
  then show ?thesis by (simp add: os_inv_def fts_objectset_init_def ht_inv_init members_def)
qed

lemma add_fields:
  "os_table (fts_objectset_add E s x) = snd (fts_hashtable_put E (os_table s) (APointer x) AVoid)"
  "os_sent (fts_objectset_add E s x) =
     (if fst (fts_hashtable_put E (os_table s) (APointer x) AVoid) then os_sent s
      else os_sent s @ [Msg_append x])"
  by (simp_all add: fts_objectset_add_def split: prod.split)

lemma members_add:
  assumes "ht_inv E (os_table s)"
  shows "members E (fts_objectset_add E s x) = insert x (members E s)"
  using ht.lookup_update [OF assms, of "APointer x"] by (auto simp: members_def add_fields)

lemma members_remove:
  assumes "ht_inv E (os_table s)"
  shows "members E (fts_objectset_remove E s x) = members E s - {x}"
  using ht.lookup_delete [OF assms, of "APointer x"]
  by (auto simp: members_def fts_objectset_remove_def)

lemma members_clear: "ht_inv E (os_table s) \<Longrightarrow> members E (fts_objectset_clear s) = {}"
  by (simp add: members_def fts_objectset_clear_def get_clear)

lemma os_inv_step:
  assumes "os_inv E s"
  shows "os_inv E (apply_set_op E m s)"
proof -
  have t: "ht_inv E (os_table s)" using assms by (simp add: os_inv_def)
  show ?thesis
  proof (cases m)
    case (Add x)
    have "ht_inv E (os_table (fts_objectset_add E s x))"
      using ht.inv_update [OF t, of "APointer x" AVoid] by (simp add: add_fields)
    moreover have "os_sent (fts_objectset_add E s x) =
        (if x \<in> members E s then os_sent s else os_sent s @ [Msg_append x])"
      using ht.update_found [OF t, of "APointer x" AVoid] by (simp add: add_fields members_def)
    ultimately show ?thesis
      using assms Add by (simp add: os_inv_def mirror_append members_add [OF t]) blast
  next
    case (Remove x)
    have "os_sent (fts_objectset_remove E s x) = os_sent s @ [Msg_remove x]"
      "ht_inv E (os_table (fts_objectset_remove E s x))"
      using ht.inv_delete [OF t, of "APointer x"] by (simp_all add: fts_objectset_remove_def)
    then show ?thesis
      using assms Remove
      by (simp add: os_inv_def members_remove [OF t] mirror_append distinct_removeAll set_removeAll)
  next
    case Clear
    have "os_sent (fts_objectset_clear s) = os_sent s @ [Msg_clear]"
      "ht_inv E (os_table (fts_objectset_clear s))"
      using ht_inv_clear [OF t] by (simp_all add: fts_objectset_clear_def)
    then show ?thesis
      using Clear by (simp add: os_inv_def members_clear [OF t] mirror_append)
  qed
qed

lemma os_inv_run: "os_inv E s \<Longrightarrow> os_inv E (fold (apply_set_op E) ms s)"
  by (induction ms arbitrary: s) (auto simp: os_inv_step)

subsection \<open>Object lists\<close>

definition fts_objectlist_insert :: "addr list \<Rightarrow> addr \<Rightarrow> addr list" where
  "fts_objectlist_insert l obj = obj # l"

fun fts_objectlist_remove :: "addr list \<Rightarrow> addr \<Rightarrow> addr list" where
  "fts_objectlist_remove [] obj = []"
| "fts_objectlist_remove (c # cs) obj = (if c = obj then cs else c # fts_objectlist_remove cs obj)"

lemma objectlist_remove: "fts_objectlist_remove l x = remove1 x l"
  by (induction l) auto

end
