(* ===== verification/Protocol.thy ===== *)
theory Protocol
  imports Stack SymbolTable
begin

text \<open>
  The binary client protocol (\<open>fts/binaryprotocol.c\<close>; the decoder and the encoder of
  \<open>fts/client.c\<close> are the same code but for two actions, see the theory of clients).

  The decoder is a state machine over bytes: it shifts the bytes of a value into a buffer, and
  the last byte of a value converts the buffer into an atom that is pushed on the arguments. The
  encoder pushes bytes on the output buffer. Symbols travel as an index into a cache kept by both
  sides, with the name sent when the cache cell changes. The host is little-endian (the code under
  \<open>WORDS_BIGENDIAN\<close> is not modelled). A read or a write outside of a cache or a buffer is
  \<^const>\<open>None\<close>.

  The symbol table of the process is threaded beside the decoder. The addresses that
  \<open>fts_malloc\<close> hands out for new symbol names are a parameter \<open>M\<close>, consulted once for each call
  of \<open>fts_new_symbol\<close>. The tokenizer of raw strings is generated by flex from
  \<open>fts/tokenizer.l\<close>; it is the parameter \<open>T\<close>.
\<close>

subsection \<open>State\<close>

record proto =
  pr_state :: nat
  input_args :: "atom stack"
  input_buffer :: "byte stack"
  input_cache :: "addr list"
  output_buffer :: "byte stack"
  output_cache :: "addr list"

record process =
  pc_symtab :: symtab
  pc_mallocs :: nat

type_synonym 'a decoder = "'a proto_scheme \<times> process"
type_synonym tokenizer = "byte list \<Rightarrow> process \<Rightarrow> atom list \<times> process"

definition SYMBOL_CACHE_SIZE :: nat where "SYMBOL_CACHE_SIZE = 1031"

definition FTS_PROTOCOL_INT :: byte where "FTS_PROTOCOL_INT = 0x01"
definition FTS_PROTOCOL_FLOAT :: byte where "FTS_PROTOCOL_FLOAT = 0x02"
definition FTS_PROTOCOL_SYMBOL_INDEX :: byte where "FTS_PROTOCOL_SYMBOL_INDEX = 0x03"
definition FTS_PROTOCOL_SYMBOL_CACHE :: byte where "FTS_PROTOCOL_SYMBOL_CACHE = 0x04"
definition FTS_PROTOCOL_STRING :: byte where "FTS_PROTOCOL_STRING = 0x05"
definition FTS_PROTOCOL_OBJECT :: byte where "FTS_PROTOCOL_OBJECT = 0x06"
definition FTS_PROTOCOL_RAW_STRING :: byte where "FTS_PROTOCOL_RAW_STRING = 0x07"
definition FTS_PROTOCOL_END_OF_MESSAGE :: byte where "FTS_PROTOCOL_END_OF_MESSAGE = 0x0F"

lemmas protocol_tags = FTS_PROTOCOL_INT_def FTS_PROTOCOL_FLOAT_def FTS_PROTOCOL_SYMBOL_INDEX_def
  FTS_PROTOCOL_SYMBOL_CACHE_def FTS_PROTOCOL_STRING_def FTS_PROTOCOL_OBJECT_def
  FTS_PROTOCOL_RAW_STRING_def FTS_PROTOCOL_END_OF_MESSAGE_def

definition symbol_cache_init :: "addr list" where
  "symbol_cache_init = replicate SYMBOL_CACHE_SIZE 0"

definition symbol_cache_put :: "addr list \<Rightarrow> addr \<Rightarrow> int \<Rightarrow> addr list option" where
  "symbol_cache_put symbols s index =
     (let symbols' = (if index \<ge> int (length symbols)
                      then symbols @ replicate (nat (index + 1) - length symbols) 0 else symbols)
      in if index < 0 \<or> index \<ge> 2 ^ 31 - 1 then None else Some (symbols'[nat index := s]))"

definition binary_protocol_init :: proto where
  "binary_protocol_init =
     \<lparr>pr_state = 1, input_args = fts_stack_init, input_buffer = fts_stack_init,
      input_cache = symbol_cache_init, output_buffer = fts_stack_init,
      output_cache = symbol_cache_init\<rparr>"

subsection \<open>Reading values from the input buffer\<close>

definition swap_bytes :: "'b list \<Rightarrow> nat \<Rightarrow> 'b list" where
  "swap_bytes p n = fold (\<lambda>i p. let tmp = p ! i in (p[i := p ! (n - i - 1)])[n - i - 1 := tmp]) [0..<n div 2] p"

text \<open>An aligned load of a little-endian host.\<close>

definition load_le :: "byte list \<Rightarrow> 'w::len word" where
  "load_le bs = foldr (\<lambda>b w. ucast b OR push_bit 8 w) bs 0"

definition store_le :: "nat \<Rightarrow> 'w::len word \<Rightarrow> byte list" where
  "store_le n v = map (\<lambda>i. ucast (drop_bit (8 * i) v)) [0..<n]"

text \<open>The value of the first bytes of the buffer, which is left with these bytes swapped.\<close>

definition get_from_bytes :: "nat \<Rightarrow> byte stack \<Rightarrow> ('w::len word \<times> byte stack) option" where
  "get_from_bytes n s =
     (let b = swap_bytes (st_buffer s) n
      in if n \<le> st_alloc s \<and> (\<forall>x \<in> set (take n b). x \<noteq> None)
         then Some (load_le (map the (take n b)), s\<lparr>st_buffer := b\<rparr>) else None)"

definition get_int_from_bytes :: "byte stack \<Rightarrow> (int32 \<times> byte stack) option" where
  "get_int_from_bytes s = get_from_bytes 4 s"

definition get_double_from_bytes :: "byte stack \<Rightarrow> (double \<times> byte stack) option" where
  "get_double_from_bytes s = map_option (map_prod Double id) (get_from_bytes 8 s)"

text \<open>The C string at an address of the buffer: up to the first zero byte.\<close>

fun c_str_at :: "byte option list \<Rightarrow> string option" where
  "c_str_at [] = None"
| "c_str_at (None # bs) = None"
| "c_str_at (Some b # bs) = (if b = 0 then Some [] else map_option ((#) (char_of_byte b)) (c_str_at bs))"

subsection \<open>Decoder actions\<close>

definition push_buffer :: "byte \<Rightarrow> 'a decoder \<Rightarrow> 'a decoder option" where
  "push_buffer input = (\<lambda>(p, g).
     map_option (\<lambda>b. (p\<lparr>input_buffer := b\<rparr>, g)) (fts_stack_push input (input_buffer p)))"

definition push_arg :: "atom \<Rightarrow> 'a decoder \<Rightarrow> 'a decoder option" where
  "push_arg a = (\<lambda>(p, g). map_option (\<lambda>b. (p\<lparr>input_args := b\<rparr>, g)) (fts_stack_push a (input_args p)))"

definition take_int :: "'a decoder \<Rightarrow> (int32 \<times> 'a decoder) option" where
  "take_int = (\<lambda>(p, g).
     map_option (\<lambda>(i, b). (i, p\<lparr>input_buffer := b\<rparr>, g)) (get_int_from_bytes (input_buffer p)))"

definition new_symbol :: "class_env \<Rightarrow> (nat \<Rightarrow> addr) \<Rightarrow> string \<Rightarrow> process \<Rightarrow> (addr \<times> process) option" where
  "new_symbol E M s g =
     map_option (\<lambda>(q, st). (q, \<lparr>pc_symtab = st, pc_mallocs = Suc (pc_mallocs g)\<rparr>))
       (fts_new_symbol E s (M (pc_mallocs g)) (pc_symtab g))"

definition clear_action :: "byte \<Rightarrow> 'a decoder \<Rightarrow> 'a decoder option" where
  "clear_action input = (\<lambda>(p, g). Some (p\<lparr>input_buffer := fts_stack_clear (input_buffer p)\<rparr>, g))"

definition shift_action :: "byte \<Rightarrow> 'a decoder \<Rightarrow> 'a decoder option" where
  "shift_action input d = push_buffer input d"

definition end_int_action :: "byte \<Rightarrow> 'a decoder \<Rightarrow> 'a decoder option" where
  "end_int_action input d =
     do { d1 \<leftarrow> push_buffer input d; (i, d2) \<leftarrow> take_int d1; push_arg (AInt i) d2 }"

definition end_float_action :: "byte \<Rightarrow> 'a decoder \<Rightarrow> 'a decoder option" where
  "end_float_action input d =
     do { (p, g) \<leftarrow> push_buffer input d;
          (x, b) \<leftarrow> get_double_from_bytes (input_buffer p);
          push_arg (AFloat x) (p\<lparr>input_buffer := b\<rparr>, g) }"

definition end_symbol_index_action :: "byte \<Rightarrow> 'a decoder \<Rightarrow> 'a decoder option" where
  "end_symbol_index_action input d =
     do { d1 \<leftarrow> push_buffer input d;
          (i, p, g) \<leftarrow> take_int d1;
          let index = sint i;
          if 0 \<le> index \<and> index < int (length (input_cache p))
          then push_arg (ASymbol (input_cache p ! nat index)) (p, g) else None }"

definition end_symbol_cache_action ::
  "class_env \<Rightarrow> (nat \<Rightarrow> addr) \<Rightarrow> byte \<Rightarrow> 'a decoder \<Rightarrow> 'a decoder option" where
  "end_symbol_cache_action E M input d =
     do { (index, d1) \<leftarrow> take_int d;
          (p, g) \<leftarrow> push_buffer 0 d1;
          name \<leftarrow> c_str_at (drop 4 (st_buffer (input_buffer p)));
          (s, g1) \<leftarrow> new_symbol E M name g;
          cache \<leftarrow> symbol_cache_put (input_cache p) s (sint index);
          push_arg (ASymbol s) (p\<lparr>input_cache := cache\<rparr>, g1) }"

definition end_string_action :: "byte \<Rightarrow> 'a decoder \<Rightarrow> 'a decoder option" where
  "end_string_action input d =
     do { (p, g) \<leftarrow> push_buffer 0 d;
          x \<leftarrow> c_str_at (st_buffer (input_buffer p));
          push_arg (AString x) (p, g) }"

primrec push_args :: "atom list \<Rightarrow> 'a decoder \<Rightarrow> 'a decoder option" where
  "push_args [] d = Some d"
| "push_args (a # as) d = do { d1 \<leftarrow> push_arg a d; push_args as d1 }"

definition end_raw_string_action :: "tokenizer \<Rightarrow> byte \<Rightarrow> 'a decoder \<Rightarrow> 'a decoder option" where
  "end_raw_string_action T input d =
     do { d1 \<leftarrow> push_buffer 0 d;
          (p, g) \<leftarrow> push_buffer 0 d1;
          let (as, g1) = T (elems (input_buffer p)) g;
          push_args as (p, g1) }"

subsection \<open>The state machine\<close>

definition q_initial :: nat where "q_initial = 1"
definition q_int0 :: nat where "q_int0 = 10"
definition q_float0 :: nat where "q_float0 = 20"
definition q_string :: nat where "q_string = 30"
definition q_object0 :: nat where "q_object0 = 40"
definition q_symbol_index0 :: nat where "q_symbol_index0 = 50"
definition q_symbol_cache0 :: nat where "q_symbol_cache0 = 60"
definition q_raw_string :: nat where "q_raw_string = 70"

lemmas protocol_states = q_initial_def q_int0_def q_float0_def q_string_def q_object0_def
  q_symbol_index0_def q_symbol_cache0_def q_raw_string_def

definition moveto :: "nat \<Rightarrow> ('a decoder \<Rightarrow> 'a decoder option) \<Rightarrow> 'a decoder \<Rightarrow> 'a decoder option" where
  "moveto q action = (\<lambda>(p, g). action (p\<lparr>pr_state := q\<rparr>, g))"

text \<open>
  \<open>state_next\<close>, with the actions that end an object and a message as parameters. The states of a
  value of fixed size are consecutive numbers: \<open>q_int1 = q_int0 + 1\<close> and so on. A state that the
  switch does not list leaves everything unchanged.
\<close>

definition state_next :: "class_env \<Rightarrow> (nat \<Rightarrow> addr) \<Rightarrow> tokenizer \<Rightarrow>
  (byte \<Rightarrow> 'a decoder \<Rightarrow> 'a decoder option) \<Rightarrow> (byte \<Rightarrow> 'a decoder \<Rightarrow> 'a decoder option) \<Rightarrow>
  byte \<Rightarrow> 'a decoder \<Rightarrow> 'a decoder option" where
  "state_next E M T end_object_action end_message_action input d =
     (let q = pr_state (fst d) in
      if q = 0 then
        Some (if input = FTS_PROTOCOL_END_OF_MESSAGE then ((fst d)\<lparr>pr_state := q_initial\<rparr>, snd d) else d)
      else if q = q_initial then
        (if input = FTS_PROTOCOL_INT then moveto q_int0 (clear_action input) d
         else if input = FTS_PROTOCOL_FLOAT then moveto q_float0 (clear_action input) d
         else if input = FTS_PROTOCOL_SYMBOL_INDEX then moveto q_symbol_index0 (clear_action input) d
         else if input = FTS_PROTOCOL_SYMBOL_CACHE then moveto q_symbol_cache0 (clear_action input) d
         else if input = FTS_PROTOCOL_STRING then moveto q_string (clear_action input) d
         else if input = FTS_PROTOCOL_RAW_STRING then moveto q_raw_string (clear_action input) d
         else if input = FTS_PROTOCOL_OBJECT then moveto q_object0 (clear_action input) d
         else if input = FTS_PROTOCOL_END_OF_MESSAGE then moveto q_initial (end_message_action input) d
         else Some ((fst d)\<lparr>pr_state := 0\<rparr>, snd d))
      else if q_int0 \<le> q \<and> q < q_int0 + 3 then moveto (q + 1) (shift_action input) d
      else if q = q_int0 + 3 then moveto q_initial (end_int_action input) d
      else if q_float0 \<le> q \<and> q < q_float0 + 7 then moveto (q + 1) (shift_action input) d
      else if q = q_float0 + 7 then moveto q_initial (end_float_action input) d
      else if q_symbol_index0 \<le> q \<and> q < q_symbol_index0 + 3 then moveto (q + 1) (shift_action input) d
      else if q = q_symbol_index0 + 3 then moveto q_initial (end_symbol_index_action input) d
      else if q_symbol_cache0 \<le> q \<and> q < q_symbol_cache0 + 4 then moveto (q + 1) (shift_action input) d
      else if q = q_symbol_cache0 + 4 then
        (if input = 0 then moveto q_initial (end_symbol_cache_action E M input) d
         else moveto (q_symbol_cache0 + 4) (shift_action input) d)
      else if q = q_string then
        (if input = 0 then moveto q_initial (end_string_action input) d
         else moveto q_string (shift_action input) d)
      else if q = q_raw_string then
        (if input = 0 then moveto q_initial (end_raw_string_action T input) d
         else moveto q_raw_string (shift_action input) d)
      else if q_object0 \<le> q \<and> q < q_object0 + 3 then moveto (q + 1) (shift_action input) d
      else if q = q_object0 + 3 then moveto q_initial (end_object_action input) d
      else Some d)"

text \<open>The binary protocol object: the actions that end an object and a message do nothing.\<close>

definition bp_end_object_action :: "byte \<Rightarrow> 'a decoder \<Rightarrow> 'a decoder option" where
  "bp_end_object_action input d = Some d"

definition bp_end_message_action :: "byte \<Rightarrow> 'a decoder \<Rightarrow> 'a decoder option" where
  "bp_end_message_action input d = Some d"

definition bp_state_next :: "class_env \<Rightarrow> (nat \<Rightarrow> addr) \<Rightarrow> tokenizer \<Rightarrow>
  byte \<Rightarrow> proto \<times> process \<Rightarrow> (proto \<times> process) option" where
  "bp_state_next E M T = state_next E M T bp_end_object_action bp_end_message_action"

text \<open>The loop of \<open>fts_binary_protocol_decode\<close>; \<open>size\<close> is the length of the whole input.\<close>

fun decode_loop :: "class_env \<Rightarrow> (nat \<Rightarrow> addr) \<Rightarrow> tokenizer \<Rightarrow> int \<Rightarrow> byte list \<Rightarrow>
  proto \<times> process \<Rightarrow> (int \<times> proto \<times> process) option" where
  "decode_loop E M T sz [] d = Some (sz, d)"
| "decode_loop E M T sz (b # bs) d =
     do { d1 \<leftarrow> bp_state_next E M T b d;
          if pr_state (fst d1) = 0 then Some (- 1, d1) else decode_loop E M T sz bs d1 }"

definition fts_binary_protocol_decode :: "class_env \<Rightarrow> (nat \<Rightarrow> addr) \<Rightarrow> tokenizer \<Rightarrow> byte list \<Rightarrow>
  proto \<times> process \<Rightarrow> (int \<times> proto \<times> process) option" where
  "fts_binary_protocol_decode E M T buffer d = decode_loop E M T (int (length buffer)) buffer d"

subsection \<open>Encoder\<close>

text \<open>
  \<open>mem\<close> is the memory of the symbol names, \<open>oid\<close> the function \<open>fts_object_get_id\<close>. The bytes of
  \<open>put_int\<close> are the same for the arithmetic and the logical shift of a signed argument.
\<close>

definition put_byte :: "byte \<Rightarrow> 'a proto_scheme \<Rightarrow> 'a proto_scheme option" where
  "put_byte b p = map_option (\<lambda>s. p\<lparr>output_buffer := s\<rparr>) (fts_stack_push b (output_buffer p))"

primrec put_bytes :: "byte list \<Rightarrow> 'a proto_scheme \<Rightarrow> 'a proto_scheme option" where
  "put_bytes [] p = Some p"
| "put_bytes (b # bs) p = do { p1 \<leftarrow> put_byte b p; put_bytes bs p1 }"

definition int_bytes :: "int32 \<Rightarrow> byte list" where
  "int_bytes v = [ucast (drop_bit 24 v AND 0xff), ucast (drop_bit 16 v AND 0xff),
                  ucast (drop_bit 8 v AND 0xff), ucast (drop_bit 0 v AND 0xff)]"

definition put_int :: "int32 \<Rightarrow> 'a proto_scheme \<Rightarrow> 'a proto_scheme option" where
  "put_int v = put_bytes (int_bytes v)"

definition fts_binary_protocol_add_int :: "int32 \<Rightarrow> 'a proto_scheme \<Rightarrow> 'a proto_scheme option" where
  "fts_binary_protocol_add_int v p = do { p1 \<leftarrow> put_byte FTS_PROTOCOL_INT p; put_int v p1 }"

definition fts_binary_protocol_add_float :: "double \<Rightarrow> 'a proto_scheme \<Rightarrow> 'a proto_scheme option" where
  "fts_binary_protocol_add_float v p =
     do { p1 \<leftarrow> put_byte FTS_PROTOCOL_FLOAT p; put_bytes (swap_bytes (store_le 8 (dbits v)) 8) p1 }"

definition fts_binary_protocol_add_symbol ::
  "(addr \<Rightarrow> string option) \<Rightarrow> addr \<Rightarrow> 'a proto_scheme \<Rightarrow> 'a proto_scheme option" where
  "fts_binary_protocol_add_symbol mem s p =
     (let index = (s mod 2 ^ 32) mod length (output_cache p)
      in if output_cache p ! index = s
         then do { p1 \<leftarrow> put_byte FTS_PROTOCOL_SYMBOL_INDEX p; put_int (of_nat index) p1 }
         else do { let p0 = p\<lparr>output_cache := (output_cache p)[index := s]\<rparr>;
                   p1 \<leftarrow> put_byte FTS_PROTOCOL_SYMBOL_CACHE p0;
                   p2 \<leftarrow> put_int (of_nat index) p1;
                   name \<leftarrow> mem s;
                   p3 \<leftarrow> put_bytes (map byte_of_char name) p2;
                   put_byte 0 p3 })"

definition fts_binary_protocol_add_string :: "string \<Rightarrow> 'a proto_scheme \<Rightarrow> 'a proto_scheme option" where
  "fts_binary_protocol_add_string s p =
     do { p1 \<leftarrow> put_byte FTS_PROTOCOL_STRING p;
          p2 \<leftarrow> put_bytes (map byte_of_char s) p1;
          put_byte 0 p2 }"

definition fts_binary_protocol_add_object ::
  "(addr \<Rightarrow> int32) \<Rightarrow> addr \<Rightarrow> 'a proto_scheme \<Rightarrow> 'a proto_scheme option" where
  "fts_binary_protocol_add_object oid obj p =
     do { p1 \<leftarrow> put_byte FTS_PROTOCOL_OBJECT p; put_int (oid obj) p1 }"

fun fts_binary_protocol_add_atoms :: "(addr \<Rightarrow> string option) \<Rightarrow> (addr \<Rightarrow> int32) \<Rightarrow> atom list \<Rightarrow>
  'a proto_scheme \<Rightarrow> 'a proto_scheme option" where
  "fts_binary_protocol_add_atoms mem oid [] p = Some p"
| "fts_binary_protocol_add_atoms mem oid (a # at) p =
     do { p1 \<leftarrow> (case a of
                   AInt v \<Rightarrow> fts_binary_protocol_add_int v p
                 | AFloat v \<Rightarrow> fts_binary_protocol_add_float v p
                 | ASymbol s \<Rightarrow> fts_binary_protocol_add_symbol mem s p
                 | AString s \<Rightarrow> fts_binary_protocol_add_string s p
                 | AObject obj \<Rightarrow> fts_binary_protocol_add_object oid obj p
                 | _ \<Rightarrow> Some p);
          fts_binary_protocol_add_atoms mem oid at p1 }"

definition fts_binary_protocol_start_message :: "(addr \<Rightarrow> string option) \<Rightarrow> (addr \<Rightarrow> int32) \<Rightarrow>
  addr \<Rightarrow> addr \<Rightarrow> 'a proto_scheme \<Rightarrow> 'a proto_scheme option" where
  "fts_binary_protocol_start_message mem oid obj selector p =
     do { p1 \<leftarrow> fts_binary_protocol_add_object oid obj p;
          fts_binary_protocol_add_symbol mem selector p1 }"

definition fts_binary_protocol_end_message :: "'a proto_scheme \<Rightarrow> 'a proto_scheme option" where
  "fts_binary_protocol_end_message p = put_byte FTS_PROTOCOL_END_OF_MESSAGE p"

subsection \<open>Bytes and words\<close>

lemma nth_swap_fold:
  assumes "k \<le> n div 2" "n \<le> length p" "j < length p"
  shows "fold (\<lambda>i p. let tmp = p ! i in (p[i := p ! (n - i - 1)])[n - i - 1 := tmp]) [0..<k] p ! j =
     (if j < k \<or> (n - k \<le> j \<and> j < n) then p ! (n - 1 - j) else p ! j) \<and>
   length (fold (\<lambda>i p. let tmp = p ! i in (p[i := p ! (n - i - 1)])[n - i - 1 := tmp]) [0..<k] p) = length p"
  using assms
proof (induction k arbitrary: j)
  case 0
  then show ?case by auto
next
  case (Suc k)
  let ?q = "fold (\<lambda>i p. let tmp = p ! i in (p[i := p ! (n - i - 1)])[n - i - 1 := tmp]) [0..<k] p"
  have k: "k \<le> n div 2" "k < n" "n - k - 1 < n" "k \<noteq> n - k - 1" "\<not> n - k \<le> k" "\<not> n - k - 1 < k"
    using Suc.prems(1) by auto
  have len: "length ?q = length p" using Suc.IH [OF k(1) Suc.prems(2,3)] by simp
  have nth: "?q ! i = (if i < k \<or> (n - k \<le> i \<and> i < n) then p ! (n - 1 - i) else p ! i)" if "i < length p" for i
    using Suc.IH [OF k(1) Suc.prems(2) that] by simp
  have at: "?q ! k = p ! k" "?q ! (n - k - 1) = p ! (n - k - 1)"
    using nth [of k] nth [of "n - k - 1"] k Suc.prems(2) by simp_all
  have "fold (\<lambda>i p. let tmp = p ! i in (p[i := p ! (n - i - 1)])[n - i - 1 := tmp]) [0..<Suc k] p =
      (?q[k := p ! (n - k - 1)])[n - k - 1 := p ! k]"
    using at by (simp add: Let_def)
  moreover have "((?q[k := p ! (n - k - 1)])[n - k - 1 := p ! k]) ! j =
      (if j < Suc k \<or> (n - Suc k \<le> j \<and> j < n) then p ! (n - 1 - j) else p ! j)"
  proof (cases "j = k \<or> j = n - k - 1")
    case True
    have "n - 1 - (n - k - 1) = k" "n - 1 - k = n - k - 1" "k < length p" "n - k - 1 < length p"
      using k(2) Suc.prems(2) by auto
    then show ?thesis using True len k by auto
  next
    case False
    then have "(j < Suc k \<or> (n - Suc k \<le> j \<and> j < n)) = (j < k \<or> (n - k \<le> j \<and> j < n))"
      using k by auto
    then show ?thesis using False nth [OF Suc.prems(3)] by simp
  qed
  ultimately show ?case using len by simp
qed

lemma swap_bytes_rev: "swap_bytes (xs @ r) (length xs) = rev xs @ r"
proof (rule nth_equalityI)
  let ?n = "length xs"
  have *: "swap_bytes (xs @ r) ?n ! j =
     (if j < ?n div 2 \<or> (?n - ?n div 2 \<le> j \<and> j < ?n) then (xs @ r) ! (?n - 1 - j) else (xs @ r) ! j) \<and>
     length (swap_bytes (xs @ r) ?n) = length (xs @ r)" if "j < length (xs @ r)" for j
    using nth_swap_fold [of "?n div 2" ?n "xs @ r" j] that by (simp add: swap_bytes_def)
  show "length (swap_bytes (xs @ r) ?n) = length (rev xs @ r)"
  proof (cases "xs @ r = []")
    case True
    then show ?thesis by (simp add: swap_bytes_def)
  next
    case False
    then show ?thesis using * [of 0] by simp
  qed
  fix j assume "j < length (swap_bytes (xs @ r) ?n)"
  then have j: "j < length (xs @ r)" using \<open>length (swap_bytes (xs @ r) ?n) = length (rev xs @ r)\<close> by simp
  show "swap_bytes (xs @ r) ?n ! j = (rev xs @ r) ! j"
  proof (cases "j < ?n")
    case True
    show ?thesis
    proof (cases "j < ?n div 2 \<or> ?n - ?n div 2 \<le> j")
      case True
      have "?n - 1 - j < ?n" using \<open>j < ?n\<close> by linarith
      then have "(xs @ r) ! (?n - 1 - j) = xs ! (?n - 1 - j)" by (simp only: nth_append if_True)
      then show ?thesis using * [OF j] True \<open>j < ?n\<close> by (simp add: nth_append rev_nth)
    next
      case False
      then have "?n - 1 - j = j" by linarith
      then show ?thesis using * [OF j] False \<open>j < ?n\<close> by (simp add: nth_append rev_nth)
    qed
  next
    case False
    then have "\<not> (j < ?n div 2)" by linarith
    then show ?thesis using * [OF j] False by (simp add: nth_append)
  qed
qed

lemma bit_load_le:
  "bit (load_le bs :: 'w::len word) i \<longleftrightarrow>
     i < LENGTH('w) \<and> i div 8 < length bs \<and> bit (bs ! (i div 8)) (i mod 8)"
proof (induction bs arbitrary: i)
  case Nil
  then show ?case by (simp add: load_le_def)
next
  case (Cons b bs)
  have "load_le (b # bs) = (ucast b OR push_bit 8 (load_le bs) :: 'w word)"
    by (simp add: load_le_def)
  then have *: "bit (load_le (b # bs) :: 'w word) i \<longleftrightarrow>
      i < LENGTH('w) \<and> (bit b i \<or> 8 \<le> i \<and> bit (load_le bs :: 'w word) (i - 8))"
    by (simp add: bit_simps) blast
  show ?case
  proof (cases "i < 8")
    case True
    then show ?thesis unfolding * by simp
  next
    case False
    then have "\<not> bit b i" using bit_imp_le_length [of b i] by auto
    moreover have "i div 8 = Suc ((i - 8) div 8)" "i mod 8 = (i - 8) mod 8"
      using False by (simp_all add: le_div_geq le_mod_geq)
    ultimately show ?thesis unfolding * Cons.IH using False by auto
  qed
qed

lemma load_store_le:
  fixes v :: "'w::len word"
  assumes "LENGTH('w) \<le> 8 * n"
  shows "load_le (store_le n v) = v"
proof (rule bit_word_eqI)
  fix i assume i: "i < LENGTH('w)"
  then have "i div 8 < n" using assms by (simp add: less_mult_imp_div_less mult.commute)
  then have "bit (store_le n v ! (i div 8)) (i mod 8) = bit v i"
    using i by (simp add: store_le_def bit_simps)
  then show "bit (load_le (store_le n v) :: 'w word) i = bit v i"
    using i \<open>i div 8 < n\<close> by (simp add: bit_load_le) (simp add: store_le_def)
qed

lemma int_bytes_store: "int_bytes v = rev (store_le 4 v)"
proof -
  have "(ucast (x AND 0xff) :: byte) = ucast x" for x :: int32
  proof (rule bit_word_eqI)
    fix i assume "i < LENGTH(8)"
    then have "bit (255 :: int32) i"
      by (simp add: bit_numeral_word_iff) (auto simp: less_Suc_eq numeral_eq_Suc)
    then show "bit (ucast (x AND 0xff) :: byte) i = bit (ucast x :: byte) i" by (simp add: bit_simps)
  qed
  then show ?thesis by (simp add: int_bytes_def store_le_def upt_rec numeral_eq_Suc)
qed

lemma length_int_bytes [simp]: "length (int_bytes v) = 4"
  by (simp add: int_bytes_def)

lemma load_int_bytes [simp]: "load_le (rev (int_bytes v)) = v"
  by (simp add: int_bytes_store load_store_le)

lemma length_store_le [simp]: "length (store_le n v) = n"
  by (simp add: store_le_def)

lemma float_bytes: "swap_bytes (store_le 8 v) 8 = rev (store_le 8 v)"
  using swap_bytes_rev [of "store_le 8 v" "[]"] by simp

lemma get_from_bytes_spec:
  fixes ty :: "'w::len itself"
  assumes "stack_is s (xs @ ys)" "length xs = n"
  shows "\<exists>s'. get_from_bytes n s = Some (load_le (rev xs) :: 'w word, s') \<and> stack_is s' (rev xs @ ys)"
proof -
  obtain r where r: "st_buffer s = map Some xs @ map Some ys @ r" and z: "0 < st_alloc s" "st_size s = length xs + length ys"
    using assms(1) by (auto simp: stack_is_alt)
  have "swap_bytes (st_buffer s) n = rev (map Some xs) @ map Some ys @ r"
    using swap_bytes_rev [of "map Some xs" "map Some ys @ r"] assms(2) by (simp add: r)
  then show ?thesis
    using assms(2) r z
    by (intro exI [of _ "s\<lparr>st_buffer := rev (map Some xs) @ map Some ys @ r\<rparr>"])
      (auto simp: get_from_bytes_def stack_is_alt rev_map comp_def)
qed

lemma c_str_at_spec:
  "0 \<notin> set bs \<Longrightarrow> c_str_at (map Some bs @ Some 0 # r) = Some (map char_of_byte bs)"
  by (induction bs) auto

subsection \<open>Encoder: the bytes that are pushed\<close>

text \<open>The bytes of one atom and the cache after it, as functions.\<close>

fun atom_bytes :: "(addr \<Rightarrow> string option) \<Rightarrow> (addr \<Rightarrow> int32) \<Rightarrow> addr list \<Rightarrow> atom \<Rightarrow> byte list" where
  "atom_bytes mem oid oc (AInt v) = FTS_PROTOCOL_INT # int_bytes v"
| "atom_bytes mem oid oc (AFloat v) = FTS_PROTOCOL_FLOAT # rev (store_le 8 (dbits v))"
| "atom_bytes mem oid oc (ASymbol s) =
     (let i = (s mod 2 ^ 32) mod length oc
      in if oc ! i = s then FTS_PROTOCOL_SYMBOL_INDEX # int_bytes (of_nat i)
         else FTS_PROTOCOL_SYMBOL_CACHE # int_bytes (of_nat i) @ map byte_of_char (the (mem s)) @ [0])"
| "atom_bytes mem oid oc (AString s) = FTS_PROTOCOL_STRING # map byte_of_char s @ [0]"
| "atom_bytes mem oid oc (AObject x) = FTS_PROTOCOL_OBJECT # int_bytes (oid x)"
| "atom_bytes mem oid oc _ = []"

fun cache_after :: "addr list \<Rightarrow> atom \<Rightarrow> addr list" where
  "cache_after oc (ASymbol s) = oc[(s mod 2 ^ 32) mod length oc := s]"
| "cache_after oc _ = oc"

fun atoms_bytes :: "(addr \<Rightarrow> string option) \<Rightarrow> (addr \<Rightarrow> int32) \<Rightarrow> addr list \<Rightarrow> atom list \<Rightarrow> byte list" where
  "atoms_bytes mem oid oc [] = []"
| "atoms_bytes mem oid oc (a # as) = atom_bytes mem oid oc a @ atoms_bytes mem oid (cache_after oc a) as"

text \<open>What can be sent: symbols that are interned, strings without a zero byte.\<close>

fun sendable :: "(addr \<Rightarrow> string option) \<Rightarrow> atom \<Rightarrow> bool" where
  "sendable mem (ASymbol s) = (s \<noteq> 0 \<and> (case mem s of None \<Rightarrow> False | Some t \<Rightarrow> c_string t))"
| "sendable mem (AString s) = c_string s"
| "sendable mem _ = True"

lemma put_bytes_spec:
  assumes "stack_is (output_buffer p) bs"
  shows "\<exists>s. put_bytes xs p = Some (p\<lparr>output_buffer := s\<rparr>) \<and> stack_is s (bs @ xs)"
  using assms
proof (induction xs arbitrary: p bs)
  case Nil
  then show ?case by (intro exI [of _ "output_buffer p"]) simp
next
  case (Cons x xs)
  obtain s where s: "fts_stack_push x (output_buffer p) = Some s" "stack_is s (bs @ [x])"
    using stack_is_push [OF Cons.prems] by blast
  then show ?case
    using Cons.IH [of "p\<lparr>output_buffer := s\<rparr>" "bs @ [x]"] by (auto simp: put_byte_def)
qed

lemma put_bytes_append: "put_bytes (xs @ ys) = (\<lambda>p. Option.bind (put_bytes xs p) (put_bytes ys))"
proof
  show "put_bytes (xs @ ys) p = Option.bind (put_bytes xs p) (put_bytes ys)" for p
    by (induction xs arbitrary: p) (simp_all add: Option.bind_assoc)
qed

lemma put_bytes_snoc: "put_bytes [x] = put_byte x"
  by (rule ext) (simp add: Option.bind_runit)

text \<open>Every encoder is one \<open>put_bytes\<close>, after the cache has been updated.\<close>

lemma add_atom_bytes:
  assumes "sendable mem a" "0 < length (output_cache p)"
  shows "(case a of
            AInt v \<Rightarrow> fts_binary_protocol_add_int v p
          | AFloat v \<Rightarrow> fts_binary_protocol_add_float v p
          | ASymbol s \<Rightarrow> fts_binary_protocol_add_symbol mem s p
          | AString s \<Rightarrow> fts_binary_protocol_add_string s p
          | AObject obj \<Rightarrow> fts_binary_protocol_add_object oid obj p
          | _ \<Rightarrow> Some p) =
       put_bytes (atom_bytes mem oid (output_cache p) a) (p\<lparr>output_cache := cache_after (output_cache p) a\<rparr>)"
proof (cases a)
  case (ASymbol s)
  let ?i = "(s mod 2 ^ 32) mod length (output_cache p)"
  obtain t where "mem s = Some t" using assms(1) ASymbol by (auto split: option.splits)
  moreover have "output_cache p ! ?i = s \<Longrightarrow> (output_cache p)[?i := s] = output_cache p"
    using list_update_id [of "output_cache p" ?i] by simp
  ultimately show ?thesis using ASymbol
    by (simp add: fts_binary_protocol_add_symbol_def Let_def put_int_def put_bytes_append
        put_bytes_snoc Option.bind_assoc del: put_bytes.simps(2)) (simp add: put_bytes_append put_bytes_snoc)
qed (simp_all add: fts_binary_protocol_add_int_def fts_binary_protocol_add_float_def put_int_def float_bytes
    fts_binary_protocol_add_string_def fts_binary_protocol_add_object_def put_bytes_append put_bytes_snoc
    Option.bind_assoc Option.bind_runit)

lemma length_cache_after [simp]: "length (cache_after oc a) = length oc"
  by (cases a) simp_all

lemma add_atoms_spec:
  assumes "stack_is (output_buffer p) bs" "0 < length (output_cache p)" "\<forall>a \<in> set at. sendable mem a"
  shows "\<exists>s. fts_binary_protocol_add_atoms mem oid at p =
      Some (p\<lparr>output_cache := fold (\<lambda>a oc. cache_after oc a) at (output_cache p), output_buffer := s\<rparr>) \<and>
      stack_is s (bs @ atoms_bytes mem oid (output_cache p) at)"
  using assms
proof (induction at arbitrary: p bs)
  case Nil
  then show ?case by (intro exI [of _ "output_buffer p"]) simp
next
  case (Cons a at)
  let ?c = "cache_after (output_cache p) a"
  obtain s where s: "put_bytes (atom_bytes mem oid (output_cache p) a) (p\<lparr>output_cache := ?c\<rparr>) =
      Some (p\<lparr>output_cache := ?c, output_buffer := s\<rparr>)"
    "stack_is s (bs @ atom_bytes mem oid (output_cache p) a)"
    using put_bytes_spec [of "p\<lparr>output_cache := ?c\<rparr>" bs "atom_bytes mem oid (output_cache p) a"] Cons.prems(1)
    by auto
  have "sendable mem a" using Cons.prems(3) by simp
  note step = add_atom_bytes [OF this Cons.prems(2), of oid]
  show ?case
    using Cons.IH [of "p\<lparr>output_cache := ?c, output_buffer := s\<rparr>" "bs @ atom_bytes mem oid (output_cache p) a"]
      s(2) Cons.prems(2,3)
    by (simp add: step s(1))
qed

subsection \<open>Decoder: runs\<close>

text \<open>\<open>runs step bs d d'\<close>: the bytes lead from \<open>d\<close> to \<open>d'\<close>, and no state on the way is the error state.\<close>

fun runs :: "(byte \<Rightarrow> 'a decoder \<Rightarrow> 'a decoder option) \<Rightarrow> byte list \<Rightarrow> 'a decoder \<Rightarrow> 'a decoder \<Rightarrow> bool" where
  "runs step [] d d' = (d' = d)"
| "runs step (b # bs) d d' = (case step b d of None \<Rightarrow> False
     | Some d1 \<Rightarrow> pr_state (fst d1) \<noteq> 0 \<and> runs step bs d1 d')"

lemma runs_append: "runs step (bs @ cs) d d'' \<longleftrightarrow> (\<exists>d'. runs step bs d d' \<and> runs step cs d' d'')"
  by (induction bs arbitrary: d) (auto split: option.splits)

lemma runs_deterministic: "runs step bs d d1 \<Longrightarrow> runs step bs d d2 \<Longrightarrow> d1 = d2"
  by (induction bs arbitrary: d) (auto split: option.splits)

lemma decode_loop_runs: "runs (bp_state_next E M T) bs d d' \<Longrightarrow> decode_loop E M T n bs d = Some (n, d')"
  by (induction bs arbitrary: d) (auto split: option.splits)

text \<open>Shift states: along the states \<open>f 0, f 1, \<dots>\<close> the bytes are collected in the buffer.\<close>

lemma runs_shift:
  assumes "\<And>i d. i < length xs \<Longrightarrow> pr_state (fst d) = f i \<Longrightarrow>
      step (xs ! i) d = moveto (f (Suc i)) (shift_action (xs ! i)) d"
    and "\<And>i. i < length xs \<Longrightarrow> f (Suc i) \<noteq> 0" "pr_state p = f 0" "stack_is (input_buffer p) bs"
  shows "\<exists>s. runs step xs (p, g) (p\<lparr>pr_state := f (length xs), input_buffer := s\<rparr>, g) \<and> stack_is s (bs @ xs)"
  using assms
proof (induction xs arbitrary: f p bs)
  case Nil
  then show ?case by (intro exI [of _ "input_buffer p"]) simp
next
  case (Cons x xs)
  obtain s where s: "fts_stack_push x (input_buffer p) = Some s" "stack_is s (bs @ [x])"
    using stack_is_push [OF Cons.prems(4)] by blast
  let ?p = "p\<lparr>pr_state := f (Suc 0), input_buffer := s\<rparr>"
  have step: "step x (p, g) = Some (?p, g)"
    using Cons.prems(1) [of 0 "(p, g)"] Cons.prems(3) s(1)
    by (simp add: moveto_def shift_action_def push_buffer_def)
  have "\<exists>t. runs step xs (?p, g) (?p\<lparr>pr_state := f (Suc (length xs)), input_buffer := t\<rparr>, g) \<and>
      stack_is t ((bs @ [x]) @ xs)"
    using Cons.prems(1) [of "Suc _"] Cons.prems(2) [of "Suc _"] s(2)
    by (intro Cons.IH [of "\<lambda>i. f (Suc i)"]) simp_all
  then show ?case
    using step Cons.prems(2) [of 0] by simp
qed

text \<open>The environment of the decoder: the symbol table, and the addresses that are still free.\<close>

definition process_inv :: "class_env \<Rightarrow> (nat \<Rightarrow> addr) \<Rightarrow> process \<Rightarrow> bool" where
  "process_inv E M g \<longleftrightarrow> sym_inv E (pc_symtab g) \<and> inj M \<and>
     (\<forall>k \<ge> pc_mallocs g. sy_mem (pc_symtab g) (M k) = None)"

lemma new_symbol_ok:
  assumes "process_inv E M g"
  shows "\<exists>q g'. new_symbol E M s g = Some (q, g') \<and> process_inv E M g' \<and>
      sy_mem (pc_symtab g') q = Some s \<and> sy_mem (pc_symtab g) \<subseteq>\<^sub>m sy_mem (pc_symtab g')"
proof -
  let ?n = "pc_mallocs g"
  have si: "sym_inv E (pc_symtab g)" and free: "sy_mem (pc_symtab g) (M ?n) = None"
    using assms by (auto simp: process_inv_def)
  obtain q st where q: "fts_new_symbol E s (M ?n) (pc_symtab g) = Some (q, st)" "sym_inv E st"
    "sy_mem st q = Some s" "\<forall>r t. sy_mem (pc_symtab g) r = Some t \<longrightarrow> sy_mem st r = Some t"
    using new_symbol_spec [OF si free, of s] by blast
  have "sy_mem st (M k) = None" if "k \<ge> Suc ?n" for k
  proof -
    have "M k \<noteq> M ?n" using assms that by (auto simp: process_inv_def inj_eq)
    moreover have "sy_mem (pc_symtab g) (M k) = None" using assms that by (simp add: process_inv_def)
    ultimately show ?thesis using new_symbol_mem_None [OF si free q(1)] by blast
  qed
  then show ?thesis
    using q assms by (auto simp: new_symbol_def process_inv_def map_le_def dom_def)
qed

text \<open>Both sides of a connection: equal up to the addresses of the symbol names.\<close>

definition same_atom :: "(addr \<Rightarrow> string option) \<Rightarrow> (addr \<Rightarrow> string option) \<Rightarrow> atom \<Rightarrow> atom \<Rightarrow> bool" where
  "same_atom mem mem' a b \<longleftrightarrow>
     (case (a, b) of (ASymbol s, ASymbol t) \<Rightarrow> mem s \<noteq> None \<and> mem' t = mem s | _ \<Rightarrow> b = a)"

definition cache_sync ::
  "(addr \<Rightarrow> string option) \<Rightarrow> (addr \<Rightarrow> string option) \<Rightarrow> addr list \<Rightarrow> addr list \<Rightarrow> bool" where
  "cache_sync mem mem' oc ic \<longleftrightarrow> 0 < length oc \<and> length oc \<le> length ic \<and> length oc < 2 ^ 31 - 1 \<and>
     (\<forall>i < length oc. oc ! i \<noteq> 0 \<longrightarrow> mem (oc ! i) \<noteq> None \<and> mem' (ic ! i) = mem (oc ! i))"

lemma same_atom_mono: "same_atom mem m1 a b \<Longrightarrow> m1 \<subseteq>\<^sub>m m2 \<Longrightarrow> same_atom mem m2 a b"
  by (cases a; cases b) (auto simp: same_atom_def map_le_def dom_def)

lemma cache_sync_mono: "cache_sync mem m1 oc ic \<Longrightarrow> m1 \<subseteq>\<^sub>m m2 \<Longrightarrow> cache_sync mem m2 oc ic"
  by (fastforce simp: cache_sync_def map_le_def dom_def)

definition decoder_at :: "class_env \<Rightarrow> (nat \<Rightarrow> addr) \<Rightarrow> (addr \<Rightarrow> string option) \<Rightarrow> addr list \<Rightarrow>
  atom list \<Rightarrow> 'a decoder \<Rightarrow> bool" where
  "decoder_at E M mem oc as d \<longleftrightarrow>
     pr_state (fst d) = q_initial \<and> stack_is (input_args (fst d)) as \<and> (\<exists>bs. stack_is (input_buffer (fst d)) bs) \<and>
     process_inv E M (snd d) \<and> cache_sync mem (sy_mem (pc_symtab (snd d))) oc (input_cache (fst d))"

lemma push_arg_ok:
  assumes "stack_is (input_args p) as"
  shows "\<exists>s. push_arg a (p, g) = Some (p\<lparr>input_args := s\<rparr>, g) \<and> stack_is s (as @ [a])"
  using stack_is_push [OF assms, of a] by (auto simp: push_arg_def)

lemma push_buffer_ok:
  assumes "stack_is (input_buffer p) bs"
  shows "\<exists>s. push_buffer b (p, g) = Some (p\<lparr>input_buffer := s\<rparr>, g) \<and> stack_is s (bs @ [b])"
  using stack_is_push [OF assms, of b] by (auto simp: push_buffer_def)

lemma take_int_ok:
  assumes "stack_is (input_buffer p) (xs @ ys)" "length xs = 4"
  shows "\<exists>s. take_int (p, g) = Some (load_le (rev xs), p\<lparr>input_buffer := s\<rparr>, g) \<and> stack_is s (rev xs @ ys)"
  using get_from_bytes_spec [OF assms, where ?'w = 32] by (auto simp: take_int_def get_int_from_bytes_def)

subsection \<open>Decoder: one value\<close>

definition frame :: "'a proto_scheme \<Rightarrow> 'a proto_scheme \<Rightarrow> bool" where
  "frame p p' \<longleftrightarrow> output_buffer p' = output_buffer p \<and> output_cache p' = output_cache p \<and>
     proto.more p' = proto.more p"

locale wire_decoder =
  fixes E :: class_env and M :: "nat \<Rightarrow> addr" and T :: tokenizer
    and end_object :: "byte \<Rightarrow> 'a decoder \<Rightarrow> 'a decoder option"
    and end_message :: "byte \<Rightarrow> 'a decoder \<Rightarrow> 'a decoder option"
    and objects :: "'a \<Rightarrow> int32 \<Rightarrow> atom list" and ok :: "'a \<Rightarrow> bool"
  assumes no_symbol: "ok m \<Longrightarrow> v \<in> set (objects m i) \<Longrightarrow> v \<noteq> ASymbol s"
    and end_object: "ok (proto.more p) \<Longrightarrow> stack_is (input_args p) as \<Longrightarrow> stack_is (input_buffer p) bs \<Longrightarrow> length bs = 3 \<Longrightarrow>
    \<exists>s t. end_object b (p, g) = Some (p\<lparr>input_buffer := s, input_args := t\<rparr>, g) \<and>
      (\<exists>cs. stack_is s cs) \<and> stack_is t (as @ objects (proto.more p) (load_le (rev (bs @ [b]))))"
begin

abbreviation step :: "byte \<Rightarrow> 'a decoder \<Rightarrow> 'a decoder option" where
  "step \<equiv> state_next E M T end_object end_message"

lemma value_run:
  assumes "pr_state p = q_initial" "stack_is (input_buffer p) bs0"
    and "\<And>d. pr_state (fst d) = q_initial \<Longrightarrow> step tag d = moveto (f 0) (clear_action tag) d"
    and "\<And>i d. i < length xs \<Longrightarrow> pr_state (fst d) = f i \<Longrightarrow>
      step (xs ! i) d = moveto (f (Suc i)) (shift_action (xs ! i)) d"
    and "\<And>i. i \<le> length xs \<Longrightarrow> f i \<noteq> 0"
  shows "\<exists>s. runs step (tag # xs) (p, g) (p\<lparr>pr_state := f (length xs), input_buffer := s\<rparr>, g) \<and> stack_is s xs"
proof -
  let ?p = "p\<lparr>pr_state := f 0, input_buffer := fts_stack_clear (input_buffer p)\<rparr>"
  have "step tag (p, g) = Some (?p, g)"
    using assms(1,3) by (simp add: moveto_def clear_action_def)
  moreover have "\<exists>s. runs step xs (?p, g) (?p\<lparr>pr_state := f (length xs), input_buffer := s\<rparr>, g) \<and> stack_is s ([] @ xs)"
    using assms(4,5) stack_is_clear [OF assms(2)] by (intro runs_shift) simp_all
  ultimately show ?thesis using assms(5) [of 0] by simp
qed

lemma split_last: "length xs = Suc n \<Longrightarrow> \<exists>ys y. xs = ys @ [y] \<and> length ys = n"
  by (metis append_butlast_last_id diff_Suc_1 length_butlast length_greater_0_conv zero_less_Suc)

lemma step_int: "pr_state (fst d) = q_int0 + i \<Longrightarrow> i < 3 \<Longrightarrow> step b d = moveto (q_int0 + Suc i) (shift_action b) d"
  "pr_state (fst d) = q_int0 + 3 \<Longrightarrow> step b d = moveto q_initial (end_int_action b) d"
  by (simp_all add: state_next_def protocol_states)

lemma step_float: "pr_state (fst d) = q_float0 + i \<Longrightarrow> i < 7 \<Longrightarrow> step b d = moveto (q_float0 + Suc i) (shift_action b) d"
  "pr_state (fst d) = q_float0 + 7 \<Longrightarrow> step b d = moveto q_initial (end_float_action b) d"
  by (simp_all add: state_next_def protocol_states)

lemma step_index: "pr_state (fst d) = q_symbol_index0 + i \<Longrightarrow> i < 3 \<Longrightarrow> step b d = moveto (q_symbol_index0 + Suc i) (shift_action b) d"
  "pr_state (fst d) = q_symbol_index0 + 3 \<Longrightarrow> step b d = moveto q_initial (end_symbol_index_action b) d"
  by (simp_all add: state_next_def protocol_states)

lemma step_object: "pr_state (fst d) = q_object0 + i \<Longrightarrow> i < 3 \<Longrightarrow> step b d = moveto (q_object0 + Suc i) (shift_action b) d"
  "pr_state (fst d) = q_object0 + 3 \<Longrightarrow> step b d = moveto q_initial (end_object b) d"
  by (simp_all add: state_next_def protocol_states)

lemma step_cache: "pr_state (fst d) = q_symbol_cache0 + min i 4 \<Longrightarrow> i < 4 \<or> b \<noteq> 0 \<Longrightarrow>
    step b d = moveto (q_symbol_cache0 + min (Suc i) 4) (shift_action b) d"
  "pr_state (fst d) = q_symbol_cache0 + 4 \<Longrightarrow> step 0 d = moveto q_initial (end_symbol_cache_action E M 0) d"
  by (cases "i < 4") (simp_all add: state_next_def protocol_states)

lemma step_string: "pr_state (fst d) = q_string \<Longrightarrow> b \<noteq> 0 \<Longrightarrow> step b d = moveto q_string (shift_action b) d"
  "pr_state (fst d) = q_string \<Longrightarrow> step 0 d = moveto q_initial (end_string_action 0) d"
  by (simp_all add: state_next_def protocol_states)

lemma step_initial:
  assumes "pr_state (fst d) = q_initial"
  shows "step FTS_PROTOCOL_INT d = moveto q_int0 (clear_action FTS_PROTOCOL_INT) d"
    "step FTS_PROTOCOL_FLOAT d = moveto q_float0 (clear_action FTS_PROTOCOL_FLOAT) d"
    "step FTS_PROTOCOL_SYMBOL_INDEX d = moveto q_symbol_index0 (clear_action FTS_PROTOCOL_SYMBOL_INDEX) d"
    "step FTS_PROTOCOL_SYMBOL_CACHE d = moveto q_symbol_cache0 (clear_action FTS_PROTOCOL_SYMBOL_CACHE) d"
    "step FTS_PROTOCOL_STRING d = moveto q_string (clear_action FTS_PROTOCOL_STRING) d"
    "step FTS_PROTOCOL_OBJECT d = moveto q_object0 (clear_action FTS_PROTOCOL_OBJECT) d"
    "step FTS_PROTOCOL_END_OF_MESSAGE d = moveto q_initial (end_message FTS_PROTOCOL_END_OF_MESSAGE) d"
  using assms by (simp_all add: state_next_def protocol_states protocol_tags)

text \<open>A value is a tag, bytes that are shifted, and a last byte that runs an action.\<close>

lemma value_end:
  assumes d: "decoder_at E M mem oc as (p, g)"
    and tag: "\<And>d. pr_state (fst d) = q_initial \<Longrightarrow> step tag d = moveto (f 0) (clear_action tag) d"
    and shift: "\<And>i d. i < length ys \<Longrightarrow> pr_state (fst d) = f i \<Longrightarrow>
      step (ys ! i) d = moveto (f (Suc i)) (shift_action (ys ! i)) d"
    and f: "\<And>i. i \<le> length ys \<Longrightarrow> f i \<noteq> 0"
    and last: "\<And>d. pr_state (fst d) = f (length ys) \<Longrightarrow> step y d = moveto q_initial (act y) d"
    and act: "\<And>p'. stack_is (input_buffer p') ys \<Longrightarrow> stack_is (input_args p') as \<Longrightarrow>
      input_cache p' = input_cache p \<Longrightarrow> pr_state p' = q_initial \<Longrightarrow> frame p p' \<Longrightarrow>
      \<exists>d'. act y (p', g) = Some d' \<and> pr_state (fst d') = q_initial \<and> R d'"
  shows "\<exists>d'. runs step (tag # ys @ [y]) (p, g) d' \<and> R d'"
proof -
  obtain bs where p: "pr_state p = q_initial" "stack_is (input_buffer p) bs" "stack_is (input_args p) as"
    using d by (auto simp: decoder_at_def)
  obtain s where s: "runs step (tag # ys) (p, g) (p\<lparr>pr_state := f (length ys), input_buffer := s\<rparr>, g)" "stack_is s ys"
    using value_run [OF p(1,2) tag shift f, of g] by blast
  let ?p = "p\<lparr>pr_state := f (length ys), input_buffer := s, pr_state := q_initial\<rparr>"
  obtain d' where d': "act y (?p, g) = Some d'" "pr_state (fst d') = q_initial" "R d'"
    using act [of ?p] s(2) p(3) by (auto simp: frame_def)
  have "step y (p\<lparr>pr_state := f (length ys), input_buffer := s\<rparr>, g) = Some d'"
    using d'(1) by (simp add: last moveto_def)
  then have "runs step [y] (p\<lparr>pr_state := f (length ys), input_buffer := s\<rparr>, g) d'"
    using d'(2) by (simp add: q_initial_def)
  then have "runs step ((tag # ys) @ [y]) (p, g) d'" using s(1) runs_append by blast
  then show ?thesis using d'(3) unfolding append_Cons by blast
qed

definition decoded :: "(addr \<Rightarrow> string option) \<Rightarrow> addr list \<Rightarrow> atom list \<Rightarrow> 'a decoder \<Rightarrow> atom list \<Rightarrow> 'a decoder \<Rightarrow> bool" where
  "decoded mem oc as d vs d' \<longleftrightarrow> (\<exists>ws. decoder_at E M mem oc (as @ ws) d' \<and>
     list_all2 (same_atom mem (sy_mem (pc_symtab (snd d')))) vs ws) \<and> frame (fst d) (fst d') \<and>
     sy_mem (pc_symtab (snd d)) \<subseteq>\<^sub>m sy_mem (pc_symtab (snd d'))"

lemma decode_int:
  assumes d: "decoder_at E M mem oc as (p, g)"
  shows "\<exists>d'. runs step (FTS_PROTOCOL_INT # int_bytes v) (p, g) d' \<and> decoded mem oc as (p, g) [AInt v] d'"
proof -
  obtain ys y where v: "int_bytes v = ys @ [y]" and len: "length ys = 3"
    using split_last [of "int_bytes v" 3] by auto
  have "\<exists>d'. runs step (FTS_PROTOCOL_INT # ys @ [y]) (p, g) d' \<and> decoded mem oc as (p, g) [AInt v] d'"
  proof (rule value_end [OF d, where f = "\<lambda>i. q_int0 + i" and act = end_int_action])
    fix p' :: "'a proto_scheme"
    assume p': "stack_is (input_buffer p') ys" "stack_is (input_args p') as" "input_cache p' = input_cache p"
      "pr_state p' = q_initial" "frame p p'"
    obtain s1 where s1: "push_buffer y (p', g) = Some (p'\<lparr>input_buffer := s1\<rparr>, g)" "stack_is s1 (int_bytes v)"
      using push_buffer_ok [OF p'(1)] v by metis
    obtain s2 where s2: "take_int (p'\<lparr>input_buffer := s1\<rparr>, g) = Some (v, p'\<lparr>input_buffer := s2\<rparr>, g)" "\<exists>cs. stack_is s2 cs"
      using take_int_ok [of "p'\<lparr>input_buffer := s1\<rparr>" "int_bytes v" "[]" g] s1(2) by auto
    obtain t where t: "push_arg (AInt v) (p'\<lparr>input_buffer := s2\<rparr>, g) = Some (p'\<lparr>input_buffer := s2, input_args := t\<rparr>, g)"
      "stack_is t (as @ [AInt v])"
      using push_arg_ok [of "p'\<lparr>input_buffer := s2\<rparr>" as "AInt v" g] p'(2) by auto
    have "end_int_action y (p', g) = Some (p'\<lparr>input_buffer := s2, input_args := t\<rparr>, g)"
      using s1 s2 t by (simp add: end_int_action_def)
    moreover have "decoded mem oc as (p, g) [AInt v] (p'\<lparr>input_buffer := s2, input_args := t\<rparr>, g)"
      using d p' s2(2) t(2)
      by (auto simp: decoded_def decoder_at_def frame_def same_atom_def intro!: exI [of _ "[AInt v]"])
    ultimately show "\<exists>d'. end_int_action y (p', g) = Some d' \<and> pr_state (fst d') = q_initial \<and>
        decoded mem oc as (p, g) [AInt v] d'"
      using p'(4) by (auto intro!: exI)
  qed (simp_all add: step_initial step_int len, simp add: protocol_states)
  then show ?thesis using v by simp
qed

lemma decode_float:
  assumes d: "decoder_at E M mem oc as (p, g)"
  shows "\<exists>d'. runs step (FTS_PROTOCOL_FLOAT # rev (store_le 8 (dbits x))) (p, g) d' \<and>
    decoded mem oc as (p, g) [AFloat x] d'"
proof -
  obtain ys y where v: "rev (store_le 8 (dbits x)) = ys @ [y]" and len: "length ys = 7"
    using split_last [of "rev (store_le 8 (dbits x))" 7] by auto
  have "\<exists>d'. runs step (FTS_PROTOCOL_FLOAT # ys @ [y]) (p, g) d' \<and> decoded mem oc as (p, g) [AFloat x] d'"
  proof (rule value_end [OF d, where f = "\<lambda>i. q_float0 + i" and act = end_float_action])
    fix p' :: "'a proto_scheme"
    assume p': "stack_is (input_buffer p') ys" "stack_is (input_args p') as" "input_cache p' = input_cache p"
      "pr_state p' = q_initial" "frame p p'"
    obtain s1 where s1: "push_buffer y (p', g) = Some (p'\<lparr>input_buffer := s1\<rparr>, g)"
      "stack_is s1 (rev (store_le 8 (dbits x)))"
      using push_buffer_ok [OF p'(1)] v by metis
    have "load_le (rev (rev (store_le 8 (dbits x)))) = dbits x" by (simp add: load_store_le)
    then obtain s2 where s2: "get_from_bytes 8 s1 = Some (dbits x, s2)" "stack_is s2 (store_le 8 (dbits x))"
      using get_from_bytes_spec [where ?'w = 64, of s1 "rev (store_le 8 (dbits x))" "[]" 8] s1(2) by auto
    then have get: "get_double_from_bytes s1 = Some (x, s2)" by (simp add: get_double_from_bytes_def)
    obtain t where t: "push_arg (AFloat x) (p'\<lparr>input_buffer := s2\<rparr>, g) = Some (p'\<lparr>input_buffer := s2, input_args := t\<rparr>, g)"
      "stack_is t (as @ [AFloat x])"
      using push_arg_ok [of "p'\<lparr>input_buffer := s2\<rparr>" as "AFloat x" g] p'(2) by auto
    have "end_float_action y (p', g) = Some (p'\<lparr>input_buffer := s2, input_args := t\<rparr>, g)"
      using s1 get t by (simp add: end_float_action_def)
    moreover have "decoded mem oc as (p, g) [AFloat x] (p'\<lparr>input_buffer := s2, input_args := t\<rparr>, g)"
      using d p' s2(2) t(2)
      by (auto simp: decoded_def decoder_at_def frame_def same_atom_def intro!: exI [of _ "[AFloat x]"])
    ultimately show "\<exists>d'. end_float_action y (p', g) = Some d' \<and> pr_state (fst d') = q_initial \<and>
        decoded mem oc as (p, g) [AFloat x] d'"
      using p'(4) by (auto intro!: exI)
  qed (simp_all add: step_initial step_float len, simp add: protocol_states)
  then show ?thesis using v by simp
qed

lemma decode_string:
  assumes d: "decoder_at E M mem oc as (p, g)" and s: "c_string x"
  shows "\<exists>d'. runs step (FTS_PROTOCOL_STRING # map byte_of_char x @ [0]) (p, g) d' \<and>
    decoded mem oc as (p, g) [AString x] d'"
proof (rule value_end [OF d, where f = "\<lambda>i. q_string" and act = end_string_action])
  have nz: "0 \<notin> set (map byte_of_char x)" using s by (auto simp: c_string_def)
  show "step (map byte_of_char x ! i) d = moveto q_string (shift_action (map byte_of_char x ! i)) d"
    if "i < length (map byte_of_char x)" "pr_state (fst d) = q_string" for i d
    using that nz by (intro step_string) (metis nth_mem)+
  fix p' :: "'a proto_scheme"
  assume p': "stack_is (input_buffer p') (map byte_of_char x)" "stack_is (input_args p') as"
    "input_cache p' = input_cache p" "pr_state p' = q_initial" "frame p p'"
  obtain s1 where s1: "push_buffer 0 (p', g) = Some (p'\<lparr>input_buffer := s1\<rparr>, g)" "stack_is s1 (map byte_of_char x @ [0])"
    using push_buffer_ok [OF p'(1)] by metis
  have name: "c_str_at (st_buffer s1) = Some x"
    using s1(2) c_str_at_spec [OF nz] by (auto simp: stack_is_alt comp_def)
  obtain t where t: "push_arg (AString x) (p'\<lparr>input_buffer := s1\<rparr>, g) = Some (p'\<lparr>input_buffer := s1, input_args := t\<rparr>, g)"
    "stack_is t (as @ [AString x])"
    using push_arg_ok [of "p'\<lparr>input_buffer := s1\<rparr>" as "AString x" g] p'(2) by auto
  have "end_string_action 0 (p', g) = Some (p'\<lparr>input_buffer := s1, input_args := t\<rparr>, g)"
    using s1 name t by (simp add: end_string_action_def)
  moreover have "decoded mem oc as (p, g) [AString x] (p'\<lparr>input_buffer := s1, input_args := t\<rparr>, g)"
    using d p' s1(2) t(2)
    by (auto simp: decoded_def decoder_at_def frame_def same_atom_def intro!: exI [of _ "[AString x]"])
  ultimately show "\<exists>d'. end_string_action 0 (p', g) = Some d' \<and> pr_state (fst d') = q_initial \<and>
      decoded mem oc as (p, g) [AString x] d'"
    using p'(4) by (auto intro!: exI)
qed (simp_all add: step_initial step_string, simp add: protocol_states)

lemma decode_object:
  assumes d: "decoder_at E M mem oc as (p, g)"
    and ok: "ok (proto.more p)"
  shows "\<exists>d'. runs step (FTS_PROTOCOL_OBJECT # int_bytes v) (p, g) d' \<and>
    decoded mem oc as (p, g) (objects (proto.more p) v) d'"
proof -
  obtain ys y where v: "int_bytes v = ys @ [y]" and len: "length ys = 3"
    using split_last [of "int_bytes v" 3] by auto
  let ?vs = "objects (proto.more p) v"
  have "\<exists>d'. runs step (FTS_PROTOCOL_OBJECT # ys @ [y]) (p, g) d' \<and> decoded mem oc as (p, g) ?vs d'"
  proof (rule value_end [OF d, where f = "\<lambda>i. q_object0 + i" and act = end_object])
    fix p' :: "'a proto_scheme"
    assume p': "stack_is (input_buffer p') ys" "stack_is (input_args p') as" "input_cache p' = input_cache p"
      "pr_state p' = q_initial" "frame p p'"
    have "load_le (rev (ys @ [y])) = v" using v load_int_bytes by metis
    then obtain s t where st: "end_object y (p', g) = Some (p'\<lparr>input_buffer := s, input_args := t\<rparr>, g)"
      "\<exists>cs. stack_is s cs" "stack_is t (as @ ?vs)"
      using end_object [OF _ p'(2,1) len, of y g] p'(5) ok by (auto simp: frame_def)
    moreover have "list_all2 (same_atom mem m) ?vs ?vs" for m
      using no_symbol [OF ok] by (auto simp: list_all2_same same_atom_def split: atom.split)
    ultimately have "decoded mem oc as (p, g) ?vs (p'\<lparr>input_buffer := s, input_args := t\<rparr>, g)"
      using d p' by (auto simp: decoded_def decoder_at_def frame_def intro!: exI [of _ ?vs])
    then show "\<exists>d'. end_object y (p', g) = Some d' \<and> pr_state (fst d') = q_initial \<and>
        decoded mem oc as (p, g) ?vs d'"
      using p'(4) st(1) by (auto intro!: exI)
  qed (simp_all add: step_initial step_object len, simp add: protocol_states)
  then show ?thesis using v by simp
qed

lemma decode_symbol_index:
  assumes d: "decoder_at E M mem oc as (p, g)" and i: "i < length oc" "oc ! i = s" "s \<noteq> 0"
  shows "\<exists>d'. runs step (FTS_PROTOCOL_SYMBOL_INDEX # int_bytes (of_nat i)) (p, g) d' \<and>
    decoded mem oc as (p, g) [ASymbol s] d'"
proof -
  let ?v = "of_nat i :: int32"
  obtain ys y where v: "int_bytes ?v = ys @ [y]" and len: "length ys = 3"
    using split_last [of "int_bytes ?v" 3] by auto
  have sync: "cache_sync mem (sy_mem (pc_symtab g)) oc (input_cache p)" using d by (simp add: decoder_at_def)
  then have sint: "sint ?v = int i" and in_cache: "i < length (input_cache p)"
    using i(1) by (auto simp: cache_sync_def signed_of_nat signed_take_bit_int_eq_self)
  let ?r = "input_cache p ! i"
  have "\<exists>d'. runs step (FTS_PROTOCOL_SYMBOL_INDEX # ys @ [y]) (p, g) d' \<and> decoded mem oc as (p, g) [ASymbol s] d'"
  proof (rule value_end [OF d, where f = "\<lambda>i. q_symbol_index0 + i" and act = end_symbol_index_action])
    fix p' :: "'a proto_scheme"
    assume p': "stack_is (input_buffer p') ys" "stack_is (input_args p') as" "input_cache p' = input_cache p"
      "pr_state p' = q_initial" "frame p p'"
    obtain s1 where s1: "push_buffer y (p', g) = Some (p'\<lparr>input_buffer := s1\<rparr>, g)" "stack_is s1 (int_bytes ?v)"
      using push_buffer_ok [OF p'(1)] v by metis
    obtain s2 where s2: "take_int (p'\<lparr>input_buffer := s1\<rparr>, g) = Some (?v, p'\<lparr>input_buffer := s2\<rparr>, g)" "\<exists>cs. stack_is s2 cs"
      using take_int_ok [of "p'\<lparr>input_buffer := s1\<rparr>" "int_bytes ?v" "[]" g] s1(2) by auto
    obtain t where t: "push_arg (ASymbol ?r) (p'\<lparr>input_buffer := s2\<rparr>, g) = Some (p'\<lparr>input_buffer := s2, input_args := t\<rparr>, g)"
      "stack_is t (as @ [ASymbol ?r])"
      using push_arg_ok [of "p'\<lparr>input_buffer := s2\<rparr>" as "ASymbol ?r" g] p'(2) by auto
    have "end_symbol_index_action y (p', g) = Some (p'\<lparr>input_buffer := s2, input_args := t\<rparr>, g)"
      using s1 s2 t p'(3) in_cache by (simp add: end_symbol_index_action_def sint)
    moreover have "same_atom mem (sy_mem (pc_symtab g)) (ASymbol s) (ASymbol ?r)"
      using sync i by (auto simp: cache_sync_def same_atom_def)
    then have "decoded mem oc as (p, g) [ASymbol s] (p'\<lparr>input_buffer := s2, input_args := t\<rparr>, g)"
      using d p' s2(2) t(2)
      by (auto simp: decoded_def decoder_at_def frame_def intro!: exI [of _ "[ASymbol ?r]"])
    ultimately show "\<exists>d'. end_symbol_index_action y (p', g) = Some d' \<and> pr_state (fst d') = q_initial \<and>
        decoded mem oc as (p, g) [ASymbol s] d'"
      using p'(4) by (auto intro!: exI)
  qed (simp_all add: step_initial step_index len, simp add: protocol_states)
  then show ?thesis using v by simp
qed

lemma decode_symbol_cache:
  assumes d: "decoder_at E M mem oc as (p, g)" and i: "i < length oc" and s: "mem s = Some x" "c_string x"
  shows "\<exists>d'. runs step (FTS_PROTOCOL_SYMBOL_CACHE # int_bytes (of_nat i) @ map byte_of_char x @ [0]) (p, g) d' \<and>
    decoded mem (oc[i := s]) as (p, g) [ASymbol s] d'"
proof -
  let ?v = "of_nat i :: int32" and ?name = "map byte_of_char x"
  have nz: "0 \<notin> set ?name" using s(2) by (auto simp: c_string_def)
  have sync: "cache_sync mem (sy_mem (pc_symtab g)) oc (input_cache p)" and inv: "process_inv E M g"
    using d by (simp_all add: decoder_at_def)
  have sint: "sint ?v = int i" and in_cache: "i < length (input_cache p)" and small: "int i < 2 ^ 31 - 1"
    using i sync by (auto simp: cache_sync_def signed_of_nat signed_take_bit_int_eq_self)
  obtain q g1 where q: "new_symbol E M x g = Some (q, g1)" "process_inv E M g1"
    "sy_mem (pc_symtab g1) q = Some x" "sy_mem (pc_symtab g) \<subseteq>\<^sub>m sy_mem (pc_symtab g1)"
    using new_symbol_ok [OF inv] by blast
  have "\<exists>d'. runs step (FTS_PROTOCOL_SYMBOL_CACHE # (int_bytes ?v @ ?name) @ [0]) (p, g) d' \<and>
      decoded mem (oc[i := s]) as (p, g) [ASymbol s] d'"
  proof (rule value_end [OF d, where f = "\<lambda>i. q_symbol_cache0 + min i 4" and act = "end_symbol_cache_action E M"])
    show "step ((int_bytes ?v @ ?name) ! j) d =
        moveto (q_symbol_cache0 + min (Suc j) 4) (shift_action ((int_bytes ?v @ ?name) ! j)) d"
      if "j < length (int_bytes ?v @ ?name)" "pr_state (fst d) = q_symbol_cache0 + min j 4" for j d
    proof (rule step_cache(1) [OF that(2)])
      have "?name ! (j - 4) \<in> set ?name" if "\<not> j < 4"
        using that \<open>j < length (int_bytes ?v @ ?name)\<close> by (intro nth_mem) simp
      then show "j < 4 \<or> (int_bytes ?v @ ?name) ! j \<noteq> 0" using nz by (metis length_int_bytes nth_append)
    qed
    fix p' :: "'a proto_scheme"
    assume p': "stack_is (input_buffer p') (int_bytes ?v @ ?name)" "stack_is (input_args p') as"
      "input_cache p' = input_cache p" "pr_state p' = q_initial" "frame p p'"
    obtain s1 where s1: "take_int (p', g) = Some (?v, p'\<lparr>input_buffer := s1\<rparr>, g)" "stack_is s1 (rev (int_bytes ?v) @ ?name)"
      using take_int_ok [OF p'(1)] by auto
    obtain s2 where s2: "push_buffer 0 (p'\<lparr>input_buffer := s1\<rparr>, g) = Some (p'\<lparr>input_buffer := s2\<rparr>, g)"
      "stack_is s2 (rev (int_bytes ?v) @ ?name @ [0])"
      using push_buffer_ok [of "p'\<lparr>input_buffer := s1\<rparr>" "rev (int_bytes ?v) @ ?name" 0 g] s1(2) by auto
    obtain r where "st_buffer s2 = map Some (rev (int_bytes ?v)) @ map Some ?name @ Some 0 # r"
      using s2(2) by (auto simp: stack_is_alt)
    then have name: "c_str_at (drop 4 (st_buffer s2)) = Some x"
      using c_str_at_spec [OF nz] by (simp add: comp_def)
    let ?c = "(input_cache p)[i := q]"
    have put: "symbol_cache_put (input_cache p') q (sint ?v) = Some ?c"
      using in_cache small by (simp add: symbol_cache_put_def sint p'(3))
    let ?p2 = "p'\<lparr>input_buffer := s2, input_cache := ?c\<rparr>"
    obtain t where t: "push_arg (ASymbol q) (?p2, g1) = Some (?p2\<lparr>input_args := t\<rparr>, g1)" "stack_is t (as @ [ASymbol q])"
      using push_arg_ok [of ?p2 as "ASymbol q" g1] p'(2) by auto
    have "end_symbol_cache_action E M 0 (p', g) = Some (?p2\<lparr>input_args := t\<rparr>, g1)"
      using s1 s2 t name q put by (simp add: end_symbol_cache_action_def)
    moreover have "cache_sync mem (sy_mem (pc_symtab g1)) (oc[i := s]) ?c"
      using cache_sync_mono [OF sync q(4)] i s(1) q(3) by (auto simp: cache_sync_def nth_list_update)
    then have "decoded mem (oc[i := s]) as (p, g) [ASymbol s] (?p2\<lparr>input_args := t\<rparr>, g1)"
      using d p' s2(2) t(2) q s(1)
      by (auto simp: decoded_def decoder_at_def frame_def same_atom_def intro!: exI [of _ "[ASymbol q]"])
    ultimately show "\<exists>d'. end_symbol_cache_action E M 0 (p', g) = Some d' \<and> pr_state (fst d') = q_initial \<and>
        decoded mem (oc[i := s]) as (p, g) [ASymbol s] d'"
      using p'(4) by (auto intro!: exI)
  qed (simp_all add: step_initial step_cache, simp add: protocol_states)
  then show ?thesis by simp
qed
end

subsection \<open>Encoding and decoding a list of atoms\<close>

definition received :: "(int32 \<Rightarrow> atom list) \<Rightarrow> (addr \<Rightarrow> int32) \<Rightarrow> atom \<Rightarrow> atom list" where
  "received objs oid a =
     (case a of AObject x \<Rightarrow> objs (oid x) | AVoid \<Rightarrow> [] | APointer _ \<Rightarrow> [] | _ \<Rightarrow> [a])"

context wire_decoder
begin

lemma decode_atom:
  assumes d: "decoder_at E M mem oc as d" and a: "sendable mem a"
    and ok: "ok (proto.more (fst d))"
  shows "\<exists>d'. runs step (atom_bytes mem oid oc a) d d' \<and>
    decoded mem (cache_after oc a) as d (received (objects (proto.more (fst d))) oid a) d'"
proof -
  obtain p g where pg: "d = (p, g)" by (cases d)
  note d' = d [unfolded pg]
  have len: "0 < length oc" using d' by (simp add: decoder_at_def cache_sync_def)
  have refl: "runs step [] d d \<and> decoded mem oc as d [] d"
    using d by (auto simp: decoded_def frame_def intro!: exI [of _ "[]"])
  show ?thesis
  proof (cases a)
    case (ASymbol s)
    let ?i = "(s mod 2 ^ 32) mod length oc"
    have i: "?i < length oc" using len by simp
    obtain x where x: "mem s = Some x" "c_string x" "s \<noteq> 0" using a ASymbol by (auto split: option.splits)
    show ?thesis
    proof (cases "oc ! ?i = s")
      case True
      then have "oc[?i := s] = oc" using list_update_id [of oc ?i] by simp
      then show ?thesis
        using decode_symbol_index [OF d' i True x(3)] True by (simp add: ASymbol received_def pg)
    next
      case False
      then show ?thesis
        using decode_symbol_cache [OF d' i x(1,2)] by (simp add: ASymbol received_def pg Let_def x(1))
    qed
  next
    case (AInt v)
    then show ?thesis using decode_int [OF d', of v] by (simp add: received_def pg)
  next
    case (AFloat v)
    then show ?thesis using decode_float [OF d', of v] by (simp add: received_def pg)
  next
    case (AString x)
    then show ?thesis using decode_string [OF d', of x] a by (simp add: received_def pg)
  next
    case (AObject x)
    then show ?thesis using decode_object [OF d', of "oid x"] ok by (simp add: received_def pg)
  qed (use refl in \<open>auto simp: received_def\<close>)
qed

lemma decoded_trans:
  assumes d1: "decoded mem oc as d vs d1" and ws: "list_all2 (same_atom mem (sy_mem (pc_symtab (snd d1)))) vs ws"
    and d2: "decoded mem oc2 (as @ ws) d1 us d2"
  shows "decoded mem oc2 as d (vs @ us) d2"
proof -
  have sub: "sy_mem (pc_symtab (snd d1)) \<subseteq>\<^sub>m sy_mem (pc_symtab (snd d2))"
    using d2 by (simp add: decoded_def)
  have "list_all2 (same_atom mem (sy_mem (pc_symtab (snd d2)))) vs ws"
    using ws same_atom_mono [OF _ sub] by (rule list_all2_mono)
  moreover obtain ws2 where ws2: "decoder_at E M mem oc2 (as @ ws @ ws2) d2"
    "list_all2 (same_atom mem (sy_mem (pc_symtab (snd d2)))) us ws2"
    using d2 by (auto simp: decoded_def)
  ultimately have "\<exists>ws. decoder_at E M mem oc2 (as @ ws) d2 \<and>
      list_all2 (same_atom mem (sy_mem (pc_symtab (snd d2)))) (vs @ us) ws"
    by (intro exI [of _ "ws @ ws2"]) (simp add: list_all2_appendI)
  moreover have "sy_mem (pc_symtab (snd d)) \<subseteq>\<^sub>m sy_mem (pc_symtab (snd d2))"
    using d1 sub map_le_trans unfolding decoded_def by blast
  moreover have "frame (fst d) (fst d2)"
    using d1 d2 by (simp add: decoded_def frame_def)
  ultimately show ?thesis by (simp add: decoded_def)
qed

lemma decode_atoms:
  assumes "decoder_at E M mem oc as d" "\<forall>a \<in> set at. sendable mem a"
    and "ok (proto.more (fst d))"
  shows "\<exists>d'. runs step (atoms_bytes mem oid oc at) d d' \<and>
    decoded mem (fold (\<lambda>a oc. cache_after oc a) at oc) as d
      (concat (map (received (objects (proto.more (fst d))) oid) at)) d'"
  using assms
proof (induction at arbitrary: oc as d)
  case Nil
  then show ?case by (auto simp: decoded_def frame_def intro!: exI [of _ "[]"])
next
  case (Cons a at)
  obtain d1 where d1: "runs step (atom_bytes mem oid oc a) d d1"
    "decoded mem (cache_after oc a) as d (received (objects (proto.more (fst d))) oid a) d1"
    using decode_atom [OF Cons.prems(1) _ Cons.prems(3)] Cons.prems(2) by (meson list.set_intros(1))
  have more: "proto.more (fst d1) = proto.more (fst d)" using d1(2) by (simp add: decoded_def frame_def)
  obtain ws where ws: "decoder_at E M mem (cache_after oc a) (as @ ws) d1"
    "list_all2 (same_atom mem (sy_mem (pc_symtab (snd d1)))) (received (objects (proto.more (fst d))) oid a) ws"
    using d1(2) by (auto simp: decoded_def)
  obtain d2 where d2: "runs step (atoms_bytes mem oid (cache_after oc a) at) d1 d2"
    "decoded mem (fold (\<lambda>a oc. cache_after oc a) at (cache_after oc a)) (as @ ws) d1
      (concat (map (received (objects (proto.more (fst d))) oid) at)) d2"
    using Cons.IH [OF ws(1)] Cons.prems(2,3) more by auto
  have "runs step (atoms_bytes mem oid oc (a # at)) d d2"
    using d1(1) d2(1) by (auto simp: runs_append simp del: split_paired_Ex)
  then show ?case
    using decoded_trans [OF d1(2) ws(2) d2(2)] by (intro exI [of _ d2]) simp
qed

end

subsection \<open>The binary protocol object\<close>

interpretation bp: wire_decoder E M T bp_end_object_action bp_end_message_action "\<lambda>_ _. []" "\<lambda>_. True"
  for E M T
proof
  fix m :: 'a and v :: atom and i :: int32 and s :: addr
  assume "v \<in> set []"
  then show "v \<noteq> ASymbol s" by simp
next
  fix p :: "'a proto_scheme" and as :: "atom list" and bs :: "byte list" and b :: byte and g :: process
  assume "stack_is (input_args p) as" "stack_is (input_buffer p) bs"
  then show "\<exists>s t. bp_end_object_action b (p, g) = Some (p\<lparr>input_buffer := s, input_args := t\<rparr>, g) \<and>
      (\<exists>cs. stack_is s cs) \<and> stack_is t (as @ [])"
    by (intro exI [of _ "input_buffer p"] exI [of _ "input_args p"]) (auto simp: bp_end_object_action_def)
qed

lemma bp_state_next_runs: "runs (state_next E M T bp_end_object_action bp_end_message_action) bs d d' \<Longrightarrow>
    decode_loop E M T n bs d = Some (n, d')"
  using decode_loop_runs by (simp add: bp_state_next_def)

lemma decoder_at_init:
  "process_inv E M g \<Longrightarrow>
     decoder_at E M mem (output_cache binary_protocol_init) [] (binary_protocol_init, g)"
  by (auto simp: decoder_at_def binary_protocol_init_def q_initial_def cache_sync_def symbol_cache_init_def
      SYMBOL_CACHE_SIZE_def intro: stack_is_init)

text \<open>The atoms that reach the other side: void atoms and pointers are not sent, objects are
  sent and skipped by the decoder.\<close>

definition by_value :: "atom \<Rightarrow> bool" where
  "by_value a = (case a of AObject _ \<Rightarrow> False | AVoid \<Rightarrow> False | APointer _ \<Rightarrow> False | _ \<Rightarrow> True)"

lemma concat_received_Nil: "concat (map (received (\<lambda>_. []) oid) at) = filter by_value at"
  by (induction at) (auto simp: received_def by_value_def split: atom.split)

lemma encode_decode:
  assumes "stack_is (output_buffer p) []" "decoder_at E M mem (output_cache p) as d"
    and "\<forall>a \<in> set at. sendable mem a"
  shows "\<exists>p' bs d' ws. fts_binary_protocol_add_atoms mem oid at p = Some p' \<and>
      stack_is (output_buffer p') bs \<and>
      fts_binary_protocol_decode E M T bs d = Some (int (length bs), d') \<and>
      decoder_at E M mem (output_cache p') (as @ ws) d' \<and>
      list_all2 (same_atom mem (sy_mem (pc_symtab (snd d')))) (filter by_value at) ws"
proof -
  let ?bs = "atoms_bytes mem oid (output_cache p) at"
  let ?oc = "fold (\<lambda>a oc. cache_after oc a) at (output_cache p)"
  have "0 < length (output_cache p)" using assms(2) by (simp add: decoder_at_def cache_sync_def)
  then obtain s where s: "fts_binary_protocol_add_atoms mem oid at p =
      Some (p\<lparr>output_cache := ?oc, output_buffer := s\<rparr>)" "stack_is s ?bs"
    using add_atoms_spec [OF assms(1) _ assms(3), of oid] by auto
  obtain d' where d': "runs (bp.step E M T) ?bs d d'"
    "bp.decoded E M mem ?oc as d (filter by_value at) d'"
    using bp.decode_atoms [OF assms(2,3), where T = T and oid = oid] by (auto simp: concat_received_Nil)
  have "fts_binary_protocol_decode E M T ?bs d = Some (int (length ?bs), d')"
    unfolding fts_binary_protocol_decode_def by (rule bp_state_next_runs [OF d'(1)])
  moreover obtain ws where "decoder_at E M mem ?oc (as @ ws) d'"
    "list_all2 (same_atom mem (sy_mem (pc_symtab (snd d')))) (filter by_value at) ws"
    using d'(2) by (auto simp: bp.decoded_def)
  ultimately show ?thesis using s
    by (intro exI [of _ "p\<lparr>output_cache := ?oc, output_buffer := s\<rparr>"] exI [of _ ?bs] exI [of _ d'] exI [of _ ws])
      simp
qed

text \<open>After a protocol error nothing but the end of a message is accepted, and each call of the
  decoder consumes one byte.\<close>

lemma decode_error_state:
  assumes "pr_state (fst d) = 0" "b \<noteq> FTS_PROTOCOL_END_OF_MESSAGE"
  shows "fts_binary_protocol_decode E M T (b # bs) d = Some (- 1, d)"
  using assms by (simp add: fts_binary_protocol_decode_def bp_state_next_def state_next_def)

lemma decode_unknown_tag:
  assumes "pr_state (fst d) = q_initial" "b \<notin> {1, 2, 3, 4, 5, 6, 7, 15}"
  shows "fts_binary_protocol_decode E M T (b # bs) d = Some (- 1, ((fst d)\<lparr>pr_state := 0\<rparr>, snd d))"
  using assms
  by (simp add: fts_binary_protocol_decode_def bp_state_next_def state_next_def protocol_tags protocol_states)

end
