(* ===== verification/Client.thy ===== *)
theory Client
  imports Protocol
begin

text \<open>
  Clients (\<open>fts/client.c\<close>): the table of clients, the table of the objects a client knows, the
  decoder of the messages it sends and the encoder of the messages sent to it.

  A client is a binary protocol with an object table, a counter of object identifiers and a stream.
  The flags of an object (\<open>include/fts/object.h\<close>) are bit fields: 4 bits for the client id, 26 bits
  for the object id, both signed. The world holds the flags of all objects, the client table, the
  clients by address (\<^const>\<open>None\<close>: no client at this address), and the bytes that were written
  to each stream. A message that a client sends to an object is recorded in the client, with its
  selector and arguments; the method it runs belongs to the class of the object. A dereference of
  a null or wild pointer is \<^const>\<open>None\<close>.
\<close>

subsection \<open>State\<close>

record obj_flags =
  of_client :: "4 word"
  of_id :: "26 word"

record message =
  msg_target :: addr
  msg_selector :: atom
  msg_argc :: int
  msg_args :: "atom list"

record client = proto +
  client_id :: int
  object_table :: hashtable
  object_id_count :: int32
  root_patcher :: addr
  client_stream :: "addr option"
  client_messages :: "message list"

record world =
  w_flags :: "addr \<Rightarrow> obj_flags"
  client_table :: "addr stack"
  w_clients :: "addr \<Rightarrow> client option"
  w_output :: "(addr \<times> byte list) list"
  w_names :: "addr \<Rightarrow> string option"

definition FTS_NO_ID :: int where "FTS_NO_ID = - 1"
definition FTS_OBJECT_ID_ROOT :: int where "FTS_OBJECT_ID_ROOT = 0"
definition FTS_OBJECT_ID_CLIENT :: int where "FTS_OBJECT_ID_CLIENT = 1"

definition fts_object_get_id :: "world \<Rightarrow> addr \<Rightarrow> int" where
  "fts_object_get_id w obj = sint (of_id (w_flags w obj))"

definition fts_object_get_client_id :: "world \<Rightarrow> addr \<Rightarrow> int" where
  "fts_object_get_client_id w obj = sint (of_client (w_flags w obj))"

definition fts_object_has_client :: "world \<Rightarrow> addr \<Rightarrow> bool" where
  "fts_object_has_client w obj \<longleftrightarrow> fts_object_get_client_id w obj > FTS_NO_ID"

definition fts_object_set_id :: "addr \<Rightarrow> int \<Rightarrow> world \<Rightarrow> world" where
  "fts_object_set_id obj i w = w\<lparr>w_flags := (w_flags w)(obj := (w_flags w obj)\<lparr>of_id := word_of_int i\<rparr>)\<rparr>"

definition fts_object_set_client_id :: "addr \<Rightarrow> int \<Rightarrow> world \<Rightarrow> world" where
  "fts_object_set_client_id obj i w =
     w\<lparr>w_flags := (w_flags w)(obj := (w_flags w obj)\<lparr>of_client := word_of_int i\<rparr>)\<rparr>"

definition set_client :: "addr \<Rightarrow> client \<Rightarrow> world \<Rightarrow> world" where
  "set_client c cl w = w\<lparr>w_clients := (w_clients w)(c := Some cl)\<rparr>"

subsection \<open>Client table\<close>

definition client_table_add :: "addr \<Rightarrow> world \<Rightarrow> (int \<times> world) option" where
  "client_table_add client w =
     map_option (\<lambda>t. (int (st_size t) - 1, w\<lparr>client_table := t\<rparr>)) (fts_stack_push client (client_table w))"

definition client_table_remove :: "int \<Rightarrow> world \<Rightarrow> world option" where
  "client_table_remove i w =
     (if i < 0 then None
      else map_option (\<lambda>t. w\<lparr>client_table := t\<rparr>) (buffer_write (nat i) 0 (client_table w)))"

definition client_table_get :: "world \<Rightarrow> int \<Rightarrow> addr option" where
  "client_table_get w i = (if i < 0 then None else buffer_read (nat i) (client_table w))"

definition object_get_client :: "world \<Rightarrow> addr \<Rightarrow> addr option" where
  "object_get_client w obj =
     (let index = fts_object_get_client_id w obj
      in if index < 0 \<or> index \<ge> int (st_size (client_table w)) then Some 0 else client_table_get w index)"

subsection \<open>Object table\<close>

definition fts_get_object :: "atom \<Rightarrow> addr option" where
  "fts_get_object a = (case a of AObject x \<Rightarrow> Some x | _ \<Rightarrow> None)"

definition client_get_object :: "class_env \<Rightarrow> hashtable \<Rightarrow> int32 \<Rightarrow> addr option" where
  "client_get_object E table i =
     (case fts_hashtable_get E table (AInt i) of None \<Rightarrow> Some 0 | Some v \<Rightarrow> fts_get_object v)"

definition client_release_object :: "class_env \<Rightarrow> addr \<Rightarrow> addr \<Rightarrow> world \<Rightarrow> world option" where
  "client_release_object E this object w =
     map_option
       (\<lambda>cl. fts_object_set_client_id object FTS_NO_ID (set_client this (cl\<lparr>object_table :=
          snd (fts_hashtable_remove E (object_table cl) (AInt (word_of_int (fts_object_get_id w object))))\<rparr>) w))
       (w_clients w this)"

definition client_register_object :: "class_env \<Rightarrow> addr \<Rightarrow> addr \<Rightarrow> world \<Rightarrow> world option" where
  "client_register_object E this object w =
     (case w_clients w this of
        None \<Rightarrow> None
      | Some cl \<Rightarrow>
          let object_id = fts_object_get_id w object;
              (object_id, cl, w) =
                (if object_id < 0
                 then (sint (object_id_count cl), cl\<lparr>object_id_count := object_id_count cl + 2\<rparr>,
                       fts_object_set_id object (sint (object_id_count cl)) w)
                 else (object_id, cl, w));
              t = snd (fts_hashtable_put E (object_table cl) (AInt (word_of_int object_id)) (AObject object))
          in Some (fts_object_set_client_id object (client_id cl) (set_client this (cl\<lparr>object_table := t\<rparr>) w)))"

subsection \<open>Receiving\<close>

definition client_end_object_action :: "class_env \<Rightarrow> byte \<Rightarrow> client \<times> process \<Rightarrow> (client \<times> process) option" where
  "client_end_object_action E input d =
     do { d1 \<leftarrow> push_buffer input d;
          (i, p, g) \<leftarrow> take_int d1;
          obj \<leftarrow> client_get_object E (object_table p) i;
          push_arg (if obj = 0 then AVoid else AObject obj) (p, g) }"

text \<open>
  \<open>argv\<close> is read whatever the number of arguments is: slots of earlier messages, or slots that
  were never written. An atom that is not an object makes a wild target.
\<close>

definition client_end_message_action :: "byte \<Rightarrow> client \<times> process \<Rightarrow> (client \<times> process) option" where
  "client_end_message_action input = (\<lambda>(p, g).
     do { a0 \<leftarrow> buffer_read 0 (input_args p);
          a1 \<leftarrow> buffer_read 1 (input_args p);
          let q = p\<lparr>input_args := fts_stack_clear (input_args p)\<rparr>;
          if a0 = AVoid then Some (q, g)
          else do {
            target \<leftarrow> fts_get_object a0;
            let m = \<lparr>msg_target = target, msg_selector = a1, msg_argc = int (st_size (input_args p)) - 2,
                     msg_args = drop 2 (elems (input_args p))\<rparr>;
            Some (if target \<noteq> 0 then q\<lparr>client_messages := client_messages p @ [m]\<rparr> else q, g) } })"

definition client_state_next :: "class_env \<Rightarrow> (nat \<Rightarrow> addr) \<Rightarrow> tokenizer \<Rightarrow>
  byte \<Rightarrow> client \<times> process \<Rightarrow> (client \<times> process) option" where
  "client_state_next E M T = state_next E M T (client_end_object_action E) client_end_message_action"

primrec receive_loop :: "class_env \<Rightarrow> (nat \<Rightarrow> addr) \<Rightarrow> tokenizer \<Rightarrow> byte list \<Rightarrow>
  client \<times> process \<Rightarrow> (client \<times> process) option" where
  "receive_loop E M T [] d = Some d"
| "receive_loop E M T (b # bs) d = do { d1 \<leftarrow> client_state_next E M T b d; receive_loop E M T bs d1 }"

text \<open>An empty read stops the client: its stream is destroyed.\<close>

definition client_receive :: "class_env \<Rightarrow> (nat \<Rightarrow> addr) \<Rightarrow> tokenizer \<Rightarrow> byte list \<Rightarrow>
  client \<times> process \<Rightarrow> (client \<times> process) option" where
  "client_receive E M T buffer d =
     (if length buffer = 0 then Some ((fst d)\<lparr>client_stream := None\<rparr>, snd d) else receive_loop E M T buffer d)"

subsection \<open>Sending\<close>

definition client_write_int :: "int32 \<Rightarrow> client \<Rightarrow> client option" where
  "client_write_int v p = do { p1 \<leftarrow> put_byte FTS_PROTOCOL_INT p; put_int v p1 }"

definition client_write_float :: "double \<Rightarrow> client \<Rightarrow> client option" where
  "client_write_float v p =
     do { p1 \<leftarrow> put_byte FTS_PROTOCOL_FLOAT p; put_bytes (swap_bytes (store_le 8 (dbits v)) 8) p1 }"

definition client_write_symbol :: "(addr \<Rightarrow> string option) \<Rightarrow> addr \<Rightarrow> client \<Rightarrow> client option" where
  "client_write_symbol mem s p =
     (let index = (s mod 2 ^ 32) mod length (output_cache p)
      in if output_cache p ! index = s
         then do { p1 \<leftarrow> put_byte FTS_PROTOCOL_SYMBOL_INDEX p; put_int (of_nat index) p1 }
         else do { let p0 = p\<lparr>output_cache := (output_cache p)[index := s]\<rparr>;
                   p1 \<leftarrow> put_byte FTS_PROTOCOL_SYMBOL_CACHE p0;
                   p2 \<leftarrow> put_int (of_nat index) p1;
                   name \<leftarrow> mem s;
                   p3 \<leftarrow> put_bytes (map byte_of_char name) p2;
                   put_byte 0 p3 })"

definition client_write_string :: "string \<Rightarrow> client \<Rightarrow> client option" where
  "client_write_string s p =
     do { p1 \<leftarrow> put_byte FTS_PROTOCOL_STRING p;
          p2 \<leftarrow> put_bytes (map byte_of_char s) p1;
          put_byte 0 p2 }"

definition client_write_object :: "(addr \<Rightarrow> int32) \<Rightarrow> addr \<Rightarrow> client \<Rightarrow> client option" where
  "client_write_object oid obj p = do { p1 \<leftarrow> put_byte FTS_PROTOCOL_OBJECT p; put_int (oid obj) p1 }"

definition obj_ids :: "world \<Rightarrow> addr \<Rightarrow> int32" where
  "obj_ids w x = word_of_int (fts_object_get_id w x)"

text \<open>The guard shared by the output functions: no client, or no stream, means nothing is done.\<close>

definition on_client :: "(client \<Rightarrow> client option) \<Rightarrow> addr \<Rightarrow> world \<Rightarrow> world option" where
  "on_client f obj w =
     do { c \<leftarrow> object_get_client w obj;
          if c = 0 then Some w
          else do { cl \<leftarrow> w_clients w c;
                    if client_stream cl = None then Some w
                    else map_option (\<lambda>cl. set_client c cl w) (f cl) } }"

definition fts_client_start_message :: "addr \<Rightarrow> addr \<Rightarrow> world \<Rightarrow> world option" where
  "fts_client_start_message obj selector w =
     on_client (\<lambda>cl. do { cl1 \<leftarrow> client_write_object (obj_ids w) obj cl;
                          client_write_symbol (w_names w) selector cl1 }) obj w"

definition fts_client_add_int :: "addr \<Rightarrow> int32 \<Rightarrow> world \<Rightarrow> world option" where
  "fts_client_add_int obj v w = on_client (client_write_int v) obj w"

definition fts_client_add_symbol :: "addr \<Rightarrow> addr \<Rightarrow> world \<Rightarrow> world option" where
  "fts_client_add_symbol obj v w = on_client (client_write_symbol (w_names w) v) obj w"

definition fts_client_add_string :: "addr \<Rightarrow> string \<Rightarrow> world \<Rightarrow> world option" where
  "fts_client_add_string obj v w = on_client (client_write_string v) obj w"

definition fts_client_add_object :: "addr \<Rightarrow> addr \<Rightarrow> world \<Rightarrow> world option" where
  "fts_client_add_object obj v w = on_client (client_write_object (obj_ids w) v) obj w"

primrec client_write_atoms :: "world \<Rightarrow> atom list \<Rightarrow> client \<Rightarrow> client option" where
  "client_write_atoms w [] cl = Some cl"
| "client_write_atoms w (a # at) cl =
     do { cl1 \<leftarrow> (case a of
                   AInt v \<Rightarrow> client_write_int v cl
                 | AFloat v \<Rightarrow> client_write_float v cl
                 | ASymbol s \<Rightarrow> client_write_symbol (w_names w) s cl
                 | AString s \<Rightarrow> client_write_string s cl
                 | AObject x \<Rightarrow> client_write_object (obj_ids w) x cl
                 | _ \<Rightarrow> Some cl);
          client_write_atoms w at cl1 }"

definition fts_client_add_atoms :: "addr \<Rightarrow> atom list \<Rightarrow> world \<Rightarrow> world option" where
  "fts_client_add_atoms obj at w = on_client (client_write_atoms w at) obj w"

definition fts_client_done_message :: "addr \<Rightarrow> world \<Rightarrow> world option" where
  "fts_client_done_message obj w =
     do { c \<leftarrow> object_get_client w obj;
          if c = 0 then Some w
          else do { cl \<leftarrow> w_clients w c;
                    (case client_stream cl of
                       None \<Rightarrow> Some w
                     | Some st \<Rightarrow>
                         map_option (\<lambda>cl. (set_client c (cl\<lparr>output_buffer := fts_stack_clear (output_buffer cl)\<rparr>) w)
                               \<lparr>w_output := w_output w @ [(st, elems (output_buffer cl))]\<rparr>)
                           (put_byte FTS_PROTOCOL_END_OF_MESSAGE cl)) } }"

definition fts_client_send_message :: "addr \<Rightarrow> addr \<Rightarrow> atom list \<Rightarrow> world \<Rightarrow> world option" where
  "fts_client_send_message obj selector at w =
     (if fts_object_has_client w obj
      then do { c \<leftarrow> object_get_client w obj;
                cl \<leftarrow> (if c = 0 then None else w_clients w c);
                if client_stream cl = None then Some w
                else do { w1 \<leftarrow> fts_client_start_message obj selector w;
                          w2 \<leftarrow> fts_client_add_atoms obj at w1;
                          fts_client_done_message obj w2 } }
      else Some w)"

subsection \<open>Registration from outside\<close>

text \<open>\<open>patcher\<close> is the object's patcher, 0 when it has none.\<close>

definition fts_client_register_object :: "class_env \<Rightarrow> (addr \<Rightarrow> addr) \<Rightarrow> addr \<Rightarrow> int \<Rightarrow> world \<Rightarrow> world option" where
  "fts_client_register_object E patcher obj i w =
     do { k \<leftarrow> (if i \<le> FTS_NO_ID
               then (if patcher obj = 0 then None else Some (fts_object_get_client_id w (patcher obj)))
               else Some i);
          c \<leftarrow> client_table_get w k;
          if c = 0 then Some w else client_register_object E c obj w }"

definition fts_client_release_object ::
  "class_env \<Rightarrow> (addr \<Rightarrow> addr) \<Rightarrow> addr \<Rightarrow> addr \<Rightarrow> world \<Rightarrow> world option" where
  "fts_client_release_object E patcher s_remove_object obj w =
     (if fts_object_has_client w obj
      then do { c \<leftarrow> client_table_get w (fts_object_get_client_id w obj);
                if c = 0 then Some w
                else do { w1 \<leftarrow> (if patcher obj \<noteq> 0 \<and> fts_object_has_client w (patcher obj)
                               then fts_client_send_message (patcher obj) s_remove_object [AObject obj] w
                               else Some w);
                          client_release_object E c obj w1 } }
      else Some w)"

text \<open>\<open>client_new_object\<close>: \<open>newobj\<close> is the result of \<open>fts_eval_object_description\<close>, with its error check.\<close>

definition client_new_object :: "class_env \<Rightarrow> addr \<Rightarrow> addr \<Rightarrow> int \<Rightarrow> addr option \<Rightarrow> world \<Rightarrow> world option" where
  "client_new_object E this parent i newobj w =
     (if parent = 0 \<or> i < 0 then Some w
      else (case newobj of
              None \<Rightarrow> Some w
            | Some x \<Rightarrow> client_register_object E this x (fts_object_set_id x i w)))"

definition client_init :: "class_env \<Rightarrow> addr \<Rightarrow> addr \<Rightarrow> addr \<Rightarrow> world \<Rightarrow> world option" where
  "client_init E this stream root w =
     do { (i, w1) \<leftarrow> client_table_add this w;
          let cl = \<lparr>pr_state = q_initial, input_args = fts_stack_init, input_buffer = fts_stack_init,
                    input_cache = symbol_cache_init, output_buffer = fts_stack_init,
                    output_cache = symbol_cache_init, client_id = i,
                    object_table = fts_hashtable_init FTS_HASHTABLE_MEDIUM, object_id_count = 17,
                    root_patcher = root, client_stream = Some stream, client_messages = []\<rparr>;
          w2 \<leftarrow> client_register_object E this root (fts_object_set_id root FTS_OBJECT_ID_ROOT (set_client this cl w1));
          client_register_object E this this (fts_object_set_id this FTS_OBJECT_ID_CLIENT w2) }"

definition client_delete :: "addr \<Rightarrow> world \<Rightarrow> world option" where
  "client_delete this w =
     do { cl \<leftarrow> w_clients w this;
          w1 \<leftarrow> client_table_remove (client_id cl) w;
          Some (w1\<lparr>w_clients := (w_clients w1)(this := None)\<rparr>) }"

subsection \<open>The client as an instance of the protocol\<close>

definition lookup_object :: "class_env \<Rightarrow> hashtable \<Rightarrow> int32 \<Rightarrow> atom" where
  "lookup_object E t i = (case client_get_object E t i of None \<Rightarrow> AVoid | Some x \<Rightarrow> if x = 0 then AVoid else AObject x)"

text \<open>The object table of the fields that a client adds to a protocol.\<close>

definition ext_table :: "unit client_ext \<Rightarrow> hashtable" where
  "ext_table m = object_table (proto.extend binary_protocol_init m)"

lemma ext_table_more [simp]: "ext_table (proto.more p) = object_table p"
  by (cases p) (simp add: ext_table_def proto.extend_def binary_protocol_init_def)

definition objects_only :: "class_env \<Rightarrow> hashtable \<Rightarrow> bool" where
  "objects_only E t \<longleftrightarrow> (\<forall>i. client_get_object E t i \<noteq> None)"

interpretation cl: wire_decoder E M T "client_end_object_action E" client_end_message_action
  "\<lambda>m i. [lookup_object E (ext_table m) i]" "\<lambda>m. objects_only E (ext_table m)" for E M T
proof
  fix m :: "unit client_ext" and v :: atom and i :: int32 and s :: addr
  assume "v \<in> set [lookup_object E (ext_table m) i]"
  then show "v \<noteq> ASymbol s" by (auto simp: lookup_object_def split: option.splits if_splits)
next
  fix p :: client and as :: "atom list" and bs :: "byte list" and b :: byte and g :: process
  assume a: "objects_only E (ext_table (proto.more p))" "stack_is (input_args p) as"
    "stack_is (input_buffer p) bs" "length bs = 3"
  let ?i = "load_le (rev (bs @ [b])) :: int32"
  obtain s1 where s1: "push_buffer b (p, g) = Some (p\<lparr>input_buffer := s1\<rparr>, g)" "stack_is s1 (bs @ [b])"
    using push_buffer_ok [OF a(3)] by blast
  obtain s2 where s2: "take_int (p\<lparr>input_buffer := s1\<rparr>, g) = Some (?i, p\<lparr>input_buffer := s2\<rparr>, g)" "stack_is s2 (rev (bs @ [b]))"
    using take_int_ok [of "p\<lparr>input_buffer := s1\<rparr>" "bs @ [b]" "[]" g] s1(2) a(4) by auto
  obtain x where x: "client_get_object E (object_table p) ?i = Some x"
    using a(1) by (auto simp: objects_only_def)
  obtain t where t: "push_arg (lookup_object E (object_table p) ?i) (p\<lparr>input_buffer := s2\<rparr>, g) =
      Some (p\<lparr>input_buffer := s2, input_args := t\<rparr>, g)" "stack_is t (as @ [lookup_object E (object_table p) ?i])"
    using push_arg_ok [of "p\<lparr>input_buffer := s2\<rparr>" as "lookup_object E (object_table p) ?i" g] a(2) by auto
  have "client_end_object_action E b (p, g) = Some (p\<lparr>input_buffer := s2, input_args := t\<rparr>, g)"
    using s1(1) s2(1) x t(1) by (simp add: client_end_object_action_def lookup_object_def)
  then show "\<exists>s t. client_end_object_action E b (p, g) = Some (p\<lparr>input_buffer := s, input_args := t\<rparr>, g) \<and>
      (\<exists>cs. stack_is s cs) \<and> stack_is t (as @ [lookup_object E (ext_table (proto.more p)) ?i])"
    using s2(2) t(2) by auto
qed

lemma receive_loop_runs: "runs (cl.step E M T) bs d d' \<Longrightarrow> receive_loop E M T bs d = Some d'"
  by (induction bs arbitrary: d) (auto simp: client_state_next_def split: option.splits)

lemma receive_loop_append:
  "receive_loop E M T (bs @ cs) d = Option.bind (receive_loop E M T bs d) (receive_loop E M T cs)"
  by (induction bs arbitrary: d) (simp_all add: Option.bind_assoc)

subsection \<open>Sending\<close>

lemma client_write_protocol:
  "client_write_int = fts_binary_protocol_add_int"
  "client_write_float = fts_binary_protocol_add_float"
  "client_write_symbol = fts_binary_protocol_add_symbol"
  "client_write_string = fts_binary_protocol_add_string"
  "client_write_object = fts_binary_protocol_add_object"
  by (intro ext, simp_all add: client_write_int_def fts_binary_protocol_add_int_def client_write_float_def
      fts_binary_protocol_add_float_def client_write_symbol_def fts_binary_protocol_add_symbol_def
      client_write_string_def fts_binary_protocol_add_string_def client_write_object_def
      fts_binary_protocol_add_object_def)+

lemma client_write_atoms_protocol:
  "client_write_atoms w at = fts_binary_protocol_add_atoms (w_names w) (obj_ids w) at"
  by (induction at) (auto intro!: ext simp: client_write_protocol split: atom.split)

lemma add_atoms_Nil: "fts_binary_protocol_add_atoms mem oid [] = Some"
  by (rule ext) simp

lemma add_atoms_symbol: "fts_binary_protocol_add_atoms mem oid [ASymbol s] = fts_binary_protocol_add_symbol mem s"
  by (rule ext) (simp add: add_atoms_Nil Option.bind_runit)

text \<open>\<open>obj\<close> belongs to the client \<open>cl\<close> at address \<open>c\<close>, which has a stream.\<close>

definition obj_connected :: "world \<Rightarrow> addr \<Rightarrow> addr \<Rightarrow> client \<Rightarrow> addr \<Rightarrow> bool" where
  "obj_connected w obj c cl st \<longleftrightarrow> fts_object_has_client w obj \<and> object_get_client w obj = Some c \<and> c \<noteq> 0 \<and>
     w_clients w c = Some cl \<and> client_stream cl = Some st"

lemma set_client_simps [simp]:
  "object_get_client (set_client c cl w) obj = object_get_client w obj"
  "w_clients (set_client c cl w) = (w_clients w)(c \<mapsto> cl)"
  "w_output (set_client c cl w) = w_output w" "w_names (set_client c cl w) = w_names w"
  "w_flags (set_client c cl w) = w_flags w" "client_table (set_client c cl w) = client_table w"
  "set_client c cl' (set_client c cl w) = set_client c cl' w"
  by (simp_all add: set_client_def object_get_client_def fts_object_get_client_id_def client_table_get_def Let_def)

lemma obj_ids_set_client [simp]: "obj_ids (set_client c cl w) = obj_ids w"
  by (rule ext) (simp add: obj_ids_def fts_object_get_id_def)

lemma on_client_connected:
  "obj_connected w obj c cl st \<Longrightarrow> on_client f obj w = map_option (\<lambda>cl. set_client c cl w) (f cl)"
  by (simp add: obj_connected_def on_client_def)

lemma connected_set:
  "obj_connected w obj c cl st \<Longrightarrow> client_stream cl' = Some st \<Longrightarrow> obj_connected (set_client c cl' w) obj c cl' st"
  by (simp add: obj_connected_def fts_object_has_client_def fts_object_get_client_id_def)

lemma send_message_spec:
  assumes w: "obj_connected w obj c cl st" and buf: "stack_is (output_buffer cl) []" "0 < length (output_cache cl)"
    and at: "sendable (w_names w) (ASymbol selector)" "\<forall>a \<in> set at. sendable (w_names w) a"
  defines "msg \<equiv> AObject obj # ASymbol selector # at"
  shows "\<exists>s. fts_client_send_message obj selector at w =
      Some ((set_client c (cl\<lparr>output_cache := fold (\<lambda>a oc. cache_after oc a) msg (output_cache cl), output_buffer := s\<rparr>) w)
        \<lparr>w_output := w_output w @ [(st, atoms_bytes (w_names w) (obj_ids w) (output_cache cl) msg @ [FTS_PROTOCOL_END_OF_MESSAGE])]\<rparr>) \<and>
      stack_is s []"
proof -
  let ?add = "fts_binary_protocol_add_atoms (w_names w) (obj_ids w)"
  let ?oc = "fold (\<lambda>a oc. cache_after oc a) msg (output_cache cl)"
  let ?bs = "atoms_bytes (w_names w) (obj_ids w) (output_cache cl) msg"
  have stream: "client_stream cl = Some st" using w by (simp add: obj_connected_def)
  let ?pre = "[AObject obj, ASymbol selector]"
  obtain s1 where s1: "?add ?pre cl = Some (cl\<lparr>output_cache := cache_after (output_cache cl) (ASymbol selector), output_buffer := s1\<rparr>)"
    "stack_is s1 (atoms_bytes (w_names w) (obj_ids w) (output_cache cl) ?pre)"
    using add_atoms_spec [OF buf, of ?pre "w_names w" "obj_ids w"] at(1) by (auto simp del: sendable.simps(1))
  let ?cl1 = "cl\<lparr>output_cache := cache_after (output_cache cl) (ASymbol selector), output_buffer := s1\<rparr>"
  have oc: "?oc = fold (\<lambda>a oc. cache_after oc a) at (output_cache ?cl1)"
    and bs: "?bs = atoms_bytes (w_names w) (obj_ids w) (output_cache cl) ?pre @
      atoms_bytes (w_names w) (obj_ids w) (output_cache ?cl1) at"
    by (simp_all add: msg_def del: atom_bytes.simps(3) cache_after.simps(1))
  obtain s where s: "?add at ?cl1 = Some (cl\<lparr>output_cache := ?oc, output_buffer := s\<rparr>)" "stack_is s ?bs"
  proof -
    have "stack_is (output_buffer ?cl1) (atoms_bytes (w_names w) (obj_ids w) (output_cache cl) ?pre)"
      using s1(2) by simp
    moreover have "0 < length (output_cache ?cl1)" using buf(2) by simp
    ultimately have "\<exists>s. ?add at ?cl1 = Some (?cl1\<lparr>output_cache := ?oc, output_buffer := s\<rparr>) \<and> stack_is s ?bs"
      unfolding oc bs by (rule add_atoms_spec [OF _ _ at(2)])
    then show ?thesis using that by auto
  qed
  let ?cl2 = "cl\<lparr>output_cache := ?oc, output_buffer := s\<rparr>"
  obtain s2 where s2: "put_byte FTS_PROTOCOL_END_OF_MESSAGE ?cl2 = Some (?cl2\<lparr>output_buffer := s2\<rparr>)"
    "stack_is s2 (?bs @ [FTS_PROTOCOL_END_OF_MESSAGE])"
    using stack_is_push [OF s(2), of FTS_PROTOCOL_END_OF_MESSAGE] by (auto simp: put_byte_def)
  have cl1: "client_write_object (obj_ids w) obj cl \<bind> client_write_symbol (w_names w) selector = Some ?cl1"
    using s1(1) by (simp add: client_write_protocol add_atoms_symbol [of _ "obj_ids w", symmetric] del: cache_after.simps(1))
  have str1: "client_stream ?cl1 = Some st" using stream by simp
  have w1: "obj_connected (set_client c ?cl1 w) obj c ?cl1 st" by (rule connected_set [OF w str1])
  have w2: "obj_connected (set_client c ?cl2 w) obj c ?cl2 st" by (rule connected_set [OF w]) (simp add: stream)
  have "fts_client_start_message obj selector w = Some (set_client c ?cl1 w)"
    using cl1 by (simp add: fts_client_start_message_def on_client_connected [OF w])
  moreover have "fts_client_add_atoms obj at (set_client c ?cl1 w) = Some (set_client c ?cl2 w)"
    unfolding fts_client_add_atoms_def on_client_connected [OF w1] client_write_atoms_protocol 
    by (simp only: set_client_simps obj_ids_set_client s(1) option.map)
  moreover have "fts_client_done_message obj (set_client c ?cl2 w) =
      Some ((set_client c (?cl2\<lparr>output_buffer := fts_stack_clear s2\<rparr>) w)
        \<lparr>w_output := w_output w @ [(st, ?bs @ [FTS_PROTOCOL_END_OF_MESSAGE])]\<rparr>)"
    using w2 s2 by (simp add: fts_client_done_message_def obj_connected_def stack_is_def)
  ultimately have "fts_client_send_message obj selector at w =
      Some ((set_client c (?cl2\<lparr>output_buffer := fts_stack_clear s2\<rparr>) w)
        \<lparr>w_output := w_output w @ [(st, ?bs @ [FTS_PROTOCOL_END_OF_MESSAGE])]\<rparr>)"
    using w by (simp add: fts_client_send_message_def obj_connected_def)
  then show ?thesis using stack_is_clear [OF s2(2)]
    by (intro exI [of _ "fts_stack_clear s2"]) simp
qed

subsection \<open>From a client to another\<close>

text \<open>What the objects of a message become on the other side.\<close>

definition delivered :: "class_env \<Rightarrow> hashtable \<Rightarrow> (addr \<Rightarrow> int32) \<Rightarrow> atom list \<Rightarrow> atom list" where
  "delivered E t oid at = concat (map (received (\<lambda>i. [lookup_object E t i]) oid) at)"

lemma more_eq:
  fixes p q :: client
  assumes "proto.more p = proto.more q"
  shows "object_table p = object_table q" "client_messages p = client_messages q"
  using assms by (cases p; cases q; simp)+

lemma connected_output [simp]:
  "object_get_client (w\<lparr>w_output := out\<rparr>) obj = object_get_client w obj"
  "fts_object_has_client (w\<lparr>w_output := out\<rparr>) obj = fts_object_has_client w obj"
  "fts_object_has_client (set_client c cl w) obj = fts_object_has_client w obj"
  by (simp_all add: object_get_client_def fts_object_get_client_id_def client_table_get_def Let_def
      fts_object_has_client_def)

lemma end_message_run:
  assumes d: "decoder_at E M mem oc (AObject x # a1 # as) (p, g)" and x: "x \<noteq> 0"
  shows "\<exists>p'. runs (cl.step E M T) [FTS_PROTOCOL_END_OF_MESSAGE] (p, g) (p', g) \<and>
      decoder_at E M mem oc [] (p', g) \<and>
      client_messages p' = client_messages p @
        [\<lparr>msg_target = x, msg_selector = a1, msg_argc = int (length as), msg_args = as\<rparr>] \<and>
      object_table p' = object_table p"
proof -
  have st: "stack_is (input_args p) (AObject x # a1 # as)" "pr_state p = q_initial"
    using d by (simp_all add: decoder_at_def)
  have reads: "buffer_read 0 (input_args p) = Some (AObject x)" "buffer_read 1 (input_args p) = Some a1"
    "st_size (input_args p) = length as + 2" "elems (input_args p) = AObject x # a1 # as"
    using stack_is_read [OF st(1), of 0] stack_is_read [OF st(1), of 1] stack_is_size [OF st(1)] st(1)
    by (simp_all add: stack_is_def)
  let ?p = "p\<lparr>pr_state := q_initial, input_args := fts_stack_clear (input_args p),
      client_messages := client_messages p @
        [\<lparr>msg_target = x, msg_selector = a1, msg_argc = int (length as), msg_args = as\<rparr>]\<rparr>"
  have "cl.step E M T FTS_PROTOCOL_END_OF_MESSAGE (p, g) = Some (?p, g)"
    using st(2) x reads
    by (simp add: cl.step_initial moveto_def client_end_message_action_def fts_get_object_def)
  moreover have "decoder_at E M mem oc [] (?p, g)"
    using d stack_is_clear [OF st(1)] by (simp add: decoder_at_def)
  ultimately show ?thesis by (intro exI [of _ ?p]) (simp add: q_initial_def)
qed

lemma message_roundtrip:
  assumes w: "obj_connected w obj c cl st" and buf: "stack_is (output_buffer cl) []"
    and at: "sendable (w_names w) (ASymbol selector)" "\<forall>a \<in> set at. sendable (w_names w) a"
    and d: "decoder_at E M (w_names w) (output_cache cl) [] d"
    and peer: "objects_only E (object_table (fst d))"
      "client_get_object E (object_table (fst d)) (obj_ids w obj) = Some x" "x \<noteq> 0"
  shows "\<exists>w' cl' bs d' sel args. fts_client_send_message obj selector at w = Some w' \<and>
      obj_connected w' obj c cl' st \<and> stack_is (output_buffer cl') [] \<and> w_output w' = w_output w @ [(st, bs)] \<and>
      receive_loop E M T bs d = Some d' \<and> decoder_at E M (w_names w') (output_cache cl') [] d' \<and>
      object_table (fst d') = object_table (fst d) \<and>
      client_messages (fst d') = client_messages (fst d) @
        [\<lparr>msg_target = x, msg_selector = sel, msg_argc = int (length args), msg_args = args\<rparr>] \<and>
      same_atom (w_names w) (sy_mem (pc_symtab (snd d'))) (ASymbol selector) sel \<and>
      list_all2 (same_atom (w_names w) (sy_mem (pc_symtab (snd d'))))
        (delivered E (object_table (fst d)) (obj_ids w) at) args"
proof -
  let ?msg = "AObject obj # ASymbol selector # at"
  let ?oc = "fold (\<lambda>a oc. cache_after oc a) ?msg (output_cache cl)"
  let ?bs = "atoms_bytes (w_names w) (obj_ids w) (output_cache cl) ?msg"
  have "0 < length (output_cache cl)" using d by (simp add: decoder_at_def cache_sync_def)
  then obtain s where s: "fts_client_send_message obj selector at w =
      Some ((set_client c (cl\<lparr>output_cache := ?oc, output_buffer := s\<rparr>) w)
        \<lparr>w_output := w_output w @ [(st, ?bs @ [FTS_PROTOCOL_END_OF_MESSAGE])]\<rparr>)" "stack_is s []"
    using send_message_spec [OF w buf _ at] by auto
  have all: "\<forall>a \<in> set ?msg. sendable (w_names w) a" using at by simp
  obtain d1 where d1: "runs (cl.step E M T) ?bs d d1"
    "cl.decoded E M (w_names w) ?oc [] d (delivered E (object_table (fst d)) (obj_ids w) ?msg) d1"
    using cl.decode_atoms [OF d all, where T = T and oid = "obj_ids w"] peer(1) by (auto simp: delivered_def)
  have dl: "delivered E (object_table (fst d)) (obj_ids w) ?msg =
      AObject x # ASymbol selector # delivered E (object_table (fst d)) (obj_ids w) at"
    using peer(2,3) by (simp add: delivered_def received_def lookup_object_def)
  obtain ws where ws: "decoder_at E M (w_names w) ?oc ws d1"
    "list_all2 (same_atom (w_names w) (sy_mem (pc_symtab (snd d1))))
      (AObject x # ASymbol selector # delivered E (object_table (fst d)) (obj_ids w) at) ws"
    using d1(2) by (auto simp: cl.decoded_def dl)
  obtain sel args where args: "ws = AObject x # sel # args"
    "same_atom (w_names w) (sy_mem (pc_symtab (snd d1))) (ASymbol selector) sel"
    "list_all2 (same_atom (w_names w) (sy_mem (pc_symtab (snd d1))))
        (delivered E (object_table (fst d)) (obj_ids w) at) args"
    using ws(2) by (auto simp: list_all2_Cons1 same_atom_def)
  obtain p1 g1 where pg: "d1 = (p1, g1)" by (cases d1)
  obtain p2 where p2: "runs (cl.step E M T) [FTS_PROTOCOL_END_OF_MESSAGE] (p1, g1) (p2, g1)"
    "decoder_at E M (w_names w) ?oc [] (p2, g1)" "client_messages p2 = client_messages p1 @
        [\<lparr>msg_target = x, msg_selector = sel, msg_argc = int (length args), msg_args = args\<rparr>]"
    "object_table p2 = object_table p1"
    using end_message_run [of E M "w_names w" ?oc x sel args p1 g1] ws(1) peer(3) args(1) pg by auto
  have more: "object_table p1 = object_table (fst d)" "client_messages p1 = client_messages (fst d)"
    using d1(2) pg more_eq [of p1 "fst d"] by (simp_all add: cl.decoded_def frame_def)
  have "object_table p2 = object_table p1" using p2(4) by simp
  have "runs (cl.step E M T) (?bs @ [FTS_PROTOCOL_END_OF_MESSAGE]) d (p2, g1)"
    using d1(1) p2(1) pg runs_append by blast
  then have rec: "receive_loop E M T (?bs @ [FTS_PROTOCOL_END_OF_MESSAGE]) d = Some (p2, g1)"
    by (rule receive_loop_runs)
  let ?cl = "cl\<lparr>output_cache := ?oc, output_buffer := s\<rparr>"
  let ?w = "(set_client c ?cl w)\<lparr>w_output := w_output w @ [(st, ?bs @ [FTS_PROTOCOL_END_OF_MESSAGE])]\<rparr>"
  have "obj_connected ?w obj c ?cl st"
    using connected_set [OF w, of ?cl] w by (simp add: obj_connected_def connected_output)
  then show ?thesis
    using s rec p2 more args pg
    by (intro exI [of _ ?w] exI [of _ ?cl] exI [of _ "?bs @ [FTS_PROTOCOL_END_OF_MESSAGE]"] exI [of _ "(p2, g1)"]
        exI [of _ sel] exI [of _ args]) simp
qed

subsection \<open>Registration of objects\<close>

lemma flags_simps [simp]:
  "w_flags (fts_object_set_id x i w) = (w_flags w)(x := (w_flags w x)\<lparr>of_id := word_of_int i\<rparr>)"
  "w_flags (fts_object_set_client_id x i w) = (w_flags w)(x := (w_flags w x)\<lparr>of_client := word_of_int i\<rparr>)"
  "w_clients (fts_object_set_id x i w) = w_clients w" "w_clients (fts_object_set_client_id x i w) = w_clients w"
  "client_table (fts_object_set_id x i w) = client_table w"
  "client_table (fts_object_set_client_id x i w) = client_table w"
  by (simp_all add: fts_object_set_id_def fts_object_set_client_id_def)

lemma sint_26: "0 \<le> i \<Longrightarrow> i < 2 ^ 25 \<Longrightarrow> sint (word_of_int i :: 26 word) = i"
  by (simp add: signed_of_int signed_take_bit_int_eq_self)

lemma sint_32: "- (2 ^ 31) \<le> i \<Longrightarrow> i < 2 ^ 31 \<Longrightarrow> sint (word_of_int i :: int32) = i"
  by (simp add: signed_of_int signed_take_bit_int_eq_self)

lemma get_object_put:
  assumes "ht_inv E t"
  shows "client_get_object E (snd (fts_hashtable_put E t (AInt i) (AObject x))) j =
    (if i = j then Some x else client_get_object E t j)"
  using ht.lookup_update [OF assms, of "AInt i" "AInt j" "AObject x"]
  by (simp add: client_get_object_def fts_get_object_def)

lemma get_object_remove:
  assumes "ht_inv E t"
  shows "client_get_object E (snd (fts_hashtable_remove E t (AInt i))) j =
    (if i = j then Some 0 else client_get_object E t j)"
  using ht.lookup_delete [OF assms, of "AInt i" "AInt j"] by (simp add: client_get_object_def)

text \<open>The identifier that a registration gives to an object: its own, or the counter.\<close>

definition new_id :: "world \<Rightarrow> client \<Rightarrow> addr \<Rightarrow> int" where
  "new_id w cl x = (if fts_object_get_id w x < 0 then sint (object_id_count cl) else fts_object_get_id w x)"

lemma register_object_spec:
  assumes c: "w_clients w c = Some cl" and inv: "ht_inv E (object_table cl)"
    and room: "0 \<le> sint (object_id_count cl)" "sint (object_id_count cl) < 2 ^ 25"
  shows "\<exists>w' cl'. client_register_object E c x w = Some w' \<and> w_clients w' = (w_clients w)(c \<mapsto> cl') \<and>
      ht_inv E (object_table cl') \<and> client_table w' = client_table w \<and>
      (\<forall>i. client_get_object E (object_table cl') i =
        (if i = word_of_int (new_id w cl x) then Some x else client_get_object E (object_table cl) i)) \<and>
      (\<forall>y. fts_object_get_id w' y = (if y = x then new_id w cl x else fts_object_get_id w y)) \<and>
      fts_object_get_client_id w' x = sint (word_of_int (client_id cl) :: 4 word) \<and>
      (\<forall>y. y \<noteq> x \<longrightarrow> fts_object_get_client_id w' y = fts_object_get_client_id w y) \<and>
      object_id_count cl' = object_id_count cl + (if fts_object_get_id w x < 0 then 2 else 0) \<and>
      client_id cl' = client_id cl"
proof (cases "fts_object_get_id w x < 0")
  case True
  then show ?thesis
    using c ht.inv_update [OF inv, of "AInt (word_of_int (sint (object_id_count cl)))" "AObject x"]
      get_object_put [OF inv, of "word_of_int (sint (object_id_count cl))" x] sint_26 [OF room]
    by (auto simp: client_register_object_def new_id_def Let_def fts_object_get_id_def fts_object_get_client_id_def)
next
  case False
  then show ?thesis
    using c ht.inv_update [OF inv, of "AInt (word_of_int (fts_object_get_id w x))" "AObject x"]
      get_object_put [OF inv, of "word_of_int (fts_object_get_id w x)" x]
    by (auto simp: client_register_object_def new_id_def Let_def fts_object_get_id_def fts_object_get_client_id_def)
qed

text \<open>The client id of an object has four bits: the eighth connection is out of range.\<close>

lemma register_client_id:
  assumes "w_clients w c = Some cl" "ht_inv E (object_table cl)"
    "0 \<le> sint (object_id_count cl)" "sint (object_id_count cl) < 2 ^ 25"
    and "client_register_object E c x w = Some w'"
  shows "0 \<le> client_id cl \<Longrightarrow> client_id cl \<le> 7 \<Longrightarrow> fts_object_get_client_id w' x = client_id cl"
    and "8 \<le> client_id cl \<Longrightarrow> client_id cl \<le> 15 \<Longrightarrow> \<not> fts_object_has_client w' x"
proof -
  have *: "fts_object_get_client_id w' x = signed_take_bit 3 (client_id cl)"
    using register_object_spec [OF assms(1-4), of x] assms(5) by (auto simp: signed_of_int)
  show "0 \<le> client_id cl \<Longrightarrow> client_id cl \<le> 7 \<Longrightarrow> fts_object_get_client_id w' x = client_id cl"
    unfolding * by (simp add: signed_take_bit_int_eq_self)
  assume "8 \<le> client_id cl" "client_id cl \<le> 15"
  then have "client_id cl \<in> {8, 9, 10, 11, 12, 13, 14, 15}" by auto
  then show "\<not> fts_object_has_client w' x"
    unfolding fts_object_has_client_def * FTS_NO_ID_def by (auto simp: signed_take_bit_eq_if_negative)
qed

text \<open>Objects registered one after the other.\<close>

fun register_objects :: "class_env \<Rightarrow> addr \<Rightarrow> addr list \<Rightarrow> world \<Rightarrow> world option" where
  "register_objects E c [] w = Some w"
| "register_objects E c (x # xs) w = do { w1 \<leftarrow> client_register_object E c x w; register_objects E c xs w1 }"

lemma register_objects_spec:
  assumes "w_clients w c = Some cl" "ht_inv E (object_table cl)" "distinct xs"
    and "\<forall>x \<in> set xs. fts_object_get_id w x < 0"
    and "0 \<le> sint (object_id_count cl)" "sint (object_id_count cl) + 2 * int (length xs) \<le> 2 ^ 25"
  shows "\<exists>w' cl'. register_objects E c xs w = Some w' \<and> w_clients w' c = Some cl' \<and> ht_inv E (object_table cl') \<and>
      (\<forall>k < length xs. fts_object_get_id w' (xs ! k) = sint (object_id_count cl) + 2 * int k \<and>
         client_get_object E (object_table cl') (obj_ids w' (xs ! k)) = Some (xs ! k)) \<and>
      (\<forall>y. y \<notin> set xs \<longrightarrow> fts_object_get_id w' y = fts_object_get_id w y) \<and>
      (\<forall>i. sint i < sint (object_id_count cl) \<longrightarrow>
         client_get_object E (object_table cl') i = client_get_object E (object_table cl) i)"
  using assms
proof (induction xs arbitrary: w cl)
  case Nil
  then show ?case by auto
next
  case (Cons x xs)
  let ?n = "sint (object_id_count cl)"
  have room: "0 \<le> ?n" "?n < 2 ^ 25" using Cons.prems(5,6) by simp_all
  have new: "new_id w cl x = ?n" using Cons.prems(4) by (simp add: new_id_def)
  obtain w1 cl1 where w1: "client_register_object E c x w = Some w1" "w_clients w1 = (w_clients w)(c \<mapsto> cl1)"
    "ht_inv E (object_table cl1)"
    "\<forall>i. client_get_object E (object_table cl1) i =
        (if i = word_of_int ?n then Some x else client_get_object E (object_table cl) i)"
    "\<forall>y. fts_object_get_id w1 y = (if y = x then ?n else fts_object_get_id w y)"
    "object_id_count cl1 = object_id_count cl + 2"
    using register_object_spec [OF Cons.prems(1,2) room, of x] Cons.prems(4) unfolding new by auto
  have n1: "sint (object_id_count cl1) = ?n + 2"
    using room by (simp add: w1(6) signed_take_bit_int_eq_self sint_word_ariths signed_of_int)
  have fresh: "\<forall>y \<in> set xs. fts_object_get_id w1 y < 0" using w1(5) Cons.prems(3,4) by auto
  obtain w' cl' where ih: "register_objects E c xs w1 = Some w'" "w_clients w' c = Some cl'" "ht_inv E (object_table cl')"
    "\<forall>k < length xs. fts_object_get_id w' (xs ! k) = ?n + 2 + 2 * int k \<and>
         client_get_object E (object_table cl') (obj_ids w' (xs ! k)) = Some (xs ! k)"
    "\<forall>y. y \<notin> set xs \<longrightarrow> fts_object_get_id w' y = fts_object_get_id w1 y"
    "\<forall>i. sint i < ?n + 2 \<longrightarrow> client_get_object E (object_table cl') i = client_get_object E (object_table cl1) i"
    using Cons.IH [of w1 cl1] w1(2,3) Cons.prems(3,5,6) fresh unfolding n1 by auto
  have sw: "sint (word_of_int ?n :: int32) = ?n" by simp
  have x: "fts_object_get_id w' x = ?n" using ih(5) w1(5) Cons.prems(3) by simp
  then have "client_get_object E (object_table cl') (obj_ids w' x) = Some x"
    using ih(6) w1(4) by (simp add: obj_ids_def)
  then have "\<forall>k < length (x # xs). fts_object_get_id w' ((x # xs) ! k) = ?n + 2 * int k \<and>
      client_get_object E (object_table cl') (obj_ids w' ((x # xs) ! k)) = Some ((x # xs) ! k)"
    using x ih(4) by (auto simp: nth_Cons split: nat.split)
  moreover have "\<forall>i. sint i < ?n \<longrightarrow>
      client_get_object E (object_table cl') i = client_get_object E (object_table cl) i"
    using ih(6) w1(4) sw by auto
  moreover have "\<forall>y. y \<notin> set (x # xs) \<longrightarrow> fts_object_get_id w' y = fts_object_get_id w y"
    using ih(5) w1(5) by simp
  ultimately show ?case using w1(1) ih(1,2,3) by auto
qed

subsection \<open>Protocol errors\<close>

text \<open>
  A client stays in its error state until the next end of a message, and then keeps the arguments
  that it had read before the error.
\<close>

lemma client_error_skip:
  assumes "pr_state (fst d) = 0" "FTS_PROTOCOL_END_OF_MESSAGE \<notin> set bs"
  shows "receive_loop E M T (bs @ [FTS_PROTOCOL_END_OF_MESSAGE]) d = Some ((fst d)\<lparr>pr_state := q_initial\<rparr>, snd d)"
proof -
  have "receive_loop E M T bs d = Some d"
    using assms(2) by (induction bs) (auto simp: client_state_next_def state_next_def assms(1))
  then show ?thesis
    by (simp add: receive_loop_append client_state_next_def state_next_def assms(1))
qed

end
