(* ===== verification/Timebase.thy ===== *)
theory Timebase
  imports Atom "HOL-Library.Sublist"
begin

text \<open>
  Timebases (\<open>fts/time.c\<close>, \<open>include/fts/timebase.h\<close>): calls scheduled at a logical time, kept in a
  list ordered by time, and timebases derived from others (slaves).

  Times have a type of their own with the operations the code applies to them and a linear order;
  no law of arithmetic is used but where a statement says so, so that C doubles without NaN are an
  instance. The timebases are objects, found by their address; the address 0 is the null pointer.
  Every entry claims a reference to its object and to the object in its atom, counted in the
  object store. A call of a method is recorded with the time at which it is made; what the method
  does to the timebase is a list of operations given by the parameter \<open>H\<close>.
\<close>

record 't tb_entry =
  en_time :: 't
  en_object :: addr
  en_method :: nat
  en_atom :: atom

record 't timebase =
  tb_time :: 't
  tb_step :: 't
  tb_tick_time :: 't
  tb_entries :: "'t tb_entry list"
  tb_slaves :: "addr list"
  tb_master :: addr
  tb_origin :: addr
  tb_tick :: bool
  tb_locate :: bool

record 't tworld =
  tw_bases :: "addr \<Rightarrow> 't timebase option"
  tw_refs :: obj_store
  tw_calls :: "('t \<times> 't tb_entry) list"

datatype 't tb_op = Add_call addr nat "atom option" 't | Remove_object addr

definition set_base :: "addr \<Rightarrow> 't timebase \<Rightarrow> 't tworld \<Rightarrow> 't tworld" where
  "set_base b t w = w\<lparr>tw_bases := (tw_bases w)(b \<mapsto> t)\<rparr>"

subsection \<open>Entries\<close>

definition fts_timebase_entry_reset :: "'t::zero tb_entry \<Rightarrow> obj_store \<Rightarrow> ('t tb_entry \<times> obj_store) option" where
  "fts_timebase_entry_reset e st =
     do { st1 \<leftarrow> fts_object_release (en_object e) st;
          (a, st2) \<leftarrow> fts_atom_void (en_atom e) st1;
          Some (\<lparr>en_time = 0, en_object = 0, en_method = 0, en_atom = a\<rparr>, st2) }"

definition fts_timebase_entry_set ::
  "'t tb_entry \<Rightarrow> addr \<Rightarrow> nat \<Rightarrow> atom option \<Rightarrow> 't \<Rightarrow> obj_store \<Rightarrow> ('t tb_entry \<times> obj_store) option" where
  "fts_timebase_entry_set e obj mth at t st =
     do { st1 \<leftarrow> fts_object_refer obj st;
          (a, st2) \<leftarrow> (case at of None \<Rightarrow> Some (en_atom e, st1) | Some x \<Rightarrow> fts_atom_assign (en_atom e) x st1);
          Some (\<lparr>en_time = t, en_object = obj, en_method = mth, en_atom = a\<rparr>, st2) }"

text \<open>A block of the heap has arbitrary contents \<open>e0\<close>; initialisation voids its atom first.\<close>

definition fts_timebase_entry_init ::
  "'t tb_entry \<Rightarrow> addr \<Rightarrow> nat \<Rightarrow> atom option \<Rightarrow> 't \<Rightarrow> obj_store \<Rightarrow> ('t tb_entry \<times> obj_store) option" where
  "fts_timebase_entry_init e0 obj mth at t st =
     fts_timebase_entry_set (e0\<lparr>en_atom := AVoid\<rparr>) obj mth at t st"

definition fts_timebase_entry_free :: "'t::zero tb_entry \<Rightarrow> obj_store \<Rightarrow> obj_store option" where
  "fts_timebase_entry_free e st = map_option snd (fts_timebase_entry_reset e st)"

fun timebase_insert_entry :: "'t::linorder tb_entry \<Rightarrow> 't tb_entry list \<Rightarrow> 't tb_entry list" where
  "timebase_insert_entry e [] = [e]"
| "timebase_insert_entry e (p # ps) =
     (if en_time e \<ge> en_time p then p # timebase_insert_entry e ps else e # p # ps)"

primrec free_entries :: "'t::zero tb_entry list \<Rightarrow> obj_store \<Rightarrow> obj_store option" where
  "free_entries [] st = Some st"
| "free_entries (e # es) st = do { st1 \<leftarrow> fts_timebase_entry_free e st; free_entries es st1 }"

definition timebase_remove_entries :: "addr \<Rightarrow> 't::zero tworld \<Rightarrow> 't tworld option" where
  "timebase_remove_entries b w =
     do { t \<leftarrow> tw_bases w b;
          st \<leftarrow> free_entries (tb_entries t) (tw_refs w);
          Some ((set_base b (t\<lparr>tb_entries := []\<rparr>) w)\<lparr>tw_refs := st\<rparr>) }"

subsection \<open>Scheduling\<close>

definition fts_timebase_add_call ::
  "'t tb_entry \<Rightarrow> addr \<Rightarrow> addr \<Rightarrow> nat \<Rightarrow> atom option \<Rightarrow> 't \<Rightarrow> 't::{linorder,plus,zero} tworld \<Rightarrow> 't tworld option" where
  "fts_timebase_add_call e0 b obj mth at delay w =
     do { t \<leftarrow> tw_bases w b;
          (e, st) \<leftarrow> fts_timebase_entry_init e0 obj mth at
             (if delay > 0 then tb_time t + delay else tb_time t) (tw_refs w);
          Some ((set_base b (t\<lparr>tb_entries := timebase_insert_entry e (tb_entries t)\<rparr>) w)\<lparr>tw_refs := st\<rparr>) }"

fun remove_entries_of :: "addr \<Rightarrow> 't::zero tb_entry list \<Rightarrow> obj_store \<Rightarrow> ('t tb_entry list \<times> obj_store) option" where
  "remove_entries_of obj [] st = Some ([], st)"
| "remove_entries_of obj (e # es) st =
     (if en_object e = obj then do { st1 \<leftarrow> fts_timebase_entry_free e st; remove_entries_of obj es st1 }
      else do { (es1, st1) \<leftarrow> remove_entries_of obj es st; Some (e # es1, st1) })"

definition fts_timebase_remove_object :: "addr \<Rightarrow> addr \<Rightarrow> 't::zero tworld \<Rightarrow> 't tworld option" where
  "fts_timebase_remove_object b obj w =
     do { t \<leftarrow> tw_bases w b;
          (es, st) \<leftarrow> remove_entries_of obj (tb_entries t) (tw_refs w);
          Some ((set_base b (t\<lparr>tb_entries := es\<rparr>) w)\<lparr>tw_refs := st\<rparr>) }"

text \<open>\<open>fts_timebase_flush_object\<close>, for methods that do not change the timebase: the entries of the
  object are called in order and freed.\<close>

definition fts_timebase_flush_object :: "addr \<Rightarrow> addr \<Rightarrow> 't::zero tworld \<Rightarrow> 't tworld option" where
  "fts_timebase_flush_object b obj w =
     do { t \<leftarrow> tw_bases w b;
          w1 \<leftarrow> fts_timebase_remove_object b obj w;
          Some (w1\<lparr>tw_calls := tw_calls w @
            map (Pair (tb_time t)) (filter (\<lambda>e. en_object e = obj) (tb_entries t))\<rparr>) }"

definition apply_op :: "addr \<Rightarrow> 't tb_op \<Rightarrow> 't::{linorder,plus,zero} tworld \<Rightarrow> 't tworld option" where
  "apply_op b p w =
     (case p of
        Add_call obj mth at delay \<Rightarrow>
          fts_timebase_add_call \<lparr>en_time = 0, en_object = 0, en_method = 0, en_atom = AVoid\<rparr> b obj mth at delay w
      | Remove_object obj \<Rightarrow> fts_timebase_remove_object b obj w)"

primrec apply_ops :: "addr \<Rightarrow> 't tb_op list \<Rightarrow> 't::{linorder,plus,zero} tworld \<Rightarrow> 't tworld option" where
  "apply_ops b [] w = Some w"
| "apply_ops b (p # ps) w = do { w1 \<leftarrow> apply_op b p w; apply_ops b ps w1 }"

text \<open>The accessors \<open>fts_timebase_set_time\<close> and \<open>fts_timebase_set_step\<close>, by which a driver of the timebase sets
  its clock and the length of its next tick.\<close>

definition fts_timebase_set_time :: "addr \<Rightarrow> 't \<Rightarrow> 't tworld \<Rightarrow> 't tworld option" where
  "fts_timebase_set_time b x w = do { t \<leftarrow> tw_bases w b; Some (set_base b (t\<lparr>tb_time := x\<rparr>) w) }"

definition fts_timebase_set_step :: "addr \<Rightarrow> 't \<Rightarrow> 't tworld \<Rightarrow> 't tworld option" where
  "fts_timebase_set_step b x w = do { t \<leftarrow> tw_bases w b; Some (set_base b (t\<lparr>tb_step := x\<rparr>) w) }"

subsection \<open>Slaves\<close>

definition fts_timebase_init :: "bool \<Rightarrow> bool \<Rightarrow> 't::zero timebase" where
  "fts_timebase_init tick locate =
     \<lparr>tb_time = 0, tb_step = 0, tb_tick_time = 0, tb_entries = [], tb_slaves = [], tb_master = 0,
      tb_origin = 0, tb_tick = tick, tb_locate = locate\<rparr>"

definition fts_timebase_add_slave :: "addr \<Rightarrow> addr \<Rightarrow> 't tworld \<Rightarrow> 't tworld option" where
  "fts_timebase_add_slave b s w =
     do { t \<leftarrow> tw_bases w b;
          sl \<leftarrow> tw_bases w s;
          if tb_master sl = 0 \<and> tb_tick sl
          then do { st \<leftarrow> fts_object_refer s (tw_refs w);
                    let w1 = set_base b (t\<lparr>tb_slaves := s # tb_slaves t\<rparr>) w;
                    sl1 \<leftarrow> tw_bases w1 s;
                    let w2 = set_base s (sl1\<lparr>tb_master := b, tb_origin := tb_origin t\<rparr>) w1;
                    Some (w2\<lparr>tw_refs := st\<rparr>) }
          else Some w }"

definition fts_timebase_remove_slave :: "addr \<Rightarrow> addr \<Rightarrow> 't tworld \<Rightarrow> 't tworld option" where
  "fts_timebase_remove_slave b s w =
     do { sl \<leftarrow> tw_bases w s;
          if tb_master sl \<noteq> 0
          then do { t \<leftarrow> tw_bases w b;
                    if s \<in> set (tb_slaves t)
                    then Some (set_base b (t\<lparr>tb_slaves := remove1 s (tb_slaves t)\<rparr>) w)
                    else do { st \<leftarrow> fts_object_release s (tw_refs w);
                              Some ((set_base s (sl\<lparr>tb_master := 0, tb_origin := 0\<rparr>) w)\<lparr>tw_refs := st\<rparr>) } }
          else Some w }"

fun remove_slaves :: "addr list \<Rightarrow> 't tworld \<Rightarrow> 't tworld option" where
  "remove_slaves [] w = Some w"
| "remove_slaves (s # ss) w =
     do { sl \<leftarrow> tw_bases w s;
          st \<leftarrow> fts_object_release s (tw_refs w);
          remove_slaves ss ((set_base s (sl\<lparr>tb_master := 0, tb_origin := 0\<rparr>) w)\<lparr>tw_refs := st\<rparr>) }"

definition timebase_remove_slaves :: "addr \<Rightarrow> 't tworld \<Rightarrow> 't tworld option" where
  "timebase_remove_slaves b w =
     do { t \<leftarrow> tw_bases w b;
          remove_slaves (tb_slaves t) (set_base b (t\<lparr>tb_slaves := []\<rparr>) w) }"

definition fts_timebase_reset :: "addr \<Rightarrow> 't::zero tworld \<Rightarrow> 't tworld option" where
  "fts_timebase_reset b w =
     do { t \<leftarrow> tw_bases w b;
          w1 \<leftarrow> timebase_remove_entries b (set_base b (t\<lparr>tb_time := 0\<rparr>) w);
          timebase_remove_slaves b w1 }"

text \<open>
  The loop of \<open>fts_timebase_advance_slaves\<close> over the entries of a slave. It dereferences the origin
  of the slave. \<open>n\<close> bounds the number of turns.
\<close>

fun retime_entries :: "nat \<Rightarrow> addr \<Rightarrow> 't::{linorder,plus,minus,times,divide,zero} tworld \<Rightarrow> 't tworld option" where
  "retime_entries n s w =
     (case tw_bases w s of
        None \<Rightarrow> None
      | Some sl \<Rightarrow>
          (case tb_entries sl of
             [] \<Rightarrow> Some w
           | e # es \<Rightarrow>
               if en_time e < tb_time sl + tb_step sl then
                 (case n of
                    0 \<Rightarrow> None
                  | Suc m \<Rightarrow>
                      if tb_origin sl = 0 then None
                      else (case tw_bases w (tb_origin sl) of
                              None \<Rightarrow> None
                            | Some og \<Rightarrow>
                                let retime = tb_time og + (en_time e - tb_time sl) * tb_step og div tb_step sl
                                in retime_entries m s (set_base s
                                     (sl\<lparr>tb_entries := timebase_insert_entry (e\<lparr>en_time := retime\<rparr>) es\<rparr>) w)))
               else Some w))"

declare retime_entries.simps [simp del]

text \<open>\<open>tick\<close> is the tick method of the slaves, which does not change the list of slaves.\<close>

fun advance_slaves :: "nat \<Rightarrow> (addr \<Rightarrow> 't tworld \<Rightarrow> 't tworld option) \<Rightarrow> addr list \<Rightarrow>
  't::{linorder,plus,minus,times,divide,zero} tworld \<Rightarrow> 't tworld option" where
  "advance_slaves n tick [] w = Some w"
| "advance_slaves n tick (s # ss) w =
     do { sl \<leftarrow> tw_bases w s;
          w1 \<leftarrow> (if tb_tick sl then tick s w else Some w);
          w2 \<leftarrow> retime_entries n s w1;
          sl2 \<leftarrow> tw_bases w2 s;
          advance_slaves n tick ss (set_base s (sl2\<lparr>tb_time := tb_time sl2 + tb_step sl2\<rparr>) w2) }"

definition fts_timebase_advance_slaves :: "nat \<Rightarrow> (addr \<Rightarrow> 't tworld \<Rightarrow> 't tworld option) \<Rightarrow> addr \<Rightarrow>
  't::{linorder,plus,minus,times,divide,zero} tworld \<Rightarrow> 't tworld option" where
  "fts_timebase_advance_slaves n tick b w = do { t \<leftarrow> tw_bases w b; advance_slaves n tick (tb_slaves t) w }"

text \<open>The loop of \<open>fts_timebase_advance\<close>; \<open>n\<close> bounds the number of calls.\<close>

fun fire_entries :: "nat \<Rightarrow> ('t tb_entry \<Rightarrow> 't tworld \<Rightarrow> 't tb_op list) \<Rightarrow> 't \<Rightarrow> addr \<Rightarrow>
  't::{linorder,plus,zero} tworld \<Rightarrow> 't tworld option" where
  "fire_entries n H limit b w =
     (case tw_bases w b of
        None \<Rightarrow> None
      | Some t \<Rightarrow>
          (case tb_entries t of
             [] \<Rightarrow> Some w
           | e # es \<Rightarrow>
               if en_time e < limit then
                 (case n of
                    0 \<Rightarrow> None
                  | Suc m \<Rightarrow>
                      let w1 = (set_base b (t\<lparr>tb_entries := es, tb_time := en_time e\<rparr>) w)
                                 \<lparr>tw_calls := tw_calls w @ [(en_time e, e)]\<rparr>
                      in (case apply_ops b (H e w1) w1 of
                            None \<Rightarrow> None
                          | Some w2 \<Rightarrow>
                              (case fts_timebase_entry_free e (tw_refs w2) of
                                 None \<Rightarrow> None
                               | Some st \<Rightarrow> fire_entries m H limit b (w2\<lparr>tw_refs := st\<rparr>))))
               else Some w))"

declare fire_entries.simps [simp del]

definition fts_timebase_advance :: "nat \<Rightarrow> (addr \<Rightarrow> 't tworld \<Rightarrow> 't tworld option) \<Rightarrow>
  ('t tb_entry \<Rightarrow> 't tworld \<Rightarrow> 't tb_op list) \<Rightarrow> addr \<Rightarrow>
  't::{linorder,plus,minus,times,divide,zero} tworld \<Rightarrow> 't tworld option" where
  "fts_timebase_advance n tick H b w =
     do { t \<leftarrow> tw_bases w b;
          let limit = tb_time t + tb_step t;
          w1 \<leftarrow> fts_timebase_advance_slaves n tick b (set_base b (t\<lparr>tb_tick_time := tb_time t\<rparr>) w);
          w2 \<leftarrow> fire_entries n H limit b w1;
          t2 \<leftarrow> tw_bases w2 b;
          Some (set_base b (t2\<lparr>tb_time := limit\<rparr>) w2) }"

text \<open>\<open>locate\<close> is the locate method of the slaves. \<open>n\<close> bounds the depth of the tree of slaves.\<close>

fun fts_timebase_locate :: "nat \<Rightarrow> (addr \<Rightarrow> 't::zero tworld \<Rightarrow> 't tworld option) \<Rightarrow> addr \<Rightarrow> 't tworld \<Rightarrow> 't tworld option"
  and locate_slaves :: "nat \<Rightarrow> (addr \<Rightarrow> 't::zero tworld \<Rightarrow> 't tworld option) \<Rightarrow> addr \<Rightarrow> addr list \<Rightarrow> 't tworld \<Rightarrow> 't tworld option" where
  "fts_timebase_locate 0 locate b w = None"
| "fts_timebase_locate (Suc n) locate b w =
     (case tw_bases w b of
        None \<Rightarrow> None
      | Some t \<Rightarrow>
          (case timebase_remove_entries b w of
             None \<Rightarrow> None
           | Some w1 \<Rightarrow> locate_slaves n locate b (tb_slaves t) w1))"
| "locate_slaves n locate b [] w = Some w"
| "locate_slaves n locate b (s # ss) w =
     (case tw_bases w s of
        None \<Rightarrow> None
      | Some sl \<Rightarrow>
          (case (if tb_locate sl then locate s w
                 else (case fts_timebase_locate n locate s w of
                         None \<Rightarrow> None | Some w1 \<Rightarrow> fts_timebase_remove_slave b s w1)) of
             None \<Rightarrow> None
           | Some w2 \<Rightarrow> locate_slaves n locate b ss w2))"

subsection \<open>The queue is a stable sort\<close>

lemma insert_entry_split:
  "timebase_insert_entry e ps =
     takeWhile (\<lambda>p. en_time p \<le> en_time e) ps @ e # dropWhile (\<lambda>p. en_time p \<le> en_time e) ps"
  by (induction ps) auto

lemma set_insert_entry [simp]: "set (timebase_insert_entry e ps) = insert e (set ps)"
  by (induction ps) auto

lemma mset_insert_entry [simp]: "mset (timebase_insert_entry e ps) = add_mset e (mset ps)"
  by (induction ps) auto

lemma sorted_insert_entry:
  "sorted (map en_time ps) \<Longrightarrow> sorted (map en_time (timebase_insert_entry e ps))"
  by (induction ps) auto

lemma filter_insert_entry:
  "sorted (map en_time ps) \<Longrightarrow> filter (\<lambda>x. k = en_time x) (timebase_insert_entry e ps) =
     filter (\<lambda>x. k = en_time x) ps @ (if k = en_time e then [e] else [])"
proof (induction ps)
  case Nil
  then show ?case by simp
next
  case (Cons p ps)
  have "\<not> en_time p \<le> en_time e \<Longrightarrow> filter (\<lambda>x. en_time e = en_time x) (p # ps) = []"
    using Cons.prems by (auto simp: filter_empty_conv)
  then show ?case using Cons by auto
qed

lemma queue_stable_sort: "fold timebase_insert_entry es [] = sort_key en_time es"
proof -
  have "sorted (map en_time (fold timebase_insert_entry es qs)) \<and>
      mset (fold timebase_insert_entry es qs) = mset (qs @ es) \<and>
      (\<forall>k. filter (\<lambda>x. k = en_time x) (fold timebase_insert_entry es qs) = filter (\<lambda>x. k = en_time x) (qs @ es))"
    if "sorted (map en_time qs)" for qs
    using that
  proof (induction es arbitrary: qs)
    case Nil
    then show ?case by simp
  next
    case (Cons e es)
    show ?case
      using Cons.IH [OF sorted_insert_entry [OF Cons.prems]] filter_insert_entry [OF Cons.prems]
      by simp
  qed
  from this [of "[]"] show ?thesis by (intro properties_for_sort_key [symmetric]) simp_all
qed

subsection \<open>References of the entries\<close>

definition entry_refs :: "'t tb_entry \<Rightarrow> atom list" where
  "entry_refs e = [AObject (en_object e), en_atom e]"

definition queue_refs :: "'t tb_entry list \<Rightarrow> atom list" where
  "queue_refs es = concat (map entry_refs es)"

lemma queue_refs_simps [simp]:
  "queue_refs [] = []" "queue_refs (e # es) = AObject (en_object e) # en_atom e # queue_refs es"
  by (simp_all add: queue_refs_def entry_refs_def)

lemma ocount_queue_insert [simp]:
  "ocount x (queue_refs (timebase_insert_entry e es)) = ocount x (entry_refs e) + ocount x (queue_refs es)"
  by (induction es) (auto simp: entry_refs_def)

definition live :: "(addr \<Rightarrow> nat) \<Rightarrow> atom list \<Rightarrow> atom \<Rightarrow> bool" where
  "live ext xs a = (case a of AObject x \<Rightarrow> ext x + ocount x xs > 0 | _ \<Rightarrow> True)"

lemma balanced_refer_live:
  assumes "balanced st ext xs" and "live ext xs a"
  shows "\<exists>st'. fts_atom_refer a st = Some st' \<and> balanced st' ext (a # xs)"
proof (cases a)
  case (AObject x)
  with assms have "st x = Some (int (ext x + ocount x xs))"
    by (auto simp: balanced_def live_def)
  with assms AObject show ?thesis
    by (auto simp: fts_atom_refer_def fts_object_refer_def balanced_def live_def)
qed (use assms in \<open>auto simp: fts_atom_refer_def balanced_def\<close>)

lemma entry_init_ok:
  assumes "balanced st ext xs" "live ext xs (AObject obj)" "\<And>a. at = Some a \<Longrightarrow> live ext xs a"
  shows "\<exists>e st'. fts_timebase_entry_init blk obj mth at t st = Some (e, st') \<and>
      e = \<lparr>en_time = t, en_object = obj, en_method = mth, en_atom = (case at of None \<Rightarrow> AVoid | Some a \<Rightarrow> a)\<rparr> \<and>
      balanced st' ext (entry_refs e @ xs)"
proof -
  obtain st1 where st1: "fts_object_refer obj st = Some st1" "balanced st1 ext (AObject obj # xs)"
    using balanced_refer_live [OF assms(1,2)] by (auto simp: fts_atom_refer_def)
  show ?thesis
  proof (cases at)
    case None
    have "balanced st1 ext (AObject obj # AVoid # xs)" using st1(2) by (simp add: balanced_def)
    then show ?thesis
      using None st1(1) by (simp add: fts_timebase_entry_init_def fts_timebase_entry_set_def entry_refs_def)
  next
    case (Some a)
    have "live ext (AObject obj # xs) a" using assms(3) [OF Some] by (auto simp: live_def split: atom.splits)
    then obtain st2 where st2: "fts_atom_refer a st1 = Some st2" "balanced st2 ext (a # AObject obj # xs)"
      using balanced_refer_live [OF st1(2)] by blast
    moreover have "balanced st2 ext (AObject obj # a # xs)"
      using st2(2) by (simp add: balanced_def)
    ultimately show ?thesis
      using Some st1(1)
      by (simp add: fts_timebase_entry_init_def fts_timebase_entry_set_def entry_refs_def fts_atom_assign_def
          fts_atom_release_def)
  qed
qed

lemma entry_free_ok:
  assumes "balanced st ext (entry_refs e @ xs)"
  shows "\<exists>st'. fts_timebase_entry_free e st = Some st' \<and> balanced st' ext xs"
proof -
  obtain st1 where st1: "fts_object_release (en_object e) st = Some st1" "balanced st1 ext (en_atom e # xs)"
    using balanced_release [of st ext "AObject (en_object e)" "en_atom e # xs"] assms
    by (auto simp: entry_refs_def fts_atom_release_def)
  obtain st2 where "fts_atom_void (en_atom e) st1 = Some (AVoid, st2)" "balanced st2 ext (AVoid # xs)"
    using balanced_void [OF st1(2)] by blast
  then show ?thesis using st1(1)
    by (auto simp: fts_timebase_entry_free_def fts_timebase_entry_reset_def balanced_def)
qed

lemma free_entries_ok:
  "balanced st ext (queue_refs es @ xs) \<Longrightarrow> \<exists>st'. free_entries es st = Some st' \<and> balanced st' ext xs"
proof (induction es arbitrary: st)
  case Nil
  then show ?case by simp
next
  case (Cons e es)
  then have "balanced st ext (entry_refs e @ queue_refs es @ xs)" by (simp add: entry_refs_def)
  then show ?case using entry_free_ok Cons.IH by fastforce
qed

lemma remove_entries_ok:
  "balanced st ext (queue_refs es @ xs) \<Longrightarrow>
     \<exists>st'. remove_entries_of obj es st = Some (filter (\<lambda>e. en_object e \<noteq> obj) es, st') \<and>
       balanced st' ext (queue_refs (filter (\<lambda>e. en_object e \<noteq> obj) es) @ xs)"
proof (induction es arbitrary: st xs)
  case Nil
  then show ?case by simp
next
  case (Cons e es)
  have bal: "balanced st ext (entry_refs e @ queue_refs es @ xs)"
    using Cons.prems by (simp add: entry_refs_def)
  show ?case
  proof (cases "en_object e = obj")
    case True
    then show ?thesis using entry_free_ok [OF bal] Cons.IH by fastforce
  next
    case False
    have "balanced st ext (queue_refs es @ entry_refs e @ xs)"
      using bal by (rule balanced_cong [THEN iffD1, rotated]) simp
    then obtain st' where st': "remove_entries_of obj es st = Some (filter (\<lambda>e. en_object e \<noteq> obj) es, st')"
      "balanced st' ext (queue_refs (filter (\<lambda>e. en_object e \<noteq> obj) es) @ entry_refs e @ xs)"
      using Cons.IH by blast
    have "balanced st' ext (queue_refs (filter (\<lambda>e. en_object e \<noteq> obj) (e # es)) @ xs)"
      using st'(2) by (rule balanced_cong [THEN iffD1, rotated]) (simp add: False entry_refs_def)
    then show ?thesis using False st'(1) by simp
  qed
qed

subsection \<open>The invariant of a timebase\<close>

text \<open>
  The entries are in the order of time, none of them lies in the past, and the references of the
  entries and of the atoms \<open>xs\<close> held elsewhere are counted in the store.
\<close>

definition tb_inv :: "(addr \<Rightarrow> nat) \<Rightarrow> atom list \<Rightarrow> addr \<Rightarrow> 't::linorder timebase \<Rightarrow> 't tworld \<Rightarrow> bool" where
  "tb_inv ext xs b t w \<longleftrightarrow> tw_bases w b = Some t \<and> sorted (map en_time (tb_entries t)) \<and>
     (\<forall>e \<in> set (tb_entries t). tb_time t \<le> en_time e) \<and>
     balanced (tw_refs w) ext (queue_refs (tb_entries t) @ xs)"

definition sched_time :: "'t::{linorder,plus,zero} timebase \<Rightarrow> 't \<Rightarrow> 't" where
  "sched_time t delay = (if delay > 0 then tb_time t + delay else tb_time t)"

lemma add_call_ok:
  assumes inv: "tb_inv ext xs b t w" and obj: "live ext xs (AObject obj)" "\<And>a. at = Some a \<Longrightarrow> live ext xs a"
    and late: "tb_time t \<le> sched_time t delay"
  shows "\<exists>w' t'. fts_timebase_add_call blk b obj mth at delay w = Some w' \<and> tb_inv ext xs b t' w' \<and>
      t' = t\<lparr>tb_entries := timebase_insert_entry \<lparr>en_time = sched_time t delay, en_object = obj, en_method = mth,
        en_atom = (case at of None \<Rightarrow> AVoid | Some a \<Rightarrow> a)\<rparr> (tb_entries t)\<rparr> \<and>
      tw_bases w' = (tw_bases w)(b \<mapsto> t') \<and> tw_calls w' = tw_calls w"
proof -
  have bal: "balanced (tw_refs w) ext (queue_refs (tb_entries t) @ xs)" using inv by (simp add: tb_inv_def)
  have "live ext (queue_refs (tb_entries t) @ xs) (AObject obj)"
    "\<And>a. at = Some a \<Longrightarrow> live ext (queue_refs (tb_entries t) @ xs) a"
    using obj by (auto simp: live_def split: atom.splits)
  then obtain e st where e: "fts_timebase_entry_init blk obj mth at (sched_time t delay) (tw_refs w) = Some (e, st)"
    "e = \<lparr>en_time = sched_time t delay, en_object = obj, en_method = mth, en_atom = (case at of None \<Rightarrow> AVoid | Some a \<Rightarrow> a)\<rparr>"
    "balanced st ext (entry_refs e @ queue_refs (tb_entries t) @ xs)"
    using entry_init_ok [OF bal, of obj at blk mth "sched_time t delay"] by blast
  let ?t = "t\<lparr>tb_entries := timebase_insert_entry e (tb_entries t)\<rparr>"
  let ?w = "(set_base b ?t w)\<lparr>tw_refs := st\<rparr>"
  have "balanced st ext (queue_refs (timebase_insert_entry e (tb_entries t)) @ xs)"
    using e(3) by (rule balanced_cong [THEN iffD1, rotated]) simp
  then have "tb_inv ext xs b ?t ?w"
    using inv late by (auto simp: tb_inv_def set_base_def sorted_insert_entry e(2))
  then show ?thesis
    using inv e(1)
    by (intro exI [of _ ?w] exI [of _ ?t])
      (simp add: fts_timebase_add_call_def tb_inv_def set_base_def e(2) [symmetric] flip: sched_time_def)
qed

lemma remove_object_ok:
  assumes inv: "tb_inv ext xs b t w"
  shows "\<exists>w' t'. fts_timebase_remove_object b obj w = Some w' \<and> tb_inv ext xs b t' w' \<and>
      t' = t\<lparr>tb_entries := filter (\<lambda>e. en_object e \<noteq> obj) (tb_entries t)\<rparr> \<and>
      tw_bases w' = (tw_bases w)(b \<mapsto> t') \<and> tw_calls w' = tw_calls w"
proof -
  have "balanced (tw_refs w) ext (queue_refs (tb_entries t) @ xs)" using inv by (simp add: tb_inv_def)
  then obtain st where st:
    "remove_entries_of obj (tb_entries t) (tw_refs w) = Some (filter (\<lambda>e. en_object e \<noteq> obj) (tb_entries t), st)"
    "balanced st ext (queue_refs (filter (\<lambda>e. en_object e \<noteq> obj) (tb_entries t)) @ xs)"
    using remove_entries_ok by blast
  let ?t = "t\<lparr>tb_entries := filter (\<lambda>e. en_object e \<noteq> obj) (tb_entries t)\<rparr>"
  have "tb_inv ext xs b ?t ((set_base b ?t w)\<lparr>tw_refs := st\<rparr>)"
    using inv st(2) by (auto simp: tb_inv_def set_base_def sorted_filter)
  then show ?thesis
    using inv st(1) by (auto simp: fts_timebase_remove_object_def tb_inv_def set_base_def)
qed

text \<open>What the methods may do while the entry \<open>e\<close> is called: schedule live objects after the limit.\<close>

definition op_ok :: "(addr \<Rightarrow> nat) \<Rightarrow> 't tb_entry \<Rightarrow> 't \<Rightarrow> 't::{linorder,plus,zero} tb_op \<Rightarrow> bool" where
  "op_ok ext e limit p = (case p of
     Add_call obj mth at delay \<Rightarrow> live ext (entry_refs e) (AObject obj) \<and>
       (case at of None \<Rightarrow> True | Some a \<Rightarrow> live ext (entry_refs e) a) \<and>
       limit \<le> (if delay > 0 then en_time e + delay else en_time e)
   | Remove_object obj \<Rightarrow> True)"

abbreviation due :: "'t::linorder \<Rightarrow> 't timebase \<Rightarrow> 't tb_entry list" where
  "due limit t \<equiv> filter (\<lambda>e. en_time e < limit) (tb_entries t)"

text \<open>The entries of objects that no method removes.\<close>

definition never_removed :: "('t tb_entry \<Rightarrow> 't tworld \<Rightarrow> 't tb_op list) \<Rightarrow> 't tb_entry \<Rightarrow> bool" where
  "never_removed H e \<longleftrightarrow> (\<forall>e' v. Remove_object (en_object e) \<notin> set (H e' v))"

lemma insert_entry_due:
  "\<not> en_time e < limit \<Longrightarrow>
     filter (\<lambda>e. en_time e < limit) (timebase_insert_entry e es) = filter (\<lambda>e. en_time e < limit) es"
  by (induction es) auto

lemma apply_ops_ok:
  assumes "tb_inv ext (entry_refs e) b t w" "tb_time t = en_time e" "en_time e < limit"
    and "\<forall>p \<in> set ps. op_ok ext e limit p" "\<And>x. K x \<Longrightarrow> Remove_object (en_object x) \<notin> set ps"
  shows "\<exists>w' t'. apply_ops b ps w = Some w' \<and> tb_inv ext (entry_refs e) b t' w' \<and> tb_time t' = en_time e \<and>
      subseq (due limit t') (due limit t) \<and> filter K (due limit t') = filter K (due limit t) \<and> tw_calls w' = tw_calls w"
  using assms
proof (induction ps arbitrary: w t)
  case Nil
  then show ?case by auto
next
  case (Cons p ps)
  have "\<exists>w1 t1. apply_op b p w = Some w1 \<and> tb_inv ext (entry_refs e) b t1 w1 \<and> tb_time t1 = en_time e \<and>
      subseq (due limit t1) (due limit t) \<and> filter K (due limit t1) = filter K (due limit t) \<and> tw_calls w1 = tw_calls w"
  proof (cases p)
    case (Add_call obj mth at delay)
    then have ok: "live ext (entry_refs e) (AObject obj)" "\<And>a. at = Some a \<Longrightarrow> live ext (entry_refs e) a"
      "limit \<le> sched_time t delay"
      using Cons.prems(2,4) by (auto simp: op_ok_def sched_time_def split: if_splits)
    have late: "tb_time t \<le> sched_time t delay" using ok(3) Cons.prems(2,3) by simp
    let ?blk = "\<lparr>en_time = 0, en_object = 0, en_method = 0, en_atom = AVoid\<rparr>"
    let ?e = "\<lparr>en_time = sched_time t delay, en_object = obj, en_method = mth,
        en_atom = (case at of None \<Rightarrow> AVoid | Some a \<Rightarrow> a)\<rparr>"
    obtain w1 t1 where 1: "fts_timebase_add_call ?blk b obj mth at delay w = Some w1" "tb_inv ext (entry_refs e) b t1 w1"
      "t1 = t\<lparr>tb_entries := timebase_insert_entry ?e (tb_entries t)\<rparr>" "tw_calls w1 = tw_calls w"
      using add_call_ok [OF Cons.prems(1) ok(1) _ late, where at = at and mth = mth and blk = ?blk] ok(2) by blast
    have same: "due limit t1 = due limit t"
      using ok(3) unfolding 1(3) by (simp add: insert_entry_due)
    have "tb_time t1 = en_time e" using Cons.prems(2) unfolding 1(3) by simp
    then show ?thesis unfolding Add_call using 1(1,2,4) same
      by (intro exI [of _ w1] exI [of _ t1]) (simp add: apply_op_def del: filter_filter)
  next
    case (Remove_object obj)
    have swap: "filter (\<lambda>e. en_time e < limit) (filter (\<lambda>e. en_object e \<noteq> obj) (tb_entries t)) =
        filter (\<lambda>e. en_object e \<noteq> obj) (due limit t)"
      unfolding filter_filter by (rule filter_cong) auto
    have "filter K (filter (\<lambda>e. en_object e \<noteq> obj) (due limit t)) = filter K (due limit t)"
      unfolding filter_filter by (rule filter_cong) (use Cons.prems(5) Remove_object in auto)
    moreover obtain w1 t1 where "fts_timebase_remove_object b obj w = Some w1" "tb_inv ext (entry_refs e) b t1 w1"
      "t1 = t\<lparr>tb_entries := filter (\<lambda>e. en_object e \<noteq> obj) (tb_entries t)\<rparr>" "tw_calls w1 = tw_calls w"
      using remove_object_ok [OF Cons.prems(1), of obj] by blast
    ultimately show ?thesis
      using Cons.prems(2) Remove_object
      by (intro exI [of _ w1] exI [of _ t1]) (simp add: apply_op_def swap del: filter_filter)
  qed
  then obtain w1 t1 where 1: "apply_op b p w = Some w1" "tb_inv ext (entry_refs e) b t1 w1" "tb_time t1 = en_time e"
    "subseq (due limit t1) (due limit t)" "filter K (due limit t1) = filter K (due limit t)" "tw_calls w1 = tw_calls w" by blast
  have "\<And>x. K x \<Longrightarrow> Remove_object (en_object x) \<notin> set ps" using Cons.prems(5) by simp
  then obtain w2 t2 where "apply_ops b ps w1 = Some w2" "tb_inv ext (entry_refs e) b t2 w2" "tb_time t2 = en_time e"
    "subseq (due limit t2) (due limit t1)" "filter K (due limit t2) = filter K (due limit t1)" "tw_calls w2 = tw_calls w1"
    using Cons.IH [OF 1(2,3) Cons.prems(3)] Cons.prems(4) by auto
  with 1 show ?case using subseq_order.order_trans by (intro exI [of _ w2] exI [of _ t2]) fastforce
qed

lemma due_Nil_iff:
  "sorted (map en_time (tb_entries t)) \<Longrightarrow> due limit t = [] \<longleftrightarrow> (\<forall>e \<in> set (tb_entries t). limit \<le> en_time e)"
  by (auto simp: filter_empty_conv not_less)

text \<open>
  When the methods schedule live objects after the end of the step, the loop ends and has freed the
  fired entries. It has called the due entries in their order, each at its own time, without those that
  a method removed before their turn.
\<close>

lemma fire_entries_ok:
  assumes "tb_inv ext [] b t w" "length (due limit t) \<le> n"
    and "\<forall>e v. \<forall>p \<in> set (H e v). op_ok ext e limit p"
  shows "\<exists>w' t' cs. fire_entries n H limit b w = Some w' \<and> tb_inv ext [] b t' w' \<and>
      (\<forall>e \<in> set (tb_entries t'). limit \<le> en_time e) \<and> tw_calls w' = tw_calls w @ map (\<lambda>e. (en_time e, e)) cs \<and>
      subseq cs (due limit t) \<and> subseq (filter (never_removed H) (due limit t)) cs"
  using assms(1,2)
proof (induction n arbitrary: w t)
  case (0 w t)
  have t: "tw_bases w b = Some t" "sorted (map en_time (tb_entries t))" using 0 by (auto simp: tb_inv_def)
  have all: "\<forall>e \<in> set (tb_entries t). limit \<le> en_time e" using 0(2) due_Nil_iff [OF t(2)] by simp
  then have "fire_entries 0 H limit b w = Some w"
    using t(1) by (subst fire_entries.simps) (auto split: list.splits)
  then show ?case using 0(1) all 0(2) by (intro exI [of _ w] exI [of _ t] exI [of _ "[]"]) simp
next
  case (Suc n w t)
  have t: "tw_bases w b = Some t" "sorted (map en_time (tb_entries t))" using Suc.prems by (auto simp: tb_inv_def)
  show ?case
  proof (cases "\<exists>e es. tb_entries t = e # es \<and> en_time e < limit")
    case False
    then have all: "\<forall>e \<in> set (tb_entries t). limit \<le> en_time e"
      using t(2) by (cases "tb_entries t") (auto simp: not_less)
    moreover have "fire_entries (Suc n) H limit b w = Some w"
      using t(1) False by (subst fire_entries.simps) (auto split: list.splits)
    moreover have "due limit t = []" using all due_Nil_iff [OF t(2)] by blast
    ultimately show ?thesis using Suc.prems(1) by (intro exI [of _ w] exI [of _ t] exI [of _ "[]"]) simp
  next
    case True
    then obtain e es where e: "tb_entries t = e # es" "en_time e < limit" by blast
    let ?t1 = "t\<lparr>tb_entries := es, tb_time := en_time e\<rparr>"
    let ?w1 = "(set_base b ?t1 w)\<lparr>tw_calls := tw_calls w @ [(en_time e, e)]\<rparr>"
    have "balanced (tw_refs w) ext (queue_refs (tb_entries t))" using Suc.prems(1) by (simp add: tb_inv_def)
    then have "balanced (tw_refs w) ext (queue_refs es @ entry_refs e)"
      by (rule balanced_cong [THEN iffD1, rotated]) (simp add: e entry_refs_def)
    then have inv1: "tb_inv ext (entry_refs e) b ?t1 ?w1"
      using Suc.prems(1) e by (auto simp: tb_inv_def set_base_def)
    have due1: "length (due limit ?t1) \<le> n" using Suc.prems(2) e by simp
    obtain w2 t2 where w2: "apply_ops b (H e ?w1) ?w1 = Some w2" "tb_inv ext (entry_refs e) b t2 w2"
      "tb_time t2 = en_time e" "subseq (due limit t2) (due limit ?t1)"
      "filter (never_removed H) (due limit t2) = filter (never_removed H) (due limit ?t1)" "tw_calls w2 = tw_calls ?w1"
      using apply_ops_ok [OF inv1 _ e(2), of "H e ?w1" "never_removed H"] assms(3) by (auto simp: never_removed_def)
    have "balanced (tw_refs w2) ext (entry_refs e @ queue_refs (tb_entries t2))"
      using w2(2) unfolding tb_inv_def by (metis balanced_cong ocount_simps(3) add.commute)
    then obtain st where st: "fts_timebase_entry_free e (tw_refs w2) = Some st"
      "balanced st ext (queue_refs (tb_entries t2))"
      using entry_free_ok by blast
    have inv3: "tb_inv ext [] b t2 (w2\<lparr>tw_refs := st\<rparr>)" using w2(2) st(2) by (simp add: tb_inv_def)
    have "length (due limit t2) \<le> n" using list_emb_length [OF w2(4)] due1 by simp
    from Suc.IH [OF inv3 this] obtain w' t' cs where ih: "fire_entries n H limit b (w2\<lparr>tw_refs := st\<rparr>) = Some w'" "tb_inv ext [] b t' w'"
      "\<forall>e \<in> set (tb_entries t'). limit \<le> en_time e" "tw_calls w' = tw_calls w2 @ map (\<lambda>e. (en_time e, e)) cs"
      "subseq cs (due limit t2)" "subseq (filter (never_removed H) (due limit t2)) cs" by auto
    have "fire_entries (Suc n) H limit b w = Some w'"
      using t(1) e w2(1) st(1) ih(1) by (subst fire_entries.simps) (simp add: Let_def)
    moreover have "due limit t = e # due limit ?t1" using e by simp
    moreover have "subseq cs (due limit ?t1)" using ih(5) w2(4) by (rule subseq_order.order_trans)
    moreover have "subseq (filter (never_removed H) (due limit ?t1)) cs" using ih(6) unfolding w2(5) .
    ultimately show ?thesis
      using ih(2-4) w2(6) by (intro exI [of _ w'] exI [of _ t'] exI [of _ "e # cs"]) (simp add: list_emb_Cons)
  qed
qed

text \<open>Methods without effect on the timebase: exactly the due entries are called, in order.\<close>

lemma fire_entries_plain:
  assumes "tb_inv ext [] b t w" "length (due limit t) \<le> n"
  shows "\<exists>w' t'. fire_entries n (\<lambda>_ _. []) limit b w = Some w' \<and> tb_inv ext [] b t' w' \<and>
      tb_entries t' = dropWhile (\<lambda>e. en_time e < limit) (tb_entries t) \<and>
      tw_calls w' = tw_calls w @ map (\<lambda>e. (en_time e, e)) (takeWhile (\<lambda>e. en_time e < limit) (tb_entries t))"
  using assms
proof (induction n arbitrary: w t)
  case (0 w t)
  have t: "tw_bases w b = Some t" using 0 by (auto simp: tb_inv_def)
  have not_due: "\<not> (\<exists>e es. tb_entries t = e # es \<and> en_time e < limit)" using 0(2) by auto
  then have "fire_entries 0 (\<lambda>_ _. []) limit b w = Some w"
    using t by (subst fire_entries.simps) (auto split: list.splits)
  then show ?case using 0(1) not_due by (cases "tb_entries t") auto
next
  case (Suc n w t)
  have t: "tw_bases w b = Some t" using Suc.prems by (auto simp: tb_inv_def)
  show ?case
  proof (cases "\<exists>e es. tb_entries t = e # es \<and> en_time e < limit")
    case False
    then have "fire_entries (Suc n) (\<lambda>_ _. []) limit b w = Some w"
      using t by (subst fire_entries.simps) (auto split: list.splits)
    then show ?thesis using Suc.prems(1) False by (cases "tb_entries t") auto
  next
    case True
    then obtain e es where e: "tb_entries t = e # es" "en_time e < limit" by blast
    let ?t1 = "t\<lparr>tb_entries := es, tb_time := en_time e\<rparr>"
    let ?w1 = "(set_base b ?t1 w)\<lparr>tw_calls := tw_calls w @ [(en_time e, e)]\<rparr>"
    have "balanced (tw_refs w) ext (queue_refs (tb_entries t))" using Suc.prems(1) by (simp add: tb_inv_def)
    then have "balanced (tw_refs w) ext (entry_refs e @ queue_refs es)"
      by (rule balanced_cong [THEN iffD1, rotated]) (simp add: e entry_refs_def)
    then obtain st where st: "fts_timebase_entry_free e (tw_refs w) = Some st" "balanced st ext (queue_refs es)"
      using entry_free_ok by blast
    have inv: "tb_inv ext [] b ?t1 (?w1\<lparr>tw_refs := st\<rparr>)"
      using Suc.prems(1) e st(2) by (auto simp: tb_inv_def set_base_def)
    have "length (due limit ?t1) \<le> n" using Suc.prems(2) e by simp
    then obtain w' t' where ih: "fire_entries n (\<lambda>_ _. []) limit b (?w1\<lparr>tw_refs := st\<rparr>) = Some w'" "tb_inv ext [] b t' w'"
      "tb_entries t' = dropWhile (\<lambda>e. en_time e < limit) es"
      "tw_calls w' = tw_calls w @ [(en_time e, e)] @ map (\<lambda>e. (en_time e, e)) (takeWhile (\<lambda>e. en_time e < limit) es)"
      using Suc.IH [OF inv] by (auto simp: set_base_def)
    have "tw_refs (set_base b ?t1 w) = tw_refs w" by (simp add: set_base_def)
    then have "fire_entries (Suc n) (\<lambda>_ _. []) limit b w = Some w'"
      using t e st(1) ih(1) by (subst fire_entries.simps) (simp add: Let_def)
    then show ?thesis using ih e by auto
  qed
qed

text \<open>A whole step of a timebase without slaves.\<close>

lemma advance_ok:
  assumes inv: "tb_inv ext [] b t w" and "tb_slaves t = []"
    and n: "length (due (tb_time t + tb_step t) t) \<le> n"
    and H: "\<forall>e v. \<forall>p \<in> set (H e v). op_ok ext e (tb_time t + tb_step t) p"
  shows "\<exists>w' t' cs. fts_timebase_advance n tick H b w = Some w' \<and> tb_inv ext [] b t' w' \<and>
      tb_time t' = tb_time t + tb_step t \<and> tw_calls w' = tw_calls w @ map (\<lambda>e. (en_time e, e)) cs \<and>
      subseq cs (due (tb_time t + tb_step t) t) \<and> subseq (filter (never_removed H) (due (tb_time t + tb_step t) t)) cs"
proof -
  let ?t = "t\<lparr>tb_tick_time := tb_time t\<rparr>" and ?l = "tb_time t + tb_step t"
  have b: "tw_bases w b = Some t" using inv by (simp add: tb_inv_def)
  have inv1: "tb_inv ext [] b ?t (set_base b ?t w)" using inv by (simp add: tb_inv_def set_base_def)
  obtain w2 t2 cs where w2: "fire_entries n H ?l b (set_base b ?t w) = Some w2" "tb_inv ext [] b t2 w2"
    "\<forall>e \<in> set (tb_entries t2). ?l \<le> en_time e" "tw_calls w2 = tw_calls w @ map (\<lambda>e. (en_time e, e)) cs"
    "subseq cs (due ?l ?t)" "subseq (filter (never_removed H) (due ?l ?t)) cs"
    using fire_entries_ok [OF inv1 _ H, of n] n by (auto simp: set_base_def)
  let ?w' = "set_base b (t2\<lparr>tb_time := ?l\<rparr>) w2"
  have "fts_timebase_advance n tick H b w = Some ?w'"
    using b assms(2) w2(1,2)
    by (simp add: fts_timebase_advance_def fts_timebase_advance_slaves_def tb_inv_def)
      (simp add: set_base_def)
  moreover have "tb_inv ext [] b (t2\<lparr>tb_time := ?l\<rparr>) ?w'" using w2(2,3) by (simp add: tb_inv_def set_base_def)
  ultimately show ?thesis using w2(4-6) by (intro exI [of _ ?w'] exI [of _ "t2\<lparr>tb_time := ?l\<rparr>"] exI [of _ cs]) (simp add: set_base_def)
qed

subsection \<open>Slaves\<close>

text \<open>
  The worlds that the operations reach, from timebases that were initialised. The origin of a
  timebase is only ever copied from its master, and the first one is null.
\<close>

inductive tb_reachable :: "('t::{linorder,plus,minus,times,divide,zero}) tworld \<Rightarrow> bool" where
  start: "(\<And>b t. tw_bases w b = Some t \<Longrightarrow> \<exists>tick locate. t = fts_timebase_init tick locate) \<Longrightarrow> tb_reachable w"
| set_time: "tb_reachable w \<Longrightarrow> fts_timebase_set_time b x w = Some w' \<Longrightarrow> tb_reachable w'"
| set_step: "tb_reachable w \<Longrightarrow> fts_timebase_set_step b x w = Some w' \<Longrightarrow> tb_reachable w'"
| add_slave: "tb_reachable w \<Longrightarrow> fts_timebase_add_slave b s w = Some w' \<Longrightarrow> tb_reachable w'"
| remove_slave: "tb_reachable w \<Longrightarrow> fts_timebase_remove_slave b s w = Some w' \<Longrightarrow> tb_reachable w'"
| add_call: "tb_reachable w \<Longrightarrow> fts_timebase_add_call blk b obj mth at delay w = Some w' \<Longrightarrow> tb_reachable w'"
| remove_object: "tb_reachable w \<Longrightarrow> fts_timebase_remove_object b obj w = Some w' \<Longrightarrow> tb_reachable w'"
| reset: "tb_reachable w \<Longrightarrow> fts_timebase_reset b w = Some w' \<Longrightarrow> tb_reachable w'"
| retime: "tb_reachable w \<Longrightarrow> retime_entries n s w = Some w' \<Longrightarrow> tb_reachable w'"
| fire: "tb_reachable w \<Longrightarrow> fire_entries n H limit b w = Some w' \<Longrightarrow> tb_reachable w'"

definition null_origins :: "'t tworld \<Rightarrow> bool" where
  "null_origins w \<longleftrightarrow> (\<forall>b t. tw_bases w b = Some t \<longrightarrow> tb_origin t = 0)"

lemma null_lookup: "null_origins w \<Longrightarrow> tw_bases w b = Some t \<Longrightarrow> tb_origin t = 0"
  by (simp add: null_origins_def)

lemma null_set_base: "null_origins w \<Longrightarrow> tb_origin t = 0 \<Longrightarrow> null_origins (set_base b t w)"
  by (simp add: null_origins_def set_base_def)

lemma null_update [simp]: "null_origins (w\<lparr>tw_refs := st\<rparr>) = null_origins w"
  "null_origins (w\<lparr>tw_calls := cs\<rparr>) = null_origins w"
  by (simp_all add: null_origins_def)

lemma null_add_slave: "null_origins w \<Longrightarrow> fts_timebase_add_slave b s w = Some w' \<Longrightarrow> null_origins w'"
  by (auto simp: fts_timebase_add_slave_def bind_eq_Some_conv null_origins_def set_base_def Let_def split: if_splits)

lemma null_remove_slave: "null_origins w \<Longrightarrow> fts_timebase_remove_slave b s w = Some w' \<Longrightarrow> null_origins w'"
  by (auto simp: fts_timebase_remove_slave_def bind_eq_Some_conv null_origins_def set_base_def split: if_splits)

lemma null_add_call: "null_origins w \<Longrightarrow> fts_timebase_add_call blk b obj mth at delay w = Some w' \<Longrightarrow> null_origins w'"
  by (auto simp: fts_timebase_add_call_def bind_eq_Some_conv null_origins_def set_base_def split: if_splits)

lemma null_remove_object: "null_origins w \<Longrightarrow> fts_timebase_remove_object b obj w = Some w' \<Longrightarrow> null_origins w'"
  by (auto simp: fts_timebase_remove_object_def bind_eq_Some_conv null_origins_def set_base_def split: if_splits)

lemma null_remove_slaves: "null_origins w \<Longrightarrow> remove_slaves ss w = Some w' \<Longrightarrow> null_origins w'"
proof (induction ss arbitrary: w)
  case (Cons s ss)
  then obtain sl st where
    "remove_slaves ss ((set_base s (sl\<lparr>tb_master := 0, tb_origin := 0\<rparr>) w)\<lparr>tw_refs := st\<rparr>) = Some w'"
    by (auto simp: bind_eq_Some_conv)
  moreover have "null_origins ((set_base s (sl\<lparr>tb_master := 0, tb_origin := 0\<rparr>) w)\<lparr>tw_refs := st\<rparr>)"
    using Cons.prems(1) by (simp add: null_set_base)
  ultimately show ?case using Cons.IH by blast
qed simp

lemma null_setters:
  "null_origins w \<Longrightarrow> fts_timebase_set_time b x w = Some w' \<Longrightarrow> null_origins w'"
  "null_origins w \<Longrightarrow> fts_timebase_set_step b x w = Some w' \<Longrightarrow> null_origins w'"
  by (auto simp: fts_timebase_set_time_def fts_timebase_set_step_def bind_eq_Some_conv null_origins_def set_base_def
      split: if_splits)

lemma null_reset:
  assumes "null_origins w" "fts_timebase_reset b w = Some w'"
  shows "null_origins w'"
proof -
  obtain t w1 where t: "tw_bases w b = Some t" "timebase_remove_entries b (set_base b (t\<lparr>tb_time := 0\<rparr>) w) = Some w1"
    "timebase_remove_slaves b w1 = Some w'"
    using assms(2) by (auto simp: fts_timebase_reset_def bind_eq_Some_conv)
  have "null_origins w1"
    using t(1,2) null_lookup [OF assms(1) t(1)] assms(1)
    by (auto simp: timebase_remove_entries_def bind_eq_Some_conv null_origins_def set_base_def split: if_splits)
  moreover obtain t1 where t1: "tw_bases w1 b = Some t1"
    "remove_slaves (tb_slaves t1) (set_base b (t1\<lparr>tb_slaves := []\<rparr>) w1) = Some w'"
    using t(3) by (auto simp: timebase_remove_slaves_def bind_eq_Some_conv)
  ultimately have "null_origins (set_base b (t1\<lparr>tb_slaves := []\<rparr>) w1)"
    using null_lookup [OF _ t1(1)] by (simp add: null_set_base)
  then show ?thesis using null_remove_slaves t1(2) by blast
qed

lemma null_apply_ops: "null_origins w \<Longrightarrow> apply_ops b ps w = Some w' \<Longrightarrow> null_origins w'"
proof (induction ps arbitrary: w)
  case (Cons p ps)
  then obtain w1 where w1: "apply_op b p w = Some w1" "apply_ops b ps w1 = Some w'"
    by (auto simp: bind_eq_Some_conv)
  have "null_origins w1"
    using w1(1) null_add_call [OF Cons.prems(1)] null_remove_object [OF Cons.prems(1)]
    by (cases p) (auto simp: apply_op_def)
  then show ?case using Cons.IH w1(2) by blast
qed simp

lemma null_fire: "null_origins w \<Longrightarrow> fire_entries n H limit b w = Some w' \<Longrightarrow> null_origins w'"
proof (induction n arbitrary: w)
  case 0
  then show ?case by (subst (asm) fire_entries.simps) (auto split: option.splits list.splits if_splits)
next
  case (Suc n)
  obtain t where t: "tw_bases w b = Some t"
    using Suc.prems(2) by (subst (asm) fire_entries.simps) (auto split: option.splits)
  show ?case
  proof (cases "\<exists>e es. tb_entries t = e # es \<and> en_time e < limit")
    case False
    then have "w' = w"
      using t Suc.prems(2) by (subst (asm) fire_entries.simps) (auto split: list.splits if_splits)
    then show ?thesis using Suc.prems(1) by simp
  next
    case True
    then obtain e es where e: "tb_entries t = e # es" "en_time e < limit" by blast
    let ?w1 = "(set_base b (t\<lparr>tb_entries := es, tb_time := en_time e\<rparr>) w)\<lparr>tw_calls := tw_calls w @ [(en_time e, e)]\<rparr>"
    have n1: "null_origins ?w1" using Suc.prems(1) null_lookup [OF Suc.prems(1) t] by (simp add: null_set_base)
    obtain w2 st where w2: "apply_ops b (H e ?w1) ?w1 = Some w2"
      "fire_entries n H limit b (w2\<lparr>tw_refs := st\<rparr>) = Some w'"
      using t e Suc.prems(2) by (subst (asm) fire_entries.simps) (auto simp: Let_def split: option.splits)
    have "null_origins (w2\<lparr>tw_refs := st\<rparr>)" using null_apply_ops [OF n1 w2(1)] by simp
    then show ?thesis using Suc.IH w2(2) by blast
  qed
qed

lemma retime_null:
  assumes "null_origins w" "tw_bases w s = Some sl"
  shows "retime_entries n s w = (case tb_entries sl of [] \<Rightarrow> Some w
     | e # es \<Rightarrow> if en_time e < tb_time sl + tb_step sl then None else Some w)"
  using assms(2) null_lookup [OF assms]
  by (subst retime_entries.simps) (auto split: list.splits nat.splits)

lemma null_retime:
  assumes "null_origins w" "retime_entries n s w = Some w'"
  shows "null_origins w'"
proof -
  obtain sl where "tw_bases w s = Some sl"
    using assms(2) by (subst (asm) retime_entries.simps) (auto split: option.splits)
  then show ?thesis using retime_null [OF assms(1)] assms by (auto split: list.splits if_splits)
qed

lemma reachable_null: "tb_reachable w \<Longrightarrow> null_origins w"
proof (induction rule: tb_reachable.induct)
  case (start w)
  then show ?case unfolding null_origins_def fts_timebase_init_def by fastforce
qed (rule null_setters null_add_slave null_remove_slave null_add_call null_remove_object null_reset null_retime null_fire,
    assumption, assumption)+

text \<open>Advancing a slave that has a due entry dereferences the null origin.\<close>

lemma advance_slave_crash:
  assumes "tb_reachable w" "tw_bases w s = Some sl" "tb_entries sl = e # es" "en_time e < tb_time sl + tb_step sl"
  shows "retime_entries n s w = None"
  using retime_null [OF reachable_null [OF assms(1)] assms(2)] assms(3,4) by simp

text \<open>A slave that is removed from the list keeps its master, and no timebase accepts it any more.\<close>

lemma removed_slave_lost:
  assumes "tw_bases w s = Some sl" "tb_master sl \<noteq> 0" "tw_bases w b = Some t" "s \<in> set (tb_slaves t)" "s \<noteq> b"
    and "fts_timebase_remove_slave b s w = Some w'" "tw_bases w' b2 = Some t2"
  shows "fts_timebase_add_slave b2 s w' = Some w'" and "tw_refs w' = tw_refs w"
  using assms by (auto simp: fts_timebase_remove_slave_def fts_timebase_add_slave_def set_base_def)

end
