(* ===== verification/MidiEvent.thy ===== *)
theory MidiEvent
  imports Prelude
begin

text \<open>
  MIDI events and the MIDI byte parser (\<open>fts/midievent.c\<close>, \<open>include/fts/midievent.h\<close>).

  The parser turns the bytes of a MIDI input into events, one byte at a time; each byte yields at
  most one event. It is split into the classes of bytes that the code distinguishes: system
  real-time, system common, channel status and data bytes, the latter by parser status. The
  event object that the parser allocates in advance is not part of the state: it is written
  completely before it is returned. C \<open>int\<close>s are HOL integers, all of them stay below 2^16.
\<close>

subsection \<open>Events\<close>

datatype midi_type = Midi_note | Midi_poly_pressure | Midi_control_change | Midi_program_change
  | Midi_channel_pressure | Midi_pitch_bend

fun midi_type_num :: "midi_type \<Rightarrow> int" where
  "midi_type_num Midi_note = 0"
| "midi_type_num Midi_poly_pressure = 1"
| "midi_type_num Midi_control_change = 2"
| "midi_type_num Midi_program_change = 3"
| "midi_type_num Midi_channel_pressure = 4"
| "midi_type_num Midi_pitch_bend = 5"

definition MIDI_EMPTY_BYTE :: int where "MIDI_EMPTY_BYTE = - 1"

datatype midievent =
    Channel_message midi_type (ev_channel: int) (ev_first: int) (ev_second: int)
  | System_exclusive "int list"
  | Time_code int int int int int
  | Song_position_pointer int
  | Song_select int
  | Real_time int

definition has_second_byte :: "midievent \<Rightarrow> bool" where
  "has_second_byte e \<longleftrightarrow> ev_second e \<noteq> MIDI_EMPTY_BYTE"

definition channel_message_status_byte :: "midi_type \<Rightarrow> int \<Rightarrow> int" where
  "channel_message_status_byte type channel = 144 + 16 * midi_type_num type + channel - 1"

definition real_time_status_byte :: "int \<Rightarrow> int" where
  "real_time_status_byte tag = 248 + tag"

text \<open>The two setters of the song position pointer, applied to the word \<open>w\<close> of a new event.\<close>

definition song_position_pointer :: "int \<Rightarrow> int \<Rightarrow> int \<Rightarrow> int" where
  "song_position_pointer w byte1 byte2 =
     (let w1 = (w AND 0x00ff) OR ((byte1 AND 0x00ff) * 256)
      in (w1 AND 0xff00) OR (byte2 AND 0x00ff))"

subsection \<open>Parser state\<close>

datatype midiparser_status = Status_reset | Status_note_off | Status_note_on | Status_poly_pressure
  | Status_control_change | Status_program_change | Status_channel_pressure | Status_pitch_bend
  | Status_real_time | Status_system_exclusive | Status_system_exclusive_byte
  | Status_system_exclusive_realtime | Status_system_exclusive_full_frame | Status_quarter_frame
  | Status_song_position_pointer | Status_song_select

datatype mtc_status = Mtc_ready | Mtc_forward | Mtc_backward

record midiparser =
  mp_status :: midiparser_status
  mp_channel :: int
  mp_store :: int
  mp_sysex :: "int list"
  mtc_status :: mtc_status
  mtc_frame_count :: int
  mtc_type :: int
  mtc_hour :: int
  mtc_minute :: int
  mtc_second :: int
  mtc_frame :: int

type_synonym parse_step = "midievent option \<times> midiparser"

definition fts_midiparser_init :: midiparser where
  "fts_midiparser_init =
     \<lparr>mp_status = Status_reset, mp_channel = 0, mp_store = MIDI_EMPTY_BYTE, mp_sysex = [],
      mtc_status = Mtc_ready, mtc_frame_count = 99, mtc_type = 0, mtc_hour = 0, mtc_minute = 0,
      mtc_second = 0, mtc_frame = 0\<rparr>"

subsection \<open>Bytes\<close>

text \<open>System common bytes, \<open>0xf0\<close> to \<open>0xf7\<close>.\<close>

definition midiparser_system_common :: "int \<Rightarrow> midiparser \<Rightarrow> parse_step" where
  "midiparser_system_common byte p =
     (if byte = 240 then (None, p\<lparr>mp_status := Status_system_exclusive\<rparr>)
      else if byte = 241 then (None, p\<lparr>mp_status := Status_quarter_frame\<rparr>)
      else if byte = 242 then
        (None, p\<lparr>mp_status := Status_song_position_pointer, mp_store := MIDI_EMPTY_BYTE\<rparr>)
      else if byte = 243 then (None, p\<lparr>mp_status := Status_song_select\<rparr>)
      else if byte = 246 then (None, p)
      else if byte = 247 then
        (if length (mp_sysex p) > 0 then (Some (System_exclusive (mp_sysex p)), p)
         else (None, p\<lparr>mp_status := Status_reset\<rparr>))
      else (None, p))"

text \<open>The status of a channel message byte: \<open>(byte >> 4) - 7\<close> as a value of the enumeration.\<close>

definition channel_status :: "int \<Rightarrow> midiparser_status" where
  "channel_status n =
     (if n = 1 then Status_note_off else if n = 2 then Status_note_on
      else if n = 3 then Status_poly_pressure else if n = 4 then Status_control_change
      else if n = 5 then Status_program_change else if n = 6 then Status_channel_pressure
      else Status_pitch_bend)"

definition midiparser_channel_status :: "int \<Rightarrow> midiparser \<Rightarrow> parse_step" where
  "midiparser_channel_status byte p =
     (None, p\<lparr>mp_status := channel_status (byte div 16 - 7), mp_channel := (byte AND 0xf) + 1,
             mp_store := MIDI_EMPTY_BYTE\<rparr>)"

text \<open>A message of two data bytes: the first is stored, the second makes the event.\<close>

definition midiparser_two_bytes :: "(int \<Rightarrow> int \<Rightarrow> midievent) \<Rightarrow> int \<Rightarrow> midiparser \<Rightarrow> parse_step" where
  "midiparser_two_bytes event byte p =
     (if mp_store p = MIDI_EMPTY_BYTE then (None, p\<lparr>mp_store := byte\<rparr>)
      else (Some (event (mp_store p) byte), p\<lparr>mp_store := MIDI_EMPTY_BYTE\<rparr>))"

definition midiparser_system_exclusive :: "int \<Rightarrow> midiparser \<Rightarrow> parse_step" where
  "midiparser_system_exclusive byte p =
     (if byte = 0x7f then (None, p\<lparr>mp_status := Status_system_exclusive_realtime\<rparr>)
      else (None, p\<lparr>mp_sysex := [byte AND 0x7f], mp_status := Status_system_exclusive_byte\<rparr>))"

definition midiparser_system_exclusive_realtime :: "int \<Rightarrow> midiparser \<Rightarrow> parse_step" where
  "midiparser_system_exclusive_realtime byte p =
     (if byte = 0x01
      then (None, p\<lparr>mp_status := Status_system_exclusive_full_frame, mtc_frame_count := - 1\<rparr>)
      else (None, p\<lparr>mp_sysex := [0x7f, byte], mp_status := Status_system_exclusive_byte\<rparr>))"

definition midiparser_full_frame :: "int \<Rightarrow> midiparser \<Rightarrow> parse_step" where
  "midiparser_full_frame byte p =
     (let q = (if mtc_frame_count p = - 1 then
                 (if byte = 0x01 then p\<lparr>mtc_frame_count := 0\<rparr>
                  else p\<lparr>mp_sysex := [0x7f, 0x01, byte], mp_status := Status_system_exclusive_byte\<rparr>)
               else if mtc_frame_count p = 0 then
                 p\<lparr>mtc_type := (byte AND 0x60) div 32, mtc_hour := byte AND 0x1f\<rparr>
               else if mtc_frame_count p = 1 then p\<lparr>mtc_minute := byte\<rparr>
               else if mtc_frame_count p = 2 then p\<lparr>mtc_second := byte\<rparr>
               else if mtc_frame_count p = 3 then p\<lparr>mtc_frame := byte\<rparr>
               else p)
      in (None, q\<lparr>mtc_frame_count := mtc_frame_count q + 1\<rparr>))"

definition mtc_event :: "midiparser \<Rightarrow> midievent" where
  "mtc_event p = Time_code (mtc_type p) (mtc_hour p) (mtc_minute p) (mtc_second p) (mtc_frame p)"

text \<open>The nibbles 1 to 6 of a time code.\<close>

definition mtc_nibble :: "int \<Rightarrow> int \<Rightarrow> int \<Rightarrow> midiparser \<Rightarrow> midiparser" where
  "mtc_nibble n lo hi p =
     (if n = 1 then p\<lparr>mtc_frame := (mtc_frame p AND 0x0f) OR hi\<rparr>
      else if n = 2 then p\<lparr>mtc_second := (mtc_second p AND 0xf0) OR lo\<rparr>
      else if n = 3 then p\<lparr>mtc_second := (mtc_second p AND 0x0f) OR hi\<rparr>
      else if n = 4 then p\<lparr>mtc_minute := (mtc_minute p AND 0xf0) OR lo\<rparr>
      else if n = 5 then p\<lparr>mtc_minute := (mtc_minute p AND 0x0f) OR hi\<rparr>
      else if n = 6 then p\<lparr>mtc_hour := (mtc_hour p AND 0xf0) OR lo\<rparr>
      else p)"

text \<open>Returning the time code skips the reset of the status at the end of the case.\<close>

definition midiparser_quarter_frame :: "int \<Rightarrow> midiparser \<Rightarrow> parse_step" where
  "midiparser_quarter_frame byte p =
     (let n = (byte AND 0xf0) div 16; lo = byte AND 0x0f; hi = (byte AND 0x0f) * 16 in
      if n = 0 then
        (let q = p\<lparr>mtc_frame := (mtc_frame p AND 0xf0) OR lo\<rparr>
         in if mtc_status q = Mtc_backward then (Some (mtc_event q), q\<lparr>mtc_status := Mtc_ready\<rparr>)
            else (None, q\<lparr>mtc_status := Mtc_forward, mp_status := Status_reset\<rparr>))
      else if n = 7 then
        (let q = p\<lparr>mtc_hour := (mtc_hour p AND 0x0f) OR ((byte AND 0x01) * 16), mtc_type := (byte AND 0x60) div 32\<rparr>
         in if mtc_status q = Mtc_forward then (Some (mtc_event q), q\<lparr>mtc_status := Mtc_ready\<rparr>)
            else (None, q\<lparr>mtc_status := Mtc_backward, mp_status := Status_reset\<rparr>))
      else (None, (mtc_nibble n lo hi p)\<lparr>mp_status := Status_reset\<rparr>))"

definition midiparser_data :: "int \<Rightarrow> midiparser \<Rightarrow> parse_step" where
  "midiparser_data byte p =
     (case mp_status p of
        Status_note_off \<Rightarrow> midiparser_two_bytes (\<lambda>b1 b2. Channel_message Midi_note (mp_channel p) b1 0) byte p
      | Status_note_on \<Rightarrow> midiparser_two_bytes (Channel_message Midi_note (mp_channel p)) byte p
      | Status_poly_pressure \<Rightarrow> midiparser_two_bytes (Channel_message Midi_poly_pressure (mp_channel p)) byte p
      | Status_control_change \<Rightarrow> midiparser_two_bytes (Channel_message Midi_control_change (mp_channel p)) byte p
      | Status_program_change \<Rightarrow>
          (Some (Channel_message Midi_program_change (mp_channel p) byte MIDI_EMPTY_BYTE), p)
      | Status_channel_pressure \<Rightarrow>
          (Some (Channel_message Midi_channel_pressure (mp_channel p) byte MIDI_EMPTY_BYTE), p)
      | Status_pitch_bend \<Rightarrow> midiparser_two_bytes (Channel_message Midi_pitch_bend (mp_channel p)) byte p
      | Status_song_position_pointer \<Rightarrow>
          midiparser_two_bytes (\<lambda>b1 b2. Song_position_pointer (song_position_pointer 0 b1 b2)) byte p
      | Status_song_select \<Rightarrow> (Some (Song_select byte), p)
      | Status_system_exclusive \<Rightarrow> midiparser_system_exclusive byte p
      | Status_system_exclusive_realtime \<Rightarrow> midiparser_system_exclusive_realtime byte p
      | Status_system_exclusive_byte \<Rightarrow> (None, p\<lparr>mp_sysex := mp_sysex p @ [byte]\<rparr>)
      | Status_system_exclusive_full_frame \<Rightarrow> midiparser_full_frame byte p
      | Status_quarter_frame \<Rightarrow> midiparser_quarter_frame byte p
      | _ \<Rightarrow> (None, p))"

definition fts_midiparser_byte :: "byte \<Rightarrow> midiparser \<Rightarrow> parse_step" where
  "fts_midiparser_byte b p =
     (let byte = uint b in
      if byte \<ge> 248 then (Some (Real_time (byte - 248)), p)
      else if byte \<ge> 240 then midiparser_system_common byte p
      else if byte > 127 then midiparser_channel_status byte p
      else midiparser_data byte p)"

text \<open>A stream of bytes: the events in order, and the parser after it.\<close>

fun midiparser_stream :: "byte list \<Rightarrow> midiparser \<Rightarrow> midievent list \<times> midiparser" where
  "midiparser_stream [] p = ([], p)"
| "midiparser_stream (b # bs) p =
     (case fts_midiparser_byte b p of (e, p1) \<Rightarrow>
        case midiparser_stream bs p1 of (es, p2) \<Rightarrow> (case e of None \<Rightarrow> es | Some x \<Rightarrow> x # es, p2))"

subsection \<open>Arithmetic of bytes\<close>

lemma and_low: "(x::int) AND 15 = x mod 16" "(x::int) AND 255 = x mod 256" "(x::int) AND 127 = x mod 128"
    "(x::int) AND 1 = x mod 2"
proof -
  have *: "x AND mask n = x mod 2 ^ n" for n by (simp flip: take_bit_eq_mask take_bit_eq_mod)
  show "x AND 15 = x mod 16" using * [of 4] by (simp add: mask_eq_exp_minus_1)
  show "x AND 255 = x mod 256" using * [of 8] by (simp add: mask_eq_exp_minus_1)
  show "x AND 127 = x mod 128" using * [of 7] by (simp add: mask_eq_exp_minus_1)
  show "x AND 1 = x mod 2" using * [of 1] by (simp add: mask_eq_exp_minus_1)
qed

lemma or_high:
  fixes lo hi :: int
  assumes "0 \<le> lo" "lo < 2 ^ n"
  shows "lo OR (hi * 2 ^ n) = lo + hi * 2 ^ n"
proof -
  have lo: "take_bit n lo = lo" using assms by (simp add: take_bit_int_eq_self)
  have "lo AND push_bit n hi = 0"
  proof (rule bit_eqI)
    fix i
    show "bit (lo AND push_bit n hi) i = bit (0 :: int) i"
      by (subst lo [symmetric]) (simp add: bit_simps)
  qed
  then show ?thesis by (simp add: push_bit_eq_mult disjunctive_add_eq_or [symmetric])
qed

lemma uint_byte: "0 \<le> n \<Longrightarrow> n < 256 \<Longrightarrow> uint (word_of_int n :: byte) = n"
  by (simp add: word_of_int_inverse)

lemma nibbles:
  fixes a lo hi :: int
  assumes "0 \<le> lo" "lo < 16" "0 \<le> hi" "hi < 16"
  shows "(((a AND 240) OR lo) AND 15) OR (hi * 16) = lo + 16 * hi"
proof -
  have "((a AND 240) OR lo) AND 15 = lo AND 15"
    by (simp add: bit.conj_disj_distrib2 and.assoc)
  also have "\<dots> = lo" using assms by (simp add: and_low)
  finally show ?thesis using or_high [of lo 4 hi] assms by simp
qed

subsection \<open>Encoding events\<close>

text \<open>
  The bytes of an event, as a MIDI output sends them, and the events that are read back: a time code has
  no bytes of its own, and a system exclusive message that is empty or that starts like a full time code
  frame (\<open>0x7f 0x01 0x01\<close>, or ends before that is decided) is not stored by the parser.
\<close>

definition two_data_bytes :: "midi_type \<Rightarrow> bool" where
  "two_data_bytes type \<longleftrightarrow> type \<noteq> Midi_program_change \<and> type \<noteq> Midi_channel_pressure"

fun midi_bytes :: "midievent \<Rightarrow> int list" where
  "midi_bytes (Channel_message type ch b1 b2) =
     channel_message_status_byte type ch # b1 # (if b2 = MIDI_EMPTY_BYTE then [] else [b2])"
| "midi_bytes (System_exclusive xs) = 240 # xs @ [247]"
| "midi_bytes (Time_code _ _ _ _ _) = []"
| "midi_bytes (Song_position_pointer n) = [242, n div 256, n mod 256]"
| "midi_bytes (Song_select n) = [243, n]"
| "midi_bytes (Real_time t) = [real_time_status_byte t]"

definition data_byte :: "int \<Rightarrow> bool" where
  "data_byte b \<longleftrightarrow> 0 \<le> b \<and> b < 128"

fun midi_event_ok :: "midievent \<Rightarrow> bool" where
  "midi_event_ok (Channel_message type ch b1 b2) \<longleftrightarrow> 1 \<le> ch \<and> ch \<le> 16 \<and> data_byte b1 \<and>
     (if two_data_bytes type then data_byte b2 else b2 = MIDI_EMPTY_BYTE)"
| "midi_event_ok (System_exclusive xs) \<longleftrightarrow> xs \<noteq> [] \<and> xs \<noteq> [127] \<and> xs \<noteq> [127, 1] \<and> take 3 xs \<noteq> [127, 1, 1] \<and>
     (\<forall>x \<in> set xs. data_byte x)"
| "midi_event_ok (Time_code _ _ _ _ _) \<longleftrightarrow> False"
| "midi_event_ok (Song_position_pointer n) \<longleftrightarrow> data_byte (n div 256) \<and> data_byte (n mod 256)"
| "midi_event_ok (Song_select n) \<longleftrightarrow> data_byte n"
| "midi_event_ok (Real_time t) \<longleftrightarrow> 0 \<le> t \<and> t < 8"

abbreviation to_bytes :: "int list \<Rightarrow> byte list" where
  "to_bytes \<equiv> map word_of_int"

lemma byte_data:
  "data_byte b \<Longrightarrow> fts_midiparser_byte (word_of_int b) p = midiparser_data b p"
  by (simp add: fts_midiparser_byte_def data_byte_def uint_byte)

lemma byte_common:
  "240 \<le> b \<Longrightarrow> b < 248 \<Longrightarrow> fts_midiparser_byte (word_of_int b) p = midiparser_system_common b p"
  by (simp add: fts_midiparser_byte_def uint_byte)

lemma byte_real_time:
  "0 \<le> t \<Longrightarrow> t < 8 \<Longrightarrow> fts_midiparser_byte (word_of_int (real_time_status_byte t)) p = (Some (Real_time t), p)"
  using uint_byte [of "248 + t"] by (simp add: fts_midiparser_byte_def real_time_status_byte_def)

lemma midi_type_num_range: "0 \<le> midi_type_num type" "midi_type_num type \<le> 5"
  by (cases type; simp)+

lemma byte_status:
  assumes "1 \<le> ch" "ch \<le> 16"
  shows "fts_midiparser_byte (word_of_int (channel_message_status_byte type ch)) p =
    (None, p\<lparr>mp_status := channel_status (2 + midi_type_num type), mp_channel := ch, mp_store := MIDI_EMPTY_BYTE\<rparr>)"
proof -
  let ?s = "channel_message_status_byte type ch"
  have s: "?s = 16 * (9 + midi_type_num type) + (ch - 1)" by (simp add: channel_message_status_byte_def)
  have div_mod: "(16 * k + r) div 16 = k" "(16 * k + r) mod 16 = r" if "0 \<le> r" "r < 16" for k r :: int
    using that by simp_all
  have "?s < 240" "127 < ?s" using assms midi_type_num_range [of type] s by simp_all
  moreover have "?s div 16 = 9 + midi_type_num type" "?s mod 16 = ch - 1"
    unfolding s using assms by (simp_all only: div_mod)
  ultimately show ?thesis
    by (simp add: fts_midiparser_byte_def uint_byte midiparser_channel_status_def and_low)
qed

lemma two_bytes_run:
  "mp_store p = MIDI_EMPTY_BYTE \<Longrightarrow> data_byte b1 \<Longrightarrow>
     midiparser_two_bytes f b1 p = (None, p\<lparr>mp_store := b1\<rparr>) \<and>
     midiparser_two_bytes f b2 (p\<lparr>mp_store := b1\<rparr>) = (Some (f b1 b2), p\<lparr>mp_store := MIDI_EMPTY_BYTE\<rparr>)"
  by (auto simp: midiparser_two_bytes_def MIDI_EMPTY_BYTE_def data_byte_def)

lemma stream_append:
  "midiparser_stream (bs @ cs) p =
     (fst (midiparser_stream bs p) @ fst (midiparser_stream cs (snd (midiparser_stream bs p))),
      snd (midiparser_stream cs (snd (midiparser_stream bs p))))"
  by (induction bs arbitrary: p) (auto split: prod.splits option.splits)

text \<open>The data bytes of a channel message, after its status byte or under running status.\<close>

lemma channel_data_run:
  assumes "mp_status p = channel_status (2 + midi_type_num type)" "mp_store p = MIDI_EMPTY_BYTE"
    and "data_byte b1" "if two_data_bytes type then data_byte b2 else b2 = MIDI_EMPTY_BYTE"
  shows "midiparser_stream (to_bytes (b1 # (if b2 = MIDI_EMPTY_BYTE then [] else [b2]))) p =
    ([Channel_message type (mp_channel p) b1 b2], p)"
proof (cases "two_data_bytes type")
  case True
  then have b2: "data_byte b2" "b2 \<noteq> MIDI_EMPTY_BYTE"
    using assms(4) by (auto simp: data_byte_def MIDI_EMPTY_BYTE_def)
  have p: "p\<lparr>mp_store := MIDI_EMPTY_BYTE\<rparr> = p" using assms(2) by (simp flip: assms(2))
  show ?thesis
    using True assms(1) two_bytes_run [OF assms(2,3)] b2 p
    by (cases type) (simp_all add: two_data_bytes_def channel_status_def byte_data assms(3) midiparser_data_def)
next
  case False
  then show ?thesis
    using assms by (cases type) (simp_all add: two_data_bytes_def channel_status_def byte_data midiparser_data_def)
qed

lemma running_status:
  assumes "mp_status p = channel_status (2 + midi_type_num type)" "mp_store p = MIDI_EMPTY_BYTE"
    and "two_data_bytes type" "\<forall>(b1, b2) \<in> set ds. data_byte b1 \<and> data_byte b2"
  shows "midiparser_stream (to_bytes (concat (map (\<lambda>(b1, b2). [b1, b2]) ds))) p =
    (map (\<lambda>(b1, b2). Channel_message type (mp_channel p) b1 b2) ds, p)"
  using assms(4)
proof (induction ds)
  case Nil
  then show ?case by simp
next
  case (Cons d ds)
  obtain b1 b2 where d: "d = (b1, b2)" by (cases d)
  have b: "data_byte b1" "data_byte b2" "b2 \<noteq> MIDI_EMPTY_BYTE"
    using Cons.prems by (auto simp: d data_byte_def MIDI_EMPTY_BYTE_def)
  have "midiparser_stream (to_bytes [b1, b2]) p = ([Channel_message type (mp_channel p) b1 b2], p)"
    using channel_data_run [OF assms(1,2) b(1), of b2] b assms(3) by simp
  then show ?case
    using stream_append [of "to_bytes [b1, b2]" _ p] Cons by (simp add: d)
qed

lemma song_position_value:
  assumes "data_byte b1" "data_byte b2"
  shows "song_position_pointer 0 b1 b2 = 256 * b1 + b2"
proof -
  have "push_bit 8 b1 AND push_bit 8 255 = push_bit 8 (b1 AND 255)" by (simp add: push_bit_and)
  then have "(b1 * 256) AND 65280 = b1 * 256" using assms by (simp add: push_bit_eq_mult and_low data_byte_def)
  then show ?thesis
    using assms or_high [of b2 8 b1] by (simp add: song_position_pointer_def and_low or.commute data_byte_def)
qed

lemma sysex_data_run:
  assumes "mp_status p = Status_system_exclusive_byte" "\<forall>x \<in> set xs. data_byte x"
  shows "midiparser_stream (to_bytes xs) p = ([], p\<lparr>mp_sysex := mp_sysex p @ xs\<rparr>)"
  using assms
proof (induction xs arbitrary: p)
  case Nil
  then show ?case by simp
next
  case (Cons x xs)
  then show ?case by (simp add: byte_data midiparser_data_def)
qed

lemma end_of_sysex: "fts_midiparser_byte 247 q =
    (if mp_sysex q \<noteq> [] then (Some (System_exclusive (mp_sysex q)), q) else (None, q\<lparr>mp_status := Status_reset\<rparr>))"
  using byte_common [of 247 q] by (simp add: midiparser_system_common_def)

lemma sysex_start:
  assumes "midi_event_ok (System_exclusive xs)"
  shows "\<exists>us vs p'. xs = us @ vs \<and> midiparser_stream (to_bytes (240 # us)) p = ([], p') \<and>
    mp_status p' = Status_system_exclusive_byte \<and> mp_sysex p' = us"
proof -
  obtain x ys where xs: "xs = x # ys" "data_byte x" using assms by (cases xs) auto
  have fixed: "fts_midiparser_byte 127 q = midiparser_data 127 q" "fts_midiparser_byte 1 q = midiparser_data 1 q" for q
    using byte_data [of 127 q] byte_data [of 1 q] by (simp_all add: data_byte_def)
  have sysex: "fts_midiparser_byte 240 p = midiparser_system_common 240 p" using byte_common [of 240 p] by simp
  note run = sysex byte_data [OF xs(2)] fixed midiparser_system_common_def midiparser_data_def
  show ?thesis
  proof (cases "x = 127")
    case False
    have "x AND 127 = x" using xs(2) by (simp add: and_low data_byte_def)
    then show ?thesis using False xs(1)
      by - (rule exI [of _ "[x]"], rule exI [of _ ys], rule exI [of _ "p\<lparr>mp_sysex := [x], mp_status := Status_system_exclusive_byte\<rparr>"],
        simp add: run midiparser_system_exclusive_def)
  next
    case x: True
    then obtain y zs where y: "ys = y # zs" "data_byte y" using assms xs(1) by (cases ys) auto
    show ?thesis
    proof (cases "y = 1")
      case False
      then show ?thesis using x xs(1) y(1)
        by - (rule exI [of _ "[127, y]"], rule exI [of _ zs], rule exI [of _ "p\<lparr>mp_sysex := [127, y], mp_status := Status_system_exclusive_byte\<rparr>"],
        simp add: run byte_data [OF y(2)] midiparser_system_exclusive_def midiparser_system_exclusive_realtime_def)
    next
      case True
      then obtain z ws where z: "zs = z # ws" "data_byte z" "z \<noteq> 1" using assms xs(1) x y(1) by (cases zs) auto
      let ?q = "p\<lparr>mp_sysex := [127, 1, z], mp_status := Status_system_exclusive_byte, mtc_frame_count := 0\<rparr>"
      show ?thesis using x True xs(1) y(1) z(1,3)
        by - (rule exI [of _ "[127, 1, z]"], rule exI [of _ ws], rule exI [of _ ?q],
          simp add: run byte_data [OF z(2)] midiparser_system_exclusive_def midiparser_system_exclusive_realtime_def
            midiparser_full_frame_def)
    qed
  qed
qed

lemma sysex_run:
  assumes "midi_event_ok (System_exclusive xs)"
  shows "\<exists>p'. midiparser_stream (to_bytes (240 # xs)) p = ([], p') \<and> mp_sysex p' = xs"
proof -
  obtain us vs q where q: "xs = us @ vs" "midiparser_stream (to_bytes (240 # us)) p = ([], q)"
    "mp_status q = Status_system_exclusive_byte" "mp_sysex q = us"
    using sysex_start [OF assms] by blast
  have "midiparser_stream (to_bytes vs) q = ([], q\<lparr>mp_sysex := us @ vs\<rparr>)"
    using sysex_data_run [OF q(3), of vs] assms q(1,4) by simp
  moreover have "240 # xs = (240 # us) @ vs" by (simp add: q(1))
  ultimately show ?thesis using q(1,2) by (simp only: map_append stream_append) simp
qed

lemma event_run:
  assumes "midi_event_ok e"
  shows "\<exists>p'. midiparser_stream (to_bytes (midi_bytes e)) p = ([e], p')"
proof (cases e)
  case (Channel_message type ch b1 b2)
  let ?p = "p\<lparr>mp_status := channel_status (2 + midi_type_num type), mp_channel := ch, mp_store := MIDI_EMPTY_BYTE\<rparr>"
  have "midiparser_stream (to_bytes (b1 # (if b2 = MIDI_EMPTY_BYTE then [] else [b2]))) ?p =
      ([Channel_message type ch b1 b2], ?p)"
    using channel_data_run [of ?p type b1 b2] assms Channel_message by simp
  then show ?thesis using assms Channel_message by (simp add: byte_status)
next
  case (System_exclusive xs)
  then obtain p' where p': "midiparser_stream (to_bytes (240 # xs)) p = ([], p')" "mp_sysex p' = xs"
    using sysex_run assms by blast
  have "midi_bytes e = (240 # xs) @ [247]" using System_exclusive by simp
  then have "midiparser_stream (to_bytes (midi_bytes e)) p = ([System_exclusive xs], p')"
    using p' assms System_exclusive by (simp only: map_append stream_append) (simp add: end_of_sysex)
  then show ?thesis using System_exclusive by blast
next
  case (Song_position_pointer n)
  have r: "0 \<le> n div 256" "n div 256 < 128" "0 \<le> n mod 256" "n mod 256 < 128"
    using assms Song_position_pointer by (simp_all add: data_byte_def)
  have "song_position_pointer 0 (n div 256) (n mod 256) = n"
    using assms Song_position_pointer song_position_value [of "n div 256" "n mod 256"] by simp
  then show ?thesis
    using byte_common [of 242 p] assms Song_position_pointer
      two_bytes_run [of "p\<lparr>mp_status := Status_song_position_pointer, mp_store := MIDI_EMPTY_BYTE\<rparr>" "n div 256"
        "\<lambda>b1 b2. Song_position_pointer (song_position_pointer 0 b1 b2)" "n mod 256"]
    by (simp add: midiparser_system_common_def byte_data midiparser_data_def)
next
  case (Song_select n)
  then show ?thesis
    using byte_common [of 243 p] assms by (simp add: midiparser_system_common_def byte_data midiparser_data_def)
next
  case (Real_time t)
  then show ?thesis using byte_real_time assms by simp
qed (use assms in simp)

lemma events_roundtrip:
  assumes "\<forall>e \<in> set es. midi_event_ok e"
  shows "fst (midiparser_stream (to_bytes (concat (map midi_bytes es))) p) = es"
  using assms
proof (induction es arbitrary: p)
  case Nil
  then show ?case by simp
next
  case (Cons e es)
  obtain p' where "midiparser_stream (to_bytes (midi_bytes e)) p = ([e], p')"
    using event_run Cons.prems by (meson list.set_intros(1))
  then show ?case using Cons by (simp add: stream_append)
qed

subsection \<open>Real-time bytes\<close>

fun is_real_time :: "midievent \<Rightarrow> bool" where
  "is_real_time (Real_time _) = True"
| "is_real_time _ = False"

lemma data_not_real_time:
  "fst (midiparser_data b p) = Some e \<Longrightarrow> \<not> is_real_time e"
  by (cases "mp_status p")
    (auto simp: midiparser_data_def midiparser_two_bytes_def midiparser_system_exclusive_def Let_def mtc_event_def
      midiparser_system_exclusive_realtime_def midiparser_full_frame_def midiparser_quarter_frame_def
      split: if_splits)

lemma byte_not_real_time:
  assumes "uint b < 248" "fst (fts_midiparser_byte b p) = Some e"
  shows "\<not> is_real_time e"
  using assms data_not_real_time [of "uint b" p e]
  by (auto simp: fts_midiparser_byte_def Let_def midiparser_system_common_def midiparser_channel_status_def
      split: if_splits)

lemma real_time_transparent:
  "midiparser_stream (filter (\<lambda>b. uint b < 248) bs) p =
     (filter (\<lambda>e. \<not> is_real_time e) (fst (midiparser_stream bs p)), snd (midiparser_stream bs p))"
proof (induction bs arbitrary: p)
  case Nil
  then show ?case by simp
next
  case (Cons b bs)
  show ?case
  proof (cases "uint b < 248")
    case True
    then show ?thesis using Cons.IH byte_not_real_time [OF True, of p]
      by (auto split: prod.splits option.splits)
  next
    case False
    then have "fts_midiparser_byte b p = (Some (Real_time (uint b - 248)), p)"
      by (simp add: fts_midiparser_byte_def)
    then show ?thesis using Cons.IH False by (auto split: prod.splits)
  qed
qed

lemma real_time_events:
  "filter is_real_time (fst (midiparser_stream bs p)) =
     map (\<lambda>b. Real_time (uint b - 248)) (filter (\<lambda>b. 248 \<le> uint b) bs)"
proof (induction bs arbitrary: p)
  case (Cons b bs)
  show ?case
  proof (cases "248 \<le> uint b")
    case True
    then have "fts_midiparser_byte b p = (Some (Real_time (uint b - 248)), p)"
      by (simp add: fts_midiparser_byte_def)
    then show ?thesis using Cons.IH [of p] True by (auto split: prod.splits)
  next
    case False
    obtain e p1 where e: "fts_midiparser_byte b p = (e, p1)" by fastforce
    obtain es p2 where es: "midiparser_stream bs p1 = (es, p2)" by fastforce
    show ?thesis using False Cons.IH [of p1] byte_not_real_time [of b p] e es by (cases e) simp_all
  qed
qed simp

lemma real_time_insert:
  assumes "248 \<le> uint b"
  shows "midiparser_stream (as @ b # cs) p =
     (fst (midiparser_stream as p) @ Real_time (uint b - 248) # fst (midiparser_stream cs (snd (midiparser_stream as p))),
      snd (midiparser_stream (as @ cs) p))"
  using assms by (simp add: stream_append fts_midiparser_byte_def split: prod.splits)

subsection \<open>Bounds\<close>

definition fits_bits :: "nat \<Rightarrow> int \<Rightarrow> bool" where
  "fits_bits n x \<longleftrightarrow> 0 \<le> x \<and> x < 2 ^ n"

text \<open>The fields of a time code as the parser keeps them: a rate of two bits, an hour of five, the others of eight.\<close>

definition mtc_in_range :: "midiparser \<Rightarrow> bool" where
  "mtc_in_range p \<longleftrightarrow> fits_bits 2 (mtc_type p) \<and> fits_bits 5 (mtc_hour p) \<and> fits_bits 8 (mtc_minute p) \<and>
     fits_bits 8 (mtc_second p) \<and> fits_bits 8 (mtc_frame p)"

definition parser_inv :: "midiparser \<Rightarrow> bool" where
  "parser_inv p \<longleftrightarrow> 0 \<le> mp_channel p \<and> mp_channel p \<le> 16 \<and>
     (mp_status p \<in> {Status_note_off, Status_note_on, Status_poly_pressure, Status_control_change,
        Status_program_change, Status_channel_pressure, Status_pitch_bend} \<longrightarrow> 1 \<le> mp_channel p) \<and>
     (mp_store p = MIDI_EMPTY_BYTE \<or> data_byte (mp_store p)) \<and> (\<forall>x \<in> set (mp_sysex p). data_byte x) \<and> mtc_in_range p"

fun event_in_range :: "midievent \<Rightarrow> bool" where
  "event_in_range (Channel_message type ch b1 b2) \<longleftrightarrow> 1 \<le> ch \<and> ch \<le> 16 \<and> data_byte b1 \<and>
     (if two_data_bytes type then data_byte b2 else b2 = MIDI_EMPTY_BYTE)"
| "event_in_range (System_exclusive xs) \<longleftrightarrow> xs \<noteq> [] \<and> (\<forall>x \<in> set xs. data_byte x)"
| "event_in_range (Real_time t) \<longleftrightarrow> 0 \<le> t \<and> t < 8"
| "event_in_range (Song_select n) \<longleftrightarrow> data_byte n"
| "event_in_range (Song_position_pointer n) \<longleftrightarrow> data_byte (n div 256) \<and> data_byte (n mod 256)"
| "event_in_range (Time_code type hour minute second frame) \<longleftrightarrow> 0 \<le> type \<and> type < 4 \<and> 0 \<le> hour \<and> hour < 32 \<and>
     0 \<le> minute \<and> minute < 256 \<and> 0 \<le> second \<and> second < 256 \<and> 0 \<le> frame \<and> frame < 256"

lemma fits_bits_take: "fits_bits n x \<longleftrightarrow> take_bit n x = x"
  by (auto simp: fits_bits_def take_bit_int_eq_self_iff)

lemma fits_bits_or: "fits_bits n x \<Longrightarrow> fits_bits n y \<Longrightarrow> fits_bits n (x OR y)"
  by (simp add: fits_bits_take take_bit_or)

lemma fits_bits_and: "fits_bits n x \<Longrightarrow> fits_bits n (x AND m)"
proof -
  assume "fits_bits n x"
  then have "take_bit n x = x" by (simp add: fits_bits_take)
  then have "take_bit n (x AND m) = x AND m"
    by (metis (no_types) take_bit_eq_mask and.assoc and.commute)
  then show ?thesis by (simp add: fits_bits_take)
qed

lemma fits_bits_masked: "fits_bits n m \<Longrightarrow> fits_bits n (x AND m)"
  using fits_bits_and [of n m x] by (simp add: and.commute)

lemma fits_bits_nibble: "fits_bits 8 x \<Longrightarrow> fits_bits 8 ((x AND m) OR (b AND 15))" "fits_bits 8 x \<Longrightarrow> fits_bits 8 ((x AND m) OR (b AND 15) * 16)"
  "fits_bits 5 x \<Longrightarrow> fits_bits 5 ((x AND m) OR (b AND 15))" "fits_bits 5 x \<Longrightarrow> fits_bits 5 ((x AND m) OR (b AND 1) * 16)"
proof -
  have "0 \<le> b AND 15" "b AND 15 < 16" "0 \<le> b AND 1" "b AND 1 < 2" by (simp_all add: and_low)
  then have "fits_bits 8 (b AND 15)" "fits_bits 8 ((b AND 15) * 16)" "fits_bits 5 (b AND 15)" "fits_bits 5 ((b AND 1) * 16)"
    unfolding fits_bits_def by simp_all
  then show "fits_bits 8 x \<Longrightarrow> fits_bits 8 ((x AND m) OR (b AND 15))" "fits_bits 8 x \<Longrightarrow> fits_bits 8 ((x AND m) OR (b AND 15) * 16)"
    "fits_bits 5 x \<Longrightarrow> fits_bits 5 ((x AND m) OR (b AND 15))" "fits_bits 5 x \<Longrightarrow> fits_bits 5 ((x AND m) OR (b AND 1) * 16)"
    by (blast intro: fits_bits_or fits_bits_and)+
qed

lemma mtc_rate_range: "fits_bits 2 ((b AND 0x60) div 32)"
proof -
  have "fits_bits 7 (b AND 0x60)" by (rule fits_bits_masked) (simp add: fits_bits_def)
  moreover have "0 \<le> y div 32 \<and> y div 32 < 4" if "0 \<le> y" "y < 128" for y :: int using that by auto
  ultimately show ?thesis unfolding fits_bits_def by simp
qed

lemma mtc_event_range: "mtc_in_range p \<Longrightarrow> event_in_range (mtc_event p)"
  by (simp add: mtc_in_range_def mtc_event_def fits_bits_def)

lemma mtc_in_range_frame [simp]:
  "mtc_in_range (p\<lparr>mp_status := st\<rparr>) = mtc_in_range p" "mtc_in_range (p\<lparr>mp_channel := ch\<rparr>) = mtc_in_range p"
  "mtc_in_range (p\<lparr>mp_store := b\<rparr>) = mtc_in_range p" "mtc_in_range (p\<lparr>mp_sysex := xs\<rparr>) = mtc_in_range p"
  "mtc_in_range (p\<lparr>mtc_status := ms\<rparr>) = mtc_in_range p" "mtc_in_range (p\<lparr>mtc_frame_count := k\<rparr>) = mtc_in_range p"
  by (simp_all add: mtc_in_range_def)

lemma mtc_nibble_range: "mtc_in_range p \<Longrightarrow> mtc_in_range (mtc_nibble n (b AND 15) ((b AND 15) * 16) p)"
  by (simp add: mtc_in_range_def mtc_nibble_def fits_bits_nibble)

lemma song_position_range:
  "data_byte b1 \<Longrightarrow> data_byte b2 \<Longrightarrow> event_in_range (Song_position_pointer (song_position_pointer 0 b1 b2))"
  by (simp add: song_position_value data_byte_def)

lemma parser_inv_init: "parser_inv fts_midiparser_init"
  by (simp add: parser_inv_def fts_midiparser_init_def mtc_in_range_def fits_bits_def)

lemma two_bytes_inv:
  assumes "parser_inv p" "data_byte b" "midiparser_two_bytes f b p = (e, p')"
    and "\<And>b1. data_byte b1 \<Longrightarrow> event_in_range (f b1 b)"
  shows "parser_inv p' \<and> (\<forall>x. e = Some x \<longrightarrow> event_in_range x)"
proof (cases "mp_store p = MIDI_EMPTY_BYTE")
  case True
  then have "e = None" "p' = p\<lparr>mp_store := b\<rparr>" using assms(3) by (simp_all add: midiparser_two_bytes_def)
  then show ?thesis using assms(1,2) unfolding parser_inv_def by simp
next
  case False
  then have "e = Some (f (mp_store p) b)" "p' = p\<lparr>mp_store := MIDI_EMPTY_BYTE\<rparr>"
    using assms(3) by (simp_all add: midiparser_two_bytes_def)
  moreover have "data_byte (mp_store p)" using assms(1) False unfolding parser_inv_def by blast
  ultimately show ?thesis using assms(1,4) unfolding parser_inv_def by simp
qed

lemma mtc_nibble_frame [simp]:
  "mp_channel (mtc_nibble n lo hi p) = mp_channel p" "mp_store (mtc_nibble n lo hi p) = mp_store p"
  "mp_sysex (mtc_nibble n lo hi p) = mp_sysex p" "mtc_status (mtc_nibble n lo hi p) = mtc_status p"
  by (simp_all add: mtc_nibble_def)

lemma quarter_frame_frame:
  assumes "midiparser_quarter_frame b p = (e, p')" "mtc_in_range p"
  shows "mp_channel p' = mp_channel p" "mp_store p' = mp_store p" "mp_sysex p' = mp_sysex p" "mtc_in_range p'"
    "mp_status p' = mp_status p \<or> mp_status p' = Status_reset" "\<And>x. e = Some x \<Longrightarrow> event_in_range x"
proof -
  define n where "n = (b AND 0xf0) div 16"
  define q where "q = (if n = 0 then p\<lparr>mtc_frame := (mtc_frame p AND 0xf0) OR (b AND 0x0f)\<rparr>
    else if n = 7 then p\<lparr>mtc_hour := (mtc_hour p AND 0x0f) OR ((b AND 0x01) * 16), mtc_type := (b AND 0x60) div 32\<rparr>
    else mtc_nibble n (b AND 0x0f) ((b AND 0x0f) * 16) p)"
  have q: "mtc_in_range q" "mp_channel q = mp_channel p" "mp_store q = mp_store p" "mp_sysex q = mp_sysex p" "mp_status q = mp_status p"
    using assms(2) mtc_nibble_range [OF assms(2)] mtc_rate_range [of b]
    by (simp_all add: q_def mtc_in_range_def fits_bits_nibble) (simp add: mtc_nibble_def)
  have "(e, p') = (if n = 0 then
        (if mtc_status q = Mtc_backward then (Some (mtc_event q), q\<lparr>mtc_status := Mtc_ready\<rparr>)
         else (None, q\<lparr>mtc_status := Mtc_forward, mp_status := Status_reset\<rparr>))
      else if n = 7 then
        (if mtc_status q = Mtc_forward then (Some (mtc_event q), q\<lparr>mtc_status := Mtc_ready\<rparr>)
         else (None, q\<lparr>mtc_status := Mtc_backward, mp_status := Status_reset\<rparr>))
      else (None, q\<lparr>mp_status := Status_reset\<rparr>))"
    unfolding assms(1) [symmetric] midiparser_quarter_frame_def Let_def n_def [symmetric] q_def by simp
  then have "(e = None \<or> e = Some (mtc_event q)) \<and>
      (\<exists>ms. p' = q\<lparr>mtc_status := ms\<rparr> \<or> p' = q\<lparr>mtc_status := ms, mp_status := Status_reset\<rparr> \<or> p' = q\<lparr>mp_status := Status_reset\<rparr>)"
    by (simp split: if_splits) blast+
  then show "mp_channel p' = mp_channel p" "mp_store p' = mp_store p" "mp_sysex p' = mp_sysex p" "mtc_in_range p'"
    "mp_status p' = mp_status p \<or> mp_status p' = Status_reset" "\<And>x. e = Some x \<Longrightarrow> event_in_range x"
    using q mtc_event_range [OF q(1)] by auto
qed

lemma data_inv:
  assumes inv: "parser_inv p" and b: "data_byte b" and step: "midiparser_data b p = (e, p')"
  shows "parser_inv p' \<and> (\<forall>x. e = Some x \<longrightarrow> event_in_range x)"
proof -
  have b127: "b AND 127 = b" using b by (simp add: and_low data_byte_def)
  have const: "data_byte 127" "data_byte 1" "data_byte 0" by (simp_all add: data_byte_def)
  have ch: "1 \<le> mp_channel p \<and> mp_channel p \<le> 16"
    if "mp_status p \<in> {Status_note_off, Status_note_on, Status_poly_pressure, Status_control_change,
        Status_program_change, Status_channel_pressure, Status_pitch_bend}"
    using inv that unfolding parser_inv_def by blast
  show ?thesis
  proof (cases "mp_status p")
    case Status_quarter_frame
    then have "midiparser_quarter_frame b p = (e, p')" using step by (simp add: midiparser_data_def)
    note q = quarter_frame_frame [OF this]
    have range: "mtc_in_range p" using inv by (simp add: parser_inv_def)
    have "parser_inv p'" using q(1-5) [OF range] inv Status_quarter_frame unfolding parser_inv_def by auto
    then show ?thesis using q(6) [OF range] by simp
  next
    case Status_system_exclusive_full_frame
    then have full: "midiparser_full_frame b p = (e, p')" using step by (simp add: midiparser_data_def)
    then have "e = None" "mp_channel p' = mp_channel p" "mp_store p' = mp_store p"
      "mp_sysex p' = mp_sysex p \<or> mp_sysex p' = [127, 1, b]"
      "mp_status p' = mp_status p \<or> mp_status p' = Status_system_exclusive_byte"
      unfolding midiparser_full_frame_def Let_def by (auto split: if_splits)
    moreover have "mtc_in_range p'"
    proof -
      have "fits_bits 8 b" using b by (simp add: fits_bits_def data_byte_def)
      moreover have "fits_bits 5 (b AND 0x1f)" by (rule fits_bits_masked) (simp add: fits_bits_def)
      moreover have "mtc_in_range p" using inv by (simp add: parser_inv_def)
      ultimately show ?thesis using full mtc_rate_range [of b]
        unfolding midiparser_full_frame_def Let_def by (auto simp: mtc_in_range_def split: if_splits)
    qed
    ultimately show ?thesis using inv Status_system_exclusive_full_frame b const unfolding parser_inv_def by auto
  next
    case Status_system_exclusive
    then show ?thesis using step inv b
      by (auto simp: midiparser_data_def midiparser_system_exclusive_def b127 parser_inv_def split: if_splits)
  next
    case Status_system_exclusive_realtime
    then show ?thesis using step inv b const
      by (auto simp: midiparser_data_def midiparser_system_exclusive_realtime_def parser_inv_def split: if_splits)
  next
    case Status_note_off
    then show ?thesis using two_bytes_inv [OF inv b] step ch const
      by (simp add: midiparser_data_def two_data_bytes_def)
  next
    case Status_note_on
    then show ?thesis using two_bytes_inv [OF inv b] step ch b
      by (simp add: midiparser_data_def two_data_bytes_def)
  next
    case Status_poly_pressure
    then show ?thesis using two_bytes_inv [OF inv b] step ch b
      by (simp add: midiparser_data_def two_data_bytes_def)
  next
    case Status_control_change
    then show ?thesis using two_bytes_inv [OF inv b] step ch b
      by (simp add: midiparser_data_def two_data_bytes_def)
  next
    case Status_pitch_bend
    then show ?thesis using two_bytes_inv [OF inv b] step ch b
      by (simp add: midiparser_data_def two_data_bytes_def)
  next
    case Status_song_position_pointer
    have "event_in_range (Song_position_pointer (song_position_pointer 0 b1 b))" if "data_byte b1" for b1
      using song_position_range [OF that b] .
    then show ?thesis using two_bytes_inv [OF inv b, of "\<lambda>b1 b2. Song_position_pointer (song_position_pointer 0 b1 b2)"]
        step Status_song_position_pointer by (simp add: midiparser_data_def)
  next
    case Status_system_exclusive_byte
    then show ?thesis using step inv b by (auto simp: midiparser_data_def parser_inv_def)
  qed (use inv step b ch in \<open>auto simp: midiparser_data_def two_data_bytes_def\<close>)
qed

lemma byte_cases:
  obtains (real_time) t where "0 \<le> t" "t < 8" "fts_midiparser_byte b p = (Some (Real_time t), p)"
    | (common) n where "fts_midiparser_byte b p = midiparser_system_common n p"
    | (status) n where "fts_midiparser_byte b p = midiparser_channel_status n p"
    | (data) n where "data_byte n" "fts_midiparser_byte b p = midiparser_data n p"
proof -
  have b: "0 \<le> uint b" "uint b < 256" using uint_lt2p [of b] by simp_all
  show thesis
  proof (cases "248 \<le> uint b")
    case True
    then show thesis using real_time [of "uint b - 248"] b by (simp add: fts_midiparser_byte_def)
  next
    case lt: False
    show thesis
    proof (cases "240 \<le> uint b")
      case True
      then show thesis using common [of "uint b"] lt by (simp add: fts_midiparser_byte_def)
    next
      case False
      then show thesis
        using status [of "uint b"] data [of "uint b"] lt b
        by (cases "127 < uint b") (simp_all add: fts_midiparser_byte_def data_byte_def)
    qed
  qed
qed

lemma parser_byte_inv:
  assumes inv: "parser_inv p" and step: "fts_midiparser_byte b p = (e, p')"
  shows "parser_inv p' \<and> (\<forall>x. e = Some x \<longrightarrow> event_in_range x)"
proof (cases rule: byte_cases [of b p])
  case (real_time t)
  then show ?thesis using inv step by simp
next
  case (common n)
  then have "(e, p') = midiparser_system_common n p" using step by simp
  then show ?thesis
    using inv by (auto simp: midiparser_system_common_def parser_inv_def split: if_splits)
next
  case (status n)
  have "0 \<le> n mod 16" "n mod 16 < 16" by simp_all
  moreover have "e = None" "mp_channel p' = n mod 16 + 1" "mp_store p' = MIDI_EMPTY_BYTE" "mp_sysex p' = mp_sysex p"
    "mtc_in_range p' = mtc_in_range p"
    using step status by (auto simp: midiparser_channel_status_def and_low)
  ultimately show ?thesis using inv unfolding parser_inv_def by simp
next
  case (data n)
  then have "midiparser_data n p = (e, p')" using step by simp
  then show ?thesis using data_inv [OF inv data(1)] by blast
qed

lemma stream_inv:
  "parser_inv p \<Longrightarrow> midiparser_stream bs p = (es, p') \<Longrightarrow> parser_inv p' \<and> (\<forall>e \<in> set es. event_in_range e)"
proof (induction bs arbitrary: p es)
  case Nil
  then show ?case by auto
next
  case (Cons b bs)
  obtain e p1 where 1: "fts_midiparser_byte b p = (e, p1)" by fastforce
  obtain es1 where 2: "midiparser_stream bs p1 = (es1, p')" "es = (case e of None \<Rightarrow> es1 | Some x \<Rightarrow> x # es1)"
    using Cons.prems(2) 1 by (auto split: prod.splits)
  have "parser_inv p1" "\<forall>x. e = Some x \<longrightarrow> event_in_range x"
    using parser_byte_inv [OF Cons.prems(1) 1] by simp_all
  then show ?case using Cons.IH 2 by (auto split: option.splits)
qed

subsection \<open>Time code and repeated system exclusive messages\<close>

text \<open>The eight quarter frames of a time code, with the rate in the two bits of the last one.\<close>

definition quarter_frames :: "int \<Rightarrow> int \<Rightarrow> int \<Rightarrow> int \<Rightarrow> int \<Rightarrow> int list" where
  "quarter_frames rate hour minute second frame =
     [241, frame mod 16, 241, 16 + frame div 16, 241, 32 + second mod 16, 241, 48 + second div 16,
      241, 64 + minute mod 16, 241, 80 + minute div 16, 241, 96 + hour mod 16,
      241, 112 + 2 * rate + hour div 16]"

lemma nibble_masks:
  fixes n v :: int
  assumes "0 \<le> v" "v < 16" "0 \<le> n" "n < 16"
  shows "(16 * n + v) AND 240 = 16 * n" "(16 * n + v) AND 15 = v"
    "v < 8 \<Longrightarrow> (112 + v) AND 96 = 96" "(16 * n + v) AND 1 = v mod 2"
proof -
  have low: "v AND 15 = v" using assms by (simp add: and_low)
  have vz: "v AND 240 = 0" "v AND 96 = 0"
    by (subst low [symmetric], simp add: and.assoc)+
  have "push_bit 4 n AND push_bit 4 15 = push_bit 4 (n AND 15)" by (simp add: push_bit_and)
  then have n: "(n * 16) AND 240 = n * 16" using assms by (simp add: push_bit_eq_mult and_low)
  have or: "16 * n + v = v OR (n * 16)" "112 + v = v OR 112"
    using or_high [of v 4 n] or_high [of v 4 7] assms by simp_all
  show "(16 * n + v) AND 240 = 16 * n" using vz n by (simp add: or bit.conj_disj_distrib2)
  show "(16 * n + v) AND 15 = v" using assms by (simp add: and_low)
  show "(112 + v) AND 96 = 96" using vz by (simp add: or bit.conj_disj_distrib2)
  show "(16 * n + v) AND 1 = v mod 2" by (simp add: and_low) presburger
qed

lemma quarter_step:
  assumes "0 \<le> v" "v < 16" "1 \<le> n" "n \<le> 6" "x = 16 * n + v"
  shows "midiparser_stream (to_bytes [241, x]) p =
    ([], (mtc_nibble n v (v * 16) (p\<lparr>mp_status := Status_quarter_frame\<rparr>))\<lparr>mp_status := Status_reset\<rparr>)"
proof -
  have "data_byte x" using assms by (simp add: data_byte_def)
  note step = byte_data [OF this]
  have "x AND 240 = 16 * n" "x AND 15 = v" using nibble_masks(1,2) [of v n] assms by simp_all
  then show ?thesis
    using byte_common [of 241 p] assms(3,4)
    by (simp add: step midiparser_system_common_def midiparser_data_def midiparser_quarter_frame_def Let_def)
qed

lemma quarter_first:
  assumes "0 \<le> v" "v < 16" "mtc_status p = Mtc_ready"
  shows "midiparser_stream (to_bytes [241, v]) p =
    ([], p\<lparr>mp_status := Status_reset, mtc_status := Mtc_forward, mtc_frame := (mtc_frame p AND 0xf0) OR v\<rparr>)"
proof -
  have "data_byte v" using assms by (simp add: data_byte_def)
  note step = byte_data [OF this]
  show ?thesis
    using byte_common [of 241 p] nibble_masks(1,2) [of v 0] assms
    by (simp add: step midiparser_system_common_def midiparser_data_def midiparser_quarter_frame_def Let_def)
qed

lemma quarter_last:
  assumes "0 \<le> v" "v < 8" "mtc_status p = Mtc_forward" "x = 112 + v"
  shows "\<exists>p'. midiparser_stream (to_bytes [241, x]) p =
    ([Time_code 3 ((mtc_hour p AND 0x0f) OR (v mod 2 * 16)) (mtc_minute p) (mtc_second p) (mtc_frame p)], p')"
proof -
  have "data_byte x" using assms by (simp add: data_byte_def)
  note step = byte_data [OF this]
  have "x AND 240 = 112" "x AND 15 = v" "x AND 96 = 96" "x AND 1 = v mod 2"
    using nibble_masks [of v 7] assms by simp_all
  then show ?thesis
    using byte_common [of 241 p] assms(3)
    by (simp add: step midiparser_system_common_def midiparser_data_def midiparser_quarter_frame_def Let_def mtc_event_def)
qed

lemma stream_skip:
  "midiparser_stream (to_bytes xs) p = ([], p1) \<Longrightarrow>
     fst (midiparser_stream (to_bytes (xs @ ys)) p) = fst (midiparser_stream (to_bytes ys) p1)"
  by (simp add: stream_append)

lemma quarter_frames_decode:
  assumes "0 \<le> rate" "rate < 4" "0 \<le> hour" "hour < 32" "0 \<le> minute" "minute < 256"
    "0 \<le> second" "second < 256" "0 \<le> frame" "frame < 256" "mtc_status p = Mtc_ready"
  shows "fst (midiparser_stream (to_bytes (quarter_frames rate hour minute second frame)) p) =
    [Time_code 3 hour minute second frame]"
proof -
  have lo: "0 \<le> x mod 16" "x mod 16 < 16" for x :: int by simp_all
  have hi: "0 \<le> x div 16" "x div 16 < 16" if "0 \<le> x" "x < 256" for x :: int using that by simp_all
  let ?v = "2 * rate + hour div 16"
  have v: "0 \<le> ?v" "?v < 8" "?v mod 2 = hour div 16" using assms by presburger+
  have join: "(((a AND 240) OR (x mod 16)) AND 15) OR (x div 16 * 16) = x" if "0 \<le> x" "x < 256" for a x :: int
    using nibbles [of "x mod 16" "x div 16" a] that by simp
  define p1 where "p1 = p\<lparr>mp_status := Status_reset, mtc_status := Mtc_forward, mtc_frame := (mtc_frame p AND 0xf0) OR frame mod 16\<rparr>"
  define nb where "nb n v q = (mtc_nibble n v (v * 16) (q\<lparr>mp_status := Status_quarter_frame\<rparr>))\<lparr>mp_status := Status_reset\<rparr>"
    for n v and q :: midiparser
  define p7 where "p7 = nb 6 (hour mod 16) (nb 5 (minute div 16) (nb 4 (minute mod 16) (nb 3 (second div 16)
    (nb 2 (second mod 16) (nb 1 (frame div 16) p1)))))"
  have split: "quarter_frames rate hour minute second frame =
     [241, frame mod 16] @ [241, 16 + frame div 16] @ [241, 32 + second mod 16] @ [241, 48 + second div 16] @
     [241, 64 + minute mod 16] @ [241, 80 + minute div 16] @ [241, 96 + hour mod 16] @ [241, 112 + ?v]"
    by (simp add: quarter_frames_def)
  have step: "midiparser_stream (to_bytes [241, x]) q = ([], nb n v q)"
    if "0 \<le> v" "v < 16" "1 \<le> n" "n \<le> 6" "x = 16 * n + v" for n v x q
    unfolding nb_def by (rule quarter_step [OF that])
  have 1: "midiparser_stream (to_bytes [241, frame mod 16]) p = ([], p1)"
    unfolding p1_def by (rule quarter_first [OF lo assms(11)])
  have s: "midiparser_stream (to_bytes [241, 16 + frame div 16]) q = ([], nb 1 (frame div 16) q)"
    "midiparser_stream (to_bytes [241, 32 + second mod 16]) q = ([], nb 2 (second mod 16) q)"
    "midiparser_stream (to_bytes [241, 48 + second div 16]) q = ([], nb 3 (second div 16) q)"
    "midiparser_stream (to_bytes [241, 64 + minute mod 16]) q = ([], nb 4 (minute mod 16) q)"
    "midiparser_stream (to_bytes [241, 80 + minute div 16]) q = ([], nb 5 (minute div 16) q)"
    "midiparser_stream (to_bytes [241, 96 + hour mod 16]) q = ([], nb 6 (hour mod 16) q)" for q
    using step [OF hi [OF assms(9,10)], of 1] step [OF lo, of 2 "32 + second mod 16" second]
      step [OF hi [OF assms(7,8)], of 3] step [OF lo, of 4 "64 + minute mod 16" minute]
      step [OF hi [OF assms(5,6)], of 5] step [OF lo, of 6 "96 + hour mod 16" hour]
    by (simp_all only:) simp_all
  have "fst (midiparser_stream (to_bytes (quarter_frames rate hour minute second frame)) p) =
      fst (midiparser_stream (to_bytes [241, 112 + ?v]) p7)"
    unfolding split p7_def
    by (simp only: stream_skip [OF 1] stream_skip [OF s(1)] stream_skip [OF s(2)] stream_skip [OF s(3)]
        stream_skip [OF s(4)] stream_skip [OF s(5)] stream_skip [OF s(6)])
  moreover have nb: "mtc_frame (nb 1 v q) = (mtc_frame q AND 15) OR (v * 16)" "mtc_second (nb 1 v q) = mtc_second q"
    "mtc_minute (nb 1 v q) = mtc_minute q" "mtc_frame (nb 2 v q) = mtc_frame q" "mtc_second (nb 2 v q) = (mtc_second q AND 240) OR v"
    "mtc_minute (nb 2 v q) = mtc_minute q" "mtc_frame (nb 3 v q) = mtc_frame q" "mtc_second (nb 3 v q) = (mtc_second q AND 15) OR (v * 16)"
    "mtc_minute (nb 3 v q) = mtc_minute q" "mtc_frame (nb 4 v q) = mtc_frame q" "mtc_second (nb 4 v q) = mtc_second q"
    "mtc_minute (nb 4 v q) = (mtc_minute q AND 240) OR v" "mtc_frame (nb 5 v q) = mtc_frame q" "mtc_second (nb 5 v q) = mtc_second q"
    "mtc_minute (nb 5 v q) = (mtc_minute q AND 15) OR (v * 16)" "mtc_frame (nb 6 v q) = mtc_frame q" "mtc_second (nb 6 v q) = mtc_second q"
    "mtc_minute (nb 6 v q) = mtc_minute q" "mtc_hour (nb 6 v q) = (mtc_hour q AND 240) OR v" for v q
    by (simp_all add: nb_def mtc_nibble_def)
  moreover have "mtc_status (nb n v q) = mtc_status q" for n v q by (simp add: nb_def)
  then have "mtc_status p7 = Mtc_forward" by (simp only: p7_def) (simp add: p1_def)
  moreover have "mtc_frame p7 = frame" "mtc_second p7 = second" "mtc_minute p7 = minute"
    using join [of frame "mtc_frame p"] join [of second "mtc_second p"] join [of minute "mtc_minute p"] assms
    by (simp_all only: p7_def nb) (simp_all add: p1_def)
  moreover have "((a AND 240) OR hour mod 16) AND 15 = hour mod 16" for a
    by (simp add: bit.conj_disj_distrib2 and.assoc) (simp add: and_low)
  then have "mtc_hour p7 AND 15 = hour mod 16" by (simp only: p7_def nb)
  moreover have "hour mod 16 OR hour div 16 * 16 = hour"
    using or_high [of "hour mod 16" 4 "hour div 16"] by simp
  ultimately show ?thesis using quarter_last [OF v(1,2), of p7] v(3) by fastforce
qed

text \<open>A second end of system exclusive sends the same message again.\<close>

lemma sysex_repeated:
  assumes "midi_event_ok (System_exclusive xs)"
  shows "fst (midiparser_stream (to_bytes (midi_bytes (System_exclusive xs) @ [247])) p) =
    [System_exclusive xs, System_exclusive xs]"
proof -
  obtain p' where p': "midiparser_stream (to_bytes (240 # xs)) p = ([], p')" "mp_sysex p' = xs"
    using sysex_run [OF assms] by blast
  have "midi_bytes (System_exclusive xs) @ [247] = (240 # xs) @ [247, 247]" by simp
  then show ?thesis using p' assms by (simp only: map_append stream_append) (simp add: end_of_sysex)
qed

end
