(* ===== verification/MidiFile.thy ===== *)
theory MidiFile
  imports Complex_Main MidiEvent
begin

text \<open>
  Standard MIDI files (\<open>fts/midifile.c\<close>, \<open>include/fts/midifile.h\<close>): the reader, which calls back
  for each event it finds, and the writer.

  Reading. The file is the list of the bytes that are left; the block buffer of \<open>readbyte\<close> only
  passes them on. The end of the file is the byte \<open>EOF = -1\<close>. C \<open>int\<close>s are integers that wrap
  to 32 bits where the code adds or shifts values read from the file. A call back is recorded, with
  the ticks and the time at which it is made; all the functions of the read table are installed.
  Times are exact rationals in place of C doubles. The strings of errors are named constants.

  Writing. The file is a list of bytes with a position, \<open>fwrite\<close> overwrites at the position.
  Writing and seeking succeed.
\<close>

subsection \<open>State\<close>

record tempo_entry =
  te_tick :: int
  te_time :: rat
  te_conv :: rat

datatype mf_error = No_header | No_track | No_continuation | Running_status | Unexpected_byte

datatype mf_call = Call_header | Track_start | Track_end | End_of_track
  | Midi_event midievent | Sequence_number int | Tempo int | Text int "int list"
  | Smpte int int int int int int | Time_signature int int int int | Key_signature int int

record midifile =
  mf_in :: "byte list"
  mf_format :: int
  mf_n_tracks :: int
  mf_division :: int
  mf_tempo :: int
  mf_tempo_map :: "tempo_entry list"
  mf_tempo_map_pointer :: "nat option"
  mf_time :: rat
  mf_time_conv :: rat
  mf_ticks :: int
  mf_bytes :: int
  mf_sysex :: "int list option"
  mf_string :: "int list"
  mf_sel_track :: int
  mf_sel_channel :: int
  mf_error :: "mf_error option"
  mf_calls :: "(int \<times> rat \<times> mf_call) list"
  mf_file :: "byte list"
  mf_pos :: nat
  mf_buf :: "byte list"
  mf_size :: int

definition EOF :: int where "EOF = - 1"
definition MIDIFILE_BLOCK_SIZE :: nat where "MIDIFILE_BLOCK_SIZE = 1024"
definition FTS_MIDIFILE_DEFAULT_TEMPO :: int where "FTS_MIDIFILE_DEFAULT_TEMPO = 500000"

text \<open>The value of a 32-bit \<open>int\<close> after wrapping.\<close>

definition int_wrap :: "int \<Rightarrow> int" where
  "int_wrap x = sint (word_of_int x :: int32)"

definition fts_midifile_init :: midifile where
  "fts_midifile_init =
     \<lparr>mf_in = [], mf_format = 0, mf_n_tracks = 0, mf_division = 0, mf_tempo = FTS_MIDIFILE_DEFAULT_TEMPO,
      mf_tempo_map = [], mf_tempo_map_pointer = None, mf_time = 0, mf_time_conv = 0, mf_ticks = 0, mf_bytes = 0,
      mf_sysex = None, mf_string = [], mf_sel_track = - 1, mf_sel_channel = 0, mf_error = None, mf_calls = [],
      mf_file = [], mf_pos = 0, mf_buf = [], mf_size = 0\<rparr>"

definition mferror :: "mf_error \<Rightarrow> midifile \<Rightarrow> midifile" where
  "mferror e f = f\<lparr>mf_error := Some e\<rparr>"

definition call_back :: "mf_call \<Rightarrow> midifile \<Rightarrow> midifile" where
  "call_back c f = f\<lparr>mf_calls := mf_calls f @ [(mf_ticks f, mf_time f, c)]\<rparr>"

subsection \<open>Read utilities\<close>

definition readbyte :: "midifile \<Rightarrow> int \<times> midifile" where
  "readbyte f =
     (case mf_in f of
        [] \<Rightarrow> (EOF, f)
      | b # bs \<Rightarrow> (uint b, f\<lparr>mf_in := bs, mf_bytes := mf_bytes f - 1\<rparr>))"

text \<open>The loop of \<open>readvarinum\<close> over the bytes that have the high bit set.\<close>

fun varinum_loop :: "byte list \<Rightarrow> int \<Rightarrow> int \<Rightarrow> midifile \<Rightarrow> int \<times> midifile" where
  "varinum_loop [] c v f = (if c AND 0x80 \<noteq> 0 then (0, f) else (v, f))"
| "varinum_loop (b # bs) c v f =
     (if c AND 0x80 \<noteq> 0 then
        varinum_loop bs (uint b) (int_wrap (v * 128 + (uint b AND 0x7f))) (f\<lparr>mf_in := bs, mf_bytes := mf_bytes f - 1\<rparr>)
      else (v, f))"

definition readvarinum :: "midifile \<Rightarrow> int \<times> midifile" where
  "readvarinum f =
     (case readbyte f of (c, f1) \<Rightarrow>
        if c = EOF then (0, f1) else varinum_loop (mf_in f1) c (c AND 0x7f) f1)"

definition read32bit :: "midifile \<Rightarrow> int \<times> midifile" where
  "read32bit f =
     (case readbyte f of (c1, f) \<Rightarrow> case readbyte f of (c2, f) \<Rightarrow>
      case readbyte f of (c3, f) \<Rightarrow> case readbyte f of (c4, f) \<Rightarrow>
        (int_wrap (c1 * 2 ^ 24 + c2 * 2 ^ 16 + c3 * 2 ^ 8 + c4), f))"

definition read16bit :: "midifile \<Rightarrow> int \<times> midifile" where
  "read16bit f =
     (case readbyte f of (msb, f) \<Rightarrow> case readbyte f of (lsb, f) \<Rightarrow> (msb * 2 ^ 8 + lsb, f))"

text \<open>\<open>n\<close> bytes, and the last byte read (the argument \<open>b\<close> when there is none).\<close>

fun readbytes :: "nat \<Rightarrow> int \<Rightarrow> midifile \<Rightarrow> int list \<times> int \<times> midifile" where
  "readbytes 0 b f = ([], b, f)"
| "readbytes (Suc n) b f =
     (case readbyte f of (c, f1) \<Rightarrow> case readbytes n c f1 of (cs, l, f2) \<Rightarrow> (c # cs, l, f2))"

subsection \<open>Tempo map\<close>

definition tempo_conv :: "int \<Rightarrow> int \<Rightarrow> rat" where
  "tempo_conv tempo division = of_int tempo / 1000 / of_int division"

text \<open>The first entry replaces the map, also when an entry for tick 0 has just been made.\<close>

definition midifile_tempo_map_add_entry :: "midifile \<Rightarrow> int \<Rightarrow> int \<Rightarrow> midifile" where
  "midifile_tempo_map_add_entry f tick tempo =
     (let conv = tempo_conv tempo (mf_division f) in
      if mf_tempo_map f = [] then
        (if tick = 0 then f\<lparr>mf_tempo_map := [\<lparr>te_tick = 0, te_time = 0, te_conv = conv\<rparr>]\<rparr>
         else f\<lparr>mf_tempo_map := [\<lparr>te_tick = tick,
                 te_time = of_int tick * tempo_conv FTS_MIDIFILE_DEFAULT_TEMPO (mf_division f), te_conv = conv\<rparr>]\<rparr>)
      else
        (let e = last (mf_tempo_map f) in
         f\<lparr>mf_tempo_map := mf_tempo_map f @ [\<lparr>te_tick = tick,
             te_time = te_time e + of_int (tick - te_tick e) * te_conv e, te_conv = conv\<rparr>]\<rparr>))"

text \<open>
  The tempo map grows while a track is read, and the read pointer sees the new entries: it is the index
  of its entry, and \<open>None\<close> is the null pointer. \<open>advance_pointer\<close> follows the links from an entry.
\<close>

definition tempo_map_start :: "midifile \<Rightarrow> nat option" where
  "tempo_map_start f = (if mf_tempo_map f = [] then None else Some 0)"

fun advance_pointer :: "int \<Rightarrow> tempo_entry list \<Rightarrow> tempo_entry list" where
  "advance_pointer ticks (p # q # qs) = (if te_tick q \<le> ticks then advance_pointer ticks (q # qs) else p # q # qs)"
| "advance_pointer ticks ps = ps"

subsection \<open>Messages\<close>

definition midifile_channel_message_call :: "midi_type \<Rightarrow> int \<Rightarrow> int \<Rightarrow> int \<Rightarrow> midifile \<Rightarrow> midifile" where
  "midifile_channel_message_call type channel byte1 byte2 f =
     (if mf_sel_channel f = 0 \<or> channel = mf_sel_channel f
      then call_back (Midi_event (Channel_message type channel byte1 byte2)) f else f)"

definition midifile_system_exclusive_start :: "midifile \<Rightarrow> midifile" where
  "midifile_system_exclusive_start f = f\<lparr>mf_sysex := Some []\<rparr>"

text \<open>The append to a missing event dereferences a null pointer.\<close>

definition midifile_system_exclusive_bytes :: "int list \<Rightarrow> midifile \<Rightarrow> midifile option" where
  "midifile_system_exclusive_bytes bs f =
     (if bs = [] then Some f
      else map_option (\<lambda>xs. f\<lparr>mf_sysex := Some (xs @ map (\<lambda>b. b AND 0x7F) bs)\<rparr>) (mf_sysex f))"

definition midifile_system_exclusive_call :: "midifile \<Rightarrow> midifile" where
  "midifile_system_exclusive_call f =
     (case mf_sysex f of
        None \<Rightarrow> f
      | Some xs \<Rightarrow> (if length xs > 0 then call_back (Midi_event (System_exclusive xs)) f else f)\<lparr>mf_sysex := None\<rparr>)"

fun midifile_read_mt :: "int list \<Rightarrow> midifile \<Rightarrow> bool \<times> midifile" where
  "midifile_read_mt [] f = (True, f)"
| "midifile_read_mt (s # ss) f =
     (case readbyte f of (c, f1) \<Rightarrow> if c = s then midifile_read_mt ss f1 else (False, f1))"

definition MThd_bytes :: "int list" where "MThd_bytes = [0x4d, 0x54, 0x68, 0x64]"
definition MTrk_bytes :: "int list" where "MTrk_bytes = [0x4d, 0x54, 0x72, 0x6b]"

text \<open>Flushing the rest of the header stops at a byte that a signed \<open>char\<close> takes for \<open>EOF\<close>.\<close>

fun flush_header :: "byte list \<Rightarrow> midifile \<Rightarrow> bool \<times> midifile" where
  "flush_header [] f = (mf_bytes f > 0, f)"
| "flush_header (b # bs) f =
     (if mf_bytes f > 0 then
        (let f1 = f\<lparr>mf_in := bs, mf_bytes := mf_bytes f - 1\<rparr>
         in if b = 0xFF then (True, f1) else flush_header bs f1)
      else (False, f))"

definition midifile_read_header :: "midifile \<Rightarrow> int \<times> midifile" where
  "midifile_read_header f =
     (case midifile_read_mt MThd_bytes f of (ok, f) \<Rightarrow>
        if \<not> ok then (0, mferror No_header f)
        else
          (case read32bit f of (n, f) \<Rightarrow>
           case read16bit (f\<lparr>mf_bytes := n\<rparr>) of (format, f) \<Rightarrow>
           case read16bit f of (tracks, f) \<Rightarrow>
           case read16bit f of (division, f) \<Rightarrow>
             let conv = (if division > 0 then tempo_conv FTS_MIDIFILE_DEFAULT_TEMPO division
                         else 1000 / (of_int ((division AND 0xff00) div 256) * of_int (division AND 0xff)));
                 f = f\<lparr>mf_format := format, mf_n_tracks := tracks, mf_division := division, mf_time_conv := conv\<rparr>;
                 f = (if mf_error f = None then call_back Call_header f else f)
             in (case flush_header (mf_in f) f of (eof, f) \<Rightarrow> (if eof then 0 else tracks, f))))"

subsection \<open>Meta events\<close>

definition midifile_read_string :: "int \<Rightarrow> midifile \<Rightarrow> midifile" where
  "midifile_read_string n f = (case readbytes (nat n) 0 f of (cs, l, f1) \<Rightarrow> f1\<lparr>mf_string := cs\<rparr>)"

definition midifile_read_tempo :: "midifile \<Rightarrow> midifile" where
  "midifile_read_tempo f =
     (case readbyte f of (b0, f) \<Rightarrow> case readbyte f of (b1, f) \<Rightarrow> case readbyte f of (b2, f) \<Rightarrow>
        let tempo = b0 * 2 ^ 16 + b1 * 2 ^ 8 + b2;
            f = (if mf_format f = 1 then midifile_tempo_map_add_entry f (mf_ticks f) tempo else f);
            f = (if mf_division f > 0 then f\<lparr>mf_time_conv := tempo_conv tempo (mf_division f)\<rparr> else f)
        in call_back (Tempo tempo) (f\<lparr>mf_tempo := tempo\<rparr>))"

definition midifile_read_smpte :: "midifile \<Rightarrow> midifile" where
  "midifile_read_smpte f =
     (case readbyte f of (byte, f) \<Rightarrow> case readbyte f of (minute, f) \<Rightarrow> case readbyte f of (second, f) \<Rightarrow>
      case readbyte f of (frame, f) \<Rightarrow> case readbyte f of (ff, f) \<Rightarrow>
        call_back (Smpte ((byte AND 0x60) div 32) (byte AND 0x1f) minute second frame ff) f)"

definition midifile_read_time_signature :: "midifile \<Rightarrow> midifile" where
  "midifile_read_time_signature f =
     (case readbyte f of (numerator, f) \<Rightarrow> case readbyte f of (d, f) \<Rightarrow> case readbyte f of (clocks, f) \<Rightarrow>
      case readbyte f of (heals, f) \<Rightarrow>
        call_back (Time_signature numerator (int_wrap (2 ^ nat (d mod 32))) clocks heals) f)"

definition midifile_read_meta :: "midifile \<Rightarrow> midifile" where
  "midifile_read_meta f =
     (case readbyte f of (meta, f) \<Rightarrow> case readvarinum f of (n, f) \<Rightarrow>
        if meta = 0x00 then
          (case readbyte f of (msb, f) \<Rightarrow> case readbyte f of (lsb, f) \<Rightarrow>
             call_back (Sequence_number (msb * 2 ^ 8 + lsb)) f)
        else if 0x01 \<le> meta \<and> meta \<le> 0x0f then
          (let f = midifile_read_string n f in call_back (Text meta (mf_string f)) f)
        else if meta = 0x2f then call_back End_of_track f
        else if meta = 0x51 then midifile_read_tempo f
        else if meta = 0x54 then midifile_read_smpte f
        else if meta = 0x58 then midifile_read_time_signature f
        else if meta = 0x59 then
          (case readbyte f of (sf, f) \<Rightarrow> case readbyte f of (mi, f) \<Rightarrow> call_back (Key_signature sf mi) f)
        else midifile_read_string n f)"

subsection \<open>Tracks\<close>

text \<open>The local variables of the track loop: a pending sysex, the running status, the channel.\<close>

record track_vars =
  tv_continue :: bool
  tv_status :: int
  tv_channel :: int

text \<open>How a turn of the loop ends: with the next turn, a break, a return, or a null dereference.\<close>

datatype turn = Next track_vars midifile | Break midifile | Return midifile | Crash

definition midifile_set_time :: "int \<Rightarrow> midifile \<Rightarrow> midifile" where
  "midifile_set_time delta f =
     (let f = f\<lparr>mf_ticks := int_wrap (mf_ticks f + delta)\<rparr> in
      case mf_tempo_map_pointer f of
        Some i \<Rightarrow>
          (let ps = advance_pointer (mf_ticks f) (drop i (mf_tempo_map f)); p = hd ps
           in f\<lparr>mf_time := te_time p + of_int (mf_ticks f - te_tick p) * te_conv p,
                mf_tempo_map_pointer := Some (length (mf_tempo_map f) - length ps)\<rparr>)
      | None \<Rightarrow> f\<lparr>mf_time := mf_time f + of_int delta * mf_time_conv f\<rparr>)"

definition midifile_read_sysex :: "track_vars \<Rightarrow> midifile \<Rightarrow> turn" where
  "midifile_read_sysex v f =
     (case readvarinum f of (n, f) \<Rightarrow>
      case readbytes (nat n) 0xf0 (midifile_system_exclusive_start f) of (cs, byte, f) \<Rightarrow>
      case midifile_system_exclusive_bytes cs f of
        None \<Rightarrow> Crash
      | Some f \<Rightarrow>
          if byte = 0xf7 then Next v (midifile_system_exclusive_call f)
          else Next (v\<lparr>tv_continue := True\<rparr>) f)"

definition midifile_read_sysex_continue :: "track_vars \<Rightarrow> midifile \<Rightarrow> turn" where
  "midifile_read_sysex_continue v f =
     (case readvarinum f of (n, f) \<Rightarrow>
      let f = (if \<not> tv_continue v then midifile_system_exclusive_start f else f) in
      case readbytes (nat n) 0xf7 f of (cs, byte, f) \<Rightarrow>
      case midifile_system_exclusive_bytes cs f of
        None \<Rightarrow> Crash
      | Some f \<Rightarrow>
          if \<not> tv_continue v then Next v (midifile_system_exclusive_call f)
          else if byte = 0xf7 then Next (v\<lparr>tv_continue := False\<rparr>) (midifile_system_exclusive_call f)
          else Next v f)"

definition midifile_read_channel_message :: "track_vars \<Rightarrow> int \<Rightarrow> midifile \<Rightarrow> turn" where
  "midifile_read_channel_message v data1 f =
     (let status = tv_status v; channel = tv_channel v;
          two = (\<lambda>type. case readbyte f of (data2, f) \<Rightarrow>
                   Next v (midifile_channel_message_call type channel data1 data2 f))
      in if status = 0x80 then
           (case readbyte f of (data2, f) \<Rightarrow> Next v (midifile_channel_message_call Midi_note channel data1 0 f))
         else if status = 0x90 then two Midi_note
         else if status = 0xa0 then two Midi_poly_pressure
         else if status = 0xb0 then two Midi_control_change
         else if status = 0xc0 then
           Next v (midifile_channel_message_call Midi_program_change channel data1 MIDI_EMPTY_BYTE f)
         else if status = 0xd0 then
           Next v (midifile_channel_message_call Midi_channel_pressure channel data1 MIDI_EMPTY_BYTE f)
         else if status = 0xe0 then two Midi_pitch_bend
         else if status = 0xf0 then midifile_read_sysex v f
         else if status = 0xf7 then midifile_read_sysex_continue v f
         else if status = 0xff then Next v (midifile_read_meta f)
         else Return (mferror Unexpected_byte f))"

definition midifile_read_event :: "track_vars \<Rightarrow> midifile \<Rightarrow> turn" where
  "midifile_read_event v f =
     (case readvarinum f of (delta, f) \<Rightarrow> case readbyte f of (byte, f) \<Rightarrow>
        if byte = EOF then Break f
        else
          (let f = midifile_set_time delta f in
           if tv_continue v \<and> byte \<noteq> 0xf7 then Return (mferror No_continuation f)
           else if byte < 128 then
             (if tv_status v < 128 then Return (mferror Running_status f)
              else midifile_read_channel_message v byte f)
           else if byte < 0xf0 then
             (case readbyte f of (data1, f) \<Rightarrow>
                midifile_read_channel_message
                  (v\<lparr>tv_status := byte AND 0xf0, tv_channel := (byte AND 0x0f) + 1\<rparr>) data1 f)
           else midifile_read_channel_message (v\<lparr>tv_status := byte AND 0xff\<rparr>) 0 f))"

text \<open>Every turn of the loop that is not the last consumes a byte.\<close>

abbreviation left :: "midifile \<Rightarrow> nat" where "left f \<equiv> length (mf_in f)"

lemma readbyte_left: "readbyte f = (c, f1) \<Longrightarrow> left f1 \<le> left f"
  "readbyte f = (c, f1) \<Longrightarrow> c \<noteq> EOF \<Longrightarrow> left f1 < left f"
  by (auto simp: readbyte_def EOF_def split: list.splits)

lemma varinum_loop_left: "varinum_loop bs c v f = (x, f1) \<Longrightarrow> mf_in f = bs \<Longrightarrow> left f1 \<le> left f"
proof (induction bs c v f rule: varinum_loop.induct)
  case (1 c v f)
  then show ?case by (simp split: if_splits)
next
  case (2 b bs c v f)
  show ?case
  proof (cases "c AND 0x80 \<noteq> 0")
    case True
    then have "left f1 \<le> left (f\<lparr>mf_in := bs, mf_bytes := mf_bytes f - 1\<rparr>)" using 2 by simp
    then show ?thesis using 2(3) by simp
  next
    case False
    then show ?thesis using 2(2) by simp
  qed
qed

lemma readvarinum_left: "readvarinum f = (x, f1) \<Longrightarrow> left f1 \<le> left f"
  using readbyte_left(1) varinum_loop_left
  by (fastforce simp: readvarinum_def split: prod.splits if_splits)

lemma readbytes_left: "readbytes n b f = (cs, l, f1) \<Longrightarrow> left f1 \<le> left f"
  by (induction n arbitrary: b f cs) (fastforce split: prod.splits dest: readbyte_left(1))+

lemma left_simps [simp]:
  "left (call_back c f) = left f" "left (mferror e f) = left f"
  "left (midifile_channel_message_call t ch b1 b2 f) = left f"
  "left (midifile_system_exclusive_start f) = left f" "left (midifile_system_exclusive_call f) = left f"
  "left (midifile_tempo_map_add_entry f a b) = left f" "left (midifile_set_time d f) = left f"
  by (auto simp: call_back_def mferror_def midifile_channel_message_call_def midifile_system_exclusive_start_def
      midifile_system_exclusive_call_def midifile_tempo_map_add_entry_def midifile_set_time_def Let_def
      split: option.splits)

lemma sysex_bytes_left: "midifile_system_exclusive_bytes cs f = Some f1 \<Longrightarrow> left f1 = left f"
  by (auto simp: midifile_system_exclusive_bytes_def split: if_splits)

lemma left_readbyte [simp]: "left (snd (readbyte f)) \<le> left f"
  using readbyte_left(1) by (metis prod.collapse)

lemma read_string_left: "left (midifile_read_string n f) \<le> left f"
  using readbytes_left [of "nat n" 0 f] by (auto simp: midifile_read_string_def split: prod.split)

lemma readbyte3_left:
  "left (snd (readbyte (snd (readbyte f)))) \<le> left f"
  "left (snd (readbyte (snd (readbyte (snd (readbyte f)))))) \<le> left f"
  "left (snd (readbyte (snd (readbyte (snd (readbyte (snd (readbyte f)))))))) \<le> left f"
  "left (snd (readbyte (snd (readbyte (snd (readbyte (snd (readbyte (snd (readbyte f)))))))))) \<le> left f"
  by (meson left_readbyte le_trans)+

lemma read_tempo_left: "left (midifile_read_tempo f) \<le> left f"
  using readbyte3_left(2) [of f] by (simp add: midifile_read_tempo_def split_beta Let_def)

lemma read_smpte_left: "left (midifile_read_smpte f) \<le> left f"
  using readbyte3_left(4) [of f] by (simp add: midifile_read_smpte_def split_beta)

lemma read_time_signature_left: "left (midifile_read_time_signature f) \<le> left f"
  using readbyte3_left(3) [of f] by (simp add: midifile_read_time_signature_def split_beta)

lemma read_meta_left: "left (midifile_read_meta f) \<le> left f"
proof -
  obtain meta f1 n f2 where 1: "readbyte f = (meta, f1)" "readvarinum f1 = (n, f2)" by fastforce
  have "left f2 \<le> left f" using readbyte_left(1) [OF 1(1)] readvarinum_left [OF 1(2)] by simp
  moreover have "left (midifile_read_meta f) \<le> left f2"
    using 1 readbyte3_left(1) [of f2] read_string_left [of n f2] read_tempo_left [of f2] read_smpte_left [of f2]
      read_time_signature_left [of f2]
    by (simp add: midifile_read_meta_def split_beta Let_def)
  ultimately show ?thesis by simp
qed

lemma read_sysex_left: "midifile_read_sysex v f = Next v' f' \<Longrightarrow> left f' \<le> left f"
  by (auto simp: midifile_read_sysex_def split: prod.splits option.splits if_splits
      dest!: readvarinum_left readbytes_left sysex_bytes_left)

lemma read_sysex_continue_left: "midifile_read_sysex_continue v f = Next v' f' \<Longrightarrow> left f' \<le> left f"
  by (auto simp: midifile_read_sysex_continue_def Let_def split: prod.splits option.splits if_splits
      dest!: readvarinum_left readbytes_left sysex_bytes_left)

lemma read_channel_message_left:
  assumes "midifile_read_channel_message v d f = Next v' f'"
  shows "left f' \<le> left f"
  using assms read_sysex_left [of v f] read_sysex_continue_left [of v f] read_meta_left [of f] left_readbyte [of f]
  by (auto simp: midifile_read_channel_message_def Let_def split_beta split: if_splits)

lemma read_event_left:
  assumes "midifile_read_event v f = Next v' f'"
  shows "left f' < left f"
proof -
  obtain delta f1 byte f2 where 1: "readvarinum f = (delta, f1)" "readbyte f1 = (byte, f2)" by fastforce
  have byte: "byte \<noteq> EOF" using assms 1 by (auto simp: midifile_read_event_def)
  have "left f2 < left f" using readvarinum_left [OF 1(1)] readbyte_left(2) [OF 1(2) byte] by simp
  moreover have "left f' \<le> left (midifile_set_time delta f2)"
    using assms 1 byte left_readbyte [of "midifile_set_time delta f2"]
    by (auto simp: midifile_read_event_def Let_def split_beta split: if_splits dest!: read_channel_message_left)
  ultimately show ?thesis by simp
qed

text \<open>The loop over the events of a track. \<^const>\<open>None\<close> is a crash.\<close>

function track_loop :: "track_vars \<Rightarrow> midifile \<Rightarrow> midifile option" where
  "track_loop v f =
     (if mf_error f = None \<and> mf_bytes f > 0 then
        (case midifile_read_event v f of
           Next v' f' \<Rightarrow> track_loop v' f'
         | Break f' \<Rightarrow> Some (if mf_error f' = None then call_back Track_end f' else f')
         | Return f' \<Rightarrow> Some f'
         | Crash \<Rightarrow> None)
      else Some (if mf_error f = None then call_back Track_end f else f))"
  by pat_completeness auto
termination
  by (relation "measure (\<lambda>(v, f). left f)") (simp_all add: read_event_left)

declare track_loop.simps [simp del]

definition midifile_read_track :: "midifile \<Rightarrow> midifile option" where
  "midifile_read_track f =
     (case midifile_read_mt MTrk_bytes f of (ok, f) \<Rightarrow>
        if \<not> ok then Some (mferror No_track f)
        else
          (case read32bit f of (n, f) \<Rightarrow>
             let f = f\<lparr>mf_bytes := n, mf_ticks := 0, mf_time := 0, mf_tempo_map_pointer := tempo_map_start f\<rparr>;
                 f = (if mf_error f = None then call_back Track_start f else f)
             in track_loop \<lparr>tv_continue = False, tv_status = 0, tv_channel = 0\<rparr> f))"

fun skip_bytes :: "byte list \<Rightarrow> midifile \<Rightarrow> midifile" where
  "skip_bytes [] f = f"
| "skip_bytes (b # bs) f =
     (if mf_error f = None \<and> mf_bytes f > 0 then skip_bytes bs (f\<lparr>mf_in := bs, mf_bytes := mf_bytes f - 1\<rparr>) else f)"

definition midifile_skip_track :: "midifile \<Rightarrow> midifile" where
  "midifile_skip_track f =
     (case midifile_read_mt MTrk_bytes f of (ok, f) \<Rightarrow>
        if \<not> ok then mferror No_track f
        else
          (case read32bit f of (n, f) \<Rightarrow>
             let f = f\<lparr>mf_bytes := n, mf_ticks := 0, mf_time := 0, mf_tempo_map_pointer := tempo_map_start f\<rparr>
             in skip_bytes (mf_in f) f))"

text \<open>The loop of \<open>fts_midifile_read\<close> over the tracks \<open>i\<close>, of which \<open>n\<close> are left.\<close>

fun read_tracks :: "nat \<Rightarrow> int \<Rightarrow> midifile \<Rightarrow> (int \<times> midifile) option" where
  "read_tracks 0 i f = Some (i, f)"
| "read_tracks (Suc n) i f =
     (if mf_sel_track f \<ge> 0 \<and> i > 0 \<and> i > mf_sel_track f then Some (i, f)
      else
        (case (if mf_sel_track f \<ge> 0 \<and> i > 0 \<and> i < mf_sel_track f then Some (midifile_skip_track f)
               else midifile_read_track f) of
           None \<Rightarrow> None
         | Some f1 \<Rightarrow> if mf_error f1 \<noteq> None then Some (i, f1) else read_tracks n (i + 1) f1))"

definition fts_midifile_read :: "midifile \<Rightarrow> (int \<times> midifile) option" where
  "fts_midifile_read f = (case midifile_read_header f of (n, f1) \<Rightarrow> read_tracks (nat n) 0 f1)"

subsection \<open>Writing\<close>

definition file_write :: "byte list \<Rightarrow> midifile \<Rightarrow> midifile" where
  "file_write bs f =
     f\<lparr>mf_file := take (mf_pos f) (mf_file f) @ bs @ drop (mf_pos f + length bs) (mf_file f),
       mf_pos := mf_pos f + length bs\<rparr>"

definition writeblock :: "midifile \<Rightarrow> midifile" where
  "writeblock f =
     (let f1 = file_write (mf_buf f) f
      in f1\<lparr>mf_buf := [], mf_size := mf_size f + int (length (mf_buf f))\<rparr>)"

definition writebyte :: "int \<Rightarrow> midifile \<Rightarrow> midifile" where
  "writebyte c f =
     (let f1 = (if length (mf_buf f) \<ge> MIDIFILE_BLOCK_SIZE then writeblock f else f)
      in f1\<lparr>mf_buf := mf_buf f1 @ [word_of_int c]\<rparr>)"

fun writebytes :: "int list \<Rightarrow> midifile \<Rightarrow> midifile" where
  "writebytes [] f = f"
| "writebytes (c # cs) f = writebytes cs (writebyte c f)"

text \<open>The two loops of \<open>writevarlen\<close>, on an \<open>unsigned int\<close>.\<close>

function varlen_pack :: "nat \<Rightarrow> nat \<Rightarrow> nat" where
  "varlen_pack v bufer =
     (let v = v div 128 in
      if v > 0 then varlen_pack v ((((bufer * 256) mod 2 ^ 32) OR 0x80) + v mod 128) else bufer)"
  by pat_completeness auto
termination
  by (relation "measure fst") auto

function varlen_bytes :: "nat \<Rightarrow> int list" where
  "varlen_bytes bufer =
     int (bufer mod 256) # (if bufer AND 0x80 \<noteq> 0 then varlen_bytes (bufer div 256) else [])"
  by pat_completeness auto
termination
proof (relation "measure id")
  show "(bufer div 256, bufer) \<in> measure id" if "bufer AND 128 \<noteq> 0" for bufer :: nat
    using that by (cases "bufer = 0") auto
qed simp

declare varlen_pack.simps [simp del] varlen_bytes.simps [simp del]

definition writevarlen :: "int \<Rightarrow> midifile \<Rightarrow> midifile" where
  "writevarlen value f =
     (let v = nat (value mod 2 ^ 32) in writebytes (varlen_bytes (varlen_pack v (v mod 128))) f)"

definition write32bit :: "int \<Rightarrow> midifile \<Rightarrow> midifile" where
  "write32bit data f = writebytes [(data div 2 ^ 24) AND 0xff, (data div 2 ^ 16) AND 0xff, (data div 2 ^ 8) AND 0xff, data AND 0xff] f"

definition write16bit :: "int \<Rightarrow> midifile \<Rightarrow> midifile" where
  "write16bit data f = writebytes [(data AND 0xff00) div 256, data AND 0xff] f"

definition fts_midifile_write_header :: "int \<Rightarrow> int \<Rightarrow> int \<Rightarrow> midifile \<Rightarrow> midifile" where
  "fts_midifile_write_header format n_tracks division f =
     (let f = write32bit 0x4d546864 f;
          f = write32bit 6 f;
          f = write16bit format f;
          f = write16bit n_tracks f;
          f = write16bit division f
      in f\<lparr>mf_division := division\<rparr>)"

definition fts_midifile_write_track_begin :: "midifile \<Rightarrow> midifile" where
  "fts_midifile_write_track_begin f =
     (let f = writeblock f;
          f = f\<lparr>mf_bytes := int (mf_pos f)\<rparr>;
          f = write32bit 0x4d54726b f;
          f = write32bit 0 f;
          f = writeblock f
      in f\<lparr>mf_ticks := 0, mf_time := 0, mf_size := 0\<rparr>)"

definition fts_midifile_write_track_end :: "midifile \<Rightarrow> midifile" where
  "fts_midifile_write_track_end f =
     (let f = writebytes [0, 0xff, 0x2f, 0] f;
          f = writeblock f;
          filepos = mf_pos f;
          size = mf_size f;
          f = f\<lparr>mf_pos := nat (mf_bytes f)\<rparr>;
          f = write32bit 0x4d54726b f;
          f = write32bit size f;
          f = writeblock f
      in f\<lparr>mf_pos := filepos\<rparr>)"

definition write_delta :: "int \<Rightarrow> midifile \<Rightarrow> midifile" where
  "write_delta ticks f =
     (let delta = int_wrap (ticks - mf_ticks f);
          delta = (if delta < 0 then 0 else delta)
      in (writevarlen delta f)\<lparr>mf_ticks := ticks\<rparr>)"

definition fts_midifile_write_channel_message :: "int \<Rightarrow> midi_type \<Rightarrow> int \<Rightarrow> int \<Rightarrow> int \<Rightarrow> midifile \<Rightarrow> midifile" where
  "fts_midifile_write_channel_message ticks type channel byte1 byte2 f =
     (let status = 144 + ((midi_type_num type AND 0x0f) * 16) + ((channel - 1) AND 0x0f);
          f = write_delta ticks f;
          f = writebyte status f;
          f = writebyte (byte1 AND 0x7f) f
      in if byte2 \<noteq> MIDI_EMPTY_BYTE then writebyte (byte2 AND 0x7f) f else f)"

text \<open>A system exclusive message is written without the length that the reader expects.\<close>

definition fts_midifile_write_midievent :: "int \<Rightarrow> midievent \<Rightarrow> midifile \<Rightarrow> midifile" where
  "fts_midifile_write_midievent ticks event f =
     (let f = write_delta ticks f in
      case event of
        Channel_message type channel b1 b2 \<Rightarrow>
          (let f = writebyte (channel_message_status_byte type channel) f;
               f = writebyte (b1 AND 0x7f) f
           in if has_second_byte event then writebyte (b2 AND 0x7f) f else f)
      | System_exclusive xs \<Rightarrow> writebyte 0xf7 (writebytes (map (\<lambda>x. x AND 0x7f) xs) (writebyte 0xf0 f))
      | Real_time tag \<Rightarrow> writebyte (real_time_status_byte tag) f
      | _ \<Rightarrow> f)"

definition fts_midifile_write_meta_event :: "int \<Rightarrow> int \<Rightarrow> int list \<Rightarrow> midifile \<Rightarrow> midifile" where
  "fts_midifile_write_meta_event ticks type data f =
     (let f = (writevarlen (int_wrap (ticks - mf_ticks f)) f)\<lparr>mf_ticks := ticks\<rparr>;
          f = writebyte 0xff f;
          f = writebyte type f;
          f = writevarlen (int (length data)) f
      in writebytes data f)"

definition fts_midifile_write_tempo :: "int \<Rightarrow> midifile \<Rightarrow> midifile" where
  "fts_midifile_write_tempo tempo f =
     (writebytes [0, 0xff, 0x51, 3, (tempo div 2 ^ 16) AND 0xff, (tempo div 2 ^ 8) AND 0xff, tempo AND 0xff] f)
        \<lparr>mf_tempo := tempo\<rparr>"

definition fts_midifile_close :: "midifile \<Rightarrow> midifile" where
  "fts_midifile_close f = (writeblock f)\<lparr>mf_tempo_map := []\<rparr>"

subsection \<open>Variable length numbers\<close>

definition varlen :: "nat \<Rightarrow> int list" where
  "varlen v = varlen_bytes (varlen_pack v (v mod 128))"

lemma nat_or_high:
  fixes lo hi :: nat
  assumes "lo < 2 ^ n"
  shows "(hi * 2 ^ n) OR lo = hi * 2 ^ n + lo"
proof -
  have "int ((hi * 2 ^ n) OR lo) = int (hi * 2 ^ n + lo)"
    using or_high [of "int lo" n "int hi"] assms by (simp add: of_nat_or_eq or.commute)
  then show ?thesis by (simp only: of_nat_eq_iff)
qed

lemma and_128:
  "d < 128 \<Longrightarrow> (256 * x + 128 + d :: nat) AND 128 \<noteq> 0" "a < 128 \<Longrightarrow> (a::nat) AND 128 = 0"
proof -
  have bit: "(n::nat) AND 128 = 0 \<longleftrightarrow> even (n div 128)" for n
    using and_exp_eq_0_iff_not_bit [of n 7] by (simp add: bit_iff_odd)
  have "(256 * x + 128 + d) div 128 = 2 * x + 1" if "d < 128" using that by simp
  then show "d < 128 \<Longrightarrow> (256 * x + 128 + d :: nat) AND 128 \<noteq> 0" by (simp add: bit del: div_mult_self1 div_mult_self2)
  show "a < 128 \<Longrightarrow> (a::nat) AND 128 = 0" by (simp add: bit)
qed

lemma varlen_bytes_digit:
  "d < 128 \<Longrightarrow> varlen_bytes (256 * x + 128 + d) = int (128 + d) # varlen_bytes x"
  "a < 128 \<Longrightarrow> varlen_bytes a = [int a]"
proof -
  assume d: "d < 128"
  have "(r + 256 * x) mod 256 = r" "(r + 256 * x) div 256 = x" if "r < 256" for r using that by simp_all
  from this [of "128 + d"] have "(256 * x + 128 + d) mod 256 = 128 + d" "(256 * x + 128 + d) div 256 = x"
    using d by (simp_all add: ac_simps)
  then show "varlen_bytes (256 * x + 128 + d) = int (128 + d) # varlen_bytes x"
    using and_128(1) [OF d, of x] by (subst varlen_bytes.simps) simp
next
  show "a < 128 \<Longrightarrow> varlen_bytes a = [int a]"
    using and_128(2) [of a] by (subst varlen_bytes.simps) simp
qed

lemma varlen_pack_step:
  assumes "a < 128" "bufer < 2 ^ 24"
  shows "varlen_pack (a + 128 * w) bufer = (if w = 0 then bufer else varlen_pack w (256 * bufer + 128 + w mod 128))"
proof -
  have w: "(a + 128 * w) div 128 = w" using assms by simp
  have "bufer * 256 < 2 ^ 32" using assms(2) by simp
  then have "((bufer * 256) mod 2 ^ 32) OR 128 = 256 * bufer + 128"
    using nat_or_high [of 128 8 bufer] by simp
  then show ?thesis unfolding varlen_pack.simps [of "a + 128 * w"] Let_def w by (simp add: add.assoc)
qed

lemma varlen_cases:
  assumes "a < 128" "b < 128" "c < 128" "d < 128"
  shows "varlen a = [int a]"
    "b > 0 \<Longrightarrow> varlen (a + 128 * b) = [int (128 + b), int a]"
    "c > 0 \<Longrightarrow> varlen (a + 128 * (b + 128 * c)) = [int (128 + c), int (128 + b), int a]"
    "d > 0 \<Longrightarrow> varlen (a + 128 * (b + 128 * (c + 128 * d))) = [int (128 + d), int (128 + c), int (128 + b), int a]"
proof -
  have m: "(x + 128 * w) mod 128 = x" if "x < 128" for x w :: nat using that by simp
  show "varlen a = [int a]"
    using varlen_pack_step [of a a 0] assms varlen_bytes_digit(2) by (simp add: varlen_def)
  have p1: "varlen_pack (a + 128 * w) a = varlen_pack w (256 * a + 128 + w mod 128)" if "w > 0" for w
    using varlen_pack_step [of a a w] assms that by simp
  have p2: "varlen_pack (b + 128 * w) (256 * a + 128 + b) = varlen_pack w (256 * (256 * a + 128 + b) + 128 + w mod 128)"
    if "w > 0" for w
    using varlen_pack_step [of b "256 * a + 128 + b" w] assms that by simp
  have p3: "varlen_pack (c + 128 * w) (256 * (256 * a + 128 + b) + 128 + c) =
      varlen_pack w (256 * (256 * (256 * a + 128 + b) + 128 + c) + 128 + w mod 128)" if "w > 0" for w
    using varlen_pack_step [of c "256 * (256 * a + 128 + b) + 128 + c" w] assms that by simp
  have stop: "varlen_pack x q = q" if "x < 128" for x q
    using that by (subst varlen_pack.simps) simp
  note bytes = varlen_bytes_digit
  show "varlen (a + 128 * b) = [int (128 + b), int a]" if "b > 0"
    unfolding varlen_def m [OF assms(1)] p1 [OF that] stop [OF assms(2)]
    using assms that bytes(1) [of b a] bytes(2) [of a] by simp
  show "varlen (a + 128 * (b + 128 * c)) = [int (128 + c), int (128 + b), int a]" if "c > 0"
  proof -
    have "b + 128 * c > 0" using that by simp
    then show ?thesis
      unfolding varlen_def m [OF assms(1)] p1 [OF \<open>b + 128 * c > 0\<close>] m [OF assms(2)] p2 [OF that] stop [OF assms(3)]
      using assms bytes(1) [of c "256 * a + 128 + b"] bytes(1) [of b a] bytes(2) [of a] by simp
  qed
  show "varlen (a + 128 * (b + 128 * (c + 128 * d))) = [int (128 + d), int (128 + c), int (128 + b), int a]" if "d > 0"
  proof -
    have pos: "b + 128 * (c + 128 * d) > 0" "c + 128 * d > 0" using that by simp_all
    then show ?thesis
      unfolding varlen_def m [OF assms(1)] p1 [OF pos(1)] m [OF assms(2)] p2 [OF pos(2)] m [OF assms(3)]
        p3 [OF that] stop [OF assms(4)]
      using assms bytes(1) [of d "256 * (256 * a + 128 + b) + 128 + c"] bytes(1) [of c "256 * a + 128 + b"]
        bytes(1) [of b a] bytes(2) [of a] by simp
  qed
qed

lemma varlen_exhaust:
  fixes v :: nat
  assumes "v < 2 ^ 28"
  obtains (1) a where "a < 128" "v = a"
    | (2) a b where "a < 128" "b < 128" "0 < b" "v = a + 128 * b"
    | (3) a b c where "a < 128" "b < 128" "c < 128" "0 < c" "v = a + 128 * (b + 128 * c)"
    | (4) a b c d where "a < 128" "b < 128" "c < 128" "d < 128" "0 < d" "v = a + 128 * (b + 128 * (c + 128 * d))"
proof -
  let ?a = "v mod 128" and ?b = "v div 128 mod 128" and ?c = "v div 128 div 128 mod 128" and ?d = "v div 128 div 128 div 128"
  have lt: "?a < 128" "?b < 128" "?c < 128" by simp_all
  have d: "?d < 128" using assms by (simp add: div_mult2_eq [symmetric] less_mult_imp_div_less)
  have v: "v = ?a + 128 * (?b + 128 * (?c + 128 * ?d))" by simp
  show thesis
  proof (cases "0 < ?d")
    case True
    then show thesis using 4 lt d v by blast
  next
    case False
    then have v3: "v = ?a + 128 * (?b + 128 * ?c)" using v by simp
    show thesis
    proof (cases "0 < ?c")
      case True
      then show thesis using 3 lt v3 by blast
    next
      case False
      then have v2: "v = ?a + 128 * ?b" using v3 by simp
      show thesis
      proof (cases "0 < ?b")
        case True
        then show thesis using 2 lt v2 by blast
      next
        case False
        then show thesis using 1 [of ?a] lt v2 by simp
      qed
    qed
  qed
qed

lemma int_wrap_id: "- (2 ^ 31) \<le> x \<Longrightarrow> x < 2 ^ 31 \<Longrightarrow> int_wrap x = x"
  by (simp add: int_wrap_def signed_of_int signed_take_bit_int_eq_self)

lemma readbyte_Cons:
  "mf_in f = b # bs \<Longrightarrow> readbyte f = (uint b, f\<lparr>mf_in := bs, mf_bytes := mf_bytes f - 1\<rparr>)"
  by (simp add: readbyte_def)

lemma and_128_int:
  fixes d :: int
  assumes "0 \<le> d" "d < 128"
  shows "(128 + d) AND 128 \<noteq> 0" "d AND 128 = 0" "(128 + d) AND 127 = d" "d AND 127 = d"
proof -
  have low: "d AND 127 = d" using assms by (simp add: and_low)
  show z: "d AND 128 = 0" by (subst low [symmetric]) (simp add: and.assoc)
  have "128 + d = d OR 128" using or_high [of d 7 1] assms by simp
  then have "(128 + d) AND 128 = 128" using z by (simp add: bit.conj_disj_distrib2)
  then show "(128 + d) AND 128 \<noteq> 0" by simp
  show "(128 + d) AND 127 = d" using assms by (simp add: and_low)
  show "d AND 127 = d" by (rule low)
qed

lemma varinum_more:
  assumes "0 \<le> d" "d < 128" "0 \<le> b" "b < 256" "0 \<le> v" "v < 2 ^ 21"
  shows "varinum_loop (word_of_int b # bs) (128 + d) v f =
    varinum_loop bs b (v * 128 + b mod 128) (f\<lparr>mf_in := bs, mf_bytes := mf_bytes f - 1\<rparr>)"
proof -
  have "0 \<le> b mod 128" "b mod 128 < 128" by simp_all
  then have "int_wrap (v * 128 + b mod 128) = v * 128 + b mod 128" using assms by (intro int_wrap_id) simp_all
  then show ?thesis using and_128_int(1) [OF assms(1,2)] assms(3,4) by (simp add: uint_byte and_low)
qed

lemma varinum_stop: "0 \<le> a \<Longrightarrow> a < 128 \<Longrightarrow> varinum_loop bs a v f = (v, f)"
  using and_128_int(2) [of a] by (cases bs) simp_all

lemma readvarinum_start:
  assumes "mf_in f = word_of_int b # bs" "0 \<le> b" "b < 256"
  shows "readvarinum f = varinum_loop bs b (b mod 128) (f\<lparr>mf_in := bs, mf_bytes := mf_bytes f - 1\<rparr>)"
  using readbyte_Cons [OF assms(1)] assms(2,3) by (simp add: readvarinum_def uint_byte EOF_def and_low)

lemma readvarinum_varlen:
  assumes "mf_in f = to_bytes (varlen v) @ rest" "v < 2 ^ 28"
  shows "readvarinum f = (int v, f\<lparr>mf_in := rest, mf_bytes := mf_bytes f - int (length (varlen v))\<rparr>)"
  using assms(2)
proof (cases rule: varlen_exhaust)
  case (1 a)
  have l: "varlen v = [int a]" using varlen_cases(1) [of a 0 0 0] 1 by simp
  then show ?thesis
    using readvarinum_start [of f "int a" rest] assms(1) 1 by (simp add: varinum_stop)
next
  case (2 a b)
  have l: "varlen v = [128 + int b, int a]" using varlen_cases(2) [of a b 0 0] 2 by simp
  then show ?thesis
    using readvarinum_start [of f "128 + int b" "word_of_int (int a) # rest"] assms(1) 2
      varinum_more [of "int b" "int a" "int b" rest] by (simp add: varinum_stop)
next
  case (3 a b c)
  have l: "varlen v = [128 + int c, 128 + int b, int a]" using varlen_cases(3) [of a b c 0] 3 by simp
  then show ?thesis
    using readvarinum_start [of f "128 + int c" "word_of_int (128 + int b) # word_of_int (int a) # rest"] assms(1) 3
      varinum_more [of "int c" "128 + int b" "int c"] varinum_more [of "int b" "int a" "int c * 128 + int b"]
    by (simp add: varinum_stop)
next
  case (4 a b c d)
  have l: "varlen v = [128 + int d, 128 + int c, 128 + int b, int a]" using varlen_cases(4) [of a b c d] 4 by simp
  then show ?thesis
    using readvarinum_start [of f "128 + int d" "word_of_int (128 + int c) # word_of_int (128 + int b) # word_of_int (int a) # rest"]
      assms(1) 4 varinum_more [of "int d" "128 + int c" "int d"] varinum_more [of "int c" "128 + int b" "int d * 128 + int c"]
      varinum_more [of "int b" "int a" "(int d * 128 + int c) * 128 + int b"]
    by (simp add: varinum_stop)
qed

subsection \<open>Writing: the contents of the file\<close>

text \<open>The file with the bytes that are still in the buffer, while writing at its end.\<close>

definition writing :: "midifile \<Rightarrow> byte list \<Rightarrow> int \<Rightarrow> bool" where
  "writing f c n \<longleftrightarrow> mf_pos f = length (mf_file f) \<and> mf_file f @ mf_buf f = c \<and>
     mf_size f + int (length (mf_buf f)) = n"

definition same_head :: "midifile \<Rightarrow> midifile \<Rightarrow> bool" where
  "same_head f g \<longleftrightarrow> mf_bytes g = mf_bytes f \<and> mf_ticks g = mf_ticks f"

lemma writing_block:
  assumes "writing f c n"
  shows "writing (writeblock f) c n" "mf_buf (writeblock f) = []" "same_head f (writeblock f)"
  using assms by (auto simp: writing_def writeblock_def file_write_def Let_def same_head_def)

lemma writing_byte:
  assumes "writing f c n"
  shows "writing (writebyte x f) (c @ [word_of_int x]) (n + 1)" "same_head f (writebyte x f)"
proof -
  define g where "g = (if length (mf_buf f) \<ge> MIDIFILE_BLOCK_SIZE then writeblock f else f)"
  have "writing g c n" "same_head f g" using writing_block [OF assms] assms by (auto simp: g_def same_head_def)
  moreover have "writebyte x f = g\<lparr>mf_buf := mf_buf g @ [word_of_int x]\<rparr>" by (simp add: writebyte_def g_def Let_def)
  ultimately show "writing (writebyte x f) (c @ [word_of_int x]) (n + 1)" "same_head f (writebyte x f)"
    by (auto simp: writing_def same_head_def)
qed

lemma writing_bytes:
  "writing f c n \<Longrightarrow> writing (writebytes xs f) (c @ to_bytes xs) (n + int (length xs)) \<and> same_head f (writebytes xs f)"
proof (induction xs arbitrary: f c n)
  case Nil
  then show ?case by (simp add: same_head_def)
next
  case (Cons x xs)
  then show ?case using Cons.IH [OF writing_byte(1) [OF Cons.prems, of x]] writing_byte(2) [OF Cons.prems, of x]
    by (simp add: same_head_def algebra_simps)
qed

lemma writing_update [simp]: "writing (f\<lparr>mf_ticks := t\<rparr>) c n = writing f c n"
  "writing (f\<lparr>mf_division := t\<rparr>) c n = writing f c n"
  by (simp_all add: writing_def)

lemma writing_varlen:
  assumes "writing f c n" "v < 2 ^ 28"
  shows "writing (writevarlen (int v) f) (c @ to_bytes (varlen v)) (n + int (length (varlen v)))"
    "same_head f (writevarlen (int v) f)"
proof -
  have "nat (int v mod 2 ^ 32) = v" using assms(2) by (simp add: nat_mod_distrib)
  then have "writevarlen (int v) f = writebytes (varlen v) f" by (simp add: writevarlen_def varlen_def Let_def)
  then show "writing (writevarlen (int v) f) (c @ to_bytes (varlen v)) (n + int (length (varlen v)))"
    "same_head f (writevarlen (int v) f)"
    using writing_bytes [OF assms(1)] by simp_all
qed

text \<open>The channel messages of a track, with their ticks.\<close>

type_synonym track_event = "int \<times> midi_type \<times> int \<times> int \<times> int"

fun event_ok :: "int \<Rightarrow> track_event \<Rightarrow> bool" where
  "event_ok prev (t, type, ch, b1, b2) \<longleftrightarrow> prev \<le> t \<and> t - prev < 2 ^ 28 \<and> t < 2 ^ 31 \<and>
     midi_event_ok (Channel_message type ch b1 b2)"

fun track_ok :: "int \<Rightarrow> track_event list \<Rightarrow> bool" where
  "track_ok prev [] = True"
| "track_ok prev (e # es) = (event_ok prev e \<and> track_ok (fst e) es)"

fun event_bytes :: "int \<Rightarrow> track_event \<Rightarrow> int list" where
  "event_bytes prev (t, type, ch, b1, b2) = varlen (nat (t - prev)) @ midi_bytes (Channel_message type ch b1 b2)"

fun track_bytes :: "int \<Rightarrow> track_event list \<Rightarrow> int list" where
  "track_bytes prev [] = []"
| "track_bytes prev (e # es) = event_bytes prev e @ track_bytes (fst e) es"

fun write_events :: "track_event list \<Rightarrow> midifile \<Rightarrow> midifile" where
  "write_events [] f = f"
| "write_events ((t, type, ch, b1, b2) # es) f =
     write_events es (fts_midifile_write_channel_message t type ch b1 b2 f)"

lemma writing_event:
  assumes w: "writing f c n" and e: "event_ok (mf_ticks f) (t, type, ch, b1, b2)" "0 \<le> mf_ticks f"
  shows "\<exists>m. writing (fts_midifile_write_channel_message t type ch b1 b2 f)
      (c @ to_bytes (event_bytes (mf_ticks f) (t, type, ch, b1, b2))) m \<and>
    m = n + int (length (event_bytes (mf_ticks f) (t, type, ch, b1, b2))) \<and>
    mf_bytes (fts_midifile_write_channel_message t type ch b1 b2 f) = mf_bytes f \<and>
    mf_ticks (fts_midifile_write_channel_message t type ch b1 b2 f) = t"
proof -
  let ?v = "nat (t - mf_ticks f)"
  have ok: "1 \<le> ch" "ch \<le> 16" "data_byte b1" "if two_data_bytes type then data_byte b2 else b2 = MIDI_EMPTY_BYTE"
    "mf_ticks f \<le> t" "t - mf_ticks f < 2 ^ 28" "t < 2 ^ 31" using e by simp_all
  have wrap: "int_wrap (t - mf_ticks f) = int ?v" "?v < 2 ^ 28"
    using int_wrap_id [of "t - mf_ticks f"] ok e(2) by simp_all
  define f1 where "f1 = (writevarlen (int ?v) f)\<lparr>mf_ticks := t\<rparr>"
  have f1: "writing f1 (c @ to_bytes (varlen ?v)) (n + int (length (varlen ?v)))" "mf_bytes f1 = mf_bytes f" "mf_ticks f1 = t"
    using writing_varlen [OF w wrap(2)] by (simp_all add: f1_def same_head_def)
  have delta: "write_delta t f = f1" using wrap(1) by (simp add: write_delta_def f1_def Let_def)
  have type: "midi_type_num type AND 15 = midi_type_num type" using midi_type_num_range [of type] by (simp add: and_low)
  have status: "144 + ((midi_type_num type AND 0x0f) * 16) + ((ch - 1) AND 0x0f) = channel_message_status_byte type ch"
    unfolding type using ok by (simp add: channel_message_status_byte_def and_low)
  have b1: "b1 AND 127 = b1" using ok(3) by (simp add: data_byte_def and_low)
  have b2: "b2 \<noteq> MIDI_EMPTY_BYTE \<Longrightarrow> b2 AND 127 = b2" using ok(4) by (auto simp: data_byte_def and_low split: if_splits)
  have "fts_midifile_write_channel_message t type ch b1 b2 f = writebytes (midi_bytes (Channel_message type ch b1 b2)) f1"
    unfolding fts_midifile_write_channel_message_def Let_def delta status using b1 b2 by simp
  then show ?thesis
    using writing_bytes [OF f1(1), of "midi_bytes (Channel_message type ch b1 b2)"] f1(2,3)
    by (simp add: same_head_def add.assoc del: midi_bytes.simps)
qed

lemma writing_events:
  assumes "writing f c n" "track_ok (mf_ticks f) es" "0 \<le> mf_ticks f"
  shows "writing (write_events es f) (c @ to_bytes (track_bytes (mf_ticks f) es))
      (n + int (length (track_bytes (mf_ticks f) es))) \<and> mf_bytes (write_events es f) = mf_bytes f"
  using assms
proof (induction es arbitrary: f c n)
  case Nil
  then show ?case by simp
next
  case (Cons e es)
  obtain t type ch b1 b2 where e: "e = (t, type, ch, b1, b2)" by (cases e)
  let ?f = "fts_midifile_write_channel_message t type ch b1 b2 f"
  have ok: "event_ok (mf_ticks f) (t, type, ch, b1, b2)" using Cons.prems(2) by (simp add: e)
  obtain m where m: "writing ?f (c @ to_bytes (event_bytes (mf_ticks f) e)) m"
    "m = n + int (length (event_bytes (mf_ticks f) e))" "mf_bytes ?f = mf_bytes f" "mf_ticks ?f = t"
    using writing_event [OF Cons.prems(1) ok Cons.prems(3)] e by auto
  have "track_ok (mf_ticks ?f) es" "0 \<le> mf_ticks ?f" using Cons.prems(2,3) m(4) by (simp_all add: e)
  then show ?case using Cons.IH [OF m(1)] m(2-4) by (simp add: e add.assoc del: event_bytes.simps)
qed

subsection \<open>A whole file\<close>

definition be32 :: "int \<Rightarrow> int list" where
  "be32 data = [(data div 2 ^ 24) AND 0xff, (data div 2 ^ 16) AND 0xff, (data div 2 ^ 8) AND 0xff, data AND 0xff]"

definition be16 :: "int \<Rightarrow> int list" where
  "be16 data = [(data AND 0xff00) div 256, data AND 0xff]"

definition write_file :: "int \<Rightarrow> track_event list \<Rightarrow> midifile" where
  "write_file division es =
     fts_midifile_close (fts_midifile_write_track_end (write_events es
       (fts_midifile_write_track_begin (fts_midifile_write_header 0 1 division fts_midifile_init))))"

definition end_of_track :: "int list" where "end_of_track = [0, 0xff, 0x2f, 0]"

definition file_bytes :: "int \<Rightarrow> track_event list \<Rightarrow> int list" where
  "file_bytes division es =
     MThd_bytes @ be32 6 @ be16 0 @ be16 1 @ be16 division @ MTrk_bytes @
     be32 (int (length (track_bytes 0 es @ end_of_track))) @ track_bytes 0 es @ end_of_track"

lemma write32bit_bytes: "write32bit d f = writebytes (be32 d) f"
  by (simp add: write32bit_def be32_def)

lemma write16bit_bytes: "write16bit d f = writebytes (be16 d) f"
  by (simp add: write16bit_def be16_def)

lemma magic_bytes: "be32 0x4d546864 = MThd_bytes" "be32 0x4d54726b = MTrk_bytes"
  by (simp_all add: be32_def MThd_bytes_def MTrk_bytes_def)

lemma length_be [simp]: "length (be32 d) = 4" "length (be16 d) = 2" "length MThd_bytes = 4" "length MTrk_bytes = 4"
    "length end_of_track = 4"
  by (simp_all add: be32_def be16_def MThd_bytes_def MTrk_bytes_def end_of_track_def)

lemma writing_bytesD:
  assumes "writing f c n"
  shows "writing (writebytes xs f) (c @ to_bytes xs) (n + int (length xs))"
    "mf_bytes (writebytes xs f) = mf_bytes f" "mf_ticks (writebytes xs f) = mf_ticks f"
  using writing_bytes [OF assms, of xs] by (simp_all add: same_head_def)

lemma written_track_begin:
  assumes "writing f c n"
  shows "writing (fts_midifile_write_track_begin f) (c @ to_bytes (MTrk_bytes @ be32 0)) 0"
    "mf_bytes (fts_midifile_write_track_begin f) = int (length c)" "mf_ticks (fts_midifile_write_track_begin f) = 0"
proof -
  define f1 where "f1 = (writeblock f)\<lparr>mf_bytes := int (mf_pos (writeblock f))\<rparr>"
  have f1: "writing f1 c n" using writing_block(1) [OF assms] by (simp add: f1_def writing_def)
  have b1: "mf_bytes f1 = int (length c)"
    using writing_block(1,2) [OF assms] by (simp add: f1_def writing_def)
  define f2 where "f2 = writebytes (be32 0) (writebytes MTrk_bytes f1)"
  have f2: "writing f2 (c @ to_bytes (MTrk_bytes @ be32 0)) (n + 8)" "mf_bytes f2 = int (length c)"
    using writing_bytesD [OF f1, of MTrk_bytes] b1
      writing_bytesD [OF writing_bytesD(1) [OF f1, of MTrk_bytes], of "be32 0"] by (simp_all add: f2_def algebra_simps)
  have eq: "fts_midifile_write_track_begin f = (writeblock f2)\<lparr>mf_ticks := 0, mf_time := 0, mf_size := 0\<rparr>"
    by (simp add: fts_midifile_write_track_begin_def Let_def f1_def f2_def write32bit_bytes magic_bytes)
  show "writing (fts_midifile_write_track_begin f) (c @ to_bytes (MTrk_bytes @ be32 0)) 0"
    "mf_bytes (fts_midifile_write_track_begin f) = int (length c)" "mf_ticks (fts_midifile_write_track_begin f) = 0"
    using writing_block [OF f2(1)] f2(2) unfolding eq by (simp_all add: writing_def same_head_def)
qed

text \<open>The end of a track rewrites the eight bytes of its header and returns to the end of the file.\<close>

lemma written_track_end:
  assumes w: "writing f (c @ hdr @ body) n" and hdr: "length hdr = 8" and b: "mf_bytes f = int (length c)"
  shows "mf_file (fts_midifile_write_track_end f) =
      c @ to_bytes (MTrk_bytes @ be32 (n + 4)) @ body @ to_bytes end_of_track"
    "mf_pos (fts_midifile_write_track_end f) = length (mf_file (fts_midifile_write_track_end f))"
    "mf_buf (fts_midifile_write_track_end f) = []"
proof -
  define f1 where "f1 = writeblock (writebytes [0, 0xff, 0x2f, 0] f)"
  let ?c = "c @ hdr @ body @ to_bytes end_of_track"
  have w0: "writing (writebytes [0, 0xff, 0x2f, 0] f) ?c (n + 4)"
    using writing_bytesD(1) [OF w, of "[0, 0xff, 0x2f, 0]"] by (simp add: end_of_track_def del: writebytes.simps)
  have f1: "writing f1 ?c (n + 4)" "mf_buf f1 = []" "mf_bytes f1 = int (length c)"
    using writing_block [OF w0] writing_bytesD(2) [OF w, of "[0, 0xff, 0x2f, 0]"] b
    by (simp_all add: f1_def same_head_def del: writebytes.simps)
  then have fl: "mf_file f1 = ?c" "mf_size f1 = n + 4" "mf_pos f1 = length ?c" by (simp_all add: writing_def)
  let ?h = "MTrk_bytes @ be32 (n + 4)"
  define f2 where "f2 = f1\<lparr>mf_pos := length c\<rparr>"
  define f3 where "f3 = f2\<lparr>mf_buf := to_bytes ?h\<rparr>"
  have small: "writebytes xs g = g\<lparr>mf_buf := mf_buf g @ to_bytes xs\<rparr>"
    if "length (mf_buf g) + length xs \<le> MIDIFILE_BLOCK_SIZE" for xs g
    using that by (induction xs arbitrary: g) (simp_all add: writebyte_def Let_def)
  have f3: "writebytes (be32 (n + 4)) (writebytes MTrk_bytes f2) = f3"
    using small [of f2 MTrk_bytes] small [of "f2\<lparr>mf_buf := to_bytes MTrk_bytes\<rparr>" "be32 (n + 4)"] f1(2)
    by (simp add: f3_def f2_def MIDIFILE_BLOCK_SIZE_def)
  have eq: "fts_midifile_write_track_end f = (writeblock f3)\<lparr>mf_pos := mf_pos f1\<rparr>"
    using f1(3) fl(2) f3 unfolding f2_def
    by (simp add: fts_midifile_write_track_end_def Let_def f1_def [symmetric] write32bit_bytes magic_bytes
        del: writebytes.simps)
  have "mf_file (writeblock f3) = c @ to_bytes ?h @ body @ to_bytes end_of_track"
    using fl(1) hdr by (simp add: writeblock_def file_write_def Let_def f3_def f2_def)
  moreover have "mf_buf (writeblock f3) = []" by (simp add: writeblock_def Let_def)
  ultimately show "mf_file (fts_midifile_write_track_end f) =
      c @ to_bytes (MTrk_bytes @ be32 (n + 4)) @ body @ to_bytes end_of_track"
    "mf_pos (fts_midifile_write_track_end f) = length (mf_file (fts_midifile_write_track_end f))"
    "mf_buf (fts_midifile_write_track_end f) = []"
    unfolding eq using fl(3) hdr by simp_all
qed

lemma written_file:
  assumes "track_ok 0 es"
  shows "mf_file (write_file division es) = to_bytes (file_bytes division es)"
proof -
  let ?hd = "MThd_bytes @ be32 6 @ be16 0 @ be16 1 @ be16 division"
  define f0 where "f0 = fts_midifile_write_header 0 1 division fts_midifile_init"
  have w: "writing fts_midifile_init [] 0" by (simp add: writing_def fts_midifile_init_def)
  note w1 = writing_bytesD(1) [OF w, of MThd_bytes]
  note w2 = writing_bytesD(1) [OF w1, of "be32 6"]
  note w3 = writing_bytesD(1) [OF w2, of "be16 0"]
  note w4 = writing_bytesD(1) [OF w3, of "be16 1"]
  note w5 = writing_bytesD(1) [OF w4, of "be16 division"]
  have f0: "writing f0 (to_bytes ?hd) 14"
    using w5 by (simp add: f0_def fts_midifile_write_header_def Let_def write32bit_bytes write16bit_bytes magic_bytes)
  define f1 where "f1 = fts_midifile_write_track_begin f0"
  note f1 = written_track_begin [OF f0, folded f1_def]
  define f2 where "f2 = write_events es f1"
  have f2: "writing f2 (to_bytes ?hd @ to_bytes (MTrk_bytes @ be32 0) @ to_bytes (track_bytes 0 es))
      (int (length (track_bytes 0 es)))" "mf_bytes f2 = int (length (to_bytes ?hd))"
    using writing_events [OF f1(1)] assms f1(2,3) by (simp_all add: f2_def)
  define f3 where "f3 = fts_midifile_write_track_end f2"
  note f3 = written_track_end [OF f2(1) _ f2(2), folded f3_def, simplified]
  have "write_file division es = fts_midifile_close f3"
    by (simp add: write_file_def f3_def f2_def f1_def f0_def)
  moreover have "mf_file (fts_midifile_close f3) = mf_file f3"
    using f3 by (simp add: fts_midifile_close_def writeblock_def file_write_def Let_def)
  ultimately show ?thesis using f3(1) by (simp add: file_bytes_def)
qed

subsection \<open>Reading back what was written\<close>

definition reading :: "rat \<Rightarrow> midifile \<Rightarrow> byte list \<Rightarrow> int \<Rightarrow> int \<Rightarrow> (int \<times> rat \<times> mf_call) list \<Rightarrow> bool" where
  "reading conv f bs n t cs \<longleftrightarrow> mf_in f = bs \<and> mf_bytes f = n \<and> mf_ticks f = t \<and> mf_time f = of_int t * conv \<and>
     mf_time_conv f = conv \<and> mf_calls f = cs \<and> mf_error f = None \<and> mf_tempo_map_pointer f = None \<and>
     mf_sel_channel f = 0 \<and> mf_sel_track f = - 1"

fun event_call :: "rat \<Rightarrow> track_event \<Rightarrow> int \<times> rat \<times> mf_call" where
  "event_call conv (t, type, ch, b1, b2) = (t, of_int t * conv, Midi_event (Channel_message type ch b1 b2))"

lemma status_byte_cases:
  assumes "1 \<le> ch" "ch \<le> 16"
  shows "channel_message_status_byte type ch AND 0xf0 = 144 + 16 * midi_type_num type"
    and "(channel_message_status_byte type ch AND 0x0f) + 1 = ch"
    and "128 \<le> channel_message_status_byte type ch" "channel_message_status_byte type ch < 240"
proof -
  have "ch \<in> {1, 2, 3, 4, 5, 6, 7, 8, 9, 10, 11, 12, 13, 14, 15, 16}" using assms by simp presburger
  then show "channel_message_status_byte type ch AND 0xf0 = 144 + 16 * midi_type_num type"
    "(channel_message_status_byte type ch AND 0x0f) + 1 = ch"
    "128 \<le> channel_message_status_byte type ch" "channel_message_status_byte type ch < 240"
    by (cases type; auto simp: channel_message_status_byte_def)+
qed

lemma read_event_step:
  assumes f: "reading conv f (to_bytes (event_bytes prev (t, type, ch, b1, b2)) @ rest) n prev cs"
    and e: "event_ok prev (t, type, ch, b1, b2)" and prev: "0 \<le> prev" and v: "\<not> tv_continue v"
  shows "\<exists>v' f'. midifile_read_event v f = Next v' f' \<and> \<not> tv_continue v' \<and>
    reading conv f' rest (n - int (length (event_bytes prev (t, type, ch, b1, b2)))) t
      (cs @ [event_call conv (t, type, ch, b1, b2)])"
proof -
  let ?st = "channel_message_status_byte type ch"
  have ch: "1 \<le> ch" "ch \<le> 16" and b1: "0 \<le> b1" "b1 < 128" and t: "prev \<le> t" "t - prev < 2 ^ 28" "t < 2 ^ 31"
    and b2: "if two_data_bytes type then 0 \<le> b2 \<and> b2 < 128 else b2 = MIDI_EMPTY_BYTE"
    using e by (auto simp: data_byte_def split: if_splits)
  have small: "int_wrap (prev + (t - prev)) = t" using t prev by (simp add: int_wrap_id)
  have two: "two_data_bytes type \<Longrightarrow> b2 \<noteq> MIDI_EMPTY_BYTE" using b2 by (auto simp: MIDI_EMPTY_BYTE_def)
  have u: "uint (word_of_int ?st :: byte) = ?st" "uint (word_of_int b1 :: byte) = b1"
    "two_data_bytes type \<Longrightarrow> uint (word_of_int b2 :: byte) = b2"
    using status_byte_cases(3,4) [OF ch, of type] b1 b2 by (simp_all add: uint_byte)
  have "readvarinum f = (t - prev, f\<lparr>mf_in := to_bytes (midi_bytes (Channel_message type ch b1 b2)) @ rest,
      mf_bytes := n - int (length (varlen (nat (t - prev))))\<rparr>)"
    using readvarinum_varlen [of f "nat (t - prev)"] f t by (simp add: reading_def)
  then show ?thesis
    using f v small u status_byte_cases [OF ch, of type] two b2
    by (cases type)
      (simp_all add: midifile_read_event_def readbyte_Cons EOF_def midifile_read_channel_message_def midifile_set_time_def
        Let_def reading_def midifile_channel_message_call_def call_back_def two_data_bytes_def ring_distribs)
qed

lemma varlen_0: "varlen 0 = [0]"
  by (simp add: varlen_def varlen_pack.simps [of 0] varlen_bytes.simps [of 0] Let_def)

lemma read_end_of_track:
  assumes f: "reading conv f (to_bytes end_of_track @ rest) n t cs" and t: "0 \<le> t" "t < 2 ^ 31" and v: "\<not> tv_continue v"
  shows "\<exists>v' f'. midifile_read_event v f = Next v' f' \<and>
    reading conv f' rest (n - 4) t (cs @ [(t, of_int t * conv, End_of_track)])"
proof -
  have d: "readvarinum g = (0, g\<lparr>mf_in := bs, mf_bytes := mf_bytes g - 1\<rparr>)" if "mf_in g = 0 # bs" for g bs
    using readvarinum_varlen [of g 0 bs] that by (simp add: varlen_0)
  have "int_wrap t = t" using t by (simp add: int_wrap_id)
  then show ?thesis
    using f v
    by (simp add: end_of_track_def midifile_read_event_def d readbyte_Cons EOF_def midifile_read_channel_message_def
        midifile_set_time_def Let_def reading_def call_back_def midifile_read_meta_def)
qed

declare track_loop.simps [simp del]

lemma track_loop_events:
  assumes "reading conv f (to_bytes (track_bytes t es @ end_of_track) @ rest) (int (length (track_bytes t es @ end_of_track))) t cs"
    and "track_ok t es" "0 \<le> t" "t < 2 ^ 31" "\<not> tv_continue v"
  defines "u \<equiv> last (t # map fst es)"
  shows "\<exists>f'. track_loop v f = Some f' \<and> reading conv f' rest 0 u
    (cs @ map (event_call conv) es @ [(u, of_int u * conv, End_of_track), (u, of_int u * conv, Track_end)])"
  using assms(1-5) unfolding u_def
proof (induction es arbitrary: f t cs v)
  case Nil
  obtain v' f' where e: "midifile_read_event v f = Next v' f'"
      "reading conv f' rest 0 t (cs @ [(t, of_int t * conv, End_of_track)])"
    using read_end_of_track [OF _ Nil.prems(3-5), of conv f rest _ cs] Nil.prems(1) by fastforce
  have "mf_error f = None" "mf_bytes f > 0" using Nil.prems(1) by (simp_all add: reading_def)
  then have "track_loop v f = track_loop v' f'"
    using e(1) by (subst track_loop.simps) simp
  also have "\<dots> = Some (call_back Track_end f')"
    using e(2) by (subst track_loop.simps) (simp add: reading_def)
  finally show ?case using e(2) by (simp add: reading_def call_back_def)
next
  case (Cons e es)
  obtain s type ch b1 b2 where e: "e = (s, type, ch, b1, b2)" by (cases e)
  let ?r = "to_bytes (track_bytes s es @ end_of_track) @ rest"
  let ?n = "int (length (track_bytes s es @ end_of_track))"
  have first: "reading conv f (to_bytes (event_bytes t (s, type, ch, b1, b2)) @ ?r)
      (int (length (event_bytes t (s, type, ch, b1, b2))) + ?n) t cs"
    using Cons.prems(1) by (simp add: e del: event_bytes.simps)
  have ok: "event_ok t (s, type, ch, b1, b2)" using Cons.prems(2) by (simp add: e del: event_ok.simps)
  obtain v' f' where step: "midifile_read_event v f = Next v' f'" "\<not> tv_continue v'"
      "reading conv f' ?r (int (length (track_bytes s es @ end_of_track))) s (cs @ [event_call conv e])"
    using read_event_step [OF first ok Cons.prems(3,5)] by (auto simp: e simp del: event_call.simps event_bytes.simps)
  have "track_ok s es" "0 \<le> s" "s < 2 ^ 31" using Cons.prems(2,3) e by auto
  from Cons.IH [OF step(3) this step(2)] obtain g where
    g: "track_loop v' f' = Some g" "reading conv g rest 0 (last (s # map fst es)) ((cs @ [event_call conv e]) @
      map (event_call conv) es @ [(last (s # map fst es), of_int (last (s # map fst es)) * conv, End_of_track),
        (last (s # map fst es), of_int (last (s # map fst es)) * conv, Track_end)])"
    by blast
  have "mf_error f = None" "mf_bytes f > 0" using Cons.prems(1) by (simp_all add: reading_def)
  then have "track_loop v f = track_loop v' f'"
    using step(1) by (subst track_loop.simps) simp
  with g show ?case by (simp add: e)
qed

lemma base_256:
  fixes d :: int
  assumes "0 \<le> d div 2 ^ 24" "d div 2 ^ 24 < 256"
  shows "d div 2 ^ 24 mod 256 * 2 ^ 24 + d div 2 ^ 16 mod 256 * 2 ^ 16 + d div 2 ^ 8 mod 256 * 2 ^ 8 + d mod 256 = d"
proof -
  define p q r where "p = d div 2 ^ 8" and "q = p div 2 ^ 8" and "r = q div 2 ^ 8"
  have e: "d div 2 ^ 16 = q" "d div 2 ^ 24 = r" unfolding p_def q_def r_def by (simp_all flip: zdiv_zmult2_eq)
  have "256 * p + d mod 256 = d" "256 * q + p mod 256 = p" "256 * r + q mod 256 = q"
    by (simp_all add: p_def q_def r_def)
  then show ?thesis using assms unfolding e p_def [symmetric] by simp
qed

lemma be_bytes:
  shows "mf_in f = to_bytes (be32 d) @ rest \<Longrightarrow> 0 \<le> d \<Longrightarrow> d < 2 ^ 31 \<Longrightarrow>
      read32bit f = (d, f\<lparr>mf_in := rest, mf_bytes := mf_bytes f - 4\<rparr>)"
    and "mf_in f = to_bytes (be16 d) @ rest \<Longrightarrow> 0 \<le> d \<Longrightarrow> d < 2 ^ 16 \<Longrightarrow>
      read16bit f = (d, f\<lparr>mf_in := rest, mf_bytes := mf_bytes f - 2\<rparr>)"
proof -
  have ff: "x AND 0xff = x mod 256" for x :: int using take_bit_eq_mask [of 8 x] by (simp add: take_bit_eq_mod mask_eq_exp_minus_1)
  have hi: "(x AND 0xff00) div 256 = (x div 256) mod 256" for x :: int
  proof -
    have "drop_bit 8 (x AND 0xff00) = drop_bit 8 x AND drop_bit 8 0xff00"
      by (rule bit_eqI) (simp only: bit_drop_bit_eq bit_and_iff comp_def)
    then show ?thesis by (simp add: drop_bit_eq_div ff)
  qed
  have u: "uint (word_of_int (x mod 256) :: byte) = x mod 256" for x by (simp add: uint_byte)
  {
    assume i: "mf_in f = to_bytes (be32 d) @ rest" and d: "0 \<le> d" "d < 2 ^ 31"
    have "0 \<le> d div 2 ^ 24" "d div 2 ^ 24 < 256" using d by simp_all
    note sum = base_256 [OF this]
    have "read32bit f = (int_wrap (d div 2 ^ 24 mod 256 * 2 ^ 24 + d div 2 ^ 16 mod 256 * 2 ^ 16 +
        d div 2 ^ 8 mod 256 * 2 ^ 8 + d mod 256), f\<lparr>mf_in := rest, mf_bytes := mf_bytes f - 4\<rparr>)"
      using i unfolding be32_def ff by (simp only: list.map append.simps read32bit_def readbyte_Cons u) (simp add: readbyte_Cons u)
    then show "read32bit f = (d, f\<lparr>mf_in := rest, mf_bytes := mf_bytes f - 4\<rparr>)"
      unfolding sum using d by (simp add: int_wrap_id)
  next
    assume i: "mf_in f = to_bytes (be16 d) @ rest" and d: "0 \<le> d" "d < 2 ^ 16"
    have "0 \<le> d div 256" "d div 256 < 256" using d by simp_all
    then show "read16bit f = (d, f\<lparr>mf_in := rest, mf_bytes := mf_bytes f - 2\<rparr>)"
      using i mult_div_mod_eq [of 256 d]
      by (simp add: be16_def ff hi u read16bit_def readbyte_Cons uint_byte)
  }
qed

lemma read_magic:
  "mf_in f = to_bytes MThd_bytes @ rest \<Longrightarrow>
     midifile_read_mt MThd_bytes f = (True, f\<lparr>mf_in := rest, mf_bytes := mf_bytes f - 4\<rparr>)"
  "mf_in f = to_bytes MTrk_bytes @ rest \<Longrightarrow>
     midifile_read_mt MTrk_bytes f = (True, f\<lparr>mf_in := rest, mf_bytes := mf_bytes f - 4\<rparr>)"
  by (simp_all add: MThd_bytes_def MTrk_bytes_def readbyte_Cons)

lemma flush_header_0: "mf_bytes f = 0 \<Longrightarrow> flush_header bs f = (False, f)"
  by (cases bs) simp_all

lemma read_written_file:
  assumes es: "track_ok 0 es" and len: "length (track_bytes 0 es) < 2 ^ 31 - 4" and div: "0 < division" "division < 2 ^ 15"
  defines "conv \<equiv> tempo_conv FTS_MIDIFILE_DEFAULT_TEMPO division" and "u \<equiv> last (0 # map fst es)"
  shows "\<exists>f. fts_midifile_read (fts_midifile_init\<lparr>mf_in := to_bytes (file_bytes division es)\<rparr>) = Some (1, f) \<and>
    mf_error f = None \<and> mf_in f = [] \<and>
    mf_calls f = [(0, 0, Call_header), (0, 0, Track_start)] @ map (event_call conv) es @
      [(u, of_int u * conv, End_of_track), (u, of_int u * conv, Track_end)]"
proof -
  let ?t = "track_bytes 0 es @ end_of_track"
  let ?f = "fts_midifile_init\<lparr>mf_in := to_bytes (file_bytes division es)\<rparr>"
  define f1 where "f1 = fts_midifile_init\<lparr>mf_in := to_bytes (MTrk_bytes @ be32 (int (length ?t)) @ ?t),
    mf_format := 0, mf_n_tracks := 1, mf_division := division, mf_time_conv := conv, mf_calls := [(0, 0, Call_header)]\<rparr>"
  have header: "midifile_read_header ?f = (1, f1)"
    using div
    by (simp add: file_bytes_def midifile_read_header_def read_magic be_bytes flush_header_0 Let_def fts_midifile_init_def
        call_back_def f1_def conv_def)
  define f2 where "f2 = f1\<lparr>mf_in := to_bytes ?t, mf_bytes := int (length ?t), mf_ticks := 0, mf_time := 0,
    mf_calls := [(0, 0, Call_header), (0, 0, Track_start)]\<rparr>"
  have r: "reading conv f2 (to_bytes ?t @ []) (int (length ?t)) 0 [(0, 0, Call_header), (0, 0, Track_start)]"
    by (simp add: reading_def f2_def f1_def fts_midifile_init_def)
  obtain f3 where f3: "track_loop \<lparr>tv_continue = False, tv_status = 0, tv_channel = 0\<rparr> f2 = Some f3"
    "reading conv f3 [] 0 u ([(0, 0, Call_header), (0, 0, Track_start)] @ map (event_call conv) es @
      [(u, of_int u * conv, End_of_track), (u, of_int u * conv, Track_end)])"
    using track_loop_events [OF r es, of "\<lparr>tv_continue = False, tv_status = 0, tv_channel = 0\<rparr>"]
    unfolding u_def by (auto simp del: last.simps)
  have track: "midifile_read_track f1 = track_loop \<lparr>tv_continue = False, tv_status = 0, tv_channel = 0\<rparr> f2"
    using len
    by (simp add: midifile_read_track_def f1_def read_magic be_bytes Let_def fts_midifile_init_def call_back_def f2_def
      tempo_map_start_def)
  have "mf_sel_track f1 = - 1" by (simp add: f1_def fts_midifile_init_def)
  with header track f3 show ?thesis
    by (simp add: fts_midifile_read_def reading_def)
qed

subsection \<open>Reading any file is safe\<close>

text \<open>
  A continued system exclusive message has an event to append to, so the reader never writes through
  a null event pointer, whatever the bytes of the file are.
\<close>

definition sysex_open :: "track_vars \<Rightarrow> midifile \<Rightarrow> bool" where
  "sysex_open v f \<longleftrightarrow> (tv_continue v \<longrightarrow> mf_sysex f \<noteq> None)"

fun turn_safe :: "turn \<Rightarrow> bool" where
  "turn_safe (Next v f) = sysex_open v f"
| "turn_safe Crash = False"
| "turn_safe _ = True"

lemma readbyte_sysex [simp]: "mf_sysex (snd (readbyte f)) = mf_sysex f"
  by (simp add: readbyte_def split: list.split)

lemma varinum_loop_sysex [simp]: "mf_sysex (snd (varinum_loop bs c v f)) = mf_sysex f"
  by (induction bs c v f rule: varinum_loop.induct) simp_all

lemma readvarinum_sysex [simp]: "mf_sysex (snd (readvarinum f)) = mf_sysex f"
  by (simp add: readvarinum_def case_prod_beta)

lemma readbytes_sysex [simp]: "mf_sysex (snd (snd (readbytes n b f))) = mf_sysex f"
  by (induction n b f rule: readbytes.induct) (simp_all add: case_prod_beta)

lemma sysex_keep [simp]:
  "mf_sysex (call_back c f) = mf_sysex f" "mf_sysex (midifile_channel_message_call t ch b1 b2 f) = mf_sysex f"
  "mf_sysex (midifile_set_time d f) = mf_sysex f" "mf_sysex (midifile_tempo_map_add_entry f a b) = mf_sysex f"
  by (simp_all add: call_back_def midifile_channel_message_call_def midifile_set_time_def Let_def
      midifile_tempo_map_add_entry_def split: option.splits)

lemma read_meta_sysex [simp]: "mf_sysex (midifile_read_meta f) = mf_sysex f"
  by (simp add: midifile_read_meta_def case_prod_beta Let_def midifile_read_string_def midifile_read_tempo_def
      midifile_read_smpte_def midifile_read_time_signature_def)

lemma sysex_bytes_some: "mf_sysex f \<noteq> None \<Longrightarrow> \<exists>g. midifile_system_exclusive_bytes cs f = Some g \<and> mf_sysex g \<noteq> None"
  by (auto simp: midifile_system_exclusive_bytes_def)

lemma read_sysex_safe: "\<not> tv_continue v \<Longrightarrow> turn_safe (midifile_read_sysex v f)"
proof -
  assume v: "\<not> tv_continue v"
  let ?f = "midifile_system_exclusive_start (snd (readvarinum f))"
  let ?r = "readbytes (nat (fst (readvarinum f))) 0xf0 ?f"
  have "mf_sysex (snd (snd ?r)) \<noteq> None"
    by (simp add: midifile_system_exclusive_start_def)
  then obtain g where "midifile_system_exclusive_bytes (fst ?r) (snd (snd ?r)) = Some g" "mf_sysex g \<noteq> None"
    using sysex_bytes_some by blast
  then show ?thesis
    using v by (simp add: midifile_read_sysex_def case_prod_beta sysex_open_def)
qed

lemma read_sysex_continue_safe:
  assumes "sysex_open v f"
  shows "turn_safe (midifile_read_sysex_continue v f)"
proof -
  let ?g = "snd (readvarinum f)"
  let ?f = "if \<not> tv_continue v then midifile_system_exclusive_start ?g else ?g"
  let ?r = "readbytes (nat (fst (readvarinum f))) 0xf7 ?f"
  have "mf_sysex (snd (snd ?r)) \<noteq> None"
    using assms by (simp add: midifile_system_exclusive_start_def sysex_open_def)
  then obtain g where "midifile_system_exclusive_bytes (fst ?r) (snd (snd ?r)) = Some g" "mf_sysex g \<noteq> None"
    using sysex_bytes_some by blast
  then show ?thesis
    by (simp add: midifile_read_sysex_continue_def case_prod_beta Let_def sysex_open_def
        midifile_system_exclusive_call_def)
qed

lemma read_channel_message_safe:
  assumes "sysex_open v f" "tv_status v = 0xf0 \<Longrightarrow> \<not> tv_continue v"
  shows "turn_safe (midifile_read_channel_message v d f)"
  using assms read_sysex_safe [of v f] read_sysex_continue_safe [OF assms(1)]
  by (simp add: midifile_read_channel_message_def Let_def case_prod_beta sysex_open_def)

lemma read_event_safe:
  assumes "sysex_open v f"
  shows "turn_safe (midifile_read_event v f)"
proof -
  let ?g = "snd (readbyte (snd (readvarinum f)))"
  have open1: "sysex_open (w::track_vars) (midifile_set_time d ?g)" if "tv_continue w = tv_continue v" for w d
    using assms that by (simp add: sysex_open_def)
  have open2: "sysex_open w (snd (readbyte (midifile_set_time d ?g)))" if "tv_continue w = tv_continue v" for w d
    using assms that by (simp add: sysex_open_def)
  have f7: "(0xf7 :: int) AND 0xff = 0xf7" by simp
  have "turn_safe (midifile_read_channel_message (v\<lparr>tv_status := 0xf7\<rparr>) 0 (midifile_set_time d ?g))" for d
    by (rule read_channel_message_safe) (simp_all add: open1)
  with f7 show ?thesis
    by (cases "tv_continue v")
      (simp_all add: midifile_read_event_def case_prod_beta Let_def read_channel_message_safe open1 open2)
qed

lemma track_loop_safe: "sysex_open v f \<Longrightarrow> track_loop v f \<noteq> None"
proof (induction v f rule: track_loop.induct)
  case (1 v f)
  show ?case
  proof (cases "mf_error f = None \<and> mf_bytes f > 0")
    case True
    then show ?thesis
      using 1(1) [OF True] read_event_safe [OF 1(2)]
      by (subst track_loop.simps) (auto split: turn.split)
  next
    case False
    then have "track_loop v f = Some (if mf_error f = None then call_back Track_end f else f)"
      by (subst track_loop.simps) auto
    then show ?thesis by simp
  qed
qed

lemma read_track_safe: "midifile_read_track f \<noteq> None"
proof -
  have "track_loop \<lparr>tv_continue = False, tv_status = 0, tv_channel = 0\<rparr> g \<noteq> None" for g
    by (rule track_loop_safe) (simp add: sysex_open_def)
  then show ?thesis by (simp add: midifile_read_track_def case_prod_beta Let_def del: not_None_eq)
qed

lemma read_tracks_safe: "read_tracks n i f \<noteq> None"
proof (induction n i f rule: read_tracks.induct)
  case (2 n i f)
  obtain g where g: "midifile_read_track f = Some g" using read_track_safe by blast
  show ?case
  proof (cases "mf_sel_track f \<ge> 0 \<and> i > 0 \<and> i > mf_sel_track f")
    case False
    define h where "h = (if mf_sel_track f \<ge> 0 \<and> i > 0 \<and> i < mf_sel_track f then midifile_skip_track f else g)"
    have h: "(if mf_sel_track f \<ge> 0 \<and> i > 0 \<and> i < mf_sel_track f then Some (midifile_skip_track f)
        else midifile_read_track f) = Some h"
      by (simp add: h_def g)
    show ?thesis using 2 [OF False h] unfolding read_tracks.simps(2) h by auto
  qed simp
qed simp

lemma midifile_read_safe: "fts_midifile_read f \<noteq> None"
  by (simp add: fts_midifile_read_def case_prod_beta read_tracks_safe)

end
