(* ===== verification/Classes.thy ===== *)
theory Classes
  imports FtsList
begin

text \<open>
  Classes and their method tables (\<open>fts/class.c\<close>).

  A class maps messages and inlets to methods. Both live_conns in one hashtable, \<open>cl->methods\<close>, whose
  keys are pairs of a \<open>const void *\<close> selector and a type: the selector is a symbol's address for a
  message and the inlet's number, cast to a pointer, for an inlet; the type is a class or \<open>NULL\<close>
  for the varargs method. A selector is therefore an \<open>int\<close>, \<open>0\<close> being both \<open>NULL\<close> and inlet 0.
  Key objects are compared by \<open>method_key_equals\<close>, on those two words, so the table is a partial
  map over the pairs (what \<open>Hashtable\<close> shows of \<open>fts_hashtable_put\<close> and \<open>fts_hashtable_get\<close>).
  A method is the address of its C function, \<^const>\<open>None\<close> for a null pointer; warnings that are
  only printed are left out.
\<close>

type_synonym fts_method = addr
type_synonym selector = int

subsection \<open>Class pointers in atoms\<close>

text \<open>
  \<open>fts_set_pointer(&a, class)\<close>: the address of a class object. Only that distinct classes have
  distinct, non-null addresses matters.
\<close>

fun class_ptr :: "class_ref option \<Rightarrow> addr" where
  "class_ptr None = 0"
| "class_ptr (Some VoidClass) = 1"
| "class_ptr (Some IntClass) = 2"
| "class_ptr (Some FloatClass) = 3"
| "class_ptr (Some SymbolClass) = 4"
| "class_ptr (Some PointerClass) = 5"
| "class_ptr (Some StringClass) = 6"
| "class_ptr (Some (UserClass c)) = 7 + c"

lemma class_ptr_inj: "class_ptr s = class_ptr t \<longleftrightarrow> s = t"
  by (cases s rule: class_ptr.cases; cases t rule: class_ptr.cases) auto

definition class_of_ptr :: "addr \<Rightarrow> class_ref option" where
  "class_of_ptr p =
     (if p = 0 then None else if p = 1 then Some VoidClass else if p = 2 then Some IntClass
      else if p = 3 then Some FloatClass else if p = 4 then Some SymbolClass
      else if p = 5 then Some PointerClass else if p = 6 then Some StringClass
      else Some (UserClass (p - 7)))"

lemma class_of_class_ptr [simp]: "class_of_ptr (class_ptr t) = t"
  by (cases t rule: class_ptr.cases) (auto simp: class_of_ptr_def)

subsection \<open>The class structure\<close>

record doc_line =
  doc_name :: addr
  doc_args :: "string option"
  doc_comment :: string

text \<open>
  \<open>cl_outlets\<close> is the allocated array (\<^const>\<open>None\<close> for \<open>NULL\<close>); an outlet's declarations are
  \<^const>\<open>None\<close> once the list has been deleted and the pointer dangles.
\<close>

record fts_class =
  cl_name :: addr
  cl_size :: nat
  cl_methods :: "(selector \<times> class_ref option \<rightharpoonup> fts_method option) option"
  cl_input_handler :: "fts_method option"
  cl_ninlets :: int
  cl_noutlets :: int
  cl_out_alloc :: int
  cl_outlets :: "fts_list option list option"
  cl_import_handlers :: "addr \<rightharpoonup> fts_method"
  cl_export_handlers :: "addr \<rightharpoonup> fts_method"
  cl_doc :: "doc_line list"

definition fts_class_init :: "fts_class \<Rightarrow> nat \<Rightarrow> fts_class" where
  "fts_class_init cl sz =
     cl\<lparr>cl_size := sz, cl_methods := Some Map.empty, cl_input_handler := None, cl_ninlets := 0,
        cl_noutlets := 0, cl_out_alloc := 0, cl_outlets := None\<rparr>"

text \<open>\<open>instantiate_fun\<close> is the package's function that declares the class: a parameter.\<close>

definition fts_class_instantiate :: "(fts_class \<Rightarrow> fts_class) \<Rightarrow> fts_class \<Rightarrow> fts_class" where
  "fts_class_instantiate instantiate_fun cl = (if cl_size cl = 0 then instantiate_fun cl else cl)"

subsection \<open>Inlet and outlet numbers\<close>

definition class_set_inlets_number :: "fts_class \<Rightarrow> int \<Rightarrow> fts_class" where
  "class_set_inlets_number cl n = cl\<lparr>cl_ninlets := n\<rparr>"

definition CLASS_INOUT_BLOCK_SIZE :: int where
  "CLASS_INOUT_BLOCK_SIZE = 4"

function grow_outlets :: "int \<Rightarrow> int \<Rightarrow> int" where
  "grow_outlets n_alloc n = (if n_alloc < n then grow_outlets (n_alloc + CLASS_INOUT_BLOCK_SIZE) n else n_alloc)"
  by pat_completeness auto
termination
  by (relation "measure (\<lambda>(n_alloc, n). nat (n - n_alloc))") (auto simp: CLASS_INOUT_BLOCK_SIZE_def)

declare grow_outlets.simps [simp del]

definition outlet_slots :: "fts_class \<Rightarrow> fts_list option list" where
  "outlet_slots cl = (case cl_outlets cl of None \<Rightarrow> [] | Some os \<Rightarrow> os)"

text \<open>\<open>fts_list_init\<close> of the new slots, then \<open>fts_list_delete\<close> of the outlets cut off.\<close>

definition delete_slots :: "nat \<Rightarrow> nat \<Rightarrow> fts_list option list \<Rightarrow> fts_list option list" where
  "delete_slots lo hi os = fold (\<lambda>i os. os[i := None]) [lo..<hi] os"

definition class_set_outlets_number :: "fts_class \<Rightarrow> int \<Rightarrow> fts_class" where
  "class_set_outlets_number cl n =
     (let n_alloc = grow_outlets (cl_out_alloc cl) n;
          cl1 = (if n > cl_out_alloc cl
                 then cl\<lparr>cl_outlets := Some (outlet_slots cl @ replicate (nat (n_alloc - cl_out_alloc cl)) (Some [])),
                         cl_out_alloc := n_alloc\<rparr>
                 else cl)
      in cl1\<lparr>cl_outlets := map_option (delete_slots (nat n) (nat (cl_noutlets cl))) (cl_outlets cl1),
             cl_noutlets := n\<rparr>)"

text \<open>The index of \<open>cl->outlets + woutlet\<close>, or \<open>NULL\<close>.\<close>

definition class_get_outlet :: "fts_class \<Rightarrow> int \<Rightarrow> int option" where
  "class_get_outlet cl woutlet =
     (if cl_outlets cl \<noteq> None
      then Some (if woutlet < 0 then 0 else if woutlet \<ge> cl_noutlets cl then cl_noutlets cl - 1 else woutlet)
      else None)"

text \<open>Reading the declarations of a slot: outside the array, or of a deleted list, undefined.\<close>

definition outlet_at :: "fts_class \<Rightarrow> int \<Rightarrow> fts_list option" where
  "outlet_at cl i =
     (if 0 \<le> i \<and> nat i < length (outlet_slots cl) then outlet_slots cl ! nat i else None)"

definition class_outlet_add_declaration :: "fts_class \<Rightarrow> int option \<Rightarrow> atom \<Rightarrow> fts_class option" where
  "class_outlet_add_declaration cl out a =
     do { i \<leftarrow> out;
          ds \<leftarrow> outlet_at cl i;
          Some (cl\<lparr>cl_outlets := Some ((outlet_slots cl)[nat i := Some (fts_list_append ds a)])\<rparr>) }"

definition class_outlet_has_declaration :: "class_env \<Rightarrow> fts_list \<Rightarrow> atom \<Rightarrow> bool" where
  "class_outlet_has_declaration E ds p = list_ex (fts_atom_identical E p) ds"

subsection \<open>The method table\<close>

definition method_key_hash :: "32 word \<Rightarrow> 32 word \<Rightarrow> 32 word" where
  "method_key_hash selector type = selector + type"

definition method_key_equals :: "selector \<times> class_ref option \<Rightarrow> selector \<times> class_ref option \<Rightarrow> bool" where
  "method_key_equals a b \<longleftrightarrow> fst a = fst b \<and> snd a = snd b"

definition method_get :: "fts_class \<Rightarrow> selector \<Rightarrow> class_ref option \<Rightarrow> fts_method option" where
  "method_get cl selector type =
     (case cl_methods cl of None \<Rightarrow> None
      | Some methods \<Rightarrow> (case methods (selector, type) of None \<Rightarrow> None | Some m \<Rightarrow> m))"

definition method_put :: "fts_class \<Rightarrow> selector \<Rightarrow> class_ref option \<Rightarrow> fts_method option \<Rightarrow> fts_class option" where
  "method_put cl selector type m =
     (case cl_methods cl of None \<Rightarrow> None
      | Some methods \<Rightarrow> Some (cl\<lparr>cl_methods := Some (methods((selector, type) \<mapsto> m))\<rparr>))"

subsection \<open>Declarations\<close>

definition CLASS_INLET_MAX :: int where
  "CLASS_INLET_MAX = 255"

definition fts_class_message ::
  "(fts_class \<Rightarrow> fts_class) \<Rightarrow> fts_class \<Rightarrow> addr \<Rightarrow> class_ref option \<Rightarrow> fts_method option \<Rightarrow> fts_class option" where
  "fts_class_message instantiate_fun cl s type m =
     method_put (fts_class_instantiate instantiate_fun cl) (int s) type m"

definition class_adjust_inlet :: "fts_class \<Rightarrow> int \<Rightarrow> fts_class \<times> int" where
  "class_adjust_inlet cl winlet =
     (let w = (if winlet < 0 then 0 else if winlet > CLASS_INLET_MAX then CLASS_INLET_MAX else winlet)
      in (if w \<ge> cl_ninlets cl then class_set_inlets_number cl (w + 1) else cl, w))"

definition class_clip_inlet :: "fts_class \<Rightarrow> int \<Rightarrow> int" where
  "class_clip_inlet cl winlet =
     (if winlet < 0 then 0 else if winlet \<ge> cl_ninlets cl then cl_ninlets cl - 1 else winlet)"

definition fts_class_inlet ::
  "fts_class \<Rightarrow> int \<Rightarrow> class_ref option \<Rightarrow> fts_method option \<Rightarrow> fts_class option" where
  "fts_class_inlet cl winlet type m =
     (let (cl', n) = class_adjust_inlet cl winlet in method_put cl' n type m)"

definition fts_class_inlet_thru :: "fts_class \<Rightarrow> int \<Rightarrow> fts_class" where
  "fts_class_inlet_thru cl winlet = fst (class_adjust_inlet cl winlet)"

definition fts_class_input_handler :: "fts_class \<Rightarrow> fts_method option \<Rightarrow> fts_class" where
  "fts_class_input_handler cl m =
     (let cl1 = cl\<lparr>cl_input_handler := m\<rparr>
      in if cl_ninlets cl1 = 0 then class_set_inlets_number cl1 1 else cl1)"

definition fts_class_outlet :: "fts_class \<Rightarrow> int \<Rightarrow> class_ref option \<Rightarrow> fts_class option" where
  "fts_class_outlet cl woutlet class =
     (let cl1 = (if woutlet \<ge> cl_noutlets cl then class_set_outlets_number cl (woutlet + 1) else cl)
      in class_outlet_add_declaration cl1 (class_get_outlet cl1 woutlet) (APointer (class_ptr class)))"

subsection \<open>Requests\<close>

definition fts_class_get_method :: "fts_class \<Rightarrow> addr \<Rightarrow> class_ref option \<Rightarrow> fts_method option" where
  "fts_class_get_method cl s type =
     (case method_get cl (int s) type of Some m \<Rightarrow> Some m | None \<Rightarrow> method_get cl (int s) None)"

definition fts_class_get_method_novarargs :: "fts_class \<Rightarrow> addr \<Rightarrow> class_ref option \<Rightarrow> fts_method option" where
  "fts_class_get_method_novarargs cl s type = method_get cl (int s) type"

definition fts_class_get_method_varargs :: "fts_class \<Rightarrow> addr \<Rightarrow> fts_method option" where
  "fts_class_get_method_varargs cl s = method_get cl (int s) None"

definition fts_class_get_inlet_method :: "fts_class \<Rightarrow> int \<Rightarrow> class_ref option \<Rightarrow> fts_method option" where
  "fts_class_get_inlet_method cl winlet type =
     (let n = class_clip_inlet cl winlet
      in case method_get cl n type of Some m \<Rightarrow> Some m
         | None \<Rightarrow> (if type \<noteq> Some VoidClass then method_get cl n None else None))"

text \<open>
  The declarations that the iterator goes through and their number; \<^const>\<open>None\<close> where the C code
  reads an outlet that is not there.
\<close>

definition fts_class_outlet_get_declarations :: "fts_class \<Rightarrow> int \<Rightarrow> fts_list option" where
  "fts_class_outlet_get_declarations cl woutlet =
     (case class_get_outlet cl woutlet of None \<Rightarrow> Some [] | Some i \<Rightarrow> outlet_at cl i)"

definition fts_class_outlet_has_type :: "class_env \<Rightarrow> fts_class \<Rightarrow> int \<Rightarrow> class_ref option \<Rightarrow> bool option" where
  "fts_class_outlet_has_type E cl woutlet type =
     (case class_get_outlet cl woutlet of None \<Rightarrow> Some False
      | Some i \<Rightarrow> map_option (\<lambda>ds. class_outlet_has_declaration E ds (APointer (class_ptr type))) (outlet_at cl i))"

definition fts_class_outlet_has_message :: "class_env \<Rightarrow> fts_class \<Rightarrow> int \<Rightarrow> addr \<Rightarrow> bool option" where
  "fts_class_outlet_has_message E cl woutlet s =
     (case class_get_outlet cl woutlet of None \<Rightarrow> Some False
      | Some i \<Rightarrow> map_option (\<lambda>ds. class_outlet_has_declaration E ds (ASymbol s)) (outlet_at cl i))"

text \<open>
  What \<open>class_message_iterator_next\<close> gives for a key of the table: a selector above 64 is taken
  for a symbol.
\<close>

definition class_message_iterator_next :: "selector \<times> class_ref option \<Rightarrow> atom" where
  "class_message_iterator_next key =
     (if fst key > 64 then ASymbol (nat (fst key)) else AInt (word_of_int (fst key)))"


subsection \<open>Facts about the table\<close>

lemma method_get_put:
  "method_put cl n t m = Some cl' \<Longrightarrow>
   method_get cl' n' t' = (if n' = n \<and> t' = t then m else method_get cl n' t')"
  by (auto simp: method_put_def method_get_def split: option.splits)

lemma method_put_fields:
  "method_put cl n t m = Some cl' \<Longrightarrow>
   cl_size cl' = cl_size cl \<and> cl_ninlets cl' = cl_ninlets cl \<and> cl_noutlets cl' = cl_noutlets cl
   \<and> cl_outlets cl' = cl_outlets cl \<and> cl_out_alloc cl' = cl_out_alloc cl \<and> cl_methods cl' \<noteq> None"
  by (auto simp: method_put_def split: option.splits)

lemma method_put_total: "cl_methods cl \<noteq> None \<Longrightarrow> \<exists>cl'. method_put cl n t m = Some cl'"
  by (auto simp: method_put_def)

lemma grow_outlets_ge: "n \<le> grow_outlets a n \<and> a \<le> grow_outlets a n"
proof (induction a n rule: grow_outlets.induct)
  case (1 a n)
  then show ?case
    by (subst (1 2) grow_outlets.simps) (auto simp: CLASS_INOUT_BLOCK_SIZE_def)
qed

lemma nth_delete_slots:
  "length (delete_slots lo hi os) = length os \<and>
   (i < length os \<longrightarrow> delete_slots lo hi os ! i = (if lo \<le> i \<and> i < hi then None else os ! i))"
proof (induction hi arbitrary: os)
  case 0
  then show ?case by (simp add: delete_slots_def)
next
  case (Suc hi)
  show ?case
  proof (cases "lo \<le> hi")
    case True
    then have "delete_slots lo (Suc hi) os = (delete_slots lo hi os)[hi := None]"
      by (simp add: delete_slots_def)
    with Suc [of os] True show ?thesis by (auto simp: nth_list_update less_Suc_eq)
  next
    case False
    then show ?thesis by (auto simp: delete_slots_def)
  qed
qed

lemma delete_slots_none [simp]: "hi \<le> lo \<Longrightarrow> delete_slots lo hi os = os"
  by (simp add: delete_slots_def)

subsection \<open>A class built by declarations\<close>

text \<open>The calls that an \<open>instantiate_fun\<close> makes after \<open>fts_class_init\<close>.\<close>

datatype class_decl =
    DMessage addr "class_ref option" fts_method
  | DInlet int "class_ref option" fts_method
  | DInletThru int
  | DInputHandler fts_method
  | DOutlet int "class_ref option"

fun class_declare :: "(fts_class \<Rightarrow> fts_class) \<Rightarrow> fts_class \<Rightarrow> class_decl \<Rightarrow> fts_class option" where
  "class_declare inst cl (DMessage s t m) = fts_class_message inst cl s t (Some m)"
| "class_declare inst cl (DInlet w t m) = fts_class_inlet cl w t (Some m)"
| "class_declare inst cl (DInletThru w) = Some (fts_class_inlet_thru cl w)"
| "class_declare inst cl (DInputHandler m) = Some (fts_class_input_handler cl (Some m))"
| "class_declare inst cl (DOutlet w t) = fts_class_outlet cl w t"

fun class_declares :: "(fts_class \<Rightarrow> fts_class) \<Rightarrow> fts_class \<Rightarrow> class_decl list \<Rightarrow> fts_class option" where
  "class_declares inst cl [] = Some cl"
| "class_declares inst cl (d # ds) =
     (case class_declare inst cl d of None \<Rightarrow> None | Some cl' \<Rightarrow> class_declares inst cl' ds)"

text \<open>
  The abstract class: what the messages, the inlets and the outlets were last declared to be, as
  three separate tables.
\<close>

definition clip_max :: "int \<Rightarrow> int" where
  "clip_max w = max 0 (min CLASS_INLET_MAX w)"

record class_spec =
  sp_messages :: "addr \<times> class_ref option \<rightharpoonup> fts_method"
  sp_inlets :: "int \<times> class_ref option \<rightharpoonup> fts_method"
  sp_ninlets :: int
  sp_outlets :: "int \<Rightarrow> class_ref option list"
  sp_noutlets :: int

definition spec_init :: class_spec where
  "spec_init = \<lparr>sp_messages = Map.empty, sp_inlets = Map.empty, sp_ninlets = 0, sp_outlets = (\<lambda>_. []),
                sp_noutlets = 0\<rparr>"

fun spec_declare :: "class_spec \<Rightarrow> class_decl \<Rightarrow> class_spec" where
  "spec_declare S (DMessage s t m) = S\<lparr>sp_messages := (sp_messages S)((s, t) \<mapsto> m)\<rparr>"
| "spec_declare S (DInlet w t m) =
     S\<lparr>sp_inlets := (sp_inlets S)((clip_max w, t) \<mapsto> m), sp_ninlets := max (sp_ninlets S) (clip_max w + 1)\<rparr>"
| "spec_declare S (DInletThru w) = S\<lparr>sp_ninlets := max (sp_ninlets S) (clip_max w + 1)\<rparr>"
| "spec_declare S (DInputHandler m) = S\<lparr>sp_ninlets := max (sp_ninlets S) 1\<rparr>"
| "spec_declare S (DOutlet w t) =
     S\<lparr>sp_outlets := (sp_outlets S)(max 0 w := sp_outlets S (max 0 w) @ [t]),
       sp_noutlets := max (sp_noutlets S) (w + 1)\<rparr>"

text \<open>Symbols are allocated above the inlet numbers, and the first outlet is not a negative one.\<close>

fun decl_ok :: "class_decl \<Rightarrow> bool" where
  "decl_ok (DMessage s t m) \<longleftrightarrow> int s > CLASS_INLET_MAX"
| "decl_ok (DOutlet w t) \<longleftrightarrow> w \<ge> 0"
| "decl_ok _ \<longleftrightarrow> True"

definition methods_abs :: "fts_class \<Rightarrow> class_spec \<Rightarrow> bool" where
  "methods_abs cl S \<longleftrightarrow>
     cl_methods cl \<noteq> None
     \<and> (\<forall>s t. int s > CLASS_INLET_MAX \<longrightarrow> method_get cl (int s) t = sp_messages S (s, t))
     \<and> (\<forall>n t. 0 \<le> n \<and> n \<le> CLASS_INLET_MAX \<longrightarrow> method_get cl n t = sp_inlets S (n, t))
     \<and> (\<forall>n t. n < 0 \<longrightarrow> method_get cl n t = None)"

definition outlets_abs :: "fts_class \<Rightarrow> class_spec \<Rightarrow> bool" where
  "outlets_abs cl S \<longleftrightarrow>
     cl_noutlets cl = sp_noutlets S \<and> 0 \<le> sp_noutlets S \<and> sp_noutlets S \<le> cl_out_alloc cl
     \<and> length (outlet_slots cl) = nat (cl_out_alloc cl)
     \<and> (cl_outlets cl = None \<longleftrightarrow> sp_noutlets S = 0)
     \<and> (\<forall>i < nat (cl_out_alloc cl). outlet_slots cl ! i = Some (map (APointer \<circ> class_ptr) (sp_outlets S (int i))))
     \<and> (\<forall>i \<ge> sp_noutlets S. sp_outlets S i = [])"

definition class_abs :: "fts_class \<Rightarrow> class_spec \<Rightarrow> bool" where
  "class_abs cl S \<longleftrightarrow>
     cl_size cl \<noteq> 0 \<and> methods_abs cl S \<and> outlets_abs cl S
     \<and> cl_ninlets cl = sp_ninlets S \<and> 0 \<le> sp_ninlets S \<and> sp_ninlets S \<le> CLASS_INLET_MAX + 1"

lemma class_abs_init: "sz \<noteq> 0 \<Longrightarrow> class_abs (fts_class_init cl sz) spec_init"
  by (simp add: class_abs_def methods_abs_def outlets_abs_def fts_class_init_def spec_init_def method_get_def
      CLASS_INLET_MAX_def outlet_slots_def)

lemma abs_methods_ne: "class_abs cl S \<Longrightarrow> cl_methods cl \<noteq> None"
  by (simp add: class_abs_def methods_abs_def)

lemma method_get_update [simp]:
  "method_get (cl\<lparr>cl_ninlets := n\<rparr>) k t = method_get cl k t"
  "method_get (cl\<lparr>cl_input_handler := h\<rparr>) k t = method_get cl k t"
  "method_get (cl\<lparr>cl_noutlets := n\<rparr>) k t = method_get cl k t"
  "method_get (cl\<lparr>cl_outlets := os\<rparr>) k t = method_get cl k t"
  "method_get (cl\<lparr>cl_out_alloc := n\<rparr>) k t = method_get cl k t"
  by (simp_all add: method_get_def)

lemma slots_update [simp]:
  "outlet_slots (cl\<lparr>cl_ninlets := n\<rparr>) = outlet_slots cl"
  "outlet_slots (cl\<lparr>cl_input_handler := h\<rparr>) = outlet_slots cl"
  "outlet_slots (cl\<lparr>cl_noutlets := n\<rparr>) = outlet_slots cl"
  "outlet_slots (cl\<lparr>cl_out_alloc := n\<rparr>) = outlet_slots cl"
  "outlet_slots (cl\<lparr>cl_outlets := Some os\<rparr>) = os"
  by (simp_all add: outlet_slots_def)

lemma method_put_slots: "method_put cl n t m = Some cl' \<Longrightarrow> outlet_slots cl' = outlet_slots cl"
  by (auto simp: method_put_def outlet_slots_def split: option.splits)

lemma outlets_abs_put:
  "method_put cl n t m = Some cl' \<Longrightarrow> outlets_abs cl' S = outlets_abs cl S"
  using method_put_fields [of cl n t m cl'] method_put_slots [of cl n t m cl'] by (simp add: outlets_abs_def)

lemma methods_abs_message:
  assumes "methods_abs cl S" "int s > CLASS_INLET_MAX" "method_put cl (int s) t (Some m) = Some cl'"
  shows "methods_abs cl' (S\<lparr>sp_messages := (sp_messages S)((s, t) \<mapsto> m)\<rparr>)"
  using assms(1,2) method_put_fields [OF assms(3)]
  by (simp add: methods_abs_def method_get_put [OF assms(3)] CLASS_INLET_MAX_def)

lemma methods_abs_inlet:
  assumes "methods_abs cl S" "0 \<le> n" "n \<le> CLASS_INLET_MAX" "method_put cl n t (Some m) = Some cl'"
  shows "methods_abs cl' (S\<lparr>sp_inlets := (sp_inlets S)((n, t) \<mapsto> m)\<rparr>)"
  using assms(1-3) method_put_fields [OF assms(4)]
  by (auto simp: methods_abs_def method_get_put [OF assms(4)] CLASS_INLET_MAX_def)

lemma outlets_abs_cong:
  "outlets_abs cl (S\<lparr>sp_messages := x\<rparr>) = outlets_abs cl S"
  "outlets_abs cl (S\<lparr>sp_inlets := y\<rparr>) = outlets_abs cl S"
  "outlets_abs cl (S\<lparr>sp_ninlets := n\<rparr>) = outlets_abs cl S"
  "outlets_abs (cl\<lparr>cl_ninlets := n\<rparr>) S = outlets_abs cl S"
  "outlets_abs (cl\<lparr>cl_input_handler := h\<rparr>) S = outlets_abs cl S"
  by (simp_all add: outlets_abs_def)

lemma methods_abs_cong:
  "methods_abs cl (S\<lparr>sp_ninlets := n\<rparr>) = methods_abs cl S"
  "methods_abs cl (S\<lparr>sp_outlets := os\<rparr>) = methods_abs cl S"
  "methods_abs cl (S\<lparr>sp_noutlets := n\<rparr>) = methods_abs cl S"
  "methods_abs (cl\<lparr>cl_ninlets := n\<rparr>) S = methods_abs cl S"
  "methods_abs (cl\<lparr>cl_input_handler := h\<rparr>) S = methods_abs cl S"
  "methods_abs (cl\<lparr>cl_noutlets := n\<rparr>) S = methods_abs cl S"
  "methods_abs (cl\<lparr>cl_outlets := x\<rparr>) S = methods_abs cl S"
  "methods_abs (cl\<lparr>cl_out_alloc := n\<rparr>) S = methods_abs cl S"
  by (simp_all add: methods_abs_def)

lemmas abs_congs = outlets_abs_cong methods_abs_cong

lemma abs_message:
  assumes "class_abs cl S" "int s > CLASS_INLET_MAX"
  shows "\<exists>cl'. fts_class_message inst cl s t (Some m) = Some cl' \<and> class_abs cl' (spec_declare S (DMessage s t m))"
proof -
  obtain cl' where put: "method_put cl (int s) t (Some m) = Some cl'"
    using method_put_total [OF abs_methods_ne [OF assms(1)]] by blast
  have "class_abs cl' (spec_declare S (DMessage s t m))"
    using assms method_put_fields [OF put] methods_abs_message [OF _ assms(2) put]
    by (simp add: class_abs_def outlets_abs_put [OF put] abs_congs)
  with put assms(1) show ?thesis
    by (auto simp: fts_class_message_def fts_class_instantiate_def class_abs_def)
qed

lemma adjust_inlet:
  "class_adjust_inlet cl w = (cl\<lparr>cl_ninlets := max (cl_ninlets cl) (clip_max w + 1)\<rparr>, clip_max w)"
  by (auto simp: class_adjust_inlet_def clip_max_def CLASS_INLET_MAX_def class_set_inlets_number_def Let_def max_def)

lemma clip_max_range: "0 \<le> clip_max w \<and> clip_max w \<le> CLASS_INLET_MAX"
  by (auto simp: clip_max_def CLASS_INLET_MAX_def)

lemma abs_ninlets:
  "class_abs cl S \<Longrightarrow> 0 \<le> n \<Longrightarrow> n \<le> CLASS_INLET_MAX + 1 \<Longrightarrow>
   class_abs (cl\<lparr>cl_ninlets := n\<rparr>) (S\<lparr>sp_ninlets := n\<rparr>)"
  by (simp add: class_abs_def abs_congs)

lemma abs_thru:
  "class_abs cl S \<Longrightarrow> class_abs (fts_class_inlet_thru cl w) (spec_declare S (DInletThru w))"
  using clip_max_range [of w] by (auto simp: fts_class_inlet_thru_def adjust_inlet class_abs_def abs_congs)

lemma abs_inlet:
  assumes "class_abs cl S"
  shows "\<exists>cl'. fts_class_inlet cl w t (Some m) = Some cl' \<and> class_abs cl' (spec_declare S (DInlet w t m))"
proof -
  let ?cl = "fts_class_inlet_thru cl w"
  note abs = abs_thru [OF assms, of w]
  obtain cl' where put: "method_put ?cl (clip_max w) t (Some m) = Some cl'"
    using method_put_total [OF abs_methods_ne [OF abs]] by blast
  have "class_abs cl' (spec_declare S (DInlet w t m))"
    using abs method_put_fields [OF put] methods_abs_inlet [OF _ _ _ put, of S] clip_max_range [of w]
    by (simp add: class_abs_def outlets_abs_put [OF put] abs_congs)
  with put show ?thesis by (simp add: fts_class_inlet_def fts_class_inlet_thru_def adjust_inlet)
qed

lemma abs_handler:
  "class_abs cl S \<Longrightarrow> class_abs (fts_class_input_handler cl m) (spec_declare S (DInputHandler h))"
  by (auto simp: fts_class_input_handler_def class_set_inlets_number_def class_abs_def abs_congs Let_def max_def
      CLASS_INLET_MAX_def)

text \<open>\<open>fts_class_outlet\<close> grows the array, clears the new slots and appends to one of them.\<close>

lemma outlet_slots_upd: "outlet_slots (cl\<lparr>cl_outlets := Some os, cl_out_alloc := n\<rparr>) = os"
  by (simp add: outlet_slots_def)

lemma outlets_abs_grow:
  assumes "outlets_abs cl S" "w \<ge> sp_noutlets S"
  shows "outlets_abs (class_set_outlets_number cl (w + 1)) (S\<lparr>sp_noutlets := w + 1\<rparr>)
         \<and> methods_abs (class_set_outlets_number cl (w + 1)) S = methods_abs cl S
         \<and> cl_size (class_set_outlets_number cl (w + 1)) = cl_size cl
         \<and> cl_ninlets (class_set_outlets_number cl (w + 1)) = cl_ninlets cl"
proof -
  have len: "length (outlet_slots cl) = nat (cl_out_alloc cl)" and w: "0 \<le> w" "cl_noutlets cl \<le> w + 1"
    and pos: "0 \<le> cl_out_alloc cl"
    using assms by (auto simp: outlets_abs_def)
  have none: "map_option (delete_slots (nat (w + 1)) (nat (cl_noutlets cl))) x = x" for x
    using w by (cases x) auto
  show ?thesis
  proof (cases "w + 1 > cl_out_alloc cl")
    case True
    let ?a = "grow_outlets (cl_out_alloc cl) (w + 1)"
    let ?os = "outlet_slots cl @ replicate (nat (?a - cl_out_alloc cl)) (Some [])"
    have a: "w + 1 \<le> ?a" "cl_out_alloc cl \<le> ?a" using grow_outlets_ge by auto
    have nth: "?os ! i = Some (map (APointer \<circ> class_ptr) (sp_outlets S (int i)))" if "i < nat ?a" for i
      using assms that len a pos by (auto simp: outlets_abs_def nth_append)
    show ?thesis
      using assms a w pos len nth True
      by (auto simp: class_set_outlets_number_def Let_def none outlets_abs_def abs_congs nat_diff_distrib)
  next
    case False
    then obtain os where os: "cl_outlets cl = Some os" "outlet_slots cl = os"
      using len w by (cases "cl_outlets cl") (auto simp: outlet_slots_def)
    then have "class_set_outlets_number cl (w + 1) = cl\<lparr>cl_outlets := Some os, cl_noutlets := w + 1\<rparr>"
      using False w by (simp add: class_set_outlets_number_def Let_def)
    then show ?thesis using assms os False w by (auto simp: outlets_abs_def abs_congs)
  qed
qed

lemma abs_outlet:
  assumes "class_abs cl S" "0 \<le> w"
  shows "\<exists>cl'. fts_class_outlet cl w t = Some cl' \<and> class_abs cl' (spec_declare S (DOutlet w t))"
proof -
  define cl1 where "cl1 = (if w \<ge> cl_noutlets cl then class_set_outlets_number cl (w + 1) else cl)"
  define S1 where "S1 = S\<lparr>sp_noutlets := max (sp_noutlets S) (w + 1)\<rparr>"
  have abs: "class_abs cl1 S1"
    using assms(1) outlets_abs_grow [of cl S w]
    by (auto simp: cl1_def S1_def class_abs_def abs_congs outlets_abs_def max_def)
  then have out: "outlets_abs cl1 S1" by (simp add: class_abs_def)
  have w: "w < sp_noutlets S1" by (simp add: S1_def)
  have get: "class_get_outlet cl1 w = Some w"
    using out w assms(2) by (auto simp: class_get_outlet_def outlets_abs_def)
  let ?ds = "map (APointer \<circ> class_ptr) (sp_outlets S1 w)"
  have lt: "nat w < nat (cl_out_alloc cl1)" using out w assms(2) by (auto simp: outlets_abs_def)
  then have at: "outlet_at cl1 w = Some ?ds"
    using out assms(2) by (auto simp: outlet_at_def outlets_abs_def)
  let ?os = "(outlet_slots cl1)[nat w := Some (?ds @ [APointer (class_ptr t)])]"
  have res: "fts_class_outlet cl w t = Some (cl1\<lparr>cl_outlets := Some ?os\<rparr>)"
    using at get
    by (simp add: fts_class_outlet_def cl1_def [symmetric] class_outlet_add_declaration_def append_spec)
  have "outlets_abs (cl1\<lparr>cl_outlets := Some ?os\<rparr>) (spec_declare S (DOutlet w t))"
    using out w assms(2) lt
    by (auto simp: outlets_abs_def nth_list_update S1_def fun_upd_apply max_def)
  with abs have "class_abs (cl1\<lparr>cl_outlets := Some ?os\<rparr>) (spec_declare S (DOutlet w t))"
    by (simp add: class_abs_def abs_congs S1_def)
  with res show ?thesis by blast
qed

theorem class_declares_abs:
  assumes "class_abs cl S" "list_all decl_ok ds"
  shows "\<exists>cl'. class_declares inst cl ds = Some cl' \<and> class_abs cl' (fold (\<lambda>d S. spec_declare S d) ds S)"
  using assms
proof (induction ds arbitrary: cl S)
  case (Cons d ds)
  have "\<exists>cl'. class_declare inst cl d = Some cl' \<and> class_abs cl' (spec_declare S d)"
    using Cons.prems abs_message abs_inlet abs_thru abs_handler abs_outlet by (cases d) auto
  with Cons show ?case by fastforce
qed simp


subsection \<open>Lookups in a declared class\<close>

definition spec_method :: "class_spec \<Rightarrow> addr \<Rightarrow> class_ref option \<Rightarrow> fts_method option" where
  "spec_method S s t = (case sp_messages S (s, t) of Some m \<Rightarrow> Some m | None \<Rightarrow> sp_messages S (s, None))"

definition spec_inlet :: "class_spec \<Rightarrow> int \<Rightarrow> int" where
  "spec_inlet S w = max 0 (min (sp_ninlets S - 1) w)"

definition spec_inlet_method :: "class_spec \<Rightarrow> int \<Rightarrow> class_ref option \<Rightarrow> fts_method option" where
  "spec_inlet_method S w t =
     (case sp_inlets S (spec_inlet S w, t) of Some m \<Rightarrow> Some m
      | None \<Rightarrow> (if t = Some VoidClass then None else sp_inlets S (spec_inlet S w, None)))"

definition spec_declarations :: "class_spec \<Rightarrow> int \<Rightarrow> class_ref option list" where
  "spec_declarations S w =
     (if sp_noutlets S = 0 then [] else sp_outlets S (max 0 (min (sp_noutlets S - 1) w)))"

lemma abs_get_method:
  "class_abs cl S \<Longrightarrow> int s > CLASS_INLET_MAX \<Longrightarrow> fts_class_get_method cl s t = spec_method S s t"
  by (simp add: class_abs_def methods_abs_def fts_class_get_method_def spec_method_def split: option.split)

lemma abs_get_inlet_method:
  assumes "class_abs cl S" "sp_ninlets S > 0"
  shows "fts_class_get_inlet_method cl w t = spec_inlet_method S w t"
proof -
  have "class_clip_inlet cl w = spec_inlet S w"
    using assms by (auto simp: class_abs_def class_clip_inlet_def spec_inlet_def)
  moreover have "0 \<le> spec_inlet S w" "spec_inlet S w \<le> CLASS_INLET_MAX"
    using assms by (auto simp: class_abs_def spec_inlet_def CLASS_INLET_MAX_def)
  ultimately show ?thesis
    using assms(1)
    by (simp add: class_abs_def methods_abs_def fts_class_get_inlet_method_def spec_inlet_method_def Let_def
        split: option.split)
qed

lemma abs_outlet_at:
  assumes "class_abs cl S" "sp_noutlets S > 0"
  shows "class_get_outlet cl w = Some (max 0 (min (sp_noutlets S - 1) w))"
    and "outlet_at cl (max 0 (min (sp_noutlets S - 1) w)) = Some (map (APointer \<circ> class_ptr) (spec_declarations S w))"
  using assms by (auto simp: class_abs_def outlets_abs_def class_get_outlet_def outlet_at_def spec_declarations_def)

lemma abs_declarations:
  assumes "class_abs cl S"
  shows "fts_class_outlet_get_declarations cl w = Some (map (APointer \<circ> class_ptr) (spec_declarations S w))"
proof (cases "sp_noutlets S = 0")
  case True
  with assms show ?thesis
    by (simp add: class_abs_def outlets_abs_def fts_class_outlet_get_declarations_def class_get_outlet_def spec_declarations_def)
next
  case False
  with assms have "sp_noutlets S > 0" by (simp add: class_abs_def outlets_abs_def)
  with assms show ?thesis by (simp add: fts_class_outlet_get_declarations_def abs_outlet_at)
qed

lemma identical_class_ptr: "fts_atom_identical E (APointer (class_ptr t)) (APointer (class_ptr u)) \<longleftrightarrow> t = u"
  by (simp add: fts_atom_identical_def fts_atom_same_type_def class_ptr_inj)

lemma has_declaration_iff:
  "class_outlet_has_declaration E (map (APointer \<circ> class_ptr) ts) (APointer (class_ptr t)) \<longleftrightarrow> t \<in> set ts"
  by (auto simp: class_outlet_has_declaration_def list_ex_iff identical_class_ptr)

lemma abs_has_type:
  assumes "class_abs cl S"
  shows "fts_class_outlet_has_type E cl w t = Some (t \<in> set (spec_declarations S w))"
proof (cases "sp_noutlets S = 0")
  case True
  with assms show ?thesis
    by (simp add: class_abs_def outlets_abs_def fts_class_outlet_has_type_def class_get_outlet_def spec_declarations_def)
next
  case False
  with assms have "sp_noutlets S > 0" by (simp add: class_abs_def outlets_abs_def)
  with assms show ?thesis
    by (simp add: fts_class_outlet_has_type_def abs_outlet_at has_declaration_iff del: map_map)
qed

lemma outlet_has_message_never:
  "class_abs cl S \<Longrightarrow> fts_class_outlet_has_message E cl w s = Some False"
proof (cases "sp_noutlets S = 0")
  case True
  assume "class_abs cl S"
  with True show ?thesis
    by (simp add: class_abs_def outlets_abs_def fts_class_outlet_has_message_def class_get_outlet_def)
next
  case False
  assume "class_abs cl S"
  moreover from this False have "sp_noutlets S > 0" by (simp add: class_abs_def outlets_abs_def)
  ultimately show ?thesis
    by (auto simp: fts_class_outlet_has_message_def abs_outlet_at class_outlet_has_declaration_def list_ex_iff
        fts_atom_identical_def fts_atom_same_type_def)
qed

end
