(* ===== verification/Connection.thy ===== *)
theory Connection
  imports Classes
begin

text \<open>
  Connections between the objects of a patcher (\<open>fts/connection.c\<close>, the inlet and outlet part of
  \<open>fts/patcherobject.c\<close> and \<open>fts/errobj.c\<close>).

  An object that is in a patcher has an \<open>fts_object_patcher_data_t\<close> with one linked list of
  connections per inlet and per outlet. A connection is a node of two lists at a time, linked by
  \<open>next_same_src\<close> in the list of its source's outlet and by \<open>next_same_dst\<close> in the list of its
  destination's inlet. The lists are kept as the code has them: a store of connections with their
  two link fields, and arrays of list heads. A walk that never ends and an access through a null
  pointer or outside an array are \<^const>\<open>None\<close>.

  \<open>fts_connection_delete\<close> does not free the connection, so the store only grows and a new
  connection gets the next address. The client's copy of a connection and the messages of
  \<open>fts_object_error\<close> are not part of the state.
\<close>

subsection \<open>State\<close>

type_synonym obj = addr
type_synonym cid = addr

record message_cache =
  mc_selector :: addr
  mc_type :: "class_ref option"
  mc_method :: "fts_method option"

definition fts_message_cache_init :: message_cache where
  "fts_message_cache_init = \<lparr>mc_selector = 0, mc_type = None, mc_method = None\<rparr>"

record connection =
  c_src :: obj
  c_woutlet :: int
  c_dst :: obj
  c_winlet :: int
  c_cache :: message_cache
  c_type :: int
  c_patcher :: "obj option"
  next_same_dst :: "cid option"
  next_same_src :: "cid option"

record patcher_data =
  pd_patcher :: "obj option"
  n_inlets :: int
  n_outlets :: int
  in_conn :: "cid option list"
  out_conn :: "cid option list"
  pd_winlet :: int

record patch =
  contexts :: "obj \<rightharpoonup> patcher_data"
  conns :: "cid \<rightharpoonup> connection"
  next_conn :: cid

text \<open>What the patch refers to: the classes of the objects, and three names of the system.\<close>

record patch_world =
  w_env :: class_env
  w_classes :: "addr \<Rightarrow> fts_class"
  w_error_class :: addr
  w_signal_class :: addr
  w_s_propagate_input :: addr

definition object_class :: "patch_world \<Rightarrow> obj \<Rightarrow> fts_class" where
  "object_class W x = w_classes W (obj_class (w_env W) x)"

definition fts_object_is_error :: "patch_world \<Rightarrow> obj \<Rightarrow> bool" where
  "fts_object_is_error W x \<longleftrightarrow> obj_class (w_env W) x = w_error_class W"

text \<open>\<open>fts_connection_type_t\<close>\<close>

definition fts_c_hidden :: int where "fts_c_hidden = - 2"
definition fts_c_null :: int where "fts_c_null = - 1"
definition fts_c_anything :: int where "fts_c_anything = 0"

subsection \<open>Patcher data\<close>

definition fts_object_get_patcher_data :: "patch_world \<Rightarrow> obj \<Rightarrow> patch \<Rightarrow> patch" where
  "fts_object_get_patcher_data W x s =
     (case contexts s x of Some _ \<Rightarrow> s
      | None \<Rightarrow>
         (let cl = object_class W x
          in s\<lparr>contexts := (contexts s)(x \<mapsto>
               \<lparr>pd_patcher = None, n_inlets = cl_ninlets cl, n_outlets = cl_noutlets cl,
                in_conn = replicate (nat (cl_ninlets cl)) None,
                out_conn = replicate (nat (cl_noutlets cl)) None, pd_winlet = 0\<rparr>)\<rparr>))"

definition fts_object_get_patcher :: "obj \<Rightarrow> patch \<Rightarrow> obj option" where
  "fts_object_get_patcher x s = Option.bind (contexts s x) pd_patcher"

definition fts_object_get_inlets_number :: "obj \<Rightarrow> patch \<Rightarrow> int" where
  "fts_object_get_inlets_number x s = (case contexts s x of None \<Rightarrow> 0 | Some d \<Rightarrow> n_inlets d)"

definition fts_object_get_outlets_number :: "obj \<Rightarrow> patch \<Rightarrow> int" where
  "fts_object_get_outlets_number x s = (case contexts s x of None \<Rightarrow> 0 | Some d \<Rightarrow> n_outlets d)"

text \<open>\<open>fts_object_get_inlet_connections\<close>, \<open>fts_object_get_outlet_connections\<close>: the head of a list.\<close>

definition in_head :: "patch \<Rightarrow> obj \<Rightarrow> int \<Rightarrow> cid option option" where
  "in_head s x i =
     (case contexts s x of None \<Rightarrow> None
      | Some d \<Rightarrow> if 0 \<le> i \<and> nat i < length (in_conn d) then Some (in_conn d ! nat i) else None)"

definition out_head :: "patch \<Rightarrow> obj \<Rightarrow> int \<Rightarrow> cid option option" where
  "out_head s x i =
     (case contexts s x of None \<Rightarrow> None
      | Some d \<Rightarrow> if 0 \<le> i \<and> nat i < length (out_conn d) then Some (out_conn d ! nat i) else None)"

definition set_in_head :: "obj \<Rightarrow> int \<Rightarrow> cid option \<Rightarrow> patch \<Rightarrow> patch option" where
  "set_in_head x i p s =
     (case contexts s x of None \<Rightarrow> None
      | Some d \<Rightarrow> if 0 \<le> i \<and> nat i < length (in_conn d)
          then Some (s\<lparr>contexts := (contexts s)(x \<mapsto> d\<lparr>in_conn := (in_conn d)[nat i := p]\<rparr>)\<rparr>) else None)"

definition set_out_head :: "obj \<Rightarrow> int \<Rightarrow> cid option \<Rightarrow> patch \<Rightarrow> patch option" where
  "set_out_head x i p s =
     (case contexts s x of None \<Rightarrow> None
      | Some d \<Rightarrow> if 0 \<le> i \<and> nat i < length (out_conn d)
          then Some (s\<lparr>contexts := (contexts s)(x \<mapsto> d\<lparr>out_conn := (out_conn d)[nat i := p]\<rparr>)\<rparr>) else None)"

definition set_next_src :: "cid \<Rightarrow> cid option \<Rightarrow> patch \<Rightarrow> patch option" where
  "set_next_src c p s =
     (case conns s c of None \<Rightarrow> None
      | Some k \<Rightarrow> Some (s\<lparr>conns := (conns s)(c \<mapsto> k\<lparr>next_same_src := p\<rparr>)\<rparr>))"

definition set_next_dst :: "cid \<Rightarrow> cid option \<Rightarrow> patch \<Rightarrow> patch option" where
  "set_next_dst c p s =
     (case conns s c of None \<Rightarrow> None
      | Some k \<Rightarrow> Some (s\<lparr>conns := (conns s)(c \<mapsto> k\<lparr>next_same_dst := p\<rparr>)\<rparr>))"

subsection \<open>Deleting a connection\<close>

text \<open>
  \<open>for (p = &head; *p; p = &((*p)->next)) if (*p == conn) { *p = (*p)->next; break; }\<close>: the walk
  finds the cell that holds the connection, the list head (\<^const>\<open>None\<close>) or the link field of the
  node before it, and stores the successor there.
\<close>

partial_function (option) unlink_src :: "obj \<Rightarrow> int \<Rightarrow> cid \<Rightarrow> cid option \<Rightarrow> cid option \<Rightarrow> patch \<Rightarrow> patch option"
where
  "unlink_src x i c prev cur s =
     (case cur of None \<Rightarrow> Some s
      | Some y \<Rightarrow>
         (case conns s y of None \<Rightarrow> None
          | Some k \<Rightarrow>
             (if y = c
              then (case prev of None \<Rightarrow> set_out_head x i (next_same_src k) s
                    | Some z \<Rightarrow> set_next_src z (next_same_src k) s)
              else unlink_src x i c (Some y) (next_same_src k) s)))"

partial_function (option) unlink_dst :: "obj \<Rightarrow> int \<Rightarrow> cid \<Rightarrow> cid option \<Rightarrow> cid option \<Rightarrow> patch \<Rightarrow> patch option"
where
  "unlink_dst x i c prev cur s =
     (case cur of None \<Rightarrow> Some s
      | Some y \<Rightarrow>
         (case conns s y of None \<Rightarrow> None
          | Some k \<Rightarrow>
             (if y = c
              then (case prev of None \<Rightarrow> set_in_head x i (next_same_dst k) s
                    | Some z \<Rightarrow> set_next_dst z (next_same_dst k) s)
              else unlink_dst x i c (Some y) (next_same_dst k) s)))"

definition fts_connection_delete :: "cid \<Rightarrow> patch \<Rightarrow> patch option" where
  "fts_connection_delete c s =
     do { k \<leftarrow> conns s c;
          p \<leftarrow> out_head s (c_src k) (c_woutlet k);
          s1 \<leftarrow> unlink_src (c_src k) (c_woutlet k) c None p s;
          q \<leftarrow> in_head s1 (c_dst k) (c_winlet k);
          unlink_dst (c_dst k) (c_winlet k) c None q s1 }"

subsection \<open>Setting the number of inlets and outlets\<close>

text \<open>\<open>for (p = head; p; p = head) fts_connection_delete(p)\<close>\<close>

partial_function (option) remove_outlet :: "obj \<Rightarrow> int \<Rightarrow> patch \<Rightarrow> patch option" where
  "remove_outlet x i s =
     Option.bind (out_head s x i)
       (\<lambda>h. case h of None \<Rightarrow> Some s
            | Some p \<Rightarrow> Option.bind (fts_connection_delete p s) (remove_outlet x i))"

partial_function (option) remove_inlet :: "obj \<Rightarrow> int \<Rightarrow> patch \<Rightarrow> patch option" where
  "remove_inlet x i s =
     Option.bind (in_head s x i)
       (\<lambda>h. case h of None \<Rightarrow> Some s
            | Some p \<Rightarrow> Option.bind (fts_connection_delete p s) (remove_inlet x i))"

definition trim_inlet :: "obj \<Rightarrow> int \<Rightarrow> patch \<Rightarrow> patch option" where
  "trim_inlet x i s = Option.bind (remove_inlet x i s) (set_in_head x i None)"

definition trim_outlet :: "obj \<Rightarrow> int \<Rightarrow> patch \<Rightarrow> patch option" where
  "trim_outlet x i s = Option.bind (remove_outlet x i s) (set_out_head x i None)"

fun for_ports :: "(int \<Rightarrow> patch \<Rightarrow> patch option) \<Rightarrow> int list \<Rightarrow> patch \<Rightarrow> patch option" where
  "for_ports f [] s = Some s"
| "for_ports f (i # is) s = Option.bind (f i s) (for_ports f is)"

definition fts_object_trim_inlets_connections :: "obj \<Rightarrow> int \<Rightarrow> patch \<Rightarrow> patch option" where
  "fts_object_trim_inlets_connections x inlets s =
     for_ports (trim_inlet x) [inlets..fts_object_get_inlets_number x s - 1] s"

definition fts_object_trim_outlets_connections :: "obj \<Rightarrow> int \<Rightarrow> patch \<Rightarrow> patch option" where
  "fts_object_trim_outlets_connections x outlets s =
     for_ports (trim_outlet x) [outlets..fts_object_get_outlets_number x s - 1] s"

text \<open>\<open>fts_realloc\<close> to \<open>n\<close> heads, the new ones \<open>NULL\<close>.\<close>

definition realloc_heads :: "int \<Rightarrow> cid option list \<Rightarrow> cid option list" where
  "realloc_heads n hs = take (nat n) hs @ replicate (nat n - length hs) None"

definition fts_object_set_inlets_number :: "patch_world \<Rightarrow> obj \<Rightarrow> int \<Rightarrow> patch \<Rightarrow> patch option" where
  "fts_object_set_inlets_number W x n s =
     (let s0 = fts_object_get_patcher_data W x s
      in if fts_object_get_inlets_number x s0 \<noteq> n
         then do { s1 \<leftarrow> fts_object_trim_inlets_connections x n s0;
                   d \<leftarrow> contexts s1 x;
                   Some (s1\<lparr>contexts := (contexts s1)(x \<mapsto>
                            d\<lparr>in_conn := realloc_heads n (in_conn d), n_inlets := n\<rparr>)\<rparr>) }
         else Some s0)"

definition fts_object_set_outlets_number :: "patch_world \<Rightarrow> obj \<Rightarrow> int \<Rightarrow> patch \<Rightarrow> patch option" where
  "fts_object_set_outlets_number W x n s =
     (let s0 = fts_object_get_patcher_data W x s
      in if fts_object_get_outlets_number x s0 \<noteq> n
         then do { s1 \<leftarrow> fts_object_trim_outlets_connections x n s0;
                   d \<leftarrow> contexts s1 x;
                   Some (s1\<lparr>contexts := (contexts s1)(x \<mapsto>
                            d\<lparr>out_conn := realloc_heads n (out_conn d), n_outlets := n\<rparr>)\<rparr>) }
         else Some s0)"

definition fts_error_object_fit_inlet :: "patch_world \<Rightarrow> obj \<Rightarrow> int \<Rightarrow> patch \<Rightarrow> patch option" where
  "fts_error_object_fit_inlet W x ninlet s =
     (if fts_object_get_inlets_number x s \<le> ninlet then fts_object_set_inlets_number W x (ninlet + 1) s else Some s)"

definition fts_error_object_fit_outlet :: "patch_world \<Rightarrow> obj \<Rightarrow> int \<Rightarrow> patch \<Rightarrow> patch option" where
  "fts_error_object_fit_outlet W x noutlet s =
     (if fts_object_get_outlets_number x s \<le> noutlet then fts_object_set_outlets_number W x (noutlet + 1) s else Some s)"

subsection \<open>Making a connection\<close>

definition connection_check :: "patch_world \<Rightarrow> obj \<Rightarrow> int \<Rightarrow> obj \<Rightarrow> int \<Rightarrow> bool option" where
  "connection_check W src woutlet dst winlet =
     (let scl = object_class W src; dcl = object_class W dst; signal = Some (UserClass (w_signal_class W))
      in do {
        ds \<leftarrow> fts_class_outlet_get_declarations scl woutlet;
        has_signal \<leftarrow> fts_class_outlet_has_type (w_env W) scl woutlet signal;
        Some (if length ds = 0 then True
              else if length ds = 1 \<and> has_signal
                      \<and> fts_class_get_method_varargs dcl (w_s_propagate_input W) = None
              then fts_class_get_inlet_method dcl winlet signal \<noteq> None
              else if cl_input_handler dcl \<noteq> None then True
              else list_ex (\<lambda>a. case a of
                      APointer p \<Rightarrow> (case class_of_ptr p of None \<Rightarrow> True
                                    | Some type \<Rightarrow> fts_class_get_inlet_method dcl winlet (Some type) \<noteq> None)
                    | _ \<Rightarrow> False) ds) })"

text \<open>The two loops that look for a double connection, and the loop of \<open>fts_connection_get\<close>.\<close>

partial_function (option) find_same_src :: "obj \<Rightarrow> int \<Rightarrow> cid option \<Rightarrow> patch \<Rightarrow> cid option option" where
  "find_same_src dst winlet cur s =
     (case cur of None \<Rightarrow> Some None
      | Some c \<Rightarrow>
         Option.bind (conns s c)
           (\<lambda>k. if c_dst k = dst \<and> c_winlet k = winlet then Some (Some c)
                 else find_same_src dst winlet (next_same_src k) s))"

partial_function (option) find_same_dst :: "obj \<Rightarrow> int \<Rightarrow> cid option \<Rightarrow> patch \<Rightarrow> cid option option" where
  "find_same_dst src woutlet cur s =
     (case cur of None \<Rightarrow> Some None
      | Some c \<Rightarrow>
         Option.bind (conns s c)
           (\<lambda>k. if c_src k = src \<and> c_woutlet k = woutlet then Some (Some c)
                 else find_same_dst src woutlet (next_same_dst k) s))"

definition fts_connection_get :: "obj \<Rightarrow> int \<Rightarrow> obj \<Rightarrow> int \<Rightarrow> patch \<Rightarrow> cid option option" where
  "fts_connection_get src woutlet dst winlet s =
     (if contexts s src \<noteq> None
      then Option.bind (out_head s src woutlet) (\<lambda>p. find_same_src dst winlet p s)
      else Some None)"

definition connection_init :: "obj \<Rightarrow> int \<Rightarrow> obj \<Rightarrow> int \<Rightarrow> int \<Rightarrow> obj option \<Rightarrow> connection" where
  "connection_init src woutlet dst winlet type patcher =
     \<lparr>c_src = src, c_woutlet = woutlet, c_dst = dst, c_winlet = winlet, c_cache = fts_message_cache_init,
      c_type = type, c_patcher = patcher, next_same_dst = None, next_same_src = None\<rparr>"

text \<open>\<open>fts_object_create\<close>, then the connection becomes the head of both lists.\<close>

definition connection_link :: "connection \<Rightarrow> patch \<Rightarrow> (cid option \<times> patch) option" where
  "connection_link k s =
     do { let c = next_conn s;
          p \<leftarrow> out_head s (c_src k) (c_woutlet k);
          s1 \<leftarrow> set_out_head (c_src k) (c_woutlet k) (Some c)
                 (s\<lparr>conns := (conns s)(c \<mapsto> k\<lparr>next_same_src := p\<rparr>), next_conn := next_conn s + 1\<rparr>);
          q \<leftarrow> in_head s1 (c_dst k) (c_winlet k);
          s2 \<leftarrow> set_next_dst c q s1;
          s3 \<leftarrow> set_in_head (c_dst k) (c_winlet k) (Some c) s2;
          Some (Some c, s3) }"

definition connection_add :: "patch_world \<Rightarrow> bool \<Rightarrow> obj option \<Rightarrow> obj \<Rightarrow> int \<Rightarrow> obj \<Rightarrow> int \<Rightarrow> int \<Rightarrow> patch
    \<Rightarrow> (cid option \<times> patch) option" where
  "connection_add W valid patcher src woutlet dst winlet type s =
     (if woutlet \<ge> fts_object_get_outlets_number src s \<or> woutlet < 0 then Some (None, s)
      else if winlet \<ge> fts_object_get_inlets_number dst s \<or> winlet < 0 then Some (None, s)
      else do {
        p \<leftarrow> out_head s src woutlet;
        double_src \<leftarrow> find_same_src dst winlet p s;
        if double_src \<noteq> None then Some (None, s)
        else do {
          q \<leftarrow> in_head s dst winlet;
          double_dst \<leftarrow> find_same_dst src woutlet q s;
          if double_dst \<noteq> None then Some (None, s)
          else do {
            ok \<leftarrow> connection_check W src woutlet dst winlet;
            if \<not> ok then Some (None, s)
            else connection_link
                   (connection_init src woutlet dst winlet
                      (if valid \<and> type = fts_c_null then fts_c_anything else type)
                      (if patcher \<noteq> fts_object_get_patcher dst s then None else patcher)) s } } })"

definition fts_connection_new :: "patch_world \<Rightarrow> obj \<Rightarrow> int \<Rightarrow> obj \<Rightarrow> int \<Rightarrow> int \<Rightarrow> patch
    \<Rightarrow> (cid option \<times> patch) option" where
  "fts_connection_new W src woutlet dst winlet type s =
     (let patcher = fts_object_get_patcher src s;
          s0 = fts_object_get_patcher_data W dst (fts_object_get_patcher_data W src s)
      in if fts_object_is_error W src \<and> type \<le> fts_c_hidden then Some (None, s0)
         else do {
           s1 \<leftarrow> (if fts_object_is_error W src then fts_error_object_fit_outlet W src woutlet s0 else Some s0);
           if fts_object_is_error W dst \<and> type \<le> fts_c_hidden then Some (None, s1)
           else do {
             s2 \<leftarrow> (if fts_object_is_error W dst then fts_error_object_fit_inlet W dst winlet s1 else Some s1);
             connection_add W (\<not> fts_object_is_error W src \<and> \<not> fts_object_is_error W dst) patcher
               src woutlet dst winlet type s2 } })"

definition fts_connection_set_type :: "cid \<Rightarrow> int \<Rightarrow> patch \<Rightarrow> patch option" where
  "fts_connection_set_type c type s =
     map_option (\<lambda>k. s\<lparr>conns := (conns s)(c \<mapsto> k\<lparr>c_type := type\<rparr>)\<rparr>) (conns s c)"

subsection \<open>Removing and moving all connections of an object\<close>

definition patcher_data_remove_connections :: "obj \<Rightarrow> patch \<Rightarrow> patch option" where
  "patcher_data_remove_connections x s =
     Option.bind (for_ports (remove_outlet x) [0..fts_object_get_outlets_number x s - 1] s)
       (\<lambda>s1. for_ports (remove_inlet x) [0..fts_object_get_inlets_number x s1 - 1] s1)"

definition patcher_data_remove_inoutlets :: "obj \<Rightarrow> patch \<Rightarrow> patch option" where
  "patcher_data_remove_inoutlets x s =
     do { s1 \<leftarrow> patcher_data_remove_connections x s;
          d \<leftarrow> contexts s1 x;
          Some (s1\<lparr>contexts := (contexts s1)(x \<mapsto>
                  d\<lparr>in_conn := [], out_conn := [], n_inlets := 0, n_outlets := 0\<rparr>)\<rparr>) }"

text \<open>
  \<open>fts_object_remove_patcher_data\<close>, without the name, the description, the properties and the
  variable bindings, which are not part of the state.
\<close>

definition fts_object_remove_patcher_data :: "obj \<Rightarrow> patch \<Rightarrow> patch option" where
  "fts_object_remove_patcher_data x s =
     (if contexts s x \<noteq> None
      then map_option (\<lambda>s1. s1\<lparr>contexts := (contexts s1)(x := None)\<rparr>) (patcher_data_remove_inoutlets x s)
      else Some s)"

partial_function (option) move_outlet :: "patch_world \<Rightarrow> obj \<Rightarrow> obj \<Rightarrow> int \<Rightarrow> patch \<Rightarrow> patch option" where
  "move_outlet W old new i s =
     Option.bind (out_head s old i)
       (\<lambda>h. case h of None \<Rightarrow> Some s
        | Some p \<Rightarrow> Option.bind (conns s p)
            (\<lambda>k. Option.bind
               (if i < fts_object_get_outlets_number new s \<and> c_type k > fts_c_hidden
                then map_option snd (fts_connection_new W new (c_woutlet k) (c_dst k) (c_winlet k) (c_type k) s)
                else Some s)
               (\<lambda>s1. Option.bind (fts_connection_delete p s1) (move_outlet W old new i))))"

partial_function (option) move_inlet :: "patch_world \<Rightarrow> obj \<Rightarrow> obj \<Rightarrow> int \<Rightarrow> patch \<Rightarrow> patch option" where
  "move_inlet W old new i s =
     Option.bind (in_head s old i)
       (\<lambda>h. case h of None \<Rightarrow> Some s
        | Some p \<Rightarrow> Option.bind (conns s p)
            (\<lambda>k. Option.bind
               (if i < fts_object_get_inlets_number new s \<and> c_type k > fts_c_hidden
                then map_option snd (fts_connection_new W (c_src k) (c_woutlet k) new (c_winlet k) (c_type k) s)
                else Some s)
               (\<lambda>s1. Option.bind (fts_connection_delete p s1) (move_inlet W old new i))))"

partial_function (option) move_outlets :: "patch_world \<Rightarrow> obj \<Rightarrow> obj \<Rightarrow> int \<Rightarrow> patch \<Rightarrow> patch option" where
  "move_outlets W old new i s =
     (if i < fts_object_get_outlets_number old s
      then Option.bind (move_outlet W old new i s) (move_outlets W old new (i + 1)) else Some s)"

partial_function (option) move_inlets :: "patch_world \<Rightarrow> obj \<Rightarrow> obj \<Rightarrow> int \<Rightarrow> patch \<Rightarrow> patch option" where
  "move_inlets W old new i s =
     (if i < fts_object_get_inlets_number old s
      then Option.bind (move_inlet W old new i s) (move_inlets W old new (i + 1)) else Some s)"

definition fts_object_move_connections :: "patch_world \<Rightarrow> obj \<Rightarrow> obj \<Rightarrow> patch \<Rightarrow> patch option" where
  "fts_object_move_connections W old new s =
     Option.bind (move_outlets W old new 0 s) (move_inlets W old new 0)"


subsection \<open>Linked lists\<close>

text \<open>
  \<open>path nxt p xs q\<close>: following the links from \<open>p\<close> goes through the nodes \<open>xs\<close> and ends at \<open>q\<close>; a
  path that ends at the null pointer is a list.
\<close>

primrec path :: "(cid \<Rightarrow> cid option) \<Rightarrow> cid option \<Rightarrow> cid list \<Rightarrow> cid option \<Rightarrow> bool" where
  "path nxt p [] q \<longleftrightarrow> p = q"
| "path nxt p (c # cs) q \<longleftrightarrow> p = Some c \<and> path nxt (nxt c) cs q"

abbreviation linked_list :: "(cid \<Rightarrow> cid option) \<Rightarrow> cid option \<Rightarrow> cid list \<Rightarrow> bool" where
  "linked_list nxt p xs \<equiv> path nxt p xs None"

lemma path_append: "path nxt p (xs @ ys) q \<longleftrightarrow> (\<exists>r. path nxt p xs r \<and> path nxt r ys q)"
  by (induction xs arbitrary: p) auto

lemma path_cong: "(\<And>c. c \<in> set xs \<Longrightarrow> nxt' c = nxt c) \<Longrightarrow> path nxt' p xs q = path nxt p xs q"
  by (induction xs arbitrary: p) auto

lemma path_upd [simp]: "z \<notin> set xs \<Longrightarrow> path (nxt(z := v)) p xs q = path nxt p xs q"
  by (rule path_cong) auto

lemma linked_list_None [simp]: "linked_list nxt None xs \<longleftrightarrow> xs = []"
  by (cases xs) auto

lemma linked_list_unique: "linked_list nxt p xs \<Longrightarrow> linked_list nxt p ys \<Longrightarrow> xs = ys"
proof (induction xs arbitrary: p ys)
  case (Cons x xs)
  then show ?case by (cases ys) auto
qed simp

lemma linked_list_distinct: "linked_list nxt p xs \<Longrightarrow> distinct xs"
proof (induction xs arbitrary: p)
  case (Cons x xs)
  have "x \<notin> set xs"
  proof
    assume "x \<in> set xs"
    then obtain ys zs where xs: "xs = ys @ x # zs" by (blast dest: split_list)
    from Cons.prems have 1: "linked_list nxt (nxt x) xs" by simp
    then have "linked_list nxt (nxt x) (ys @ x # zs)" using xs by simp
    then have "linked_list nxt (nxt x) zs" by (auto simp: path_append)
    with 1 have "xs = zs" by (rule linked_list_unique)
    with arg_cong [OF xs, of length] show False by simp
  qed
  then show ?case using Cons.IH [of "nxt x"] Cons.prems by simp
qed simp

text \<open>Storing the successor of a node in the cell that points to it takes the node out.\<close>

lemma linked_list_bypass:
  assumes "linked_list nxt p (xs @ z # c # ys)"
  shows "linked_list (nxt(z := nxt c)) p (xs @ z # ys)"
proof -
  from linked_list_distinct [OF assms] have "z \<notin> set xs" "z \<notin> set ys" "c \<noteq> z" by auto
  with assms show ?thesis by (auto simp: path_append)
qed

subsection \<open>The graph of a patch\<close>

definition nxt_src :: "patch \<Rightarrow> cid \<Rightarrow> cid option" where
  "nxt_src s c = Option.bind (conns s c) next_same_src"

definition nxt_dst :: "patch \<Rightarrow> cid \<Rightarrow> cid option" where
  "nxt_dst s c = Option.bind (conns s c) next_same_dst"

definition port_list :: "(cid \<Rightarrow> cid option) \<Rightarrow> cid option option \<Rightarrow> cid list \<Rightarrow> bool" where
  "port_list nxt h xs = (case h of None \<Rightarrow> xs = [] | Some p \<Rightarrow> linked_list nxt p xs)"

type_synonym ports = "obj \<times> int \<Rightarrow> cid list"

definition ends :: "patch \<Rightarrow> cid \<Rightarrow> (obj \<times> int \<times> obj \<times> int) option" where
  "ends s c = map_option (\<lambda>k. (c_src k, c_woutlet k, c_dst k, c_winlet k)) (conns s c)"

definition arrays_ok :: "patch \<Rightarrow> bool" where
  "arrays_ok s \<longleftrightarrow>
     (\<forall>x d. contexts s x = Some d \<longrightarrow>
        0 \<le> n_inlets d \<and> length (in_conn d) = nat (n_inlets d)
        \<and> 0 \<le> n_outlets d \<and> length (out_conn d) = nat (n_outlets d))"

definition outs_ok :: "patch \<Rightarrow> ports \<Rightarrow> bool" where
  "outs_ok s outs \<longleftrightarrow> (\<forall>x i. port_list (nxt_src s) (out_head s x i) (outs (x, i)))"

definition ins_ok :: "patch \<Rightarrow> ports \<Rightarrow> bool" where
  "ins_ok s ins \<longleftrightarrow> (\<forall>x i. port_list (nxt_dst s) (in_head s x i) (ins (x, i)))"

text \<open>
  The connections that are in use: each is in the list of the outlet it starts at and in the list
  of the inlet it ends at, and no two of them join the same two ports.
\<close>

definition from_port :: "(cid \<Rightarrow> (obj \<times> int \<times> obj \<times> int) option) \<Rightarrow> obj \<times> int \<Rightarrow> cid \<Rightarrow> bool" where
  "from_port e p c \<longleftrightarrow> (case e c of None \<Rightarrow> False | Some (x, i, y, j) \<Rightarrow> p = (x, i))"

definition to_port :: "(cid \<Rightarrow> (obj \<times> int \<times> obj \<times> int) option) \<Rightarrow> obj \<times> int \<Rightarrow> cid \<Rightarrow> bool" where
  "to_port e p c \<longleftrightarrow> (case e c of None \<Rightarrow> False | Some (x, i, y, j) \<Rightarrow> p = (y, j))"

definition live_conns :: "ports \<Rightarrow> cid set" where
  "live_conns outs = (\<Union>p. set (outs p))"

definition ends_ok :: "(cid \<Rightarrow> (obj \<times> int \<times> obj \<times> int) option) \<Rightarrow> ports \<Rightarrow> ports \<Rightarrow> bool" where
  "ends_ok e outs ins \<longleftrightarrow>
     (\<forall>p. set (outs p) = {c \<in> live_conns outs. from_port e p c})
     \<and> (\<forall>p. set (ins p) = {c \<in> live_conns outs. to_port e p c})
     \<and> inj_on e (live_conns outs)"

definition linked :: "patch \<Rightarrow> ports \<Rightarrow> ports \<Rightarrow> bool" where
  "linked s outs ins \<longleftrightarrow>
     arrays_ok s \<and> outs_ok s outs \<and> ins_ok s ins \<and> ends_ok (ends s) outs ins
     \<and> (\<forall>c \<ge> next_conn s. conns s c = None)"

text \<open>The list of a port is determined by the state.\<close>

lemma port_list_unique: "port_list nxt h xs \<Longrightarrow> port_list nxt h ys \<Longrightarrow> xs = ys"
  by (auto simp: port_list_def linked_list_unique split: option.splits)

lemma linked_unique:
  assumes "linked s outs ins" "linked s outs' ins'"
  shows "outs = outs' \<and> ins = ins'"
proof -
  have "outs (x, i) = outs' (x, i)" "ins (x, i) = ins' (x, i)" for x i
    using assms unfolding linked_def outs_ok_def ins_ok_def by (blast intro: port_list_unique)+
  then show ?thesis by auto
qed

lemma from_port_Some: "from_port e (x, i) c \<longleftrightarrow> (\<exists>y j. e c = Some (x, i, y, j))"
  by (auto simp: from_port_def split: option.splits)

lemma to_port_Some: "to_port e (y, j) c \<longleftrightarrow> (\<exists>x i. e c = Some (x, i, y, j))"
  by (auto simp: to_port_def split: option.splits)

lemma ends_conns: "ends s c \<noteq> None \<Longrightarrow> conns s c \<noteq> None"
  by (simp add: ends_def)

lemma ends_okD:
  assumes "ends_ok e outs ins"
  shows "c \<in> set (outs (x, i)) \<Longrightarrow> \<exists>y j. e c = Some (x, i, y, j) \<and> c \<in> set (ins (y, j))"
    and "c \<in> set (ins (y, j)) \<Longrightarrow> \<exists>x i. e c = Some (x, i, y, j) \<and> c \<in> set (outs (x, i))"
  using assms by (auto simp: ends_ok_def from_port_Some to_port_Some)

lemma outs_conns: "ends_ok (ends s) outs ins \<Longrightarrow> c \<in> set (outs (x, i)) \<Longrightarrow> conns s c \<noteq> None"
  by (rule ends_conns) (blast dest: ends_okD)

lemma ins_conns: "ends_ok (ends s) outs ins \<Longrightarrow> c \<in> set (ins (x, i)) \<Longrightarrow> conns s c \<noteq> None"
  by (rule ends_conns) (blast dest: ends_okD)

lemma ends_ok_disjoint:
  assumes "ends_ok e outs ins"
  shows "(y, j) \<noteq> (x, i) \<Longrightarrow> set (outs (y, j)) \<inter> set (outs (x, i)) = {}"
    and "(y, j) \<noteq> (x, i) \<Longrightarrow> set (ins (y, j)) \<inter> set (ins (x, i)) = {}"
  using ends_okD(1) [OF assms, of _ x i] ends_okD(1) [OF assms, of _ y j]
    ends_okD(2) [OF assms, of _ x i] ends_okD(2) [OF assms, of _ y j] by fastforce+

subsection \<open>The walk of \<open>fts_connection_delete\<close>\<close>

lemma unlink_src_walk:
  assumes "linked_list (nxt_src s) cur (xs @ c # ys)" "\<forall>z \<in> set (xs @ [c]). conns s z \<noteq> None"
  shows "unlink_src x i c prev cur s =
           (case (if xs = [] then prev else Some (last xs)) of
              None \<Rightarrow> set_out_head x i (nxt_src s c) s | Some z \<Rightarrow> set_next_src z (nxt_src s c) s)"
  using assms
proof (induction xs arbitrary: cur prev)
  case Nil
  then show ?case by (subst unlink_src.simps) (auto simp: nxt_src_def split: option.splits)
next
  case (Cons z zs)
  then have "z \<noteq> c" using linked_list_distinct [OF Cons.prems(1)] by auto
  with Cons show ?case by (subst unlink_src.simps) (auto simp: nxt_src_def)
qed

lemma unlink_dst_walk:
  assumes "linked_list (nxt_dst s) cur (xs @ c # ys)" "\<forall>z \<in> set (xs @ [c]). conns s z \<noteq> None"
  shows "unlink_dst x i c prev cur s =
           (case (if xs = [] then prev else Some (last xs)) of
              None \<Rightarrow> set_in_head x i (nxt_dst s c) s | Some z \<Rightarrow> set_next_dst z (nxt_dst s c) s)"
  using assms
proof (induction xs arbitrary: cur prev)
  case Nil
  then show ?case by (subst unlink_dst.simps) (auto simp: nxt_dst_def split: option.splits)
next
  case (Cons z zs)
  then have "z \<noteq> c" using linked_list_distinct [OF Cons.prems(1)] by auto
  with Cons show ?case by (subst unlink_dst.simps) (auto simp: nxt_dst_def)
qed

text \<open>
  All but the links: the connections' endpoints, types and caches, and the objects' port numbers.
\<close>

definition conn_core :: "patch \<Rightarrow> cid \<Rightarrow> connection option" where
  "conn_core s c = map_option (\<lambda>k. k\<lparr>next_same_dst := None, next_same_src := None\<rparr>) (conns s c)"

definition ctx_core :: "patch \<Rightarrow> obj \<Rightarrow> patcher_data option" where
  "ctx_core s x = map_option (\<lambda>d. d\<lparr>in_conn := [], out_conn := []\<rparr>) (contexts s x)"

definition same_core :: "patch \<Rightarrow> patch \<Rightarrow> bool" where
  "same_core s s' \<longleftrightarrow> conn_core s' = conn_core s \<and> ctx_core s' = ctx_core s \<and> next_conn s' = next_conn s"

definition ports_of :: "patch \<Rightarrow> obj \<Rightarrow> (int \<times> int) option" where
  "ports_of s x = map_option (\<lambda>d. (n_inlets d, n_outlets d)) (contexts s x)"

lemma ports_of_core: "ports_of s x = map_option (\<lambda>d. (n_inlets d, n_outlets d)) (ctx_core s x)"
  by (simp add: ports_of_def ctx_core_def option.map_comp comp_def)

lemma same_core_refl [simp]: "same_core s s"
  by (simp add: same_core_def)

lemma same_core_trans: "same_core s s' \<Longrightarrow> same_core s' s'' \<Longrightarrow> same_core s s''"
  by (simp add: same_core_def)

lemma ends_core: "ends s c = map_option (\<lambda>k. (c_src k, c_woutlet k, c_dst k, c_winlet k)) (conn_core s c)"
  by (simp add: ends_def conn_core_def option.map_comp comp_def)

lemma conns_core: "conns s c = None \<longleftrightarrow> conn_core s c = None"
  by (simp add: conn_core_def)

lemma same_core_ends: "same_core s s' \<Longrightarrow> ends s' = ends s"
  by (simp add: same_core_def ends_core fun_eq_iff)

lemma same_core_None: "same_core s s' \<Longrightarrow> conns s' c = None \<longleftrightarrow> conns s c = None"
  by (simp add: same_core_def conns_core)

lemma numbers_core:
  "fts_object_get_inlets_number x s = (case ctx_core s x of None \<Rightarrow> 0 | Some d \<Rightarrow> n_inlets d)"
  "fts_object_get_outlets_number x s = (case ctx_core s x of None \<Rightarrow> 0 | Some d \<Rightarrow> n_outlets d)"
  "fts_object_get_patcher x s = (case ctx_core s x of None \<Rightarrow> None | Some d \<Rightarrow> pd_patcher d)"
  by (simp_all add: ctx_core_def fts_object_get_inlets_number_def fts_object_get_outlets_number_def
      fts_object_get_patcher_def split: option.split)

lemma same_core_ports: "same_core s s' \<Longrightarrow> ports_of s' = ports_of s"
  by (simp add: same_core_def ports_of_core fun_eq_iff)

lemma numbers_ports:
  "fts_object_get_inlets_number x s = (case ports_of s x of None \<Rightarrow> 0 | Some (i, o') \<Rightarrow> i)"
  "fts_object_get_outlets_number x s = (case ports_of s x of None \<Rightarrow> 0 | Some (i, o') \<Rightarrow> o')"
  by (simp_all add: ports_of_def fts_object_get_inlets_number_def fts_object_get_outlets_number_def split: option.split)

lemma same_core_numbers:
  assumes "same_core s s'"
  shows "fts_object_get_inlets_number x s' = fts_object_get_inlets_number x s"
    and "fts_object_get_outlets_number x s' = fts_object_get_outlets_number x s"
    and "fts_object_get_patcher x s' = fts_object_get_patcher x s"
  using assms by (simp_all add: same_core_def numbers_core)

text \<open>What the four cell updates do.\<close>

lemma set_out_head_spec:
  "out_head s x i = Some p \<Longrightarrow>
   \<exists>s'. set_out_head x i q s = Some s' \<and> conns s' = conns s \<and> same_core s s'
        \<and> (\<forall>y j. out_head s' y j = (if y = x \<and> j = i then Some q else out_head s y j))
        \<and> in_head s' = in_head s \<and> (arrays_ok s \<longrightarrow> arrays_ok s')"
  by (auto simp: out_head_def in_head_def set_out_head_def arrays_ok_def fun_eq_iff nth_list_update
      same_core_def conn_core_def ctx_core_def split: option.splits if_splits)

lemma set_in_head_spec:
  "in_head s x i = Some p \<Longrightarrow>
   \<exists>s'. set_in_head x i q s = Some s' \<and> conns s' = conns s \<and> same_core s s'
        \<and> (\<forall>y j. in_head s' y j = (if y = x \<and> j = i then Some q else in_head s y j))
        \<and> out_head s' = out_head s \<and> (arrays_ok s \<longrightarrow> arrays_ok s')"
  by (auto simp: out_head_def in_head_def set_in_head_def arrays_ok_def fun_eq_iff nth_list_update
      same_core_def conn_core_def ctx_core_def split: option.splits if_splits)

lemma set_next_src_spec:
  "conns s z \<noteq> None \<Longrightarrow>
   \<exists>s'. set_next_src z q s = Some s' \<and> contexts s' = contexts s \<and> same_core s s'
        \<and> nxt_src s' = (nxt_src s)(z := q) \<and> nxt_dst s' = nxt_dst s"
  by (auto simp: set_next_src_def same_core_def conn_core_def ctx_core_def nxt_src_def nxt_dst_def fun_eq_iff)

lemma set_next_dst_spec:
  "conns s z \<noteq> None \<Longrightarrow>
   \<exists>s'. set_next_dst z q s = Some s' \<and> contexts s' = contexts s \<and> same_core s s'
        \<and> nxt_dst s' = (nxt_dst s)(z := q) \<and> nxt_src s' = nxt_src s"
  by (auto simp: set_next_dst_def same_core_def conn_core_def ctx_core_def nxt_src_def nxt_dst_def fun_eq_iff)

lemma heads_contexts:
  "contexts s' = contexts s \<Longrightarrow> in_head s' = in_head s \<and> out_head s' = out_head s \<and> arrays_ok s' = arrays_ok s"
  by (simp add: in_head_def out_head_def arrays_ok_def fun_eq_iff)

lemma nxt_conns: "conns s' = conns s \<Longrightarrow> nxt_src s' = nxt_src s \<and> nxt_dst s' = nxt_dst s"
  by (simp add: nxt_src_def nxt_dst_def fun_eq_iff)

subsection \<open>Taking a node out of one list\<close>

lemma unlink_src_spec:
  assumes outs: "outs_ok s outs" and p: "out_head s x i = Some p" and c: "c \<in> set (outs (x, i))"
    and disj: "\<And>y j. (y, j) \<noteq> (x, i) \<Longrightarrow> set (outs (y, j)) \<inter> set (outs (x, i)) = {}"
    and conns: "\<And>z. z \<in> set (outs (x, i)) \<Longrightarrow> conns s z \<noteq> None" and ok: "arrays_ok s"
  shows "\<exists>s'. unlink_src x i c None p s = Some s' \<and> same_core s s' \<and> arrays_ok s'
            \<and> outs_ok s' (outs((x, i) := remove1 c (outs (x, i)))) \<and> in_head s' = in_head s \<and> nxt_dst s' = nxt_dst s"
proof -
  obtain xs ys where split: "outs (x, i) = xs @ c # ys" using split_list [OF c] by blast
  have list: "linked_list (nxt_src s) p (xs @ c # ys)"
    using outs [unfolded outs_ok_def, rule_format, of x i] p split by (simp add: port_list_def)
  have dist: "distinct (xs @ c # ys)" using linked_list_distinct [OF list] .
  have rem: "remove1 c (outs (x, i)) = xs @ ys" using dist split by (simp add: remove1_append)
  have walk: "unlink_src x i c None p s =
      (case (if xs = [] then None else Some (last xs)) of
         None \<Rightarrow> set_out_head x i (nxt_src s c) s | Some z \<Rightarrow> set_next_src z (nxt_src s c) s)"
    using list conns split by (intro unlink_src_walk) auto
  show ?thesis
  proof (cases xs rule: rev_cases)
    case Nil
    obtain s' where s': "set_out_head x i (nxt_src s c) s = Some s'" "conns s' = conns s" "same_core s s'"
        "\<And>y j. out_head s' y j = (if y = x \<and> j = i then Some (nxt_src s c) else out_head s y j)"
        "in_head s' = in_head s" "arrays_ok s'"
      using set_out_head_spec [OF p, of "nxt_src s c"] ok by blast
    have "outs_ok s' (outs((x, i) := ys))"
      using outs list Nil s' nxt_conns [OF s'(2)] by (auto simp: outs_ok_def port_list_def)
    with s' walk Nil rem nxt_conns [OF s'(2)] show ?thesis by auto
  next
    case (snoc zs z)
    obtain s' where s': "set_next_src z (nxt_src s c) s = Some s'" "contexts s' = contexts s" "same_core s s'"
        "nxt_src s' = (nxt_src s)(z := nxt_src s c)" "nxt_dst s' = nxt_dst s"
      using set_next_src_spec [of s z "nxt_src s c"] conns [of z] snoc split by auto
    have "linked_list (nxt_src s') p (zs @ z # ys)"
      using linked_list_bypass [of "nxt_src s" p zs z c ys] list snoc s' by simp
    moreover have "port_list (nxt_src s') (out_head s y j) (outs (y, j))" if "(y, j) \<noteq> (x, i)" for y j
    proof -
      have "z \<notin> set (outs (y, j))" using disj [OF that] split snoc by auto
      with outs [unfolded outs_ok_def, rule_format, of y j] s' show ?thesis
        by (simp add: port_list_def split: option.splits)
    qed
    ultimately have "outs_ok s' (outs((x, i) := xs @ ys))"
      using p heads_contexts [OF s'(2)] snoc by (simp add: outs_ok_def port_list_def)
    with s' walk snoc rem heads_contexts [OF s'(2)] ok show ?thesis by auto
  qed
qed

lemma unlink_dst_spec:
  assumes ins: "ins_ok s ins" and p: "in_head s x i = Some p" and c: "c \<in> set (ins (x, i))"
    and disj: "\<And>y j. (y, j) \<noteq> (x, i) \<Longrightarrow> set (ins (y, j)) \<inter> set (ins (x, i)) = {}"
    and conns: "\<And>z. z \<in> set (ins (x, i)) \<Longrightarrow> conns s z \<noteq> None" and ok: "arrays_ok s"
  shows "\<exists>s'. unlink_dst x i c None p s = Some s' \<and> same_core s s' \<and> arrays_ok s'
            \<and> ins_ok s' (ins((x, i) := remove1 c (ins (x, i)))) \<and> out_head s' = out_head s \<and> nxt_src s' = nxt_src s"
proof -
  obtain xs ys where split: "ins (x, i) = xs @ c # ys" using split_list [OF c] by blast
  have list: "linked_list (nxt_dst s) p (xs @ c # ys)"
    using ins [unfolded ins_ok_def, rule_format, of x i] p split by (simp add: port_list_def)
  have dist: "distinct (xs @ c # ys)" using linked_list_distinct [OF list] .
  have rem: "remove1 c (ins (x, i)) = xs @ ys" using dist split by (simp add: remove1_append)
  have walk: "unlink_dst x i c None p s =
      (case (if xs = [] then None else Some (last xs)) of
         None \<Rightarrow> set_in_head x i (nxt_dst s c) s | Some z \<Rightarrow> set_next_dst z (nxt_dst s c) s)"
    using list conns split by (intro unlink_dst_walk) auto
  show ?thesis
  proof (cases xs rule: rev_cases)
    case Nil
    obtain s' where s': "set_in_head x i (nxt_dst s c) s = Some s'" "conns s' = conns s" "same_core s s'"
        "\<And>y j. in_head s' y j = (if y = x \<and> j = i then Some (nxt_dst s c) else in_head s y j)"
        "out_head s' = out_head s" "arrays_ok s'"
      using set_in_head_spec [OF p, of "nxt_dst s c"] ok by blast
    have "ins_ok s' (ins((x, i) := ys))"
      using ins list Nil s' nxt_conns [OF s'(2)] by (auto simp: ins_ok_def port_list_def)
    with s' walk Nil rem nxt_conns [OF s'(2)] show ?thesis by auto
  next
    case (snoc zs z)
    obtain s' where s': "set_next_dst z (nxt_dst s c) s = Some s'" "contexts s' = contexts s" "same_core s s'"
        "nxt_dst s' = (nxt_dst s)(z := nxt_dst s c)" "nxt_src s' = nxt_src s"
      using set_next_dst_spec [of s z "nxt_dst s c"] conns [of z] snoc split by auto
    have "linked_list (nxt_dst s') p (zs @ z # ys)"
      using linked_list_bypass [of "nxt_dst s" p zs z c ys] list snoc s' by simp
    moreover have "port_list (nxt_dst s') (in_head s y j) (ins (y, j))" if "(y, j) \<noteq> (x, i)" for y j
    proof -
      have "z \<notin> set (ins (y, j))" using disj [OF that] split snoc by auto
      with ins [unfolded ins_ok_def, rule_format, of y j] s' show ?thesis
        by (simp add: port_list_def split: option.splits)
    qed
    ultimately have "ins_ok s' (ins((x, i) := xs @ ys))"
      using p heads_contexts [OF s'(2)] snoc by (simp add: ins_ok_def port_list_def)
    with s' walk snoc rem heads_contexts [OF s'(2)] ok show ?thesis by auto
  qed
qed



subsection \<open>Every operation keeps the graph\<close>

lemma port_list_head: "port_list nxt h (c # cs) \<Longrightarrow> h = Some (Some c)"
  by (auto simp: port_list_def split: option.splits)

lemma port_head:
  "outs_ok s outs \<Longrightarrow> c \<in> set (outs (x, i)) \<Longrightarrow> \<exists>p. out_head s x i = Some p"
  "ins_ok s ins \<Longrightarrow> c \<in> set (ins (x, i)) \<Longrightarrow> \<exists>p. in_head s x i = Some p"
  by (fastforce simp: outs_ok_def ins_ok_def port_list_def dest: spec [where x = x] split: option.splits)+

lemma ports_distinct:
  assumes "outs_ok s outs" "ins_ok s ins"
  shows "distinct (outs p) \<and> distinct (ins p)"
proof (cases p)
  case (Pair x i)
  have "port_list (nxt_src s) (out_head s x i) (outs (x, i))" "port_list (nxt_dst s) (in_head s x i) (ins (x, i))"
    using assms by (auto simp: outs_ok_def ins_ok_def)
  with Pair show ?thesis by (auto simp: port_list_def linked_list_distinct split: option.splits)
qed

lemma outs_ok_same: "out_head s' = out_head s \<Longrightarrow> nxt_src s' = nxt_src s \<Longrightarrow> outs_ok s' outs = outs_ok s outs"
  by (simp add: outs_ok_def)

lemma ins_ok_same: "in_head s' = in_head s \<Longrightarrow> nxt_dst s' = nxt_dst s \<Longrightarrow> ins_ok s' ins = ins_ok s ins"
  by (simp add: ins_ok_def)

lemma ends_ok_remove:
  assumes ok: "ends_ok e outs ins" and e: "e c = Some (x, i, y, j)"
    and dist: "distinct (outs (x, i))" "distinct (ins (y, j))"
  shows "ends_ok e (outs((x, i) := remove1 c (outs (x, i)))) (ins((y, j) := remove1 c (ins (y, j))))"
proof -
  let ?outs = "outs((x, i) := remove1 c (outs (x, i)))" and ?ins = "ins((y, j) := remove1 c (ins (y, j)))"
  from e have port: "from_port e p c \<longleftrightarrow> p = (x, i)" "to_port e p c \<longleftrightarrow> p = (y, j)" for p
    by (auto simp: from_port_def to_port_def)
  have o: "set (outs p) = {c \<in> live_conns outs. from_port e p c}" and n: "set (ins p) = {c \<in> live_conns outs. to_port e p c}" for p
    using ok unfolding ends_ok_def by blast+
  have outs': "set (?outs p) = set (outs p) - {c}" and ins': "set (?ins p) = set (ins p) - {c}" for p
    using dist port by (auto simp: o n)
  then have live': "live_conns ?outs = live_conns outs - {c}" by (simp only: live_conns_def) blast
  from ok have "inj_on e (live_conns outs - {c})" by (simp add: ends_ok_def inj_on_diff)
  then show ?thesis unfolding ends_ok_def live' outs' ins' by (auto simp: o n)
qed

text \<open>The graph without some connections.\<close>

definition drop_conns :: "cid set \<Rightarrow> ports \<Rightarrow> ports" where
  "drop_conns C ps = (\<lambda>p. filter (\<lambda>c. c \<notin> C) (ps p))"

lemma drop_conns_apply [simp]: "drop_conns C ps p = filter (\<lambda>c. c \<notin> C) (ps p)"
  by (simp add: drop_conns_def)

lemma set_drop_conns: "set (drop_conns C ps p) = set (ps p) - C"
  by auto

lemma drop_conns_Un: "drop_conns C (drop_conns D ps) = drop_conns (D \<union> C) ps"
  by (auto simp: drop_conns_def fun_eq_iff intro: filter_cong)

lemma drop_conns_empty [simp]: "drop_conns {} ps = ps"
  by (simp add: drop_conns_def)

lemma remove1_filter: "distinct xs \<Longrightarrow> remove1 c xs = filter (\<lambda>x. x \<notin> {c}) xs"
  by (simp add: distinct_remove1_removeAll removeAll_filter_not_eq) (auto intro: filter_cong)

lemma update_drop:
  assumes "distinct (ps p)" "\<And>q. q \<noteq> p \<Longrightarrow> c \<notin> set (ps q)"
  shows "ps(p := remove1 c (ps p)) = drop_conns {c} ps"
proof
  fix q
  show "(ps(p := remove1 c (ps p))) q = drop_conns {c} ps q"
    using assms(1) assms(2) [of q] by (cases "q = p") (auto simp: remove1_filter intro!: filter_True [symmetric])
qed

lemma connection_delete_spec:
  assumes l: "linked s outs ins" and c: "c \<in> set (outs (x, i))"
  shows "\<exists>s'. fts_connection_delete c s = Some s' \<and> same_core s s'
              \<and> linked s' (drop_conns {c} outs) (drop_conns {c} ins)"
proof -
  from l have ok: "arrays_ok s" "outs_ok s outs" "ins_ok s ins" "ends_ok (ends s) outs ins"
    by (auto simp: linked_def)
  obtain y j where e: "ends s c = Some (x, i, y, j)" and ci: "c \<in> set (ins (y, j))"
    using ends_okD(1) [OF ok(4) c] by blast
  then obtain k where k: "conns s c = Some k" "c_src k = x" "c_woutlet k = i" "c_dst k = y" "c_winlet k = j"
    by (auto simp: ends_def)
  obtain p where p: "out_head s x i = Some p" using port_head(1) [OF ok(2) c] by blast
  obtain s1 where s1: "unlink_src x i c None p s = Some s1" "same_core s s1" "arrays_ok s1"
      "outs_ok s1 (outs((x, i) := remove1 c (outs (x, i))))" "in_head s1 = in_head s" "nxt_dst s1 = nxt_dst s"
    using unlink_src_spec [OF ok(2) p c ends_ok_disjoint(1) [OF ok(4)] _ ok(1)] outs_conns [OF ok(4)] by blast
  have ins1: "ins_ok s1 ins" using ins_ok_same [OF s1(5,6)] ok(3) by simp
  obtain q where q: "in_head s1 y j = Some q" using port_head(2) [OF ins1 ci] by blast
  have conns1: "conns s1 z \<noteq> None" if "z \<in> set (ins (y, j))" for z
    using ins_conns [OF ok(4) that] same_core_None [OF s1(2)] by auto
  obtain s2 where s2: "unlink_dst y j c None q s1 = Some s2" "same_core s1 s2" "arrays_ok s2"
      "ins_ok s2 (ins((y, j) := remove1 c (ins (y, j))))" "out_head s2 = out_head s1" "nxt_src s2 = nxt_src s1"
    using unlink_dst_spec [OF ins1 q ci ends_ok_disjoint(2) [OF ok(4)] conns1 s1(3)] by blast
  have core: "same_core s s2" using same_core_trans [OF s1(2) s2(2)] .
  have "ends_ok (ends s2) (outs((x, i) := remove1 c (outs (x, i)))) (ins((y, j) := remove1 c (ins (y, j))))"
    using ends_ok_remove [OF ok(4) e] ports_distinct [OF ok(2,3)] same_core_ends [OF core] by simp
  moreover have "\<forall>c \<ge> next_conn s2. conns s2 c = None"
    using l core same_core_None [OF core] by (simp add: linked_def same_core_def)
  moreover have "outs((x, i) := remove1 c (outs (x, i))) = drop_conns {c} outs"
    using ends_ok_disjoint(1) [OF ok(4), of _ _ x i] c ports_distinct [OF ok(2,3)] by (intro update_drop) auto
  moreover have "ins((y, j) := remove1 c (ins (y, j))) = drop_conns {c} ins"
    using ends_ok_disjoint(2) [OF ok(4), of _ _ y j] ci ports_distinct [OF ok(2,3)] by (intro update_drop) auto
  ultimately have "linked s2 (drop_conns {c} outs) (drop_conns {c} ins)"
    using s1(4) s2 outs_ok_same [OF s2(5,6)] by (simp add: linked_def)
  moreover have "fts_connection_delete c s = Some s2"
    using k p s1(1) q s2(1) by (simp add: fts_connection_delete_def)
  ultimately show ?thesis using core by blast
qed


lemma live_ins: "ends_ok e outs ins \<Longrightarrow> c \<in> set (ins (y, j)) \<Longrightarrow> \<exists>x i. c \<in> set (outs (x, i))"
  by (blast dest: ends_okD)

lemma linked_parts:
  assumes "linked s outs ins"
  shows "arrays_ok s" "outs_ok s outs" "ins_ok s ins" "ends_ok (ends s) outs ins"
  using assms by (simp_all add: linked_def)

text \<open>The loops that delete the first connection until there is none left.\<close>

lemma outs_head_Nil: "outs_ok s outs \<Longrightarrow> out_head s x i = Some h \<Longrightarrow> outs (x, i) = [] \<Longrightarrow> h = None"
  by (fastforce simp: outs_ok_def port_list_def dest: spec [where x = x] spec [where x = i])

lemma ins_head_Nil: "ins_ok s ins \<Longrightarrow> in_head s x i = Some h \<Longrightarrow> ins (x, i) = [] \<Longrightarrow> h = None"
  by (fastforce simp: ins_ok_def port_list_def dest: spec [where x = x] spec [where x = i])

lemma outs_head_Cons: "outs_ok s outs \<Longrightarrow> outs (x, i) = c # cs \<Longrightarrow> out_head s x i = Some (Some c)"
  using port_list_head unfolding outs_ok_def by metis

lemma ins_head_Cons: "ins_ok s ins \<Longrightarrow> ins (x, i) = c # cs \<Longrightarrow> in_head s x i = Some (Some c)"
  using port_list_head unfolding ins_ok_def by metis

text \<open>Head cells exist where the object has the port, whatever the links.\<close>

lemma out_head_range:
  "arrays_ok s \<Longrightarrow> out_head s x i \<noteq> None \<longleftrightarrow> 0 \<le> i \<and> i < fts_object_get_outlets_number x s"
  by (auto simp: arrays_ok_def out_head_def fts_object_get_outlets_number_def split: option.splits)

lemma in_head_range:
  "arrays_ok s \<Longrightarrow> in_head s x i \<noteq> None \<longleftrightarrow> 0 \<le> i \<and> i < fts_object_get_inlets_number x s"
  by (auto simp: arrays_ok_def in_head_def fts_object_get_inlets_number_def split: option.splits)

lemma filter_drop_Cons: "distinct (c # cs) \<Longrightarrow> filter (\<lambda>x. x \<notin> {c}) (c # cs) = cs"
  by (auto intro!: filter_True)

lemma remove_outlet_spec:
  assumes "linked s outs ins" "0 \<le> i" "i < fts_object_get_outlets_number x s"
  shows "\<exists>s'. remove_outlet x i s = Some s' \<and> same_core s s'
              \<and> linked s' (drop_conns (set (outs (x, i))) outs) (drop_conns (set (outs (x, i))) ins)"
  using assms
proof (induction "outs (x, i)" arbitrary: s outs ins)
  case Nil
  then obtain h where "out_head s x i = Some h" using out_head_range [OF linked_parts(1) [OF Nil.prems(1)], of x i] by auto
  with outs_head_Nil [OF linked_parts(2) [OF Nil.prems(1)] this] Nil show ?case
    by (subst remove_outlet.simps) (auto simp: Nil.hyps [symmetric])
next
  case (Cons c cs)
  note l = linked_parts [OF Cons.prems(1)]
  from Cons(2) have c: "c \<in> set (outs (x, i))" by (metis list.set_intros(1))
  obtain s1 where s1: "fts_connection_delete c s = Some s1" "same_core s s1"
      "linked s1 (drop_conns {c} outs) (drop_conns {c} ins)"
    using connection_delete_spec [OF Cons.prems(1) c] by blast
  have cs: "cs = drop_conns {c} outs (x, i)"
    using ports_distinct [OF l(2,3), of "(x, i)"] filter_drop_Cons [of c cs] by (simp add: Cons(2) [symmetric])
  obtain s2 where s2: "remove_outlet x i s1 = Some s2" "same_core s1 s2"
      "linked s2 (drop_conns (set cs) (drop_conns {c} outs)) (drop_conns (set cs) (drop_conns {c} ins))"
    using Cons(1) [OF cs s1(3)] Cons.prems same_core_numbers [OF s1(2)] cs by auto
  have "set (outs (x, i)) = insert c (set cs)" by (simp add: Cons(2) [symmetric])
  with s1 s2 outs_head_Cons [OF l(2) Cons(2) [symmetric]] same_core_trans [OF s1(2) s2(2)] show ?case
    by (subst remove_outlet.simps) (simp add: drop_conns_Un)
qed

lemma remove_inlet_spec:
  assumes "linked s outs ins" "0 \<le> i" "i < fts_object_get_inlets_number x s"
  shows "\<exists>s'. remove_inlet x i s = Some s' \<and> same_core s s'
              \<and> linked s' (drop_conns (set (ins (x, i))) outs) (drop_conns (set (ins (x, i))) ins)"
  using assms
proof (induction "ins (x, i)" arbitrary: s outs ins)
  case Nil
  then obtain h where "in_head s x i = Some h" using in_head_range [OF linked_parts(1) [OF Nil.prems(1)], of x i] by auto
  with ins_head_Nil [OF linked_parts(3) [OF Nil.prems(1)] this] Nil show ?case
    by (subst remove_inlet.simps) (auto simp: Nil.hyps [symmetric])
next
  case (Cons c cs)
  note l = linked_parts [OF Cons.prems(1)]
  from Cons(2) have c: "c \<in> set (ins (x, i))" by (metis list.set_intros(1))
  obtain s1 where s1: "fts_connection_delete c s = Some s1" "same_core s s1"
      "linked s1 (drop_conns {c} outs) (drop_conns {c} ins)"
    using connection_delete_spec [OF Cons.prems(1)] live_ins [OF l(4) c] by blast
  have cs: "cs = drop_conns {c} ins (x, i)"
    using ports_distinct [OF l(2,3), of "(x, i)"] filter_drop_Cons [of c cs] by (simp add: Cons(2) [symmetric])
  obtain s2 where s2: "remove_inlet x i s1 = Some s2" "same_core s1 s2"
      "linked s2 (drop_conns (set cs) (drop_conns {c} outs)) (drop_conns (set cs) (drop_conns {c} ins))"
    using Cons(1) [OF cs s1(3)] Cons.prems same_core_numbers [OF s1(2)] cs by auto
  have "set (ins (x, i)) = insert c (set cs)" by (simp add: Cons(2) [symmetric])
  with s1 s2 ins_head_Cons [OF l(3) Cons(2) [symmetric]] same_core_trans [OF s1(2) s2(2)] show ?case
    by (subst remove_inlet.simps) (simp add: drop_conns_Un)
qed


text \<open>The trimming loops also clear the head, which is \<open>NULL\<close> by then.\<close>

lemma set_out_head_same: "out_head s x i = Some p \<Longrightarrow> set_out_head x i p s = Some s"
  by (auto simp: out_head_def set_out_head_def fun_upd_idem split: option.splits if_splits)

lemma set_in_head_same: "in_head s x i = Some p \<Longrightarrow> set_in_head x i p s = Some s"
  by (auto simp: in_head_def set_in_head_def fun_upd_idem split: option.splits if_splits)

lemma trim_outlet_spec:
  assumes "linked s outs ins" "0 \<le> i" "i < fts_object_get_outlets_number x s"
  shows "\<exists>s'. trim_outlet x i s = Some s' \<and> same_core s s'
              \<and> linked s' (drop_conns (set (outs (x, i))) outs) (drop_conns (set (outs (x, i))) ins)"
proof -
  obtain s' where s': "remove_outlet x i s = Some s'" "same_core s s'"
      "linked s' (drop_conns (set (outs (x, i))) outs) (drop_conns (set (outs (x, i))) ins)"
    using remove_outlet_spec [OF assms] by blast
  note l = linked_parts [OF s'(3)]
  have "out_head s' x i \<noteq> None"
    using out_head_range [OF l(1), of x i] assms same_core_numbers [OF s'(2)] by simp
  then have "out_head s' x i = Some None" using outs_head_Nil [OF l(2), of x i] by auto
  with s' show ?thesis by (simp add: trim_outlet_def set_out_head_same)
qed

lemma trim_inlet_spec:
  assumes "linked s outs ins" "0 \<le> i" "i < fts_object_get_inlets_number x s"
  shows "\<exists>s'. trim_inlet x i s = Some s' \<and> same_core s s'
              \<and> linked s' (drop_conns (set (ins (x, i))) outs) (drop_conns (set (ins (x, i))) ins)"
proof -
  obtain s' where s': "remove_inlet x i s = Some s'" "same_core s s'"
      "linked s' (drop_conns (set (ins (x, i))) outs) (drop_conns (set (ins (x, i))) ins)"
    using remove_inlet_spec [OF assms] by blast
  note l = linked_parts [OF s'(3)]
  have "in_head s' x i \<noteq> None"
    using in_head_range [OF l(1), of x i] assms same_core_numbers [OF s'(2)] by simp
  then have "in_head s' x i = Some None" using ins_head_Nil [OF l(3), of x i] by auto
  with s' show ?thesis by (simp add: trim_inlet_def set_in_head_same)
qed

text \<open>The same operation over a range of ports.\<close>

lemma for_ports_spec:
  assumes step: "\<And>i s outs ins. linked s outs ins \<Longrightarrow> same_core s0 s \<Longrightarrow> i \<in> set is \<Longrightarrow>
      \<exists>s'. f i s = Some s' \<and> same_core s s' \<and> linked s' (drop_conns (D i outs ins) outs) (drop_conns (D i outs ins) ins)"
    and D: "\<And>i C outs ins. D i (drop_conns C outs) (drop_conns C ins) = D i outs ins - C"
    and "linked s outs ins" "same_core s0 s"
  shows "\<exists>s'. for_ports f is s = Some s' \<and> same_core s s'
     \<and> linked s' (drop_conns (\<Union>i \<in> set is. D i outs ins) outs) (drop_conns (\<Union>i \<in> set is. D i outs ins) ins)"
  using assms(1,3,4)
proof (induction "is" arbitrary: s outs ins)
  case Nil
  then show ?case by simp
next
  case (Cons i "is")
  obtain s1 where s1: "f i s = Some s1" "same_core s s1"
      "linked s1 (drop_conns (D i outs ins) outs) (drop_conns (D i outs ins) ins)"
    using Cons.prems by fastforce
  have core1: "same_core s0 s1" using same_core_trans [OF Cons.prems(3) s1(2)] .
  obtain s2 where s2: "for_ports f is s1 = Some s2" "same_core s1 s2"
      "linked s2 (drop_conns (\<Union>j \<in> set is. D j outs ins - D i outs ins) (drop_conns (D i outs ins) outs))
                 (drop_conns (\<Union>j \<in> set is. D j outs ins - D i outs ins) (drop_conns (D i outs ins) ins))"
    using Cons.IH [OF _ s1(3) core1] Cons.prems(1) unfolding D by (meson list.set_intros(2))
  have "D i outs ins \<union> (\<Union>j \<in> set is. D j outs ins - D i outs ins) = (\<Union>j \<in> set (i # is). D j outs ins)"
    by auto
  with s1 s2 same_core_trans [OF s1(2) s2(2)] show ?case
    unfolding for_ports.simps by (simp only: drop_conns_Un bind.simps) blast
qed

lemma port_Nil_outlet:
  assumes "linked s outs ins" "i \<ge> fts_object_get_outlets_number x s"
  shows "outs (x, i) = []"
proof -
  have "out_head s x i = None" using out_head_range [OF linked_parts(1) [OF assms(1)], of x i] assms(2) by auto
  moreover have "port_list (nxt_src s) (out_head s x i) (outs (x, i))"
    using linked_parts(2) [OF assms(1)] by (simp add: outs_ok_def)
  ultimately show ?thesis by (simp add: port_list_def)
qed

lemma port_Nil_inlet:
  assumes "linked s outs ins" "i \<ge> fts_object_get_inlets_number x s"
  shows "ins (x, i) = []"
proof -
  have "in_head s x i = None" using in_head_range [OF linked_parts(1) [OF assms(1)], of x i] assms(2) by auto
  moreover have "port_list (nxt_dst s) (in_head s x i) (ins (x, i))"
    using linked_parts(3) [OF assms(1)] by (simp add: ins_ok_def)
  ultimately show ?thesis by (simp add: port_list_def)
qed

lemma trim_outlets_spec:
  fixes x :: obj
  assumes "linked s outs ins" "0 \<le> n"
  defines "C \<equiv> \<Union>i \<in> {n..}. set (outs (x, i))"
  shows "\<exists>s'. fts_object_trim_outlets_connections x n s = Some s' \<and> same_core s s'
              \<and> linked s' (drop_conns C outs) (drop_conns C ins)"
proof -
  let ?is = "[n..fts_object_get_outlets_number x s - 1]"
  have C: "C = (\<Union>i \<in> set ?is. set (outs (x, i)))"
    unfolding C_def using port_Nil_outlet [OF assms(1), where x = x] by (fastforce simp: not_less [symmetric])
  have "\<exists>s'. for_ports (trim_outlet x) ?is s = Some s' \<and> same_core s s'
     \<and> linked s' (drop_conns (\<Union>i \<in> set ?is. set (outs (x, i))) outs) (drop_conns (\<Union>i \<in> set ?is. set (outs (x, i))) ins)"
  proof (rule for_ports_spec [where D = "\<lambda>i outs ins. set (outs (x, i))" and ?s0.0 = s])
    fix i s1 outs ins
    assume "linked s1 outs ins" "same_core s s1" "i \<in> set ?is"
    then show "\<exists>s'. trim_outlet x i s1 = Some s' \<and> same_core s1 s'
        \<and> linked s' (drop_conns (set (outs (x, i))) outs) (drop_conns (set (outs (x, i))) ins)"
      using same_core_numbers [of s s1 x] assms(2) by (intro trim_outlet_spec) auto
  qed (use assms(1) in auto)
  then show ?thesis unfolding C fts_object_trim_outlets_connections_def .
qed

lemma trim_inlets_spec:
  fixes x :: obj
  assumes "linked s outs ins" "0 \<le> n"
  defines "C \<equiv> \<Union>i \<in> {n..}. set (ins (x, i))"
  shows "\<exists>s'. fts_object_trim_inlets_connections x n s = Some s' \<and> same_core s s'
              \<and> linked s' (drop_conns C outs) (drop_conns C ins)"
proof -
  let ?is = "[n..fts_object_get_inlets_number x s - 1]"
  have C: "C = (\<Union>i \<in> set ?is. set (ins (x, i)))"
    unfolding C_def using port_Nil_inlet [OF assms(1), where x = x] by (fastforce simp: not_less [symmetric])
  have "\<exists>s'. for_ports (trim_inlet x) ?is s = Some s' \<and> same_core s s'
     \<and> linked s' (drop_conns (\<Union>i \<in> set ?is. set (ins (x, i))) outs) (drop_conns (\<Union>i \<in> set ?is. set (ins (x, i))) ins)"
  proof (rule for_ports_spec [where D = "\<lambda>i outs ins. set (ins (x, i))" and ?s0.0 = s])
    fix i s1 outs ins
    assume "linked s1 outs ins" "same_core s s1" "i \<in> set ?is"
    then show "\<exists>s'. trim_inlet x i s1 = Some s' \<and> same_core s1 s'
        \<and> linked s' (drop_conns (set (ins (x, i))) outs) (drop_conns (set (ins (x, i))) ins)"
      using same_core_numbers [of s s1 x] assms(2) by (intro trim_inlet_spec) auto
  qed (use assms(1) in auto)
  then show ?thesis unfolding C fts_object_trim_inlets_connections_def .
qed

lemma nth_realloc_heads:
  "0 \<le> i \<Longrightarrow> 0 \<le> n \<Longrightarrow> nat i < length (realloc_heads n hs) \<longleftrightarrow> i < n"
  "nat i < length (realloc_heads n hs) \<Longrightarrow>
   realloc_heads n hs ! nat i = (if nat i < length hs then hs ! nat i else None)"
  by (auto simp: realloc_heads_def nth_append min_def)

lemma resize_outlets:
  assumes l: "linked s outs ins" and d: "contexts s x = Some d" and n: "0 \<le> n"
    and cut: "\<And>i. i \<ge> n \<Longrightarrow> outs (x, i) = []"
  shows "linked (s\<lparr>contexts := (contexts s)(x \<mapsto> d\<lparr>out_conn := realloc_heads n (out_conn d), n_outlets := n\<rparr>)\<rparr>) outs ins"
    (is "linked ?s _ _")
proof -
  note p = linked_parts [OF l]
  have len: "length (out_conn d) = nat (n_outlets d)" "0 \<le> n_outlets d"
    using p(1) d by (auto simp: arrays_ok_def)
  have "arrays_ok ?s"
    using p(1) d n by (auto simp: arrays_ok_def realloc_heads_def)
  moreover have "outs_ok ?s outs"
    unfolding outs_ok_def
  proof (intro allI)
    fix y j
    have old: "port_list (nxt_src s) (out_head s y j) (outs (y, j))" using p(2) by (simp add: outs_ok_def)
    have nxt: "nxt_src ?s = nxt_src s" by (simp add: nxt_src_def fun_eq_iff)
    show "port_list (nxt_src ?s) (out_head ?s y j) (outs (y, j))"
    proof (cases "y = x")
      case False
      with old nxt show ?thesis by (simp add: out_head_def)
    next
      case True
      have "outs (x, j) = []" if "j \<ge> n_outlets d"
        using port_Nil_outlet [OF l, of x j] that d by (simp add: fts_object_get_outlets_number_def)
      then show ?thesis
        using old nxt True d n len cut [of j] nth_realloc_heads [of j n "out_conn d"]
        by (cases "j < n_outlets d"; cases "j < n") (auto simp: out_head_def port_list_def split: if_splits)
    qed
  qed
  moreover have "ins_ok ?s ins"
    using p(3) d ins_ok_same [of ?s s ins] by (simp add: in_head_def nxt_dst_def fun_eq_iff)
  moreover have "ends ?s = ends s" by (simp add: ends_def fun_eq_iff)
  ultimately show ?thesis using l by (simp add: linked_def)
qed

lemma resize_inlets:
  assumes l: "linked s outs ins" and d: "contexts s x = Some d" and n: "0 \<le> n"
    and cut: "\<And>i. i \<ge> n \<Longrightarrow> ins (x, i) = []"
  shows "linked (s\<lparr>contexts := (contexts s)(x \<mapsto> d\<lparr>in_conn := realloc_heads n (in_conn d), n_inlets := n\<rparr>)\<rparr>) outs ins"
    (is "linked ?s _ _")
proof -
  note p = linked_parts [OF l]
  have len: "length (in_conn d) = nat (n_inlets d)" "0 \<le> n_inlets d"
    using p(1) d by (auto simp: arrays_ok_def)
  have "arrays_ok ?s"
    using p(1) d n by (auto simp: arrays_ok_def realloc_heads_def)
  moreover have "ins_ok ?s ins"
    unfolding ins_ok_def
  proof (intro allI)
    fix y j
    have old: "port_list (nxt_dst s) (in_head s y j) (ins (y, j))" using p(3) by (simp add: ins_ok_def)
    have nxt: "nxt_dst ?s = nxt_dst s" by (simp add: nxt_dst_def fun_eq_iff)
    show "port_list (nxt_dst ?s) (in_head ?s y j) (ins (y, j))"
    proof (cases "y = x")
      case False
      with old nxt show ?thesis by (simp add: in_head_def)
    next
      case True
      have "ins (x, j) = []" if "j \<ge> n_inlets d"
        using port_Nil_inlet [OF l, of x j] that d by (simp add: fts_object_get_inlets_number_def)
      then show ?thesis
        using old nxt True d n len cut [of j] nth_realloc_heads [of j n "in_conn d"]
        by (cases "j < n_inlets d"; cases "j < n") (auto simp: in_head_def port_list_def split: if_splits)
    qed
  qed
  moreover have "outs_ok ?s outs"
    using p(2) d outs_ok_same [of ?s s outs] by (simp add: out_head_def nxt_src_def fun_eq_iff)
  moreover have "ends ?s = ends s" by (simp add: ends_def fun_eq_iff)
  ultimately show ?thesis using l by (simp add: linked_def)
qed

text \<open>What is linked from the new patcher data of an object: nothing.\<close>

definition world_ok :: "patch_world \<Rightarrow> bool" where
  "world_ok W \<longleftrightarrow> (\<forall>a. \<exists>S. class_abs (w_classes W a) S)"

lemma world_class: "world_ok W \<Longrightarrow> \<exists>S. class_abs (object_class W x) S"
  by (simp add: world_ok_def object_class_def)

lemma world_numbers: "world_ok W \<Longrightarrow> 0 \<le> cl_ninlets (object_class W x) \<and> 0 \<le> cl_noutlets (object_class W x)"
  using world_class [of W x] by (auto simp: class_abs_def outlets_abs_def)

lemma get_patcher_data_conns [simp]:
  "conns (fts_object_get_patcher_data W x s) = conns s"
  "next_conn (fts_object_get_patcher_data W x s) = next_conn s"
  "contexts (fts_object_get_patcher_data W x s) x \<noteq> None"
  by (simp_all add: fts_object_get_patcher_data_def Let_def split: option.split)

lemma get_patcher_data_linked:
  assumes l: "linked s outs ins" and W: "world_ok W"
  shows "linked (fts_object_get_patcher_data W x s) outs ins"
proof (cases "contexts s x")
  case (Some d)
  with l show ?thesis by (simp add: fts_object_get_patcher_data_def)
next
  case None
  note p = linked_parts [OF l]
  let ?s = "fts_object_get_patcher_data W x s"
  have Nil: "outs (x, i) = []" "ins (x, i) = []" for i
    using p None by (force simp: outs_ok_def out_head_def ins_ok_def in_head_def port_list_def dest: spec [where x = x])+
  have heads: "out_head ?s y j = (if y = x \<and> 0 \<le> j \<and> j < cl_noutlets (object_class W x) then Some None else out_head s y j)"
    "in_head ?s y j = (if y = x \<and> 0 \<le> j \<and> j < cl_ninlets (object_class W x) then Some None else in_head s y j)" for y j
    using None world_numbers [OF W, of x]
    by (auto simp: fts_object_get_patcher_data_def Let_def out_head_def in_head_def)
  have nxt: "nxt_src ?s = nxt_src s" "nxt_dst ?s = nxt_dst s" "ends ?s = ends s"
    by (simp_all add: nxt_src_def nxt_dst_def ends_def fun_eq_iff)
  have "arrays_ok ?s"
    using p(1) None world_numbers [OF W, of x]
    by (auto simp: arrays_ok_def fts_object_get_patcher_data_def Let_def)
  moreover have "outs_ok ?s outs" "ins_ok ?s ins"
    using p(2,3) Nil by (auto simp: outs_ok_def ins_ok_def heads nxt port_list_def)
  ultimately show ?thesis using l nxt by (simp add: linked_def)
qed

lemma set_outlets_number_spec:
  fixes x :: obj
  assumes l: "linked s outs ins" and W: "world_ok W" and n: "0 \<le> n"
  defines "C \<equiv> \<Union>i \<in> {n..}. set (outs (x, i))"
  shows "\<exists>s'. fts_object_set_outlets_number W x n s = Some s' \<and> linked s' (drop_conns C outs) (drop_conns C ins)
              \<and> conn_core s' = conn_core s \<and> next_conn s' = next_conn s
              \<and> ports_of s' = (ports_of (fts_object_get_patcher_data W x s))
                    (x := map_option (\<lambda>(i, _). (i, n)) (ports_of (fts_object_get_patcher_data W x s) x))"
proof -
  let ?u = "fts_object_get_patcher_data W x s"
  note l0 = get_patcher_data_linked [OF l W, of x]
  have core0: "conn_core ?u = conn_core s" by (simp add: conn_core_def fun_eq_iff)
  obtain s1 where s1: "fts_object_trim_outlets_connections x n ?u = Some s1" "same_core ?u s1"
      "linked s1 (drop_conns C outs) (drop_conns C ins)"
    using trim_outlets_spec [OF l0 n, of x] unfolding C_def by blast
  show ?thesis
  proof (cases "fts_object_get_outlets_number x ?u = n")
    case True
    have "C = {}" using port_Nil_outlet [OF l0, where x = x] True by (auto simp: C_def)
    moreover have "ports_of ?u = (ports_of ?u)(x := map_option (\<lambda>(i, _). (i, n)) (ports_of ?u x))"
      using True by (auto simp: numbers_ports fun_eq_iff split: option.splits)
    moreover have "fts_object_set_outlets_number W x n s = Some ?u"
      using True by (simp add: fts_object_set_outlets_number_def)
    moreover have "linked ?u (drop_conns C outs) (drop_conns C ins)" using l0 \<open>C = {}\<close> by simp
    ultimately show ?thesis using core0 get_patcher_data_conns(2) [of W x s] by (intro exI [of _ ?u] conjI)
  next
    case False
    have "ctx_core s1 x \<noteq> None" using s1(2) by (simp add: same_core_def ctx_core_def)
    then obtain d where d: "contexts s1 x = Some d" by (auto simp: ctx_core_def)
    let ?s = "s1\<lparr>contexts := (contexts s1)(x \<mapsto> d\<lparr>out_conn := realloc_heads n (out_conn d), n_outlets := n\<rparr>)\<rparr>"
    have "linked ?s (drop_conns C outs) (drop_conns C ins)"
      using s1(3) d n by (rule resize_outlets) (auto simp: C_def filter_empty_conv)
    moreover have "conn_core ?s = conn_core s" "next_conn ?s = next_conn s"
      using s1(2) core0 by (auto simp: same_core_def conn_core_def fun_eq_iff)
    moreover have ports: "ports_of ?s = (ports_of ?u)(x := map_option (\<lambda>(i, _). (i, n)) (ports_of ?u x))"
      unfolding same_core_ports [OF s1(2), symmetric] using d by (simp add: ports_of_def fun_eq_iff)
    moreover have "fts_object_set_outlets_number W x n s = Some ?s"
      using False s1(1) d by (simp add: fts_object_set_outlets_number_def)
    ultimately show ?thesis by (intro exI [of _ ?s] conjI)
  qed
qed

lemma set_inlets_number_spec:
  fixes x :: obj
  assumes l: "linked s outs ins" and W: "world_ok W" and n: "0 \<le> n"
  defines "C \<equiv> \<Union>i \<in> {n..}. set (ins (x, i))"
  shows "\<exists>s'. fts_object_set_inlets_number W x n s = Some s' \<and> linked s' (drop_conns C outs) (drop_conns C ins)
              \<and> conn_core s' = conn_core s \<and> next_conn s' = next_conn s
              \<and> ports_of s' = (ports_of (fts_object_get_patcher_data W x s))
                    (x := map_option (\<lambda>(_, k). (n, k)) (ports_of (fts_object_get_patcher_data W x s) x))"
proof -
  let ?u = "fts_object_get_patcher_data W x s"
  note l0 = get_patcher_data_linked [OF l W, of x]
  have core0: "conn_core ?u = conn_core s" by (simp add: conn_core_def fun_eq_iff)
  obtain s1 where s1: "fts_object_trim_inlets_connections x n ?u = Some s1" "same_core ?u s1"
      "linked s1 (drop_conns C outs) (drop_conns C ins)"
    using trim_inlets_spec [OF l0 n, of x] unfolding C_def by blast
  show ?thesis
  proof (cases "fts_object_get_inlets_number x ?u = n")
    case True
    have "C = {}" using port_Nil_inlet [OF l0, where x = x] True by (auto simp: C_def)
    moreover have "ports_of ?u = (ports_of ?u)(x := map_option (\<lambda>(_, k). (n, k)) (ports_of ?u x))"
      using True by (auto simp: numbers_ports fun_eq_iff split: option.splits)
    moreover have "fts_object_set_inlets_number W x n s = Some ?u"
      using True by (simp add: fts_object_set_inlets_number_def)
    moreover have "linked ?u (drop_conns C outs) (drop_conns C ins)" using l0 \<open>C = {}\<close> by simp
    ultimately show ?thesis using core0 get_patcher_data_conns(2) [of W x s] by (intro exI [of _ ?u] conjI)
  next
    case False
    have "ctx_core s1 x \<noteq> None" using s1(2) by (simp add: same_core_def ctx_core_def)
    then obtain d where d: "contexts s1 x = Some d" by (auto simp: ctx_core_def)
    let ?s = "s1\<lparr>contexts := (contexts s1)(x \<mapsto> d\<lparr>in_conn := realloc_heads n (in_conn d), n_inlets := n\<rparr>)\<rparr>"
    have "linked ?s (drop_conns C outs) (drop_conns C ins)"
      using s1(3) d n by (rule resize_inlets) (auto simp: C_def filter_empty_conv)
    moreover have "conn_core ?s = conn_core s" "next_conn ?s = next_conn s"
      using s1(2) core0 by (auto simp: same_core_def conn_core_def fun_eq_iff)
    moreover have ports: "ports_of ?s = (ports_of ?u)(x := map_option (\<lambda>(_, k). (n, k)) (ports_of ?u x))"
      unfolding same_core_ports [OF s1(2), symmetric] using d by (simp add: ports_of_def fun_eq_iff)
    moreover have "fts_object_set_inlets_number W x n s = Some ?s"
      using False s1(1) d by (simp add: fts_object_set_inlets_number_def)
    ultimately show ?thesis by (intro exI [of _ ?s] conjI)
  qed
qed

subsection \<open>Making a connection keeps the graph\<close>

lemma find_same_src_spec:
  assumes "linked_list (nxt_src s) p cs" "\<And>c. c \<in> set cs \<Longrightarrow> conns s c \<noteq> None"
  shows "find_same_src dst winlet p s = Some (find (\<lambda>c. to_port (ends s) (dst, winlet) c) cs)"
  using assms
proof (induction cs arbitrary: p)
  case Nil
  then show ?case by (subst find_same_src.simps) simp
next
  case (Cons c cs)
  then obtain k where k: "conns s c = Some k" by fastforce
  then have "to_port (ends s) (dst, winlet) c \<longleftrightarrow> c_dst k = dst \<and> c_winlet k = winlet"
    by (auto simp: to_port_def ends_def)
  with Cons k show ?case by (subst find_same_src.simps) (simp add: nxt_src_def)
qed

lemma find_same_dst_spec:
  assumes "linked_list (nxt_dst s) p cs" "\<And>c. c \<in> set cs \<Longrightarrow> conns s c \<noteq> None"
  shows "find_same_dst src woutlet p s = Some (find (\<lambda>c. from_port (ends s) (src, woutlet) c) cs)"
  using assms
proof (induction cs arbitrary: p)
  case Nil
  then show ?case by (subst find_same_dst.simps) simp
next
  case (Cons c cs)
  then obtain k where k: "conns s c = Some k" by fastforce
  then have "from_port (ends s) (src, woutlet) c \<longleftrightarrow> c_src k = src \<and> c_woutlet k = woutlet"
    by (auto simp: from_port_def ends_def)
  with Cons k show ?case by (subst find_same_dst.simps) (simp add: nxt_dst_def)
qed

lemma out_list: "linked s outs ins \<Longrightarrow> out_head s x i = Some p \<Longrightarrow> linked_list (nxt_src s) p (outs (x, i))"
  using linked_parts(2) [of s outs ins] unfolding outs_ok_def port_list_def by (metis option.simps(5))

lemma in_list: "linked s outs ins \<Longrightarrow> in_head s x i = Some p \<Longrightarrow> linked_list (nxt_dst s) p (ins (x, i))"
  using linked_parts(3) [of s outs ins] unfolding ins_ok_def port_list_def by (metis option.simps(5))

definition joined :: "patch \<Rightarrow> ports \<Rightarrow> obj \<Rightarrow> int \<Rightarrow> obj \<Rightarrow> int \<Rightarrow> bool" where
  "joined s outs src woutlet dst winlet \<longleftrightarrow> (\<exists>c \<in> live_conns outs. ends s c = Some (src, woutlet, dst, winlet))"

lemma joined_out:
  assumes "linked s outs ins"
  shows "joined s outs src woutlet dst winlet \<longleftrightarrow> (\<exists>c \<in> set (outs (src, woutlet)). to_port (ends s) (dst, winlet) c)"
  using linked_parts(4) [OF assms] ends_okD(1) [OF linked_parts(4) [OF assms]]
  by (auto simp: joined_def ends_ok_def from_port_Some to_port_Some)

lemma joined_in:
  assumes "linked s outs ins"
  shows "joined s outs src woutlet dst winlet \<longleftrightarrow> (\<exists>c \<in> set (ins (dst, winlet)). from_port (ends s) (src, woutlet) c)"
proof -
  have "set (ins (dst, winlet)) = {c \<in> live_conns outs. to_port (ends s) (dst, winlet) c}"
    using linked_parts(4) [OF assms] by (simp add: ends_ok_def)
  then show ?thesis by (auto simp: joined_def from_port_Some to_port_Some)
qed

lemma find_Some_iff: "find P xs \<noteq> None \<longleftrightarrow> (\<exists>x \<in> set xs. P x)"
  by (induction xs) auto

lemma find_double:
  assumes l: "linked s outs ins"
  shows "out_head s src woutlet = Some p \<Longrightarrow>
           \<exists>r. find_same_src dst winlet p s = Some r \<and> (r \<noteq> None \<longleftrightarrow> joined s outs src woutlet dst winlet)"
    and "in_head s dst winlet = Some q \<Longrightarrow>
           \<exists>r. find_same_dst src woutlet q s = Some r \<and> (r \<noteq> None \<longleftrightarrow> joined s outs src woutlet dst winlet)"
  using find_same_src_spec [OF out_list [OF l]] find_same_dst_spec [OF in_list [OF l]]
    outs_conns [OF linked_parts(4) [OF l]] ins_conns [OF linked_parts(4) [OF l]]
    joined_out [OF l] joined_in [OF l] find_Some_iff by (metis (no_types, lifting))+

text \<open>The new node at the head of its two lists.\<close>

lemma ends_ok_add:
  assumes ok: "ends_ok e outs ins" and c: "c \<notin> live_conns outs"
    and new: "\<And>c'. c' \<in> live_conns outs \<Longrightarrow> e c' \<noteq> Some (x, i, y, j)"
  shows "ends_ok (e(c := Some (x, i, y, j))) (outs((x, i) := c # outs (x, i))) (ins((y, j) := c # ins (y, j)))"
proof -
  let ?e = "e(c := Some (x, i, y, j))"
  have o: "set (outs p) = {c \<in> live_conns outs. from_port e p c}" and n: "set (ins p) = {c \<in> live_conns outs. to_port e p c}" for p
    using ok unfolding ends_ok_def by blast+
  have live': "live_conns (outs((x, i) := c # outs (x, i))) = insert c (live_conns outs)"
    by (auto simp: live_conns_def split: if_splits)
  have port: "from_port ?e p c' \<longleftrightarrow> (if c' = c then p = (x, i) else from_port e p c')"
    "to_port ?e p c' \<longleftrightarrow> (if c' = c then p = (y, j) else to_port e p c')" for p c'
    by (auto simp: from_port_def to_port_def)
  have inj: "inj_on e (live_conns outs)" using ok by (simp add: ends_ok_def)
  have "inj_on ?e (insert c (live_conns outs))"
  proof (rule inj_onI)
    fix a b
    assume "a \<in> insert c (live_conns outs)" "b \<in> insert c (live_conns outs)" "?e a = ?e b"
    then show "a = b" using new [of a] new [of b] inj by (auto simp: inj_on_def split: if_splits)
  qed
  then show ?thesis unfolding ends_ok_def live' using c by (auto simp: port o n)
qed

lemma live_conns: "linked s outs ins \<Longrightarrow> c \<in> live_conns outs \<Longrightarrow> conns s c \<noteq> None"
  unfolding live_conns_def using outs_conns [OF linked_parts(4)] by auto

lemma port_list_upd: "c \<notin> set xs \<Longrightarrow> port_list (nxt(c := p)) h xs = port_list nxt h xs"
  by (simp add: port_list_def split: option.split)

lemma port_list_push: "linked_list nxt p xs \<Longrightarrow> c \<notin> set xs \<Longrightarrow> port_list (nxt(c := p)) (Some (Some c)) (c # xs)"
  by (simp add: port_list_def)

lemma ins_live: "ends_ok e outs ins \<Longrightarrow> set (ins p) \<subseteq> live_conns outs"
  unfolding ends_ok_def by blast

lemma connection_link_spec:
  assumes l: "linked s outs ins"
    and k: "c_src k = x" "c_woutlet k = i" "c_dst k = y" "c_winlet k = j"
    and p: "out_head s x i = Some p" and q: "in_head s y j = Some q"
    and new: "\<not> joined s outs x i y j"
  shows "\<exists>s'. connection_link k s = Some (Some (next_conn s), s')
     \<and> linked s' (outs((x, i) := next_conn s # outs (x, i))) (ins((y, j) := next_conn s # ins (y, j)))
     \<and> ctx_core s' = ctx_core s \<and> next_conn s' = next_conn s + 1
     \<and> conn_core s' = (conn_core s)(next_conn s \<mapsto> k\<lparr>next_same_dst := None, next_same_src := None\<rparr>)"
proof -
  define c where "c = next_conn s"
  note lp = linked_parts [OF l]
  have fresh: "conns s c = None" using l by (simp add: linked_def c_def)
  then have live_conns: "c \<notin> live_conns outs" using live_conns [OF l] by blast
  then have notin: "c \<notin> set (outs r)" "c \<notin> set (ins r)" for r
    using ins_live [OF lp(4), of r] unfolding live_conns_def by blast+
  let ?s0 = "s\<lparr>conns := (conns s)(c \<mapsto> k\<lparr>next_same_src := p\<rparr>), next_conn := next_conn s + 1\<rparr>"
  have heads0: "out_head ?s0 = out_head s" "in_head ?s0 = in_head s" "arrays_ok ?s0"
    using lp(1) by (simp_all add: out_head_def in_head_def arrays_ok_def fun_eq_iff)
  obtain s1 where s1: "set_out_head x i (Some c) ?s0 = Some s1" "conns s1 = conns ?s0" "same_core ?s0 s1"
      "\<And>y' j'. out_head s1 y' j' = (if y' = x \<and> j' = i then Some (Some c) else out_head s y' j')"
      "in_head s1 = in_head s" "arrays_ok s1"
    using set_out_head_spec [of ?s0 x i p "Some c"] p heads0 by auto
  have nxt1: "nxt_src s1 = (nxt_src s)(c := p)" "nxt_dst s1 = (nxt_dst s)(c := next_same_dst k)"
    using s1(2) by (auto simp: nxt_src_def nxt_dst_def fun_eq_iff)
  obtain s2 where s2: "set_next_dst c q s1 = Some s2" "contexts s2 = contexts s1" "same_core s1 s2"
      "nxt_dst s2 = (nxt_dst s1)(c := q)" "nxt_src s2 = nxt_src s1"
    using set_next_dst_spec [of s1 c q] s1(2) by auto
  have heads2: "in_head s2 = in_head s" "out_head s2 = out_head s1" "arrays_ok s2"
    using heads_contexts [OF s2(2)] s1 by auto
  obtain s3 where s3: "set_in_head y j (Some c) s2 = Some s3" "conns s3 = conns s2" "same_core s2 s3"
      "\<And>y' j'. in_head s3 y' j' = (if y' = y \<and> j' = j then Some (Some c) else in_head s y' j')"
      "out_head s3 = out_head s1" "arrays_ok s3"
    using set_in_head_spec [of s2 y j q "Some c"] q heads2 by auto
  have nxt3: "nxt_src s3 = (nxt_src s)(c := p)" "nxt_dst s3 = (nxt_dst s)(c := q)"
    using nxt_conns [OF s3(2)] s2 nxt1 by auto
  have core: "same_core ?s0 s3" using same_core_trans [OF same_core_trans [OF s1(3) s2(3)] s3(3)] .
  have res: "connection_link k s = Some (Some c, s3)"
    using k p q s1(1,5) s2(1) s3(1) by (simp add: connection_link_def c_def)
  have "outs_ok s3 (outs((x, i) := c # outs (x, i)))"
    unfolding outs_ok_def nxt3 s3(5) s1(4)
    using lp(2) port_list_push [OF out_list [OF l p] notin(1)] port_list_upd [OF notin(1)]
    by (simp add: outs_ok_def)
  moreover have "ins_ok s3 (ins((y, j) := c # ins (y, j)))"
    unfolding ins_ok_def nxt3 s3(4)
    using lp(3) port_list_push [OF in_list [OF l q] notin(2)] port_list_upd [OF notin(2)]
    by (simp add: ins_ok_def)
  moreover have "ends s3 = (ends s)(c := Some (x, i, y, j))"
    using same_core_ends [OF core] k by (simp add: ends_def fun_eq_iff)
  moreover have "\<forall>c' \<ge> next_conn s3. conns s3 c' = None"
    using same_core_None [OF core] core l by (auto simp: same_core_def linked_def c_def)
  ultimately have "linked s3 (outs((x, i) := c # outs (x, i))) (ins((y, j) := c # ins (y, j)))"
    using ends_ok_add [OF lp(4) live_conns] new s3(6) unfolding linked_def joined_def by simp
  moreover have "ctx_core s3 = ctx_core s" "next_conn s3 = next_conn s + 1"
      "conn_core s3 = (conn_core s)(c \<mapsto> k\<lparr>next_same_dst := None, next_same_src := None\<rparr>)"
    using core by (auto simp: same_core_def ctx_core_def conn_core_def fun_eq_iff)
  ultimately show ?thesis using res unfolding c_def by blast
qed

text \<open>When a connection is allowed, by the declared types of the outlet.\<close>

definition may_connect :: "patch_world \<Rightarrow> class_ref option list \<Rightarrow> obj \<Rightarrow> int \<Rightarrow> bool" where
  "may_connect W ts dst winlet \<longleftrightarrow>
     (let dcl = object_class W dst; signal = Some (UserClass (w_signal_class W))
      in ts = []
         \<or> (if ts = [signal] \<and> fts_class_get_method_varargs dcl (w_s_propagate_input W) = None
            then fts_class_get_inlet_method dcl winlet signal \<noteq> None
            else cl_input_handler dcl \<noteq> None
                 \<or> (\<exists>t \<in> set ts. t = None \<or> fts_class_get_inlet_method dcl winlet t \<noteq> None)))"

lemma connection_check_spec:
  assumes "class_abs (object_class W src) S"
  shows "connection_check W src woutlet dst winlet = Some (may_connect W (spec_declarations S woutlet) dst winlet)"
proof -
  let ?ts = "spec_declarations S woutlet" and ?signal = "Some (UserClass (w_signal_class W))"
  have one: "length ?ts = 1 \<and> ?signal \<in> set ?ts \<longleftrightarrow> ?ts = [?signal]"
    by (cases ?ts rule: list.exhaust [case_product list.exhaust]) (auto simp: length_Suc_conv)
  have "list_ex (\<lambda>a. case a of APointer p \<Rightarrow> (case class_of_ptr p of None \<Rightarrow> True
           | Some type \<Rightarrow> fts_class_get_inlet_method (object_class W dst) winlet (Some type) \<noteq> None)
           | _ \<Rightarrow> False) (map (APointer \<circ> class_ptr) ?ts)
        \<longleftrightarrow> (\<exists>t \<in> set ?ts. t = None \<or> fts_class_get_inlet_method (object_class W dst) winlet t \<noteq> None)"
    by (simp add: list_ex_iff, intro bex_cong refl) (auto split: option.split)
  then show ?thesis
    using one by (auto simp: connection_check_def Let_def abs_declarations [OF assms] abs_has_type [OF assms] may_connect_def)
qed

lemma connection_add_spec:
  assumes l: "linked s outs ins" and W: "world_ok W"
  shows "\<exists>r s'. connection_add W valid patcher src woutlet dst winlet type s = Some (r, s')
     \<and> (r \<noteq> None \<longleftrightarrow> 0 \<le> woutlet \<and> woutlet < fts_object_get_outlets_number src s
            \<and> 0 \<le> winlet \<and> winlet < fts_object_get_inlets_number dst s
            \<and> \<not> joined s outs src woutlet dst winlet \<and> connection_check W src woutlet dst winlet = Some True)
     \<and> (case r of None \<Rightarrow> s' = s
        | Some c \<Rightarrow> c = next_conn s \<and> ctx_core s' = ctx_core s \<and> next_conn s' = c + 1
            \<and> linked s' (outs((src, woutlet) := c # outs (src, woutlet))) (ins((dst, winlet) := c # ins (dst, winlet)))
            \<and> conn_core s' = (conn_core s)(c \<mapsto>
                connection_init src woutlet dst winlet (if valid \<and> type = fts_c_null then fts_c_anything else type)
                  (if patcher \<noteq> fts_object_get_patcher dst s then None else patcher)))"
    (is "\<exists>r s'. ?add = _ \<and> (_ \<longleftrightarrow> ?acc) \<and> _")
proof (cases "0 \<le> woutlet \<and> woutlet < fts_object_get_outlets_number src s
              \<and> 0 \<le> winlet \<and> winlet < fts_object_get_inlets_number dst s")
  case False
  then show ?thesis by (auto simp: connection_add_def)
next
  case True
  then obtain p q where p: "out_head s src woutlet = Some p" and q: "in_head s dst winlet = Some q"
    using out_head_range [OF linked_parts(1) [OF l]] in_head_range [OF linked_parts(1) [OF l]]
    by (metis option.exhaust)
  obtain f g where f: "find_same_src dst winlet p s = Some f" "f \<noteq> None \<longleftrightarrow> joined s outs src woutlet dst winlet"
    and g: "find_same_dst src woutlet q s = Some g" "g \<noteq> None \<longleftrightarrow> joined s outs src woutlet dst winlet"
    using find_double [OF l] p q by metis
  obtain ok where ok: "connection_check W src woutlet dst winlet = Some ok"
    using connection_check_spec world_class [OF W] by blast
  show ?thesis
  proof (cases "\<not> joined s outs src woutlet dst winlet \<and> ok")
    case False
    then have "?add = Some (None, s)"
      using True p q f g ok by (auto simp: connection_add_def)
    with False ok show ?thesis by auto
  next
    case acc: True
    let ?k = "connection_init src woutlet dst winlet (if valid \<and> type = fts_c_null then fts_c_anything else type)
                  (if patcher \<noteq> fts_object_get_patcher dst s then None else patcher)"
    have add: "?add = connection_link ?k s"
      using True acc p q f g ok by (simp add: connection_add_def)
    have "?k\<lparr>next_same_dst := None, next_same_src := None\<rparr> = ?k" by (simp add: connection_init_def)
    with connection_link_spec [OF l, of ?k src woutlet dst winlet p q] p q acc True ok show ?thesis
      unfolding add by (auto simp: connection_init_def)
  qed
qed

end
