(* ===== verification/PatchGraph.thy ===== *)
theory PatchGraph
  imports Connection
begin

text \<open>
  The ordered graph that a patch stands for, and the refinement: every editing operation of
  \<open>Connection\<close> on the linked lists has the effect of an operation on the graph.
\<close>

subsection \<open>The patch as an ordered graph\<close>

text \<open>
  What a patch means: the number of ports of each object, for each outlet the inlets its values
  go to in the order they are sent, with the types of the connections, and the same from the
  inlets' side.
\<close>

record graph =
  g_ports :: "obj \<rightharpoonup> int \<times> int"
  g_targets :: "obj \<times> int \<Rightarrow> (obj \<times> int \<times> int) list"
  g_sources :: "obj \<times> int \<Rightarrow> (obj \<times> int \<times> int) list"

definition target :: "patch \<Rightarrow> cid \<Rightarrow> obj \<times> int \<times> int" where
  "target s c = (case conns s c of None \<Rightarrow> (0, 0, 0) | Some k \<Rightarrow> (c_dst k, c_winlet k, c_type k))"

definition source :: "patch \<Rightarrow> cid \<Rightarrow> obj \<times> int \<times> int" where
  "source s c = (case conns s c of None \<Rightarrow> (0, 0, 0) | Some k \<Rightarrow> (c_src k, c_woutlet k, c_type k))"

definition models :: "patch \<Rightarrow> ports \<Rightarrow> ports \<Rightarrow> graph \<Rightarrow> bool" where
  "models s outs ins G \<longleftrightarrow>
     linked s outs ins \<and> g_ports G = ports_of s
     \<and> (\<forall>p. g_targets G p = map (target s) (outs p)) \<and> (\<forall>p. g_sources G p = map (source s) (ins p))"

definition g_joined :: "graph \<Rightarrow> obj \<Rightarrow> int \<Rightarrow> obj \<Rightarrow> int \<Rightarrow> bool" where
  "g_joined G src woutlet dst winlet \<longleftrightarrow> (dst, winlet) \<in> (\<lambda>(y, j, _). (y, j)) ` set (g_targets G (src, woutlet))"

definition g_data :: "patch_world \<Rightarrow> obj \<Rightarrow> graph \<Rightarrow> graph" where
  "g_data W x G =
     (case g_ports G x of Some _ \<Rightarrow> G
      | None \<Rightarrow> G\<lparr>g_ports := (g_ports G)(x \<mapsto> (cl_ninlets (object_class W x), cl_noutlets (object_class W x)))\<rparr>)"

text \<open>The edges that satisfy a condition on their two ends are taken out.\<close>

definition g_cut :: "(obj \<Rightarrow> int \<Rightarrow> obj \<Rightarrow> int \<Rightarrow> bool) \<Rightarrow> graph \<Rightarrow> graph" where
  "g_cut Q G =
     G\<lparr>g_targets := (\<lambda>(x, i). filter (\<lambda>(y, j, _). \<not> Q x i y j) (g_targets G (x, i))),
       g_sources := (\<lambda>(y, j). filter (\<lambda>(x, i, _). \<not> Q x i y j) (g_sources G (y, j)))\<rparr>"

definition g_set_outlets :: "patch_world \<Rightarrow> obj \<Rightarrow> int \<Rightarrow> graph \<Rightarrow> graph" where
  "g_set_outlets W x n G =
     (let G0 = g_cut (\<lambda>x' i y j. x' = x \<and> i \<ge> n) (g_data W x G)
      in G0\<lparr>g_ports := (g_ports G0)(x := map_option (\<lambda>(i, _). (i, n)) (g_ports G0 x))\<rparr>)"

definition g_set_inlets :: "patch_world \<Rightarrow> obj \<Rightarrow> int \<Rightarrow> graph \<Rightarrow> graph" where
  "g_set_inlets W x n G =
     (let G0 = g_cut (\<lambda>x' i y j. y = x \<and> j \<ge> n) (g_data W x G)
      in G0\<lparr>g_ports := (g_ports G0)(x := map_option (\<lambda>(_, k). (n, k)) (g_ports G0 x))\<rparr>)"

definition g_inlets :: "graph \<Rightarrow> obj \<Rightarrow> int" where
  "g_inlets G x = (case g_ports G x of None \<Rightarrow> 0 | Some (i, _) \<Rightarrow> i)"

definition g_outlets :: "graph \<Rightarrow> obj \<Rightarrow> int" where
  "g_outlets G x = (case g_ports G x of None \<Rightarrow> 0 | Some (_, k) \<Rightarrow> k)"

definition g_fit_outlet :: "patch_world \<Rightarrow> obj \<Rightarrow> int \<Rightarrow> graph \<Rightarrow> graph" where
  "g_fit_outlet W x n G = (if g_outlets G x \<le> n then g_set_outlets W x (n + 1) G else G)"

definition g_fit_inlet :: "patch_world \<Rightarrow> obj \<Rightarrow> int \<Rightarrow> graph \<Rightarrow> graph" where
  "g_fit_inlet W x n G = (if g_inlets G x \<le> n then g_set_inlets W x (n + 1) G else G)"

definition g_accepts :: "patch_world \<Rightarrow> obj \<Rightarrow> int \<Rightarrow> obj \<Rightarrow> int \<Rightarrow> graph \<Rightarrow> bool" where
  "g_accepts W src woutlet dst winlet G \<longleftrightarrow>
     0 \<le> woutlet \<and> woutlet < g_outlets G src \<and> 0 \<le> winlet \<and> winlet < g_inlets G dst
     \<and> \<not> g_joined G src woutlet dst winlet \<and> connection_check W src woutlet dst winlet = Some True"

definition g_add :: "obj \<Rightarrow> int \<Rightarrow> obj \<Rightarrow> int \<Rightarrow> int \<Rightarrow> graph \<Rightarrow> graph" where
  "g_add src woutlet dst winlet type G =
     G\<lparr>g_targets := (g_targets G)((src, woutlet) := (dst, winlet, type) # g_targets G (src, woutlet)),
       g_sources := (g_sources G)((dst, winlet) := (src, woutlet, type) # g_sources G (dst, winlet))\<rparr>"

definition g_new :: "patch_world \<Rightarrow> obj \<Rightarrow> int \<Rightarrow> obj \<Rightarrow> int \<Rightarrow> int \<Rightarrow> graph \<Rightarrow> bool \<times> graph" where
  "g_new W src woutlet dst winlet type G =
     (let valid = (\<not> fts_object_is_error W src \<and> \<not> fts_object_is_error W dst);
          G0 = g_data W dst (g_data W src G);
          G1 = (if fts_object_is_error W src then g_fit_outlet W src woutlet G0 else G0);
          G2 = (if fts_object_is_error W dst then g_fit_inlet W dst winlet G1 else G1)
      in if fts_object_is_error W src \<and> type \<le> fts_c_hidden then (False, G0)
         else if fts_object_is_error W dst \<and> type \<le> fts_c_hidden then (False, G1)
         else if g_accepts W src woutlet dst winlet G2
         then (True, g_add src woutlet dst winlet (if valid \<and> type = fts_c_null then fts_c_anything else type) G2)
         else (False, G2))"

lemma models_linked: "models s outs ins G \<Longrightarrow> linked s outs ins"
  by (simp add: models_def)

lemma target_core: "target s c = (case conn_core s c of None \<Rightarrow> (0, 0, 0) | Some k \<Rightarrow> (c_dst k, c_winlet k, c_type k))"
  by (simp add: target_def conn_core_def split: option.split)

lemma source_core: "source s c = (case conn_core s c of None \<Rightarrow> (0, 0, 0) | Some k \<Rightarrow> (c_src k, c_woutlet k, c_type k))"
  by (simp add: source_def conn_core_def split: option.split)

lemma target_ends: "ends s c = Some (x, i, y, j) \<Longrightarrow> \<exists>ty. target s c = (y, j, ty) \<and> source s c = (x, i, ty)"
  by (auto simp: ends_def target_def source_def)

lemma models_numbers:
  assumes "models s outs ins G"
  shows "fts_object_get_inlets_number x s = g_inlets G x" "fts_object_get_outlets_number x s = g_outlets G x"
  using assms by (simp_all add: models_def g_inlets_def g_outlets_def numbers_ports)

lemma models_joined:
  assumes "models s outs ins G"
  shows "joined s outs src woutlet dst winlet \<longleftrightarrow> g_joined G src woutlet dst winlet"
proof -
  have l: "linked s outs ins" using assms by (rule models_linked)
  have "to_port (ends s) (dst, winlet) c \<longleftrightarrow> (\<lambda>(y, j, _). (y, j)) (target s c) = (dst, winlet)"
    if "c \<in> set (outs (src, woutlet))" for c
    using ends_okD(1) [OF linked_parts(4) [OF l] that] target_ends by (fastforce simp: to_port_Some)
  then show ?thesis
    using assms unfolding joined_out [OF l] g_joined_def models_def by (auto simp: image_iff) (metis case_prod_conv)+
qed

text \<open>Taking out connections.\<close>

lemma models_cut:
  assumes m: "models s outs ins G" and l: "linked s' (drop_conns C outs) (drop_conns C ins)"
    and core: "conn_core s' = conn_core s"
    and C: "\<And>c x i y j. c \<in> live_conns outs \<Longrightarrow> ends s c = Some (x, i, y, j) \<Longrightarrow> c \<in> C \<longleftrightarrow> Q x i y j"
  shows "models s' (drop_conns C outs) (drop_conns C ins) ((g_cut Q G)\<lparr>g_ports := ports_of s'\<rparr>)"
proof -
  note lk = models_linked [OF m]
  have tgt: "target s' = target s" "source s' = source s" by (simp_all add: fun_eq_iff target_core source_core core)
  have "filter (\<lambda>(y, j, _). \<not> Q x i y j) (map (target s) (outs (x, i))) = map (target s) (filter (\<lambda>c. c \<notin> C) (outs (x, i)))"
    for x i
    unfolding filter_map
  proof (intro arg_cong [where f = "map (target s)"] filter_cong refl)
    fix c
    assume c: "c \<in> set (outs (x, i))"
    then obtain y j where "ends s c = Some (x, i, y, j)" using ends_okD(1) [OF linked_parts(4) [OF lk]] by blast
    moreover have "c \<in> live_conns outs" unfolding live_conns_def using c by blast
    ultimately show "((\<lambda>(y, j, _). \<not> Q x i y j) \<circ> target s) c \<longleftrightarrow> c \<notin> C"
      using C [of c x i y j] target_ends [of s c x i y j] by auto
  qed
  moreover have "filter (\<lambda>(x, i, _). \<not> Q x i y j) (map (source s) (ins (y, j))) = map (source s) (filter (\<lambda>c. c \<notin> C) (ins (y, j)))"
    for y j
    unfolding filter_map
  proof (intro arg_cong [where f = "map (source s)"] filter_cong refl)
    fix c
    assume c: "c \<in> set (ins (y, j))"
    then obtain x i where "ends s c = Some (x, i, y, j)" "c \<in> live_conns outs"
      using ends_okD(2) [OF linked_parts(4) [OF lk]] ins_live [OF linked_parts(4) [OF lk]] by blast
    with C [of c x i y j] target_ends [of s c x i y j]
    show "((\<lambda>(x, i, _). \<not> Q x i y j) \<circ> source s) c \<longleftrightarrow> c \<notin> C" by auto
  qed
  ultimately show ?thesis
    using m l unfolding models_def g_cut_def tgt by auto
qed

lemma patcher_data_core: "conn_core (fts_object_get_patcher_data W x s) = conn_core s"
  by (simp add: conn_core_def fun_eq_iff)

lemma ports_data:
  "ports_of (fts_object_get_patcher_data W x s) =
     (case ports_of s x of Some _ \<Rightarrow> ports_of s
      | None \<Rightarrow> (ports_of s)(x \<mapsto> (cl_ninlets (object_class W x), cl_noutlets (object_class W x))))"
  by (auto simp: ports_of_def fts_object_get_patcher_data_def Let_def fun_eq_iff split: option.split)

lemma models_data:
  assumes "models s outs ins G" "world_ok W"
  shows "models (fts_object_get_patcher_data W x s) outs ins (g_data W x G)"
proof -
  have "target (fts_object_get_patcher_data W x s) = target s" "source (fts_object_get_patcher_data W x s) = source s"
    by (simp_all add: fun_eq_iff target_def source_def)
  with assms get_patcher_data_linked [of s outs ins W x] show ?thesis
    by (auto simp: models_def g_data_def ports_data split: option.split)
qed

lemma models_ports: "models s outs ins (G\<lparr>g_ports := P\<rparr>) \<Longrightarrow> P = ports_of s"
  by (simp add: models_def)

lemma ends_in_port:
  assumes "linked s outs ins" "c \<in> live_conns outs" "ends s c = Some (x, i, y, j)"
  shows "c \<in> set (outs (x', i')) \<longleftrightarrow> x' = x \<and> i' = i" "c \<in> set (ins (y', j')) \<longleftrightarrow> y' = y \<and> j' = j"
  using linked_parts(4) [OF assms(1)] assms(2,3) unfolding ends_ok_def by (auto simp: from_port_Some to_port_Some)

definition modelled :: "patch \<Rightarrow> graph \<Rightarrow> bool" where
  "modelled s G \<longleftrightarrow> (\<exists>outs ins. models s outs ins G)"

lemma modelledI: "models s outs ins G \<Longrightarrow> modelled s G"
  by (auto simp: modelled_def)

lemma models_set_outlets:
  assumes m: "models s outs ins G" and W: "world_ok W" and n: "0 \<le> n"
  shows "\<exists>s'. fts_object_set_outlets_number W x n s = Some s' \<and> next_conn s' = next_conn s
           \<and> conn_core s' = conn_core s \<and> modelled s' (g_set_outlets W x n G)"
proof -
  let ?u = "fts_object_get_patcher_data W x s" and ?C = "\<Union>i \<in> {n..}. set (outs (x, i))"
  note m0 = models_data [OF m W, of x]
  obtain s' where s': "fts_object_set_outlets_number W x n s = Some s'"
      "linked s' (drop_conns ?C outs) (drop_conns ?C ins)" "conn_core s' = conn_core s" "next_conn s' = next_conn s"
      "ports_of s' = (ports_of ?u)(x := map_option (\<lambda>(i, _). (i, n)) (ports_of ?u x))"
    using set_outlets_number_spec [OF models_linked [OF m] W n] by blast
  have "models s' (drop_conns ?C outs) (drop_conns ?C ins)
      ((g_cut (\<lambda>x' i y j. x' = x \<and> i \<ge> n) (g_data W x G))\<lparr>g_ports := ports_of s'\<rparr>)"
    using m0 s'(2)
  proof (rule models_cut)
    show "conn_core s' = conn_core ?u" using s'(3) by (simp add: patcher_data_core)
    fix c x' i y j
    assume "c \<in> live_conns outs" "ends ?u c = Some (x', i, y, j)"
    from ends_in_port(1) [OF models_linked [OF m0] this] show "c \<in> ?C \<longleftrightarrow> x' = x \<and> i \<ge> n" by auto
  qed
  moreover have "(g_cut (\<lambda>x' i y j. x' = x \<and> i \<ge> n) (g_data W x G))\<lparr>g_ports := ports_of s'\<rparr> = g_set_outlets W x n G"
    using m0 by (simp add: g_set_outlets_def Let_def s'(5) models_def g_cut_def)
  ultimately show ?thesis using s' modelledI by metis
qed

lemma models_set_inlets:
  assumes m: "models s outs ins G" and W: "world_ok W" and n: "0 \<le> n"
  shows "\<exists>s'. fts_object_set_inlets_number W x n s = Some s' \<and> next_conn s' = next_conn s
           \<and> conn_core s' = conn_core s \<and> modelled s' (g_set_inlets W x n G)"
proof -
  let ?u = "fts_object_get_patcher_data W x s" and ?C = "\<Union>i \<in> {n..}. set (ins (x, i))"
  note m0 = models_data [OF m W, of x]
  obtain s' where s': "fts_object_set_inlets_number W x n s = Some s'"
      "linked s' (drop_conns ?C outs) (drop_conns ?C ins)" "conn_core s' = conn_core s" "next_conn s' = next_conn s"
      "ports_of s' = (ports_of ?u)(x := map_option (\<lambda>(_, k). (n, k)) (ports_of ?u x))"
    using set_inlets_number_spec [OF models_linked [OF m] W n] by blast
  have "models s' (drop_conns ?C outs) (drop_conns ?C ins)
      ((g_cut (\<lambda>x' i y j. y = x \<and> j \<ge> n) (g_data W x G))\<lparr>g_ports := ports_of s'\<rparr>)"
    using m0 s'(2)
  proof (rule models_cut)
    show "conn_core s' = conn_core ?u" using s'(3) by (simp add: patcher_data_core)
    fix c x' i y j
    assume "c \<in> live_conns outs" "ends ?u c = Some (x', i, y, j)"
    from ends_in_port(2) [OF models_linked [OF m0] this] show "c \<in> ?C \<longleftrightarrow> y = x \<and> j \<ge> n" by auto
  qed
  moreover have "(g_cut (\<lambda>x' i y j. y = x \<and> j \<ge> n) (g_data W x G))\<lparr>g_ports := ports_of s'\<rparr> = g_set_inlets W x n G"
    using m0 by (simp add: g_set_inlets_def Let_def s'(5) models_def g_cut_def)
  ultimately show ?thesis using s' modelledI by metis
qed

lemma g_numbers_nonneg:
  assumes "models s outs ins G"
  shows "0 \<le> g_outlets G x" "0 \<le> g_inlets G x"
  unfolding models_numbers [OF assms, symmetric] using linked_parts(1) [OF models_linked [OF assms]]
  by (auto simp: arrays_ok_def fts_object_get_outlets_number_def fts_object_get_inlets_number_def split: option.splits)

lemma models_fit_outlet:
  assumes "models s outs ins G" "world_ok W"
  shows "\<exists>s'. fts_error_object_fit_outlet W x n s = Some s' \<and> next_conn s' = next_conn s
           \<and> modelled s' (g_fit_outlet W x n G)"
  using models_set_outlets [OF assms, of "n + 1" x] g_numbers_nonneg(1) [OF assms(1), of x] modelledI [OF assms(1)]
  by (auto simp: fts_error_object_fit_outlet_def g_fit_outlet_def models_numbers [OF assms(1)])

lemma models_fit_inlet:
  assumes "models s outs ins G" "world_ok W"
  shows "\<exists>s'. fts_error_object_fit_inlet W x n s = Some s' \<and> next_conn s' = next_conn s
           \<and> modelled s' (g_fit_inlet W x n G)"
  using models_set_inlets [OF assms, of "n + 1" x] g_numbers_nonneg(2) [OF assms(1), of x] modelledI [OF assms(1)]
  by (auto simp: fts_error_object_fit_inlet_def g_fit_inlet_def models_numbers [OF assms(1)])

lemma models_link:
  assumes m: "models s outs ins G"
    and l': "linked s' (outs((src, woutlet) := c # outs (src, woutlet))) (ins((dst, winlet) := c # ins (dst, winlet)))"
    and ctx: "ctx_core s' = ctx_core s" and c: "c = next_conn s"
    and core: "conn_core s' = (conn_core s)(c \<mapsto> connection_init src woutlet dst winlet ty pa)"
  shows "models s' (outs((src, woutlet) := c # outs (src, woutlet))) (ins((dst, winlet) := c # ins (dst, winlet)))
           (g_add src woutlet dst winlet ty G)"
proof -
  note l = models_linked [OF m]
  have "conns s c = None" using l c by (simp add: linked_def)
  then have notin: "c \<notin> set (outs p)" "c \<notin> set (ins p)" for p
    using outs_conns [OF linked_parts(4) [OF l]] ins_conns [OF linked_parts(4) [OF l]] by (cases p; blast)+
  have tgt: "target s' c' = (if c' = c then (dst, winlet, ty) else target s c')"
    "source s' c' = (if c' = c then (src, woutlet, ty) else source s c')" for c'
    by (simp_all add: target_core source_core core connection_init_def)
  have "map (target s') (outs p) = map (target s) (outs p)" "map (source s') (ins p) = map (source s) (ins p)" for p
    using notin by (auto simp: tgt)
  moreover have "ports_of s' = ports_of s" by (simp add: ports_of_core ctx fun_eq_iff)
  ultimately show ?thesis using m l' by (simp add: models_def g_add_def tgt)
qed

lemma models_add:
  fixes type winlet woutlet :: int and src dst :: obj and valid :: bool
  assumes m: "models s outs ins G" and W: "world_ok W"
  defines "ty \<equiv> if valid \<and> type = fts_c_null then fts_c_anything else type"
    and "outs' \<equiv> outs((src, woutlet) := next_conn s # outs (src, woutlet))"
    and "ins' \<equiv> ins((dst, winlet) := next_conn s # ins (dst, winlet))"
  shows "if g_accepts W src woutlet dst winlet G
         then \<exists>s' k. connection_add W valid patcher src woutlet dst winlet type s = Some (Some (next_conn s), s')
                \<and> models s' outs' ins' (g_add src woutlet dst winlet ty G) \<and> conn_core s' = (conn_core s)(next_conn s \<mapsto> k)
         else connection_add W valid patcher src woutlet dst winlet type s = Some (None, s)"
proof -
  let ?k = "connection_init src woutlet dst winlet ty
     (if patcher \<noteq> fts_object_get_patcher dst s then None else patcher)"
  note l = models_linked [OF m]
  obtain r s' where add: "connection_add W valid patcher src woutlet dst winlet type s = Some (r, s')"
    and r: "r \<noteq> None \<longleftrightarrow> 0 \<le> woutlet \<and> woutlet < fts_object_get_outlets_number src s
            \<and> 0 \<le> winlet \<and> winlet < fts_object_get_inlets_number dst s
            \<and> \<not> joined s outs src woutlet dst winlet \<and> connection_check W src woutlet dst winlet = Some True"
    and cs: "case r of None \<Rightarrow> s' = s
        | Some c \<Rightarrow> c = next_conn s \<and> ctx_core s' = ctx_core s \<and> next_conn s' = c + 1
            \<and> linked s' (outs((src, woutlet) := c # outs (src, woutlet))) (ins((dst, winlet) := c # ins (dst, winlet)))
            \<and> conn_core s' = (conn_core s)(c \<mapsto> ?k)"
    using connection_add_spec [OF l W, of valid patcher src woutlet dst winlet type] unfolding ty_def by blast
  have acc: "r \<noteq> None \<longleftrightarrow> g_accepts W src woutlet dst winlet G"
    unfolding r g_accepts_def models_numbers [OF m] models_joined [OF m] ..
  show ?thesis
  proof (cases r)
    case None
    with add acc cs show ?thesis by simp
  next
    case (Some c)
    have c: "c = next_conn s" "ctx_core s' = ctx_core s" "conn_core s' = (conn_core s)(c \<mapsto> ?k)"
      and l': "linked s' (outs((src, woutlet) := c # outs (src, woutlet))) (ins((dst, winlet) := c # ins (dst, winlet)))"
      using cs unfolding Some option.case by blast+
    have "models s' outs' ins' (g_add src woutlet dst winlet ty G)"
      using models_link [OF m l' c(2,1,3)] by (simp add: outs'_def ins'_def c(1))
    with add acc Some c show ?thesis by auto
  qed
qed

lemma models_new:
  assumes m: "models s outs ins G" and W: "world_ok W"
  shows "\<exists>r s'. fts_connection_new W src woutlet dst winlet type s = Some (r, s')
     \<and> modelled s' (snd (g_new W src woutlet dst winlet type G))
     \<and> r = (if fst (g_new W src woutlet dst winlet type G) then Some (next_conn s) else None)"
proof -
  let ?valid = "\<not> fts_object_is_error W src \<and> \<not> fts_object_is_error W dst"
  let ?u = "fts_object_get_patcher_data W dst (fts_object_get_patcher_data W src s)"
  let ?G0 = "g_data W dst (g_data W src G)"
  let ?G1 = "if fts_object_is_error W src then g_fit_outlet W src woutlet ?G0 else ?G0"
  let ?G2 = "if fts_object_is_error W dst then g_fit_inlet W dst winlet ?G1 else ?G1"
  have m0: "models ?u outs ins ?G0" using m W by (intro models_data)
  obtain s1 outs1 ins1 where
    s1: "(if fts_object_is_error W src then fts_error_object_fit_outlet W src woutlet ?u else Some ?u) = Some s1"
      "next_conn s1 = next_conn s" and m1: "models s1 outs1 ins1 ?G1"
    using models_fit_outlet [OF m0 W, of src woutlet] m0
    by (cases "fts_object_is_error W src") (auto simp: modelled_def)
  obtain s2 outs2 ins2 where
    s2: "(if fts_object_is_error W dst then fts_error_object_fit_inlet W dst winlet s1 else Some s1) = Some s2"
      "next_conn s2 = next_conn s" and m2: "models s2 outs2 ins2 ?G2"
    using models_fit_inlet [OF m1 W, of dst winlet] m1 s1(2)
    by (cases "fts_object_is_error W dst") (auto simp: modelled_def)
  obtain r s3 where add: "connection_add W ?valid (fts_object_get_patcher src s) src woutlet dst winlet type s2 = Some (r, s3)"
      "modelled s3 (if g_accepts W src woutlet dst winlet ?G2
           then g_add src woutlet dst winlet (if ?valid \<and> type = fts_c_null then fts_c_anything else type) ?G2 else ?G2)"
      "r = (if g_accepts W src woutlet dst winlet ?G2 then Some (next_conn s2) else None)"
  proof (cases "g_accepts W src woutlet dst winlet ?G2")
    case True
    note add = models_add [OF m2 W, of src woutlet dst winlet ?valid "fts_object_get_patcher src s" type, unfolded if_P [OF True]]
    from add obtain s3 where s3: "connection_add W ?valid (fts_object_get_patcher src s) src woutlet dst winlet type s2 = Some (Some (next_conn s2), s3)"
      "modelled s3 (g_add src woutlet dst winlet (if ?valid \<and> type = fts_c_null then fts_c_anything else type) ?G2)"
      using modelledI by blast
    show thesis by (rule that [of "Some (next_conn s2)" s3]) (simp_all only: if_P [OF True] s3)
  next
    case False
    note add = models_add [OF m2 W, of src woutlet dst winlet ?valid "fts_object_get_patcher src s" type, unfolded if_not_P [OF False]]
    show thesis by (rule that [of None s2]) (simp_all only: if_not_P [OF False] add modelledI [OF m2])
  qed
  consider (src) "fts_object_is_error W src \<and> type \<le> fts_c_hidden"
    | (dst) "\<not> (fts_object_is_error W src \<and> type \<le> fts_c_hidden)" "fts_object_is_error W dst \<and> type \<le> fts_c_hidden"
    | (add) "\<not> (fts_object_is_error W src \<and> type \<le> fts_c_hidden)" "\<not> (fts_object_is_error W dst \<and> type \<le> fts_c_hidden)"
    by blast
  then show ?thesis
  proof cases
    case src
    then show ?thesis using modelledI [OF m0] by (simp add: fts_connection_new_def g_new_def Let_def)
  next
    case dst
    then show ?thesis using modelledI [OF m1] s1(1)
      by (simp add: fts_connection_new_def g_new_def Let_def cong: if_cong)
  next
    case add': add
    have "fts_connection_new W src woutlet dst winlet type s = Some (r, s3)"
      using add' s1(1) s2(1) add(1) by (auto simp: fts_connection_new_def Let_def)
    moreover have "g_new W src woutlet dst winlet type G =
       (if g_accepts W src woutlet dst winlet ?G2
        then (True, g_add src woutlet dst winlet (if ?valid \<and> type = fts_c_null then fts_c_anything else type) ?G2)
        else (False, ?G2))"
      using add' by (auto simp: g_new_def Let_def)
    ultimately show ?thesis
      using add(2,3) s2(2)
      by (cases "g_accepts W src woutlet dst winlet ?G2"; simp only: if_True if_False fst_conv snd_conv; blast)
  qed
qed

lemma models_delete:
  assumes m: "models s outs ins G" and c: "c \<in> live_conns outs" and e: "ends s c = Some (x, i, y, j)"
  shows "\<exists>s'. fts_connection_delete c s = Some s' \<and> same_core s s'
           \<and> models s' (drop_conns {c} outs) (drop_conns {c} ins) (g_cut (\<lambda>x' i' y' j'. (x', i', y', j') = (x, i, y, j)) G)"
proof -
  note l = models_linked [OF m]
  have "c \<in> set (outs (x, i))" using ends_in_port(1) [OF l c e] by simp
  then obtain s' where s': "fts_connection_delete c s = Some s'" "same_core s s'"
      "linked s' (drop_conns {c} outs) (drop_conns {c} ins)"
    using connection_delete_spec [OF l] by blast
  have inj: "inj_on (ends s) (live_conns outs)" using linked_parts(4) [OF l] by (simp add: ends_ok_def)
  have "models s' (drop_conns {c} outs) (drop_conns {c} ins)
     ((g_cut (\<lambda>x' i' y' j'. (x', i', y', j') = (x, i, y, j)) G)\<lparr>g_ports := ports_of s'\<rparr>)"
  proof (intro models_cut [OF m s'(3)])
    show "conn_core s' = conn_core s" using s'(2) by (simp add: same_core_def)
    fix c' x' i' y' j'
    assume "c' \<in> live_conns outs" "ends s c' = Some (x', i', y', j')"
    with inj c e show "c' \<in> {c} \<longleftrightarrow> (x', i', y', j') = (x, i, y, j)" unfolding inj_on_def by (metis option.inject singletonD singletonI)
  qed
  moreover have "ports_of s' = g_ports G" using m same_core_ports [OF s'(2)] by (simp add: models_def)
  ultimately show ?thesis using s' by (auto simp: g_cut_def)
qed

lemma connection_get_spec:
  assumes m: "models s outs ins G" and i: "0 \<le> woutlet" "woutlet < fts_object_get_outlets_number src s"
  shows "\<exists>r. fts_connection_get src woutlet dst winlet s = Some r \<and> (r \<noteq> None \<longleftrightarrow> g_joined G src woutlet dst winlet)
           \<and> (\<forall>c. r = Some c \<longrightarrow> c \<in> live_conns outs \<and> ends s c = Some (src, woutlet, dst, winlet))"
proof -
  note l = models_linked [OF m]
  obtain p where p: "out_head s src woutlet = Some p"
    using out_head_range [OF linked_parts(1) [OF l], of src woutlet] i by auto
  then have "contexts s src \<noteq> None" by (auto simp: out_head_def split: option.splits)
  then have "fts_connection_get src woutlet dst winlet s = Some (find (to_port (ends s) (dst, winlet)) (outs (src, woutlet)))"
    using p find_same_src_spec [OF out_list [OF l p]] outs_conns [OF linked_parts(4) [OF l]]
    by (simp add: fts_connection_get_def)
  moreover have "find (to_port (ends s) (dst, winlet)) (outs (src, woutlet)) \<noteq> None \<longleftrightarrow> g_joined G src woutlet dst winlet"
    unfolding find_Some_iff models_joined [OF m, symmetric] joined_out [OF l] ..
  moreover have "c \<in> live_conns outs \<and> ends s c = Some (src, woutlet, dst, winlet)"
    if "find (to_port (ends s) (dst, winlet)) (outs (src, woutlet)) = Some c" for c
  proof -
    from that have c: "c \<in> set (outs (src, woutlet))" "to_port (ends s) (dst, winlet) c"
      by (auto simp: List.find_Some_iff)
    with ends_okD(1) [OF linked_parts(4) [OF l] c(1)] show ?thesis by (auto simp: to_port_Some live_conns_def)
  qed
  ultimately show ?thesis by blast
qed

lemma remove_connections_spec:
  fixes x :: obj
  assumes l: "linked s outs ins"
  defines "C \<equiv> (\<Union>i. set (outs (x, i))) \<union> (\<Union>i. set (ins (x, i)))"
  shows "\<exists>s'. patcher_data_remove_connections x s = Some s' \<and> same_core s s'
              \<and> linked s' (drop_conns C outs) (drop_conns C ins)"
proof -
  let ?A = "\<Union>i \<in> set [0..fts_object_get_outlets_number x s - 1]. set (outs (x, i))"
  obtain s1 where s1: "for_ports (remove_outlet x) [0..fts_object_get_outlets_number x s - 1] s = Some s1"
      "same_core s s1" "linked s1 (drop_conns ?A outs) (drop_conns ?A ins)"
  proof -
    have "\<exists>s1. for_ports (remove_outlet x) [0..fts_object_get_outlets_number x s - 1] s = Some s1
      \<and> same_core s s1 \<and> linked s1 (drop_conns ?A outs) (drop_conns ?A ins)"
    proof (rule for_ports_spec [where D = "\<lambda>i outs ins. set (outs (x, i))" and ?s0.0 = s])
      fix i s2 outs ins
      assume "linked s2 outs ins" "same_core s s2" "i \<in> set [0..fts_object_get_outlets_number x s - 1]"
      then show "\<exists>s'. remove_outlet x i s2 = Some s' \<and> same_core s2 s'
          \<and> linked s' (drop_conns (set (outs (x, i))) outs) (drop_conns (set (outs (x, i))) ins)"
        using same_core_numbers [of s s2 x] by (intro remove_outlet_spec) auto
    qed (use l in auto)
    then show thesis using that by blast
  qed
  let ?n = "fts_object_get_inlets_number x s1"
  let ?ins = "drop_conns ?A ins" and ?outs = "drop_conns ?A outs"
  let ?B = "\<Union>i \<in> set [0..?n - 1]. set (?ins (x, i))"
  obtain s2 where s2: "for_ports (remove_inlet x) [0..?n - 1] s1 = Some s2" "same_core s1 s2"
      "linked s2 (drop_conns ?B ?outs) (drop_conns ?B ?ins)"
  proof -
    have "\<exists>s2. for_ports (remove_inlet x) [0..?n - 1] s1 = Some s2 \<and> same_core s1 s2
        \<and> linked s2 (drop_conns ?B ?outs) (drop_conns ?B ?ins)"
    proof (rule for_ports_spec [where D = "\<lambda>i outs ins. set (ins (x, i))" and ?s0.0 = s1])
      fix i s2 outs ins
      assume "linked s2 outs ins" "same_core s1 s2" "i \<in> set [0..?n - 1]"
      then show "\<exists>s'. remove_inlet x i s2 = Some s' \<and> same_core s2 s'
          \<and> linked s' (drop_conns (set (ins (x, i))) outs) (drop_conns (set (ins (x, i))) ins)"
        using same_core_numbers [of s1 s2 x] by (intro remove_inlet_spec) auto
    qed (use s1(3) set_drop_conns in \<open>simp_all del: drop_conns_apply\<close>)
    then show thesis using that by blast
  qed
  have Nil: "outs (x, i) = []" if "i \<notin> set [0..fts_object_get_outlets_number x s - 1]" for i
    using that out_head_range [OF linked_parts(1) [OF l], of x i] linked_parts(2) [OF l]
    by (auto simp: outs_ok_def port_list_def dest!: spec [where x = x] spec [where x = i])
  have Nil': "ins (x, i) = []" if "i \<notin> set [0..?n - 1]" for i
    using that in_head_range [OF linked_parts(1) [OF l], of x i] linked_parts(3) [OF l] same_core_numbers [OF s1(2)]
    by (auto simp: ins_ok_def port_list_def dest!: spec [where x = x] spec [where x = i])
  have "?A = (\<Union>i. set (outs (x, i)))" using Nil by fastforce
  moreover have "?A \<union> ?B = ?A \<union> (\<Union>i. set (ins (x, i)))" using Nil' by fastforce
  ultimately have "?A \<union> ?B = C" by (simp add: C_def)
  then show ?thesis
    using s1 s2 same_core_trans [OF s1(2) s2(2)] by (simp add: patcher_data_remove_connections_def drop_conns_Un)
qed

subsection \<open>Editing a patch\<close>

text \<open>
  The operations an editing session makes; a connection to delete is given by the two ports it
  joins (the client holds its id).
\<close>

datatype patch_op =
    NewConnection obj int obj int int
  | DeleteConnection obj int obj int
  | SetInlets obj int
  | SetOutlets obj int
  | RemoveObject obj

fun patch_apply :: "patch_world \<Rightarrow> patch_op \<Rightarrow> patch \<Rightarrow> patch option" where
  "patch_apply W (NewConnection src woutlet dst winlet type) s =
     map_option snd (fts_connection_new W src woutlet dst winlet type s)"
| "patch_apply W (DeleteConnection src woutlet dst winlet) s =
     (if 0 \<le> woutlet \<and> woutlet < fts_object_get_outlets_number src s
      then Option.bind (fts_connection_get src woutlet dst winlet s)
             (\<lambda>r. case r of None \<Rightarrow> Some s | Some c \<Rightarrow> fts_connection_delete c s)
      else Some s)"
| "patch_apply W (SetInlets x n) s = fts_object_set_inlets_number W x n s"
| "patch_apply W (SetOutlets x n) s = fts_object_set_outlets_number W x n s"
| "patch_apply W (RemoveObject x) s = fts_object_remove_patcher_data x s"

fun patch_run :: "patch_world \<Rightarrow> patch_op list \<Rightarrow> patch \<Rightarrow> patch option" where
  "patch_run W [] s = Some s"
| "patch_run W (op # ops) s = Option.bind (patch_apply W op s) (patch_run W ops)"

fun graph_apply :: "patch_world \<Rightarrow> patch_op \<Rightarrow> graph \<Rightarrow> graph" where
  "graph_apply W (NewConnection src woutlet dst winlet type) G = snd (g_new W src woutlet dst winlet type G)"
| "graph_apply W (DeleteConnection src woutlet dst winlet) G =
     (if 0 \<le> woutlet \<and> woutlet < g_outlets G src
      then g_cut (\<lambda>x i y j. (x, i, y, j) = (src, woutlet, dst, winlet)) G else G)"
| "graph_apply W (SetInlets x n) G = g_set_inlets W x n G"
| "graph_apply W (SetOutlets x n) G = g_set_outlets W x n G"
| "graph_apply W (RemoveObject x) G =
     (let G0 = g_cut (\<lambda>x' i y j. x' = x \<or> y = x) G in G0\<lparr>g_ports := (g_ports G0)(x := None)\<rparr>)"

definition patch_empty :: patch where
  "patch_empty = \<lparr>contexts = Map.empty, conns = Map.empty, next_conn = 0\<rparr>"

definition graph_empty :: graph where
  "graph_empty = \<lparr>g_ports = Map.empty, g_targets = (\<lambda>_. []), g_sources = (\<lambda>_. [])\<rparr>"

fun edit_ok :: "patch_op \<Rightarrow> bool" where
  "edit_ok (SetInlets x n) \<longleftrightarrow> n \<ge> 0"
| "edit_ok (SetOutlets x n) \<longleftrightarrow> n \<ge> 0"
| "edit_ok _ \<longleftrightarrow> True"

lemma models_empty: "models patch_empty (\<lambda>_. []) (\<lambda>_. []) graph_empty"
  by (simp add: models_def linked_def arrays_ok_def outs_ok_def ins_ok_def ends_ok_def port_list_def out_head_def
      in_head_def live_conns_def patch_empty_def graph_empty_def ports_of_def fun_eq_iff)

text \<open>Removing an object: no connection of it is left, so its arrays can go.\<close>

lemma linked_forget:
  assumes l: "linked s outs ins" and Nil: "\<And>i. outs (x, i) = [] \<and> ins (x, i) = []"
  shows "linked (s\<lparr>contexts := (contexts s)(x := None)\<rparr>) outs ins" (is "linked ?s _ _")
proof -
  note lp = linked_parts [OF l]
  have heads: "out_head ?s y j = (if y = x then None else out_head s y j)"
    "in_head ?s y j = (if y = x then None else in_head s y j)" for y j
    by (simp_all add: out_head_def in_head_def)
  have nxt: "nxt_src ?s = nxt_src s" "nxt_dst ?s = nxt_dst s" "ends ?s = ends s"
    by (simp_all add: nxt_src_def nxt_dst_def ends_def fun_eq_iff)
  have "arrays_ok ?s" using lp(1) by (simp add: arrays_ok_def)
  moreover have "outs_ok ?s outs" "ins_ok ?s ins"
    using lp(2,3) Nil by (simp_all add: outs_ok_def ins_ok_def heads nxt port_list_def)
  ultimately show ?thesis using l nxt by (simp add: linked_def)
qed

lemma models_remove_object:
  assumes m: "models s outs ins G"
  shows "\<exists>s'. fts_object_remove_patcher_data x s = Some s' \<and> modelled s' (graph_apply W (RemoveObject x) G)"
proof (cases "contexts s x")
  case None
  note l = models_linked [OF m]
  have no: "x' \<noteq> x \<and> y \<noteq> x" if "c \<in> live_conns outs" "ends s c = Some (x', i, y, j)" for c x' i y j
  proof -
    have "c \<in> set (outs (x', i))" "c \<in> set (ins (y, j))" using ends_in_port [OF l that] by auto
    then show ?thesis
      using port_head(1) [OF linked_parts(2) [OF l]] port_head(2) [OF linked_parts(3) [OF l]] None
      by (fastforce simp: out_head_def in_head_def)
  qed
  have "models s (drop_conns {} outs) (drop_conns {} ins) ((g_cut (\<lambda>x' i y j. x' = x \<or> y = x) G)\<lparr>g_ports := ports_of s\<rparr>)"
    by (rule models_cut [OF m]) (use l no in auto)
  moreover have "(ports_of s)(x := None) = ports_of s" using None by (simp add: ports_of_def fun_eq_iff)
  ultimately show ?thesis
    using None m by (auto simp: fts_object_remove_patcher_data_def Let_def g_cut_def models_def intro!: modelledI)
next
  case (Some d)
  note l = models_linked [OF m]
  let ?C = "(\<Union>i. set (outs (x, i))) \<union> (\<Union>i. set (ins (x, i)))"
  obtain s1 where s1: "patcher_data_remove_connections x s = Some s1" "same_core s s1"
      "linked s1 (drop_conns ?C outs) (drop_conns ?C ins)"
    using remove_connections_spec [OF l, of x] by blast
  have "ctx_core s1 x \<noteq> None" using s1(2) Some by (simp add: same_core_def ctx_core_def)
  then obtain d1 where d1: "contexts s1 x = Some d1" by (auto simp: ctx_core_def)
  let ?s = "s1\<lparr>contexts := (contexts s1)(x := None)\<rparr>"
  have res: "fts_object_remove_patcher_data x s = Some ?s"
    using Some s1(1) d1 by (simp add: fts_object_remove_patcher_data_def patcher_data_remove_inoutlets_def)
  have "drop_conns ?C outs (x, i) = [] \<and> drop_conns ?C ins (x, i) = []" for i
    by (auto simp: filter_empty_conv)
  then have l': "linked ?s (drop_conns ?C outs) (drop_conns ?C ins)" by (intro linked_forget [OF s1(3)])
  have "models ?s (drop_conns ?C outs) (drop_conns ?C ins) ((g_cut (\<lambda>x' i y j. x' = x \<or> y = x) G)\<lparr>g_ports := ports_of ?s\<rparr>)"
    using m l'
  proof (rule models_cut)
    show "conn_core ?s = conn_core s" using s1(2) by (simp add: same_core_def conn_core_def fun_eq_iff)
    fix c x' i y j
    assume "c \<in> live_conns outs" "ends s c = Some (x', i, y, j)"
    from ends_in_port [OF l this] show "c \<in> ?C \<longleftrightarrow> x' = x \<or> y = x" by auto
  qed
  moreover have "ports_of ?s = (g_ports G)(x := None)"
    using m same_core_ports [OF s1(2)] by (auto simp: models_def ports_of_def fun_eq_iff)
  ultimately show ?thesis
    using res by (auto simp: Let_def g_cut_def intro!: modelledI)
qed

lemma patch_apply_spec:
  assumes "modelled s G" "world_ok W" "edit_ok op"
  shows "\<exists>s'. patch_apply W op s = Some s' \<and> modelled s' (graph_apply W op G)"
proof -
  obtain outs ins where m: "models s outs ins G" using assms(1) by (auto simp: modelled_def)
  show ?thesis
  proof (cases op)
    case (NewConnection src woutlet dst winlet type)
    then show ?thesis using models_new [OF m assms(2), of src woutlet dst winlet type] by auto
  next
    case (DeleteConnection src woutlet dst winlet)
    show ?thesis
    proof (cases "0 \<le> woutlet \<and> woutlet < g_outlets G src")
      case False
      then show ?thesis using DeleteConnection assms(1) by (auto simp: models_numbers [OF m])
    next
      case True
      let ?Q = "\<lambda>x i y j. (x, i, y, j) = (src, woutlet, dst, winlet)"
      obtain r where r: "fts_connection_get src woutlet dst winlet s = Some r" "r \<noteq> None \<longleftrightarrow> g_joined G src woutlet dst winlet"
          "\<forall>c. r = Some c \<longrightarrow> c \<in> live_conns outs \<and> ends s c = Some (src, woutlet, dst, winlet)"
        using connection_get_spec [OF m, of woutlet src dst winlet] True by (auto simp: models_numbers [OF m])
      show ?thesis
      proof (cases r)
        case None
        then have none: "\<not> joined s outs src woutlet dst winlet" using r(2) models_joined [OF m] by simp
        have "models s (drop_conns {} outs) (drop_conns {} ins) ((g_cut ?Q G)\<lparr>g_ports := ports_of s\<rparr>)"
          by (rule models_cut [OF m]) (use none models_linked [OF m] in \<open>auto simp: joined_def\<close>)
        moreover have "(g_cut ?Q G)\<lparr>g_ports := ports_of s\<rparr> = g_cut ?Q G" using m by (simp add: models_def g_cut_def)
        ultimately show ?thesis
          using DeleteConnection True None r(1) modelledI by (auto simp: models_numbers [OF m])
      next
        case (Some c)
        then obtain s' where "fts_connection_delete c s = Some s'"
            "models s' (drop_conns {c} outs) (drop_conns {c} ins) (g_cut ?Q G)"
          using models_delete [OF m, of c src woutlet dst winlet] r(3) by blast
        then show ?thesis
          using DeleteConnection True Some r(1) modelledI by (auto simp: models_numbers [OF m])
      qed
    qed
  next
    case (SetInlets x n)
    then show ?thesis using models_set_inlets [OF m assms(2)] assms(3) by fastforce
  next
    case (SetOutlets x n)
    then show ?thesis using models_set_outlets [OF m assms(2)] assms(3) by fastforce
  next
    case (RemoveObject x)
    then show ?thesis using models_remove_object [OF m, of x W] by simp
  qed
qed

lemma patch_run_spec:
  assumes "modelled s G" "world_ok W" "list_all edit_ok ops"
  shows "\<exists>s'. patch_run W ops s = Some s' \<and> modelled s' (fold (graph_apply W) ops G)"
  using assms(1,3)
proof (induction ops arbitrary: s G)
  case (Cons op ops)
  then show ?case using patch_apply_spec [OF Cons.prems(1) assms(2), of op] by fastforce
qed simp

subsection \<open>The graph is consistent\<close>

definition ends_of :: "obj \<times> int \<times> int \<Rightarrow> obj \<times> int" where
  "ends_of e = (case e of (y, j, _) \<Rightarrow> (y, j))"

lemma models_range:
  assumes m: "models s outs ins G" and e: "(y, j, ty) \<in> set (g_targets G (x, i))"
  shows "0 \<le> i \<and> i < g_outlets G x \<and> 0 \<le> j \<and> j < g_inlets G y"
proof -
  note l = linked_parts [OF models_linked [OF m]]
  obtain c where c: "c \<in> set (outs (x, i))" "target s c = (y, j, ty)" using m e by (auto simp: models_def)
  then obtain y' j' where "ends s c = Some (x, i, y', j')" "c \<in> set (ins (y', j'))" using ends_okD(1) [OF l(4)] by blast
  with c target_ends [of s c x i y' j'] have "c \<in> set (ins (y, j))" by auto
  with c(1) show ?thesis
    using out_head_range [OF l(1), of x i] in_head_range [OF l(1), of y j] port_head(1) [OF l(2)] port_head(2) [OF l(3)]
    by (fastforce simp: models_numbers [OF m])
qed

lemma models_mirror:
  assumes m: "models s outs ins G"
  shows "(y, j, ty) \<in> set (g_targets G (x, i)) \<longleftrightarrow> (x, i, ty) \<in> set (g_sources G (y, j))"
proof -
  note l = models_linked [OF m]
  have "(\<exists>c \<in> set (outs (x, i)). target s c = (y, j, ty)) \<longleftrightarrow> (\<exists>c \<in> set (ins (y, j)). source s c = (x, i, ty))"
  proof safe
    fix c
    assume c: "c \<in> set (outs (x, i))" and t: "target s c = (y, j, ty)"
    then obtain y' j' where "ends s c = Some (x, i, y', j')" "c \<in> set (ins (y', j'))"
      using ends_okD(1) [OF linked_parts(4) [OF l]] by blast
    with t target_ends [of s c x i y' j'] show "\<exists>c \<in> set (ins (y, j)). source s c = (x, i, ty)" by auto
  next
    fix c
    assume c: "c \<in> set (ins (y, j))" and t: "source s c = (x, i, ty)"
    then obtain x' i' where "ends s c = Some (x', i', y, j)" "c \<in> set (outs (x', i'))"
      using ends_okD(2) [OF linked_parts(4) [OF l]] by blast
    with t target_ends [of s c x' i' y j] show "\<exists>c \<in> set (outs (x, i)). target s c = (y, j, ty)" by auto
  qed
  then show ?thesis using m by (auto simp: models_def image_iff) (metis)+
qed

lemma models_distinct:
  assumes m: "models s outs ins G"
  shows "distinct (map ends_of (g_targets G p))"
proof -
  obtain x i where p: "p = (x, i)" by (cases p)
  note l = linked_parts [OF models_linked [OF m]]
  have "inj_on (\<lambda>c. ends_of (target s c)) (set (outs p))"
  proof (rule inj_onI)
    fix c c'
    assume c: "c \<in> set (outs p)" "c' \<in> set (outs p)" and eq: "ends_of (target s c) = ends_of (target s c')"
    obtain y j where e: "ends s c = Some (x, i, y, j)" using ends_okD(1) [OF l(4), of c x i] c(1) p by blast
    obtain y' j' where e': "ends s c' = Some (x, i, y', j')" using ends_okD(1) [OF l(4), of c' x i] c(2) p by blast
    have "ends s c = ends s c'"
      using eq target_ends [OF e] target_ends [OF e'] e e' by (auto simp: ends_of_def)
    moreover have "c \<in> live_conns outs" "c' \<in> live_conns outs" using c unfolding live_conns_def by blast+
    ultimately show "c = c'" using l(4) by (auto simp: ends_ok_def inj_on_def)
  qed
  moreover have "map ends_of (g_targets G p) = map (\<lambda>c. ends_of (target s c)) (outs p)"
    using m by (simp add: models_def p)
  ultimately show ?thesis using ports_distinct [OF l(2,3), of p] by (simp add: distinct_map)
qed

subsection \<open>Redefining an object\<close>

text \<open>
  \<open>fts_object_move_connections\<close> takes the first connection of an outlet, makes the same one for
  the new object and deletes the old one. Each new connection becomes the first of its list, so
  the new outlet sends in the reverse order.
\<close>

lemma connection_new_plain:
  assumes m: "models s outs ins G" and W: "world_ok W"
    and ok: "\<not> fts_object_is_error W src" "\<not> fts_object_is_error W dst" "type \<noteq> fts_c_null"
      "g_accepts W src woutlet dst winlet G"
  shows "\<exists>s' k. fts_connection_new W src woutlet dst winlet type s = Some (Some (next_conn s), s')
      \<and> models s' (outs((src, woutlet) := next_conn s # outs (src, woutlet)))
                  (ins((dst, winlet) := next_conn s # ins (dst, winlet))) (g_add src woutlet dst winlet type G)
      \<and> conn_core s' = (conn_core s)(next_conn s \<mapsto> k)"
proof -
  have "g_ports G src \<noteq> None" "g_ports G dst \<noteq> None"
    using ok(4) by (auto simp: g_accepts_def g_outlets_def g_inlets_def split: option.splits)
  then have "contexts s src \<noteq> None" "contexts s dst \<noteq> None" using m by (auto simp: models_def ports_of_def)
  then have "fts_object_get_patcher_data W dst (fts_object_get_patcher_data W src s) = s"
    by (auto simp: fts_object_get_patcher_data_def)
  with models_add [OF m W, of src woutlet dst winlet True "fts_object_get_patcher src s" type] ok show ?thesis
    by (simp add: fts_connection_new_def Let_def)
qed

lemma live_target:
  assumes m: "models s outs ins G" and "g_targets G (x, i) = (y, j, ty) # ts"
  shows "\<exists>c k. out_head s x i = Some (Some c) \<and> conns s c = Some k \<and> c \<in> live_conns outs \<and> ends s c = Some (x, i, y, j)
           \<and> c_src k = x \<and> c_woutlet k = i \<and> c_dst k = y \<and> c_winlet k = j \<and> c_type k = ty"
proof -
  note l = linked_parts [OF models_linked [OF m]]
  obtain c cs where c: "outs (x, i) = c # cs" "target s c = (y, j, ty)"
    using assms by (cases "outs (x, i)") (auto simp: models_def)
  then have mem: "c \<in> set (outs (x, i))" by simp
  then obtain y' j' where e: "ends s c = Some (x, i, y', j')" using ends_okD(1) [OF l(4)] by blast
  then obtain k where k: "conns s c = Some k" "c_src k = x" "c_woutlet k = i" by (auto simp: ends_def)
  have "c \<in> live_conns outs" using mem unfolding live_conns_def by blast
  with c k e target_ends [OF e] outs_head_Cons [OF l(2) c(1)] show ?thesis by (auto simp: target_def ends_def)
qed

lemma move_outlet_spec:
  assumes "models s outs ins G" "world_ok W" "old \<noteq> new" "\<not> fts_object_is_error W new"
    and "0 \<le> i" "i < g_outlets G old" "i < g_outlets G new"
    and "g_targets G (old, i) = ts" "g_targets G (new, i) = acc"
    and "\<And>y j ty. (y, j, ty) \<in> set ts \<Longrightarrow> ty \<ge> fts_c_anything \<and> \<not> fts_object_is_error W y
                   \<and> (y, j) \<notin> ends_of ` set acc \<and> connection_check W new i y j = Some True"
  shows "\<exists>s' G'. move_outlet W old new i s = Some s' \<and> modelled s' G'
           \<and> g_targets G' (old, i) = [] \<and> g_targets G' (new, i) = rev ts @ acc"
  using assms(1,6-)
proof (induction ts arbitrary: s outs ins G acc)
  case Nil
  note l = linked_parts [OF models_linked [OF Nil.prems(1)]]
  obtain h where "out_head s old i = Some h"
    using out_head_range [OF l(1), of old i] assms(5) Nil.prems(2) by (auto simp: models_numbers [OF Nil.prems(1)])
  moreover have "outs (old, i) = []" using Nil.prems by (simp add: models_def)
  ultimately have "out_head s old i = Some None" using outs_head_Nil [OF l(2)] by blast
  then have "move_outlet W old new i s = Some s" by (subst move_outlet.simps) simp
  then show ?case using modelledI [OF Nil.prems(1)] Nil.prems by auto
next
  case (Cons e ts)
  obtain y j ty where e: "e = (y, j, ty)" by (cases e)
  note m = Cons.prems(1)
  have ok: "ty \<ge> fts_c_anything" "\<not> fts_object_is_error W y" "(y, j) \<notin> ends_of ` set acc"
      "connection_check W new i y j = Some True"
    using Cons.prems(6) [of y j ty] e by auto
  obtain c k where c: "out_head s old i = Some (Some c)" "conns s c = Some k" "c \<in> live_conns outs" "ends s c = Some (old, i, y, j)"
      "c_woutlet k = i" "c_dst k = y" "c_winlet k = j" "c_type k = ty"
    using live_target [OF m] Cons.prems(4) e by blast
  have "0 \<le> j \<and> j < g_inlets G y" using models_range [OF m, of y j ty old i] Cons.prems(4) e by auto
  moreover have "\<not> g_joined G new i y j" using ok(3) Cons.prems(5) by (auto simp: g_joined_def ends_of_def)
  ultimately have acc: "g_accepts W new i y j G"
    using ok(4) assms(5) Cons.prems(3) by (simp add: g_accepts_def)
  obtain s1 k1 where s1: "fts_connection_new W new i y j ty s = Some (Some (next_conn s), s1)"
      and m1: "models s1 (outs((new, i) := next_conn s # outs (new, i))) (ins((y, j) := next_conn s # ins (y, j)))
                 (g_add new i y j ty G)" and core1: "conn_core s1 = (conn_core s)(next_conn s \<mapsto> k1)"
    using connection_new_plain [OF m assms(2,4) ok(2) _ acc, of ty] ok(1) by (auto simp: fts_c_null_def fts_c_anything_def)
  let ?outs = "outs((new, i) := next_conn s # outs (new, i))" and ?ins = "ins((y, j) := next_conn s # ins (y, j))"
  have fresh: "c \<noteq> next_conn s" using c(2) models_linked [OF m] by (auto simp: linked_def)
  have "ends s1 c = Some (old, i, y, j)" using c(4) fresh by (simp add: ends_core core1)
  moreover have "c \<in> live_conns ?outs" using c(3) unfolding live_conns_def by auto
  ultimately obtain s2 where s2: "fts_connection_delete c s1 = Some s2" "same_core s1 s2"
      and m2: "models s2 (drop_conns {c} ?outs) (drop_conns {c} ?ins)
        (g_cut (\<lambda>x' i' y' j'. (x', i', y', j') = (old, i, y, j)) (g_add new i y j ty G))" (is "models _ _ _ ?G2")
    using models_delete [OF m1] by blast
  have "(y, j) \<notin> ends_of ` set ts"
    using models_distinct [OF m, of "(old, i)"] Cons.prems(4) e by (force simp: ends_of_def)
  then have "(y, j, b) \<notin> set ts" for b by (force simp: ends_of_def image_iff)
  then have "filter (\<lambda>(y', j', _). \<not> (y' = y \<and> j' = j)) ts = ts" by (auto simp: filter_id_conv)
  then have ts: "g_targets ?G2 (old, i) = ts"
    using Cons.prems(4) e assms(3) by (simp add: g_cut_def g_add_def)
  have acc': "g_targets ?G2 (new, i) = (y, j, ty) # acc"
    using Cons.prems(5) assms(3) by (simp add: g_cut_def g_add_def)
  have nums: "g_outlets ?G2 x = g_outlets G x" for x by (simp add: g_cut_def g_add_def g_outlets_def)
  have "(y', j', ty') \<in> set ts \<Longrightarrow> ty' \<ge> fts_c_anything \<and> \<not> fts_object_is_error W y'
         \<and> (y', j') \<notin> ends_of ` set ((y, j, ty) # acc) \<and> connection_check W new i y' j' = Some True" for y' j' ty'
    using Cons.prems(6) [of y' j' ty'] \<open>(y, j) \<notin> ends_of ` set ts\<close> by (force simp: ends_of_def)
  then obtain s3 G3 where s3: "move_outlet W old new i s2 = Some s3" "modelled s3 G3"
      "g_targets G3 (old, i) = []" "g_targets G3 (new, i) = rev ts @ (y, j, ty) # acc"
    using Cons.IH [OF m2 _ _ ts acc'] Cons.prems(2,3) nums by auto
  have "move_outlet W old new i s = move_outlet W old new i s2"
    using c s1 s2 ok(1) Cons.prems(3) models_numbers(2) [OF m, of new]
    by (subst move_outlet.simps) (simp add: fts_c_anything_def fts_c_hidden_def)
  with s3 e show ?case by auto
qed

end
