(* ===== verification/Outlet.thy ===== *)
theory Outlet
  imports Connection
begin

text \<open>
  Sending values and messages through outlets (\<open>fts/outlet.c\<close>, the sending half of
  \<open>fts/message.c\<close>, the object stack of \<open>include/ftsprivate/outlet.h\<close>).

  An outlet goes through its list of connections and calls a method of each destination: the
  class's input handler if it has one, else the method declared for the inlet and the type of
  the value, else an error. A connection remembers the last method it found in its cache.

  The methods belong to the packages, so they are a parameter: \<open>M m x s args u i\<close> is what method
  \<open>m\<close> does when it is called for object \<open>x\<close> with selector \<open>s\<close> and arguments \<open>args\<close> while the
  objects' own state is \<open>u\<close> and the message inlet of \<open>x\<close> is \<open>i\<close>. It computes on that state and
  sends through outlets; after each output it goes on with the state and the message inlet it
  finds. Methods that edit the patch while a value is being sent are outside the model.

  Methods may send in a cycle, so a call takes fuel; running out of it is an outcome of its own,
  different from a call through a null method pointer.
\<close>

subsection \<open>Outcomes\<close>

datatype 'a outcome = Done 'a | Fault | NoFuel

fun andThen :: "'a outcome \<Rightarrow> ('a \<Rightarrow> 'b outcome) \<Rightarrow> 'b outcome" where
  "andThen (Done x) f = f x"
| "andThen Fault f = Fault"
| "andThen NoFuel f = NoFuel"

subsection \<open>State\<close>

datatype out_error =
    NoInletMethod class_ref int
  | NoVarargsMethod int
  | NoMessageMethod addr
  | StackOverflow int
  | OutletOutOfRange int

text \<open>
  \<open>fts_objstack\<close> is written only below \<open>FTS_OBJSTACK_SIZE\<close>; \<open>fts_object_error\<close> adds to the log.
\<close>

record 'u machine =
  m_user :: 'u
  m_patch :: patch
  m_top :: nat
  m_stack :: "nat \<Rightarrow> obj"
  m_errors :: "(obj \<times> out_error) list"

definition FTS_OBJSTACK_SIZE :: nat where "FTS_OBJSTACK_SIZE = 8 * 1024"
definition FTS_CALL_DEPTH :: nat where "FTS_CALL_DEPTH = 16 * 1024"

definition FTS_REACHED_MAX_CALL_DEPTH :: "'u machine \<Rightarrow> bool" where
  "FTS_REACHED_MAX_CALL_DEPTH st \<longleftrightarrow> m_top st \<ge> FTS_CALL_DEPTH"

definition FTS_OBJSTACK_PUSH :: "obj \<Rightarrow> 'u machine \<Rightarrow> 'u machine" where
  "FTS_OBJSTACK_PUSH x st =
     (if m_top st < FTS_OBJSTACK_SIZE
      then st\<lparr>m_stack := (m_stack st)(m_top st := x), m_top := m_top st + 1\<rparr>
      else st\<lparr>m_top := m_top st + 1\<rparr>)"

definition FTS_OBJSTACK_POP :: "'u machine \<Rightarrow> 'u machine" where
  "FTS_OBJSTACK_POP st = st\<lparr>m_top := m_top st - 1\<rparr>"

definition fts_get_current_object :: "'u machine \<Rightarrow> obj option" where
  "fts_get_current_object st =
     (if m_top st > 0 \<and> m_top st \<le> FTS_OBJSTACK_SIZE then Some (m_stack st (m_top st - 1)) else None)"

definition object_error :: "obj \<Rightarrow> out_error \<Rightarrow> 'u machine \<Rightarrow> 'u machine" where
  "object_error x e st = st\<lparr>m_errors := m_errors st @ [(x, e)]\<rparr>"

definition fts_object_get_message_inlet :: "obj \<Rightarrow> patch \<Rightarrow> int" where
  "fts_object_get_message_inlet x s = (case contexts s x of None \<Rightarrow> 0 | Some d \<Rightarrow> pd_winlet d)"

definition fts_object_set_message_inlet :: "obj \<Rightarrow> int \<Rightarrow> patch \<Rightarrow> patch" where
  "fts_object_set_message_inlet x i s =
     (case contexts s x of None \<Rightarrow> s
      | Some d \<Rightarrow> s\<lparr>contexts := (contexts s)(x \<mapsto> d\<lparr>pd_winlet := i\<rparr>)\<rparr>)"

definition set_cache :: "cid \<Rightarrow> message_cache \<Rightarrow> patch \<Rightarrow> patch" where
  "set_cache c cache s =
     (case conns s c of None \<Rightarrow> s | Some k \<Rightarrow> s\<lparr>conns := (conns s)(c \<mapsto> k\<lparr>c_cache := cache\<rparr>)\<rparr>)"

definition upd_patch :: "(patch \<Rightarrow> patch) \<Rightarrow> 'u machine \<Rightarrow> 'u machine" where
  "upd_patch f st = st\<lparr>m_patch := f (m_patch st)\<rparr>"

subsection \<open>Looking up a method\<close>

text \<open>
  What is asked for: the method of an inlet for a type, the varargs method of an inlet, or the
  method of a message. The answer is the method pointer that is called (a cached one may be
  \<open>NULL\<close>) or that there is none, and the connection's cache afterwards.
\<close>

datatype request = RAtom class_ref | RVarargs | RMessage addr "class_ref option"
datatype found = Method "fts_method option" | NoMethod

type_synonym lookup = "request \<Rightarrow> connection \<Rightarrow> found \<times> message_cache"

fun cached_lookup :: "patch_world \<Rightarrow> lookup" where
  "cached_lookup W (RAtom type) k =
     (let cache = c_cache k
      in if mc_selector cache \<noteq> 0 \<or> mc_type cache \<noteq> Some type
         then (case fts_class_get_inlet_method (object_class W (c_dst k)) (c_winlet k) (Some type) of
                 Some m \<Rightarrow> (Method (Some m), \<lparr>mc_selector = 0, mc_type = Some type, mc_method = Some m\<rparr>)
               | None \<Rightarrow> (NoMethod, cache))
         else (Method (mc_method cache), cache))"
| "cached_lookup W RVarargs k =
     (let cache = c_cache k
      in if mc_selector cache \<noteq> 0 \<or> mc_method cache = None \<or> mc_type cache \<noteq> None
         then (case fts_class_get_inlet_method (object_class W (c_dst k)) (c_winlet k) None of
                 Some m \<Rightarrow> (Method (Some m), \<lparr>mc_selector = 0, mc_type = None, mc_method = Some m\<rparr>)
               | None \<Rightarrow> (NoMethod, cache))
         else (Method (mc_method cache), cache))"
| "cached_lookup W (RMessage s type) k =
     (let cache = c_cache k
      in if mc_selector cache = s \<and> mc_type cache = type
         then (if mc_method cache = None then NoMethod else Method (mc_method cache), cache)
         else (let m = fts_class_get_method (object_class W (c_dst k)) s type
               in (if m = None then NoMethod else Method m, \<lparr>mc_selector = s, mc_type = type, mc_method = m\<rparr>)))"

subsection \<open>Sending\<close>

type_synonym 'u call = "obj \<Rightarrow> fts_method \<Rightarrow> addr \<Rightarrow> atom list \<Rightarrow> 'u machine \<Rightarrow> 'u machine outcome"

text \<open>\<open>INVOKE(method, dst, s, ac, at)\<close>\<close>

definition INVOKE :: "'u call \<Rightarrow> fts_method option \<Rightarrow> obj \<Rightarrow> addr \<Rightarrow> atom list \<Rightarrow> 'u machine \<Rightarrow> 'u machine outcome" where
  "INVOKE call m dst s args st =
     (case m of None \<Rightarrow> Fault
      | Some f \<Rightarrow> andThen (call dst f s args (FTS_OBJSTACK_PUSH dst st)) (\<lambda>st'. Done (FTS_OBJSTACK_POP st')))"

text \<open>The bodies of the three loops, for a connection \<open>c\<close> whose fields are \<open>k\<close>.\<close>

definition atom_args :: "atom \<Rightarrow> atom list" where
  "atom_args a = (if a = AVoid then [] else [a])"

definition deliver_atom :: "patch_world \<Rightarrow> lookup \<Rightarrow> 'u call \<Rightarrow> atom \<Rightarrow> cid \<Rightarrow> connection \<Rightarrow> 'u machine \<Rightarrow> 'u machine outcome" where
  "deliver_atom W L call at c k st =
     (let dst = c_dst k; winlet = c_winlet k; type = fts_get_class (w_env W) at;
          st1 = upd_patch (fts_object_set_message_inlet dst winlet) st
      in case cl_input_handler (object_class W dst) of
           Some h \<Rightarrow> call dst h 0 (atom_args at) st1
         | None \<Rightarrow>
             (case L (RAtom type) k of
                (NoMethod, _) \<Rightarrow> Done (object_error dst (NoInletMethod type winlet) st1)
              | (Method m, cache) \<Rightarrow> INVOKE call m dst 0 (atom_args at) (upd_patch (set_cache c cache) st1)))"

definition deliver_varargs :: "patch_world \<Rightarrow> lookup \<Rightarrow> 'u call \<Rightarrow> atom list \<Rightarrow> cid \<Rightarrow> connection \<Rightarrow> 'u machine \<Rightarrow> 'u machine outcome" where
  "deliver_varargs W L call args c k st =
     (let dst = c_dst k; winlet = c_winlet k;
          st1 = upd_patch (fts_object_set_message_inlet dst winlet) st
      in case cl_input_handler (object_class W dst) of
           Some h \<Rightarrow> call dst h 0 args st1
         | None \<Rightarrow>
             (case L RVarargs k of
                (NoMethod, _) \<Rightarrow> Done (object_error dst (NoVarargsMethod winlet) st1)
              | (Method m, cache) \<Rightarrow> INVOKE call m dst 0 args (upd_patch (set_cache c cache) st1)))"

text \<open>\<open>fts_send_message_cached\<close>: a single void argument counts as none. It does not use the object stack.\<close>

definition message_type :: "patch_world \<Rightarrow> atom list \<Rightarrow> class_ref option" where
  "message_type W args =
     (case args of [] \<Rightarrow> Some VoidClass | [a] \<Rightarrow> Some (fts_get_class (w_env W) a) | _ \<Rightarrow> None)"

definition message_args :: "atom list \<Rightarrow> atom list" where
  "message_args args = (if args = [AVoid] then [] else args)"

definition deliver_message :: "patch_world \<Rightarrow> lookup \<Rightarrow> 'u call \<Rightarrow> addr \<Rightarrow> atom list \<Rightarrow> cid \<Rightarrow> connection \<Rightarrow> 'u machine \<Rightarrow> 'u machine outcome" where
  "deliver_message W L call s args c k st =
     (let dst = c_dst k; winlet = c_winlet k;
          st1 = upd_patch (fts_object_set_message_inlet dst winlet) st
      in case cl_input_handler (object_class W dst) of
           Some h \<Rightarrow> call dst h s args st1
         | None \<Rightarrow>
             (case L (RMessage s (message_type W args)) k of
                (NoMethod, cache) \<Rightarrow> Done (object_error dst (NoMessageMethod s) (upd_patch (set_cache c cache) st1))
              | (Method m, cache) \<Rightarrow>
                  (case m of None \<Rightarrow> Fault
                   | Some f \<Rightarrow> call dst f s (message_args args) (upd_patch (set_cache c cache) st1))))"

text \<open>\<open>fts_send_message\<close>: the same without a cache, and with the method as its result.\<close>

definition fts_send_message :: "patch_world \<Rightarrow> 'u call \<Rightarrow> obj \<Rightarrow> addr \<Rightarrow> atom list \<Rightarrow> 'u machine
    \<Rightarrow> (fts_method option \<times> 'u machine) outcome" where
  "fts_send_message W call x s args st =
     (case fts_class_get_method (object_class W x) s (message_type W args) of
        None \<Rightarrow> Done (None, st)
      | Some m \<Rightarrow> andThen (call x m s (message_args args) st) (\<lambda>st'. Done (Some m, st')))"

text \<open>\<open>while(conn) { ...; conn = fts_connection_get_next_of_same_source(conn); }\<close>\<close>

fun outlet_loop :: "(cid \<Rightarrow> connection \<Rightarrow> 'u machine \<Rightarrow> 'u machine outcome) \<Rightarrow> nat \<Rightarrow> cid option \<Rightarrow> 'u machine
    \<Rightarrow> 'u machine outcome" where
  "outlet_loop deliver 0 conn st = NoFuel"
| "outlet_loop deliver (Suc n) None st = Done st"
| "outlet_loop deliver (Suc n) (Some c) st =
     (case conns (m_patch st) c of None \<Rightarrow> Fault
      | Some k \<Rightarrow> andThen (deliver c k st)
                   (\<lambda>st'. outlet_loop deliver n (Option.bind (conns (m_patch st') c) next_same_src) st'))"

text \<open>\<open>check_outlet\<close>, the head of the outlet's list, and the test of the call depth.\<close>

definition check_outlet :: "obj \<Rightarrow> int \<Rightarrow> 'u machine \<Rightarrow> bool" where
  "check_outlet x woutlet st \<longleftrightarrow> \<not> (woutlet \<ge> fts_object_get_outlets_number x (m_patch st) \<or> woutlet < 0)"

definition outlet_send :: "(cid \<Rightarrow> connection \<Rightarrow> 'u machine \<Rightarrow> 'u machine outcome) \<Rightarrow> nat \<Rightarrow> obj \<Rightarrow> int \<Rightarrow> 'u machine
    \<Rightarrow> 'u machine outcome" where
  "outlet_send deliver n x woutlet st =
     (if check_outlet x woutlet st
      then (case out_head (m_patch st) x woutlet of None \<Rightarrow> Fault
            | Some conn \<Rightarrow>
                if \<not> FTS_REACHED_MAX_CALL_DEPTH st then outlet_loop deliver n conn st
                else Done (object_error x (StackOverflow woutlet) st))
      else Done (object_error x (OutletOutOfRange woutlet) st))"

definition outlet_atom :: "patch_world \<Rightarrow> lookup \<Rightarrow> 'u call \<Rightarrow> nat \<Rightarrow> obj \<Rightarrow> int \<Rightarrow> atom \<Rightarrow> 'u machine \<Rightarrow> 'u machine outcome" where
  "outlet_atom W L call n x woutlet at st = outlet_send (deliver_atom W L call at) n x woutlet st"

definition outlet_varargs :: "patch_world \<Rightarrow> lookup \<Rightarrow> 'u call \<Rightarrow> nat \<Rightarrow> obj \<Rightarrow> int \<Rightarrow> atom list \<Rightarrow> 'u machine \<Rightarrow> 'u machine outcome" where
  "outlet_varargs W L call n x woutlet args st = outlet_send (deliver_varargs W L call args) n x woutlet st"

definition fts_outlet_varargs :: "patch_world \<Rightarrow> lookup \<Rightarrow> 'u call \<Rightarrow> nat \<Rightarrow> obj \<Rightarrow> int \<Rightarrow> atom list \<Rightarrow> 'u machine \<Rightarrow> 'u machine outcome" where
  "fts_outlet_varargs W L call n x woutlet args st =
     (case args of [] \<Rightarrow> outlet_atom W L call n x woutlet AVoid st
      | [a] \<Rightarrow> outlet_atom W L call n x woutlet a st
      | _ \<Rightarrow> outlet_varargs W L call n x woutlet args st)"

definition fts_outlet_message :: "patch_world \<Rightarrow> lookup \<Rightarrow> 'u call \<Rightarrow> nat \<Rightarrow> obj \<Rightarrow> int \<Rightarrow> addr \<Rightarrow> atom list \<Rightarrow> 'u machine \<Rightarrow> 'u machine outcome" where
  "fts_outlet_message W L call n x woutlet s args st = outlet_send (deliver_message W L call s args) n x woutlet st"

definition fts_outlet_send :: "patch_world \<Rightarrow> lookup \<Rightarrow> 'u call \<Rightarrow> nat \<Rightarrow> obj \<Rightarrow> int \<Rightarrow> addr \<Rightarrow> atom list \<Rightarrow> 'u machine \<Rightarrow> 'u machine outcome" where
  "fts_outlet_send W L call n x woutlet s args st =
     (if s = 0 then fts_outlet_varargs W L call n x woutlet args st
      else fts_outlet_message W L call n x woutlet s args st)"

subsection \<open>Methods\<close>

text \<open>The output functions of the API.\<close>

datatype out_cmd =
    OutBang int
  | OutInt int int32
  | OutFloat int double
  | OutSymbol int addr
  | OutObject int obj
  | OutAtom int atom
  | OutVarargs int "atom list"
  | OutMessage int addr "atom list"
  | OutSend int addr "atom list"

fun fts_output :: "patch_world \<Rightarrow> lookup \<Rightarrow> 'u call \<Rightarrow> nat \<Rightarrow> obj \<Rightarrow> out_cmd \<Rightarrow> 'u machine \<Rightarrow> 'u machine outcome" where
  "fts_output W L call n x (OutBang i) st = outlet_atom W L call n x i AVoid st"
| "fts_output W L call n x (OutInt i m) st = outlet_atom W L call n x i (AInt m) st"
| "fts_output W L call n x (OutFloat i d) st = outlet_atom W L call n x i (AFloat d) st"
| "fts_output W L call n x (OutSymbol i s) st = outlet_atom W L call n x i (ASymbol s) st"
| "fts_output W L call n x (OutObject i y) st = outlet_atom W L call n x i (AObject y) st"
| "fts_output W L call n x (OutAtom i a) st = outlet_atom W L call n x i a st"
| "fts_output W L call n x (OutVarargs i args) st = fts_outlet_varargs W L call n x i args st"
| "fts_output W L call n x (OutMessage i s args) st = fts_outlet_message W L call n x i s args st"
| "fts_output W L call n x (OutSend i s args) st = fts_outlet_send W L call n x i s args st"

text \<open>
  A running method: it is done, with a new state of the objects, or it sends through an outlet of
  an object and goes on with the state and the message inlet it finds then.
\<close>

datatype 'u act = Finish 'u | Output 'u obj out_cmd "'u \<Rightarrow> int \<Rightarrow> 'u act"

type_synonym 'u methods = "fts_method \<Rightarrow> obj \<Rightarrow> addr \<Rightarrow> atom list \<Rightarrow> 'u \<Rightarrow> int \<Rightarrow> 'u act"

primrec run_act :: "(obj \<Rightarrow> out_cmd \<Rightarrow> 'u machine \<Rightarrow> 'u machine outcome) \<Rightarrow> obj \<Rightarrow> 'u act \<Rightarrow> 'u machine \<Rightarrow> 'u machine outcome"
where
  "run_act out x (Finish u) st = Done (st\<lparr>m_user := u\<rparr>)"
| "run_act out x (Output u y cmd k) st =
     andThen (out y cmd (st\<lparr>m_user := u\<rparr>))
       (\<lambda>st'. run_act out x (k (m_user st') (fts_object_get_message_inlet x (m_patch st'))) st')"

fun call_method :: "patch_world \<Rightarrow> lookup \<Rightarrow> 'u methods \<Rightarrow> nat \<Rightarrow> 'u call" where
  "call_method W L M 0 x m s args st = NoFuel"
| "call_method W L M (Suc n) x m s args st =
     run_act (fts_output W L (call_method W L M n) n) x
       (M m x s args (m_user st) (fts_object_get_message_inlet x (m_patch st))) st"

definition send :: "patch_world \<Rightarrow> lookup \<Rightarrow> 'u methods \<Rightarrow> nat \<Rightarrow> obj \<Rightarrow> out_cmd \<Rightarrow> 'u machine \<Rightarrow> 'u machine outcome" where
  "send W L M n x cmd st = fts_output W L (call_method W L M n) n x cmd st"

subsection \<open>Reference: no caches\<close>

text \<open>The method is looked up anew for every delivery, and caches are neither read nor written.\<close>

fun plain_lookup :: "patch_world \<Rightarrow> lookup" where
  "plain_lookup W (RAtom type) k =
     (case fts_class_get_inlet_method (object_class W (c_dst k)) (c_winlet k) (Some type) of
        Some m \<Rightarrow> Method (Some m) | None \<Rightarrow> NoMethod, c_cache k)"
| "plain_lookup W RVarargs k =
     (case fts_class_get_inlet_method (object_class W (c_dst k)) (c_winlet k) None of
        Some m \<Rightarrow> Method (Some m) | None \<Rightarrow> NoMethod, c_cache k)"
| "plain_lookup W (RMessage s type) k =
     (case fts_class_get_method (object_class W (c_dst k)) s type of
        Some m \<Rightarrow> Method (Some m) | None \<Rightarrow> NoMethod, c_cache k)"

text \<open>A cache that is in order holds what a fresh lookup of its selector and type finds.\<close>

definition cache_ok :: "patch_world \<Rightarrow> connection \<Rightarrow> bool" where
  "cache_ok W k \<longleftrightarrow>
     (let cl = object_class W (c_dst k); cache = c_cache k
      in if mc_selector cache = 0
         then (mc_type cache = None \<and> mc_method cache = None)
              \<or> (mc_method cache \<noteq> None \<and> mc_method cache = fts_class_get_inlet_method cl (c_winlet k) (mc_type cache))
         else mc_method cache = fts_class_get_method cl (mc_selector cache) (mc_type cache))"

definition caches_ok :: "patch_world \<Rightarrow> patch \<Rightarrow> bool" where
  "caches_ok W s \<longleftrightarrow> (\<forall>c k. conns s c = Some k \<longrightarrow> cache_ok W k)"

fun request_ok :: "request \<Rightarrow> bool" where
  "request_ok (RMessage s type) \<longleftrightarrow> s \<noteq> 0"
| "request_ok _ \<longleftrightarrow> True"

lemma cached_lookup_plain:
  assumes "cache_ok W k" "request_ok r"
  shows "fst (cached_lookup W r k) = fst (plain_lookup W r k)"
    and "cache_ok W (k\<lparr>c_cache := snd (cached_lookup W r k)\<rparr>)"
  using assms
  by (cases r; auto simp: cache_ok_def Let_def split: option.splits if_splits)+

lemma cache_init_ok: "cache_ok W (k\<lparr>c_cache := fts_message_cache_init\<rparr>)"
  by (simp add: cache_ok_def fts_message_cache_init_def)

subsection \<open>The caches make no difference\<close>

definition erase_conn :: "connection \<Rightarrow> connection" where
  "erase_conn k = k\<lparr>c_cache := fts_message_cache_init\<rparr>"

definition erase_patch :: "patch \<Rightarrow> patch" where
  "erase_patch s = s\<lparr>conns := (\<lambda>c. map_option erase_conn (conns s c))\<rparr>"

definition erase :: "'u machine \<Rightarrow> 'u machine" where
  "erase st = upd_patch erase_patch st"

lemma erase_conn_simps [simp]:
  "c_dst (erase_conn k) = c_dst k" "c_winlet (erase_conn k) = c_winlet k" "c_src (erase_conn k) = c_src k"
  "next_same_src (erase_conn k) = next_same_src k" "c_cache (erase_conn k) = fts_message_cache_init"
  by (simp_all add: erase_conn_def)

lemma erase_patch_simps [simp]:
  "contexts (erase_patch s) = contexts s" "conns (erase_patch s) c = map_option erase_conn (conns s c)"
  "out_head (erase_patch s) = out_head s" "fts_object_get_outlets_number x (erase_patch s) = fts_object_get_outlets_number x s"
  "fts_object_get_message_inlet x (erase_patch s) = fts_object_get_message_inlet x s"
  by (simp_all add: erase_patch_def out_head_def fts_object_get_outlets_number_def fts_object_get_message_inlet_def fun_eq_iff)

lemma erase_simps [simp]:
  "m_user (erase st) = m_user st" "m_patch (erase st) = erase_patch (m_patch st)" "m_top (erase st) = m_top st"
  "m_stack (erase st) = m_stack st" "m_errors (erase st) = m_errors st"
  "erase (st\<lparr>m_user := u\<rparr>) = (erase st)\<lparr>m_user := u\<rparr>"
  by (simp_all add: erase_def upd_patch_def)

lemma erase_ops [simp]:
  "erase (FTS_OBJSTACK_PUSH x st) = FTS_OBJSTACK_PUSH x (erase st)"
  "erase (FTS_OBJSTACK_POP st) = FTS_OBJSTACK_POP (erase st)"
  "erase (object_error x e st) = object_error x e (erase st)"
  "check_outlet x i (erase st) = check_outlet x i st"
  "FTS_REACHED_MAX_CALL_DEPTH (erase st) = FTS_REACHED_MAX_CALL_DEPTH st"
  by (simp_all add: FTS_OBJSTACK_PUSH_def FTS_OBJSTACK_POP_def object_error_def check_outlet_def
      FTS_REACHED_MAX_CALL_DEPTH_def erase_def upd_patch_def)

lemma erase_message_inlet [simp]:
  "erase (upd_patch (fts_object_set_message_inlet x i) st) = upd_patch (fts_object_set_message_inlet x i) (erase st)"
  by (simp add: erase_def upd_patch_def fts_object_set_message_inlet_def erase_patch_def split: option.split)

lemma erase_set_cache [simp]:
  "erase (upd_patch (set_cache c cache) st) = erase st"
  by (auto simp: erase_def upd_patch_def set_cache_def erase_patch_def erase_conn_def fun_eq_iff split: option.split)

lemma erase_set_cache_init:
  "conns (m_patch st) c = Some k \<Longrightarrow> upd_patch (set_cache c fts_message_cache_init) (erase st) = erase st"
  by (simp add: erase_def upd_patch_def set_cache_def erase_patch_def erase_conn_def fun_upd_idem)

lemma conns_message_inlet [simp]:
  "conns (m_patch (upd_patch (fts_object_set_message_inlet x i) st)) = conns (m_patch st)"
  by (simp add: upd_patch_def fts_object_set_message_inlet_def split: option.split)

lemma conns_machine_ops [simp]:
  "m_patch (FTS_OBJSTACK_PUSH x st) = m_patch st" "m_patch (FTS_OBJSTACK_POP st) = m_patch st"
  "m_patch (object_error x e st) = m_patch st"
  by (simp_all add: FTS_OBJSTACK_PUSH_def FTS_OBJSTACK_POP_def object_error_def)

lemma caches_ok_set_cache:
  "caches_ok W (m_patch st) \<Longrightarrow> conns (m_patch st) c = Some k \<Longrightarrow> cache_ok W (k\<lparr>c_cache := cache\<rparr>) \<Longrightarrow>
   caches_ok W (m_patch (upd_patch (set_cache c cache) st))"
  by (auto simp: caches_ok_def upd_patch_def set_cache_def)

lemma caches_ok_conns: "conns s' = conns s \<Longrightarrow> caches_ok W s' = caches_ok W s"
  by (simp add: caches_ok_def)

text \<open>A run and its cache-free copy.\<close>

definition follows :: "patch_world \<Rightarrow> 'u machine outcome \<Rightarrow> 'u machine outcome \<Rightarrow> bool" where
  "follows W r r' \<longleftrightarrow> r' = map_outcome erase r \<and> (\<forall>st. r = Done st \<longrightarrow> caches_ok W (m_patch st))"

lemma follows_Done [simp]: "follows W (Done st) (Done st') \<longleftrightarrow> st' = erase st \<and> caches_ok W (m_patch st)"
  by (auto simp: follows_def)

lemma follows_fail [simp]: "follows W Fault Fault" "follows W NoFuel NoFuel"
  by (simp_all add: follows_def)

lemma follows_andThen:
  assumes "follows W r r'" "\<And>st. caches_ok W (m_patch st) \<Longrightarrow> follows W (f st) (g (erase st))"
  shows "follows W (andThen r f) (andThen r' g)"
  using assms by (cases r) (auto simp: follows_def)

definition calls_follow :: "patch_world \<Rightarrow> 'u call \<Rightarrow> 'u call \<Rightarrow> bool" where
  "calls_follow W call call' \<longleftrightarrow>
     (\<forall>x m s args st. caches_ok W (m_patch st) \<longrightarrow> follows W (call x m s args st) (call' x m s args (erase st)))"

lemma INVOKE_follows:
  assumes "calls_follow W call call'" "caches_ok W (m_patch st)"
  shows "follows W (INVOKE call m x s args st) (INVOKE call' m x s args (erase st))"
proof (cases m)
  case (Some f)
  have "follows W (call x f s args (FTS_OBJSTACK_PUSH x st)) (call' x f s args (FTS_OBJSTACK_PUSH x (erase st)))"
    using assms by (simp add: calls_follow_def flip: erase_ops)
  then show ?thesis
    unfolding INVOKE_def Some option.case by (rule follows_andThen) simp
qed (simp add: INVOKE_def)

text \<open>One delivery: the two lookups agree, and the new cache is in order.\<close>

lemma lookups_follow:
  fixes st :: "'u machine"
  assumes "caches_ok W (m_patch st)" "conns (m_patch st) c = Some k" "request_ok r"
  obtains f cache where "cached_lookup W r k = (f, cache)" "plain_lookup W r (erase_conn k) = (f, fts_message_cache_init)"
    "\<And>st' :: 'u machine. conns (m_patch st') = conns (m_patch st) \<Longrightarrow>
        caches_ok W (m_patch (upd_patch (set_cache c cache) st'))"
proof -
  obtain f cache where c: "cached_lookup W r k = (f, cache)" by (cases "cached_lookup W r k")
  have ok: "cache_ok W k" using assms(1,2) by (simp add: caches_ok_def)
  have "plain_lookup W r (erase_conn k) = (fst (plain_lookup W r k), fts_message_cache_init)"
    by (cases r) (simp_all split: option.split)
  moreover have "caches_ok W (m_patch (upd_patch (set_cache c cache) st'))"
    if "conns (m_patch st') = conns (m_patch st)" for st' :: "'u machine"
    using caches_ok_set_cache [of W st' c k cache] caches_ok_conns [OF that, of W] assms(1,2) that
      cached_lookup_plain(2) [OF ok assms(3)] c by simp
  ultimately show thesis using c cached_lookup_plain(1) [OF ok assms(3)] that [of f cache] by simp
qed

text \<open>What the proofs of the three deliveries have in common.\<close>

lemma delivery_state:
  fixes st :: "'u machine"
  assumes "caches_ok W (m_patch st)" "conns (m_patch st) c = Some k"
  defines "st1 \<equiv> upd_patch (fts_object_set_message_inlet (c_dst k) (c_winlet k)) st"
  shows "caches_ok W (m_patch st1)" "conns (m_patch st1) = conns (m_patch st)"
    "upd_patch (set_cache c fts_message_cache_init) (erase st1) = erase st1"
proof -
  show eq: "conns (m_patch st1) = conns (m_patch st)" by (simp add: st1_def)
  then show "caches_ok W (m_patch st1)" using assms(1) caches_ok_conns by blast
  from eq show "upd_patch (set_cache c fts_message_cache_init) (erase st1) = erase st1"
    using assms(2) by (intro erase_set_cache_init) simp
qed

lemma calls_followD:
  "calls_follow W call call' \<Longrightarrow> caches_ok W (m_patch st) \<Longrightarrow> st' = erase st \<Longrightarrow>
   follows W (call x m s args st) (call' x m s args st')"
  by (simp add: calls_follow_def)

lemma INVOKE_followsI:
  "calls_follow W call call' \<Longrightarrow> caches_ok W (m_patch st) \<Longrightarrow> st' = erase st \<Longrightarrow>
   follows W (INVOKE call m x s args st) (INVOKE call' m x s args st')"
  by (simp add: INVOKE_follows)

definition delivers_follow ::
  "patch_world \<Rightarrow> (cid \<Rightarrow> connection \<Rightarrow> 'u machine \<Rightarrow> 'u machine outcome)
     \<Rightarrow> (cid \<Rightarrow> connection \<Rightarrow> 'u machine \<Rightarrow> 'u machine outcome) \<Rightarrow> bool" where
  "delivers_follow W deliver deliver' \<longleftrightarrow>
     (\<forall>c k st. caches_ok W (m_patch st) \<longrightarrow> conns (m_patch st) c = Some k \<longrightarrow>
        follows W (deliver c k st) (deliver' c (erase_conn k) (erase st)))"

lemma deliver_atom_follows:
  assumes call: "calls_follow W call call'"
  shows "delivers_follow W (deliver_atom W (cached_lookup W) call at) (deliver_atom W (plain_lookup W) call' at)"
  unfolding delivers_follow_def
proof (intro allI impI)
  fix c k and st :: "'a machine"
  assume ok: "caches_ok W (m_patch st)" and k: "conns (m_patch st) c = Some k"
  note st1 = delivery_state [OF ok k]
  obtain f cache where look: "cached_lookup W (RAtom (fts_get_class (w_env W) at)) k = (f, cache)"
      "plain_lookup W (RAtom (fts_get_class (w_env W) at)) (erase_conn k) = (f, fts_message_cache_init)"
    and ok': "\<And>st' :: 'a machine. conns (m_patch st') = conns (m_patch st) \<Longrightarrow> caches_ok W (m_patch (upd_patch (set_cache c cache) st'))"
    using lookups_follow [OF ok k, of "RAtom (fts_get_class (w_env W) at)"] by auto
  show "follows W (deliver_atom W (cached_lookup W) call at c k st)
                  (deliver_atom W (plain_lookup W) call' at c (erase_conn k) (erase st))"
    using st1 ok' [OF st1(2)] unfolding deliver_atom_def Let_def erase_conn_simps look
    by (auto split: option.split found.split intro!: calls_followD [OF call] INVOKE_followsI [OF call])
qed

lemma deliver_varargs_follows:
  assumes call: "calls_follow W call call'"
  shows "delivers_follow W (deliver_varargs W (cached_lookup W) call args) (deliver_varargs W (plain_lookup W) call' args)"
  unfolding delivers_follow_def
proof (intro allI impI)
  fix c k and st :: "'a machine"
  assume ok: "caches_ok W (m_patch st)" and k: "conns (m_patch st) c = Some k"
  note st1 = delivery_state [OF ok k]
  obtain f cache where look: "cached_lookup W RVarargs k = (f, cache)"
      "plain_lookup W RVarargs (erase_conn k) = (f, fts_message_cache_init)"
    and ok': "\<And>st' :: 'a machine. conns (m_patch st') = conns (m_patch st) \<Longrightarrow> caches_ok W (m_patch (upd_patch (set_cache c cache) st'))"
    using lookups_follow [OF ok k, of RVarargs] by auto
  show "follows W (deliver_varargs W (cached_lookup W) call args c k st)
                  (deliver_varargs W (plain_lookup W) call' args c (erase_conn k) (erase st))"
    using st1 ok' [OF st1(2)] unfolding deliver_varargs_def Let_def erase_conn_simps look
    by (auto split: option.split found.split intro!: calls_followD [OF call] INVOKE_followsI [OF call])
qed

lemma deliver_message_follows:
  assumes call: "calls_follow W call call'" and s: "s \<noteq> 0"
  shows "delivers_follow W (deliver_message W (cached_lookup W) call s args) (deliver_message W (plain_lookup W) call' s args)"
  unfolding delivers_follow_def
proof (intro allI impI)
  fix c k and st :: "'a machine"
  assume ok: "caches_ok W (m_patch st)" and k: "conns (m_patch st) c = Some k"
  note st1 = delivery_state [OF ok k]
  obtain f cache where look: "cached_lookup W (RMessage s (message_type W args)) k = (f, cache)"
      "plain_lookup W (RMessage s (message_type W args)) (erase_conn k) = (f, fts_message_cache_init)"
    and ok': "\<And>st' :: 'a machine. conns (m_patch st') = conns (m_patch st) \<Longrightarrow> caches_ok W (m_patch (upd_patch (set_cache c cache) st'))"
    using lookups_follow [OF ok k, of "RMessage s (message_type W args)"] s by auto
  show "follows W (deliver_message W (cached_lookup W) call s args c k st)
                  (deliver_message W (plain_lookup W) call' s args c (erase_conn k) (erase st))"
    using st1 ok' [OF st1(2)] unfolding deliver_message_def Let_def erase_conn_simps look
    by (auto split: option.split found.split intro!: calls_followD [OF call])
qed

lemma outlet_loop_follows:
  assumes d: "delivers_follow W deliver deliver'" and ok: "caches_ok W (m_patch st)"
  shows "follows W (outlet_loop deliver n conn st) (outlet_loop deliver' n conn (erase st))"
  using ok
proof (induction n arbitrary: conn st)
  case (Suc n)
  show ?case
  proof (cases conn)
    case (Some c)
    show ?thesis
    proof (cases "conns (m_patch st) c")
      case k: (Some k)
      have "follows W (deliver c k st) (deliver' c (erase_conn k) (erase st))"
        using d Suc.prems k by (simp add: delivers_follow_def)
      then have "follows W
          (andThen (deliver c k st) (\<lambda>st'. outlet_loop deliver n (Option.bind (conns (m_patch st') c) next_same_src) st'))
          (andThen (deliver' c (erase_conn k) (erase st))
             (\<lambda>st'. outlet_loop deliver' n (Option.bind (conns (m_patch st') c) next_same_src) st'))"
      proof (rule follows_andThen)
        fix st' :: "'a machine"
        assume ok': "caches_ok W (m_patch st')"
        have "Option.bind (conns (m_patch (erase st')) c) next_same_src = Option.bind (conns (m_patch st') c) next_same_src"
          by (cases "conns (m_patch st') c") simp_all
        with Suc.IH [OF ok'] show "follows W (outlet_loop deliver n (Option.bind (conns (m_patch st') c) next_same_src) st')
          (outlet_loop deliver' n (Option.bind (conns (m_patch (erase st')) c) next_same_src) (erase st'))" by simp
      qed
      with Some k show ?thesis by simp
    qed (use Some in simp)
  qed (use Suc.prems in simp)
qed simp

lemma outlet_send_follows:
  assumes "delivers_follow W deliver deliver'" "caches_ok W (m_patch st)"
  shows "follows W (outlet_send deliver n x i st) (outlet_send deliver' n x i (erase st))"
  using outlet_loop_follows [OF assms] assms(2) by (simp add: outlet_send_def split: option.split)

fun cmd_ok :: "out_cmd \<Rightarrow> bool" where
  "cmd_ok (OutMessage i s args) \<longleftrightarrow> s \<noteq> 0"
| "cmd_ok _ \<longleftrightarrow> True"

lemma output_follows:
  assumes call: "calls_follow W call call'" and ok: "caches_ok W (m_patch st)" and cmd: "cmd_ok cmd"
  shows "follows W (fts_output W (cached_lookup W) call n x cmd st) (fts_output W (plain_lookup W) call' n x cmd (erase st))"
proof -
  note atom = outlet_send_follows [OF deliver_atom_follows [OF call] ok]
  note varargs = outlet_send_follows [OF deliver_varargs_follows [OF call] ok]
  note message = outlet_send_follows [OF deliver_message_follows [OF call] ok]
  show ?thesis
    using cmd atom varargs message
    by (cases cmd) (auto simp: outlet_atom_def fts_outlet_varargs_def outlet_varargs_def fts_outlet_message_def
        fts_outlet_send_def split: list.split)
qed

text \<open>A method whose messages all have a selector.\<close>

primrec act_ok :: "'u act \<Rightarrow> bool" where
  "act_ok (Finish u) \<longleftrightarrow> True"
| "act_ok (Output u y cmd k) \<longleftrightarrow> cmd_ok cmd \<and> (\<forall>u' i. act_ok (k u' i))"

definition methods_ok :: "'u methods \<Rightarrow> bool" where
  "methods_ok M \<longleftrightarrow> (\<forall>m x s args u i. act_ok (M m x s args u i))"

lemma run_act_follows:
  assumes out: "\<And>y cmd st. caches_ok W (m_patch st) \<Longrightarrow> cmd_ok cmd \<Longrightarrow> follows W (out y cmd st) (out' y cmd (erase st))"
    and "act_ok a" "caches_ok W (m_patch st)"
  shows "follows W (run_act out x a st) (run_act out' x a (erase st))"
  using assms(2,3)
proof (induction a arbitrary: st)
  case (Output u y cmd k)
  have "follows W (out y cmd (st\<lparr>m_user := u\<rparr>)) (out' y cmd ((erase st)\<lparr>m_user := u\<rparr>))"
    using out [of "st\<lparr>m_user := u\<rparr>" cmd y] Output.prems by simp
  then show ?case
    unfolding run_act.simps
    by (rule follows_andThen) (use Output.prems Output.IH [OF rangeI rangeI] in auto)
qed simp

theorem call_method_follows:
  assumes "methods_ok M"
  shows "calls_follow W (call_method W (cached_lookup W) M n) (call_method W (plain_lookup W) M n)"
proof (induction n)
  case (Suc n)
  show ?case
    unfolding calls_follow_def call_method.simps
  proof (intro allI impI)
    fix x m s args and st :: "'a machine"
    assume "caches_ok W (m_patch st)"
    with assms show "follows W
        (run_act (fts_output W (cached_lookup W) (call_method W (cached_lookup W) M n) n) x
          (M m x s args (m_user st) (fts_object_get_message_inlet x (m_patch st))) st)
        (run_act (fts_output W (plain_lookup W) (call_method W (plain_lookup W) M n) n) x
          (M m x s args (m_user (erase st)) (fts_object_get_message_inlet x (m_patch (erase st)))) (erase st))"
      using run_act_follows [where out = "fts_output W (cached_lookup W) (call_method W (cached_lookup W) M n) n",
          OF output_follows [OF Suc]] by (simp add: methods_ok_def)
  qed
qed (simp add: calls_follow_def)

theorem send_follows:
  assumes "methods_ok M" "caches_ok W (m_patch st)" "cmd_ok cmd"
  shows "follows W (send W (cached_lookup W) M n x cmd st) (send W (plain_lookup W) M n x cmd (erase st))"
  unfolding send_def using call_method_follows [OF assms(1)] assms(2,3) by (rule output_follows)

subsection \<open>What a send leaves alone\<close>

text \<open>Patches with the same links: only message inlets and caches may differ.\<close>

definition same_links :: "patch \<Rightarrow> patch \<Rightarrow> bool" where
  "same_links s s' \<longleftrightarrow>
     conns (erase_patch s') = conns (erase_patch s) \<and> next_conn s' = next_conn s
     \<and> (\<forall>x. map_option (\<lambda>d. d\<lparr>pd_winlet := 0\<rparr>) (contexts s' x) = map_option (\<lambda>d. d\<lparr>pd_winlet := 0\<rparr>) (contexts s x))"

definition keeps :: "'u machine \<Rightarrow> 'u machine \<Rightarrow> bool" where
  "keeps st st' \<longleftrightarrow>
     m_top st' = m_top st \<and> (\<forall>i < m_top st. m_stack st' i = m_stack st i)
     \<and> same_links (m_patch st) (m_patch st') \<and> (\<exists>es. m_errors st' = m_errors st @ es)"

lemma same_links_refl [simp]: "same_links s s"
  by (simp add: same_links_def)

lemma same_links_trans: "same_links s s' \<Longrightarrow> same_links s' s'' \<Longrightarrow> same_links s s''"
  by (simp add: same_links_def)

lemma same_links_inlet: "same_links s (fts_object_set_message_inlet x i s)"
  by (auto simp: same_links_def fts_object_set_message_inlet_def erase_patch_def split: option.split)

lemma same_links_cache: "same_links s (set_cache c cache s)"
  by (auto simp: same_links_def set_cache_def erase_patch_def erase_conn_def fun_eq_iff split: option.split)

lemma keeps_refl [simp]: "keeps st st"
  by (simp add: keeps_def)

lemma keeps_trans: "keeps st st' \<Longrightarrow> keeps st' st'' \<Longrightarrow> keeps st st''"
  by (auto simp: keeps_def intro: same_links_trans)

lemma keeps_patch: "same_links (m_patch st) (f (m_patch st)) \<Longrightarrow> keeps st (upd_patch f st)"
  by (simp add: keeps_def upd_patch_def)

lemma keeps_inlet: "keeps st (upd_patch (fts_object_set_message_inlet x i) st)"
  by (intro keeps_patch same_links_inlet)

lemma keeps_cache: "keeps st (upd_patch (set_cache c cache) st)"
  by (intro keeps_patch same_links_cache)

lemma keeps_error: "keeps st (object_error x e st)"
  by (simp add: keeps_def object_error_def)

lemma keeps_user: "keeps (st\<lparr>m_user := u\<rparr>) st' = keeps st st'" "keeps st (st'\<lparr>m_user := u\<rparr>) = keeps st st'"
  by (simp_all add: keeps_def)

lemma keeps_push_pop:
  "keeps (FTS_OBJSTACK_PUSH x st) st' \<Longrightarrow> keeps st (FTS_OBJSTACK_POP st')"
  by (auto simp: keeps_def FTS_OBJSTACK_PUSH_def FTS_OBJSTACK_POP_def split: if_splits)

definition result_keeps :: "'u machine \<Rightarrow> 'u machine outcome \<Rightarrow> bool" where
  "result_keeps st r \<longleftrightarrow> (\<forall>st'. r = Done st' \<longrightarrow> keeps st st')"

lemma result_keeps_simps [simp]:
  "result_keeps st (Done st') \<longleftrightarrow> keeps st st'" "result_keeps st Fault" "result_keeps st NoFuel"
  by (simp_all add: result_keeps_def)

lemma result_keeps_andThen:
  assumes "result_keeps st r" "\<And>st'. keeps st st' \<Longrightarrow> result_keeps st (f st')"
  shows "result_keeps st (andThen r f)"
  using assms by (cases r) auto

lemma result_keeps_from: "keeps st st' \<Longrightarrow> result_keeps st' r \<Longrightarrow> result_keeps st r"
  by (auto simp: result_keeps_def intro: keeps_trans)

definition calls_keep :: "'u call \<Rightarrow> bool" where
  "calls_keep call \<longleftrightarrow> (\<forall>x m s args st. result_keeps st (call x m s args st))"

lemma INVOKE_keeps:
  assumes "calls_keep call"
  shows "result_keeps st (INVOKE call m x s args st)"
proof (cases m)
  case (Some f)
  have "result_keeps (FTS_OBJSTACK_PUSH x st) (call x f s args (FTS_OBJSTACK_PUSH x st))"
    using assms by (simp add: calls_keep_def)
  then show ?thesis
    by (cases "call x f s args (FTS_OBJSTACK_PUSH x st)") (auto simp: INVOKE_def Some dest: keeps_push_pop)
qed (simp add: INVOKE_def)

lemmas keeps_steps = keeps_trans [OF keeps_inlet keeps_cache] keeps_inlet
  keeps_trans [OF keeps_inlet keeps_error]

lemma deliver_keeps:
  assumes call: "calls_keep call"
  shows "result_keeps st (deliver_atom W L call at c k st)"
    and "result_keeps st (deliver_varargs W L call args c k st)"
    and "result_keeps st (deliver_message W L call s args c k st)"
proof -
  have call': "result_keeps st (call x m s args st')" if "keeps st st'" for x m s args st'
    using call that by (auto simp: calls_keep_def intro: result_keeps_from)
  have invoke': "result_keeps st (INVOKE call m x s args st')" if "keeps st st'" for x m s args st'
    using INVOKE_keeps [OF call] that by (auto intro: result_keeps_from)
  note steps = keeps_inlet keeps_trans [OF keeps_inlet keeps_cache] keeps_trans [OF keeps_inlet keeps_error]
    keeps_trans [OF keeps_trans [OF keeps_inlet keeps_cache] keeps_error]
  show "result_keeps st (deliver_atom W L call at c k st)"
    unfolding deliver_atom_def Let_def by (auto split: option.split prod.split found.split intro!: call' invoke' steps)
  show "result_keeps st (deliver_varargs W L call args c k st)"
    unfolding deliver_varargs_def Let_def by (auto split: option.split prod.split found.split intro!: call' invoke' steps)
  show "result_keeps st (deliver_message W L call s args c k st)"
    unfolding deliver_message_def Let_def by (auto split: option.split prod.split found.split intro!: call' steps)
qed

lemma outlet_loop_keeps:
  assumes "\<And>c k st. result_keeps st (deliver c k st)"
  shows "result_keeps st (outlet_loop deliver n conn st)"
proof (induction n arbitrary: conn st)
  case (Suc n)
  show ?case
  proof (cases conn)
    case (Some c)
    show ?thesis
    proof (cases "conns (m_patch st) c")
      case k: (Some k)
      have "result_keeps st (andThen (deliver c k st)
              (\<lambda>st'. outlet_loop deliver n (Option.bind (conns (m_patch st') c) next_same_src) st'))"
        using Suc by (intro result_keeps_andThen assms) (blast intro: result_keeps_from)
      with Some k show ?thesis by simp
    qed (use Some in simp)
  qed simp
qed simp

lemma output_keeps:
  assumes "calls_keep call"
  shows "result_keeps st (fts_output W L call n x cmd st)"
proof -
  have "result_keeps st (outlet_send deliver n x i st)" if "\<And>c k st. result_keeps st (deliver c k st)" for deliver i
    using outlet_loop_keeps [OF that] keeps_error by (auto simp: outlet_send_def split: option.split)
  note send = this [OF deliver_keeps(1) [OF assms]] this [OF deliver_keeps(2) [OF assms]] this [OF deliver_keeps(3) [OF assms]]
  show ?thesis
    using send by (cases cmd) (auto simp: outlet_atom_def fts_outlet_varargs_def outlet_varargs_def fts_outlet_message_def
        fts_outlet_send_def split: list.split)
qed

lemma run_act_keeps:
  assumes "\<And>y cmd st. result_keeps st (out y cmd st)"
  shows "result_keeps st (run_act out x a st)"
proof (induction a arbitrary: st)
  case (Output u y cmd k)
  have "result_keeps st (out y cmd (st\<lparr>m_user := u\<rparr>))"
    using assms [of "st\<lparr>m_user := u\<rparr>" y cmd] by (simp add: result_keeps_def keeps_user)
  then show ?case
    unfolding run_act.simps by (rule result_keeps_andThen) (blast intro: result_keeps_from Output.IH [OF rangeI rangeI])
qed (simp add: keeps_user)

lemma call_method_keeps: "calls_keep (call_method W L M n)"
proof (induction n)
  case (Suc n)
  show ?case
    by (subst calls_keep_def) (auto intro!: run_act_keeps output_keeps [OF Suc])
qed (simp add: calls_keep_def)

theorem send_keeps: "send W L M n x cmd st = Done st' \<Longrightarrow> keeps st st'"
  using output_keeps [OF call_method_keeps, where cmd = cmd and st = st] by (metis send_def result_keeps_def)

end
