(* ===== verification/SendTermination.thy ===== *)
theory SendTermination
  imports Outlet
begin

text \<open>
  Whether a send returns. A method that is called for a value through an outlet is counted on the
  object stack, and the outlets refuse to send beyond \<open>FTS_CALL_DEPTH\<close>; so in a patch whose classes
  have no input handler and whose methods send values only, every send returns, cycles or not. A
  call of an input handler and a message with a selector are not counted, and a cycle of those does
  not end.
\<close>

subsection \<open>Settling\<close>

text \<open>With enough fuel the run is done, and more fuel makes no difference.\<close>

definition settles :: "(nat \<Rightarrow> 'a outcome) \<Rightarrow> 'a \<Rightarrow> bool" where
  "settles f r \<longleftrightarrow> (\<exists>n0. \<forall>n \<ge> n0. f n = Done r)"

lemma settles_const [simp]: "settles (\<lambda>n. Done r) r"
  by (simp add: settles_def)

lemma settles_done [intro]: "\<exists>r'. settles (\<lambda>n. Done r) r'" "P r \<Longrightarrow> \<exists>r'. settles (\<lambda>n. Done r) r' \<and> P r'"
  by (blast intro: settles_const)+

lemma settles_andThen:
  assumes "settles f r" "settles (\<lambda>n. g n r) r'"
  shows "settles (\<lambda>n. andThen (f n) (g n)) r'"
proof -
  obtain n0 n1 where "\<forall>n \<ge> n0. f n = Done r" "\<forall>n \<ge> n1. g n r = Done r'"
    using assms by (auto simp: settles_def)
  then have "\<forall>n \<ge> max n0 n1. andThen (f n) (g n) = Done r'" by simp
  then show ?thesis unfolding settles_def by blast
qed

lemma settles_Suc: "settles f r \<Longrightarrow> settles (\<lambda>n. case n of 0 \<Rightarrow> NoFuel | Suc m \<Rightarrow> f m) r"
  unfolding settles_def by (metis (no_types, lifting) Suc_le_D Suc_le_mono nat.case(2))

lemma settles_at: "settles f r \<Longrightarrow> \<exists>n. f n = Done r"
  by (auto simp: settles_def)

subsection \<open>Sends of values\<close>

fun value_cmd :: "out_cmd \<Rightarrow> bool" where
  "value_cmd (OutMessage i s args) \<longleftrightarrow> False"
| "value_cmd (OutSend i s args) \<longleftrightarrow> s = 0"
| "value_cmd _ \<longleftrightarrow> True"

primrec value_act :: "'u act \<Rightarrow> bool" where
  "value_act (Finish u) \<longleftrightarrow> True"
| "value_act (Output u y cmd k) \<longleftrightarrow> value_cmd cmd \<and> (\<forall>u' i. value_act (k u' i))"

definition value_methods :: "'u methods \<Rightarrow> bool" where
  "value_methods M \<longleftrightarrow> (\<forall>m x s args u i. value_act (M m x s args u i))"

definition no_handlers :: "patch_world \<Rightarrow> bool" where
  "no_handlers W \<longleftrightarrow> (\<forall>a. cl_input_handler (w_classes W a) = None)"

lemma value_cmd_ok: "value_cmd cmd \<Longrightarrow> cmd_ok cmd"
  by (cases cmd) auto

lemma value_act_ok: "value_act a \<Longrightarrow> act_ok a"
  by (induction a) (auto simp: value_cmd_ok)

lemma value_methods_ok: "value_methods M \<Longrightarrow> methods_ok M"
  by (simp add: value_methods_def methods_ok_def value_act_ok)

lemma no_handler: "no_handlers W \<Longrightarrow> cl_input_handler (object_class W x) = None"
  by (simp add: no_handlers_def object_class_def)

subsection \<open>A patch that can be sent through\<close>

definition can_send :: "patch_world \<Rightarrow> 'u machine \<Rightarrow> bool" where
  "can_send W st \<longleftrightarrow> caches_ok W (m_patch st) \<and> (\<exists>outs ins. linked (m_patch st) outs ins)"

lemma same_links_conns:
  assumes "same_links s s'"
  shows "map_option erase_conn (conns s' c) = map_option erase_conn (conns s c)"
  using assms by (metis same_links_def erase_patch_simps(2))

lemma same_links_parts:
  assumes l: "same_links s s'"
  shows "nxt_src s' = nxt_src s" "nxt_dst s' = nxt_dst s" "ends s' = ends s"
    "out_head s' = out_head s" "in_head s' = in_head s" "arrays_ok s' = arrays_ok s" "next_conn s' = next_conn s"
    "conns s' c = None \<longleftrightarrow> conns s c = None"
    "fts_object_get_outlets_number x s' = fts_object_get_outlets_number x s"
proof -
  have e: "map_option erase_conn (conns s' c) = map_option erase_conn (conns s c)" for c by (rule same_links_conns [OF l])
  have nxt: "nxt_src t c = Option.bind (map_option erase_conn (conns t c)) next_same_src"
    "nxt_dst t c = Option.bind (map_option erase_conn (conns t c)) next_same_dst"
    "ends t c = map_option (\<lambda>k. (c_src k, c_woutlet k, c_dst k, c_winlet k)) (map_option erase_conn (conns t c))" for t c
    by (cases "conns t c"; simp add: nxt_src_def nxt_dst_def ends_def erase_conn_def)+
  show "nxt_src s' = nxt_src s" "nxt_dst s' = nxt_dst s" "ends s' = ends s"
    unfolding fun_eq_iff nxt e by simp_all
  show "conns s' c = None \<longleftrightarrow> conns s c = None" using e [of c] by (cases "conns s c"; cases "conns s' c") auto
  show "next_conn s' = next_conn s" using l by (simp add: same_links_def)
  let ?z = "\<lambda>d. d\<lparr>pd_winlet := 0\<rparr>"
  have z: "map_option ?z (contexts s' x) = map_option ?z (contexts s x)" for x using l by (simp add: same_links_def)
  have heads: "out_head t x i = (case map_option ?z (contexts t x) of None \<Rightarrow> None
      | Some d \<Rightarrow> if 0 \<le> i \<and> nat i < length (out_conn d) then Some (out_conn d ! nat i) else None)"
    "in_head t x i = (case map_option ?z (contexts t x) of None \<Rightarrow> None
      | Some d \<Rightarrow> if 0 \<le> i \<and> nat i < length (in_conn d) then Some (in_conn d ! nat i) else None)"
    "fts_object_get_outlets_number x t = (case map_option ?z (contexts t x) of None \<Rightarrow> 0 | Some d \<Rightarrow> n_outlets d)" for t x i
    by (simp_all add: out_head_def in_head_def fts_object_get_outlets_number_def split: option.split)
  show "out_head s' = out_head s" "in_head s' = in_head s"
    "fts_object_get_outlets_number x s' = fts_object_get_outlets_number x s"
    unfolding fun_eq_iff heads z by simp_all
  have arr: "arrays_ok t = (\<forall>x d. map_option ?z (contexts t x) = Some d \<longrightarrow>
        0 \<le> n_inlets d \<and> length (in_conn d) = nat (n_inlets d)
        \<and> 0 \<le> n_outlets d \<and> length (out_conn d) = nat (n_outlets d))" for t
    by (fastforce simp: arrays_ok_def)
  show "arrays_ok s' = arrays_ok s" by (simp only: arr z)
qed

lemma same_links_linked: "same_links s s' \<Longrightarrow> linked s outs ins \<Longrightarrow> linked s' outs ins"
  using same_links_parts [of s s'] by (simp add: linked_def outs_ok_def ins_ok_def)

lemma keeps_can_send:
  "keeps st st' \<Longrightarrow> can_send W st \<Longrightarrow> caches_ok W (m_patch st') \<Longrightarrow> can_send W st'"
  unfolding can_send_def keeps_def using same_links_linked by blast

lemma can_send_upd:
  assumes "can_send W st"
  shows "can_send W (st\<lparr>m_user := u\<rparr>)" "can_send W (FTS_OBJSTACK_PUSH x st)"
    "can_send W (upd_patch (fts_object_set_message_inlet x i) st)"
  using assms keeps_can_send [OF keeps_inlet assms, of x i] caches_ok_conns [OF conns_message_inlet, of W x i st]
  by (auto simp: can_send_def)

text \<open>Every send through an outlet of a machine with \<open>d\<close> levels left returns.\<close>

definition sends_settle :: "patch_world \<Rightarrow> 'u methods \<Rightarrow> nat \<Rightarrow> bool" where
  "sends_settle W M lv \<longleftrightarrow>
     (\<forall>x cmd st. can_send W st \<longrightarrow> m_top st = lv \<longrightarrow> value_cmd cmd \<longrightarrow>
        (\<exists>st'. settles (\<lambda>n. send W (cached_lookup W) M n x cmd st) st'))"

lemma send_result:
  assumes "value_methods M" "can_send W st" "value_cmd cmd" "settles (\<lambda>n. send W (cached_lookup W) M n x cmd st) st'"
  shows "can_send W st' \<and> m_top st' = m_top st"
proof -
  obtain n where n: "send W (cached_lookup W) M n x cmd st = Done st'" using settles_at [OF assms(4)] by blast
  have "caches_ok W (m_patch st')"
    using send_follows [OF value_methods_ok [OF assms(1)] _ value_cmd_ok [OF assms(3)], of W st n x] assms(2) n
    by (simp add: can_send_def follows_def)
  with send_keeps [OF n] keeps_can_send [OF _ assms(2)] show ?thesis by (auto simp: keeps_def)
qed

lemma act_settles:
  assumes M: "value_methods M" and out: "sends_settle W M lv"
    and "value_act a" "can_send W st" "m_top st = lv"
  shows "\<exists>st'. settles (\<lambda>n. run_act (send W (cached_lookup W) M n) x a st) st' \<and> can_send W st' \<and> m_top st' = lv"
  using assms(3-)
proof (induction a arbitrary: st)
  case (Finish u)
  then show ?case using can_send_upd(1) by (intro exI [of _ "st\<lparr>m_user := u\<rparr>"]) simp
next
  case (Output u y cmd k)
  let ?st = "st\<lparr>m_user := u\<rparr>"
  have st: "can_send W ?st" "m_top ?st = lv" "value_cmd cmd" using Output.prems can_send_upd(1) by auto
  then obtain st1 where st1: "settles (\<lambda>n. send W (cached_lookup W) M n y cmd ?st) st1"
    using out unfolding sends_settle_def by blast
  note res = send_result [OF M st(1,3) st1]
  let ?a = "k (m_user st1) (fts_object_get_message_inlet x (m_patch st1))"
  obtain st2 where "settles (\<lambda>n. run_act (send W (cached_lookup W) M n) x ?a st1) st2" "can_send W st2" "m_top st2 = lv"
    using Output.IH [OF rangeI rangeI, of "m_user st1" "fts_object_get_message_inlet x (m_patch st1)" st1]
      Output.prems res st(2) by auto
  with settles_andThen [OF st1, of "\<lambda>n st'. run_act (send W (cached_lookup W) M n) x
      (k (m_user st') (fts_object_get_message_inlet x (m_patch st'))) st'"] show ?case by auto
qed

lemma call_settles:
  assumes M: "value_methods M" and out: "sends_settle W M (m_top st)" and st: "can_send W st"
  shows "\<exists>st'. settles (\<lambda>n. call_method W (cached_lookup W) M n x m s args st) st' \<and> can_send W st' \<and> m_top st' = m_top st"
proof -
  let ?a = "M m x s args (m_user st) (fts_object_get_message_inlet x (m_patch st))"
  obtain st' where st': "settles (\<lambda>n. run_act (send W (cached_lookup W) M n) x ?a st) st'" "can_send W st'" "m_top st' = m_top st"
    using act_settles [OF M out _ st refl, of ?a x] M by (auto simp: value_methods_def)
  have "call_method W (cached_lookup W) M n x m s args st =
      (case n of 0 \<Rightarrow> NoFuel | Suc n' \<Rightarrow> run_act (send W (cached_lookup W) M n') x ?a st)" for n
    by (cases n) (simp_all add: send_def [abs_def])
  then show ?thesis using settles_Suc [OF st'(1)] st'(2,3) by auto
qed

lemma invoke_settles:
  assumes M: "value_methods M" and out: "sends_settle W M (m_top st + 1)" and st: "can_send W st" and m: "m \<noteq> None"
  shows "\<exists>st'. settles (\<lambda>n. INVOKE (call_method W (cached_lookup W) M n) m x s args st) st' \<and> can_send W st' \<and> m_top st' = m_top st"
proof -
  obtain f where f: "m = Some f" using m by auto
  have "m_top (FTS_OBJSTACK_PUSH x st) = m_top st + 1" by (simp add: FTS_OBJSTACK_PUSH_def)
  then obtain st' where st': "settles (\<lambda>n. call_method W (cached_lookup W) M n x f s args (FTS_OBJSTACK_PUSH x st)) st'"
      "can_send W st'" "m_top st' = m_top st + 1"
    using call_settles [OF M, of W "FTS_OBJSTACK_PUSH x st" x f s args] out can_send_upd(2) [OF st] by auto
  have "settles (\<lambda>n. INVOKE (call_method W (cached_lookup W) M n) m x s args st) (FTS_OBJSTACK_POP st')"
    unfolding INVOKE_def f option.case by (rule settles_andThen [OF st'(1)]) simp
  moreover have "can_send W (FTS_OBJSTACK_POP st')" "m_top (FTS_OBJSTACK_POP st') = m_top st"
    using st' by (simp_all add: can_send_def FTS_OBJSTACK_POP_def)
  ultimately show ?thesis by blast
qed

text \<open>Without handlers a delivery is an error or an \<open>INVOKE\<close> with a method that is there.\<close>

lemma cached_method:
  assumes "cache_ok W k" "request_ok r" "cached_lookup W r k = (Method m, cache)"
  shows "m \<noteq> None"
proof (cases r)
  case (RAtom t)
  show ?thesis
  proof (cases "mc_selector (c_cache k) \<noteq> 0 \<or> mc_type (c_cache k) \<noteq> Some t")
    case True
    with assms(3) have "\<exists>f. Some f = m" unfolding RAtom by (auto split: option.splits intro: sym)
    then show ?thesis by auto
  next
    case False
    with assms show ?thesis unfolding RAtom by (auto simp: cache_ok_def Let_def)
  qed
next
  case RVarargs
  with assms(3) have "\<exists>f. Some f = m" by (auto simp: Let_def split: option.splits if_splits intro: sym)
  then show ?thesis by auto
qed (use assms(3) in \<open>auto simp: Let_def split: if_splits\<close>)

lemma deliver_settles:
  assumes M: "value_methods M" and W: "no_handlers W" and out: "sends_settle W M (m_top st + 1)"
    and st: "can_send W st" and k: "conns (m_patch st) c = Some k"
  shows "\<exists>st'. settles (\<lambda>n. deliver_atom W (cached_lookup W) (call_method W (cached_lookup W) M n) at c k st) st'
               \<and> can_send W st' \<and> m_top st' = m_top st"
    and "\<exists>st'. settles (\<lambda>n. deliver_varargs W (cached_lookup W) (call_method W (cached_lookup W) M n) args c k st) st'
               \<and> can_send W st' \<and> m_top st' = m_top st"
proof -
  have ok: "caches_ok W (m_patch st)" "cache_ok W k" using st k by (auto simp: can_send_def caches_ok_def)
  let ?st = "upd_patch (fts_object_set_message_inlet (c_dst k) (c_winlet k)) st"
  have st1: "can_send W ?st" "m_top ?st = m_top st" using can_send_upd(3) [OF st] by (simp_all add: upd_patch_def)
  have err: "can_send W (object_error x e ?st)" "m_top (object_error x e ?st) = m_top st" for x e
    using st1 by (simp_all add: can_send_def object_error_def)
  have invoke: "\<exists>st'. settles (\<lambda>n. INVOKE (call_method W (cached_lookup W) M n) m x s args (upd_patch (set_cache c cache) ?st)) st'
       \<and> can_send W st' \<and> m_top st' = m_top st"
    if look: "cached_lookup W r k = (Method m, cache)" "request_ok r" for r m x s args cache
  proof -
    let ?st2 = "upd_patch (set_cache c cache) ?st"
    obtain f cache' where "cached_lookup W r k = (f, cache')"
      and ok': "\<And>st' :: 'a machine. conns (m_patch st') = conns (m_patch st) \<Longrightarrow> caches_ok W (m_patch (upd_patch (set_cache c cache') st'))"
      using lookups_follow [OF ok(1) k look(2)] by metis
    with look(1) have "caches_ok W (m_patch ?st2)" by simp
    with keeps_can_send [OF keeps_cache st1(1)] have st2: "can_send W ?st2" by blast
    have lv: "m_top ?st2 = m_top st" by (simp add: upd_patch_def)
    show ?thesis using invoke_settles [OF M _ st2 cached_method [OF ok(2) look(2,1)]] out lv by simp
  qed
  show "\<exists>st'. settles (\<lambda>n. deliver_atom W (cached_lookup W) (call_method W (cached_lookup W) M n) at c k st) st'
               \<and> can_send W st' \<and> m_top st' = m_top st"
  proof (cases "cached_lookup W (RAtom (fts_get_class (w_env W) at)) k")
    case (Pair f cache)
    with invoke [of "RAtom (fts_get_class (w_env W) at)"] show ?thesis
      by (cases f) (auto simp: deliver_atom_def Let_def no_handler [OF W] err simp del: cached_lookup.simps intro!: settles_done(2))
  qed
  show "\<exists>st'. settles (\<lambda>n. deliver_varargs W (cached_lookup W) (call_method W (cached_lookup W) M n) args c k st) st'
               \<and> can_send W st' \<and> m_top st' = m_top st"
  proof (cases "cached_lookup W RVarargs k")
    case (Pair f cache)
    with invoke [of RVarargs] show ?thesis
      by (cases f) (auto simp: deliver_varargs_def Let_def no_handler [OF W] err simp del: cached_lookup.simps intro!: settles_done(2))
  qed
qed

text \<open>The loop over the connections of an outlet.\<close>

lemma loop_settles:
  assumes deliver: "\<And>c k st. can_send W st \<Longrightarrow> m_top st = lv \<Longrightarrow> conns (m_patch st) c = Some k \<Longrightarrow>
      \<exists>st'. settles (\<lambda>n. deliver n c k st) st' \<and> can_send W st' \<and> keeps st st'"
    and "can_send W st" "m_top st = lv" "linked_list (nxt_src (m_patch st)) conn cs"
    and "\<And>c. c \<in> set cs \<Longrightarrow> conns (m_patch st) c \<noteq> None"
  shows "\<exists>n0 st'. \<forall>n \<ge> n0. \<forall>j > length cs. outlet_loop (deliver n) j conn st = Done st'"
  using assms(2-)
proof (induction cs arbitrary: conn st)
  case Nil
  have "outlet_loop (deliver n) j conn st = Done st" if "j > 0" for n j
    using that Nil by (cases j) auto
  then show ?case by auto
next
  case (Cons c cs)
  then obtain k where k: "conns (m_patch st) c = Some k" and conn: "conn = Some c" by fastforce
  obtain st1 n1 where st1: "\<forall>n \<ge> n1. deliver n c k st = Done st1" "can_send W st1" "keeps st st1"
    using deliver [OF Cons.prems(1,2) k] by (auto simp: settles_def)
  have links: "same_links (m_patch st) (m_patch st1)" "m_top st1 = lv" using st1(3) Cons.prems(2) by (auto simp: keeps_def)
  note same = same_links_parts [OF links(1)]
  have list: "linked_list (nxt_src (m_patch st1)) (Option.bind (conns (m_patch st1) c) next_same_src) cs"
    using Cons.prems(3) same(1) by (simp add: nxt_src_def [symmetric])
  have "\<And>c. c \<in> set cs \<Longrightarrow> conns (m_patch st1) c \<noteq> None" using Cons.prems(4) same(8) by simp
  then obtain n2 st2 where st2: "\<forall>n \<ge> n2. \<forall>j > length cs.
      outlet_loop (deliver n) j (Option.bind (conns (m_patch st1) c) next_same_src) st1 = Done st2"
    using Cons.IH [OF st1(2) links(2) list] by blast
  have "outlet_loop (deliver n) j conn st = Done st2" if "n \<ge> max n1 n2" "j > length (c # cs)" for n j
    using that st1(1) st2 k conn by (cases j) auto
  then show ?case by blast
qed

lemma outlet_send_settles:
  assumes deliver: "\<And>c k st. can_send W st \<Longrightarrow> m_top st < FTS_CALL_DEPTH \<Longrightarrow> m_top st = lv \<Longrightarrow> conns (m_patch st) c = Some k \<Longrightarrow>
      \<exists>st'. settles (\<lambda>n. deliver n c k st) st' \<and> can_send W st' \<and> keeps st st'"
    and st: "can_send W st" "m_top st = lv"
  shows "\<exists>st'. settles (\<lambda>n. outlet_send (deliver n) n x i st) st'"
proof (cases "check_outlet x i st")
  case False
  then show ?thesis by (simp add: outlet_send_def settles_done(1))
next
  case True
  obtain outs ins where l: "linked (m_patch st) outs ins" using st(1) by (auto simp: can_send_def)
  obtain conn where conn: "out_head (m_patch st) x i = Some conn"
    using out_head_range [OF linked_parts(1) [OF l], of x i] True by (auto simp: check_outlet_def not_le)
  show ?thesis
  proof (cases "FTS_REACHED_MAX_CALL_DEPTH st")
    case True
    with conn \<open>check_outlet x i st\<close> show ?thesis by (simp add: outlet_send_def settles_done(1))
  next
    case False
    obtain n0 st' where n0: "\<forall>n \<ge> n0. \<forall>j > length (outs (x, i)). outlet_loop (deliver n) j conn st = Done st'"
      using loop_settles [of W lv deliver st conn "outs (x, i)"] deliver st False out_list [OF l conn]
        outs_conns [OF linked_parts(4) [OF l]] by (auto simp: FTS_REACHED_MAX_CALL_DEPTH_def)
    then have "\<forall>n \<ge> max n0 (Suc (length (outs (x, i)))). outlet_send (deliver n) n x i st = Done st'"
      using True False conn by (simp add: outlet_send_def)
    then show ?thesis unfolding settles_def by blast
  qed
qed

text \<open>One level of the object stack after the other, from \<open>FTS_CALL_DEPTH\<close> down.\<close>

lemma deliver_settles_keeps:
  assumes M: "value_methods M" and W: "no_handlers W" and out: "sends_settle W M (lv + 1)"
    and st: "can_send W st" "m_top st = lv" "conns (m_patch st) c = Some k"
  shows "\<exists>st'. settles (\<lambda>n. deliver_atom W (cached_lookup W) (call_method W (cached_lookup W) M n) at c k st) st'
               \<and> can_send W st' \<and> keeps st st'"
    and "\<exists>st'. settles (\<lambda>n. deliver_varargs W (cached_lookup W) (call_method W (cached_lookup W) M n) args c k st) st'
               \<and> can_send W st' \<and> keeps st st'"
proof -
  have keep: "keeps st st'" if "settles (\<lambda>n. f n) st'" "\<And>n. result_keeps st (f n)" for f st'
    using settles_at [OF that(1)] that(2) by (metis result_keeps_def)
  note d = deliver_settles [OF M W _ st(1,3)]
  show "\<exists>st'. settles (\<lambda>n. deliver_atom W (cached_lookup W) (call_method W (cached_lookup W) M n) at c k st) st'
               \<and> can_send W st' \<and> keeps st st'"
    using d(1) [of at] out st(2) keep [of "\<lambda>n. deliver_atom W (cached_lookup W) (call_method W (cached_lookup W) M n) at c k st",
        OF _ deliver_keeps(1) [OF call_method_keeps]] by blast
  show "\<exists>st'. settles (\<lambda>n. deliver_varargs W (cached_lookup W) (call_method W (cached_lookup W) M n) args c k st) st'
               \<and> can_send W st' \<and> keeps st st'"
    using d(2) [of args] out st(2) keep [of "\<lambda>n. deliver_varargs W (cached_lookup W) (call_method W (cached_lookup W) M n) args c k st",
        OF _ deliver_keeps(2) [OF call_method_keeps]] by blast
qed

lemma level_settles:
  assumes M: "value_methods M" and W: "no_handlers W" and out: "lv < FTS_CALL_DEPTH \<Longrightarrow> sends_settle W M (lv + 1)"
  shows "sends_settle W M lv"
  unfolding sends_settle_def
proof (intro allI impI)
  fix x cmd and st :: "'a machine"
  assume st: "can_send W st" "m_top st = lv" and cmd: "value_cmd cmd"
  have atom: "\<exists>st'. settles (\<lambda>n. outlet_atom W (cached_lookup W) (call_method W (cached_lookup W) M n) n x i at st) st'" for i at
    unfolding outlet_atom_def
    using deliver_settles_keeps(1) [OF M W out] st by (intro outlet_send_settles) auto
  have varargs: "\<exists>st'. settles (\<lambda>n. outlet_varargs W (cached_lookup W) (call_method W (cached_lookup W) M n) n x i args st) st'" for i args
    unfolding outlet_varargs_def
    using deliver_settles_keeps(2) [OF M W out] st by (intro outlet_send_settles) auto
  have both: "\<exists>st'. settles (\<lambda>n. fts_outlet_varargs W (cached_lookup W) (call_method W (cached_lookup W) M n) n x i args st) st'" for i args
    unfolding fts_outlet_varargs_def using atom varargs by (cases args rule: remdups_adj.cases) simp_all
  show "\<exists>st'. settles (\<lambda>n. send W (cached_lookup W) M n x cmd st) st'"
    using cmd atom both by (cases cmd) (simp_all add: send_def fts_outlet_send_def)
qed

theorem all_sends_settle:
  assumes "value_methods M" "no_handlers W"
  shows "sends_settle W M lv"
proof (cases "lv < FTS_CALL_DEPTH")
  case False
  with level_settles [OF assms] show ?thesis by blast
next
  case True
  then show ?thesis
  proof (induction "FTS_CALL_DEPTH - lv" arbitrary: lv)
    case (Suc d)
    have "sends_settle W M (lv + 1)"
    proof (cases "lv + 1 < FTS_CALL_DEPTH")
      case True
      with Suc show ?thesis by simp
    next
      case False
      with level_settles [OF assms] show ?thesis by blast
    qed
    with level_settles [OF assms] show ?case by blast
  qed simp
qed

theorem send_returns:
  assumes "value_methods M" "no_handlers W" "can_send W st" "value_cmd cmd"
  shows "\<exists>st'. settles (\<lambda>n. send W (cached_lookup W) M n x cmd st) st'"
  using all_sends_settle [OF assms(1,2), of "m_top st"] assms(3,4) by (simp add: sends_settle_def)

subsection \<open>A send that does not return\<close>

text \<open>
  An object whose first connection of an outlet leads back to itself and whose class has an input
  handler that sends on through that outlet: the handler is called without a push on the object
  stack, so the depth test never sees the cycle.
\<close>

definition self_loop :: "obj \<Rightarrow> int \<Rightarrow> 'u machine \<Rightarrow> bool" where
  "self_loop x i st \<longleftrightarrow>
     (\<exists>c k. out_head (m_patch st) x i = Some (Some c) \<and> conns (m_patch st) c = Some k \<and> c_dst k = x)
     \<and> check_outlet x i st \<and> \<not> FTS_REACHED_MAX_CALL_DEPTH st"

definition echoes :: "'u methods \<Rightarrow> fts_method \<Rightarrow> obj \<Rightarrow> int \<Rightarrow> bool" where
  "echoes M h x i \<longleftrightarrow> (\<forall>s args u j. \<exists>u' a k. M h x s args u j = Output u' x (OutAtom i a) k)"

lemma self_loop_upd:
  assumes "self_loop x i st"
  shows "self_loop x i (st\<lparr>m_user := u\<rparr>)" "self_loop x i (upd_patch (fts_object_set_message_inlet y j) st)"
proof -
  show "self_loop x i (st\<lparr>m_user := u\<rparr>)"
    using assms by (simp add: self_loop_def check_outlet_def FTS_REACHED_MAX_CALL_DEPTH_def)
  note parts = same_links_parts [OF same_links_inlet]
  have "conns (fts_object_set_message_inlet y j (m_patch st)) = conns (m_patch st)"
    by (simp add: fts_object_set_message_inlet_def split: option.split)
  with assms show "self_loop x i (upd_patch (fts_object_set_message_inlet y j) st)"
    by (simp add: self_loop_def check_outlet_def FTS_REACHED_MAX_CALL_DEPTH_def upd_patch_def parts)
qed

lemma handler_loops:
  assumes h: "cl_input_handler (object_class W x) = Some h" and M: "echoes M h x i" and "self_loop x i st"
  shows "call_method W L M n x h s args st = NoFuel \<and> send W L M n x (OutAtom i a) st = NoFuel"
  using assms(3)
proof (induction n arbitrary: s args a st)
  case 0
  then show ?case by (auto simp: self_loop_def send_def outlet_atom_def outlet_send_def)
next
  case (Suc n)
  have snd: "send W L M m x (OutAtom i a) st = NoFuel"
    if st: "self_loop x i st"
    and call: "\<And>s args st. self_loop x i st \<Longrightarrow> call_method W L M m x h s args st = NoFuel" for a m and st :: "'a machine"
  proof -
    obtain c k where c: "out_head (m_patch st) x i = Some (Some c)" "conns (m_patch st) c = Some k" "c_dst k = x"
      using st by (auto simp: self_loop_def)
    have "deliver_atom W L (call_method W L M m) a c k st = NoFuel"
      using call [OF self_loop_upd(2) [OF st, of x "c_winlet k"]] h c(3) by (simp add: deliver_atom_def)
    with c st show ?thesis
      by (cases m) (simp_all add: send_def outlet_atom_def outlet_send_def self_loop_def)
  qed
  have call: "call_method W L M (Suc n) x h s args st = NoFuel" if "self_loop x i st" for s args and st :: "'a machine"
  proof -
    obtain u' a k where "M h x s args (m_user st) (fts_object_get_message_inlet x (m_patch st)) = Output u' x (OutAtom i a) k"
      using M unfolding echoes_def by blast
    with Suc.IH [OF self_loop_upd(1) [OF that, of u']] show ?thesis
      by (simp add: send_def)
  qed
  show ?case using call Suc.prems snd [OF Suc.prems, of "Suc n" a] by blast
qed

end
