(* ===== verification/PatchSend.thy ===== *)
theory PatchSend
  imports PatchGraph SendTermination
begin

text \<open>
  Sessions in which a patch is edited and values are sent through it. Editing keeps the caches of
  the connections in order, and sending keeps the graph, so the two parts of the development go
  together: in a patch that was built by edits and that values have been sent through, the graph
  is that of the edits, and every send returns.
\<close>

subsection \<open>Editing keeps the caches\<close>

text \<open>Every connection is an old one with the same destination and cache, or has an empty cache.\<close>

definition keeps_caches :: "patch \<Rightarrow> patch \<Rightarrow> bool" where
  "keeps_caches s s' \<longleftrightarrow>
     (\<forall>c k'. conns s' c = Some k' \<longrightarrow>
        (\<exists>k. conns s c = Some k \<and> c_dst k' = c_dst k \<and> c_winlet k' = c_winlet k \<and> c_cache k' = c_cache k)
        \<or> c_cache k' = fts_message_cache_init)"

lemma keeps_caches_refl [simp]: "keeps_caches s s"
  by (simp add: keeps_caches_def)

lemma keeps_caches_trans [trans]: "keeps_caches s s' \<Longrightarrow> keeps_caches s' s'' \<Longrightarrow> keeps_caches s s''"
  unfolding keeps_caches_def by metis

lemma keeps_caches_ok: "keeps_caches s s' \<Longrightarrow> caches_ok W s \<Longrightarrow> caches_ok W s'"
  unfolding caches_ok_def
proof (intro allI impI)
  fix c k'
  assume "keeps_caches s s'" and ok: "\<forall>c k. conns s c = Some k \<longrightarrow> cache_ok W k" and "conns s' c = Some k'"
  then consider k where "conns s c = Some k" "c_dst k' = c_dst k" "c_winlet k' = c_winlet k" "c_cache k' = c_cache k"
    | "c_cache k' = fts_message_cache_init" unfolding keeps_caches_def by blast
  then show "cache_ok W k'"
  proof cases
    case (1 k)
    with ok have "cache_ok W k" by blast
    with 1 show ?thesis by (simp only: cache_ok_def)
  qed (simp add: cache_ok_def fts_message_cache_init_def)
qed

lemma keeps_caches_conns: "conns s' = conns s \<Longrightarrow> keeps_caches s s'"
  by (simp add: keeps_caches_def)

lemma keeps_caches_update [simp]: "keeps_caches s (s'\<lparr>contexts := x\<rparr>) = keeps_caches s s'"
  by (simp add: keeps_caches_def)

lemma heads_keep: "set_out_head x i p s = Some s' \<Longrightarrow> keeps_caches s s'" "set_in_head x i p s = Some s' \<Longrightarrow> keeps_caches s s'"
  by (auto simp: set_out_head_def set_in_head_def split: option.splits if_splits intro: keeps_caches_conns)

lemma next_keep: "set_next_src c p s = Some s' \<Longrightarrow> keeps_caches s s'" "set_next_dst c p s = Some s' \<Longrightarrow> keeps_caches s s'"
  by (auto simp: set_next_src_def set_next_dst_def keeps_caches_def split: option.splits if_splits)

lemma unlink_keep:
  "unlink_src x i c p q s = Some s' \<Longrightarrow> keeps_caches s s'"
  "unlink_dst x i c p q s = Some s' \<Longrightarrow> keeps_caches s s'"
proof -
  show "unlink_src x i c p q s = Some s' \<Longrightarrow> keeps_caches s s'"
    by (rule unlink_src.raw_induct [where P = "\<lambda>x i c p q s s'. keeps_caches s s'" and xa = "(((((x, i), c), p), q), s)", unfolded prod.case])
      (auto split: option.splits if_splits intro: heads_keep next_keep)
  show "unlink_dst x i c p q s = Some s' \<Longrightarrow> keeps_caches s s'"
    by (rule unlink_dst.raw_induct [where P = "\<lambda>x i c p q s s'. keeps_caches s s'" and xa = "(((((x, i), c), p), q), s)", unfolded prod.case])
      (auto split: option.splits if_splits intro: heads_keep next_keep)
qed

lemma delete_keep: "fts_connection_delete c s = Some s' \<Longrightarrow> keeps_caches s s'"
  by (auto simp: fts_connection_delete_def bind_eq_Some_conv intro: keeps_caches_trans unlink_keep)

lemma remove_keep:
  "remove_outlet x i s = Some s' \<Longrightarrow> keeps_caches s s'"
  "remove_inlet x i s = Some s' \<Longrightarrow> keeps_caches s s'"
proof -
  show "remove_outlet x i s = Some s' \<Longrightarrow> keeps_caches s s'"
    by (rule remove_outlet.raw_induct [where P = "\<lambda>x i s s'. keeps_caches s s'" and xa = "((x, i), s)", unfolded prod.case])
      (auto simp: bind_eq_Some_conv split: option.splits, meson keeps_caches_trans delete_keep)
  show "remove_inlet x i s = Some s' \<Longrightarrow> keeps_caches s s'"
    by (rule remove_inlet.raw_induct [where P = "\<lambda>x i s s'. keeps_caches s s'" and xa = "((x, i), s)", unfolded prod.case])
      (auto simp: bind_eq_Some_conv split: option.splits, meson keeps_caches_trans delete_keep)
qed

lemma for_ports_keep:
  assumes "\<And>i s s'. f i s = Some s' \<Longrightarrow> keeps_caches s s'" "for_ports f is s = Some s'"
  shows "keeps_caches s s'"
  using assms(2) by (induction "is" arbitrary: s) (auto simp: bind_eq_Some_conv intro: keeps_caches_trans assms(1))

lemma trim_keep:
  "trim_outlet x i s = Some s' \<Longrightarrow> keeps_caches s s'" "trim_inlet x i s = Some s' \<Longrightarrow> keeps_caches s s'"
  by (auto simp: trim_outlet_def trim_inlet_def bind_eq_Some_conv intro: keeps_caches_trans remove_keep heads_keep)

lemma numbers_keep:
  "fts_object_set_outlets_number W x n s = Some s' \<Longrightarrow> keeps_caches s s'"
  "fts_object_set_inlets_number W x n s = Some s' \<Longrightarrow> keeps_caches s s'"
proof -
  have data: "keeps_caches (fts_object_get_patcher_data W x s) s1 \<Longrightarrow> keeps_caches s s1" for s1
    by (simp add: keeps_caches_def)
  show "fts_object_set_outlets_number W x n s = Some s' \<Longrightarrow> keeps_caches s s'"
    by (auto simp: fts_object_set_outlets_number_def fts_object_trim_outlets_connections_def Let_def bind_eq_Some_conv
        split: if_splits intro!: data intro: for_ports_keep [OF trim_keep(1)])
  show "fts_object_set_inlets_number W x n s = Some s' \<Longrightarrow> keeps_caches s s'"
    by (auto simp: fts_object_set_inlets_number_def fts_object_trim_inlets_connections_def Let_def bind_eq_Some_conv
        split: if_splits intro!: data intro: for_ports_keep [OF trim_keep(2)])
qed

lemma link_keep:
  assumes "connection_link k s = Some (r, s')" "c_cache k = fts_message_cache_init"
  shows "keeps_caches s s'"
proof -
  have "keeps_caches s (s\<lparr>conns := (conns s)(c \<mapsto> k\<lparr>next_same_src := p\<rparr>), next_conn := n\<rparr>)" for c p n
    using assms(2) by (auto simp: keeps_caches_def)
  moreover obtain p q s1 s2 where "set_out_head (c_src k) (c_woutlet k) (Some (next_conn s))
      (s\<lparr>conns := (conns s)(next_conn s \<mapsto> k\<lparr>next_same_src := p\<rparr>), next_conn := next_conn s + 1\<rparr>) = Some s1"
      "set_next_dst (next_conn s) q s1 = Some s2" "set_in_head (c_dst k) (c_winlet k) (Some (next_conn s)) s2 = Some s'"
    using assms(1) by (auto simp: connection_link_def Let_def bind_eq_Some_conv)
  ultimately show ?thesis by (meson heads_keep next_keep keeps_caches_trans)
qed

lemma add_keep: "connection_add W valid patcher src woutlet dst winlet type s = Some (r, s') \<Longrightarrow> keeps_caches s s'"
  by (auto simp: connection_add_def bind_eq_Some_conv connection_init_def split: if_splits intro: link_keep)

lemma new_keep:
  assumes "fts_connection_new W src woutlet dst winlet type s = Some (r, s')"
  shows "keeps_caches s s'"
proof -
  let ?u = "fts_object_get_patcher_data W dst (fts_object_get_patcher_data W src s)"
  have data: "keeps_caches s ?u" by (simp add: keeps_caches_conns)
  have out: "fts_error_object_fit_outlet W x n t = Some t' \<Longrightarrow> keeps_caches t t'"
    and inl: "fts_error_object_fit_inlet W x n t = Some t' \<Longrightarrow> keeps_caches t t'" for x n t t'
    by (auto simp: fts_error_object_fit_outlet_def fts_error_object_fit_inlet_def split: if_splits intro: numbers_keep)
  show ?thesis
    using assms data
    by (auto simp: fts_connection_new_def Let_def bind_eq_Some_conv split: if_splits
        dest!: add_keep out inl intro: keeps_caches_trans)
qed

lemma remove_connections_keep:
  assumes "patcher_data_remove_connections x s = Some s'"
  shows "keeps_caches s s'"
proof -
  obtain s1 where s1: "for_ports (remove_outlet x) [0..fts_object_get_outlets_number x s - 1] s = Some s1"
      "for_ports (remove_inlet x) [0..fts_object_get_inlets_number x s1 - 1] s1 = Some s'"
    using assms by (auto simp: patcher_data_remove_connections_def bind_eq_Some_conv)
  show ?thesis
    using for_ports_keep [OF remove_keep(1) s1(1)] for_ports_keep [OF remove_keep(2) s1(2)] by (rule keeps_caches_trans)
qed

lemma remove_object_keep: "fts_object_remove_patcher_data x s = Some s' \<Longrightarrow> keeps_caches s s'"
  by (auto simp: fts_object_remove_patcher_data_def patcher_data_remove_inoutlets_def bind_eq_Some_conv
      split: if_splits intro: remove_connections_keep)

lemma patch_apply_keep: "patch_apply W op s = Some s' \<Longrightarrow> keeps_caches s s'"
  by (cases op) (auto simp: bind_eq_Some_conv split: if_splits option.splits
      intro: new_keep delete_keep numbers_keep remove_object_keep)

lemma patch_run_caches: "patch_run W ops s = Some s' \<Longrightarrow> caches_ok W s \<Longrightarrow> caches_ok W s'"
  by (induction ops arbitrary: s) (auto simp: bind_eq_Some_conv intro: keeps_caches_ok [OF patch_apply_keep])

subsection \<open>Sending keeps the graph\<close>

lemma same_links_modelled:
  assumes l: "same_links s s'" and m: "modelled s G"
  shows "modelled s' G"
proof -
  obtain outs ins where m: "models s outs ins G" using m by (auto simp: modelled_def)
  have e: "map_option erase_conn (conns s' c) = map_option erase_conn (conns s c)" for c by (rule same_links_conns [OF l])
  have ts: "target t c = (case map_option erase_conn (conns t c) of None \<Rightarrow> (0, 0, 0) | Some k \<Rightarrow> (c_dst k, c_winlet k, c_type k))"
    "source t c = (case map_option erase_conn (conns t c) of None \<Rightarrow> (0, 0, 0) | Some k \<Rightarrow> (c_src k, c_woutlet k, c_type k))" for t c
    by (cases "conns t c"; simp add: target_def source_def erase_conn_def)+
  have ts: "target s' = target s" "source s' = source s" by (simp_all only: fun_eq_iff ts e) auto
  have ports: "ports_of t x = map_option (\<lambda>d. (n_inlets d, n_outlets d)) (map_option (\<lambda>d. d\<lparr>pd_winlet := 0\<rparr>) (contexts t x))" for t x
    by (cases "contexts t x"; simp add: ports_of_def)
  have "map_option (\<lambda>d. d\<lparr>pd_winlet := 0\<rparr>) (contexts s' x) = map_option (\<lambda>d. d\<lparr>pd_winlet := 0\<rparr>) (contexts s x)" for x
    using l by (simp add: same_links_def)
  then have "ports_of s' = ports_of s" unfolding fun_eq_iff ports by simp
  with ts m same_links_linked [OF l, of outs ins] have "models s' outs ins G" by (simp add: models_def)
  then show ?thesis by (rule modelledI)
qed

subsection \<open>Sessions\<close>

datatype session_step = Edit patch_op | Send obj out_cmd

fun session_run :: "patch_world \<Rightarrow> 'u methods \<Rightarrow> nat \<Rightarrow> session_step list \<Rightarrow> 'u machine \<Rightarrow> 'u machine outcome" where
  "session_run W M n [] st = Done st"
| "session_run W M n (Edit op # steps) st =
     (case patch_apply W op (m_patch st) of None \<Rightarrow> Fault
      | Some s \<Rightarrow> session_run W M n steps (st\<lparr>m_patch := s\<rparr>))"
| "session_run W M n (Send x cmd # steps) st =
     andThen (send W (cached_lookup W) M n x cmd st) (session_run W M n steps)"

fun edits_of :: "session_step list \<Rightarrow> patch_op list" where
  "edits_of [] = []"
| "edits_of (Edit op # steps) = op # edits_of steps"
| "edits_of (Send x cmd # steps) = edits_of steps"

fun step_ok :: "session_step \<Rightarrow> bool" where
  "step_ok (Edit op) \<longleftrightarrow> edit_ok op"
| "step_ok (Send x cmd) \<longleftrightarrow> value_cmd cmd"

lemma modelled_can_send: "modelled (m_patch st) G \<Longrightarrow> caches_ok W (m_patch st) \<Longrightarrow> can_send W st"
  by (auto simp: can_send_def modelled_def models_def)

theorem session_settles:
  assumes W: "world_ok W" "no_handlers W" and M: "value_methods M"
    and "list_all step_ok steps" "modelled (m_patch st) G" "caches_ok W (m_patch st)"
  shows "\<exists>st'. settles (\<lambda>n. session_run W M n steps st) st' \<and> m_top st' = m_top st
           \<and> modelled (m_patch st') (fold (graph_apply W) (edits_of steps) G)"
  using assms(4-)
proof (induction steps arbitrary: st G)
  case (Cons step steps)
  show ?case
  proof (cases step)
    case (Edit op)
    obtain s where s: "patch_apply W op (m_patch st) = Some s" "modelled s (graph_apply W op G)"
      using patch_apply_spec [OF Cons.prems(2) W(1), of op] Cons.prems(1) Edit by auto
    have "caches_ok W s" using keeps_caches_ok [OF patch_apply_keep [OF s(1)] Cons.prems(3)] .
    with Cons.IH [of "st\<lparr>m_patch := s\<rparr>" "graph_apply W op G"] Cons.prems(1) s Edit show ?thesis by auto
  next
    case (Send x cmd)
    then have cmd: "value_cmd cmd" using Cons.prems(1) by simp
    note st = modelled_can_send [OF Cons.prems(2,3)]
    obtain st1 where st1: "settles (\<lambda>n. send W (cached_lookup W) M n x cmd st) st1"
      using send_returns [OF M W(2) st cmd] by blast
    obtain n where n: "send W (cached_lookup W) M n x cmd st = Done st1" using settles_at [OF st1] by blast
    note res = send_result [OF M st cmd st1]
    have m1: "modelled (m_patch st1) G"
      using send_keeps [OF n] same_links_modelled Cons.prems(2) by (auto simp: keeps_def)
    obtain st2 where st2: "settles (\<lambda>n. session_run W M n steps st1) st2" "m_top st2 = m_top st1"
        "modelled (m_patch st2) (fold (graph_apply W) (edits_of steps) G)"
      using Cons.IH [OF _ m1] Cons.prems(1) res by (auto simp: can_send_def)
    have "settles (\<lambda>n. session_run W M n (step # steps) st) st2"
      using settles_andThen [where g = "\<lambda>n. session_run W M n steps", OF st1 st2(1)] unfolding Send session_run.simps .
    with st2 res show ?thesis using Send by auto
  qed
qed auto

end
