(* ===== verification/DspGraph.thy ===== *)
theory DspGraph
  imports Connection
begin

text \<open>
  The compiler of the DSP graph (\<open>fts/dspgraph.c\<close>): it sorts the signal objects of a patch so that
  every object comes after its predecessors, allots the signal buffers that the objects read and
  write, and emits the chain of calls that is run at every tick.

  Buffers are reused: a signal counts the inputs that still have to read it, and a signal that
  nobody reads any more is given to the next output of the same length. Two connections to the same
  inlet are added with a call of \<open>__builtin_add\<close>.

  What the compiler reads of the patch is in \<open>dsp_world\<close>: the DSP objects that the graph iterator
  finds from an outlet (see \<open>GraphIterator\<close>), in order; whether the connection of two ports only
  forces an order; the inputs, outputs and the resampling of an object. A call that an object's
  \<open>put\<close> method emits is \<open>Put x ins outs\<close>. Sizes are unbounded integers. The sample rates of the
  signals, which are not used for decisions, and the marks of active connections are left out.

  Following a null pointer or an index outside an array is \<^const>\<open>None\<close>, and so is running out
  of the fuel of the depth first search.
\<close>

type_synonym sid = nat

record dsp_world =
  dw_edges :: "obj \<Rightarrow> nat \<Rightarrow> (obj \<times> int) list"
  dw_forcing :: "obj \<Rightarrow> nat \<Rightarrow> obj \<Rightarrow> int \<Rightarrow> bool"
  dw_ninputs :: "obj \<Rightarrow> nat"
  dw_noutputs :: "obj \<Rightarrow> nat"
  dw_resamp :: "obj \<Rightarrow> int"

record dsp_signal =
  sig_refcnt :: int
  sig_length :: int

datatype dsp_instr =
    Prologue obj
  | Put obj "sid list" "sid list"
  | BuiltinAdd sid sid sid int
  | PutAfterSuccessors obj
  | Epilogue obj

datatype dsp_error = InputsMismatch obj | LoopInGraph obj

record dsp_state =
  d_pred :: "obj \<Rightarrow> int"
  d_in :: "obj \<Rightarrow> sid option list"
  d_out :: "obj \<Rightarrow> sid option list"
  d_signals :: "dsp_signal list"
  d_chain :: "dsp_instr list"
  d_errs :: "dsp_error list"
  d_compiled :: bool

subsection \<open>Signals\<close>

text \<open>
  \<open>d_signals\<close> holds the signal \<open>_sig_n\<close> at index \<open>n\<close>; \<open>signal_list\<close> has the newest first. The first
  signal that is made is \<open>sig_zero\<close>.
\<close>

definition SIGNAL_PENDING :: int where "SIGNAL_PENDING = - 1"
definition sig_zero :: sid where "sig_zero = 0"

definition emit :: "dsp_instr \<Rightarrow> dsp_state \<Rightarrow> dsp_state" where
  "emit c st = st\<lparr>d_chain := d_chain st @ [c]\<rparr>"

definition set_refcnt :: "sid \<Rightarrow> int \<Rightarrow> dsp_state \<Rightarrow> dsp_state" where
  "set_refcnt s n st = st\<lparr>d_signals := (d_signals st)[s := (d_signals st ! s)\<lparr>sig_refcnt := n\<rparr>]\<rparr>"

definition refcnt :: "dsp_state \<Rightarrow> sid \<Rightarrow> int" where
  "refcnt st s = sig_refcnt (d_signals st ! s)"

definition fts_dsp_signal_new :: "int \<Rightarrow> dsp_state \<Rightarrow> sid \<times> dsp_state" where
  "fts_dsp_signal_new vector_size st =
     (case find (\<lambda>s. refcnt st s = 0 \<and> sig_length (d_signals st ! s) = vector_size) (rev [0..<length (d_signals st)]) of
        Some s \<Rightarrow> (s, set_refcnt s SIGNAL_PENDING st)
      | None \<Rightarrow> (length (d_signals st),
                 st\<lparr>d_signals := d_signals st @ [\<lparr>sig_refcnt = SIGNAL_PENDING, sig_length = vector_size\<rparr>]\<rparr>))"

definition fts_dsp_signal_free :: "sid \<Rightarrow> dsp_state \<Rightarrow> dsp_state" where
  "fts_dsp_signal_free s st = set_refcnt s 0 st"

definition fts_dsp_signal_is_pending :: "dsp_state \<Rightarrow> sid \<Rightarrow> bool" where
  "fts_dsp_signal_is_pending st s \<longleftrightarrow> refcnt st s = SIGNAL_PENDING"

definition fts_dsp_signal_unreference :: "sid \<Rightarrow> dsp_state \<Rightarrow> dsp_state" where
  "fts_dsp_signal_unreference s st =
     (if refcnt st s \<noteq> SIGNAL_PENDING then set_refcnt s (refcnt st s - 1) st else st)"

definition fts_dsp_signal_reference :: "sid \<Rightarrow> dsp_state \<Rightarrow> dsp_state" where
  "fts_dsp_signal_reference s st =
     (if refcnt st s = SIGNAL_PENDING then set_refcnt s 1 st else set_refcnt s (refcnt st s + 1) st)"

subsection \<open>Scheduling an object\<close>

definition SCHEDULED :: int where "SCHEDULED = - 1"

definition IS_SCHEDULED :: "dsp_state \<Rightarrow> obj \<Rightarrow> bool" where
  "IS_SCHEDULED st x \<longleftrightarrow> d_pred st x = SCHEDULED"

fun each :: "('a \<Rightarrow> 's \<Rightarrow> 's option) \<Rightarrow> 'a list \<Rightarrow> 's \<Rightarrow> 's option" where
  "each f [] st = Some st"
| "each f (a # as) st = Option.bind (f a st) (each f as)"

text \<open>The common size of the inputs other than \<open>sig_zero\<close>; \<open>-1\<close> if there is none, \<^const>\<open>None\<close> if they differ.\<close>

fun match_inputs :: "dsp_state \<Rightarrow> sid option list \<Rightarrow> int \<Rightarrow> int option" where
  "match_inputs st [] in_size = Some in_size"
| "match_inputs st (None # ins) in_size = match_inputs st ins in_size"
| "match_inputs st (Some s # ins) in_size =
     (if s = sig_zero then match_inputs st ins in_size
      else if in_size < 0 then match_inputs st ins (sig_length (d_signals st ! s))
      else if in_size \<noteq> sig_length (d_signals st ! s) then None
      else match_inputs st ins in_size)"

fun new_signals :: "nat \<Rightarrow> int \<Rightarrow> dsp_state \<Rightarrow> sid list \<times> dsp_state" where
  "new_signals 0 out_size st = ([], st)"
| "new_signals (Suc n) out_size st =
     (let (s, st1) = fts_dsp_signal_new out_size st; (ss, st2) = new_signals n out_size st1 in (s # ss, st2))"

definition resampled :: "int \<Rightarrow> int \<Rightarrow> int" where
  "resampled resamp n = (if resamp = 0 then n else if resamp < 0 then n div 2 ^ nat (- resamp) else n * 2 ^ nat resamp)"

definition gen_outputs :: "dsp_world \<Rightarrow> int \<Rightarrow> obj \<Rightarrow> dsp_state \<Rightarrow> bool \<times> dsp_state" where
  "gen_outputs D vector_size x st =
     (case match_inputs st (d_in st x) (- 1) of
        None \<Rightarrow> (False, st\<lparr>d_errs := d_errs st @ [InputsMismatch x]\<rparr>)
      | Some n \<Rightarrow>
          (let in_size = (if n < 0 then vector_size else n);
               (outs, st1) = new_signals (dw_noutputs D x) (resampled (dw_resamp D x) in_size) st
           in (True, st1\<lparr>d_out := (d_out st1)(x := map Some outs),
                         d_signals := (d_signals st1)[sig_zero := (d_signals st1 ! sig_zero)\<lparr>sig_length := in_size\<rparr>]\<rparr>)))"

text \<open>The loop over the inputs at the start of \<open>dsp_graph_schedule_node\<close>.\<close>

fun release_inputs :: "sid option list \<Rightarrow> dsp_state \<Rightarrow> dsp_state" where
  "release_inputs [] st = st"
| "release_inputs (None # ins) st = release_inputs ins st"
| "release_inputs (Some s # ins) st =
     release_inputs ins (if s \<noteq> sig_zero then fts_dsp_signal_unreference s st else st)"

definition zero_inputs :: "sid option list \<Rightarrow> sid option list" where
  "zero_inputs ins = map (\<lambda>i. case i of None \<Rightarrow> Some sig_zero | Some s \<Rightarrow> Some s) ins"

text \<open>
  The edges from an object, outlet by outlet. \<open>dsp_graph_succ_realize\<close> applies a function to each of
  them; the functions do not change the patch that the iterator walks through.
\<close>

definition out_edges :: "dsp_world \<Rightarrow> obj \<Rightarrow> (nat \<times> obj \<times> int) list" where
  "out_edges D x = concat (map (\<lambda>i. map (\<lambda>(y, j). (i, y, j)) (dw_edges D x i)) [0..<dw_noutputs D x])"

definition dsp_graph_succ_realize ::
  "dsp_world \<Rightarrow> obj \<Rightarrow> (nat \<times> obj \<times> int \<Rightarrow> dsp_state \<Rightarrow> dsp_state option) \<Rightarrow> dsp_state \<Rightarrow> dsp_state option" where
  "dsp_graph_succ_realize D x f st = each f (out_edges D x) st"

definition dsp_graph_inc :: "nat \<times> obj \<times> int \<Rightarrow> dsp_state \<Rightarrow> dsp_state option" where
  "dsp_graph_inc e st = (case e of (i, y, j) \<Rightarrow> Some (st\<lparr>d_pred := (d_pred st)(y := d_pred st y + 1)\<rparr>))"

definition set_in :: "obj \<Rightarrow> nat \<Rightarrow> sid option \<Rightarrow> dsp_state \<Rightarrow> dsp_state" where
  "set_in y j s st = st\<lparr>d_in := (d_in st)(y := (d_in st y)[j := s])\<rparr>"

text \<open>A second signal for an input: a new signal for the sum takes the place of the first.\<close>

definition builtin_add :: "obj \<Rightarrow> nat \<Rightarrow> sid \<Rightarrow> sid \<Rightarrow> dsp_state \<Rightarrow> dsp_state" where
  "builtin_add y j previous_sig s st =
     (let st1 = fts_dsp_signal_reference s (fts_dsp_signal_unreference previous_sig st);
          len = sig_length (d_signals st1 ! s);
          (new_sig, st2) = fts_dsp_signal_new len st1;
          st3 = emit (BuiltinAdd previous_sig s new_sig len) st2;
          st4 = fts_dsp_signal_reference new_sig (fts_dsp_signal_unreference s st3)
      in set_in y j (Some new_sig) st4)"

definition connect_input :: "obj \<Rightarrow> nat \<Rightarrow> sid option \<Rightarrow> dsp_state \<Rightarrow> dsp_state option" where
  "connect_input y j sig st =
     (case d_in st y ! j of
        Some previous_sig \<Rightarrow>
          (if previous_sig \<noteq> sig_zero then map_option (\<lambda>s. builtin_add y j previous_sig s st) sig
           else Some (set_in y j sig (case sig of None \<Rightarrow> st | Some s \<Rightarrow> fts_dsp_signal_reference s st)))
      | None \<Rightarrow> Some (set_in y j sig (case sig of None \<Rightarrow> st | Some s \<Rightarrow> fts_dsp_signal_reference s st)))"

definition dsp_graph_dec_pred_inc_refcnt :: "dsp_world \<Rightarrow> obj \<Rightarrow> nat \<times> obj \<times> int \<Rightarrow> dsp_state \<Rightarrow> dsp_state option" where
  "dsp_graph_dec_pred_inc_refcnt D x e st =
     (case e of (i, y, j) \<Rightarrow>
        (let st1 = st\<lparr>d_pred := (d_pred st)(y := d_pred st y - 1)\<rparr>
         in if dw_ninputs D y = 0 then Some st1
            else if j < 0 \<or> \<not> nat j < length (d_in st y) \<or> \<not> i < length (d_out st x) then None
            else if dw_forcing D x i y j then Some st1
            else connect_input y (nat j) (d_out st x ! i) st1))"

fun free_pending :: "sid option list \<Rightarrow> dsp_state \<Rightarrow> dsp_state" where
  "free_pending [] st = st"
| "free_pending (None # outs) st = free_pending outs st"
| "free_pending (Some s # outs) st =
     free_pending outs (if fts_dsp_signal_is_pending st s then fts_dsp_signal_free s st else st)"

definition put_object :: "dsp_world \<Rightarrow> int \<Rightarrow> obj \<Rightarrow> dsp_state \<Rightarrow> dsp_state" where
  "put_object D tick x st =
     (let st1 = release_inputs (d_in st x) st;
          st2 = st1\<lparr>d_in := (d_in st1)(x := zero_inputs (d_in st1 x))\<rparr>;
          (ok, st3) = gen_outputs D tick x st2;
          st4 = (if ok then emit (Put x (map the (d_in st3 x)) (map the (d_out st3 x))) st3 else st3)
      in st4\<lparr>d_pred := (d_pred st4)(x := SCHEDULED)\<rparr>)"

definition dsp_graph_schedule_node :: "dsp_world \<Rightarrow> int \<Rightarrow> obj \<Rightarrow> dsp_state \<Rightarrow> dsp_state option" where
  "dsp_graph_schedule_node D tick x st =
     map_option (\<lambda>st'. free_pending (d_out st' x) st')
       (dsp_graph_succ_realize D x (dsp_graph_dec_pred_inc_refcnt D x) (put_object D tick x st))"

primrec dsp_graph_schedule_depth :: "nat \<Rightarrow> dsp_world \<Rightarrow> int \<Rightarrow> obj \<Rightarrow> dsp_state \<Rightarrow> dsp_state option" where
  "dsp_graph_schedule_depth 0 D tick x st = None"
| "dsp_graph_schedule_depth (Suc n) D tick x st =
     (if d_pred st x = 0
      then do {
        st1 \<leftarrow> dsp_graph_schedule_node D tick x st;
        st2 \<leftarrow> dsp_graph_succ_realize D x (\<lambda>(i, y, j). dsp_graph_schedule_depth n D tick y) st1;
        Some (emit (PutAfterSuccessors x) st2) }
      else Some st)"

subsection \<open>Compiling the graph\<close>

definition dsp_graph_reinit :: "dsp_world \<Rightarrow> obj list \<Rightarrow> dsp_state \<Rightarrow> dsp_state" where
  "dsp_graph_reinit D objects st =
     fold (\<lambda>x st. st\<lparr>d_pred := (d_pred st)(x := 0), d_in := (d_in st)(x := replicate (dw_ninputs D x) None),
                     d_out := (d_out st)(x := replicate (dw_noutputs D x) None)\<rparr>) objects st"

definition dsp_graph_count_predecessors :: "dsp_world \<Rightarrow> obj list \<Rightarrow> dsp_state \<Rightarrow> dsp_state option" where
  "dsp_graph_count_predecessors D objects st = each (\<lambda>x. dsp_graph_succ_realize D x dsp_graph_inc) objects st"

definition dsp_graph_schedule :: "dsp_world \<Rightarrow> int \<Rightarrow> obj list \<Rightarrow> dsp_state \<Rightarrow> dsp_state option" where
  "dsp_graph_schedule D tick objects st =
     each (\<lambda>x st. if d_pred st x = 0 then dsp_graph_schedule_depth (Suc (length objects)) D tick x st else Some st)
       objects st"

definition dsp_graph_check_loop :: "obj list \<Rightarrow> dsp_state \<Rightarrow> dsp_state" where
  "dsp_graph_check_loop objects st =
     fold (\<lambda>x st. if \<not> IS_SCHEDULED st x then st\<lparr>d_errs := d_errs st @ [LoopInGraph x]\<rparr> else st) objects st"

definition dsp_graph_send_message :: "(obj \<Rightarrow> dsp_instr) \<Rightarrow> obj list \<Rightarrow> dsp_state \<Rightarrow> dsp_state" where
  "dsp_graph_send_message instr objects st = fold (\<lambda>x. emit (instr x)) objects st"

definition fts_dsp_signal_init :: "dsp_state \<Rightarrow> dsp_state" where
  "fts_dsp_signal_init st = st\<lparr>d_signals := []\<rparr>"

definition fts_dsp_graph_compile :: "dsp_world \<Rightarrow> int \<Rightarrow> obj list \<Rightarrow> dsp_state \<Rightarrow> dsp_state option" where
  "fts_dsp_graph_compile D tick objects st =
     (if d_compiled st then Some st
      else let (zero, st1) = fts_dsp_signal_new tick (fts_dsp_signal_init (st\<lparr>d_chain := []\<rparr>));
               st2 = dsp_graph_reinit D objects (fts_dsp_signal_reference zero st1)
           in do {
             st3 \<leftarrow> dsp_graph_count_predecessors D objects (dsp_graph_send_message Prologue objects st2);
             st4 \<leftarrow> dsp_graph_schedule D tick objects st3;
             Some ((dsp_graph_send_message Epilogue objects (dsp_graph_check_loop objects st4))\<lparr>d_compiled := True\<rparr>) })"

definition fts_dsp_graph_reset :: "dsp_state \<Rightarrow> dsp_state" where
  "fts_dsp_graph_reset st = st\<lparr>d_compiled := False, d_chain := []\<rparr>"

subsection \<open>The graph's objects\<close>

definition fts_dsp_graph_add_object :: "obj \<Rightarrow> obj list \<Rightarrow> obj list" where
  "fts_dsp_graph_add_object x objects = x # objects"

fun remove_object :: "obj \<Rightarrow> obj list \<Rightarrow> obj list" where
  "remove_object x [] = []"
| "remove_object x (y # ys) = (if y = x then ys else y # remove_object x ys)"

definition fts_dsp_graph_remove_object :: "obj \<Rightarrow> obj list \<times> dsp_state \<Rightarrow> obj list \<times> dsp_state" where
  "fts_dsp_graph_remove_object x g =
     (remove_object x (fst g), if d_compiled (snd g) then fts_dsp_graph_reset (snd g) else snd g)"

subsection \<open>Running the chain\<close>

text \<open>
  One tick: a call reads its inputs and writes its outputs. What an object computes from its inputs
  in that tick, the addition of two buffers and the contents of the buffers before are parameters;
  the trace records the calls with the values they read and write.
\<close>

record 'v dsp_sem =
  ds_fun :: "obj \<Rightarrow> 'v list \<Rightarrow> 'v list"
  ds_add :: "'v \<Rightarrow> 'v \<Rightarrow> 'v"
  ds_mem :: "sid \<Rightarrow> 'v"

type_synonym 'v call_trace = "(obj \<times> 'v list \<times> 'v list) list"

fun write_all :: "sid list \<Rightarrow> 'v list \<Rightarrow> (sid \<Rightarrow> 'v) \<Rightarrow> (sid \<Rightarrow> 'v)" where
  "write_all (s # ss) (v # vs) mem = write_all ss vs (mem(s := v))"
| "write_all _ _ mem = mem"

fun run_instr :: "'v dsp_sem \<Rightarrow> dsp_instr \<Rightarrow> (sid \<Rightarrow> 'v) \<times> 'v call_trace \<Rightarrow> (sid \<Rightarrow> 'v) \<times> 'v call_trace" where
  "run_instr X (Put x ins outs) (mem, tr) =
     (let vs = map mem ins; os = ds_fun X x vs in (write_all outs os mem, tr @ [(x, vs, os)]))"
| "run_instr X (BuiltinAdd a b c n) (mem, tr) = (mem(c := ds_add X (mem a) (mem b)), tr)"
| "run_instr X _ r = r"

definition run_chain :: "'v dsp_sem \<Rightarrow> dsp_instr list \<Rightarrow> (sid \<Rightarrow> 'v) \<times> 'v call_trace" where
  "run_chain X chain = fold (run_instr X) chain (ds_mem X, [])"

lemma run_chain_snoc: "run_chain X (chain @ [c]) = run_instr X c (run_chain X chain)"
  by (simp add: run_chain_def)

lemma write_all_other: "s \<notin> set ss \<Longrightarrow> write_all ss vs mem s = mem s"
  by (induction ss vs mem rule: write_all.induct) auto

lemma write_all_nth:
  "distinct ss \<Longrightarrow> length vs = length ss \<Longrightarrow> i < length ss \<Longrightarrow> write_all ss vs mem (ss ! i) = vs ! i"
proof (induction ss vs mem arbitrary: i rule: write_all.induct)
  case (1 s ss v vs mem)
  then show ?case by (cases i) (auto simp: write_all_other simp del: fun_upd_apply, simp)
qed auto

subsection \<open>What a call has to read\<close>

text \<open>
  The values that a list of edges carries to an input, for an object that wrote \<open>os\<close>; those of all
  calls of a trace; and the sum that the input is.
\<close>

definition carries :: "dsp_world \<Rightarrow> obj \<Rightarrow> 'v list \<Rightarrow> (nat \<times> obj \<times> int) list \<Rightarrow> obj \<Rightarrow> nat \<Rightarrow> 'v list" where
  "carries D x os es y j =
     map (\<lambda>(i, _, _). os ! i) (filter (\<lambda>(i, y', j'). y' = y \<and> nat j' = j \<and> \<not> dw_forcing D x i y' j') es)"

definition arrives :: "dsp_world \<Rightarrow> 'v call_trace \<Rightarrow> obj \<Rightarrow> nat \<Rightarrow> 'v list" where
  "arrives D tr y j = concat (map (\<lambda>(x, _, os). carries D x os (out_edges D x) y j) tr)"

fun in_value :: "'v \<Rightarrow> ('v \<Rightarrow> 'v \<Rightarrow> 'v) \<Rightarrow> 'v list \<Rightarrow> 'v" where
  "in_value z add [] = z"
| "in_value z add (v # vs) = foldl add v vs"

lemma in_value_snoc: "vs \<noteq> [] \<Longrightarrow> in_value z add (vs @ [v]) = add (in_value z add vs) v"
  by (cases vs) simp_all

definition call_ok :: "dsp_world \<Rightarrow> 'v dsp_sem \<Rightarrow> obj list \<Rightarrow> 'v call_trace \<Rightarrow> obj \<times> 'v list \<times> 'v list \<Rightarrow> bool" where
  "call_ok D X objects tr c \<longleftrightarrow>
     (case c of (x, vs, os) \<Rightarrow>
        os = ds_fun X x vs
        \<and> vs = map (\<lambda>j. in_value (ds_mem X sig_zero) (ds_add X) (arrives D tr x j)) [0..<dw_ninputs D x]
        \<and> (\<forall>w \<in> set objects. (\<exists>i j. (i, x, j) \<in> set (out_edges D w)) \<longrightarrow> w \<in> fst ` set tr))"

definition trace_ok :: "dsp_world \<Rightarrow> 'v dsp_sem \<Rightarrow> obj list \<Rightarrow> 'v call_trace \<Rightarrow> bool" where
  "trace_ok D X objects tr \<longleftrightarrow>
     distinct (map fst tr) \<and> (\<forall>k < length tr. call_ok D X objects (take k tr) (tr ! k))"

lemma trace_ok_snoc:
  "trace_ok D X objects (tr @ [c]) \<longleftrightarrow> trace_ok D X objects tr \<and> fst c \<notin> fst ` set tr \<and> call_ok D X objects tr c"
  by (auto simp: trace_ok_def nth_append less_Suc_eq)

end
