(* ===== verification/DspSchedule.thy ===== *)
theory DspSchedule
  imports DspGraph
begin

text \<open>
  Correctness of the DSP compiler: the order of the calls is topological, the objects that are not
  called are those behind a loop, and the reuse of the buffers is not visible: every call reads the
  sums of what its predecessors wrote.
\<close>

subsection \<open>Signals\<close>

abbreviation n_signals :: "dsp_state \<Rightarrow> nat" where
  "n_signals st \<equiv> length (d_signals st)"

definition lengths_are :: "int \<Rightarrow> dsp_state \<Rightarrow> bool" where
  "lengths_are n st \<longleftrightarrow> (\<forall>s < n_signals st. sig_length (d_signals st ! s) = n)"

text \<open>States that differ in their signals only.\<close>

definition same_nodes :: "dsp_state \<Rightarrow> dsp_state \<Rightarrow> bool" where
  "same_nodes st st' \<longleftrightarrow>
     d_pred st' = d_pred st \<and> d_in st' = d_in st \<and> d_out st' = d_out st \<and> d_chain st' = d_chain st \<and> d_errs st' = d_errs st"

lemma same_nodes_refl [simp]: "same_nodes st st"
  by (simp add: same_nodes_def)

lemma same_nodes_trans: "same_nodes st st' \<Longrightarrow> same_nodes st' st'' \<Longrightarrow> same_nodes st st''"
  by (simp add: same_nodes_def)

lemma sig_length_update [simp]: "sig_length (xs[s := (xs ! s)\<lparr>sig_refcnt := n\<rparr>] ! t) = sig_length (xs ! t)"
  by (cases "s = t"; cases "t < length xs") (simp_all add: list_update_beyond)

lemma find_elem: "find P xs = Some u \<Longrightarrow> u \<in> set xs \<and> P u"
  by (induction xs) (auto split: if_splits)

lemma set_refcnt_fields [simp]:
  "s < n_signals st \<Longrightarrow> refcnt (set_refcnt s n st) t = (if t = s then n else refcnt st t)"
  "n_signals (set_refcnt s n st) = n_signals st"
  "same_nodes st (set_refcnt s n st)"
  "lengths_are m (set_refcnt s n st) = lengths_are m st"
  by (auto simp: set_refcnt_def refcnt_def same_nodes_def lengths_are_def nth_list_update)

lemma unreference:
  assumes "s < n_signals st"
  shows "refcnt (fts_dsp_signal_unreference s st) t =
           (if t = s \<and> refcnt st s \<noteq> SIGNAL_PENDING then refcnt st s - 1 else refcnt st t)"
    "n_signals (fts_dsp_signal_unreference s st) = n_signals st"
    "same_nodes st (fts_dsp_signal_unreference s st)"
    "lengths_are m (fts_dsp_signal_unreference s st) = lengths_are m st"
  using assms by (simp_all add: fts_dsp_signal_unreference_def)

lemma reference:
  assumes "s < n_signals st"
  shows "refcnt (fts_dsp_signal_reference s st) t =
           (if t = s then if refcnt st s = SIGNAL_PENDING then 1 else refcnt st s + 1 else refcnt st t)"
    "n_signals (fts_dsp_signal_reference s st) = n_signals st"
    "same_nodes st (fts_dsp_signal_reference s st)"
    "lengths_are m (fts_dsp_signal_reference s st) = lengths_are m st"
  using assms by (simp_all add: fts_dsp_signal_reference_def)

text \<open>A new signal is one that nobody refers to, or a fresh one.\<close>

lemma signal_new:
  assumes "fts_dsp_signal_new n st = (s, st')" "lengths_are n st"
  shows "s < n_signals st'" "n_signals st \<le> n_signals st'" "n_signals st' \<le> Suc (n_signals st)"
    "s < n_signals st \<Longrightarrow> refcnt st s = 0" "\<not> s < n_signals st \<Longrightarrow> s = n_signals st"
    "t < n_signals st' \<Longrightarrow> t \<noteq> s \<Longrightarrow> t < n_signals st \<and> refcnt st' t = refcnt st t" "refcnt st' s = SIGNAL_PENDING"
    "same_nodes st st'" "lengths_are n st'"
proof -
  let ?f = "find (\<lambda>s. refcnt st s = 0 \<and> sig_length (d_signals st ! s) = n) (rev [0..<n_signals st])"
  have *: "s < n_signals st' \<and> n_signals st \<le> n_signals st' \<and> n_signals st' \<le> Suc (n_signals st)
    \<and> (s < n_signals st \<longrightarrow> refcnt st s = 0) \<and> (\<not> s < n_signals st \<longrightarrow> s = n_signals st)
    \<and> (t < n_signals st' \<longrightarrow> t \<noteq> s \<longrightarrow> t < n_signals st \<and> refcnt st' t = refcnt st t) \<and> refcnt st' s = SIGNAL_PENDING
    \<and> same_nodes st st' \<and> lengths_are n st'" for t
  proof (cases ?f)
    case None
    then have "s = n_signals st" "st' = st\<lparr>d_signals := d_signals st @ [\<lparr>sig_refcnt = SIGNAL_PENDING, sig_length = n\<rparr>]\<rparr>"
      using assms(1) by (auto simp: fts_dsp_signal_new_def)
    then show ?thesis
      using assms(2) by (auto simp: refcnt_def nth_append same_nodes_def lengths_are_def less_Suc_eq)
  next
    case (Some u)
    then have u: "s = u" "st' = set_refcnt u SIGNAL_PENDING st"
      using assms(1) by (auto simp: fts_dsp_signal_new_def)
    from Some have "refcnt st u = 0 \<and> u < n_signals st"
      by (auto dest: find_elem)
    then show ?thesis using u assms(2) by simp
  qed
  show "s < n_signals st'" "n_signals st \<le> n_signals st'" "n_signals st' \<le> Suc (n_signals st)"
    "s < n_signals st \<Longrightarrow> refcnt st s = 0" "\<not> s < n_signals st \<Longrightarrow> s = n_signals st"
    "t < n_signals st' \<Longrightarrow> t \<noteq> s \<Longrightarrow> t < n_signals st \<and> refcnt st' t = refcnt st t" "refcnt st' s = SIGNAL_PENDING"
    "same_nodes st st'" "lengths_are n st'"
    using * by blast+
qed

text \<open>The outputs of an object are distinct signals that nobody refers to.\<close>

lemma new_signals_spec:
  assumes "new_signals n len st = (ss, st')" "lengths_are len st"
  shows "length ss = n \<and> distinct ss \<and> n_signals st \<le> n_signals st' \<and> same_nodes st st' \<and> lengths_are len st'
    \<and> (\<forall>s \<in> set ss. s < n_signals st' \<and> (s < n_signals st \<longrightarrow> refcnt st s = 0) \<and> refcnt st' s = SIGNAL_PENDING)
    \<and> (\<forall>t < n_signals st'. t \<notin> set ss \<longrightarrow> t < n_signals st \<and> refcnt st' t = refcnt st t)"
  using assms
proof (induction n arbitrary: st ss st')
  case 0
  then show ?case by simp
next
  case (Suc n)
  obtain s st1 where s: "fts_dsp_signal_new len st = (s, st1)" by (cases "fts_dsp_signal_new len st")
  obtain ss1 st2 where ss: "new_signals n len st1 = (ss1, st2)" by (cases "new_signals n len st1")
  note new = signal_new [OF s Suc.prems(2)]
  have eq: "ss = s # ss1" "st' = st2" using Suc.prems(1) s ss by simp_all
  note IH = Suc.IH [OF ss new(9)]
  have "s \<notin> set ss1"
  proof
    assume "s \<in> set ss1"
    with IH new(1) have "refcnt st1 s = 0" by blast
    with new(7) show False by (simp add: SIGNAL_PENDING_def)
  qed
  moreover have "u < n_signals st \<longrightarrow> refcnt st u = 0" if "u \<in> set ss1" for u
  proof
    assume "u < n_signals st"
    with new(2) have "u < n_signals st1" by simp
    moreover have "u \<noteq> s" using that \<open>s \<notin> set ss1\<close> by blast
    ultimately show "refcnt st u = 0" using new(6) [of u] IH that by auto
  qed
  ultimately show ?case
    unfolding eq using IH new same_nodes_trans [OF new(8)] by (auto simp: SIGNAL_PENDING_def)
qed

subsection \<open>Counting references and predecessors\<close>

text \<open>How many inputs of the objects \<open>U\<close> refer to a signal, how many edges lead from them to an object.\<close>

definition uses :: "obj set \<Rightarrow> dsp_state \<Rightarrow> sid \<Rightarrow> nat" where
  "uses U st s = (\<Sum>y \<in> U. count_list (d_in st y) (Some s))"

definition edges_to :: "(nat \<times> obj \<times> int) list \<Rightarrow> obj \<Rightarrow> nat" where
  "edges_to es y = length (filter (\<lambda>(i, y', j). y' = y) es)"

definition in_degree :: "dsp_world \<Rightarrow> obj set \<Rightarrow> obj \<Rightarrow> nat" where
  "in_degree D U y = (\<Sum>x \<in> U. edges_to (out_edges D x) y)"

lemma edges_to_simps [simp]:
  "edges_to [] y = 0" "edges_to ((i, y', j) # es) y = (if y' = y then Suc (edges_to es y) else edges_to es y)"
  "edges_to (es @ es') y = edges_to es y + edges_to es' y"
  by (simp_all add: edges_to_def)

lemma edges_to_0: "edges_to es y = 0 \<longleftrightarrow> (\<forall>i j. (i, y, j) \<notin> set es)"
  by (auto simp: edges_to_def filter_empty_conv)

lemma in_degree_remove: "finite U \<Longrightarrow> x \<in> U \<Longrightarrow> in_degree D U y = edges_to (out_edges D x) y + in_degree D (U - {x}) y"
  by (simp add: in_degree_def sum.remove)

lemma in_degree_0: "finite U \<Longrightarrow> in_degree D U y = 0 \<longleftrightarrow> (\<forall>x \<in> U. edges_to (out_edges D x) y = 0)"
  by (simp add: in_degree_def)

lemma count_list_update:
  "j < length xs \<Longrightarrow>
   count_list (xs[j := v]) a + (if xs ! j = a then 1 else 0) = count_list xs a + (if v = a then 1 else 0)"
proof (induction xs arbitrary: j)
  case (Cons x xs)
  show ?case
  proof (cases j)
    case (Suc k)
    then show ?thesis using Cons.IH [of k] Cons.prems by auto
  qed simp
qed simp

lemma uses_set_in:
  assumes "finite U" "y \<in> U" "j < length (d_in st y)"
  shows "uses U (set_in y j v st) s + (if d_in st y ! j = Some s then 1 else 0) = uses U st s + (if v = Some s then 1 else 0)"
proof -
  have "uses U (set_in y j v st) s = count_list ((d_in st y)[j := v]) (Some s) + uses (U - {y}) st s"
    using assms(1,2) by (simp add: uses_def set_in_def sum.remove)
  moreover have "uses U st s = count_list (d_in st y) (Some s) + uses (U - {y}) st s"
    using assms(1,2) by (simp add: uses_def sum.remove)
  ultimately show ?thesis using count_list_update [OF assms(3), of v "Some s"] by auto
qed

lemma uses_0: "finite U \<Longrightarrow> uses U st s = 0 \<longleftrightarrow> (\<forall>y \<in> U. Some s \<notin> set (d_in st y))"
  by (simp add: uses_def count_list_0_iff)

lemma uses_gt: "finite U \<Longrightarrow> y \<in> U \<Longrightarrow> j < length (d_in st y) \<Longrightarrow> d_in st y ! j = Some s \<Longrightarrow> uses U st s > 0"
  using uses_0 [of U st s] nth_mem [of j "d_in st y"] by fastforce

lemma uses_same: "d_in st' = d_in st \<Longrightarrow> uses U st' s = uses U st s"
  by (simp add: uses_def)

lemma uses_remove: "finite U \<Longrightarrow> x \<in> U \<Longrightarrow> uses U st s = count_list (d_in st x) (Some s) + uses (U - {x}) st s"
  by (simp add: uses_def sum.remove)

subsection \<open>The invariant\<close>

text \<open>
  The signals: every signal but \<open>sig_zero\<close> counts the inputs of the objects \<open>U\<close> that are not
  scheduled yet, or is an unused output \<open>P\<close> of the object that is being scheduled.
\<close>

definition signals_ok :: "int \<Rightarrow> obj set \<Rightarrow> sid set \<Rightarrow> dsp_state \<Rightarrow> bool" where
  "signals_ok tick U P st \<longleftrightarrow>
     lengths_are tick st \<and> 0 < n_signals st \<and> 0 < refcnt st sig_zero
     \<and> (\<forall>s. 0 < s \<longrightarrow> s < n_signals st \<longrightarrow>
          refcnt st s = int (uses U st s) \<or> (uses U st s = 0 \<and> refcnt st s = SIGNAL_PENDING \<and> s \<in> P))
     \<and> (\<forall>y \<in> U. \<forall>s. Some s \<in> set (d_in st y) \<longrightarrow> 0 < s \<and> s < n_signals st)"

text \<open>The inputs hold the sums of the values \<open>cv\<close> that have been carried to them.\<close>

definition slot_ok :: "'v dsp_sem \<Rightarrow> (sid \<Rightarrow> 'v) \<Rightarrow> sid option \<Rightarrow> 'v list \<Rightarrow> bool" where
  "slot_ok X mem v vs \<longleftrightarrow>
     (case v of None \<Rightarrow> vs = [] | Some s \<Rightarrow> vs \<noteq> [] \<and> mem s = in_value (ds_mem X sig_zero) (ds_add X) vs)"

definition inputs_hold :: "dsp_world \<Rightarrow> 'v dsp_sem \<Rightarrow> obj set \<Rightarrow> dsp_state \<Rightarrow> (sid \<Rightarrow> 'v) \<Rightarrow> (obj \<Rightarrow> nat \<Rightarrow> 'v list) \<Rightarrow> bool" where
  "inputs_hold D X U st mem cv \<longleftrightarrow>
     mem sig_zero = ds_mem X sig_zero
     \<and> (\<forall>y \<in> U. length (d_in st y) = dw_ninputs D y)
     \<and> (\<forall>y \<in> U. \<forall>j < dw_ninputs D y. slot_ok X mem (d_in st y ! j) (cv y j))"

lemma signals_okD:
  assumes "signals_ok tick U P st"
  shows "lengths_are tick st" "0 < n_signals st" "0 < refcnt st sig_zero"
    "0 < s \<Longrightarrow> s < n_signals st \<Longrightarrow> refcnt st s = int (uses U st s) \<or> (uses U st s = 0 \<and> refcnt st s = SIGNAL_PENDING \<and> s \<in> P)"
    "y \<in> U \<Longrightarrow> Some s \<in> set (d_in st y) \<Longrightarrow> 0 < s \<and> s < n_signals st"
  using assms by (auto simp: signals_ok_def)

lemma set_in_simps [simp]:
  "d_pred (set_in y j v st) = d_pred st" "d_out (set_in y j v st) = d_out st" "d_chain (set_in y j v st) = d_chain st"
  "d_errs (set_in y j v st) = d_errs st" "d_signals (set_in y j v st) = d_signals st" "refcnt (set_in y j v st) s = refcnt st s"
  "d_in (set_in y j v st) = (d_in st)(y := (d_in st y)[j := v])"
  by (simp_all add: set_in_def refcnt_def)

lemma lengths_are_set_in [simp]: "lengths_are n (set_in y j v st) = lengths_are n st"
  by (simp add: lengths_are_def)

lemma slot_ok_simps [simp]:
  "slot_ok X mem None vs \<longleftrightarrow> vs = []"
  "slot_ok X mem (Some s) vs \<longleftrightarrow> vs \<noteq> [] \<and> mem s = in_value (ds_mem X sig_zero) (ds_add X) vs"
  by (simp_all add: slot_ok_def)

definition carry :: "obj \<Rightarrow> nat \<Rightarrow> 'v \<Rightarrow> (obj \<Rightarrow> nat \<Rightarrow> 'v list) \<Rightarrow> (obj \<Rightarrow> nat \<Rightarrow> 'v list)" where
  "carry y j v cv = cv(y := (cv y)(j := cv y j @ [v]))"

lemma inputs_hold_set:
  assumes hold: "inputs_hold D X U st mem cv" and y: "y \<in> U" "j < length (d_in st y)"
    and din: "d_in st' = (d_in st)(y := (d_in st y)[j := Some s])"
    and new: "slot_ok X mem' (Some s) (cv y j @ [v])" and zero: "mem' sig_zero = mem sig_zero"
    and other: "\<And>y' j' t. y' \<in> U \<Longrightarrow> j' < length (d_in st y') \<Longrightarrow> (y', j') \<noteq> (y, j) \<Longrightarrow> d_in st y' ! j' = Some t \<Longrightarrow> mem' t = mem t"
  shows "inputs_hold D X U st' mem' (carry y j v cv)"
proof -
  have "slot_ok X mem' (d_in st' y' ! j') (carry y j v cv y' j')" if "y' \<in> U" "j' < dw_ninputs D y'" for y' j'
  proof (cases "(y', j') = (y, j)")
    case True
    with new y show ?thesis by (simp add: din carry_def)
  next
    case False
    then have eq: "d_in st' y' ! j' = d_in st y' ! j'" "carry y j v cv y' j' = cv y' j'"
      by (auto simp: din carry_def nth_list_update)
    have "slot_ok X mem (d_in st y' ! j') (cv y' j')" "j' < length (d_in st y')"
      using hold that by (auto simp: inputs_hold_def)
    then show ?thesis unfolding eq using other [OF that(1) _ False] by (cases "d_in st y' ! j'") auto
  qed
  with hold zero show ?thesis by (simp add: inputs_hold_def din)
qed

text \<open>What an edge does to the rest of the state.\<close>

definition edge_frame :: "sid \<Rightarrow> dsp_state \<Rightarrow> (sid \<Rightarrow> 'v) \<Rightarrow> dsp_state \<Rightarrow> (sid \<Rightarrow> 'v) \<Rightarrow> bool" where
  "edge_frame s st mem st' mem' \<longleftrightarrow>
     d_pred st' = d_pred st \<and> d_out st' = d_out st \<and> d_errs st' = d_errs st \<and> n_signals st \<le> n_signals st'
     \<and> (\<forall>t < n_signals st. refcnt st t = SIGNAL_PENDING \<or> t = s \<longrightarrow> mem' t = mem t)
     \<and> (\<forall>t < n_signals st. refcnt st t = SIGNAL_PENDING \<and> t \<noteq> s \<longrightarrow> refcnt st' t = SIGNAL_PENDING)"

lemma first_input:
  assumes U: "finite U" "y \<in> U" "j < length (d_in st y)" and none: "d_in st y ! j = None"
    and sigs: "signals_ok tick U P st" and hold: "inputs_hold D X U st mem cv"
    and s: "0 < s" "s < n_signals st" "mem s = v"
  defines "st' \<equiv> set_in y j (Some s) (fts_dsp_signal_reference s st)"
  shows "signals_ok tick U P st'" "inputs_hold D X U st' mem (carry y j v cv)" "edge_frame s st mem st' mem"
    "d_chain st' = d_chain st"
proof -
  note ref = reference [OF s(2)]
  note nodes = ref(3) [unfolded same_nodes_def]
  note ok = signals_okD [OF sigs]
  have din: "d_in (fts_dsp_signal_reference s st) = d_in st" using nodes by simp
  have n: "n_signals st' = n_signals st" by (simp add: st'_def ref(2))
  have uses: "uses U st' t = uses U st t + (if t = s then 1 else 0)" for t
    using uses_set_in [of U y j "fts_dsp_signal_reference s st" "Some s" t] U none uses_same [OF din]
    by (auto simp: st'_def din)
  have "refcnt st' t = int (uses U st' t) \<or> (uses U st' t = 0 \<and> refcnt st' t = SIGNAL_PENDING \<and> t \<in> P)"
    if "0 < t" "t < n_signals st" for t
    using ok(4) [OF that] by (auto simp: st'_def [symmetric] uses) (auto simp: st'_def ref(1) SIGNAL_PENDING_def)
  moreover have "0 < t \<and> t < n_signals st" if "y' \<in> U" "Some t \<in> set (d_in st' y')" for y' t
  proof -
    have "Some t \<in> set (d_in st y') \<or> t = s"
      using that(2) set_update_subset_insert [of "d_in st y" j "Some s"] by (auto simp: st'_def din split: if_splits)
    with ok(5) [OF that(1)] s show ?thesis by blast
  qed
  ultimately show "signals_ok tick U P st'"
    using ok(1-3) s(1) by (auto simp: signals_ok_def n) (simp_all add: st'_def ref sig_zero_def)
  have "slot_ok X mem (d_in st y ! j) (cv y j)" using hold U by (simp add: inputs_hold_def)
  with none have "cv y j = []" by simp
  then show "inputs_hold D X U st' mem (carry y j v cv)"
    using none U s(3) hold by (intro inputs_hold_set [OF hold U(2,3)]) (auto simp: st'_def din inputs_hold_def)
  show "edge_frame s st mem st' mem" "d_chain st' = d_chain st"
    using nodes by (simp_all add: edge_frame_def st'_def ref)
qed

lemma run_chain_add:
  "run_chain X (d_chain st) = (mem, tr) \<Longrightarrow> d_chain st' = d_chain st @ [BuiltinAdd a b c n] \<Longrightarrow>
   run_chain X (d_chain st') = (mem(c := ds_add X (mem a) (mem b)), tr)"
  by (simp add: run_chain_snoc)

text \<open>The state that \<open>builtin_add\<close> leaves.\<close>

lemma builtin_add_state:
  assumes s: "0 < s" "s < n_signals st" and p: "0 < p" "p < n_signals st" "refcnt st p > 0" and len: "lengths_are tick st"
    and ge: "refcnt st s \<ge> SIGNAL_PENDING" and zero: "0 < n_signals st" "0 < refcnt st sig_zero"
  obtains n k where "d_in (builtin_add y j p s st) = (d_in st)(y := (d_in st y)[j := Some n])"
    "d_chain (builtin_add y j p s st) = d_chain st @ [BuiltinAdd p s n k]"
    "d_pred (builtin_add y j p s st) = d_pred st" "d_out (builtin_add y j p s st) = d_out st"
    "d_errs (builtin_add y j p s st) = d_errs st"
    "lengths_are tick (builtin_add y j p s st)" "n_signals st \<le> n_signals (builtin_add y j p s st)"
    "0 < n" "n \<noteq> s" "n < n_signals (builtin_add y j p s st)"
    "n < n_signals st \<Longrightarrow> refcnt st n = (if n = p then 1 else 0)"
    "refcnt (builtin_add y j p s st) n = 1"
    "\<And>t. t < n_signals (builtin_add y j p s st) \<Longrightarrow> t \<noteq> n \<Longrightarrow> t < n_signals st \<and>
       refcnt (builtin_add y j p s st) t =
         (if t = p then refcnt st p - 1 else if t = s \<and> refcnt st s = SIGNAL_PENDING then 0 else refcnt st t)"
proof -
  let ?a = "fts_dsp_signal_unreference p st"
  let ?st1 = "fts_dsp_signal_reference s ?a"
  let ?len = "sig_length (d_signals ?st1 ! s)"
  obtain n st2 where new: "fts_dsp_signal_new ?len ?st1 = (n, st2)" by (cases "fts_dsp_signal_new ?len ?st1")
  let ?st3 = "emit (BuiltinAdd p s n ?len) st2"
  let ?b = "fts_dsp_signal_unreference s ?st3"
  let ?st4 = "fts_dsp_signal_reference n ?b"
  have st': "builtin_add y j p s st = set_in y j (Some n) ?st4"
    using new by (simp add: builtin_add_def Let_def)
  note una = unreference [OF p(2)]
  have sa: "s < n_signals ?a" using s by (simp add: una(2))
  note ref1 = reference [OF sa]
  have len1: "lengths_are tick ?st1" using len by (simp add: ref1(4) una(4))
  have n1: "n_signals ?st1 = n_signals st" by (simp add: ref1(2) una(2))
  have "?len = tick" using len1 s by (simp add: lengths_are_def n1)
  note new' = signal_new [OF new [unfolded this] len1]
  have r1: "refcnt ?st1 t = (if t = s then if refcnt ?a s = SIGNAL_PENDING then 1 else refcnt ?a s + 1 else refcnt ?a t)" for t
    by (rule ref1(1))
  have ra: "refcnt ?a t = (if t = p then refcnt st p - 1 else refcnt st t)" for t
    using p(3) by (simp add: una(1) SIGNAL_PENDING_def)
  have pos: "refcnt ?st1 s > 0" using ge p(3) by (auto simp: r1 ra SIGNAL_PENDING_def)
  have ns: "n \<noteq> s" using new'(4,5) pos s by (auto simp: n1)
  have n0: "n \<noteq> 0"
  proof
    assume "n = 0"
    then have "refcnt ?st1 0 = 0" using new'(4) zero(1) by (simp add: n1)
    moreover have "refcnt ?st1 0 = refcnt st 0" using s p by (simp add: r1 ra)
    ultimately show False using zero(2) by (simp add: sig_zero_def)
  qed
  have r3: "refcnt ?st3 t = refcnt st2 t" "n_signals ?st3 = n_signals st2" for t by (simp_all add: emit_def refcnt_def)
  have s3: "s < n_signals ?st3" using s new'(2) by (simp add: r3 n1)
  note unb = unreference [OF s3]
  have nb: "n < n_signals ?b" using new'(1) by (simp add: unb(2) r3)
  note ref4 = reference [OF nb]
  have len4: "lengths_are tick ?st4"
    using new'(9) by (simp add: ref4(4) unb(4)) (simp add: lengths_are_def emit_def)
  have nodes: "d_pred ?st4 = d_pred st" "d_out ?st4 = d_out st" "d_errs ?st4 = d_errs st" "d_in ?st4 = d_in st"
    "d_chain ?st4 = d_chain st @ [BuiltinAdd p s n ?len]"
    using ref4(3) unb(3) new'(8) ref1(3) una(3) by (simp_all add: same_nodes_def emit_def)
  have n4: "n_signals ?st4 = n_signals st2" by (simp add: ref4(2) unb(2) r3)
  have s2: "refcnt st2 s = refcnt ?st1 s" using new'(6) [of s] s new'(2) ns by (simp add: n1)
  have rn: "refcnt ?st4 n = 1"
    using new'(7) ns by (simp add: ref4(1) unb(1) r3)
  have rt: "t < n_signals st \<and> refcnt ?st4 t =
       (if t = p then refcnt st p - 1 else if t = s \<and> refcnt st s = SIGNAL_PENDING then 0 else refcnt st t)"
    if "t < n_signals st2" "t \<noteq> n" for t
  proof -
    have t: "t < n_signals st" "refcnt st2 t = refcnt ?st1 t" using new'(6) [OF that] by (simp_all add: n1)
    have "refcnt ?st4 t = (if t = s then refcnt ?st1 s - 1 else refcnt ?st1 t)"
      using that(2) t(2) s2 pos by (simp add: ref4(1) unb(1) r3 SIGNAL_PENDING_def)
    moreover have "refcnt ?st1 t = (if t = s then if s = p then refcnt st p else if refcnt st s = SIGNAL_PENDING then 1
        else refcnt st s + 1 else if t = p then refcnt st p - 1 else refcnt st t)"
      using p(3) unfolding r1 ra by (simp add: SIGNAL_PENDING_def)
    moreover have "refcnt ?st1 s = (if s = p then refcnt st p else if refcnt st s = SIGNAL_PENDING then 1 else refcnt st s + 1)"
      using p(3) unfolding r1 ra by (simp add: SIGNAL_PENDING_def)
    moreover have "a4 = (if t = p then rp - 1 else if t = s \<and> rs = SIGNAL_PENDING then 0 else rt)"
      if "a4 = (if t = s then as1 - 1 else at1)" "as1 = (if s = p then rp else if rs = SIGNAL_PENDING then 1 else rs + 1)"
        "at1 = (if t = s then if s = p then rp else if rs = SIGNAL_PENDING then 1 else rs + 1 else if t = p then rp - 1 else rt)"
        "t = s \<longrightarrow> rt = rs"
      for a4 as1 at1 rp rs rt :: int
      using that by auto
    ultimately show ?thesis using t(1) by blast
  qed
  have "n < n_signals st \<Longrightarrow> refcnt st n = (if n = p then 1 else 0)"
    using new'(4) ns by (auto simp: n1 r1 ra)
  then show thesis
    using that [of n ?len] nodes len4 new'(1,2) n0 ns rn rt by (simp add: st' n4 n1 r3 refcnt_def)
qed

lemma second_input:
  assumes U: "finite U" "y \<in> U" "j < length (d_in st y)" and p: "d_in st y ! j = Some p"
    and sigs: "signals_ok tick U P st" and hold: "inputs_hold D X U st mem cv"
    and s: "0 < s" "s < n_signals st" "mem s = v" and run: "run_chain X (d_chain st) = (mem, tr)"
  defines "st' \<equiv> builtin_add y j p s st"
  shows "\<exists>mem'. signals_ok tick U P st' \<and> inputs_hold D X U st' mem' (carry y j v cv) \<and> edge_frame s st mem st' mem'
           \<and> run_chain X (d_chain st') = (mem', tr) \<and> d_in st' = (d_in st)(y := d_in st' y) \<and> length (d_in st' y) = length (d_in st y)"
proof -
  note ok = signals_okD [OF sigs]
  have pU: "Some p \<in> set (d_in st y)" using p U(3) nth_mem by metis
  note p0 = ok(5) [OF U(2) pU]
  have up: "uses U st p > 0" using uses_gt [OF U p] .
  then have rp: "refcnt st p = int (uses U st p)" using ok(4) [of p] p0 by auto
  have ge: "refcnt st s \<ge> SIGNAL_PENDING" using ok(4) [OF s(1,2)] by (auto simp: SIGNAL_PENDING_def)
  obtain n k where add: "d_in st' = (d_in st)(y := (d_in st y)[j := Some n])"
      "d_chain st' = d_chain st @ [BuiltinAdd p s n k]"
      "d_pred st' = d_pred st" "d_out st' = d_out st" "d_errs st' = d_errs st"
      "lengths_are tick st'" "n_signals st \<le> n_signals st'" "0 < n" "n \<noteq> s" "n < n_signals st'"
      and rn: "n < n_signals st \<Longrightarrow> refcnt st n = (if n = p then 1 else 0)" "refcnt st' n = 1"
      and rt: "\<And>t. t < n_signals st' \<Longrightarrow> t \<noteq> n \<Longrightarrow> t < n_signals st \<and>
       refcnt st' t = (if t = p then refcnt st p - 1 else if t = s \<and> refcnt st s = SIGNAL_PENDING then 0 else refcnt st t)"
    using builtin_add_state [OF s(1,2) _ _ _ ok(1) ge ok(2,3), of p y j] p0 up rp unfolding st'_def by auto
  have din: "d_in st' = d_in (set_in y j (Some n) st)" by (simp add: add(1))
  have uses: "uses U st' t + (if t = p then 1 else 0) = uses U st t + (if t = n then 1 else 0)" for t
    using uses_set_in [OF U, of "Some n" t] p uses_same [OF din, of U t] by (auto split: if_splits)
  have un: "uses U st n = (if n = p then 1 else 0)"
  proof (cases "n < n_signals st")
    case True
    then show ?thesis using rn(1) [OF True] ok(4) [OF add(8) True] by (auto simp: SIGNAL_PENDING_def split: if_splits)
  next
    case False
    then have "\<forall>y \<in> U. Some n \<notin> set (d_in st y)" using ok(5) by blast
    then show ?thesis using uses_0 [OF U(1), of st n] False p0 by auto
  qed
  \<comment> \<open>no other input refers to the new signal\<close>
  have none: "uses U (set_in y j None st) n = 0"
    using uses_set_in [OF U, of None n] p un by (auto split: if_splits)
  have other: "t \<noteq> n" if "y' \<in> U" "j' < length (d_in st y')" "(y', j') \<noteq> (y, j)" "d_in st y' ! j' = Some t" for y' j' t
  proof
    assume "t = n"
    have "d_in (set_in y j None st) y' ! j' = Some t" "j' < length (d_in (set_in y j None st) y')"
      using that by (auto simp: nth_list_update)
    from uses_gt [OF U(1) that(1) this(2,1)] none \<open>t = n\<close> show False by simp
  qed
  let ?mem = "mem(n := ds_add X (mem p) (mem s))"
  have run': "run_chain X (d_chain st') = (?mem, tr)" using run_chain_add [OF run add(2)] .
  have "refcnt st' t = int (uses U st' t) \<or> (uses U st' t = 0 \<and> refcnt st' t = SIGNAL_PENDING \<and> t \<in> P)"
    if t: "0 < t" "t < n_signals st'" for t
  proof (cases "t = n")
    case True
    then show ?thesis using rn(2) uses [of n] un by (auto split: if_splits)
  next
    case False
    note r = rt [OF t(2) False]
    then have "refcnt st t = int (uses U st t) \<or> (uses U st t = 0 \<and> refcnt st t = SIGNAL_PENDING \<and> t \<in> P)"
      using ok(4) [OF t(1)] by blast
    with r uses [of t] False rp show ?thesis by (auto simp: SIGNAL_PENDING_def split: if_splits)
  qed
  moreover have "0 < t \<and> t < n_signals st'" if "y' \<in> U" "Some t \<in> set (d_in st' y')" for y' t
  proof -
    have "Some t \<in> set (d_in st y') \<or> t = n"
      using that(2) set_update_subset_insert [of "d_in st y" j "Some n"] by (auto simp: add(1) split: if_splits)
    with ok(5) [OF that(1), of t] add(7,8,10) show ?thesis by auto
  qed
  moreover have n': "0 < n_signals st'" using ok(2) add(7) by linarith
  moreover have "0 < refcnt st' sig_zero"
    using ok(3) add(8) rt [OF n'] p0 s(1) by (simp add: sig_zero_def)
  ultimately have "signals_ok tick U P st'" using add(6) by (simp add: signals_ok_def)
  moreover have "inputs_hold D X U st' ?mem (carry y j v cv)"
  proof (rule inputs_hold_set [OF hold U(2,3) add(1)])
    have "slot_ok X mem (Some p) (cv y j)" using hold U p unfolding inputs_hold_def by metis
    then show "slot_ok X ?mem (Some n) (cv y j @ [v])" by (simp add: in_value_snoc s(3))
    show "?mem sig_zero = mem sig_zero" using add(8) by (simp add: sig_zero_def)
    show "?mem t = mem t" if "y' \<in> U" "j' < length (d_in st y')" "(y', j') \<noteq> (y, j)" "d_in st y' ! j' = Some t" for y' j' t
      using other [OF that] by simp
  qed
  moreover have "edge_frame s st mem st' ?mem"
  proof -
    have "t \<noteq> n" if "t < n_signals st" "refcnt st t = SIGNAL_PENDING \<or> t = s" for t
      using rn(1) that add(9) by (auto simp: SIGNAL_PENDING_def split: if_splits)
    moreover have "refcnt st' t = SIGNAL_PENDING" if "t < n_signals st" "refcnt st t = SIGNAL_PENDING" "t \<noteq> s" for t
    proof -
      have "t \<noteq> n" using rn(1) that by (auto simp: SIGNAL_PENDING_def split: if_splits)
      moreover have "t \<noteq> p" using that(2) rp up by (auto simp: SIGNAL_PENDING_def)
      ultimately show ?thesis using rt [of t] that add(7) by simp
    qed
    ultimately show ?thesis using add by (auto simp: edge_frame_def)
  qed
  ultimately show ?thesis using run' add(1) by (auto intro!: exI [of _ ?mem])
qed

text \<open>One edge of the object that is being scheduled.\<close>

lemma connect_input_spec:
  assumes "finite U" "y \<in> U" "j < length (d_in st y)" "signals_ok tick U P st" "inputs_hold D X U st mem cv"
    and s: "0 < s" "s < n_signals st" "mem s = v" and run: "run_chain X (d_chain st) = (mem, tr)"
  shows "\<exists>st' mem'. connect_input y j (Some s) st = Some st' \<and> signals_ok tick U P st'
           \<and> inputs_hold D X U st' mem' (carry y j v cv) \<and> edge_frame s st mem st' mem' \<and> run_chain X (d_chain st') = (mem', tr)"
proof (cases "d_in st y ! j")
  case None
  then have "connect_input y j (Some s) st = Some (set_in y j (Some s) (fts_dsp_signal_reference s st))"
    by (simp add: connect_input_def)
  with first_input [OF assms(1-3) None assms(4,5) s] run show ?thesis by metis
next
  case (Some p)
  have "p \<noteq> sig_zero"
    using signals_okD(5) [OF assms(4,2), of p] Some assms(3) nth_mem [of j "d_in st y"] by (auto simp: sig_zero_def)
  with Some have "connect_input y j (Some s) st = Some (builtin_add y j p s st)" by (simp add: connect_input_def)
  with second_input [OF assms(1-3) Some assms(4,5) s run] show ?thesis by blast
qed

subsection \<open>The edges of an object\<close>

lemma pred_update [simp]:
  "refcnt (st\<lparr>d_pred := f\<rparr>) s = refcnt st s" "uses U (st\<lparr>d_pred := f\<rparr>) s = uses U st s"
  "lengths_are n (st\<lparr>d_pred := f\<rparr>) = lengths_are n st" "signals_ok tick U P (st\<lparr>d_pred := f\<rparr>) = signals_ok tick U P st"
  "inputs_hold D X U (st\<lparr>d_pred := f\<rparr>) mem cv = inputs_hold D X U st mem cv"
  by (simp_all add: refcnt_def uses_def lengths_are_def signals_ok_def inputs_hold_def)

definition carry_all :: "dsp_world \<Rightarrow> obj \<Rightarrow> 'v list \<Rightarrow> (nat \<times> obj \<times> int) list \<Rightarrow> (obj \<Rightarrow> nat \<Rightarrow> 'v list) \<Rightarrow> (obj \<Rightarrow> nat \<Rightarrow> 'v list)" where
  "carry_all D x os es cv = (\<lambda>y j. cv y j @ carries D x os es y j)"

lemma carry_all_simps:
  "carry_all D x os [] cv = cv"
  "dw_forcing D x i y j \<Longrightarrow> carry_all D x os ((i, y, j) # es) cv = carry_all D x os es cv"
  "\<not> dw_forcing D x i y j \<Longrightarrow> carry_all D x os ((i, y, j) # es) cv = carry_all D x os es (carry y (nat j) (os ! i) cv)"
  by (auto simp: carry_all_def carries_def carry_def fun_eq_iff)

text \<open>The outputs that still have edges to go: their values are in their buffers, and all but the current one are pending.\<close>

definition outputs_ok :: "sid list \<Rightarrow> 'v list \<Rightarrow> nat \<Rightarrow> (nat \<times> obj \<times> int) list \<Rightarrow> dsp_state \<Rightarrow> (sid \<Rightarrow> 'v) \<Rightarrow> bool" where
  "outputs_ok outs os c rs st mem \<longleftrightarrow>
     distinct outs \<and> (\<forall>s \<in> set outs. 0 < s \<and> s < n_signals st)
     \<and> (\<forall>(i, y, j) \<in> set rs. c \<le> i \<and> i < length outs \<and> mem (outs ! i) = os ! i
          \<and> (i \<noteq> c \<longrightarrow> refcnt st (outs ! i) = SIGNAL_PENDING))"

lemma outputs_ok_next:
  assumes "outputs_ok outs os c ((i, y, j) # rs) st mem" "sorted (map fst ((i, y, j) # rs))"
    and frame: "edge_frame (outs ! i) st mem st' mem'"
  shows "outputs_ok outs os i rs st' mem'"
  unfolding outputs_ok_def
proof (intro conjI ballI)
  show "distinct outs" using assms(1) by (simp add: outputs_ok_def)
  show "0 < s" "s < n_signals st'" if "s \<in> set outs" for s
    using assms(1) frame that by (fastforce simp: outputs_ok_def edge_frame_def)+
  fix e
  assume "e \<in> set rs"
  then obtain i' y' j' where e: "e = (i', y', j')" "(i', y', j') \<in> set rs" by (metis prod_cases3)
  have i': "i \<le> i'" "c \<le> i" "i' < length outs" "i < length outs" "mem (outs ! i') = os ! i'"
      "i' \<noteq> c \<longrightarrow> refcnt st (outs ! i') = SIGNAL_PENDING"
    using assms(1,2) e(2) by (fastforce simp: outputs_ok_def)+
  have lt: "outs ! i' < n_signals st" using assms(1) i'(3) by (simp add: outputs_ok_def)
  have ne: "outs ! i' \<noteq> outs ! i" if "i' \<noteq> i"
    using that i'(3,4) assms(1) by (simp add: outputs_ok_def nth_eq_iff_index_eq)
  have "mem' (outs ! i') = mem (outs ! i')" "i' \<noteq> i \<longrightarrow> refcnt st' (outs ! i') = SIGNAL_PENDING"
    using frame lt ne i'(1,2,6) unfolding edge_frame_def by (metis le_antisym)+
  with i' e(1) show "case e of (i', y, j) \<Rightarrow> i \<le> i' \<and> i' < length outs \<and> mem' (outs ! i') = os ! i'
      \<and> (i' \<noteq> i \<longrightarrow> refcnt st' (outs ! i') = SIGNAL_PENDING)" by simp
qed

lemma outputs_ok_skip:
  assumes "outputs_ok outs os c (e # rs) st mem" "n_signals st' = n_signals st" "\<And>s. refcnt st' s = refcnt st s"
  shows "outputs_ok outs os c rs st' mem"
  using assms by (auto simp: outputs_ok_def)

definition edge_into :: "dsp_world \<Rightarrow> obj set \<Rightarrow> nat \<times> obj \<times> int \<Rightarrow> bool" where
  "edge_into D U e \<longleftrightarrow> (case e of (i, y, j) \<Rightarrow> y \<in> U \<and> 0 \<le> j \<and> nat j < dw_ninputs D y)"

lemma realize_edges:
  assumes "finite U" "x \<notin> U" and rs: "\<forall>e \<in> set rs. edge_into D U e" "sorted (map fst rs)"
    and "d_out st x = map Some outs" "signals_ok tick U P st" "inputs_hold D X U st mem cv"
    and "run_chain X (d_chain st) = (mem, tr)" "outputs_ok outs os c rs st mem"
  shows "\<exists>st' mem'. each (dsp_graph_dec_pred_inc_refcnt D x) rs st = Some st' \<and> signals_ok tick U P st'
    \<and> inputs_hold D X U st' mem' (carry_all D x os rs cv) \<and> run_chain X (d_chain st') = (mem', tr)
    \<and> d_out st' = d_out st \<and> d_errs st' = d_errs st \<and> (\<forall>y. d_pred st' y = d_pred st y - int (edges_to rs y))
    \<and> n_signals st \<le> n_signals st'"
  using rs assms(5-)
proof (induction rs arbitrary: st mem cv c)
  case Nil
  then show ?case by (auto simp: carry_all_simps)
next
  case (Cons e rs)
  obtain i y j where e: "e = (i, y, j)" by (cases e)
  have y: "y \<in> U" "0 \<le> j" "nat j < dw_ninputs D y" using Cons.prems(1) e by (auto simp: edge_into_def)
  let ?st = "st\<lparr>d_pred := (d_pred st)(y := d_pred st y - 1)\<rparr>"
  have len: "length (d_in st y) = dw_ninputs D y" using Cons.prems(5) y(1) by (simp add: inputs_hold_def)
  have out: "i < length outs" "0 < outs ! i" "outs ! i < n_signals st" "mem (outs ! i) = os ! i"
    using Cons.prems(7) e by (auto simp: outputs_ok_def)
  have rs': "\<forall>e \<in> set rs. edge_into D U e" "sorted (map fst rs)" using Cons.prems(1,2) by auto
  show ?case
  proof (cases "dw_forcing D x i y j")
    case True
    then have step: "dsp_graph_dec_pred_inc_refcnt D x e st = Some ?st"
      using y len out(1) Cons.prems(3) by (simp add: dsp_graph_dec_pred_inc_refcnt_def e)
    have "outputs_ok outs os c rs ?st mem" using Cons.prems(7) by (rule outputs_ok_skip) simp_all
    then obtain st' mem' where "each (dsp_graph_dec_pred_inc_refcnt D x) rs ?st = Some st'" "signals_ok tick U P st'"
        "inputs_hold D X U st' mem' (carry_all D x os rs cv)" "run_chain X (d_chain st') = (mem', tr)"
        "d_out st' = d_out ?st" "d_errs st' = d_errs ?st" "\<forall>y. d_pred st' y = d_pred ?st y - int (edges_to rs y)"
        "n_signals ?st \<le> n_signals st'"
      using Cons.IH [of ?st mem cv c, OF rs'] Cons.prems(3-6) by auto
    then show ?thesis using step True by (intro exI [of _ st'] exI [of _ mem']) (auto simp: e carry_all_simps)
  next
    case False
    obtain st1 mem1 where st1: "connect_input y (nat j) (Some (outs ! i)) ?st = Some st1" "signals_ok tick U P st1"
        "inputs_hold D X U st1 mem1 (carry y (nat j) (os ! i) cv)" "edge_frame (outs ! i) ?st mem st1 mem1"
        "run_chain X (d_chain st1) = (mem1, tr)"
      using connect_input_spec [OF assms(1) y(1), of "nat j" ?st tick P D X mem cv "outs ! i" "os ! i" tr]
        Cons.prems(4-6) y(3) len out by auto
    then have step: "dsp_graph_dec_pred_inc_refcnt D x e st = Some st1"
      using y len out(1) Cons.prems(3) False by (simp add: dsp_graph_dec_pred_inc_refcnt_def e)
    have "edge_frame (outs ! i) st mem st1' mem1"
      if "st1' = st1\<lparr>d_pred := d_pred st\<rparr>" for st1' using st1(4) that by (simp add: edge_frame_def)
    from outputs_ok_next [OF Cons.prems(7) [unfolded e] Cons.prems(2) [unfolded e] this [OF refl]]
    have "outputs_ok outs os i rs st1 mem1" by (simp add: outputs_ok_def)
    then obtain st' mem' where "each (dsp_graph_dec_pred_inc_refcnt D x) rs st1 = Some st'" "signals_ok tick U P st'"
        "inputs_hold D X U st' mem' (carry_all D x os rs (carry y (nat j) (os ! i) cv))" "run_chain X (d_chain st') = (mem', tr)"
        "d_out st' = d_out st1" "d_errs st' = d_errs st1" "\<forall>y. d_pred st' y = d_pred st1 y - int (edges_to rs y)"
        "n_signals st1 \<le> n_signals st'"
      using Cons.IH [of st1 mem1 "carry y (nat j) (os ! i) cv" i, OF rs'] st1 Cons.prems(3) by (auto simp: edge_frame_def)
    then show ?thesis
      using step False st1(4) by (intro exI [of _ st'] exI [of _ mem']) (auto simp: e carry_all_simps edge_frame_def)
  qed
qed

subsection \<open>Scheduling an object\<close>

lemma release_inputs_spec:
  assumes "\<And>s. Some s \<in> set ins \<Longrightarrow> 0 < s \<and> s < n_signals st" "\<And>s. 0 < s \<Longrightarrow> int (count_list ins (Some s)) \<le> refcnt st s \<or> count_list ins (Some s) = 0"
  shows "same_nodes st (release_inputs ins st) \<and> n_signals (release_inputs ins st) = n_signals st
    \<and> (lengths_are n (release_inputs ins st) \<longleftrightarrow> lengths_are n st)
    \<and> (\<forall>s. refcnt (release_inputs ins st) s = refcnt st s - (if 0 < s then int (count_list ins (Some s)) else 0))"
  using assms
proof (induction ins st rule: release_inputs.induct)
  case (2 ins st)
  then show ?case by simp
next
  case (3 s ins st)
  have s: "0 < s" "s < n_signals st" using "3.prems"(1) by auto
  then have r: "refcnt st s \<noteq> SIGNAL_PENDING" using "3.prems"(2) [of s] by (auto simp: SIGNAL_PENDING_def)
  note un = unreference [OF s(2)]
  let ?st = "fts_dsp_signal_unreference s st"
  have "same_nodes ?st (release_inputs ins ?st) \<and> n_signals (release_inputs ins ?st) = n_signals ?st
    \<and> (lengths_are n (release_inputs ins ?st) \<longleftrightarrow> lengths_are n ?st)
    \<and> (\<forall>t. refcnt (release_inputs ins ?st) t = refcnt ?st t - (if 0 < t then int (count_list ins (Some t)) else 0))"
  proof -
    have "int (count_list ins (Some t)) \<le> refcnt ?st t \<or> count_list ins (Some t) = 0" if "0 < t" for t
      using "3.prems"(2) [OF that] r by (auto simp: un(1))
    moreover have "0 < t \<and> t < n_signals ?st" if "Some t \<in> set ins" for t using "3.prems"(1) that by (simp add: un(2))
    ultimately show ?thesis using "3.IH" s(1) by (simp add: sig_zero_def)
  qed
  then show ?case using s r un same_nodes_trans [OF un(3)] by (auto simp: sig_zero_def)
qed simp

lemma match_inputs_equal:
  assumes "\<forall>s. Some s \<in> set ins \<longrightarrow> s = sig_zero \<or> sig_length (d_signals st ! s) = tick" "0 \<le> tick" "n = - 1 \<or> n = tick"
  shows "match_inputs st ins n = Some (- 1) \<or> match_inputs st ins n = Some tick"
  using assms
proof (induction ins arbitrary: n)
  case (Cons i ins)
  show ?case
  proof (cases i)
    case None
    with Cons show ?thesis by simp
  next
    case (Some s)
    then have "s = sig_zero \<or> sig_length (d_signals st ! s) = tick" using Cons.prems(1) by simp
    moreover have "match_inputs st ins m = Some (- 1) \<or> match_inputs st ins m = Some tick" if "m = - 1 \<or> m = tick" for m
      using Cons.IH [OF _ Cons.prems(2) that] Cons.prems(1) by simp
    ultimately show ?thesis using Some Cons.prems(2,3) by (cases "s = sig_zero") (auto simp del: not_Some_eq)
  qed
qed auto

definition graph_ok :: "dsp_world \<Rightarrow> obj list \<Rightarrow> bool" where
  "graph_ok D objects \<longleftrightarrow>
     distinct objects
     \<and> (\<forall>x \<in> set objects. dw_resamp D x = 0 \<and> (\<forall>e \<in> set (out_edges D x). edge_into D (set objects) e))"

definition sem_ok :: "dsp_world \<Rightarrow> 'v dsp_sem \<Rightarrow> bool" where
  "sem_ok D X \<longleftrightarrow> (\<forall>x vs. length (ds_fun X x vs) = dw_noutputs D x)"

text \<open>Between two objects: \<open>U\<close> are the objects that are not scheduled, \<open>tr\<close> the calls so far.\<close>

definition node_ok :: "dsp_world \<Rightarrow> 'v dsp_sem \<Rightarrow> int \<Rightarrow> obj list \<Rightarrow> obj set \<Rightarrow> dsp_state \<Rightarrow> 'v call_trace \<Rightarrow> bool" where
  "node_ok D X tick objects U st tr \<longleftrightarrow>
     U \<subseteq> set objects \<and> signals_ok tick U {} st
     \<and> (\<exists>mem. run_chain X (d_chain st) = (mem, tr) \<and> inputs_hold D X U st mem (arrives D tr))
     \<and> trace_ok D X objects tr \<and> fst ` set tr = set objects - U \<and> d_errs st = []
     \<and> (\<forall>y \<in> U. d_pred st y = int (in_degree D U y)) \<and> (\<forall>y \<in> set objects - U. d_pred st y = SCHEDULED)
     \<and> (\<forall>y \<in> set objects - U. in_degree D U y = 0)"

lemma lengths_are_zero:
  "lengths_are n st \<Longrightarrow> lengths_are n (st\<lparr>d_signals := (d_signals st)[z := (d_signals st ! z)\<lparr>sig_length := n\<rparr>]\<rparr>)"
  by (cases "z < n_signals st") (auto simp: lengths_are_def nth_list_update list_update_beyond)

lemma refcnt_zero: "refcnt (st\<lparr>d_signals := (d_signals st)[z := (d_signals st ! z)\<lparr>sig_length := n\<rparr>]\<rparr>) s = refcnt st s"
  by (cases "z < n_signals st"; cases "s = z") (simp_all add: refcnt_def list_update_beyond)

lemma put_object_spec:
  assumes G: "graph_ok D objects" and X: "sem_ok D X" and tick: "0 \<le> tick"
    and node: "node_ok D X tick objects U st tr" and x: "x \<in> U" "d_pred st x = 0"
  shows "\<exists>outs os mem' vs. let st' = put_object D tick x st in
     d_out st' x = map Some outs \<and> length outs = dw_noutputs D x
     \<and> signals_ok tick (U - {x}) (set outs) st' \<and> inputs_hold D X (U - {x}) st' mem' (arrives D tr)
     \<and> run_chain X (d_chain st') = (mem', tr @ [(x, vs, os)]) \<and> outputs_ok outs os 0 (out_edges D x) st' mem'
     \<and> call_ok D X objects tr (x, vs, os) \<and> d_errs st' = [] \<and> d_pred st' = (d_pred st)(x := SCHEDULED)"
proof -
  have fin: "finite U" using node finite_subset by (auto simp: node_ok_def)
  have sub: "U \<subseteq> set objects" using node by (simp add: node_ok_def)
  obtain mem where sigs: "signals_ok tick U {} st" and run: "run_chain X (d_chain st) = (mem, tr)"
      and hold: "inputs_hold D X U st mem (arrives D tr)" using node by (auto simp: node_ok_def)
  note ok = signals_okD [OF sigs]
  let ?ins = "d_in st x"
  let ?st1 = "release_inputs ?ins st"
  have ref: "refcnt st s = int (uses U st s)" if "0 < s" "s < n_signals st" for s using ok(4) [OF that] by auto
  have ge: "int (count_list ?ins (Some s)) \<le> refcnt st s \<or> count_list ?ins (Some s) = 0" if s: "0 < s" for s
  proof (cases "Some s \<in> set ?ins")
    case True
    with ok(5) [OF x(1)] have "s < n_signals st" by blast
    with ref [OF s] uses_remove [OF fin x(1), of st s] show ?thesis by simp
  next
    case False
    then show ?thesis by (simp add: count_list_0_iff)
  qed
  have rel: "same_nodes st ?st1" "n_signals ?st1 = n_signals st" "lengths_are tick ?st1"
      "\<And>s. refcnt ?st1 s = refcnt st s - (if 0 < s then int (count_list ?ins (Some s)) else 0)"
    using release_inputs_spec [of ?ins st tick] ok(1) ok(5) [OF x(1)] ge by simp_all
  let ?st2 = "?st1\<lparr>d_in := (d_in ?st1)(x := zero_inputs (d_in ?st1 x))\<rparr>"
  have n1: "d_in ?st1 = d_in st" "d_chain ?st1 = d_chain st" "d_errs ?st1 = d_errs st" "d_pred ?st1 = d_pred st"
    using rel(1) by (simp_all add: same_nodes_def)
  have st2: "d_in ?st2 = (d_in st)(x := zero_inputs ?ins)" "n_signals ?st2 = n_signals st" "lengths_are tick ?st2"
      "d_chain ?st2 = d_chain st" "d_errs ?st2 = d_errs st" "d_pred ?st2 = d_pred st"
    using rel n1 by (simp_all add: lengths_are_def)
  have uses2: "uses (U - {x}) st' s = uses (U - {x}) st s" if "d_in st' = (d_in st)(x := v)" for st' s v
    using that by (simp add: uses_def)
  have ref2: "refcnt ?st2 s = int (uses (U - {x}) st s)" if "0 < s" "s < n_signals st" for s
  proof -
    have "refcnt ?st2 s = refcnt ?st1 s" by (simp add: refcnt_def)
    with rel(4) [of s] ref [OF that] uses_remove [OF fin x(1), of st s] that(1) show ?thesis by simp
  qed
  have ref0: "refcnt ?st2 sig_zero = refcnt st sig_zero" using rel(4) [of 0] by (simp add: refcnt_def sig_zero_def)
  have "match_inputs ?st2 (d_in ?st2 x) (- 1) = Some (- 1) \<or> match_inputs ?st2 (d_in ?st2 x) (- 1) = Some tick"
  proof (rule match_inputs_equal [OF _ tick], intro allI impI)
    show "s = sig_zero \<or> sig_length (d_signals ?st2 ! s) = tick" if "Some s \<in> set (d_in ?st2 x)" for s
    proof -
      have "s = sig_zero \<or> Some s \<in> set ?ins" using that by (auto simp: n1(1) zero_inputs_def split: option.splits)
      with ok(5) [OF x(1)] st2(2,3) show ?thesis by (auto simp: lengths_are_def)
    qed
  qed simp
  moreover have "dw_resamp D x = 0" using G x(1) sub by (auto simp: graph_ok_def)
  moreover obtain outs st3 where new: "new_signals (dw_noutputs D x) tick ?st2 = (outs, st3)"
    by (cases "new_signals (dw_noutputs D x) tick ?st2")
  ultimately have gen: "gen_outputs D tick x ?st2 = (True, st3\<lparr>d_out := (d_out st3)(x := map Some outs),
      d_signals := (d_signals st3)[sig_zero := (d_signals st3 ! sig_zero)\<lparr>sig_length := tick\<rparr>]\<rparr>)" (is "_ = (True, ?st4)")
    using tick by (auto simp: gen_outputs_def resampled_def Let_def)
  note ns = new_signals_spec [OF new st2(3)]
  let ?vs = "map mem (map the (zero_inputs ?ins))"
  let ?os = "ds_fun X x ?vs"
  let ?put = "Put x (map the (zero_inputs ?ins)) outs"
  define st' where "st' = (emit ?put ?st4)\<lparr>d_pred := (d_pred st)(x := SCHEDULED)\<rparr>"
  have n3: "d_in st3 = (d_in st)(x := zero_inputs ?ins)" "d_chain st3 = d_chain st" "d_errs st3 = d_errs st" "d_pred st3 = d_pred st"
    using ns st2 by (simp_all add: same_nodes_def)
  have put: "put_object D tick x st = st'"
    using gen n3 by (simp add: st'_def put_object_def Let_def comp_def emit_def)
  have d': "d_in st' = (d_in st)(x := zero_inputs ?ins)" "n_signals st' = n_signals st3" "d_chain st' = d_chain st @ [?put]"
      "d_errs st' = d_errs st" "d_out st' x = map Some outs"
    using n3 by (simp_all add: st'_def emit_def)
  have p': "d_pred st' = (d_pred st)(x := SCHEDULED)" by (simp add: st'_def)
  have r': "refcnt st' s = refcnt st3 s" for s
    using refcnt_zero [of st3 sig_zero tick s] by (simp add: st'_def refcnt_def emit_def)
  have l': "lengths_are tick st'"
    using lengths_are_zero [of tick st3 sig_zero] ns by (simp add: st'_def lengths_are_def emit_def)
  have outs: "length outs = dw_noutputs D x" "distinct outs" "n_signals st \<le> n_signals st3"
      "\<And>s. s \<in> set outs \<Longrightarrow> s < n_signals st3 \<and> (s < n_signals st \<longrightarrow> refcnt ?st2 s = 0) \<and> refcnt st3 s = SIGNAL_PENDING"
      "\<And>t. t < n_signals st3 \<Longrightarrow> t \<notin> set outs \<Longrightarrow> t < n_signals st \<and> refcnt st3 t = refcnt ?st2 t"
    using ns st2(2) by auto
  have out0: "0 < s" if "s \<in> set outs" for s
  proof (rule ccontr)
    assume "\<not> 0 < s"
    then have "refcnt ?st2 sig_zero = 0" using outs(4) [OF that] ok(2) by (simp add: sig_zero_def)
    with ref0 ok(3) show False by simp
  qed
  have unused: "uses (U - {x}) st s = 0" if "s \<in> set outs" for s
  proof (cases "s < n_signals st")
    case True
    with ref2 [OF out0 [OF that] True] outs(4) [OF that] show ?thesis by simp
  next
    case False
    then have "\<forall>y \<in> U - {x}. Some s \<notin> set (d_in st y)" using ok(5) by blast
    then show ?thesis using uses_0 [of "U - {x}" st s] fin by simp
  qed
  have "signals_ok tick (U - {x}) (set outs) st'"
    unfolding signals_ok_def
  proof (intro conjI allI impI ballI l')
    show "0 < n_signals st'" using ok(2) outs(3) d'(2) by linarith
    have "sig_zero \<notin> set outs" using out0 by (auto simp: sig_zero_def)
    moreover have "0 < n_signals st3" using ok(2) outs(3) by linarith
    ultimately have "refcnt st3 sig_zero = refcnt ?st2 sig_zero" using outs(5) [of 0] by (simp add: sig_zero_def)
    then show "0 < refcnt st' sig_zero" unfolding r' using ok(3) ref0 by simp
    fix s
    assume s: "0 < s" "s < n_signals st'"
    show "refcnt st' s = int (uses (U - {x}) st' s) \<or> uses (U - {x}) st' s = 0 \<and> refcnt st' s = SIGNAL_PENDING \<and> s \<in> set outs"
      using s unused [of s] outs(4,5) [of s] ref2 [of s] by (cases "s \<in> set outs") (simp_all add: r' uses2 [OF d'(1)] d'(2))
  next
    fix y s
    assume "y \<in> U - {x}" "Some s \<in> set (d_in st' y)"
    then have "0 < s \<and> s < n_signals st" using ok(5) [of y s] by (simp add: d'(1))
    then show "0 < s" "s < n_signals st'" using outs(3) d'(2) by linarith+
  qed
  moreover have lo: "length ?os = length outs" using X outs(1) by (simp add: sem_ok_def)
  moreover have "inputs_hold D X (U - {x}) st' (write_all outs ?os mem) (arrives D tr)"
  proof -
    have "slot_ok X (write_all outs ?os mem) (d_in st y ! j) (arrives D tr y j)" if "y \<in> U - {x}" "j < dw_ninputs D y" for y j
    proof (cases "d_in st y ! j")
      case (Some s)
      have len: "j < length (d_in st y)" using hold that by (simp add: inputs_hold_def)
      have "uses (U - {x}) st s > 0" using uses_gt [OF _ that(1) len Some] fin by simp
      then have "s \<notin> set outs" using unused by fastforce
      moreover have "slot_ok X mem (d_in st y ! j) (arrives D tr y j)" using hold that by (simp add: inputs_hold_def)
      ultimately show ?thesis using Some by (simp add: write_all_other)
    next
      case None
      have "slot_ok X mem (d_in st y ! j) (arrives D tr y j)" using hold that by (simp add: inputs_hold_def)
      with None show ?thesis by simp
    qed
    moreover have "sig_zero \<notin> set outs" using out0 by (auto simp: sig_zero_def)
    ultimately show ?thesis using hold by (auto simp: inputs_hold_def d'(1) write_all_other)
  qed
  moreover have "run_chain X (d_chain st') = (write_all outs ?os mem, tr @ [(x, ?vs, ?os)])"
    unfolding d'(3) run_chain_snoc run by (simp add: Let_def)
  moreover have "outputs_ok outs ?os 0 (out_edges D x) st' (write_all outs ?os mem)"
    using outs out0 write_all_nth [OF outs(2) lo] by (auto simp: outputs_ok_def out_edges_def r' d'(2))
  moreover have "call_ok D X objects tr (x, ?vs, ?os)"
  proof -
    have "?vs ! j = in_value (ds_mem X sig_zero) (ds_add X) (arrives D tr x j)" if "j < dw_ninputs D x" for j
    proof -
      have "slot_ok X mem (d_in st x ! j) (arrives D tr x j)" "j < length (d_in st x)" "mem sig_zero = ds_mem X sig_zero"
        using hold x(1) that by (auto simp: inputs_hold_def)
      then show ?thesis by (cases "d_in st x ! j") (simp_all add: zero_inputs_def)
    qed
    moreover have "length ?vs = dw_ninputs D x" using hold x(1) by (simp add: inputs_hold_def zero_inputs_def)
    ultimately have "?vs = map (\<lambda>j. in_value (ds_mem X sig_zero) (ds_add X) (arrives D tr x j)) [0..<dw_ninputs D x]"
      by (intro nth_equalityI) simp_all
    moreover have "in_degree D U x = 0" using node x by (simp add: node_ok_def)
    then have "w \<in> fst ` set tr" if "w \<in> set objects" "(i, x, j) \<in> set (out_edges D w)" for w i j
      using node that in_degree_0 [OF fin, of D x] edges_to_0 [of "out_edges D w" x] by (auto simp: node_ok_def)
    ultimately show ?thesis by (auto simp: call_ok_def)
  qed
  moreover have "d_errs st' = []" using node d'(4) by (simp add: node_ok_def)
  ultimately show ?thesis
    unfolding put Let_def
    by (intro exI [of _ outs] exI [of _ ?os] exI [of _ "write_all outs ?os mem"] exI [of _ ?vs]) (simp add: d'(5) p' outs(1) del: map_map)
qed

lemma free_pending_spec:
  assumes "\<And>s. s \<in> set outs \<Longrightarrow> s < n_signals st"
  shows "same_nodes st (free_pending (map Some outs) st) \<and> n_signals (free_pending (map Some outs) st) = n_signals st
    \<and> (lengths_are n (free_pending (map Some outs) st) \<longleftrightarrow> lengths_are n st)
    \<and> (\<forall>s. refcnt (free_pending (map Some outs) st) s
           = (if s \<in> set outs \<and> refcnt st s = SIGNAL_PENDING then 0 else refcnt st s))"
  using assms
proof (induction outs arbitrary: st)
  case (Cons s outs)
  let ?st = "if fts_dsp_signal_is_pending st s then fts_dsp_signal_free s st else st"
  have st: "n_signals ?st = n_signals st" "same_nodes st ?st" "lengths_are n ?st = lengths_are n st"
      "\<And>t. refcnt ?st t = (if t = s \<and> refcnt st s = SIGNAL_PENDING then 0 else refcnt st t)"
    using Cons.prems [of s] by (auto simp: fts_dsp_signal_is_pending_def fts_dsp_signal_free_def)
  have "t \<in> set outs \<Longrightarrow> t < n_signals ?st" for t using Cons.prems [of t] unfolding st(1) by simp
  note IH = Cons.IH [of ?st, OF this]
  have "free_pending (map Some (s # outs)) st = free_pending (map Some outs) ?st" by simp
  then show ?case
    using IH st(1-3) same_nodes_trans [OF st(2)] unfolding st(4) by (auto simp: SIGNAL_PENDING_def)
qed simp

lemma out_edges_sorted: "sorted (map fst (out_edges D x))"
proof -
  have "sorted (map fst (concat (map (\<lambda>i. map (\<lambda>(y, j). (i, y, j)) (f i)) [0..<n])))" for f :: "nat \<Rightarrow> (obj \<times> int) list" and n
  proof (induction n)
    case (Suc n)
    have "\<forall>i \<in> set (map fst (concat (map (\<lambda>i. map (\<lambda>(y, j). (i, y, j)) (f i)) [0..<n]))). i \<le> n" by fastforce
    with Suc show ?case by (simp add: sorted_append comp_def case_prod_unfold map_replicate_const)
  qed simp
  then show ?thesis by (simp add: out_edges_def)
qed

lemma carry_all_arrives:
  "carry_all D x os (out_edges D x) (arrives D tr) = arrives D (tr @ [(x, vs, os)])"
  by (simp add: carry_all_def arrives_def fun_eq_iff)

lemma signals_ok_free:
  assumes "signals_ok tick U (set outs) st" "\<And>s. s \<in> set outs \<Longrightarrow> s < n_signals st"
  shows "signals_ok tick U {} (free_pending (map Some outs) st)"
proof -
  let ?st = "free_pending (map Some outs) st"
  note free = free_pending_spec [of outs st tick, OF assms(2)]
  then have din: "d_in ?st = d_in st" by (simp add: same_nodes_def)
  note ok = signals_okD [OF assms(1)]
  have "refcnt ?st s = int (uses U ?st s)" if "0 < s" "s < n_signals st" for s
  proof (cases "refcnt st s = SIGNAL_PENDING")
    case True
    then have "refcnt st s \<noteq> int (uses U st s)" by (simp add: SIGNAL_PENDING_def)
    with ok(4) [OF that] have "uses U st s = 0" "s \<in> set outs" by auto
    with True free show ?thesis by (simp add: uses_same [OF din])
  next
    case False
    with ok(4) [OF that] free show ?thesis by (simp add: uses_same [OF din])
  qed
  moreover have "refcnt ?st sig_zero > 0" using ok(3) free by (simp add: SIGNAL_PENDING_def)
  ultimately show ?thesis using ok free by (simp add: signals_ok_def din)
qed

lemma schedule_node:
  assumes G: "graph_ok D objects" and X: "sem_ok D X" and tick: "0 \<le> tick"
    and node: "node_ok D X tick objects U st tr" and x: "x \<in> U" "d_pred st x = 0"
  shows "\<exists>st' tr'. dsp_graph_schedule_node D tick x st = Some st' \<and> node_ok D X tick objects (U - {x}) st' tr'"
proof -
  have sub: "U \<subseteq> set objects" using node by (simp add: node_ok_def)
  then have fin: "finite U" using finite_subset by blast
  let ?st = "put_object D tick x st" and ?U = "U - {x}"
  obtain outs os mem vs where put: "d_out ?st x = map Some outs" "length outs = dw_noutputs D x"
      "signals_ok tick ?U (set outs) ?st" "inputs_hold D X ?U ?st mem (arrives D tr)"
      "run_chain X (d_chain ?st) = (mem, tr @ [(x, vs, os)])" "outputs_ok outs os 0 (out_edges D x) ?st mem"
      "call_ok D X objects tr (x, vs, os)" "d_errs ?st = []" "d_pred ?st = (d_pred st)(x := SCHEDULED)"
    using put_object_spec [OF G X tick node x] unfolding Let_def by blast
  have deg: "in_degree D U y = edges_to (out_edges D x) y + in_degree D ?U y" for y
    using in_degree_remove [OF fin x(1)] by simp
  have none: "edges_to (out_edges D x) y = 0 \<and> in_degree D ?U y = 0" if "y \<in> set objects - ?U" for y
  proof -
    have "in_degree D U y = 0" using that node x by (cases "y = x") (auto simp: node_ok_def)
    with deg [of y] show ?thesis by simp
  qed
  have edges: "\<forall>e \<in> set (out_edges D x). edge_into D ?U e"
  proof
    fix e
    assume e: "e \<in> set (out_edges D x)"
    obtain i y j where ij: "e = (i, y, j)" by (cases e)
    have "edge_into D (set objects) e" using G e x(1) sub unfolding graph_ok_def by blast
    moreover from this have "y \<in> ?U" using none [of y] e edges_to_0 [of "out_edges D x" y] ij by (auto simp: edge_into_def)
    ultimately show "edge_into D ?U e" by (simp add: edge_into_def ij)
  qed
  obtain st1 mem1 where st1: "each (dsp_graph_dec_pred_inc_refcnt D x) (out_edges D x) ?st = Some st1"
      "signals_ok tick ?U (set outs) st1" "inputs_hold D X ?U st1 mem1 (arrives D (tr @ [(x, vs, os)]))"
      "run_chain X (d_chain st1) = (mem1, tr @ [(x, vs, os)])" "d_out st1 = d_out ?st" "d_errs st1 = d_errs ?st"
      "\<forall>y. d_pred st1 y = d_pred ?st y - int (edges_to (out_edges D x) y)" "n_signals ?st \<le> n_signals st1"
    using realize_edges [OF _ _ edges out_edges_sorted put(1,3-6)] fin carry_all_arrives [of D x os tr vs] by auto
  let ?st' = "free_pending (map Some outs) st1"
  have lt: "s < n_signals st1" if "s \<in> set outs" for s
    using put(6) that st1(8) by (auto simp: outputs_ok_def intro: less_le_trans)
  have free: "same_nodes st1 ?st'" using free_pending_spec [of outs st1 tick, OF lt] by blast
  have pred: "d_pred ?st' y = (if y = x then SCHEDULED else d_pred st y) - int (edges_to (out_edges D x) y)" for y
    using free st1(7) by (simp add: same_nodes_def put(9))
  have "node_ok D X tick objects ?U ?st' (tr @ [(x, vs, os)])"
    unfolding node_ok_def
  proof (intro conjI ballI)
    show "?U \<subseteq> set objects" using sub by auto
    show "signals_ok tick ?U {} ?st'" using signals_ok_free [OF st1(2) lt] .
    show "\<exists>mem. run_chain X (d_chain ?st') = (mem, tr @ [(x, vs, os)]) \<and> inputs_hold D X ?U ?st' mem (arrives D (tr @ [(x, vs, os)]))"
      using st1(3,4) free by (auto simp: same_nodes_def inputs_hold_def)
    have tr: "trace_ok D X objects tr" "fst ` set tr = set objects - U" using node by (simp_all add: node_ok_def)
    then show "trace_ok D X objects (tr @ [(x, vs, os)])" using put(7) x(1) by (simp add: trace_ok_snoc)
    show "fst ` set (tr @ [(x, vs, os)]) = set objects - ?U" using tr(2) x(1) sub by auto
    show "d_errs ?st' = []" using free st1(6) put(8) by (simp add: same_nodes_def)
    show "d_pred ?st' y = int (in_degree D ?U y)" if "y \<in> ?U" for y
      using node that deg [of y] by (simp add: pred node_ok_def)
    show "d_pred ?st' y = SCHEDULED" if "y \<in> set objects - ?U" for y
      using node that none [OF that] by (auto simp: pred node_ok_def)
    show "in_degree D ?U y = 0" if "y \<in> set objects - ?U" for y using none [OF that] by simp
  qed
  then show ?thesis
    using st1(1,5) put(1) by (auto simp: dsp_graph_schedule_node_def dsp_graph_succ_realize_def)
qed

subsection \<open>The depth first search\<close>

definition ready :: "dsp_world \<Rightarrow> obj set \<Rightarrow> obj set" where
  "ready D U = {y \<in> U. in_degree D U y = 0}"

lemma ready_remove:
  assumes "finite U" "x \<in> U"
  shows "ready D (U - {x}) \<subseteq> (ready D U - {x}) \<union> {y. edges_to (out_edges D x) y \<noteq> 0}"
  using in_degree_remove [OF assms, of D] by (auto simp: ready_def)

text \<open>A step schedules objects; it leaves no object ready that was not, and not \<open>y\<close>.\<close>

definition call_step_ok :: "dsp_world \<Rightarrow> 'v dsp_sem \<Rightarrow> int \<Rightarrow> obj list \<Rightarrow> nat \<Rightarrow> (dsp_state \<Rightarrow> dsp_state option) \<Rightarrow> obj \<Rightarrow> bool" where
  "call_step_ok D X tick objects n f y \<longleftrightarrow>
     (\<forall>U st tr. node_ok D X tick objects U st tr \<longrightarrow> card U < n \<longrightarrow>
        (\<exists>st' U' tr'. f st = Some st' \<and> node_ok D X tick objects U' st' tr' \<and> U' \<subseteq> U \<and> ready D U' \<subseteq> ready D U - {y}))"

lemma each_step:
  assumes "\<And>a. a \<in> set as \<Longrightarrow> call_step_ok D X tick objects n (f a) (g a)"
    and "node_ok D X tick objects U st tr" "card U < n"
  shows "\<exists>st' U' tr'. each f as st = Some st' \<and> node_ok D X tick objects U' st' tr' \<and> U' \<subseteq> U \<and> ready D U' \<subseteq> ready D U - g ` set as"
  using assms
proof (induction as arbitrary: st U tr)
  case (Cons a as)
  have fin: "finite U" using Cons.prems(2) finite_subset by (auto simp: node_ok_def)
  obtain st1 U1 tr1 where st1: "f a st = Some st1" "node_ok D X tick objects U1 st1 tr1" "U1 \<subseteq> U" "ready D U1 \<subseteq> ready D U - {g a}"
    using Cons.prems unfolding call_step_ok_def by (meson list.set_intros(1))
  have "card U1 < n" using card_mono [OF fin st1(3)] Cons.prems(3) by simp
  then obtain st2 U2 tr2 where "each f as st1 = Some st2" "node_ok D X tick objects U2 st2 tr2" "U2 \<subseteq> U1" "ready D U2 \<subseteq> ready D U1 - g ` set as"
    using Cons.IH [OF Cons.prems(1) st1(2)] by auto
  with st1 show ?case by (intro exI [of _ st2] exI [of _ U2] exI [of _ tr2]) auto
qed auto

lemma node_ok_emit:
  assumes "node_ok D X tick objects U st tr" "\<And>r. run_instr X c r = r"
  shows "node_ok D X tick objects U (emit c st) tr"
  using assms
  by (auto simp: node_ok_def emit_def signals_ok_def lengths_are_def refcnt_def uses_def inputs_hold_def run_chain_snoc)

lemma depth_step:
  assumes "graph_ok D objects" "sem_ok D X" "0 \<le> tick"
  shows "y \<in> set objects \<Longrightarrow> call_step_ok D X tick objects n (dsp_graph_schedule_depth n D tick y) y"
proof (induction n arbitrary: y)
  case 0
  then show ?case by (simp add: call_step_ok_def)
next
  case (Suc n)
  show ?case
    unfolding call_step_ok_def
  proof (intro allI impI)
    fix U st and tr :: "'a call_trace"
    assume node: "node_ok D X tick objects U st tr" and card: "card U < Suc n"
    have fin: "finite U" using node finite_subset by (auto simp: node_ok_def)
    show "\<exists>st' U' tr'. dsp_graph_schedule_depth (Suc n) D tick y st = Some st' \<and> node_ok D X tick objects U' st' tr'
            \<and> U' \<subseteq> U \<and> ready D U' \<subseteq> ready D U - {y}"
    proof (cases "d_pred st y = 0")
      case False
      then have "y \<notin> ready D U" using node by (auto simp: ready_def node_ok_def)
      with False node show ?thesis by auto
    next
      case True
      then have "d_pred st y \<noteq> SCHEDULED" by (simp add: SCHEDULED_def)
      then have y: "y \<in> U" using node Suc.prems unfolding node_ok_def by blast
      obtain st1 tr1 where st1: "dsp_graph_schedule_node D tick y st = Some st1" "node_ok D X tick objects (U - {y}) st1 tr1"
        using schedule_node [OF assms node y True] by blast
      let ?f = "\<lambda>(i, z, j). dsp_graph_schedule_depth n D tick z" and ?g = "\<lambda>(i, z, j). z"
      have "call_step_ok D X tick objects n (?f e) (?g e)" if "e \<in> set (out_edges D y)" for e
      proof -
        have "y \<in> set objects" using node y by (auto simp: node_ok_def)
        then have edge: "edge_into D (set objects) e" using assms(1) that unfolding graph_ok_def by blast
        obtain i z j where e: "e = (i, z, j)" by (cases e)
        with edge have "z \<in> set objects" by (simp add: edge_into_def)
        from Suc.IH [OF this] show ?thesis unfolding e prod.case .
      qed
      note steps = this
      have "card (U - {y}) < card U" using fin y by (rule card_Diff1_less)
      then have less: "card (U - {y}) < n" using card by simp
      obtain st2 U2 tr2 where st2: "each ?f (out_edges D y) st1 = Some st2" "node_ok D X tick objects U2 st2 tr2"
          "U2 \<subseteq> U - {y}" "ready D U2 \<subseteq> ready D (U - {y}) - ?g ` set (out_edges D y)"
        using each_step [where as = "out_edges D y" and f = ?f and g = ?g, OF steps st1(2) less] by blast
      have "{z. edges_to (out_edges D y) z \<noteq> 0} \<subseteq> ?g ` set (out_edges D y)"
      proof
        fix z
        assume "z \<in> {z. edges_to (out_edges D y) z \<noteq> 0}"
        then obtain i j where "(i, z, j) \<in> set (out_edges D y)" using edges_to_0 [of "out_edges D y" z] by auto
        then show "z \<in> ?g ` set (out_edges D y)" by force
      qed
      then have "ready D U2 \<subseteq> ready D U - {y}" using ready_remove [OF fin y, of D] st2(4) by blast
      moreover have "node_ok D X tick objects U2 (emit (PutAfterSuccessors y) st2) tr2"
        using st2(2) by (rule node_ok_emit) auto
      ultimately show ?thesis
        using True st1(1) st2(1,3) by (auto simp: dsp_graph_succ_realize_def)
    qed
  qed
qed

subsection \<open>Compiling\<close>

lemma schedule_spec:
  assumes "graph_ok D objects" "sem_ok D X" "0 \<le> tick" and node: "node_ok D X tick objects (set objects) st []"
  shows "\<exists>st' U tr. dsp_graph_schedule D tick objects st = Some st' \<and> node_ok D X tick objects U st' tr \<and> ready D U = {}"
proof -
  have "call_step_ok D X tick objects (Suc (length objects))
          (\<lambda>st. if d_pred st x = 0 then dsp_graph_schedule_depth (Suc (length objects)) D tick x st else Some st) x"
    if "x \<in> set objects" for x
    using depth_step [OF assms(1-3) that, of "Suc (length objects)"]
    by (rule back_subst [where P = "\<lambda>f. call_step_ok D X tick objects (Suc (length objects)) f x"]) (simp add: fun_eq_iff)
  note step = this
  have "card (set objects) < Suc (length objects)" using card_length [of objects] by simp
  from each_step [where g = "\<lambda>x. x", OF step node this]
  obtain st' U tr where "dsp_graph_schedule D tick objects st = Some st'" "node_ok D X tick objects U st' tr"
      "ready D U \<subseteq> ready D (set objects) - (\<lambda>x. x) ` set objects" unfolding dsp_graph_schedule_def by blast
  moreover have "ready D (set objects) \<subseteq> set objects" by (auto simp: ready_def)
  ultimately show ?thesis by blast
qed

lemma reinit:
  "d_pred (dsp_graph_reinit D objects st) x = (if x \<in> set objects then 0 else d_pred st x)"
  "d_in (dsp_graph_reinit D objects st) x = (if x \<in> set objects then replicate (dw_ninputs D x) None else d_in st x)"
  "d_signals (dsp_graph_reinit D objects st) = d_signals st" "d_chain (dsp_graph_reinit D objects st) = d_chain st"
  "d_errs (dsp_graph_reinit D objects st) = d_errs st"
proof -
  have "d_pred (fold (\<lambda>x st. st\<lparr>d_pred := (d_pred st)(x := 0), d_in := (d_in st)(x := replicate (dw_ninputs D x) None),
          d_out := (d_out st)(x := replicate (dw_noutputs D x) None)\<rparr>) objects st) x = (if x \<in> set objects then 0 else d_pred st x)
    \<and> d_in (fold (\<lambda>x st. st\<lparr>d_pred := (d_pred st)(x := 0), d_in := (d_in st)(x := replicate (dw_ninputs D x) None),
          d_out := (d_out st)(x := replicate (dw_noutputs D x) None)\<rparr>) objects st) x
        = (if x \<in> set objects then replicate (dw_ninputs D x) None else d_in st x)
    \<and> d_signals (fold (\<lambda>x st. st\<lparr>d_pred := (d_pred st)(x := 0), d_in := (d_in st)(x := replicate (dw_ninputs D x) None),
          d_out := (d_out st)(x := replicate (dw_noutputs D x) None)\<rparr>) objects st) = d_signals st
    \<and> d_chain (fold (\<lambda>x st. st\<lparr>d_pred := (d_pred st)(x := 0), d_in := (d_in st)(x := replicate (dw_ninputs D x) None),
          d_out := (d_out st)(x := replicate (dw_noutputs D x) None)\<rparr>) objects st) = d_chain st
    \<and> d_errs (fold (\<lambda>x st. st\<lparr>d_pred := (d_pred st)(x := 0), d_in := (d_in st)(x := replicate (dw_ninputs D x) None),
          d_out := (d_out st)(x := replicate (dw_noutputs D x) None)\<rparr>) objects st) = d_errs st"
    by (induction objects arbitrary: st) auto
  then show "d_pred (dsp_graph_reinit D objects st) x = (if x \<in> set objects then 0 else d_pred st x)"
    "d_in (dsp_graph_reinit D objects st) x = (if x \<in> set objects then replicate (dw_ninputs D x) None else d_in st x)"
    "d_signals (dsp_graph_reinit D objects st) = d_signals st" "d_chain (dsp_graph_reinit D objects st) = d_chain st"
    "d_errs (dsp_graph_reinit D objects st) = d_errs st" by (simp_all only: dsp_graph_reinit_def)
qed

lemma send_message: "dsp_graph_send_message instr objects st = st\<lparr>d_chain := d_chain st @ map instr objects\<rparr>"
  by (induction objects arbitrary: st) (simp_all add: dsp_graph_send_message_def emit_def)

lemma inc_edges:
  "each dsp_graph_inc es st = Some (st\<lparr>d_pred := \<lambda>y. d_pred st y + int (edges_to es y)\<rparr>)"
proof (induction es arbitrary: st)
  case (Cons e es)
  obtain i y j where e: "e = (i, y, j)" by (cases e)
  have "(\<lambda>z. (if z = y then d_pred st y + 1 else d_pred st z) + int (edges_to es z))
      = (\<lambda>z. d_pred st z + int (edges_to (e # es) z))" by (auto simp: e)
  moreover have "dsp_graph_inc e st = Some (st\<lparr>d_pred := (d_pred st)(y := d_pred st y + 1)\<rparr>)"
    by (simp add: e dsp_graph_inc_def)
  ultimately show ?case using Cons [of "st\<lparr>d_pred := (d_pred st)(y := d_pred st y + 1)\<rparr>"]
    by (simp del: edges_to_simps)
qed simp

lemma count_predecessors:
  "dsp_graph_count_predecessors D objects st =
     Some (st\<lparr>d_pred := \<lambda>y. d_pred st y + int (sum_list (map (\<lambda>x. edges_to (out_edges D x) y) objects))\<rparr>)"
proof (induction objects arbitrary: st)
  case (Cons x objects)
  then show ?case
    by (simp add: dsp_graph_count_predecessors_def dsp_graph_succ_realize_def inc_edges add.assoc)
qed (simp add: dsp_graph_count_predecessors_def)

lemma run_chain_messages:
  assumes "\<And>r x. run_instr X (instr x) r = r"
  shows "run_chain X (chain @ map instr objects) = run_chain X chain"
  using assms by (induction objects arbitrary: chain) (simp_all add: run_chain_def)

lemma check_loop:
  "dsp_graph_check_loop objects st = st\<lparr>d_errs := d_errs st @ map LoopInGraph (filter (\<lambda>x. \<not> IS_SCHEDULED st x) objects)\<rparr>"
proof (induction objects arbitrary: st)
  case (Cons x objects)
  have "IS_SCHEDULED (st\<lparr>d_errs := es\<rparr>) = IS_SCHEDULED st" for es by (simp add: IS_SCHEDULED_def fun_eq_iff)
  then show ?case using Cons [of st] Cons [of "st\<lparr>d_errs := d_errs st @ [LoopInGraph x]\<rparr>"]
    by (cases "IS_SCHEDULED st x") (simp_all add: dsp_graph_check_loop_def)
qed (simp add: dsp_graph_check_loop_def)

text \<open>An object precedes another if it has an edge to it; the objects that no infinite chain leads to.\<close>

definition precedes :: "dsp_world \<Rightarrow> obj list \<Rightarrow> (obj \<times> obj) set" where
  "precedes D objects = {(w, x). w \<in> set objects \<and> (\<exists>i j. (i, x, j) \<in> set (out_edges D w))}"

lemma scheduled_are_acc:
  assumes node: "node_ok D X tick objects U st tr" and "ready D U = {}" and x: "x \<in> set objects"
  shows "x \<notin> U \<longleftrightarrow> x \<in> Wellfounded.acc (precedes D objects)"
proof
  have tr: "trace_ok D X objects tr" "fst ` set tr = set objects - U" and sub: "U \<subseteq> set objects"
    using node by (simp_all add: node_ok_def)
  have fin: "finite U" using sub by (rule finite_subset) simp
  show "x \<in> Wellfounded.acc (precedes D objects)" if "x \<notin> U"
  proof -
    have acc: "fst (tr ! k) \<in> Wellfounded.acc (precedes D objects)" if "k < length tr" for k
      using that
    proof (induction k rule: less_induct)
      case (less k)
      obtain y vs os where c: "tr ! k = (y, vs, os)" by (metis prod_cases3)
      have "call_ok D X objects (take k tr) (tr ! k)" using tr(1) less.prems by (simp add: trace_ok_def)
      then have pre: "\<forall>w \<in> set objects. (\<exists>i j. (i, y, j) \<in> set (out_edges D w)) \<longrightarrow> w \<in> fst ` set (take k tr)"
        unfolding c call_ok_def prod.case by blast
      have "w \<in> Wellfounded.acc (precedes D objects)" if "(w, y) \<in> precedes D objects" for w
      proof -
        have "w \<in> fst ` set (take k tr)" using pre that unfolding precedes_def by blast
        then have "w \<in> set (map fst (take k tr))" by simp
        then obtain i where i: "i < length (take k tr)" "fst (tr ! i) = w" unfolding in_set_conv_nth by fastforce
        then show ?thesis using less.IH [of i] less.prems by simp
      qed
      then have "y \<in> Wellfounded.acc (precedes D objects)" by (rule accI)
      then show ?case by (simp add: c)
    qed
    have "x \<in> fst ` set tr" using that x tr(2) by blast
    then have "x \<in> set (map fst tr)" by simp
    then obtain k where "k < length tr" "fst (tr ! k) = x" unfolding in_set_conv_nth by fastforce
    with acc [of k] show ?thesis by simp
  qed
  show "x \<notin> U" if "x \<in> Wellfounded.acc (precedes D objects)"
    using that
  proof (rule acc_induct)
    fix x
    assume 1: "\<forall>w. (w, x) \<in> precedes D objects \<longrightarrow> w \<notin> U"
    show "x \<notin> U"
    proof
      assume "x \<in> U"
      with assms(2) have "in_degree D U x \<noteq> 0" by (auto simp: ready_def)
      then obtain w where w: "w \<in> U" "edges_to (out_edges D w) x \<noteq> 0" using in_degree_0 [OF fin, of D x] by auto
      obtain i j where "(i, x, j) \<in> set (out_edges D w)" using w(2) edges_to_0 [of "out_edges D w" x] by auto
      then have "(w, x) \<in> precedes D objects" using w(1) sub by (auto simp: precedes_def)
      with 1 w(1) show False by blast
    qed
  qed
qed

lemma sum_list_in_degree:
  "distinct objects \<Longrightarrow> sum_list (map (\<lambda>x. edges_to (out_edges D x) y) objects) = in_degree D (set objects) y"
  by (simp add: in_degree_def sum_list_distinct_conv_sum_set)

lemma start_ok:
  assumes G: "graph_ok D objects" and errs: "d_errs st = []" and zero: "d_signals st = [\<lparr>sig_refcnt = 1, sig_length = tick\<rparr>]"
    and chain: "run_chain X (d_chain st) = (ds_mem X, [])"
    and pred: "\<And>y. d_pred st y = int (in_degree D (set objects) y)"
    and din: "\<And>y. y \<in> set objects \<Longrightarrow> d_in st y = replicate (dw_ninputs D y) None"
  shows "node_ok D X tick objects (set objects) st []"
proof -
  have "signals_ok tick (set objects) {} st"
    using din by (auto simp: signals_ok_def zero lengths_are_def refcnt_def sig_zero_def)
  moreover have "inputs_hold D X (set objects) st (ds_mem X) (arrives D [])"
    using din by (simp add: inputs_hold_def arrives_def)
  ultimately show ?thesis
    using errs chain pred by (simp add: node_ok_def trace_ok_def)
qed

theorem compile_spec:
  fixes X :: "'v dsp_sem"
  assumes G: "graph_ok D objects" and X: "sem_ok D X" and tick: "0 \<le> tick" and errs: "d_errs st = []"
    and reset: "\<not> d_compiled st"
  shows "\<exists>st' mem tr. fts_dsp_graph_compile D tick objects st = Some st' \<and> run_chain X (d_chain st') = (mem, tr)
    \<and> trace_ok D X objects tr \<and> fst ` set tr = set objects \<inter> Wellfounded.acc (precedes D objects)
    \<and> d_errs st' = map LoopInGraph (filter (\<lambda>x. x \<notin> Wellfounded.acc (precedes D objects)) objects)
    \<and> d_compiled st'"
proof -
  let ?st0 = "fts_dsp_signal_init (st\<lparr>d_chain := []\<rparr>)"
  obtain zero st1 where new: "fts_dsp_signal_new tick ?st0 = (zero, st1)" by (cases "fts_dsp_signal_new tick ?st0")
  then have st1: "zero = 0" "st1 = ?st0\<lparr>d_signals := [\<lparr>sig_refcnt = SIGNAL_PENDING, sig_length = tick\<rparr>]\<rparr>"
    by (auto simp: fts_dsp_signal_new_def fts_dsp_signal_init_def)
  let ?st1 = "fts_dsp_signal_reference zero st1"
  have ref: "d_signals ?st1 = [\<lparr>sig_refcnt = 1, sig_length = tick\<rparr>]" "d_chain ?st1 = []" "d_errs ?st1 = []"
    by (simp_all add: st1 fts_dsp_signal_reference_def refcnt_def set_refcnt_def fts_dsp_signal_init_def errs)
  let ?st2 = "dsp_graph_send_message Prologue objects (dsp_graph_reinit D objects ?st1)"
  let ?st3 = "?st2\<lparr>d_pred := \<lambda>y. d_pred ?st2 y + int (sum_list (map (\<lambda>x. edges_to (out_edges D x) y) objects))\<rparr>"
  have dist: "distinct objects" using G by (simp add: graph_ok_def)
  define st3 where "st3 = ?st3\<lparr>d_pred := \<lambda>y. int (in_degree D (set objects) y)\<rparr>"
  have eq: "\<And>y. y \<in> set objects \<Longrightarrow> d_pred ?st3 y = d_pred st3 y"
    by (simp add: st3_def send_message reinit sum_list_in_degree [OF dist])
  show ?thesis
  proof -
    have "node_ok D X tick objects (set objects) st3 []"
    proof (rule start_ok [OF G])
      show "d_errs st3 = []" "d_signals st3 = [\<lparr>sig_refcnt = 1, sig_length = tick\<rparr>]"
        by (simp_all add: st3_def send_message reinit ref)
      show "run_chain X (d_chain st3) = (ds_mem X, [])"
        using run_chain_messages [of X Prologue "[]" objects] by (simp add: st3_def send_message reinit ref) (simp add: run_chain_def)
      show "d_pred st3 y = int (in_degree D (set objects) y)" for y by (simp add: st3_def)
      show "d_in st3 y = replicate (dw_ninputs D y) None" if "y \<in> set objects" for y
        using that by (simp add: st3_def send_message reinit)
    qed
    then have node: "node_ok D X tick objects (set objects) ?st3 []"
      using eq by (simp add: node_ok_def st3_def)
    obtain st4 U tr where st4: "dsp_graph_schedule D tick objects ?st3 = Some st4" "node_ok D X tick objects U st4 tr" "ready D U = {}"
      using schedule_spec [OF G X tick node] by blast
    obtain mem where run: "run_chain X (d_chain st4) = (mem, tr)" using st4(2) by (auto simp: node_ok_def)
    let ?st' = "(dsp_graph_send_message Epilogue objects (dsp_graph_check_loop objects st4))\<lparr>d_compiled := True\<rparr>"
    have "fts_dsp_graph_compile D tick objects st = Some ?st'"
      using new st4(1) reset by (simp add: fts_dsp_graph_compile_def count_predecessors)
    moreover have "run_chain X (d_chain ?st') = (mem, tr)"
      using run run_chain_messages [of X Epilogue "d_chain st4" objects] by (simp add: send_message check_loop)
    moreover have acc: "x \<in> set objects \<Longrightarrow> x \<notin> U \<longleftrightarrow> x \<in> Wellfounded.acc (precedes D objects)" for x
      using scheduled_are_acc [OF st4(2,3)] .
    moreover have "fst ` set tr = set objects - U" "trace_ok D X objects tr" "d_errs st4 = []"
        and pred: "\<forall>y \<in> U. d_pred st4 y = int (in_degree D U y)" "\<forall>y \<in> set objects - U. d_pred st4 y = SCHEDULED"
      using st4(2) by (simp_all add: node_ok_def)
    moreover have "IS_SCHEDULED st4 x \<longleftrightarrow> x \<notin> U" if "x \<in> set objects" for x
      using pred that by (cases "x \<in> U") (simp_all add: IS_SCHEDULED_def SCHEDULED_def)
    then have "filter (\<lambda>x. \<not> IS_SCHEDULED st4 x) objects = filter (\<lambda>x. x \<notin> Wellfounded.acc (precedes D objects)) objects"
      using acc by (intro filter_cong) auto
    then have "d_errs ?st' = map LoopInGraph (filter (\<lambda>x. x \<notin> Wellfounded.acc (precedes D objects)) objects)"
      using \<open>d_errs st4 = []\<close> by (simp add: send_message check_loop)
    ultimately show ?thesis by (intro exI [of _ ?st'] exI [of _ mem] exI [of _ tr]) auto
  qed
qed

end
