(* ===== verification/GraphIterator.thy ===== *)
theory GraphIterator
  imports Connection
begin

text \<open>
  The iterator of the DSP graph (\<open>fts/dspgraph.c\<close>). It goes through the connections of an outlet and
  skips the objects that only hand signals on (the inlets of a patcher, a label, a dispatch): when a
  connection leads to an object whose class has a \<open>propagate_input\<close> method, that method pushes the
  outlets that the signal continues from, and the iterator goes through them first. An object that
  is on the stack is not pushed again, which is what ends the walk in a patch with loops.

  What the \<open>propagate_input\<close> method of object \<open>x\<close> pushes for inlet \<open>i\<close> is the parameter \<open>P x i\<close>.
\<close>

record stack_element =
  se_object :: obj
  se_connection_to_thru :: "cid option"
  se_connection :: "cid option"

type_synonym graph_iterator = "stack_element list"

definition graph_iterator_push :: "patch \<Rightarrow> obj \<Rightarrow> int \<Rightarrow> graph_iterator \<Rightarrow> graph_iterator option" where
  "graph_iterator_push s x outlet iter =
     (if x \<in> se_object ` set iter then Some iter
      else map_option (\<lambda>c. \<lparr>se_object = x, se_connection_to_thru = None, se_connection = c\<rparr> # iter) (out_head s x outlet))"

fun push_all :: "patch \<Rightarrow> (obj \<times> int) list \<Rightarrow> graph_iterator \<Rightarrow> graph_iterator option" where
  "push_all s [] iter = Some iter"
| "push_all s ((x, i) # ps) iter = Option.bind (graph_iterator_push s x i iter) (push_all s ps)"

definition propagates :: "patch_world \<Rightarrow> obj \<Rightarrow> bool" where
  "propagates W x \<longleftrightarrow> fts_class_get_method_varargs (object_class W x) (w_s_propagate_input W) \<noteq> None"

text \<open>The element \<open>oldtop\<close>, which is below the pushed ones, goes on with the next connection.\<close>

definition skip_thru :: "nat \<Rightarrow> cid \<Rightarrow> cid option \<Rightarrow> graph_iterator \<Rightarrow> graph_iterator" where
  "skip_thru pushed c next iter =
     iter[pushed := (iter ! pushed)\<lparr>se_connection_to_thru := Some c, se_connection := next\<rparr>]"

partial_function (option) graph_iterator_step ::
  "patch_world \<Rightarrow> (obj \<Rightarrow> int \<Rightarrow> (obj \<times> int) list) \<Rightarrow> patch \<Rightarrow> graph_iterator \<Rightarrow> graph_iterator option" where
  "graph_iterator_step W P s iter =
     (case iter of [] \<Rightarrow> Some []
      | e # rest \<Rightarrow>
         (case se_connection e of None \<Rightarrow> graph_iterator_step W P s rest
          | Some c \<Rightarrow>
             Option.bind (conns s c)
               (\<lambda>k. if propagates W (c_dst k)
                     then Option.bind (push_all s (P (c_dst k) (c_winlet k)) iter)
                            (\<lambda>iter'. graph_iterator_step W P s
                               (skip_thru (length iter' - length iter) c (next_same_src k) iter'))
                     else Some iter)))"

definition graph_iterator_init ::
  "patch_world \<Rightarrow> (obj \<Rightarrow> int \<Rightarrow> (obj \<times> int) list) \<Rightarrow> patch \<Rightarrow> obj \<Rightarrow> int \<Rightarrow> graph_iterator option" where
  "graph_iterator_init W P s x outlet = Option.bind (graph_iterator_push s x outlet []) (graph_iterator_step W P s)"

definition graph_iterator_next ::
  "patch_world \<Rightarrow> (obj \<Rightarrow> int \<Rightarrow> (obj \<times> int) list) \<Rightarrow> patch \<Rightarrow> graph_iterator \<Rightarrow> graph_iterator option" where
  "graph_iterator_next W P s iter =
     (case iter of [] \<Rightarrow> None
      | e # rest \<Rightarrow>
         (case se_connection e of None \<Rightarrow> graph_iterator_step W P s iter
          | Some c \<Rightarrow>
             Option.bind (conns s c)
               (\<lambda>k. graph_iterator_step W P s (e\<lparr>se_connection := next_same_src k\<rparr> # rest))))"

definition graph_iterator_get_current :: "patch \<Rightarrow> graph_iterator \<Rightarrow> (obj \<times> int) option" where
  "graph_iterator_get_current s iter =
     (case iter of [] \<Rightarrow> None
      | e # rest \<Rightarrow>
         Option.bind (se_connection e) (\<lambda>c. map_option (\<lambda>k. (c_dst k, c_winlet k)) (conns s c)))"

text \<open>The loop over an outlet: the destinations and inlets in the order in which they are visited.\<close>

partial_function (option) graph_walk ::
  "patch_world \<Rightarrow> (obj \<Rightarrow> int \<Rightarrow> (obj \<times> int) list) \<Rightarrow> patch \<Rightarrow> graph_iterator \<Rightarrow> (obj \<times> int) list option" where
  "graph_walk W P s iter =
     (if iter = [] then Some []
      else Option.bind (graph_iterator_get_current s iter)
             (\<lambda>d. Option.bind (graph_iterator_next W P s iter)
                (\<lambda>iter'. Option.bind (graph_walk W P s iter') (\<lambda>ds. Some (d # ds)))))"

definition graph_successors ::
  "patch_world \<Rightarrow> (obj \<Rightarrow> int \<Rightarrow> (obj \<times> int) list) \<Rightarrow> patch \<Rightarrow> obj \<Rightarrow> int \<Rightarrow> (obj \<times> int) list option" where
  "graph_successors W P s x outlet = Option.bind (graph_iterator_init W P s x outlet) (graph_walk W P s)"

subsection \<open>The walk ends\<close>

text \<open>
  The stack holds each of the objects \<open>N\<close> at most once, so it is never deeper than their number. With
  at most \<open>L\<close> connections in a list, the number of connections to go, weighted with the powers of
  \<open>L + 2\<close> so that an element outweighs everything that can be stacked upon it, goes down.
\<close>

definition to_go :: "patch \<Rightarrow> cid option \<Rightarrow> cid list \<Rightarrow> nat \<Rightarrow> bool" where
  "to_go s p cs L \<longleftrightarrow> linked_list (nxt_src s) p cs \<and> (\<forall>c \<in> set cs. conns s c \<noteq> None) \<and> length cs \<le> L"

definition conns_left :: "patch \<Rightarrow> cid option \<Rightarrow> nat" where
  "conns_left s p = length (THE cs. linked_list (nxt_src s) p cs)"

lemma conns_left_eq: "linked_list (nxt_src s) p cs \<Longrightarrow> conns_left s p = length cs"
  unfolding conns_left_def by (metis linked_list_unique the_equality)

definition outlets_ok :: "patch \<Rightarrow> obj set \<Rightarrow> nat \<Rightarrow> bool" where
  "outlets_ok s N L \<longleftrightarrow> (\<forall>x \<in> N. \<forall>i p. out_head s x i = Some p \<longrightarrow> (\<exists>cs. to_go s p cs L))"

definition pushes_ok :: "patch \<Rightarrow> obj set \<Rightarrow> (obj \<Rightarrow> int \<Rightarrow> (obj \<times> int) list) \<Rightarrow> bool" where
  "pushes_ok s N P \<longleftrightarrow> (\<forall>x i y j. (y, j) \<in> set (P x i) \<longrightarrow> y \<in> N \<and> out_head s y j \<noteq> None)"

definition stack_ok :: "patch \<Rightarrow> obj set \<Rightarrow> nat \<Rightarrow> graph_iterator \<Rightarrow> bool" where
  "stack_ok s N L iter \<longleftrightarrow>
     distinct (map se_object iter) \<and> se_object ` set iter \<subseteq> N \<and> (\<forall>e \<in> set iter. \<exists>cs. to_go s (se_connection e) cs L)"

fun weight :: "patch \<Rightarrow> nat \<Rightarrow> nat \<Rightarrow> graph_iterator \<Rightarrow> nat" where
  "weight s L n [] = 0"
| "weight s L n (e # rest) = (conns_left s (se_connection e) + 1) * (L + 2) ^ (n - Suc (length rest)) + weight s L n rest"

lemma to_go_conns_left: "to_go s p cs L \<Longrightarrow> conns_left s p = length cs \<and> conns_left s p \<le> L"
  using conns_left_eq by (force simp: to_go_def)

lemma to_go_next:
  assumes "to_go s (Some c) cs L" "conns s c = Some k"
  shows "\<exists>cs'. cs = c # cs' \<and> to_go s (next_same_src k) cs' L"
  using assms by (cases cs) (auto simp: to_go_def nxt_src_def)

lemma to_go_Some:
  assumes "to_go s (Some c) cs L"
  shows "\<exists>k. conns s c = Some k"
  using assms by (cases cs) (auto simp: to_go_def)

lemma stack_depth:
  assumes "finite N" "stack_ok s N L iter"
  shows "length iter \<le> card N"
proof -
  have "length iter = card (se_object ` set iter)"
    using assms(2) distinct_card [of "map se_object iter"] by (simp add: stack_ok_def)
  also have "\<dots> \<le> card N" using assms by (intro card_mono) (simp_all add: stack_ok_def)
  finally show ?thesis .
qed

lemma stack_ok_Cons:
  "stack_ok s N L (e # rest) \<longleftrightarrow>
     stack_ok s N L rest \<and> se_object e \<in> N \<and> se_object e \<notin> se_object ` set rest \<and> (\<exists>cs. to_go s (se_connection e) cs L)"
  by (auto simp: stack_ok_def)

text \<open>What is pushed weighs less than one connection of the element that was at the top.\<close>

definition room :: "nat \<Rightarrow> nat \<Rightarrow> graph_iterator \<Rightarrow> nat" where
  "room L n iter = (L + 2) ^ (n - length iter)"

lemma push_spec:
  assumes "finite N" "outlets_ok s N L" "stack_ok s N L iter" "x \<in> N" "out_head s x i \<noteq> None"
  shows "\<exists>es. graph_iterator_push s x i iter = Some (es @ iter) \<and> stack_ok s N L (es @ iter)
    \<and> weight s L (card N) (es @ iter) + room L (card N) (es @ iter) \<le> weight s L (card N) iter + room L (card N) iter"
proof (cases "x \<in> se_object ` set iter")
  case True
  with assms show ?thesis by (intro exI [of _ "[]"]) (simp add: graph_iterator_push_def)
next
  case False
  obtain p where p: "out_head s x i = Some p" using assms(5) by blast
  then obtain cs where cs: "to_go s p cs L" using assms(2,4) unfolding outlets_ok_def by blast
  let ?e = "\<lparr>se_object = x, se_connection_to_thru = None, se_connection = p\<rparr>"
  have ok: "stack_ok s N L (?e # iter)" using assms(3,4) False cs by (auto simp: stack_ok_Cons)
  have "length (?e # iter) \<le> card N" using assms(1) ok by (rule stack_depth)
  then obtain d where d: "card N - length iter = Suc d" "card N - Suc (length iter) = d"
    by (metis Suc_diff_Suc Suc_le_eq length_Cons)
  have "(conns_left s p + 1) * (L + 2) ^ d + (L + 2) ^ d \<le> (L + 1) * (L + 2) ^ d + (L + 2) ^ d"
    using to_go_conns_left [OF cs] by simp
  also have "\<dots> = (L + 2) ^ Suc d" by simp
  finally have "weight s L (card N) (?e # iter) + room L (card N) (?e # iter) \<le> weight s L (card N) iter + room L (card N) iter"
    by (simp add: room_def d)
  with ok p False show ?thesis by (intro exI [of _ "[?e]"]) (simp add: graph_iterator_push_def)
qed

lemma push_all_spec:
  assumes "finite N" "outlets_ok s N L" "stack_ok s N L iter" "\<forall>(y, j) \<in> set ps. y \<in> N \<and> out_head s y j \<noteq> None"
  shows "\<exists>es. push_all s ps iter = Some (es @ iter) \<and> stack_ok s N L (es @ iter)
    \<and> weight s L (card N) (es @ iter) + room L (card N) (es @ iter) \<le> weight s L (card N) iter + room L (card N) iter"
  using assms(3,4)
proof (induction ps arbitrary: iter)
  case Nil
  then show ?case by (intro exI [of _ "[]"]) simp
next
  case (Cons a ps)
  obtain y j where a: "a = (y, j)" by (cases a)
  obtain es where es: "graph_iterator_push s y j iter = Some (es @ iter)" "stack_ok s N L (es @ iter)"
    "weight s L (card N) (es @ iter) + room L (card N) (es @ iter) \<le> weight s L (card N) iter + room L (card N) iter"
    using push_spec [OF assms(1,2) Cons.prems(1), of y j] Cons.prems(2) by (auto simp: a)
  then obtain es' where "push_all s ps (es @ iter) = Some (es' @ es @ iter)" "stack_ok s N L (es' @ es @ iter)"
    "weight s L (card N) (es' @ es @ iter) + room L (card N) (es' @ es @ iter)
      \<le> weight s L (card N) (es @ iter) + room L (card N) (es @ iter)"
    using Cons.IH [of "es @ iter"] Cons.prems(2) by auto
  with es show ?case by (intro exI [of _ "es' @ es"]) (simp add: a)
qed

lemma skip_thru_eq: "skip_thru (length (es @ e # rest) - length (e # rest)) c p (es @ e # rest)
    = es @ e\<lparr>se_connection_to_thru := Some c, se_connection := p\<rparr> # rest"
  by (simp add: skip_thru_def list_update_append nth_append)

lemma weight_replace:
  "se_object e' = se_object e \<Longrightarrow>
     weight s L n (es @ e' # rest) + (conns_left s (se_connection e) + 1) * (L + 2) ^ (n - Suc (length rest))
       = weight s L n (es @ e # rest) + (conns_left s (se_connection e') + 1) * (L + 2) ^ (n - Suc (length rest))"
  by (induction es) simp_all

lemma stack_ok_replace:
  assumes "stack_ok s N L (es @ e # rest)" "se_object e' = se_object e" "to_go s (se_connection e') cs L"
  shows "stack_ok s N L (es @ e' # rest)"
  using assms by (auto simp: stack_ok_def)

lemma weight_skip:
  assumes "to_go s (se_connection e) cs L" "se_connection e = Some c" "conns s c = Some k" "se_object e' = se_object e"
    and "se_connection e' = next_same_src k"
  shows "weight s L n (es @ e' # rest) + (L + 2) ^ (n - Suc (length rest)) = weight s L n (es @ e # rest)"
proof -
  from assms obtain cs' where "to_go s (Some c) (c # cs') L" "to_go s (next_same_src k) cs' L" "cs = c # cs'"
    using to_go_next by metis
  then have "conns_left s (se_connection e) = Suc (conns_left s (se_connection e'))"
    using assms(1,2,5) to_go_conns_left by (metis length_Cons)
  with weight_replace [OF assms(4), of s L n es rest] show ?thesis by simp
qed

text \<open>Where the iterator may stop: at its end, or at a connection to an object that does not propagate.\<close>

definition at_visit :: "patch_world \<Rightarrow> patch \<Rightarrow> graph_iterator \<Rightarrow> bool" where
  "at_visit W s iter \<longleftrightarrow>
     (case iter of [] \<Rightarrow> True
      | e # _ \<Rightarrow> \<exists>c k. se_connection e = Some c \<and> conns s c = Some k \<and> \<not> propagates W (c_dst k))"

lemma step_spec:
  assumes "finite N" "outlets_ok s N L" "pushes_ok s N P" "stack_ok s N L iter"
  shows "\<exists>iter'. graph_iterator_step W P s iter = Some iter' \<and> stack_ok s N L iter' \<and> at_visit W s iter'
    \<and> weight s L (card N) iter' \<le> weight s L (card N) iter"
  using assms(4)
proof (induction "weight s L (card N) iter" arbitrary: iter rule: less_induct)
  case less
  show ?case
  proof (cases iter)
    case Nil
    then show ?thesis by (subst graph_iterator_step.simps) (simp add: stack_ok_def at_visit_def)
  next
    case (Cons e rest)
    from less.prems obtain cs where rest: "stack_ok s N L rest" and cs: "to_go s (se_connection e) cs L"
      unfolding Cons stack_ok_Cons by blast
    show ?thesis
    proof (cases "se_connection e")
      case None
      have "weight s L (card N) rest < weight s L (card N) iter" by (simp add: Cons)
      from less.hyps [OF this rest] show ?thesis using None
        by (subst graph_iterator_step.simps) (auto simp: Cons)
    next
      case (Some c)
      with to_go_Some cs obtain k where k: "conns s c = Some k" by metis
      show ?thesis
      proof (cases "propagates W (c_dst k)")
        case False
        with less.prems k Some show ?thesis
          by (subst graph_iterator_step.simps) (auto simp: Cons at_visit_def)
      next
        case True
        have "\<forall>(y, j) \<in> set (P (c_dst k) (c_winlet k)). y \<in> N \<and> out_head s y j \<noteq> None"
          using assms(3) unfolding pushes_ok_def by blast
        from push_all_spec [OF assms(1,2) less.prems this] obtain es
          where es: "push_all s (P (c_dst k) (c_winlet k)) iter = Some (es @ iter)" "stack_ok s N L (es @ iter)"
            "weight s L (card N) (es @ iter) + room L (card N) (es @ iter) \<le> weight s L (card N) iter + room L (card N) iter"
          by blast
        let ?e = "e\<lparr>se_connection_to_thru := Some c, se_connection := next_same_src k\<rparr>"
        let ?iter = "es @ ?e # rest"
        obtain cs' where "to_go s (next_same_src k) cs' L" using to_go_next [OF _ k] cs Some by metis
        then have ok: "stack_ok s N L ?iter"
          using es(2) unfolding Cons by (intro stack_ok_replace [of s N L es e rest ?e]) simp_all
        have "weight s L (card N) ?iter + room L (card N) iter = weight s L (card N) (es @ iter)"
          using weight_skip [OF cs Some k, of ?e "card N" es rest] by (simp add: Cons room_def)
        moreover have "0 < room L (card N) (es @ iter)" by (simp add: room_def)
        ultimately have less': "weight s L (card N) ?iter < weight s L (card N) iter" using es(3) by linarith
        have eq: "graph_iterator_step W P s iter = graph_iterator_step W P s ?iter"
          using Some k True es(1) by (subst graph_iterator_step.simps) (simp add: Cons skip_thru_eq [simplified])
        from less.hyps [OF less' ok] less' show ?thesis unfolding eq by (meson le_trans less_imp_le_nat)
      qed
    qed
  qed
qed

lemma next_spec:
  assumes "finite N" "outlets_ok s N L" "pushes_ok s N P" "stack_ok s N L iter" "iter \<noteq> []" "at_visit W s iter"
  shows "\<exists>iter'. graph_iterator_next W P s iter = Some iter' \<and> stack_ok s N L iter' \<and> at_visit W s iter'
    \<and> weight s L (card N) iter' < weight s L (card N) iter"
proof -
  obtain e rest where iter: "iter = e # rest" using assms(5) by (cases iter) auto
  with assms(6) obtain c k where c: "se_connection e = Some c" "conns s c = Some k" by (auto simp: at_visit_def)
  from assms(4) obtain cs where cs: "to_go s (se_connection e) cs L" by (auto simp: iter stack_ok_Cons)
  let ?e = "e\<lparr>se_connection := next_same_src k\<rparr>"
  obtain cs' where "to_go s (next_same_src k) cs' L" using to_go_next [OF _ c(2)] cs c(1) by metis
  then have ok: "stack_ok s N L (?e # rest)"
    using assms(4) stack_ok_replace [of s N L "[]" e rest ?e] by (simp add: iter)
  have "weight s L (card N) (?e # rest) < weight s L (card N) iter"
  proof -
    have "weight s L (card N) (?e # rest) + (L + 2) ^ (card N - Suc (length rest)) = weight s L (card N) iter"
      using weight_skip [OF cs c, of ?e "card N" "[]" rest] by (simp only: iter append_Nil select_convs update_convs surjective) simp
    moreover have "0 < (L + 2) ^ (card N - Suc (length rest))" by simp
    ultimately show ?thesis by linarith
  qed
  moreover obtain iter' where "graph_iterator_step W P s (?e # rest) = Some iter'" "stack_ok s N L iter'" "at_visit W s iter'"
    "weight s L (card N) iter' \<le> weight s L (card N) (?e # rest)" using step_spec [OF assms(1-3) ok, of W] by blast
  moreover from this have "graph_iterator_next W P s iter = Some iter'" by (simp add: graph_iterator_next_def iter c)
  ultimately show ?thesis by (meson le_less_trans)
qed

lemma walk_spec:
  assumes "finite N" "outlets_ok s N L" "pushes_ok s N P" "stack_ok s N L iter" "at_visit W s iter"
  shows "\<exists>ds. graph_walk W P s iter = Some ds \<and> (\<forall>(y, j) \<in> set ds. \<not> propagates W y)"
  using assms(4,5)
proof (induction "weight s L (card N) iter" arbitrary: iter rule: less_induct)
  case less
  show ?case
  proof (cases iter)
    case Nil
    then show ?thesis by (subst graph_walk.simps) simp
  next
    case (Cons e rest)
    with less.prems(2) obtain d where d: "graph_iterator_get_current s iter = Some d" "\<not> propagates W (fst d)"
      by (fastforce simp: at_visit_def graph_iterator_get_current_def)
    from next_spec [OF assms(1-3) less.prems(1) _ less.prems(2)] Cons obtain iter'
      where iter': "graph_iterator_next W P s iter = Some iter'" "stack_ok s N L iter'" "at_visit W s iter'"
        "weight s L (card N) iter' < weight s L (card N) iter" by blast
    from less.hyps [OF iter'(4,2,3)] d iter'(1) Cons show ?thesis
      by (subst graph_walk.simps) (auto split: prod.splits)
  qed
qed

text \<open>The iterator is the fuel of no loop: from any outlet of a patch with linked lists it comes to its end.\<close>

lemma linked_to_go:
  assumes "linked s outs ins" "out_head s x i = Some p"
  shows "to_go s p (outs (x, i)) (next_conn s)"
proof -
  have list: "linked_list (nxt_src s) p (outs (x, i))" using assms by (rule out_list)
  have live: "\<forall>c \<in> set (outs (x, i)). conns s c \<noteq> None" using outs_conns linked_parts(4) [OF assms(1)] by blast
  then have "set (outs (x, i)) \<subseteq> {..<next_conn s}"
    using assms(1) unfolding linked_def by (meson lessThan_iff not_le subsetI)
  then have "card (set (outs (x, i))) \<le> next_conn s" using card_mono [of "{..<next_conn s}"] by simp
  then have "length (outs (x, i)) \<le> next_conn s" using linked_list_distinct [OF list] by (simp add: distinct_card)
  with list live show ?thesis by (simp add: to_go_def)
qed

lemma linked_outlets_ok: "linked s outs ins \<Longrightarrow> outlets_ok s N (next_conn s)"
  unfolding outlets_ok_def by (blast intro: linked_to_go)

lemma graph_successors_return:
  assumes "linked s outs ins" "finite N" "pushes_ok s N P" "out_head s x i \<noteq> None"
  shows "\<exists>ds. graph_successors W P s x i = Some ds \<and> (\<forall>(y, j) \<in> set ds. \<not> propagates W y)"
proof -
  let ?N = "insert x N" and ?L = "next_conn s"
  have fin: "finite ?N" "outlets_ok s ?N ?L" "pushes_ok s ?N P" "stack_ok s ?N ?L []"
    using assms(2,3) linked_outlets_ok [OF assms(1)] by (auto simp: pushes_ok_def stack_ok_def)
  obtain es where "graph_iterator_push s x i [] = Some es" "stack_ok s ?N ?L es"
    using push_spec [OF fin(1,2,4), of x i] assms(4) by auto
  moreover then obtain iter' where "graph_iterator_step W P s es = Some iter'" "stack_ok s ?N ?L iter'" "at_visit W s iter'"
    using step_spec [OF fin(1-3)] by blast
  ultimately show ?thesis
    using walk_spec [OF fin(1-3)] by (simp add: graph_successors_def graph_iterator_init_def)
qed

subsection \<open>Where the walk goes\<close>

text \<open>The outlets that a signal goes on from when it leaves an outlet.\<close>

inductive signal_from :: "patch_world \<Rightarrow> (obj \<Rightarrow> int \<Rightarrow> (obj \<times> int) list) \<Rightarrow> patch \<Rightarrow> ports \<Rightarrow> obj \<times> int \<Rightarrow> obj \<times> int \<Rightarrow> bool"
  for W P s outs p where
  here: "signal_from W P s outs p p"
| through: "signal_from W P s outs p q \<Longrightarrow> c \<in> set (outs q) \<Longrightarrow> conns s c = Some k \<Longrightarrow> propagates W (c_dst k) \<Longrightarrow>
    r \<in> set (P (c_dst k) (c_winlet k)) \<Longrightarrow> signal_from W P s outs p r"

definition signal_conns :: "patch_world \<Rightarrow> (obj \<Rightarrow> int \<Rightarrow> (obj \<times> int) list) \<Rightarrow> patch \<Rightarrow> ports \<Rightarrow> obj \<times> int \<Rightarrow> cid set" where
  "signal_conns W P s outs p = (\<Union>q \<in> Collect (signal_from W P s outs p). set (outs q))"

lemma signal_conns_through:
  assumes "c \<in> signal_conns W P s outs p" "conns s c = Some k" "propagates W (c_dst k)" "r \<in> set (P (c_dst k) (c_winlet k))"
  shows "signal_from W P s outs p r"
  using assms by (auto simp: signal_conns_def intro: through)

definition on_the_way :: "patch \<Rightarrow> cid set \<Rightarrow> graph_iterator \<Rightarrow> bool" where
  "on_the_way s C iter \<longleftrightarrow> (\<forall>e \<in> set iter. \<exists>cs. linked_list (nxt_src s) (se_connection e) cs \<and> set cs \<subseteq> C)"

lemma on_the_way_next:
  assumes "on_the_way s C (es @ e # rest)" "se_connection e = Some c" "conns s c = Some k" "se_connection e' = next_same_src k"
  shows "c \<in> C" "on_the_way s C (es @ e' # rest)"
proof -
  from assms(1) obtain cs where "linked_list (nxt_src s) (se_connection e) cs" "set cs \<subseteq> C"
    by (auto simp: on_the_way_def)
  with assms(2,3,4) obtain cs' where "cs = c # cs'" "linked_list (nxt_src s) (se_connection e') cs'" "set cs' \<subseteq> C" "c \<in> C"
    by (cases cs) (auto simp: nxt_src_def)
  with assms(1) show "c \<in> C" "on_the_way s C (es @ e' # rest)" by (auto simp: on_the_way_def)
qed

lemma push_on_the_way:
  assumes "linked s outs ins" "on_the_way s (signal_conns W P s outs p) iter" "signal_from W P s outs p (x, i)"
    and "graph_iterator_push s x i iter = Some iter'"
  shows "\<exists>es. iter' = es @ iter \<and> on_the_way s (signal_conns W P s outs p) iter'"
proof (cases "x \<in> se_object ` set iter")
  case True
  with assms show ?thesis by (intro exI [of _ "[]"]) (simp add: graph_iterator_push_def)
next
  case False
  with assms(4) obtain h where h: "out_head s x i = Some h"
    "iter' = \<lparr>se_object = x, se_connection_to_thru = None, se_connection = h\<rparr> # iter"
    by (auto simp: graph_iterator_push_def)
  have "linked_list (nxt_src s) h (outs (x, i))" using assms(1) h(1) by (rule out_list)
  moreover have "set (outs (x, i)) \<subseteq> signal_conns W P s outs p" using assms(3) by (auto simp: signal_conns_def)
  ultimately show ?thesis using assms(2) h(2) by (auto simp: on_the_way_def)
qed

lemma push_all_on_the_way:
  assumes "linked s outs ins" "on_the_way s (signal_conns W P s outs p) iter" "\<forall>r \<in> set ps. signal_from W P s outs p r"
    and "push_all s ps iter = Some iter'"
  shows "\<exists>es. iter' = es @ iter \<and> on_the_way s (signal_conns W P s outs p) iter'"
  using assms(2-4)
proof (induction ps arbitrary: iter)
  case (Cons a ps)
  obtain x i where a: "a = (x, i)" by (cases a)
  with Cons.prems obtain iter1 where "graph_iterator_push s x i iter = Some iter1" "push_all s ps iter1 = Some iter'"
    by (cases "graph_iterator_push s x i iter") auto
  with push_on_the_way [OF assms(1) Cons.prems(1), of x i] Cons.IH [of iter1] Cons.prems(2) a show ?case by auto
qed simp

lemma step_on_the_way:
  assumes "linked s outs ins" "graph_iterator_step W P s iter = Some iter'" "on_the_way s (signal_conns W P s outs p) iter"
  shows "on_the_way s (signal_conns W P s outs p) iter'"
proof -
  let ?C = "signal_conns W P s outs p"
  let ?Q = "\<lambda>a r. case a of (((W', P'), s'), iter) \<Rightarrow>
    W' = W \<longrightarrow> P' = P \<longrightarrow> s' = s \<longrightarrow> on_the_way s ?C iter \<longrightarrow> on_the_way s ?C r"
  have "?Q (((W, P), s), iter) iter'"
  proof (rule graph_iterator_step.raw_induct [OF _ assms(2)])
    fix step W' P' s' iter r
    assume IH: "\<And>W P s iter r. step W P s iter = Some r \<Longrightarrow> ?Q (((W, P), s), iter) r"
      and r: "(case iter of [] \<Rightarrow> Some []
        | e # rest \<Rightarrow> (case se_connection e of None \<Rightarrow> step W' P' s' rest
            | Some c \<Rightarrow> Option.bind (conns s' c)
                (\<lambda>k. if propagates W' (c_dst k)
                      then Option.bind (push_all s' (P' (c_dst k) (c_winlet k)) iter)
                             (\<lambda>iter'. step W' P' s' (skip_thru (length iter' - length iter) c (next_same_src k) iter'))
                      else Some iter))) = Some r"
    have "on_the_way s ?C r" if *: "W' = W" "P' = P" "s' = s" "on_the_way s ?C iter"
    proof (cases iter)
      case (Cons e rest)
      show ?thesis
      proof (cases "se_connection e")
        case None
        with r IH [of W P s rest r] * Cons show ?thesis by (auto simp: on_the_way_def)
      next
        case (Some c)
        with r * Cons obtain k where k: "conns s c = Some k" by (cases "conns s c") auto
        show ?thesis
        proof (cases "propagates W (c_dst k)")
          case True
          with r * Cons Some k obtain iter1 where iter1: "push_all s (P (c_dst k) (c_winlet k)) iter = Some iter1"
            "step W P s (skip_thru (length iter1 - length iter) c (next_same_src k) iter1) = Some r"
            by (cases "push_all s (P (c_dst k) (c_winlet k)) iter") auto
          have "c \<in> ?C" using on_the_way_next(1) [of s ?C "[]" e rest c k] * Cons Some k by (metis append_Nil select_convs(3))
          then have "\<forall>r \<in> set (P (c_dst k) (c_winlet k)). signal_from W P s outs p r"
            using signal_conns_through [OF _ k True] by blast
          then obtain es where es: "iter1 = es @ iter" "on_the_way s ?C iter1"
            using push_all_on_the_way [OF assms(1) *(4) _ iter1(1)] by blast
          let ?e = "e\<lparr>se_connection_to_thru := Some c, se_connection := next_same_src k\<rparr>"
          have "on_the_way s ?C (es @ ?e # rest)"
            using on_the_way_next(2) [of s ?C es e rest c k ?e] es Cons Some k by simp
          then show ?thesis
            using IH [OF iter1(2)] skip_thru_eq [of es e rest c "next_same_src k"] by (simp add: es(1) Cons)
        qed (use r * Cons Some k in auto)
      qed
    qed (use r * in auto)
    then show "?Q (((W', P'), s'), iter) r" by simp
  qed
  then show ?thesis using assms(3) by simp
qed

lemma next_on_the_way:
  assumes "linked s outs ins" "graph_iterator_next W P s iter = Some iter'" "on_the_way s (signal_conns W P s outs p) iter"
  shows "on_the_way s (signal_conns W P s outs p) iter'"
proof -
  obtain e rest where iter: "iter = e # rest" using assms(2) by (cases iter) (auto simp: graph_iterator_next_def)
  show ?thesis
  proof (cases "se_connection e")
    case None
    then show ?thesis using assms step_on_the_way by (auto simp: graph_iterator_next_def iter)
  next
    case (Some c)
    then obtain k where k: "conns s c = Some k" "graph_iterator_step W P s (e\<lparr>se_connection := next_same_src k\<rparr> # rest) = Some iter'"
      using assms(2) by (cases "conns s c") (auto simp: graph_iterator_next_def iter)
    have "on_the_way s (signal_conns W P s outs p) (e\<lparr>se_connection := next_same_src k\<rparr> # rest)"
      using on_the_way_next(2) [of s "signal_conns W P s outs p" "[]" e rest c k] assms(3) Some k(1) by (simp add: iter)
    with assms(1) k(2) show ?thesis by (blast intro: step_on_the_way)
  qed
qed

definition visits :: "patch \<Rightarrow> cid set \<Rightarrow> (obj \<times> int) set" where
  "visits s C = {(c_dst k, c_winlet k) | c k. c \<in> C \<and> conns s c = Some k}"

lemma current_on_the_way:
  assumes "graph_iterator_get_current s iter = Some d" "on_the_way s C iter"
  shows "d \<in> visits s C"
proof -
  obtain e rest c k where iter: "iter = e # rest" "se_connection e = Some c" "conns s c = Some k" "d = (c_dst k, c_winlet k)"
    using assms(1) by (auto simp: graph_iterator_get_current_def split: list.splits bind_splits)
  then have "c \<in> C" using on_the_way_next(1) [of s C "[]" e rest c k "e\<lparr>se_connection := next_same_src k\<rparr>"] assms(2) by simp
  with iter show ?thesis by (auto simp: visits_def)
qed

lemma walk_on_the_way:
  assumes "linked s outs ins" "graph_walk W P s iter = Some ds" "on_the_way s (signal_conns W P s outs p) iter"
  shows "set ds \<subseteq> visits s (signal_conns W P s outs p)"
proof -
  let ?C = "signal_conns W P s outs p"
  let ?Q = "\<lambda>a ds. case a of (((W', P'), s'), iter) \<Rightarrow>
    W' = W \<longrightarrow> P' = P \<longrightarrow> s' = s \<longrightarrow> on_the_way s ?C iter \<longrightarrow> set ds \<subseteq> visits s ?C"
  have "?Q (((W, P), s), iter) ds"
  proof (rule graph_walk.raw_induct [OF _ assms(2)])
    fix walk W' P' s' iter ds
    assume IH: "\<And>W P s iter r. walk W P s iter = Some r \<Longrightarrow> ?Q (((W, P), s), iter) r"
      and ds: "(if iter = [] then Some []
        else Option.bind (graph_iterator_get_current s' iter)
          (\<lambda>d. Option.bind (graph_iterator_next W' P' s' iter)
            (\<lambda>iter'. Option.bind (walk W' P' s' iter') (\<lambda>ds. Some (d # ds))))) = Some ds"
    have "set ds \<subseteq> visits s ?C" if *: "W' = W" "P' = P" "s' = s" "on_the_way s ?C iter"
    proof (cases "iter = []")
      case False
      with ds * obtain d iter' ds' where d: "graph_iterator_get_current s iter = Some d"
        "graph_iterator_next W P s iter = Some iter'" "walk W P s iter' = Some ds'" "ds = d # ds'"
        by (auto split: bind_splits)
      have "on_the_way s ?C iter'" using assms(1) d(2) *(4) by (rule next_on_the_way)
      with IH [OF d(3)] current_on_the_way [OF d(1) *(4)] d(4) show ?thesis by simp
    qed (use ds in simp)
    then show "?Q (((W', P'), s'), iter) ds" by simp
  qed
  then show ?thesis using assms(3) by simp
qed

text \<open>
  The objects that the iterator visits are reached from the outlet through connections and objects
  that propagate, and do not propagate themselves.
\<close>

lemma graph_successors_sound:
  assumes "linked s outs ins" "graph_successors W P s x i = Some ds"
  shows "set ds \<subseteq> visits s (signal_conns W P s outs (x, i))"
proof -
  obtain es iter where es: "graph_iterator_push s x i [] = Some es" "graph_iterator_step W P s es = Some iter" "graph_walk W P s iter = Some ds"
    using assms(2) by (auto simp: graph_successors_def graph_iterator_init_def split: bind_splits)
  have "on_the_way s (signal_conns W P s outs (x, i)) es"
    using push_on_the_way [OF assms(1) _ _ es(1), of W P "(x, i)"] by (auto simp: on_the_way_def intro: here)
  then show ?thesis using es step_on_the_way [OF assms(1)] walk_on_the_way [OF assms(1)] by blast
qed

text \<open>Without objects that propagate, it visits the connections of the outlet, in their order.\<close>

lemma plain_walk:
  assumes "linked_list (nxt_src s) p cs" "\<forall>c \<in> set cs. \<exists>k. conns s c = Some k \<and> \<not> propagates W (c_dst k)" "se_connection e = p"
  shows "Option.bind (graph_iterator_step W P s [e]) (graph_walk W P s)
    = Some (map (\<lambda>c. (c_dst (the (conns s c)), c_winlet (the (conns s c)))) cs)"
  using assms
proof (induction cs arbitrary: p e)
  case Nil
  have "graph_iterator_step W P s [] = Some []" by (subst graph_iterator_step.simps) simp
  with Nil have "graph_iterator_step W P s [e] = Some []" by (subst graph_iterator_step.simps) simp
  moreover have "graph_walk W P s [] = Some []" by (subst graph_walk.simps) simp
  ultimately show ?case by simp
next
  case (Cons c cs)
  then obtain k where k: "conns s c = Some k" "\<not> propagates W (c_dst k)" "se_connection e = Some c" by auto
  let ?e = "e\<lparr>se_connection := next_same_src k\<rparr>"
  have "Option.bind (graph_iterator_step W P s [?e]) (graph_walk W P s)
    = Some (map (\<lambda>c. (c_dst (the (conns s c)), c_winlet (the (conns s c)))) cs)"
    using Cons.prems k(1) by (intro Cons.IH [of "next_same_src k"]) (auto simp: nxt_src_def)
  then obtain iter' where "graph_iterator_step W P s [?e] = Some iter'"
    "graph_walk W P s iter' = Some (map (\<lambda>c. (c_dst (the (conns s c)), c_winlet (the (conns s c)))) cs)"
    by (auto split: bind_splits)
  then have "graph_walk W P s [e] = Some (map (\<lambda>c. (c_dst (the (conns s c)), c_winlet (the (conns s c)))) (c # cs))"
    using k by (subst graph_walk.simps) (simp add: graph_iterator_get_current_def graph_iterator_next_def)
  moreover have "graph_iterator_step W P s [e] = Some [e]" using k by (subst graph_iterator_step.simps) simp
  ultimately show ?case by simp
qed

lemma graph_successors_plain:
  assumes "linked s outs ins" "out_head s x i \<noteq> None"
    and "\<forall>c \<in> set (outs (x, i)). \<forall>k. conns s c = Some k \<longrightarrow> \<not> propagates W (c_dst k)"
  shows "graph_successors W P s x i = Some (map (\<lambda>c. (c_dst (the (conns s c)), c_winlet (the (conns s c)))) (outs (x, i)))"
proof -
  obtain p where p: "out_head s x i = Some p" using assms(2) by blast
  let ?e = "\<lparr>se_object = x, se_connection_to_thru = None, se_connection = p\<rparr>"
  have "\<forall>c \<in> set (outs (x, i)). \<exists>k. conns s c = Some k \<and> \<not> propagates W (c_dst k)"
    using assms(3) outs_conns [OF linked_parts(4) [OF assms(1)]] by fast
  from plain_walk [OF out_list [OF assms(1) p] this, of ?e] p show ?thesis
    by (simp add: graph_successors_def graph_iterator_init_def graph_iterator_push_def)
qed

end
