(* ===== verification/DspPatch.thy ===== *)
theory DspPatch
  imports DspSchedule GraphIterator PatchGraph
begin

text \<open>
  The signal objects of a patch (\<open>fts/dsp.c\<close>) and what the compiler of the DSP graph reads of the
  patch: the edges are those that the graph iterator finds on the linked lists of the connections.
\<close>

definition signal_type :: "patch_world \<Rightarrow> class_ref option" where
  "signal_type W = Some (UserClass (w_signal_class W))"

definition fts_dsp_declare_inlet :: "patch_world \<Rightarrow> fts_method \<Rightarrow> fts_class \<Rightarrow> int \<Rightarrow> fts_class option" where
  "fts_dsp_declare_inlet W default_method cl num = fts_class_inlet cl num (signal_type W) (Some default_method)"

definition fts_dsp_declare_outlet :: "patch_world \<Rightarrow> fts_class \<Rightarrow> int \<Rightarrow> fts_class option" where
  "fts_dsp_declare_outlet W cl num = fts_class_outlet cl num (signal_type W)"

definition fts_dsp_is_sig_inlet :: "patch_world \<Rightarrow> obj \<Rightarrow> int \<Rightarrow> bool" where
  "fts_dsp_is_sig_inlet W x num \<longleftrightarrow> fts_class_get_inlet_method (object_class W x) num (signal_type W) \<noteq> None"

definition fts_dsp_is_sig_outlet :: "patch_world \<Rightarrow> obj \<Rightarrow> int \<Rightarrow> bool option" where
  "fts_dsp_is_sig_outlet W x num = fts_class_outlet_has_type (w_env W) (object_class W x) num (signal_type W)"

text \<open>The order forcing connections around an edge object.\<close>

definition fts_c_order_forcing :: int where "fts_c_order_forcing = - 3"

definition fts_dsp_after_edge :: "patch_world \<Rightarrow> obj \<Rightarrow> obj \<Rightarrow> patch \<Rightarrow> (cid option \<times> patch) option" where
  "fts_dsp_after_edge W x edge s = fts_connection_new W edge 0 x 0 fts_c_order_forcing s"

definition fts_dsp_before_edge :: "patch_world \<Rightarrow> obj \<Rightarrow> obj \<Rightarrow> patch \<Rightarrow> (cid option \<times> patch) option" where
  "fts_dsp_before_edge W x edge s = fts_connection_new W x 0 edge 0 fts_c_order_forcing s"

text \<open>The number of signal inlets and outlets: those before the first that is not one.\<close>

fun count_while :: "(int \<Rightarrow> bool option) \<Rightarrow> int list \<Rightarrow> int \<Rightarrow> int option" where
  "count_while p [] i = Some i"
| "count_while p (j # js) i =
     (case p j of None \<Rightarrow> None | Some b \<Rightarrow> if b then count_while p js (j + 1) else Some j)"

definition dsp_object_get_n_inlets :: "patch_world \<Rightarrow> patch \<Rightarrow> obj \<Rightarrow> int option" where
  "dsp_object_get_n_inlets W s x =
     count_while (\<lambda>i. Some (fts_dsp_is_sig_inlet W x i)) [0..fts_object_get_inlets_number x s - 1] 0"

definition dsp_object_get_n_outlets :: "patch_world \<Rightarrow> patch \<Rightarrow> obj \<Rightarrow> int option" where
  "dsp_object_get_n_outlets W s x =
     count_while (fts_dsp_is_sig_outlet W x) [0..fts_object_get_outlets_number x s - 1] 0"

definition fts_is_dsp_object :: "patch_world \<Rightarrow> addr \<Rightarrow> obj \<Rightarrow> bool" where
  "fts_is_dsp_object W s_put x \<longleftrightarrow> fts_class_get_method_varargs (object_class W x) s_put \<noteq> None"

record dsp_descr =
  dd_ninputs :: int
  dd_noutputs :: int

record dsp_objects =
  do_descr :: "obj \<rightharpoonup> dsp_descr"
  do_objects :: "obj list"

text \<open>A signal object whose class has no \<open>put\<close> method gives the class one that does nothing.\<close>

definition fts_dsp_object_init ::
  "addr \<Rightarrow> fts_method \<Rightarrow> obj \<Rightarrow> patch_world \<times> patch \<times> dsp_objects \<Rightarrow> (patch_world \<times> patch \<times> dsp_objects) option" where
  "fts_dsp_object_init s_put default_method x = (\<lambda>(W, s, G). do {
     let s = fts_object_get_patcher_data W x s;
     ninputs \<leftarrow> dsp_object_get_n_inlets W s x;
     noutputs \<leftarrow> dsp_object_get_n_outlets W s x;
     cl \<leftarrow> (if fts_is_dsp_object W s_put x then Some (object_class W x)
            else fts_class_message (\<lambda>cl. cl) (object_class W x) s_put None (Some default_method));
     Some (W\<lparr>w_classes := (w_classes W)(obj_class (w_env W) x := cl)\<rparr>, s,
           G\<lparr>do_descr := (do_descr G)(x \<mapsto> \<lparr>dd_ninputs = ninputs, dd_noutputs = noutputs\<rparr>),
             do_objects := fts_dsp_graph_add_object x (do_objects G)\<rparr>) })"

definition fts_dsp_object_delete :: "obj \<Rightarrow> dsp_objects \<times> dsp_state \<Rightarrow> dsp_objects \<times> dsp_state" where
  "fts_dsp_object_delete x = (\<lambda>(G, st).
     (let (objects, st') = fts_dsp_graph_remove_object x (do_objects G, st)
      in (G\<lparr>do_objects := objects, do_descr := (do_descr G)(x := None)\<rparr>, st')))"

text \<open>What the compiler reads; a read that is undefined does not occur (\<open>patch_edges_defined\<close>).\<close>

definition patch_edges ::
  "patch_world \<Rightarrow> (obj \<Rightarrow> int \<Rightarrow> (obj \<times> int) list) \<Rightarrow> addr \<Rightarrow> patch \<Rightarrow> obj \<Rightarrow> nat \<Rightarrow> (obj \<times> int) list" where
  "patch_edges W P s_put s x i =
     (case graph_successors W P s x (int i) of None \<Rightarrow> []
      | Some ds \<Rightarrow> filter (\<lambda>(y, j). fts_is_dsp_object W s_put y) ds)"

definition patch_forcing :: "patch \<Rightarrow> obj \<Rightarrow> nat \<Rightarrow> obj \<Rightarrow> int \<Rightarrow> bool" where
  "patch_forcing s x i y j =
     (case fts_connection_get x (int i) y j s of
        Some (Some c) \<Rightarrow> (case conns s c of Some k \<Rightarrow> c_type k = fts_c_order_forcing | None \<Rightarrow> False)
      | _ \<Rightarrow> False)"

definition descr :: "dsp_objects \<Rightarrow> obj \<Rightarrow> dsp_descr" where
  "descr G x = (case do_descr G x of None \<Rightarrow> \<lparr>dd_ninputs = 0, dd_noutputs = 0\<rparr> | Some d \<Rightarrow> d)"

definition dsp_world_of ::
  "patch_world \<Rightarrow> (obj \<Rightarrow> int \<Rightarrow> (obj \<times> int) list) \<Rightarrow> addr \<Rightarrow> patch \<Rightarrow> dsp_objects \<Rightarrow> (obj \<Rightarrow> int) \<Rightarrow> dsp_world" where
  "dsp_world_of W P s_put s G resamp =
     \<lparr>dw_edges = patch_edges W P s_put s, dw_forcing = patch_forcing s, dw_ninputs = \<lambda>x. nat (dd_ninputs (descr G x)),
      dw_noutputs = \<lambda>x. nat (dd_noutputs (descr G x)), dw_resamp = resamp\<rparr>"

subsection \<open>The numbers of signal ports\<close>

lemma count_while_range:
  "count_while p [a..b] a = Some n \<Longrightarrow> a \<le> b + 1 \<Longrightarrow> a \<le> n \<and> n \<le> b + 1 \<and> (\<forall>i. a \<le> i \<and> i < n \<longrightarrow> p i = Some True)"
proof (induction "nat (b + 1 - a)" arbitrary: a)
  case 0
  then have "n = a" "b + 1 = a" by simp_all
  then show ?case by auto
next
  case (Suc m)
  then have "a \<le> b" by simp
  then have "[a..b] = a # [a + 1..b]" by (rule upto_rec1)
  with Suc.prems consider "p a = Some False" "n = a" | "p a = Some True" "count_while p [a + 1..b] (a + 1) = Some n"
    by (auto split: option.splits if_splits)
  then show ?case
  proof cases
    case 1
    with \<open>a \<le> b\<close> show ?thesis by auto
  next
    case 2
    have ih: "a + 1 \<le> n \<and> n \<le> b + 1 \<and> (\<forall>i. a + 1 \<le> i \<and> i < n \<longrightarrow> p i = Some True)"
      using Suc.hyps(2) \<open>a \<le> b\<close> by (intro Suc.hyps(1) 2) simp_all
    have "p i = Some True" if "a \<le> i" "i < n" for i
      using that ih 2(1) by (cases "i = a") auto
    with ih show ?thesis by auto
  qed
qed

lemma dsp_object_init_ports:
  assumes "arrays_ok (fts_object_get_patcher_data W x s)" "fts_dsp_object_init s_put m x (W, s, G) = Some (W', s', G')"
  shows "\<exists>d. do_descr G' x = Some d \<and> do_objects G' = x # do_objects G \<and> s' = fts_object_get_patcher_data W x s
    \<and> 0 \<le> dd_ninputs d \<and> dd_ninputs d \<le> fts_object_get_inlets_number x s'
    \<and> 0 \<le> dd_noutputs d \<and> dd_noutputs d \<le> fts_object_get_outlets_number x s'
    \<and> (\<forall>i. 0 \<le> i \<and> i < dd_ninputs d \<longrightarrow> fts_dsp_is_sig_inlet W x i)
    \<and> (\<forall>i. 0 \<le> i \<and> i < dd_noutputs d \<longrightarrow> fts_dsp_is_sig_outlet W x i = Some True)"
proof -
  let ?s = "fts_object_get_patcher_data W x s"
  have "0 \<le> fts_object_get_inlets_number x ?s" "0 \<le> fts_object_get_outlets_number x ?s"
    using assms(1)
    by (auto simp: fts_object_get_inlets_number_def fts_object_get_outlets_number_def arrays_ok_def split: option.splits)
  with assms(2) show ?thesis
    by (auto simp: fts_dsp_object_init_def Let_def dsp_object_get_n_inlets_def dsp_object_get_n_outlets_def
        fts_dsp_graph_add_object_def dest!: count_while_range split: bind_splits if_splits)
qed

subsection \<open>The edges of a patch\<close>

text \<open>
  The outlets that the signals of an outlet come through: the outlet itself and those that a propagating
  object at the end of a connection pushes. \<open>H\<close> is the graph of the patch.
\<close>

inductive g_signal_from :: "patch_world \<Rightarrow> (obj \<Rightarrow> int \<Rightarrow> (obj \<times> int) list) \<Rightarrow> graph \<Rightarrow> obj \<times> int \<Rightarrow> obj \<times> int \<Rightarrow> bool"
  for W P H p where
  g_here: "g_signal_from W P H p p"
| g_through: "g_signal_from W P H p q \<Longrightarrow> (y, j, t) \<in> set (g_targets H q) \<Longrightarrow> propagates W y \<Longrightarrow> r \<in> set (P y j) \<Longrightarrow>
    g_signal_from W P H p r"

text \<open>
  The signal objects have been registered, and where the signals of one of them reach a signal object,
  it is a registered one and a signal inlet. Other connections, like those of control outlets, may end
  anywhere.
\<close>

definition dsp_patch_ok :: "patch_world \<Rightarrow> (obj \<Rightarrow> int \<Rightarrow> (obj \<times> int) list) \<Rightarrow> addr \<Rightarrow> graph \<Rightarrow> dsp_objects \<Rightarrow> bool" where
  "dsp_patch_ok W P s_put H G \<longleftrightarrow>
     distinct (do_objects G)
     \<and> list_all (\<lambda>x. dd_noutputs (descr G x) \<le> g_outlets H x) (do_objects G)
     \<and> (\<forall>x i q. x \<in> set (do_objects G) \<longrightarrow> int i < dd_noutputs (descr G x) \<longrightarrow> g_signal_from W P H (x, int i) q \<longrightarrow>
          list_all (\<lambda>(y, j, _). fts_is_dsp_object W s_put y \<longrightarrow>
            y \<in> set (do_objects G) \<and> 0 \<le> j \<and> j < dd_ninputs (descr G y)) (g_targets H q))"

lemma signal_from_graph:
  assumes "models s outs ins H" "signal_from W P s outs p q"
  shows "g_signal_from W P H p q"
  using assms(2)
proof induction
  case here
  show ?case by (rule g_here)
next
  case (through q c k r)
  have "target s c = (c_dst k, c_winlet k, c_type k)" using through(3) by (simp add: target_def)
  moreover have "g_targets H q = map (target s) (outs q)" using assms(1) unfolding models_def by blast
  ultimately have "(c_dst k, c_winlet k, c_type k) \<in> set (g_targets H q)" using through(2) by force
  with through show ?case by (blast intro: g_through)
qed

text \<open>What the objects push are outlets that there are, of finitely many objects.\<close>

definition pushes_within :: "graph \<Rightarrow> obj set \<Rightarrow> (obj \<Rightarrow> int \<Rightarrow> (obj \<times> int) list) \<Rightarrow> bool" where
  "pushes_within H N P \<longleftrightarrow> finite N \<and> (\<forall>x i. list_all (\<lambda>(y, j). y \<in> N \<and> 0 \<le> j \<and> j < g_outlets H y) (P x i))"

lemma out_head_defined:
  assumes "models s outs ins H" "0 \<le> i" "i < g_outlets H x"
  shows "out_head s x i \<noteq> None"
proof -
  have "i < fts_object_get_outlets_number x s" using assms(3) by (simp add: models_numbers [OF assms(1)])
  with assms(2) linked_parts(1) [OF models_linked [OF assms(1)]] show ?thesis
    by (auto simp: fts_object_get_outlets_number_def out_head_def arrays_ok_def split: option.splits)
qed

lemma pushes_withinD:
  assumes "models s outs ins H" "pushes_within H N P"
  shows "finite N" "pushes_ok s N P"
  using assms(2) out_head_defined [OF assms(1)] by (fastforce simp: pushes_within_def pushes_ok_def list_all_iff)+

lemma patch_edges_defined:
  assumes "models s outs ins H" "pushes_within H N P" "dsp_patch_ok W P s_put H G" "x \<in> set (do_objects G)"
    and "i < dw_noutputs (dsp_world_of W P s_put s G resamp) x"
  shows "\<exists>ds. graph_successors W P s x (int i) = Some ds \<and> patch_edges W P s_put s x i = filter (\<lambda>(y, j). fts_is_dsp_object W s_put y) ds"
proof -
  have "int i < g_outlets H x" using assms(3-5) by (auto simp: dsp_patch_ok_def dsp_world_of_def list_all_iff)
  then have "out_head s x (int i) \<noteq> None" by (intro out_head_defined [OF assms(1)]) simp_all
  from graph_successors_return [OF models_linked [OF assms(1)] pushes_withinD [OF assms(1,2)] this, of W]
  show ?thesis by (auto simp: patch_edges_def)
qed

lemma patch_edges_into:
  assumes "models s outs ins H" "dsp_patch_ok W P s_put H G" "x \<in> set (do_objects G)" "int i < dd_noutputs (descr G x)"
    and "(y, j) \<in> set (patch_edges W P s_put s x i)"
  shows "y \<in> set (do_objects G) \<and> 0 \<le> j \<and> j < dd_ninputs (descr G y)"
proof -
  from assms(5) obtain ds where "graph_successors W P s x (int i) = Some ds" "(y, j) \<in> set ds" and y: "fts_is_dsp_object W s_put y"
    by (cases "graph_successors W P s x (int i)") (auto simp: patch_edges_def)
  then obtain p c k where c: "signal_from W P s outs (x, int i) p" "c \<in> set (outs p)" "conns s c = Some k" "y = c_dst k" "j = c_winlet k"
    using graph_successors_sound [OF models_linked [OF assms(1)], of W P x "int i" ds]
    by (fastforce simp: visits_def signal_conns_def)
  then have "(y, j, c_type k) = target s c" by (simp add: target_def)
  moreover have "g_targets H p = map (target s) (outs p)" using assms(1) unfolding models_def by blast
  ultimately have "(y, j, c_type k) \<in> set (g_targets H p)" using c(2) by simp
  moreover have "list_all (\<lambda>(y, j, _). fts_is_dsp_object W s_put y \<longrightarrow>
      y \<in> set (do_objects G) \<and> 0 \<le> j \<and> j < dd_ninputs (descr G y)) (g_targets H p)"
    using assms(2-4) signal_from_graph [OF assms(1) c(1)] unfolding dsp_patch_ok_def by blast
  ultimately show ?thesis using y by (auto simp: list_all_iff)
qed

lemma dsp_world_graph_ok:
  assumes "models s outs ins H" "dsp_patch_ok W P s_put H G" "\<forall>x \<in> set (do_objects G). resamp x = 0"
  shows "graph_ok (dsp_world_of W P s_put s G resamp) (do_objects G)"
proof -
  let ?D = "dsp_world_of W P s_put s G resamp"
  have "edge_into ?D (set (do_objects G)) e" if x: "x \<in> set (do_objects G)" and e: "e \<in> set (out_edges ?D x)" for e x
  proof -
    obtain i y j where "e = (i, y, j)" "(y, j) \<in> set (patch_edges W P s_put s x i)" "int i < dd_noutputs (descr G x)"
      using e by (auto simp: out_edges_def dsp_world_of_def)
    with patch_edges_into [OF assms(1,2) x] show ?thesis by (fastforce simp: edge_into_def dsp_world_of_def)
  qed
  moreover have "dw_resamp ?D x = 0" if "x \<in> set (do_objects G)" for x using assms(3) that by (simp add: dsp_world_of_def)
  moreover have "distinct (do_objects G)" using assms(2) by (simp add: dsp_patch_ok_def)
  ultimately show ?thesis by (simp add: graph_ok_def)
qed

text \<open>In a patch without objects that propagate, the edges are the connections to signal objects.\<close>

lemma patch_edges_plain:
  assumes "linked s outs ins" "out_head s x (int i) \<noteq> None" "\<forall>y. \<not> propagates W y"
  shows "patch_edges W P s_put s x i =
    filter (\<lambda>(y, j). fts_is_dsp_object W s_put y) (map (\<lambda>c. (c_dst (the (conns s c)), c_winlet (the (conns s c)))) (outs (x, int i)))"
  using graph_successors_plain [OF assms(1,2), of W P] assms(3) by (simp add: patch_edges_def)

end
