(* ===== verification/Bmax.thy ===== *)
theory Bmax
  imports Atom "HOL-Library.Sublist"
begin

text \<open>
  The binary files of patchers (\<open>fts/bmaxfile.c\<close>, \<open>include/ftsprivate/bmaxfile.h\<close>): the stack machine that runs
  the code of a file, and the saver that generates the code.

  The stacks of the machine are lists, with the top first, of at most the size of the arrays of the
  C code. Going beyond a stack, reading a slot of the object table that was not written, an index
  outside of a table and running out of the code are \<^const>\<open>None\<close>. When the last object table is
  popped the C code reads one element beyond its array and keeps it as the current table; here
  there is no current table then.

  What the objects do is in \<open>loader_ops\<close>, for any type \<open>'w\<close> of the state of the world: creating an
  object from a description, sending a message, setting a property, connecting. Any of them may redefine
  other objects; \<open>lo_redefined L w w'\<close> lists what was redefined between the states \<open>w\<close> and \<open>w'\<close>, with
  the new object, and the machine is told of it by \<open>fts_vm_substitute_object\<close>. Symbols are
  addresses, \<open>be_sym\<close> gives the address of a name that the system knows. \<open>be_float\<close> and \<open>be_double\<close> are
  the conversions between \<open>double\<close> and \<open>float\<close>.
\<close>

type_synonym sym = addr

record bmax_env =
  be_sym :: "string \<Rightarrow> sym"
  be_float :: "double \<Rightarrow> int32"
  be_double :: "int32 \<Rightarrow> double"

record 'w loader_ops =
  lo_eval :: "addr \<Rightarrow> atom list \<Rightarrow> 'w \<Rightarrow> addr \<times> 'w"
  lo_send :: "addr \<Rightarrow> sym \<Rightarrow> atom list \<Rightarrow> 'w \<Rightarrow> 'w"
  lo_put_prop :: "addr \<Rightarrow> sym \<Rightarrow> atom \<Rightarrow> 'w \<Rightarrow> 'w"
  lo_connect :: "addr \<Rightarrow> int32 \<Rightarrow> addr \<Rightarrow> int32 \<Rightarrow> 'w \<Rightarrow> 'w"
  lo_is_patcher :: "addr \<Rightarrow> 'w \<Rightarrow> bool"
  lo_set_scope :: "addr \<Rightarrow> 'w \<Rightarrow> 'w"
  lo_redefined :: "'w \<Rightarrow> 'w \<Rightarrow> (addr \<times> addr) list"

subsection \<open>Opcodes and arguments\<close>

definition FVM_N_ARG :: byte where "FVM_N_ARG = 0x00"
definition FVM_B_ARG :: byte where "FVM_B_ARG = 0x40"
definition FVM_S_ARG :: byte where "FVM_S_ARG = 0x80"
definition FVM_L_ARG :: byte where "FVM_L_ARG = 0xc0"

definition FVM_RETURN :: byte where "FVM_RETURN = 0"
definition FVM_PUSH_INT :: byte where "FVM_PUSH_INT = 1"
definition FVM_PUSH_FLOAT :: byte where "FVM_PUSH_FLOAT = 2"
definition FVM_PUSH_SYM :: byte where "FVM_PUSH_SYM = 3"
definition FVM_SET_INT :: byte where "FVM_SET_INT = 5"
definition FVM_SET_FLOAT :: byte where "FVM_SET_FLOAT = 6"
definition FVM_SET_SYM :: byte where "FVM_SET_SYM = 7"
definition FVM_POP_ARGS :: byte where "FVM_POP_ARGS = 9"
definition FVM_PUSH_OBJ :: byte where "FVM_PUSH_OBJ = 10"
definition FVM_MV_OBJ :: byte where "FVM_MV_OBJ = 11"
definition FVM_POP_OBJS :: byte where "FVM_POP_OBJS = 12"
definition FVM_MAKE_OBJ :: byte where "FVM_MAKE_OBJ = 13"
definition FVM_PUT_PROP :: byte where "FVM_PUT_PROP = 14"
definition FVM_OBJ_MESS :: byte where "FVM_OBJ_MESS = 16"
definition FVM_PUSH_OBJ_TABLE :: byte where "FVM_PUSH_OBJ_TABLE = 18"
definition FVM_POP_OBJ_TABLE :: byte where "FVM_POP_OBJ_TABLE = 19"
definition FVM_CONNECT :: byte where "FVM_CONNECT = 20"
definition FVM_MAKE_TOP_OBJ :: byte where "FVM_MAKE_TOP_OBJ = 21"

text \<open>The macros that read an argument, and how many bytes are skipped.\<close>

fun GET_B :: "byte list \<Rightarrow> int32 option" where
  "GET_B (a # _) = Some (scast a)"
| "GET_B _ = None"

fun GET_S :: "byte list \<Rightarrow> int32 option" where
  "GET_S (a # b # _) = Some (scast (word_cat a b :: 16 word))"
| "GET_S _ = None"

fun GET_L :: "byte list \<Rightarrow> int32 option" where
  "GET_L (a # b # c # d # _) = Some (word_cat (word_cat a b :: 16 word) (word_cat c d :: 16 word))"
| "GET_L _ = None"

definition fvm_arg :: "byte \<Rightarrow> byte list \<Rightarrow> (int32 \<times> byte list) option" where
  "fvm_arg sz p =
     (if sz = FVM_B_ARG then map_option (\<lambda>v. (v, drop 1 p)) (GET_B p)
      else if sz = FVM_S_ARG then map_option (\<lambda>v. (v, drop 2 p)) (GET_S p)
      else map_option (\<lambda>v. (v, drop 4 p)) (GET_L p))"

subsection \<open>The machine\<close>

definition EVAL_STACK_DEPTH :: nat where "EVAL_STACK_DEPTH = 8192"
definition OBJECT_STACK_DEPTH :: nat where "OBJECT_STACK_DEPTH = 8192"
definition OBJECT_TABLE_STACK_DEPTH :: nat where "OBJECT_TABLE_STACK_DEPTH = 8192"

record bmax_vm =
  eval_stack :: "atom list"
  object_stack :: "addr list"
  object_tables :: "addr option list list"

definition push_eval :: "atom \<Rightarrow> bmax_vm \<Rightarrow> bmax_vm option" where
  "push_eval a vm = (if length (eval_stack vm) < EVAL_STACK_DEPTH then Some (vm\<lparr>eval_stack := a # eval_stack vm\<rparr>) else None)"

definition set_eval :: "atom \<Rightarrow> bmax_vm \<Rightarrow> bmax_vm option" where
  "set_eval a vm = (case eval_stack vm of [] \<Rightarrow> None | _ # es \<Rightarrow> Some (vm\<lparr>eval_stack := a # es\<rparr>))"

definition pop_eval :: "int32 \<Rightarrow> bmax_vm \<Rightarrow> bmax_vm option" where
  "pop_eval n vm =
     (if 0 \<le> sint n \<and> nat (sint n) \<le> length (eval_stack vm)
      then Some (vm\<lparr>eval_stack := drop (nat (sint n)) (eval_stack vm)\<rparr>) else None)"

definition eval_args :: "int \<Rightarrow> bmax_vm \<Rightarrow> atom list option" where
  "eval_args n vm =
     (if 0 \<le> n \<and> nat n \<le> length (eval_stack vm) then Some (take (nat n) (eval_stack vm)) else None)"

definition push_object :: "addr \<Rightarrow> bmax_vm \<Rightarrow> bmax_vm option" where
  "push_object x vm = (if length (object_stack vm) < OBJECT_STACK_DEPTH then Some (vm\<lparr>object_stack := x # object_stack vm\<rparr>) else None)"

definition top_object :: "bmax_vm \<Rightarrow> addr option" where
  "top_object vm = (case object_stack vm of [] \<Rightarrow> None | x # _ \<Rightarrow> Some x)"

definition pop_objects :: "int32 \<Rightarrow> bmax_vm \<Rightarrow> bmax_vm option" where
  "pop_objects n vm =
     (if 0 \<le> sint n \<and> nat (sint n) \<le> length (object_stack vm)
      then Some (vm\<lparr>object_stack := drop (nat (sint n)) (object_stack vm)\<rparr>) else None)"

definition table_get :: "int32 \<Rightarrow> bmax_vm \<Rightarrow> addr option" where
  "table_get i vm =
     (case object_tables vm of [] \<Rightarrow> None
      | t # _ \<Rightarrow> if 0 \<le> sint i \<and> nat (sint i) < length t then t ! nat (sint i) else None)"

definition table_put :: "int32 \<Rightarrow> addr \<Rightarrow> bmax_vm \<Rightarrow> bmax_vm option" where
  "table_put i x vm =
     (case object_tables vm of [] \<Rightarrow> None
      | t # ts \<Rightarrow> if 0 \<le> sint i \<and> nat (sint i) < length t
                  then Some (vm\<lparr>object_tables := t[nat (sint i) := Some x] # ts\<rparr>) else None)"

text \<open>A negative size is a huge one for \<open>malloc\<close>, which fails: no element of the table is there.\<close>

definition push_table :: "int32 \<Rightarrow> bmax_vm \<Rightarrow> bmax_vm option" where
  "push_table sz vm =
     (if length (object_tables vm) < OBJECT_TABLE_STACK_DEPTH
      then Some (vm\<lparr>object_tables := replicate (nat (sint sz)) None # object_tables vm\<rparr>) else None)"

definition pop_table :: "bmax_vm \<Rightarrow> bmax_vm option" where
  "pop_table vm = (case object_tables vm of [] \<Rightarrow> None | _ # ts \<Rightarrow> Some (vm\<lparr>object_tables := ts\<rparr>))"

text \<open>An object that is redefined while a file is loaded is replaced wherever the machine holds it.\<close>

definition fts_vm_substitute_object :: "addr \<Rightarrow> addr \<Rightarrow> bmax_vm \<Rightarrow> bmax_vm" where
  "fts_vm_substitute_object old new vm =
     vm\<lparr>object_stack := map (\<lambda>x. if x = old then new else x) (object_stack vm),
        object_tables := map (map (\<lambda>x. if x = Some old then Some new else x)) (object_tables vm)\<rparr>"

definition vm_redefined :: "'w loader_ops \<Rightarrow> 'w \<Rightarrow> 'w \<Rightarrow> bmax_vm \<Rightarrow> bmax_vm" where
  "vm_redefined L w w' vm = fold (\<lambda>(old, new). fts_vm_substitute_object old new) (lo_redefined L w w') vm"

definition table_symbol :: "sym list \<Rightarrow> int32 \<Rightarrow> sym option" where
  "table_symbol symbols i = (if 0 \<le> sint i \<and> nat (sint i) < length symbols then Some (symbols ! nat (sint i)) else None)"

subsection \<open>Files of version 1\<close>

text \<open>
  The loop that rewrites the description. The array \<open>a\<close> is as long as \<open>at\<close>, its elements are not
  initialised. The results are the new number of arguments, the array and the persistence.
\<close>

definition is_sym :: "sym \<Rightarrow> atom \<Rightarrow> bool" where
  "is_sym s a \<longleftrightarrow> a = ASymbol s"

function fix_scan :: "bmax_env \<Rightarrow> atom list \<Rightarrow> nat \<Rightarrow> atom option list \<Rightarrow> nat \<times> atom option list \<times> bool" where
  "fix_scan B at i a =
     (if length at \<le> i then (length at, a, False)
      else if is_sym (be_sym B ''{'') (at ! i) then fix_scan B at (i + 1) (a[i := Some (ASymbol (be_sym B ''(''))])
      else if is_sym (be_sym B ''}'') (at ! i) then fix_scan B at (i + 1) (a[i := Some (ASymbol (be_sym B '')''))])
      else if i > 0 \<and> is_sym (be_sym B ''='') (at ! i)
      then if is_sym (be_sym B ''keep'') (at ! (i - 1)) then (i - 1, a, True)
           else fix_scan B at (i + 1) (a[i := Some (at ! (i - 1)), i - 1 := Some (ASymbol (be_sym B '',''))])
      else fix_scan B at (i + 1) (a[i := Some (at ! i)]))"
  by pat_completeness auto
termination by (relation "measure (\<lambda>(B, at, i, a). length at - i)") auto

definition symbol_at :: "atom option list \<Rightarrow> nat \<Rightarrow> sym option" where
  "symbol_at a i = (if i < length a then case a ! i of Some (ASymbol s) \<Rightarrow> Some s | _ \<Rightarrow> None else None)"

text \<open>Reading an element that was not written is undefined.\<close>

definition read_atoms :: "nat \<Rightarrow> nat \<Rightarrow> atom option list \<Rightarrow> atom list option" where
  "read_atoms from n a =
     (let xs = take n (drop from a) in if length xs = n \<and> None \<notin> set xs then Some (map the xs) else None)"

definition send_rest :: "'w loader_ops \<Rightarrow> addr \<Rightarrow> sym \<Rightarrow> nat \<Rightarrow> nat \<Rightarrow> atom option list \<Rightarrow> 'w \<Rightarrow> 'w option" where
  "send_rest L x s from n a w = map_option (\<lambda>args. lo_send L x s args w) (read_atoms from n a)"

definition fix_eval_object_description ::
  "bmax_env \<Rightarrow> 'w loader_ops \<Rightarrow> addr \<Rightarrow> atom list \<Rightarrow> 'w \<Rightarrow> (addr \<times> 'w) option" where
  "fix_eval_object_description B L patcher at w =
     (let (ac0, a0, persistence) = fix_scan B at 0 (replicate (length at) None);
          named = 3 \<le> ac0 \<and> symbol_at a0 1 = Some (be_sym B '':'') \<and> symbol_at a0 2 \<noteq> None;
          (ac, a) = (if named then (ac0 - 2, drop 2 a0) else (ac0, a0))
      in do {
        class_name \<leftarrow> (if named then symbol_at a0 2 else symbol_at (map Some at) 0);
        if class_name = be_sym B ''jpatcher'' then do {
          args \<leftarrow> read_atoms 0 1 a;
          let (x, w1) = lo_eval L patcher args w;
          w2 \<leftarrow> (if ac > 1 then send_rest L x (be_sym B ''set_arguments'') 1 (ac - 1) a w1 else Some w1);
          Some (x, w2) }
        else if class_name = be_sym B ''comment'' then do {
          let (x, w1) = lo_eval L patcher [ASymbol (be_sym B ''jcomment'')] w;
          w2 \<leftarrow> (if ac > 1 then send_rest L x (be_sym B ''set'') 1 (ac - 1) a w1 else Some w1);
          Some (x, w2) }
        else do {
          (x, w1) \<leftarrow> (if class_name = be_sym B ''const'' then do {
                         let (x, w1) = lo_eval L patcher [ASymbol (be_sym B ''define'')] w;
                         w2 \<leftarrow> send_rest L x (be_sym B ''set'') 0 ac a w1;
                         Some (x, w2) }
                       else Some (lo_eval L patcher (take ac at) w));
          w2 \<leftarrow> (if named then map_option (\<lambda>n. lo_send L x (be_sym B ''name'') [ASymbol n] w1) (symbol_at a0 0) else Some w1);
          let w3 = (if persistence \<or> class_name = be_sym B ''sequence''
                    then lo_send L x (be_sym B ''persistence'') [AInt 1] w2 else w2);
          Some (x, w3) } })"

definition versioned_eval_object_description ::
  "bmax_env \<Rightarrow> 'w loader_ops \<Rightarrow> nat \<Rightarrow> addr \<Rightarrow> atom list \<Rightarrow> 'w \<Rightarrow> (addr \<times> 'w) option" where
  "versioned_eval_object_description B L version patcher at w =
     (case at of
        ASymbol _ # _ \<Rightarrow> if version = 1 then fix_eval_object_description B L patcher at w else Some (lo_eval L patcher at w)
      | [] \<Rightarrow> if version = 1 then None else Some (lo_eval L patcher at w)
      | _ \<Rightarrow> Some (lo_eval L patcher at w))"


subsection \<open>Running the code\<close>

text \<open>
  The state between two instructions. \<open>vm_step\<close> executes the instruction \<open>cmd\<close> with the code \<open>p\<close> behind
  it; its result is the code to go on with, or the object that is returned. A byte that is no opcode
  is skipped. The number of a \<open>PUSH_OBJ_TABLE_L\<close> has four bytes, of which the code skips one.
\<close>

record bmax_file_descr =
  bd_version :: nat
  bd_code :: "byte list"
  bd_symbols :: "sym list"

datatype 'w vm_result = Go "byte list" bmax_vm 'w | Returned "addr option" bmax_vm 'w

definition vm_next :: "byte list \<Rightarrow> 'w \<Rightarrow> bmax_vm option \<Rightarrow> 'w vm_result option" where
  "vm_next p w r = map_option (\<lambda>vm. Go p vm w) r"

definition vm_make_obj ::
  "bmax_env \<Rightarrow> 'w loader_ops \<Rightarrow> nat \<Rightarrow> int \<Rightarrow> bmax_vm \<Rightarrow> 'w \<Rightarrow> (addr \<times> bmax_vm \<times> 'w) option" where
  "vm_make_obj B L version nargs vm w = do {
     parent \<leftarrow> top_object vm;
     args \<leftarrow> eval_args nargs vm;
     (x, w') \<leftarrow> versioned_eval_object_description B L version parent args w;
     vm' \<leftarrow> push_object x (vm_redefined L w w' vm);
     Some (x, vm', w') }"

definition vm_obj_mess ::
  "'w loader_ops \<Rightarrow> sym list \<Rightarrow> byte list \<Rightarrow> bmax_vm \<Rightarrow> 'w \<Rightarrow> 'w vm_result option" where
  "vm_obj_mess L symbols p vm w = do {
     _ \<leftarrow> GET_L p;
     i \<leftarrow> GET_L (drop 4 p);
     sel \<leftarrow> table_symbol symbols i;
     nargs \<leftarrow> GET_L (drop 8 p);
     x \<leftarrow> top_object vm;
     args \<leftarrow> eval_args (sint nargs) vm;
     let w' = lo_send L x sel args w;
     Some (Go (drop 12 p) (vm_redefined L w w' vm) w') }"

definition vm_connect :: "'w loader_ops \<Rightarrow> byte list \<Rightarrow> bmax_vm \<Rightarrow> 'w \<Rightarrow> 'w vm_result option" where
  "vm_connect L p vm w =
     (case (object_stack vm, eval_stack vm) of
        (src # dst # _, AInt woutlet # AInt winlet # _) \<Rightarrow>
          (let w' = lo_connect L src woutlet dst winlet w in Some (Go p (vm_redefined L w w' vm) w'))
      | _ \<Rightarrow> None)"

definition vm_return :: "nat \<Rightarrow> bmax_vm \<Rightarrow> 'w \<Rightarrow> 'w vm_result option" where
  "vm_return ac vm w =
     (if ac \<le> length (eval_stack vm)
      then case object_stack vm of
             [] \<Rightarrow> None
           | [parent] \<Rightarrow> Some (Returned None (vm\<lparr>eval_stack := drop ac (eval_stack vm), object_stack := []\<rparr>) w)
           | x # parent # xs \<Rightarrow> Some (Returned (Some x) (vm\<lparr>eval_stack := drop ac (eval_stack vm), object_stack := xs\<rparr>) w)
      else None)"

text \<open>The instructions with an argument of variable size: \<open>n\<close> is the argument, \<open>p\<close> the code after it.\<close>

definition vm_with_arg ::
  "bmax_env \<Rightarrow> 'w loader_ops \<Rightarrow> bmax_file_descr \<Rightarrow> nat \<Rightarrow> byte \<Rightarrow> int32 \<Rightarrow> byte list \<Rightarrow> bmax_vm \<Rightarrow> 'w \<Rightarrow> 'w vm_result option" where
  "vm_with_arg B L descr ac opcode n p vm w =
     (if opcode = FVM_PUSH_INT then vm_next p w (push_eval (AInt n) vm)
      else if opcode = FVM_PUSH_SYM
      then Option.bind (table_symbol (bd_symbols descr) n) (\<lambda>s. vm_next p w (push_eval (ASymbol s) vm))
      else if opcode = FVM_SET_INT then vm_next p w (set_eval (AInt n) vm)
      else if opcode = FVM_SET_SYM
      then Option.bind (table_symbol (bd_symbols descr) n) (\<lambda>s. vm_next p w (set_eval (ASymbol s) vm))
      else if opcode = FVM_POP_ARGS then vm_next p w (pop_eval n vm)
      else if opcode = FVM_PUSH_OBJ then Option.bind (table_get n vm) (\<lambda>x. vm_next p w (push_object x vm))
      else if opcode = FVM_MV_OBJ then Option.bind (top_object vm) (\<lambda>x. vm_next p w (table_put n x vm))
      else if opcode = FVM_POP_OBJS then vm_next p w (pop_objects n vm)
      else if opcode = FVM_MAKE_OBJ
      then map_option (\<lambda>(x, vm', w'). Go p vm' w') (vm_make_obj B L (bd_version descr) (sint n) vm w)
      else if opcode = FVM_MAKE_TOP_OBJ
      then map_option (\<lambda>(x, vm', w'). Go p vm' (if lo_is_patcher L x w' then lo_set_scope L x w' else w'))
             (vm_make_obj B L (bd_version descr) (sint n + int ac) vm w)
      else if opcode = FVM_PUT_PROP
      then do {
        prop \<leftarrow> table_symbol (bd_symbols descr) n;
        x \<leftarrow> top_object vm;
        v \<leftarrow> (case eval_stack vm of [] \<Rightarrow> None | v # _ \<Rightarrow> Some v);
        let w' = lo_put_prop L x prop v w;
        Some (Go p (vm_redefined L w w' vm) w') }
      else vm_next p w (push_table n vm))"

definition sized_opcodes :: "byte list" where
  "sized_opcodes = [FVM_PUSH_INT, FVM_PUSH_SYM, FVM_SET_INT, FVM_SET_SYM, FVM_POP_ARGS, FVM_PUSH_OBJ, FVM_MV_OBJ,
     FVM_POP_OBJS, FVM_MAKE_OBJ, FVM_MAKE_TOP_OBJ, FVM_PUT_PROP, FVM_PUSH_OBJ_TABLE]"

definition vm_step ::
  "bmax_env \<Rightarrow> 'w loader_ops \<Rightarrow> bmax_file_descr \<Rightarrow> nat \<Rightarrow> byte \<Rightarrow> byte list \<Rightarrow> bmax_vm \<Rightarrow> 'w \<Rightarrow> 'w vm_result option" where
  "vm_step B L descr ac cmd p vm w =
     (let opcode = cmd AND 0x3f; sz = cmd AND 0xc0
      in if cmd = FVM_RETURN then vm_return ac vm w
         else if cmd = FVM_PUSH_FLOAT
         then Option.bind (GET_L p) (\<lambda>f. vm_next (drop 4 p) w (push_eval (AFloat (be_double B f)) vm))
         else if cmd = FVM_SET_FLOAT
         then Option.bind (GET_L p) (\<lambda>f. vm_next (drop 4 p) w (set_eval (AFloat (be_double B f)) vm))
         else if cmd = FVM_OBJ_MESS then vm_obj_mess L (bd_symbols descr) p vm w
         else if cmd = FVM_CONNECT then vm_connect L p vm w
         else if cmd = FVM_POP_OBJ_TABLE then vm_next p w (pop_table vm)
         else if sz \<noteq> FVM_N_ARG \<and> opcode \<in> set sized_opcodes
         then Option.bind (fvm_arg sz p)
                (\<lambda>(n, q). vm_with_arg B L descr ac opcode n
                   (if opcode = FVM_PUSH_OBJ_TABLE \<and> sz = FVM_L_ARG then drop 1 p else q) vm w)
         else Some (Go p vm w))"

lemma fvm_arg_shorter: "fvm_arg sz p = Some (n, q) \<Longrightarrow> length q \<le> length p"
  by (auto simp: fvm_arg_def split: if_splits)

lemma vm_step_shorter: "vm_step B L descr ac cmd p vm w = Some (Go q vm' w') \<Longrightarrow> length q \<le> length p"
  by (auto simp: vm_step_def Let_def vm_return_def vm_next_def vm_obj_mess_def vm_connect_def vm_with_arg_def
      dest!: fvm_arg_shorter split: if_splits list.splits bind_splits atom.splits option.splits)

text \<open>There is no jump: every instruction takes a byte off the code, so that the loop ends.\<close>

function vm_loop ::
  "bmax_env \<Rightarrow> 'w loader_ops \<Rightarrow> bmax_file_descr \<Rightarrow> nat \<Rightarrow> byte list \<Rightarrow> bmax_vm \<Rightarrow> 'w \<Rightarrow> (addr option \<times> bmax_vm \<times> 'w) option" where
  "vm_loop B L descr ac [] vm w = None"
| "vm_loop B L descr ac (cmd # p) vm w =
     (case vm_step B L descr ac cmd p vm w of
        None \<Rightarrow> None
      | Some (Returned x vm' w') \<Rightarrow> Some (x, vm', w')
      | Some (Go q vm' w') \<Rightarrow> vm_loop B L descr ac q vm' w')"
  by pat_completeness auto
termination
  by (relation "measure (\<lambda>(B, L, descr, ac, p, vm, w). length p)") (auto dest: vm_step_shorter)

definition fts_run_mess_vm ::
  "bmax_env \<Rightarrow> 'w loader_ops \<Rightarrow> addr \<Rightarrow> bmax_file_descr \<Rightarrow> atom list \<Rightarrow> bmax_vm \<Rightarrow> 'w \<Rightarrow> (addr option \<times> bmax_vm \<times> 'w) option" where
  "fts_run_mess_vm B L parent descr at vm w =
     (if length (object_stack vm) < OBJECT_STACK_DEPTH \<and> length at + length (eval_stack vm) \<le> EVAL_STACK_DEPTH
      then vm_loop B L descr (length at) (bd_code descr)
             (vm\<lparr>object_stack := parent # object_stack vm, eval_stack := at @ eval_stack vm\<rparr>) w
      else None)"

end
