(* ===== verification/BmaxSave.thy ===== *)
theory BmaxSave
  imports Bmax
begin

text \<open>
  The saver of patchers (\<open>fts/bmaxfile.c\<close>): the generation of the code and of the symbol table, and the
  file with its header. What the saver reads of the objects is a tree: the description of an object,
  its properties, its name, what its \<open>dump\<close> methods send to the dumper, and for a patcher its objects
  in order with the connections of their outlets. The length of the list of objects is
  \<open>fts_patcher_get_objects_count\<close>.
\<close>

record bmax_file =
  bf_code :: "byte list"
  bf_code_size :: nat
  bf_symbols :: "sym list"
  bf_symbol_table_size :: nat

definition DEFAULT_SYMBOL_TABLE_SIZE :: nat where "DEFAULT_SYMBOL_TABLE_SIZE = 4 * 1024"

definition fts_bmax_file_open_fd :: "nat option \<Rightarrow> bmax_file" where
  "fts_bmax_file_open_fd static =
     \<lparr>bf_code = [], bf_code_size = 0, bf_symbols = [],
      bf_symbol_table_size = (case static of None \<Rightarrow> DEFAULT_SYMBOL_TABLE_SIZE | Some n \<Rightarrow> n)\<rparr>"

subsection \<open>Symbols, opcodes, integers\<close>

fun find_symbol :: "sym \<Rightarrow> sym list \<Rightarrow> nat \<Rightarrow> nat option" where
  "find_symbol s [] i = None"
| "find_symbol s (t # ts) i = (if t = s then Some i else find_symbol s ts (i + 1))"

definition fts_bmax_add_symbol :: "sym \<Rightarrow> bmax_file \<Rightarrow> int32 \<times> bmax_file" where
  "fts_bmax_add_symbol s f =
     (case find_symbol s (bf_symbols f) 0 of
        Some i \<Rightarrow> (of_nat i, f)
      | None \<Rightarrow>
          (of_nat (length (bf_symbols f)),
           f\<lparr>bf_symbols := bf_symbols f @ [s],
             bf_symbol_table_size := (if length (bf_symbols f) \<ge> bf_symbol_table_size f
                                      then bf_symbol_table_size f * 3 div 2 else bf_symbol_table_size f)\<rparr>))"

definition fts_bmax_get_argcode :: "int32 \<Rightarrow> byte" where
  "fts_bmax_get_argcode value =
     (if 127 \<ge> sint value \<and> sint value \<ge> -128 then FVM_B_ARG
      else if 32767 \<ge> sint value \<and> sint value \<ge> -32768 then FVM_S_ARG
      else FVM_L_ARG)"

definition bmax_fwrite :: "byte list \<Rightarrow> bmax_file \<Rightarrow> bmax_file" where
  "bmax_fwrite bs f = f\<lparr>bf_code := bf_code f @ bs, bf_code_size := bf_code_size f + length bs\<rparr>"

definition fts_bmax_write_opcode_for :: "byte \<Rightarrow> int32 \<Rightarrow> bmax_file \<Rightarrow> bmax_file" where
  "fts_bmax_write_opcode_for opcode value f = bmax_fwrite [opcode OR fts_bmax_get_argcode value] f"

definition fts_bmax_write_opcode :: "byte \<Rightarrow> bmax_file \<Rightarrow> bmax_file" where
  "fts_bmax_write_opcode opcode f = bmax_fwrite [opcode] f"

definition fts_bmax_write_b_int :: "int32 \<Rightarrow> bmax_file \<Rightarrow> bmax_file" where
  "fts_bmax_write_b_int value f = bmax_fwrite [ucast (value AND 0xff)] f"

definition fts_bmax_write_s_int :: "int32 \<Rightarrow> bmax_file \<Rightarrow> bmax_file" where
  "fts_bmax_write_s_int value f = bmax_fwrite [ucast (drop_bit 8 (value AND 0xff00)), ucast (value AND 0xff)] f"

definition long_bytes :: "int32 \<Rightarrow> byte list" where
  "long_bytes value =
     [ucast (drop_bit 24 (value AND 0xff000000)), ucast (drop_bit 16 (value AND 0xff0000)),
      ucast (drop_bit 8 (value AND 0xff00)), ucast (value AND 0xff)]"

definition fts_bmax_write_l_int :: "int32 \<Rightarrow> bmax_file \<Rightarrow> bmax_file" where
  "fts_bmax_write_l_int value f = bmax_fwrite (long_bytes value) f"

definition fts_bmax_write_int :: "int32 \<Rightarrow> bmax_file \<Rightarrow> bmax_file" where
  "fts_bmax_write_int value f =
     (let argcode = fts_bmax_get_argcode value
      in if argcode = FVM_B_ARG then fts_bmax_write_b_int value f
         else if argcode = FVM_S_ARG then fts_bmax_write_s_int value f
         else fts_bmax_write_l_int value f)"

definition fts_bmax_write_float :: "bmax_env \<Rightarrow> double \<Rightarrow> bmax_file \<Rightarrow> bmax_file" where
  "fts_bmax_write_float B value f = bmax_fwrite (long_bytes (be_float B value)) f"

subsection \<open>Instructions\<close>

definition code_with_arg :: "byte \<Rightarrow> int32 \<Rightarrow> bmax_file \<Rightarrow> bmax_file" where
  "code_with_arg opcode value f = fts_bmax_write_int value (fts_bmax_write_opcode_for opcode value f)"

definition code_with_symbol :: "byte \<Rightarrow> sym \<Rightarrow> bmax_file \<Rightarrow> bmax_file" where
  "code_with_symbol opcode s f = (let (value, f1) = fts_bmax_add_symbol s f in code_with_arg opcode value f1)"

definition fts_bmax_code_return :: "bmax_file \<Rightarrow> bmax_file" where
  "fts_bmax_code_return f = fts_bmax_write_opcode FVM_RETURN f"

definition fts_bmax_code_push_int :: "int32 \<Rightarrow> bmax_file \<Rightarrow> bmax_file" where
  "fts_bmax_code_push_int value f = code_with_arg FVM_PUSH_INT value f"

definition fts_bmax_code_push_float :: "bmax_env \<Rightarrow> double \<Rightarrow> bmax_file \<Rightarrow> bmax_file" where
  "fts_bmax_code_push_float B value f = fts_bmax_write_float B value (fts_bmax_write_opcode FVM_PUSH_FLOAT f)"

definition fts_bmax_code_push_symbol :: "sym \<Rightarrow> bmax_file \<Rightarrow> bmax_file" where
  "fts_bmax_code_push_symbol s f = code_with_symbol FVM_PUSH_SYM s f"

definition fts_bmax_code_set_int :: "int32 \<Rightarrow> bmax_file \<Rightarrow> bmax_file" where
  "fts_bmax_code_set_int value f = code_with_arg FVM_SET_INT value f"

definition fts_bmax_code_set_float :: "bmax_env \<Rightarrow> double \<Rightarrow> bmax_file \<Rightarrow> bmax_file" where
  "fts_bmax_code_set_float B value f = fts_bmax_write_float B value (fts_bmax_write_opcode FVM_SET_FLOAT f)"

definition fts_bmax_code_set_symbol :: "sym \<Rightarrow> bmax_file \<Rightarrow> bmax_file" where
  "fts_bmax_code_set_symbol s f = code_with_symbol FVM_SET_SYM s f"

definition fts_bmax_code_pop_args :: "int32 \<Rightarrow> bmax_file \<Rightarrow> bmax_file" where
  "fts_bmax_code_pop_args value f = code_with_arg FVM_POP_ARGS value f"

definition fts_bmax_code_push_obj :: "int32 \<Rightarrow> bmax_file \<Rightarrow> bmax_file" where
  "fts_bmax_code_push_obj value f = code_with_arg FVM_PUSH_OBJ value f"

definition fts_bmax_code_mv_obj :: "int32 \<Rightarrow> bmax_file \<Rightarrow> bmax_file" where
  "fts_bmax_code_mv_obj value f = code_with_arg FVM_MV_OBJ value f"

definition fts_bmax_code_pop_objs :: "int32 \<Rightarrow> bmax_file \<Rightarrow> bmax_file" where
  "fts_bmax_code_pop_objs value f = code_with_arg FVM_POP_OBJS value f"

definition fts_bmax_code_make_obj :: "int32 \<Rightarrow> bmax_file \<Rightarrow> bmax_file" where
  "fts_bmax_code_make_obj value f = code_with_arg FVM_MAKE_OBJ value f"

definition fts_bmax_code_make_top_obj :: "int32 \<Rightarrow> bmax_file \<Rightarrow> bmax_file" where
  "fts_bmax_code_make_top_obj value f = code_with_arg FVM_MAKE_TOP_OBJ value f"

definition fts_bmax_code_put_prop :: "sym \<Rightarrow> bmax_file \<Rightarrow> bmax_file" where
  "fts_bmax_code_put_prop s f = code_with_symbol FVM_PUT_PROP s f"

definition fts_bmax_code_obj_mess :: "sym \<Rightarrow> int32 \<Rightarrow> bmax_file \<Rightarrow> bmax_file" where
  "fts_bmax_code_obj_mess sel nargs f =
     (let f1 = fts_bmax_write_l_int (- 1) (fts_bmax_write_opcode FVM_OBJ_MESS f);
          (value, f2) = fts_bmax_add_symbol sel f1
      in fts_bmax_write_l_int nargs (fts_bmax_write_l_int value f2))"

definition fts_bmax_code_push_obj_table :: "int32 \<Rightarrow> bmax_file \<Rightarrow> bmax_file" where
  "fts_bmax_code_push_obj_table value f = code_with_arg FVM_PUSH_OBJ_TABLE value f"

definition fts_bmax_code_pop_obj_table :: "bmax_file \<Rightarrow> bmax_file" where
  "fts_bmax_code_pop_obj_table f = fts_bmax_write_opcode FVM_POP_OBJ_TABLE f"

definition fts_bmax_code_connect :: "bmax_file \<Rightarrow> bmax_file" where
  "fts_bmax_code_connect f = fts_bmax_write_opcode FVM_CONNECT f"

definition push_atom :: "bmax_env \<Rightarrow> atom \<Rightarrow> bmax_file \<Rightarrow> bmax_file" where
  "push_atom B a f =
     (case a of AInt i \<Rightarrow> fts_bmax_code_push_int i f
      | AFloat x \<Rightarrow> fts_bmax_code_push_float B x f
      | ASymbol s \<Rightarrow> fts_bmax_code_push_symbol s f
      | _ \<Rightarrow> fts_bmax_code_push_int 0 f)"

text \<open>The last atom first.\<close>

fun fts_bmax_code_push_atoms :: "bmax_env \<Rightarrow> atom list \<Rightarrow> bmax_file \<Rightarrow> bmax_file" where
  "fts_bmax_code_push_atoms B [] f = f"
| "fts_bmax_code_push_atoms B (a # at) f = push_atom B a (fts_bmax_code_push_atoms B at f)"

definition fts_bmax_code_set_atom :: "bmax_env \<Rightarrow> atom \<Rightarrow> bmax_file \<Rightarrow> bmax_file" where
  "fts_bmax_code_set_atom B a f =
     (case a of AInt i \<Rightarrow> fts_bmax_code_set_int i f
      | AFloat x \<Rightarrow> fts_bmax_code_set_float B x f
      | ASymbol s \<Rightarrow> fts_bmax_code_set_symbol s f
      | _ \<Rightarrow> f)"

subsection \<open>Objects and patchers\<close>

record saved_connection =
  sc_type :: int
  sc_winlet :: int32
  sc_dst :: addr

record saved_object =
  so_object :: addr
  so_description :: "atom list"
  so_prop :: "sym \<Rightarrow> atom"
  so_is_patcher :: bool
  so_name :: sym
  so_global :: bool
  so_gui :: "(sym \<times> atom list) list"
  so_persistent :: bool
  so_state :: "(sym \<times> atom list) list"
  so_outlets :: "saved_connection list list"

text \<open>\<open>Patcher x ps\<close> is a patcher whose objects are saved with it; abstractions and templates are not.\<close>

datatype saved_tree = Plain saved_object | Patcher saved_object "saved_tree list"

primrec tree_object :: "saved_tree \<Rightarrow> saved_object" where
  "tree_object (Plain x) = x"
| "tree_object (Patcher x _) = x"

definition fts_bmax_code_new_property :: "bmax_env \<Rightarrow> saved_object \<Rightarrow> string \<Rightarrow> bmax_file \<Rightarrow> bmax_file" where
  "fts_bmax_code_new_property B x prop f =
     (let value = so_prop x (be_sym B prop)
      in if value = AVoid then f else fts_bmax_code_put_prop (be_sym B prop) (fts_bmax_code_set_atom B value f))"

definition object_properties :: "string list" where
  "object_properties = [''x'', ''y'', ''height'', ''width'', ''font'', ''fontSize'', ''fontStyle'', ''layer'']"

definition window_properties :: "string list" where
  "window_properties = [''wx'', ''wy'', ''ww'', ''wh'']"

definition top_properties :: "string list" where
  "top_properties = [''x'', ''y'', ''height'', ''width'', ''font'', ''fontSize'', ''fontStyle'',
     ''wx'', ''wy'', ''ww'', ''wh'', ''layer'']"

definition code_properties :: "bmax_env \<Rightarrow> saved_object \<Rightarrow> string list \<Rightarrow> bmax_file \<Rightarrow> bmax_file" where
  "code_properties B x props f = fold (fts_bmax_code_new_property B x) props f"

definition saver_dumper_send :: "bmax_env \<Rightarrow> sym \<Rightarrow> atom list \<Rightarrow> bmax_file \<Rightarrow> bmax_file" where
  "saver_dumper_send B s at f =
     fts_bmax_code_pop_args (of_nat (length at)) (fts_bmax_code_obj_mess s (of_nat (length at)) (fts_bmax_code_push_atoms B at f))"

definition code_dumps :: "bmax_env \<Rightarrow> (sym \<times> atom list) list \<Rightarrow> bmax_file \<Rightarrow> bmax_file" where
  "code_dumps B ms f = fold (\<lambda>(s, at). saver_dumper_send B s at) ms f"

definition code_name :: "bmax_env \<Rightarrow> saved_object \<Rightarrow> bmax_file \<Rightarrow> bmax_file" where
  "code_name B x f =
     (if so_name x \<noteq> be_sym B ''''
      then let n = (if so_global x then 2 else 1);
               f1 = (if so_global x then fts_bmax_code_push_int 1 f else f);
               f2 = fts_bmax_code_push_symbol (so_name x) f1
           in fts_bmax_code_pop_args n (fts_bmax_code_obj_mess (be_sym B ''name'') n f2)
      else f)"

definition code_state :: "bmax_env \<Rightarrow> saved_object \<Rightarrow> bmax_file \<Rightarrow> bmax_file" where
  "code_state B x f =
     (if so_persistent x
      then fts_bmax_code_pop_args 1 (fts_bmax_code_obj_mess (be_sym B ''persistence'') 1
             (fts_bmax_code_push_int 1 (code_dumps B (so_state x) f)))
      else f)"

definition fts_bmax_code_new_object :: "bmax_env \<Rightarrow> saved_object \<Rightarrow> int \<Rightarrow> bmax_file \<Rightarrow> bmax_file" where
  "fts_bmax_code_new_object B x objidx f =
     (let n = of_nat (length (so_description x));
          f1 = fts_bmax_code_make_obj n (fts_bmax_code_push_atoms B (so_description x) f);
          f2 = (if 0 \<le> objidx then fts_bmax_code_mv_obj (word_of_int objidx) f1 else f1);
          f3 = (if so_description x = [] then fts_bmax_code_push_int 0 f2 else f2);
          f4 = code_properties B x (object_properties @ (if so_is_patcher x then window_properties else [])) f3;
          f5 = fts_bmax_code_pop_args (if so_description x = [] then 1 else n) f4
      in code_state B x (code_dumps B (so_gui x) (code_name B x f5)))"

definition fts_bmax_code_new_top_object :: "bmax_env \<Rightarrow> saved_object \<Rightarrow> bmax_file \<Rightarrow> bmax_file" where
  "fts_bmax_code_new_top_object B x f =
     (let f1 = fts_bmax_code_push_atoms B [ASymbol (be_sym B ''jpatcher'')] f;
          f2 = fts_bmax_code_make_top_obj 1 f1
      in fts_bmax_code_pop_args 1 (code_properties B x top_properties f2))"

text \<open>The index of an object among the objects of its patcher, \<open>-1\<close> if it is not there.\<close>

fun objidx_from :: "addr \<Rightarrow> addr list \<Rightarrow> int \<Rightarrow> int" where
  "objidx_from x [] i = - 1"
| "objidx_from x (y # ys) i = (if x = y then i else objidx_from x ys (i + 1))"

definition fts_bmax_find_objidx :: "addr \<Rightarrow> saved_tree list \<Rightarrow> int" where
  "fts_bmax_find_objidx x ps = objidx_from x (map (so_object \<circ> tree_object) ps) 0"

definition c_hidden :: int where "c_hidden = - 2"

definition fts_bmax_code_new_connection ::
  "saved_tree list \<Rightarrow> int \<Rightarrow> int \<Rightarrow> saved_connection \<Rightarrow> bmax_file \<Rightarrow> bmax_file" where
  "fts_bmax_code_new_connection ps fromidx woutlet c f =
     (if sc_type c > c_hidden
      then let f1 = fts_bmax_code_push_int (word_of_int woutlet) (fts_bmax_code_push_int (sc_winlet c) f);
               f2 = fts_bmax_code_push_obj (word_of_int (fts_bmax_find_objidx (sc_dst c) ps)) f1;
               f3 = fts_bmax_code_push_obj (word_of_int fromidx) f2
           in fts_bmax_code_pop_objs 2 (fts_bmax_code_pop_args 2 (fts_bmax_code_connect f3))
      else f)"

definition code_outlets :: "saved_tree list \<Rightarrow> int \<Rightarrow> saved_connection list list \<Rightarrow> bmax_file \<Rightarrow> bmax_file" where
  "code_outlets ps fromidx outlets f =
     fold (\<lambda>(woutlet, cs). fold (fts_bmax_code_new_connection ps fromidx woutlet) cs)
       (zip (map int [0..<length outlets]) outlets) f"

definition code_connections :: "saved_tree list \<Rightarrow> bmax_file \<Rightarrow> bmax_file" where
  "code_connections ps f =
     fold (\<lambda>(i, p). code_outlets ps i (so_outlets (tree_object p))) (zip (map int [0..<length ps]) ps) f"

fun fts_bmax_code_new_patcher :: "bmax_env \<Rightarrow> saved_tree \<Rightarrow> int \<Rightarrow> bmax_file \<Rightarrow> bmax_file"
  and code_objects :: "bmax_env \<Rightarrow> saved_tree list \<Rightarrow> int \<Rightarrow> bmax_file \<Rightarrow> bmax_file" where
  "fts_bmax_code_new_patcher B (Plain x) idx f = fts_bmax_code_new_object B x idx f"
| "fts_bmax_code_new_patcher B (Patcher x ps) idx f =
     (let f1 = (if idx = - 1 then fts_bmax_code_new_top_object B x f else fts_bmax_code_new_object B x idx f);
          f2 = code_objects B ps 0 (fts_bmax_code_push_obj_table (of_nat (length ps)) f1)
      in fts_bmax_code_pop_obj_table (code_connections ps f2))"
| "code_objects B [] i f = f"
| "code_objects B (p # ps) i f = code_objects B ps (i + 1) (fts_bmax_code_pop_objs 1 (fts_bmax_code_new_patcher B p i f))"

definition fts_save_patcher_as_bmax :: "bmax_env \<Rightarrow> saved_tree \<Rightarrow> bmax_file" where
  "fts_save_patcher_as_bmax B p =
     fts_bmax_code_return (fts_bmax_code_new_patcher B p (- 1) (fts_bmax_file_open_fd None))"

text \<open>Autosaving uses a table that is not allocated.\<close>

definition STATIC_SYMBOL_TABLE_SIZE :: nat where "STATIC_SYMBOL_TABLE_SIZE = 32 * 1024"

definition fts_save_simple_as_bmax :: "bmax_env \<Rightarrow> saved_tree \<Rightarrow> bmax_file" where
  "fts_save_simple_as_bmax B p =
     fts_bmax_code_return (fts_bmax_code_new_patcher B p (- 1) (fts_bmax_file_open_fd (Some STATIC_SYMBOL_TABLE_SIZE)))"

subsection \<open>The file\<close>

definition FTS_BINARY_FILE_MAGIC_V1 :: int32 where "FTS_BINARY_FILE_MAGIC_V1 = 0x624D6178"
definition FTS_BINARY_FILE_MAGIC_V2 :: int32 where "FTS_BINARY_FILE_MAGIC_V2 = 0x624D6132"

text \<open>
  A header is three \<open>unsigned long\<close>s of four bytes; \<open>swap_long\<close> makes them big-endian. The code has
  been written behind it; \<open>fts_bmax_file_sync\<close> appends the strings of the symbols and a zero byte, and
  overwrites the header.
\<close>

definition bmax_header :: "int32 \<Rightarrow> nat \<Rightarrow> nat \<Rightarrow> byte list" where
  "bmax_header magic code_size n_symbols = long_bytes magic @ long_bytes (of_nat code_size) @ long_bytes (of_nat n_symbols)"

definition symbol_bytes :: "string \<Rightarrow> byte list" where
  "symbol_bytes s = map byte_of_char s @ [0]"

definition fts_bmax_file_sync :: "(sym \<Rightarrow> string) \<Rightarrow> bmax_file \<Rightarrow> byte list" where
  "fts_bmax_file_sync nm f =
     bmax_header FTS_BINARY_FILE_MAGIC_V2 (bf_code_size f) (length (bf_symbols f)) @ bf_code f
     @ concat (map (symbol_bytes \<circ> nm) (bf_symbols f)) @ [0]"

datatype bmax_status = Internal_error | Invalid_file_format_error | Cannot_open_file_error

text \<open>
  The loop over the bytes of the symbols: \<open>buf\<close> holds the bytes of a symbol so far, at most 1024; the
  byte that \<open>getc\<close> gives at the end of the file is stored too, before \<open>feof\<close> ends the loop.
\<close>

fun read_symbols :: "nat \<Rightarrow> byte list \<Rightarrow> byte list \<Rightarrow> string list option" where
  "read_symbols 0 buf bs = Some []"
| "read_symbols (Suc n) buf [] = (if length buf < 1024 then Some [] else None)"
| "read_symbols (Suc n) buf (b # bs) =
     (if length buf < 1024
      then if b = 0 then map_option (\<lambda>ss. map char_of_byte buf # ss) (read_symbols n [] bs)
           else read_symbols (Suc n) (buf @ [b]) bs
      else None)"

text \<open>Symbols that the file does not have are the symbol for errors.\<close>

definition fts_binary_file_map ::
  "bmax_env \<Rightarrow> (string \<Rightarrow> sym) \<Rightarrow> byte list \<Rightarrow> (bmax_status + bmax_file_descr) option" where
  "fts_binary_file_map B new_symbol bs =
     (case (GET_L bs, GET_L (drop 4 bs), GET_L (drop 8 bs)) of
        (Some magic, Some code_size, Some n_symbols) \<Rightarrow>
          if magic \<noteq> FTS_BINARY_FILE_MAGIC_V1 \<and> magic \<noteq> FTS_BINARY_FILE_MAGIC_V2 then Some (Inl Invalid_file_format_error)
          else let code = take (unat code_size) (drop 12 bs)
               in if length code < unat code_size then Some (Inl Internal_error)
                  else map_option (\<lambda>ss. Inr \<lparr>bd_version = (if magic = FTS_BINARY_FILE_MAGIC_V1 then 1 else 2), bd_code = code,
                           bd_symbols = map new_symbol ss @ replicate (unat n_symbols - length ss) (be_sym B ''error'')\<rparr>)
                         (read_symbols (unat n_symbols) [] (drop (12 + unat code_size) bs))
      | _ \<Rightarrow> Some (Inl Internal_error))"

text \<open>
  The table of a file without symbols is not allocated, but \<open>fts_binary_file_dispose\<close> frees the pointer,
  which was never set.
\<close>

definition fts_binary_file_dispose :: "bmax_file_descr \<Rightarrow> unit option" where
  "fts_binary_file_dispose descr = (if bd_symbols descr = [] then None else Some ())"

definition fts_bmax_filedesc_load ::
  "bmax_env \<Rightarrow> 'w loader_ops \<Rightarrow> (string \<Rightarrow> sym) \<Rightarrow> byte list \<Rightarrow> addr \<Rightarrow> atom list \<Rightarrow> bmax_vm \<Rightarrow> 'w
     \<Rightarrow> (bmax_status + addr option \<times> bmax_vm \<times> 'w) option" where
  "fts_bmax_filedesc_load B L new_symbol bs parent at vm w = do {
     r \<leftarrow> fts_binary_file_map B new_symbol bs;
     case r of
       Inl e \<Rightarrow> Some (Inl e)
     | Inr descr \<Rightarrow> do {
         res \<leftarrow> fts_run_mess_vm B L parent descr at vm w;
         _ \<leftarrow> fts_binary_file_dispose descr;
         Some (Inr res) } }"

text \<open>A file that is named: \<open>None\<close> when it cannot be opened.\<close>

definition fts_bmax_file_load ::
  "bmax_env \<Rightarrow> 'w loader_ops \<Rightarrow> (string \<Rightarrow> sym) \<Rightarrow> byte list option \<Rightarrow> addr \<Rightarrow> atom list \<Rightarrow> bmax_vm \<Rightarrow> 'w
     \<Rightarrow> (bmax_status + addr option \<times> bmax_vm \<times> 'w) option" where
  "fts_bmax_file_load B L new_symbol file_bytes parent at vm w =
     (case file_bytes of
        None \<Rightarrow> Some (Inl Cannot_open_file_error)
      | Some bs \<Rightarrow> fts_bmax_filedesc_load B L new_symbol bs parent at vm w)"

end
