(* ===== verification/BmaxLoad.thy ===== *)
theory BmaxLoad
  imports BmaxSave
begin

text \<open>
  Loading a saved patcher. \<open>load_tree\<close> says what the loader has to do with the objects; the machine
  does it when it runs the code that the saver has generated, whatever the objects do in turn.
\<close>

subsection \<open>Arguments of instructions\<close>

definition int_bytes_for :: "int32 \<Rightarrow> byte list" where
  "int_bytes_for value =
     (if fts_bmax_get_argcode value = FVM_B_ARG then [ucast (value AND 0xff)]
      else if fts_bmax_get_argcode value = FVM_S_ARG then [ucast (drop_bit 8 (value AND 0xff00)), ucast (value AND 0xff)]
      else long_bytes value)"

lemma write_int: "fts_bmax_write_int value f = bmax_fwrite (int_bytes_for value) f"
  by (simp add: fts_bmax_write_int_def int_bytes_for_def Let_def fts_bmax_write_b_int_def fts_bmax_write_s_int_def
      fts_bmax_write_l_int_def)

lemma sint_narrow:
  assumes "- (2 ^ (LENGTH('b) - 1)) \<le> sint v" "sint v < 2 ^ (LENGTH('b) - 1)" "LENGTH('b) \<le> 32"
  shows "scast (ucast v :: 'b::len word) = (v :: int32)"
proof -
  have "sint (ucast v :: 'b word) = signed_take_bit (LENGTH('b) - 1) (uint v)"
    by (simp add: signed_ucast_eq)
  also have "\<dots> = sint v"
  proof -
    have "signed_take_bit (LENGTH('b) - 1) (uint v) = signed_take_bit (LENGTH('b) - 1) (sint v)"
      using assms(3) by (simp add: sint_uint signed_take_bit_signed_take_bit min_def) linarith
    with assms show ?thesis by (simp add: signed_take_bit_int_eq_self)
  qed
  finally show ?thesis by (simp add: scast_eq)
qed

lemma byte_masks:
  "(0xff :: int32) = mask 8" "(0xff00 :: int32) = push_bit 8 (mask 8)"
  "(0xff0000 :: int32) = push_bit 16 (mask 8)" "(0xff000000 :: int32) = push_bit 24 (mask 8)"
  by (simp_all add: mask_eq_exp_minus_1 push_bit_eq_mult)

lemma get_b: "- 128 \<le> sint v \<Longrightarrow> sint v \<le> 127 \<Longrightarrow> GET_B (ucast (v AND 0xff) # rest) = Some v"
proof -
  assume "- 128 \<le> sint v" "sint v \<le> 127"
  then have "scast (ucast v :: byte) = v" by (intro sint_narrow) simp_all
  moreover have "ucast (v AND 0xff) = (ucast v :: byte)"
    by (rule bit_word_eqI) (auto simp: byte_masks bit_simps)
  ultimately show ?thesis by simp
qed

lemma get_s:
  "- 32768 \<le> sint v \<Longrightarrow> sint v \<le> 32767 \<Longrightarrow> GET_S (ucast (drop_bit 8 (v AND 0xff00)) # ucast (v AND 0xff) # rest) = Some v"
proof -
  assume "- 32768 \<le> sint v" "sint v \<le> 32767"
  then have "scast (ucast v :: 16 word) = v" by (intro sint_narrow) simp_all
  moreover have "word_cat (ucast (drop_bit 8 (v AND 0xff00)) :: byte) (ucast (v AND 0xff) :: byte) = (ucast v :: 16 word)"
    by (rule bit_word_eqI) (auto simp: byte_masks bit_simps)
  ultimately show ?thesis by simp
qed

lemma get_l: "GET_L (long_bytes v @ rest) = Some v"
  by (simp add: long_bytes_def) (rule bit_word_eqI, auto simp: byte_masks bit_simps)


lemma fvm_arg_bytes: "fvm_arg (fts_bmax_get_argcode v) (int_bytes_for v @ rest) = Some (v, rest)"
proof -
  have codes: "FVM_B_ARG \<noteq> FVM_S_ARG" "FVM_B_ARG \<noteq> FVM_L_ARG" "FVM_S_ARG \<noteq> FVM_L_ARG"
    by (simp_all add: FVM_B_ARG_def FVM_S_ARG_def FVM_L_ARG_def)
  consider "- 128 \<le> sint v" "sint v \<le> 127" | "\<not> (- 128 \<le> sint v \<and> sint v \<le> 127)" "- 32768 \<le> sint v" "sint v \<le> 32767"
    | "\<not> (- 128 \<le> sint v \<and> sint v \<le> 127)" "\<not> (- 32768 \<le> sint v \<and> sint v \<le> 32767)"
    by blast
  then show ?thesis
  proof cases
    case 1
    then have "fts_bmax_get_argcode v = FVM_B_ARG" by (simp add: fts_bmax_get_argcode_def)
    then show ?thesis using get_b [OF 1] by (simp add: fvm_arg_def int_bytes_for_def)
  next
    case 2
    then have "fts_bmax_get_argcode v = FVM_S_ARG" by (auto simp: fts_bmax_get_argcode_def)
    then show ?thesis using get_s [OF 2(2,3)] codes by (simp add: fvm_arg_def int_bytes_for_def)
  next
    case 3
    then have "fts_bmax_get_argcode v = FVM_L_ARG" by (auto simp: fts_bmax_get_argcode_def)
    moreover have "length (long_bytes v) = 4" by (simp add: long_bytes_def)
    ultimately show ?thesis using get_l [of v rest] codes by (simp add: fvm_arg_def int_bytes_for_def)
  qed
qed

lemma sized_opcode:
  assumes "opcode \<in> set sized_opcodes"
  shows "(opcode OR fts_bmax_get_argcode v) AND 0x3f = opcode"
    "(opcode OR fts_bmax_get_argcode v) AND 0xc0 = fts_bmax_get_argcode v"
    "fts_bmax_get_argcode v \<noteq> FVM_N_ARG"
    "opcode OR fts_bmax_get_argcode v \<notin> {FVM_RETURN, FVM_PUSH_FLOAT, FVM_SET_FLOAT, FVM_OBJ_MESS, FVM_CONNECT, FVM_POP_OBJ_TABLE}"
proof -
  have "fts_bmax_get_argcode v \<in> {0x40, 0x80, 0xc0}"
    by (simp add: fts_bmax_get_argcode_def FVM_B_ARG_def FVM_S_ARG_def FVM_L_ARG_def)
  moreover have "opcode \<in> {1, 3, 5, 7, 9, 10, 11, 12, 13, 21, 14, 18}"
    using assms by (auto simp: sized_opcodes_def FVM_PUSH_INT_def FVM_PUSH_SYM_def FVM_SET_INT_def FVM_SET_SYM_def
        FVM_POP_ARGS_def FVM_PUSH_OBJ_def FVM_MV_OBJ_def FVM_POP_OBJS_def FVM_MAKE_OBJ_def FVM_MAKE_TOP_OBJ_def
        FVM_PUT_PROP_def FVM_PUSH_OBJ_TABLE_def)
  ultimately show "(opcode OR fts_bmax_get_argcode v) AND 0x3f = opcode"
    "(opcode OR fts_bmax_get_argcode v) AND 0xc0 = fts_bmax_get_argcode v" "fts_bmax_get_argcode v \<noteq> FVM_N_ARG"
    "opcode OR fts_bmax_get_argcode v \<notin> {FVM_RETURN, FVM_PUSH_FLOAT, FVM_SET_FLOAT, FVM_OBJ_MESS, FVM_CONNECT, FVM_POP_OBJ_TABLE}"
    by (auto simp: FVM_N_ARG_def FVM_RETURN_def FVM_PUSH_FLOAT_def FVM_SET_FLOAT_def FVM_OBJ_MESS_def FVM_CONNECT_def
        FVM_POP_OBJ_TABLE_def)
qed

lemma step_sized:
  assumes op: "opcode \<in> set sized_opcodes" and table: "opcode = FVM_PUSH_OBJ_TABLE \<Longrightarrow> 0 \<le> sint v \<and> sint v \<le> 32767"
  shows "vm_step B L descr ac (opcode OR fts_bmax_get_argcode v) (int_bytes_for v @ rest) vm w
    = vm_with_arg B L descr ac opcode v rest vm w"
proof -
  have "FVM_L_ARG \<noteq> FVM_S_ARG" "FVM_L_ARG \<noteq> FVM_B_ARG" by (simp_all add: FVM_B_ARG_def FVM_S_ARG_def FVM_L_ARG_def)
  then have "\<not> (opcode = FVM_PUSH_OBJ_TABLE \<and> fts_bmax_get_argcode v = FVM_L_ARG)"
    using table by (auto simp: fts_bmax_get_argcode_def)
  then show ?thesis
    using sized_opcode [OF op, of v] op by (auto simp: vm_step_def Let_def fvm_arg_bytes)
qed

subsection \<open>Code that does something\<close>

text \<open>
  The saver goes from \<open>f\<close> to \<open>f'\<close>, and running what it has written takes the machine from one state to
  another, with any code behind it and for any file whose symbol table extends that of \<open>f'\<close>. This is
  for objects that do not redefine others, which would change the machine's stacks.
\<close>

definition quiet :: "'w loader_ops \<Rightarrow> bool" where
  "quiet L \<longleftrightarrow> (\<forall>w w'. lo_redefined L w w' = [])"

lemma quiet_vm [simp]: "quiet L \<Longrightarrow> vm_redefined L w w' vm = vm"
  by (simp add: quiet_def vm_redefined_def)

definition vm_runs ::
  "bmax_env \<Rightarrow> 'w loader_ops \<Rightarrow> nat \<Rightarrow> bmax_file \<Rightarrow> bmax_file \<Rightarrow> bmax_vm \<times> 'w \<Rightarrow> bmax_vm \<times> 'w \<Rightarrow> bool" where
  "vm_runs B L ac f f' st st' \<longleftrightarrow>
     prefix (bf_symbols f) (bf_symbols f') \<and>
     (\<exists>bs. bf_code f' = bf_code f @ bs \<and> bf_code_size f' = bf_code_size f + length bs \<and>
        (\<forall>descr rest. quiet L \<and> bd_version descr = 2 \<and> prefix (bf_symbols f') (bd_symbols descr) \<and> length (bd_symbols descr) < 2 ^ 31 \<longrightarrow>
           vm_loop B L descr ac (bs @ rest) (fst st) (snd st) = vm_loop B L descr ac rest (fst st') (snd st')))"

lemma runs_refl: "vm_runs B L ac f f st st"
  by (auto simp: vm_runs_def)

lemma runs_trans:
  assumes "vm_runs B L ac f g st st1" "vm_runs B L ac g h st1 st2"
  shows "vm_runs B L ac f h st st2"
proof -
  obtain bs where bs: "bf_code g = bf_code f @ bs" "bf_code_size g = bf_code_size f + length bs" and
    1: "\<And>descr rest. quiet L \<Longrightarrow> bd_version descr = 2 \<Longrightarrow> prefix (bf_symbols g) (bd_symbols descr) \<Longrightarrow> length (bd_symbols descr) < 2 ^ 31 \<Longrightarrow>
      vm_loop B L descr ac (bs @ rest) (fst st) (snd st) = vm_loop B L descr ac rest (fst st1) (snd st1)"
    using assms(1) unfolding vm_runs_def by blast
  obtain cs where cs: "bf_code h = bf_code g @ cs" "bf_code_size h = bf_code_size g + length cs" and
    2: "\<And>descr rest. quiet L \<Longrightarrow> bd_version descr = 2 \<Longrightarrow> prefix (bf_symbols h) (bd_symbols descr) \<Longrightarrow> length (bd_symbols descr) < 2 ^ 31 \<Longrightarrow>
      vm_loop B L descr ac (cs @ rest) (fst st1) (snd st1) = vm_loop B L descr ac rest (fst st2) (snd st2)"
    using assms(2) unfolding vm_runs_def by blast
  have pre: "prefix (bf_symbols f) (bf_symbols g)" "prefix (bf_symbols g) (bf_symbols h)"
    using assms by (auto simp: vm_runs_def)
  have "vm_loop B L descr ac ((bs @ cs) @ rest) (fst st) (snd st) = vm_loop B L descr ac rest (fst st2) (snd st2)"
    if "quiet L" "bd_version descr = 2" "prefix (bf_symbols h) (bd_symbols descr)" "length (bd_symbols descr) < 2 ^ 31" for descr rest
    using 1 [of descr "cs @ rest"] 2 [of descr rest] that prefix_order.trans [OF pre(2) that(3)] by simp
  then show ?thesis unfolding vm_runs_def using pre bs cs
    by (intro conjI exI [of _ "bs @ cs"]) (auto intro: prefix_order.trans)
qed

lemma runs_step:
  assumes "bs = cmd # arg"
    and "\<And>descr rest. quiet L \<Longrightarrow> bd_version descr = 2 \<Longrightarrow> prefix (bf_symbols f) (bd_symbols descr) \<Longrightarrow> length (bd_symbols descr) < 2 ^ 31 \<Longrightarrow>
      vm_step B L descr ac cmd (arg @ rest) vm w = Some (Go rest vm' w')"
  shows "vm_runs B L ac f (bmax_fwrite bs f) (vm, w) (vm', w')"
  using assms by (auto simp: vm_runs_def bmax_fwrite_def)

lemma bmax_fwrite_twice: "bmax_fwrite cs (bmax_fwrite bs f) = bmax_fwrite (bs @ cs) f"
  by (simp add: bmax_fwrite_def)

lemma runs_sized:
  assumes "opcode \<in> set sized_opcodes" "opcode = FVM_PUSH_OBJ_TABLE \<Longrightarrow> 0 \<le> sint v \<and> sint v \<le> 32767"
    and "\<And>descr rest. quiet L \<Longrightarrow> bd_version descr = 2 \<Longrightarrow> prefix (bf_symbols f) (bd_symbols descr) \<Longrightarrow> length (bd_symbols descr) < 2 ^ 31 \<Longrightarrow>
      vm_with_arg B L descr ac opcode v rest vm w = Some (Go rest vm' w')"
  shows "vm_runs B L ac f (code_with_arg opcode v f) (vm, w) (vm', w')"
  unfolding code_with_arg_def fts_bmax_write_opcode_for_def write_int bmax_fwrite_twice
  by (rule runs_step) (simp, simp add: step_sized [OF assms(1,2)] assms(3))

text \<open>The index of a symbol stands for it in every later table.\<close>

lemma find_symbol_Some: "find_symbol s ts i = Some k \<Longrightarrow> i \<le> k \<and> k - i < length ts \<and> ts ! (k - i) = s"
  by (induction ts arbitrary: i) (fastforce split: if_splits simp: nth_Cons' Suc_diff_le less_Suc_eq_le)+

lemma add_symbol:
  assumes "fts_bmax_add_symbol s f = (v, f1)"
  shows "bf_code f1 = bf_code f" "bf_code_size f1 = bf_code_size f" "prefix (bf_symbols f) (bf_symbols f1)"
    "prefix (bf_symbols f1) symbols \<Longrightarrow> length symbols < 2 ^ 31 \<Longrightarrow> table_symbol symbols v = Some s"
proof -
  show "bf_code f1 = bf_code f" "bf_code_size f1 = bf_code_size f" "prefix (bf_symbols f) (bf_symbols f1)"
    using assms by (auto simp: fts_bmax_add_symbol_def split: option.splits)
  assume pre: "prefix (bf_symbols f1) symbols" and len: "length symbols < 2 ^ 31"
  have "\<exists>k. v = of_nat k \<and> k < length (bf_symbols f1) \<and> bf_symbols f1 ! k = s"
    using assms find_symbol_Some [of s "bf_symbols f" 0]
    by (auto simp: fts_bmax_add_symbol_def nth_append split: option.splits)
  then obtain k where k: "v = of_nat k" "k < length (bf_symbols f1)" "bf_symbols f1 ! k = s" by blast
  obtain zs where zs: "symbols = bf_symbols f1 @ zs" using pre by (auto simp: prefix_def)
  have "sint v = int k"
    using k len zs by (simp add: signed_of_nat) (rule signed_take_bit_int_eq_self; simp)
  with k zs show "table_symbol symbols v = Some s" by (simp add: table_symbol_def nth_append)
qed

lemma runs_add_symbol:
  assumes "fts_bmax_add_symbol s f = (v, f1)" "vm_runs B L ac f1 f2 st st'"
  shows "vm_runs B L ac f f2 st st'"
  using add_symbol(1,2,3) [OF assms(1)] assms(2) by (auto simp: vm_runs_def intro: prefix_order.trans)

lemma runs_symbol:
  assumes "opcode \<in> {FVM_PUSH_SYM, FVM_SET_SYM, FVM_PUT_PROP}"
    and "\<And>descr v rest. quiet L \<Longrightarrow> bd_version descr = 2 \<Longrightarrow> table_symbol (bd_symbols descr) v = Some s \<Longrightarrow>
      vm_with_arg B L descr ac opcode v rest vm w = Some (Go rest vm' w')"
  shows "vm_runs B L ac f (code_with_symbol opcode s f) (vm, w) (vm', w')"
proof -
  obtain v f1 where f1: "fts_bmax_add_symbol s f = (v, f1)" by (cases "fts_bmax_add_symbol s f")
  have "vm_runs B L ac f1 (code_with_arg opcode v f1) (vm, w) (vm', w')"
    using assms(1) add_symbol(4) [OF f1]
    by (intro runs_sized assms(2)) (auto simp: sized_opcodes_def FVM_PUSH_SYM_def FVM_SET_SYM_def FVM_PUT_PROP_def FVM_PUSH_OBJ_TABLE_def)
  from runs_add_symbol [OF f1 this] show ?thesis by (simp add: code_with_symbol_def f1)
qed

subsection \<open>The instructions\<close>

definition fits_eval :: "nat \<Rightarrow> bmax_vm \<Rightarrow> bool" where
  "fits_eval n vm \<longleftrightarrow> length (eval_stack vm) + n \<le> EVAL_STACK_DEPTH"

definition with_eval :: "atom list \<Rightarrow> bmax_vm \<Rightarrow> bmax_vm" where
  "with_eval es vm = vm\<lparr>eval_stack := es @ eval_stack vm\<rparr>"

definition saved_atom :: "bmax_env \<Rightarrow> atom \<Rightarrow> atom" where
  "saved_atom B a =
     (case a of AInt i \<Rightarrow> AInt i | AFloat x \<Rightarrow> AFloat (be_double B (be_float B x)) | ASymbol s \<Rightarrow> ASymbol s | _ \<Rightarrow> AInt 0)"

lemma with_eval_simps [simp]:
  "with_eval [] vm = vm" "object_stack (with_eval es vm) = object_stack vm" "object_tables (with_eval es vm) = object_tables vm"
  "eval_stack (with_eval es vm) = es @ eval_stack vm"
  "with_eval es (with_eval es' vm) = with_eval (es @ es') vm"
  by (simp_all add: with_eval_def)

lemma fits_with_eval: "fits_eval n (with_eval es vm) \<longleftrightarrow> fits_eval (length es + n) vm"
  by (simp add: fits_eval_def add_ac)

lemma sint_of_nat: "n < 2 ^ 31 \<Longrightarrow> sint (of_nat n :: int32) = int n"
  by (simp add: signed_of_nat) (rule signed_take_bit_int_eq_self; simp)

lemma opcodes_distinct [simp]:
  "FVM_PUSH_SYM \<noteq> FVM_PUSH_INT" "FVM_SET_INT \<noteq> FVM_PUSH_INT" "FVM_SET_INT \<noteq> FVM_PUSH_SYM"
  "FVM_SET_SYM \<noteq> FVM_PUSH_INT" "FVM_SET_SYM \<noteq> FVM_PUSH_SYM" "FVM_SET_SYM \<noteq> FVM_SET_INT"
  "FVM_POP_ARGS \<notin> {FVM_PUSH_INT, FVM_PUSH_SYM, FVM_SET_INT, FVM_SET_SYM}"
  "FVM_PUSH_OBJ \<notin> {FVM_PUSH_INT, FVM_PUSH_SYM, FVM_SET_INT, FVM_SET_SYM, FVM_POP_ARGS}"
  "FVM_MV_OBJ \<notin> {FVM_PUSH_INT, FVM_PUSH_SYM, FVM_SET_INT, FVM_SET_SYM, FVM_POP_ARGS, FVM_PUSH_OBJ}"
  "FVM_POP_OBJS \<notin> {FVM_PUSH_INT, FVM_PUSH_SYM, FVM_SET_INT, FVM_SET_SYM, FVM_POP_ARGS, FVM_PUSH_OBJ, FVM_MV_OBJ}"
  by (simp_all add: FVM_PUSH_INT_def FVM_PUSH_SYM_def FVM_SET_INT_def FVM_SET_SYM_def FVM_POP_ARGS_def FVM_PUSH_OBJ_def
      FVM_MV_OBJ_def FVM_POP_OBJS_def)

lemmas opcode_values = FVM_PUSH_INT_def FVM_PUSH_SYM_def FVM_SET_INT_def FVM_SET_SYM_def FVM_POP_ARGS_def FVM_PUSH_OBJ_def
  FVM_MV_OBJ_def FVM_POP_OBJS_def FVM_MAKE_OBJ_def FVM_MAKE_TOP_OBJ_def FVM_PUT_PROP_def FVM_PUSH_OBJ_TABLE_def

lemmas vm_arg_simps = vm_with_arg_def vm_next_def opcode_values sized_opcodes_def

lemma runs_push_int:
  "fits_eval 1 vm \<Longrightarrow> vm_runs B L ac f (fts_bmax_code_push_int i f) (vm, w) (with_eval [AInt i] vm, w)"
  unfolding fts_bmax_code_push_int_def
  by (rule runs_sized) (auto simp: vm_arg_simps push_eval_def fits_eval_def with_eval_def)

lemma runs_float:
  assumes "cmd \<in> {FVM_PUSH_FLOAT, FVM_SET_FLOAT}"
    and "(if cmd = FVM_PUSH_FLOAT then push_eval a vm else set_eval a vm) = Some vm'" "a = AFloat (be_double B (be_float B x))"
  shows "vm_runs B L ac f (fts_bmax_write_float B x (fts_bmax_write_opcode cmd f)) (vm, w) (vm', w)"
  unfolding fts_bmax_write_opcode_def fts_bmax_write_float_def bmax_fwrite_twice
proof (rule runs_step)
  show "[cmd] @ long_bytes (be_float B x) = cmd # long_bytes (be_float B x)" by simp
  fix descr rest
  have "length (long_bytes (be_float B x)) = 4" by (simp add: long_bytes_def)
  with assms show "vm_step B L descr ac cmd (long_bytes (be_float B x) @ rest) vm w = Some (Go rest vm' w)"
    by (auto simp: vm_step_def get_l vm_next_def FVM_RETURN_def FVM_PUSH_FLOAT_def FVM_SET_FLOAT_def)
qed

lemma runs_push_symbol:
  "fits_eval 1 vm \<Longrightarrow> vm_runs B L ac f (fts_bmax_code_push_symbol s f) (vm, w) (with_eval [ASymbol s] vm, w)"
  unfolding fts_bmax_code_push_symbol_def
  by (rule runs_symbol) (auto simp: vm_arg_simps push_eval_def fits_eval_def with_eval_def)

lemma runs_push_atom:
  "fits_eval 1 vm \<Longrightarrow> vm_runs B L ac f (push_atom B a f) (vm, w) (with_eval [saved_atom B a] vm, w)"
proof (cases a)
  case (AFloat x)
  then show "fits_eval 1 vm \<Longrightarrow> ?thesis"
    unfolding push_atom_def fts_bmax_code_push_float_def saved_atom_def
    by simp (rule runs_float, auto simp: push_eval_def fits_eval_def with_eval_def)
qed (simp_all add: push_atom_def saved_atom_def runs_push_int runs_push_symbol)

lemma runs_push_atoms:
  "fits_eval (length at) vm \<Longrightarrow>
     vm_runs B L ac f (fts_bmax_code_push_atoms B at f) (vm, w) (with_eval (map (saved_atom B) at) vm, w)"
proof (induction at)
  case Nil
  then show ?case by (simp add: runs_refl)
next
  case (Cons a at)
  then have "vm_runs B L ac f (fts_bmax_code_push_atoms B at f) (vm, w) (with_eval (map (saved_atom B) at) vm, w)"
    by (intro Cons.IH) (simp add: fits_eval_def)
  moreover have "vm_runs B L ac (fts_bmax_code_push_atoms B at f) (push_atom B a (fts_bmax_code_push_atoms B at f))
      (with_eval (map (saved_atom B) at) vm, w) (with_eval [saved_atom B a] (with_eval (map (saved_atom B) at) vm), w)"
    using Cons.prems by (intro runs_push_atom) (simp add: fits_with_eval)
  ultimately show ?case by simp (rule runs_trans)
qed

lemma runs_pop_args:
  "sint n = int (length es) \<Longrightarrow> vm_runs B L ac f (fts_bmax_code_pop_args n f) (with_eval es vm, w) (vm, w)"
  unfolding fts_bmax_code_pop_args_def
  by (rule runs_sized) (auto simp: vm_arg_simps pop_eval_def)

definition plain_value :: "atom \<Rightarrow> bool" where
  "plain_value a \<longleftrightarrow> (case a of AInt _ \<Rightarrow> True | AFloat _ \<Rightarrow> True | ASymbol _ \<Rightarrow> True | _ \<Rightarrow> False)"

lemma runs_set_atom:
  assumes "plain_value a"
  shows "vm_runs B L ac f (fts_bmax_code_set_atom B a f) (with_eval (e # es) vm, w) (with_eval (saved_atom B a # es) vm, w)"
proof (cases a)
  case (AInt i)
  then show ?thesis
    unfolding fts_bmax_code_set_atom_def fts_bmax_code_set_int_def saved_atom_def
    by simp (rule runs_sized, auto simp: vm_arg_simps set_eval_def with_eval_def)
next
  case (AFloat x)
  then show ?thesis
    unfolding fts_bmax_code_set_atom_def fts_bmax_code_set_float_def saved_atom_def
    by simp (rule runs_float, auto simp: set_eval_def with_eval_def FVM_PUSH_FLOAT_def FVM_SET_FLOAT_def)
next
  case (ASymbol s)
  then show ?thesis
    unfolding fts_bmax_code_set_atom_def fts_bmax_code_set_symbol_def saved_atom_def
    by simp (rule runs_symbol, auto simp: vm_arg_simps set_eval_def with_eval_def)
qed (use assms in \<open>simp_all add: plain_value_def\<close>)

definition with_objs :: "addr list \<Rightarrow> bmax_vm \<Rightarrow> bmax_vm" where
  "with_objs xs vm = vm\<lparr>object_stack := xs @ object_stack vm\<rparr>"

definition with_table :: "addr option list \<Rightarrow> bmax_vm \<Rightarrow> bmax_vm" where
  "with_table t vm = vm\<lparr>object_tables := t # object_tables vm\<rparr>"

lemma with_objs_simps [simp]:
  "with_objs [] vm = vm" "object_stack (with_objs xs vm) = xs @ object_stack vm"
  "object_tables (with_objs xs vm) = object_tables vm" "eval_stack (with_objs xs vm) = eval_stack vm"
  "with_objs xs (with_eval es vm) = with_eval es (with_objs xs vm)"
  "with_objs xs (with_objs ys vm) = with_objs (xs @ ys) vm"
  by (simp_all add: with_objs_def with_eval_def)

lemma with_table_simps [simp]:
  "object_stack (with_table t vm) = object_stack vm" "object_tables (with_table t vm) = t # object_tables vm"
  "eval_stack (with_table t vm) = eval_stack vm" "with_table t (with_eval es vm) = with_eval es (with_table t vm)"
  "with_table t (with_objs xs vm) = with_objs xs (with_table t vm)"
  by (simp_all add: with_table_def with_objs_def with_eval_def)

lemma runs_put_prop:
  assumes "object_stack vm = x # xs" "eval_stack vm = v # es"
  shows "vm_runs B L ac f (fts_bmax_code_put_prop s f) (vm, w) (vm, lo_put_prop L x s v w)"
  unfolding fts_bmax_code_put_prop_def
  by (rule runs_symbol) (use assms in \<open>auto simp: vm_arg_simps top_object_def\<close>)

lemma runs_obj_mess:
  assumes "object_stack vm = x # xs" "sint n = int (length at)" "eval_stack vm = at @ es"
  shows "vm_runs B L ac f (fts_bmax_code_obj_mess s n f) (vm, w) (vm, lo_send L x s at w)"
proof -
  let ?f1 = "fts_bmax_write_l_int (- 1) (fts_bmax_write_opcode FVM_OBJ_MESS f)"
  obtain v f2 where f2: "fts_bmax_add_symbol s ?f1 = (v, f2)" by (cases "fts_bmax_add_symbol s ?f1")
  have eq: "fts_bmax_code_obj_mess s n f = bmax_fwrite (long_bytes v @ long_bytes n) f2"
    unfolding fts_bmax_code_obj_mess_def Let_def f2 prod.case by (simp add: fts_bmax_write_l_int_def bmax_fwrite_twice)
  have l4: "length (long_bytes u) = 4" for u by (simp add: long_bytes_def)
  have "vm_loop B L descr ac ((FVM_OBJ_MESS # long_bytes (- 1) @ long_bytes v @ long_bytes n) @ rest) vm w
      = vm_loop B L descr ac rest vm (lo_send L x s at w)"
    if "quiet L" "prefix (bf_symbols f2) (bd_symbols descr)" "length (bd_symbols descr) < 2 ^ 31" for descr rest
    using assms add_symbol(4) [OF f2 that(2,3)] that(1)
    by (simp add: vm_step_def vm_obj_mess_def Let_def get_l l4 FVM_OBJ_MESS_def FVM_RETURN_def FVM_PUSH_FLOAT_def FVM_SET_FLOAT_def
        top_object_def eval_args_def)
  moreover have "bf_code f2 = bf_code f @ FVM_OBJ_MESS # long_bytes (- 1)" "prefix (bf_symbols f) (bf_symbols f2)"
    "bf_code_size f2 = bf_code_size f + 5"
    using add_symbol(1-3) [OF f2] by (simp_all add: fts_bmax_write_l_int_def fts_bmax_write_opcode_def bmax_fwrite_def l4)
  ultimately show ?thesis
    unfolding vm_runs_def eq by (auto simp: bmax_fwrite_def l4 intro!: exI [of _ "FVM_OBJ_MESS # long_bytes (- 1) @ long_bytes v @ long_bytes n"])
qed

lemma runs_make_obj:
  assumes "object_stack vm = parent # xs" "sint n = int (length at)" "length (object_stack vm) < OBJECT_STACK_DEPTH"
    "lo_eval L parent at w = (x, w')"
  shows "vm_runs B L ac f (fts_bmax_code_make_obj n f) (with_eval at vm, w) (with_objs [x] (with_eval at vm), w')"
  unfolding fts_bmax_code_make_obj_def
proof (rule runs_sized)
  fix descr :: bmax_file_descr and rest
  assume "quiet L" "bd_version descr = 2"
  then have "versioned_eval_object_description B L (bd_version descr) parent at w = Some (lo_eval L parent at w)"
    by (auto simp: versioned_eval_object_description_def split: list.splits atom.splits)
  with assms \<open>quiet L\<close> show "vm_with_arg B L descr ac FVM_MAKE_OBJ n rest (with_eval at vm) w = Some (Go rest (with_objs [x] (with_eval at vm)) w')"
    by (simp add: vm_arg_simps vm_make_obj_def top_object_def eval_args_def push_object_def with_objs_def with_eval_def)
qed (simp_all add: vm_arg_simps)

lemma runs_make_top_obj:
  assumes "object_stack vm = parent # xs" "eval_stack vm = at @ es" "sint n + int ac = int (length at)"
    "length (object_stack vm) < OBJECT_STACK_DEPTH" "lo_eval L parent at w = (x, w')"
  shows "vm_runs B L ac f (fts_bmax_code_make_top_obj n f) (vm, w)
    (with_objs [x] vm, if lo_is_patcher L x w' then lo_set_scope L x w' else w')"
  unfolding fts_bmax_code_make_top_obj_def
proof (rule runs_sized)
  fix descr :: bmax_file_descr and rest
  assume "quiet L" "bd_version descr = 2"
  then have "versioned_eval_object_description B L (bd_version descr) parent at w = Some (lo_eval L parent at w)"
    by (auto simp: versioned_eval_object_description_def split: list.splits atom.splits)
  with assms \<open>quiet L\<close> show "vm_with_arg B L descr ac FVM_MAKE_TOP_OBJ n rest vm w
      = Some (Go rest (with_objs [x] vm) (if lo_is_patcher L x w' then lo_set_scope L x w' else w'))"
    by (simp add: vm_arg_simps vm_make_obj_def top_object_def eval_args_def push_object_def with_objs_def)
qed (simp_all add: vm_arg_simps)

lemma runs_mv_obj:
  assumes "object_stack vm = x # xs" "0 \<le> sint i" "nat (sint i) < length t"
  shows "vm_runs B L ac f (fts_bmax_code_mv_obj i f) (with_table t vm, w) (with_table (t[nat (sint i) := Some x]) vm, w)"
  unfolding fts_bmax_code_mv_obj_def
  by (rule runs_sized) (use assms in \<open>auto simp: vm_arg_simps top_object_def table_put_def with_table_def\<close>)

lemma runs_push_obj:
  assumes "object_tables vm = t # ts" "0 \<le> sint i" "nat (sint i) < length t" "t ! nat (sint i) = Some x"
    "length (object_stack vm) < OBJECT_STACK_DEPTH"
  shows "vm_runs B L ac f (fts_bmax_code_push_obj i f) (vm, w) (with_objs [x] vm, w)"
  unfolding fts_bmax_code_push_obj_def
  by (rule runs_sized) (use assms in \<open>auto simp: vm_arg_simps push_object_def table_get_def with_objs_def\<close>)

lemma runs_pop_objs:
  "sint n = int (length xs) \<Longrightarrow> vm_runs B L ac f (fts_bmax_code_pop_objs n f) (with_objs xs vm, w) (vm, w)"
  unfolding fts_bmax_code_pop_objs_def
  by (rule runs_sized) (auto simp: vm_arg_simps pop_objects_def with_objs_def)

lemma runs_push_table:
  assumes "0 \<le> sint n" "sint n \<le> 32767" "length (object_tables vm) < OBJECT_TABLE_STACK_DEPTH"
  shows "vm_runs B L ac f (fts_bmax_code_push_obj_table n f) (vm, w) (with_table (replicate (nat (sint n)) None) vm, w)"
  unfolding fts_bmax_code_push_obj_table_def
  by (rule runs_sized) (use assms in \<open>auto simp: vm_arg_simps push_table_def with_table_def\<close>)

lemma runs_pop_table: "vm_runs B L ac f (fts_bmax_code_pop_obj_table f) (with_table t vm, w) (vm, w)"
  unfolding fts_bmax_code_pop_obj_table_def fts_bmax_write_opcode_def
  by (rule runs_step [of _ _ "[]"])
    (auto simp: vm_step_def pop_table_def vm_next_def with_table_def FVM_POP_OBJ_TABLE_def FVM_RETURN_def FVM_PUSH_FLOAT_def
      FVM_SET_FLOAT_def FVM_OBJ_MESS_def FVM_CONNECT_def)

lemma runs_connect:
  "vm_runs B L ac f (fts_bmax_code_connect f) (with_objs [src, dst] (with_eval [AInt woutlet, AInt winlet] vm), w)
    (with_objs [src, dst] (with_eval [AInt woutlet, AInt winlet] vm), lo_connect L src woutlet dst winlet w)"
  unfolding fts_bmax_code_connect_def fts_bmax_write_opcode_def
  by (rule runs_step [of _ _ "[]"])
    (auto simp: vm_step_def vm_connect_def FVM_CONNECT_def FVM_RETURN_def FVM_PUSH_FLOAT_def FVM_SET_FLOAT_def FVM_OBJ_MESS_def)

subsection \<open>What loading does\<close>

definition load_prop :: "bmax_env \<Rightarrow> 'w loader_ops \<Rightarrow> addr \<Rightarrow> saved_object \<Rightarrow> string \<Rightarrow> 'w \<Rightarrow> 'w" where
  "load_prop B L x o1 prop w =
     (let value = so_prop o1 (be_sym B prop)
      in if value = AVoid then w else lo_put_prop L x (be_sym B prop) (saved_atom B value) w)"

definition load_props :: "bmax_env \<Rightarrow> 'w loader_ops \<Rightarrow> addr \<Rightarrow> saved_object \<Rightarrow> string list \<Rightarrow> 'w \<Rightarrow> 'w" where
  "load_props B L x o1 props w = fold (load_prop B L x o1) props w"

definition load_sends :: "bmax_env \<Rightarrow> 'w loader_ops \<Rightarrow> addr \<Rightarrow> (sym \<times> atom list) list \<Rightarrow> 'w \<Rightarrow> 'w" where
  "load_sends B L x ms w = fold (\<lambda>(s, at). lo_send L x s (map (saved_atom B) at)) ms w"

definition load_name :: "bmax_env \<Rightarrow> 'w loader_ops \<Rightarrow> addr \<Rightarrow> saved_object \<Rightarrow> 'w \<Rightarrow> 'w" where
  "load_name B L x o1 w =
     (if so_name o1 \<noteq> be_sym B ''''
      then lo_send L x (be_sym B ''name'') (ASymbol (so_name o1) # (if so_global o1 then [AInt 1] else [])) w else w)"

definition load_state :: "bmax_env \<Rightarrow> 'w loader_ops \<Rightarrow> addr \<Rightarrow> saved_object \<Rightarrow> 'w \<Rightarrow> 'w" where
  "load_state B L x o1 w =
     (if so_persistent o1 then lo_send L x (be_sym B ''persistence'') [AInt 1] (load_sends B L x (so_state o1) w) else w)"

definition load_object :: "bmax_env \<Rightarrow> 'w loader_ops \<Rightarrow> addr \<Rightarrow> saved_object \<Rightarrow> 'w \<Rightarrow> addr \<times> 'w" where
  "load_object B L parent o1 w =
     (let (x, w1) = lo_eval L parent (map (saved_atom B) (so_description o1)) w;
          w2 = load_props B L x o1 (object_properties @ (if so_is_patcher o1 then window_properties else [])) w1
      in (x, load_state B L x o1 (load_sends B L x (so_gui o1) (load_name B L x o1 w2))))"

definition load_top_object :: "bmax_env \<Rightarrow> 'w loader_ops \<Rightarrow> addr \<Rightarrow> atom list \<Rightarrow> saved_object \<Rightarrow> 'w \<Rightarrow> addr \<times> 'w" where
  "load_top_object B L parent at o1 w =
     (let (x, w1) = lo_eval L parent (ASymbol (be_sym B ''jpatcher'') # at) w;
          w2 = (if lo_is_patcher L x w1 then lo_set_scope L x w1 else w1)
      in (x, load_props B L x o1 top_properties w2))"

definition load_connection ::
  "'w loader_ops \<Rightarrow> saved_tree list \<Rightarrow> addr list \<Rightarrow> int \<Rightarrow> int \<Rightarrow> saved_connection \<Rightarrow> 'w \<Rightarrow> 'w" where
  "load_connection L ps xs fromidx woutlet c w =
     (if sc_type c > c_hidden
      then lo_connect L (xs ! nat fromidx) (word_of_int woutlet) (xs ! nat (fts_bmax_find_objidx (sc_dst c) ps)) (sc_winlet c) w
      else w)"

definition load_outlets ::
  "'w loader_ops \<Rightarrow> saved_tree list \<Rightarrow> addr list \<Rightarrow> int \<Rightarrow> saved_connection list list \<Rightarrow> 'w \<Rightarrow> 'w" where
  "load_outlets L ps xs fromidx outlets w =
     fold (\<lambda>(woutlet, cs). fold (load_connection L ps xs fromidx woutlet) cs) (zip (map int [0..<length outlets]) outlets) w"

definition load_connections :: "'w loader_ops \<Rightarrow> saved_tree list \<Rightarrow> addr list \<Rightarrow> 'w \<Rightarrow> 'w" where
  "load_connections L ps xs w =
     fold (\<lambda>(i, p). load_outlets L ps xs i (so_outlets (tree_object p))) (zip (map int [0..<length ps]) ps) w"

fun load_tree :: "bmax_env \<Rightarrow> 'w loader_ops \<Rightarrow> addr \<Rightarrow> saved_tree \<Rightarrow> 'w \<Rightarrow> addr \<times> 'w"
  and load_trees :: "bmax_env \<Rightarrow> 'w loader_ops \<Rightarrow> addr \<Rightarrow> saved_tree list \<Rightarrow> 'w \<Rightarrow> addr list \<times> 'w" where
  "load_tree B L parent (Plain o1) w = load_object B L parent o1 w"
| "load_tree B L parent (Patcher o1 ps) w =
     (let (x, w1) = load_object B L parent o1 w; (xs, w2) = load_trees B L x ps w1
      in (x, load_connections L ps xs w2))"
| "load_trees B L parent [] w = ([], w)"
| "load_trees B L parent (p # ps) w =
     (let (x, w1) = load_tree B L parent p w; (xs, w2) = load_trees B L parent ps w1 in (x # xs, w2))"

definition load_patcher :: "bmax_env \<Rightarrow> 'w loader_ops \<Rightarrow> addr \<Rightarrow> atom list \<Rightarrow> saved_object \<Rightarrow> saved_tree list \<Rightarrow> 'w \<Rightarrow> addr \<times> 'w" where
  "load_patcher B L parent at o1 ps w =
     (let (x, w1) = load_top_object B L parent at o1 w; (xs, w2) = load_trees B L x ps w1
      in (x, load_connections L ps xs w2))"

subsection \<open>What can be saved\<close>

text \<open>
  With \<open>n\<close> atoms, \<open>k\<close> objects and \<open>m\<close> tables on the stacks there is room for the tree; the values of the
  properties are numbers and symbols; no patcher has more than 32767 objects; the connections end
  at objects of the patcher.
\<close>

definition object_ok :: "bmax_env \<Rightarrow> nat \<Rightarrow> saved_object \<Rightarrow> bool" where
  "object_ok B n o1 \<longleftrightarrow>
     n + 2 \<le> EVAL_STACK_DEPTH \<and> n + length (so_description o1) \<le> EVAL_STACK_DEPTH
     \<and> list_all (\<lambda>(s, at). n + length at \<le> EVAL_STACK_DEPTH) (so_gui o1 @ so_state o1)
     \<and> list_all (\<lambda>prop. so_prop o1 (be_sym B prop) = AVoid \<or> plain_value (so_prop o1 (be_sym B prop))) top_properties"

definition connection_ok :: "saved_tree list \<Rightarrow> saved_connection \<Rightarrow> bool" where
  "connection_ok ps c \<longleftrightarrow> sc_type c \<le> c_hidden \<or> sc_dst c \<in> set (map (so_object \<circ> tree_object) ps)"

definition connections_ok :: "saved_tree list \<Rightarrow> bool" where
  "connections_ok ps \<longleftrightarrow> list_all (\<lambda>p. list_all (list_all (connection_ok ps)) (so_outlets (tree_object p))) ps"

fun tree_ok :: "bmax_env \<Rightarrow> nat \<Rightarrow> nat \<Rightarrow> nat \<Rightarrow> saved_tree \<Rightarrow> bool" where
  "tree_ok B n k m (Plain o1) \<longleftrightarrow> object_ok B n o1 \<and> k + 1 \<le> OBJECT_STACK_DEPTH"
| "tree_ok B n k m (Patcher o1 ps) \<longleftrightarrow>
     object_ok B n o1 \<and> k + 3 \<le> OBJECT_STACK_DEPTH \<and> m + 1 \<le> OBJECT_TABLE_STACK_DEPTH \<and> length ps \<le> 32767
     \<and> list_all (tree_ok B n (k + 1) (m + 1)) ps \<and> connections_ok ps"

subsection \<open>Objects\<close>

lemma runs_fold:
  assumes "\<And>y f w. y \<in> set ys \<Longrightarrow> vm_runs B L ac f (c y f) (vm, w) (vm, d y w)"
  shows "vm_runs B L ac f (fold c ys f) (vm, w) (vm, fold d ys w)"
  using assms
proof (induction ys arbitrary: f w)
  case (Cons y ys)
  have "vm_runs B L ac f (c y f) (vm, w) (vm, d y w)" by (rule Cons.prems) simp
  moreover have "vm_runs B L ac (c y f) (fold c ys (c y f)) (vm, d y w) (vm, fold d ys (d y w))"
    by (rule Cons.IH) (simp add: Cons.prems)
  ultimately show ?case by simp (rule runs_trans)
qed (simp add: runs_refl)

text \<open>The properties change the top of the stack, which is popped afterwards.\<close>

lemma runs_property:
  assumes "object_stack vm = x # xs" "so_prop o1 (be_sym B prop) = AVoid \<or> plain_value (so_prop o1 (be_sym B prop))"
  shows "\<exists>e'. vm_runs B L ac f (fts_bmax_code_new_property B o1 prop f) (with_eval (e # es) vm, w)
    (with_eval (e' # es) vm, load_prop B L x o1 prop w)"
proof (cases "so_prop o1 (be_sym B prop) = AVoid")
  case True
  then show ?thesis by (auto simp: fts_bmax_code_new_property_def load_prop_def intro: runs_refl)
next
  case False
  let ?v = "so_prop o1 (be_sym B prop)"
  have "vm_runs B L ac f (fts_bmax_code_set_atom B ?v f) (with_eval (e # es) vm, w) (with_eval (saved_atom B ?v # es) vm, w)"
    using False assms(2) by (intro runs_set_atom) simp
  moreover have "vm_runs B L ac (fts_bmax_code_set_atom B ?v f) (fts_bmax_code_put_prop (be_sym B prop) (fts_bmax_code_set_atom B ?v f))
      (with_eval (saved_atom B ?v # es) vm, w) (with_eval (saved_atom B ?v # es) vm, lo_put_prop L x (be_sym B prop) (saved_atom B ?v) w)"
    using assms(1) by (intro runs_put_prop) simp_all
  ultimately show ?thesis using False
    by (auto simp: fts_bmax_code_new_property_def load_prop_def Let_def intro: runs_trans)
qed

lemma runs_properties:
  assumes "object_stack vm = x # xs"
    "list_all (\<lambda>prop. so_prop o1 (be_sym B prop) = AVoid \<or> plain_value (so_prop o1 (be_sym B prop))) props"
  shows "\<exists>e'. vm_runs B L ac f (code_properties B o1 props f) (with_eval (e # es) vm, w)
    (with_eval (e' # es) vm, load_props B L x o1 props w)"
  using assms(2) unfolding code_properties_def load_props_def
proof (induction props arbitrary: f e w)
  case Nil
  then show ?case by (auto intro: runs_refl)
next
  case (Cons p props)
  obtain e1 where e1: "vm_runs B L ac f (fts_bmax_code_new_property B o1 p f) (with_eval (e # es) vm, w)
      (with_eval (e1 # es) vm, load_prop B L x o1 p w)"
    using runs_property [OF assms(1), of o1 B p L ac f e es w] Cons.prems by auto
  obtain e2 where "vm_runs B L ac (fts_bmax_code_new_property B o1 p f)
      (fold (fts_bmax_code_new_property B o1) props (fts_bmax_code_new_property B o1 p f))
      (with_eval (e1 # es) vm, load_prop B L x o1 p w) (with_eval (e2 # es) vm, fold (load_prop B L x o1) props (load_prop B L x o1 p w))"
    using Cons.IH [of "fts_bmax_code_new_property B o1 p f" e1 "load_prop B L x o1 p w"] Cons.prems by auto
  with e1 show ?case by (auto intro: runs_trans)
qed

lemma runs_dump:
  assumes "object_stack vm = x # xs" "fits_eval (length at) vm"
  shows "vm_runs B L ac f (saver_dumper_send B s at f) (vm, w) (vm, lo_send L x s (map (saved_atom B) at) w)"
proof -
  let ?n = "of_nat (length at) :: int32" and ?vm = "with_eval (map (saved_atom B) at) vm"
  have n: "sint ?n = int (length at)"
    using assms(2) by (intro sint_of_nat) (simp add: fits_eval_def EVAL_STACK_DEPTH_def)
  note runs_push_atoms [OF assms(2), of B L ac f w]
  moreover note runs_obj_mess [of ?vm x xs ?n "map (saved_atom B) at" "eval_stack vm" B L ac "fts_bmax_code_push_atoms B at f" s w]
  moreover note runs_pop_args [of ?n "map (saved_atom B) at" B L ac "fts_bmax_code_obj_mess s ?n (fts_bmax_code_push_atoms B at f)" vm]
  ultimately show ?thesis unfolding saver_dumper_send_def using assms(1) n by (auto intro: runs_trans)
qed

lemma runs_dumps:
  assumes "object_stack vm = x # xs" "list_all (\<lambda>(s, at). fits_eval (length at) vm) ms"
  shows "vm_runs B L ac f (code_dumps B ms f) (vm, w) (vm, load_sends B L x ms w)"
  unfolding code_dumps_def load_sends_def
  by (rule runs_fold) (use assms in \<open>auto simp: list_all_iff intro!: runs_dump\<close>)

lemma runs_name:
  assumes "object_stack vm = x # xs" "fits_eval 2 vm"
  shows "vm_runs B L ac f (code_name B o1 f) (vm, w) (vm, load_name B L x o1 w)"
proof (cases "so_name o1 = be_sym B ''''")
  case False
  let ?nm = "be_sym B ''name''"
  show ?thesis
  proof (cases "so_global o1")
    case True
    let ?f1 = "fts_bmax_code_push_int 1 f" let ?f2 = "fts_bmax_code_push_symbol (so_name o1) ?f1"
    let ?vm = "with_eval [ASymbol (so_name o1), AInt 1] vm"
    have "vm_runs B L ac f ?f1 (vm, w) (with_eval [AInt 1] vm, w)"
      using assms(2) by (intro runs_push_int) (simp add: fits_eval_def)
    moreover have "vm_runs B L ac ?f1 ?f2 (with_eval [AInt 1] vm, w) (with_eval [ASymbol (so_name o1)] (with_eval [AInt 1] vm), w)"
      using assms(2) by (intro runs_push_symbol) (simp add: fits_with_eval numeral_2_eq_2)
    moreover have "vm_runs B L ac ?f2 (fts_bmax_code_obj_mess ?nm 2 ?f2) (?vm, w) (?vm, lo_send L x ?nm [ASymbol (so_name o1), AInt 1] w)"
      using assms(1) by (intro runs_obj_mess) simp_all
    moreover have "vm_runs B L ac (fts_bmax_code_obj_mess ?nm 2 ?f2) (fts_bmax_code_pop_args 2 (fts_bmax_code_obj_mess ?nm 2 ?f2))
        (?vm, lo_send L x ?nm [ASymbol (so_name o1), AInt 1] w) (vm, lo_send L x ?nm [ASymbol (so_name o1), AInt 1] w)"
      by (intro runs_pop_args) simp
    ultimately show ?thesis using True False by (auto simp: code_name_def load_name_def intro: runs_trans)
  next
    case local: False
    let ?f2 = "fts_bmax_code_push_symbol (so_name o1) f" and ?vm = "with_eval [ASymbol (so_name o1)] vm"
    have "vm_runs B L ac f ?f2 (vm, w) (?vm, w)"
      using assms(2) by (intro runs_push_symbol) (simp add: fits_eval_def)
    moreover have "vm_runs B L ac ?f2 (fts_bmax_code_obj_mess ?nm 1 ?f2) (?vm, w) (?vm, lo_send L x ?nm [ASymbol (so_name o1)] w)"
      using assms(1) by (intro runs_obj_mess) simp_all
    moreover have "vm_runs B L ac (fts_bmax_code_obj_mess ?nm 1 ?f2) (fts_bmax_code_pop_args 1 (fts_bmax_code_obj_mess ?nm 1 ?f2))
        (?vm, lo_send L x ?nm [ASymbol (so_name o1)] w) (vm, lo_send L x ?nm [ASymbol (so_name o1)] w)"
      by (intro runs_pop_args) simp
    ultimately show ?thesis using local False by (auto simp: code_name_def load_name_def intro: runs_trans)
  qed
qed (simp add: code_name_def load_name_def runs_refl)

lemma runs_state:
  assumes "object_stack vm = x # xs" "fits_eval 2 vm" "list_all (\<lambda>(s, at). fits_eval (length at) vm) (so_state o1)"
  shows "vm_runs B L ac f (code_state B o1 f) (vm, w) (vm, load_state B L x o1 w)"
proof (cases "so_persistent o1")
  case True
  let ?p = "be_sym B ''persistence''" and ?vm = "with_eval [AInt 1] vm"
  let ?f1 = "code_dumps B (so_state o1) f" and ?w1 = "load_sends B L x (so_state o1) w"
  let ?f2 = "fts_bmax_code_push_int 1 ?f1" and ?w2 = "lo_send L x ?p [AInt 1] ?w1"
  have "vm_runs B L ac f ?f1 (vm, w) (vm, ?w1)" using assms(1,3) by (rule runs_dumps)
  moreover have "vm_runs B L ac ?f1 ?f2 (vm, ?w1) (?vm, ?w1)" using assms(2) by (intro runs_push_int) (simp add: fits_eval_def)
  moreover have "vm_runs B L ac ?f2 (fts_bmax_code_obj_mess ?p 1 ?f2) (?vm, ?w1) (?vm, ?w2)"
    using assms(1) by (intro runs_obj_mess) simp_all
  moreover have "vm_runs B L ac (fts_bmax_code_obj_mess ?p 1 ?f2) (fts_bmax_code_pop_args 1 (fts_bmax_code_obj_mess ?p 1 ?f2))
      (?vm, ?w2) (vm, ?w2)"
    by (intro runs_pop_args) simp
  ultimately show ?thesis using True by (auto simp: code_state_def load_state_def intro: runs_trans)
qed (simp add: code_state_def load_state_def runs_refl)

lemma object_properties_ok:
  assumes "object_ok B n o1"
  shows "list_all (\<lambda>prop. so_prop o1 (be_sym B prop) = AVoid \<or> plain_value (so_prop o1 (be_sym B prop)))
    (object_properties @ (if so_is_patcher o1 then window_properties else []))"
  using assms by (simp add: object_ok_def object_properties_def window_properties_def top_properties_def)

text \<open>The state after the object is made: \<open>index\<close> tells where it goes in the table.\<close>

lemma runs_object:
  assumes "object_stack vm = parent # xs" "object_ok B (length (eval_stack vm)) o1" "length (object_stack vm) < OBJECT_STACK_DEPTH"
    "0 \<le> i" "i < int (length t)" "i \<le> 32767" "load_object B L parent o1 w = (x, w')"
  shows "vm_runs B L ac f (fts_bmax_code_new_object B o1 i f) (with_table t vm, w)
    (with_objs [x] (with_table (t[nat i := Some x]) vm), w')"
proof -
  let ?d = "so_description o1" and ?n = "of_nat (length (so_description o1)) :: int32"
  let ?args = "map (saved_atom B) ?d" and ?props = "object_properties @ (if so_is_patcher o1 then window_properties else [])"
  let ?t' = "t[nat i := Some x]" and ?vm' = "with_objs [x] (with_table (t[nat i := Some x]) vm)"
  obtain w1 where w1: "lo_eval L parent ?args w = (x, w1)"
    "w' = load_state B L x o1 (load_sends B L x (so_gui o1) (load_name B L x o1 (load_props B L x o1 ?props w1)))"
    using assms(7) by (auto simp: load_object_def Let_def split: prod.splits)
  have room: "fits_eval (length ?d) vm" "fits_eval 2 vm" "list_all (\<lambda>(s, at). fits_eval (length at) vm) (so_gui o1 @ so_state o1)"
    using assms(2) by (auto simp: object_ok_def fits_eval_def)
  then have fits: "fits_eval (length ?d) (with_table t vm)" "fits_eval 2 ?vm'" "fits_eval 1 ?vm'"
    "list_all (\<lambda>(s, at). fits_eval (length at) ?vm') (so_gui o1 @ so_state o1)"
    by (simp_all add: fits_eval_def)
  have n: "sint ?n = int (length ?d)"
    using room(1) by (intro sint_of_nat) (simp add: fits_eval_def EVAL_STACK_DEPTH_def)
  have si: "sint (word_of_int i :: int32) = i" using assms(4,6) sint_of_nat [of "nat i"] by simp
  let ?f0 = "fts_bmax_code_push_atoms B ?d f" let ?f1 = "fts_bmax_code_make_obj ?n ?f0"
  let ?f2 = "fts_bmax_code_mv_obj (word_of_int i) ?f1"
  have "vm_runs B L ac f ?f0 (with_table t vm, w) (with_eval ?args (with_table t vm), w)" using fits(1) by (rule runs_push_atoms)
  moreover have "vm_runs B L ac ?f0 ?f1 (with_eval ?args (with_table t vm), w) (with_objs [x] (with_eval ?args (with_table t vm)), w1)"
    using assms(1,3) n w1(1) by (intro runs_make_obj) simp_all
  moreover have "vm_runs B L ac ?f1 ?f2 (with_objs [x] (with_eval ?args (with_table t vm)), w1) (with_eval ?args ?vm', w1)"
    using runs_mv_obj [of "with_objs [x] (with_eval ?args vm)" x "object_stack vm" "word_of_int i" t B L ac ?f1 w1] assms(4,5) si
    by simp
  ultimately have made: "vm_runs B L ac f ?f2 (with_table t vm, w) (with_eval ?args ?vm', w1)" by (meson runs_trans)
  let ?f3 = "if ?d = [] then fts_bmax_code_push_int 0 ?f2 else ?f2"
  let ?w2 = "load_props B L x o1 ?props w1" and ?k = "if ?d = [] then 1 else ?n"
  obtain e es where ees: "vm_runs B L ac ?f2 ?f3 (with_eval ?args ?vm', w1) (with_eval (e # es) ?vm', w1)" "sint ?k = int (length (e # es))"
  proof (cases ?d)
    case Nil
    have "vm_runs B L ac ?f2 (fts_bmax_code_push_int 0 ?f2) (?vm', w1) (with_eval [AInt 0] ?vm', w1)"
      using fits(3) by (rule runs_push_int)
    with Nil show ?thesis by (intro that [of "AInt 0" "[]"]) simp_all
  next
    case (Cons a d)
    with n show ?thesis by (intro that [of "saved_atom B a" "map (saved_atom B) d"]) (simp_all add: runs_refl)
  qed
  let ?f4 = "code_properties B o1 ?props ?f3" let ?f5 = "fts_bmax_code_pop_args ?k ?f4"
  obtain e' where "vm_runs B L ac ?f3 ?f4 (with_eval (e # es) ?vm', w1) (with_eval (e' # es) ?vm', ?w2)"
    using runs_properties [OF _ object_properties_ok [OF assms(2)], of ?vm' x "object_stack vm" L ac ?f3 e es w1] by auto
  moreover have "vm_runs B L ac ?f4 ?f5 (with_eval (e' # es) ?vm', ?w2) (?vm', ?w2)"
    using ees(2) by (intro runs_pop_args) simp
  ultimately have props: "vm_runs B L ac f ?f5 (with_table t vm, w) (?vm', ?w2)"
    using made ees(1) by (meson runs_trans)
  let ?f6 = "code_name B o1 ?f5" and ?w3 = "load_name B L x o1 ?w2"
  have "vm_runs B L ac ?f5 ?f6 (?vm', ?w2) (?vm', ?w3)" by (rule runs_name) (use fits(2) in simp_all)
  moreover have "vm_runs B L ac ?f6 (code_dumps B (so_gui o1) ?f6) (?vm', ?w3) (?vm', load_sends B L x (so_gui o1) ?w3)"
    by (rule runs_dumps) (use fits(4) in simp_all)
  moreover have "vm_runs B L ac (code_dumps B (so_gui o1) ?f6) (code_state B o1 (code_dumps B (so_gui o1) ?f6))
      (?vm', load_sends B L x (so_gui o1) ?w3) (?vm', w')"
    unfolding w1(2) by (rule runs_state) (use fits(2,4) in simp_all)
  ultimately have "vm_runs B L ac f (code_state B o1 (code_dumps B (so_gui o1) ?f6)) (with_table t vm, w) (?vm', w')"
    using props by (meson runs_trans)
  then show ?thesis using assms(4) by (simp add: fts_bmax_code_new_object_def Let_def)
qed

lemma runs_top_object:
  assumes "object_stack vm = parent # xs" "eval_stack vm = at @ es" "object_ok B (length (eval_stack vm)) o1"
    "length (object_stack vm) < OBJECT_STACK_DEPTH" "load_top_object B L parent at o1 w = (x, w')"
  shows "vm_runs B L (length at) f (fts_bmax_code_new_top_object B o1 f) (vm, w) (with_objs [x] vm, w')"
proof -
  let ?j = "ASymbol (be_sym B ''jpatcher'')" and ?ac = "length at"
  obtain w1 where w1: "lo_eval L parent (?j # at) w = (x, w1)"
    "w' = load_props B L x o1 top_properties (if lo_is_patcher L x w1 then lo_set_scope L x w1 else w1)"
    using assms(5) by (auto simp: load_top_object_def Let_def split: prod.splits)
  let ?w2 = "if lo_is_patcher L x w1 then lo_set_scope L x w1 else w1"
  let ?f1 = "fts_bmax_code_push_atoms B [?j] f" let ?f2 = "fts_bmax_code_make_top_obj 1 ?f1"
  have "vm_runs B L ?ac f ?f1 (vm, w) (with_eval [?j] vm, w)"
    using runs_push_atoms [of "[?j]" vm B L ?ac f w] assms(3) by (simp add: fits_eval_def object_ok_def saved_atom_def)
  moreover have "vm_runs B L ?ac ?f1 ?f2 (with_eval [?j] vm, w) (with_objs [x] (with_eval [?j] vm), ?w2)"
    using assms(1,2,4) w1(1) by (intro runs_make_top_obj) simp_all
  moreover obtain e' where "vm_runs B L ?ac ?f2 (code_properties B o1 top_properties ?f2) (with_eval [?j] (with_objs [x] vm), ?w2)
      (with_eval [e'] (with_objs [x] vm), w')"
    using runs_properties [of "with_objs [x] vm" x "object_stack vm" o1 B top_properties L ?ac ?f2 ?j "[]" ?w2] assms(3) w1(2)
    by (auto simp: object_ok_def)
  moreover have "vm_runs B L ?ac (code_properties B o1 top_properties ?f2) (fts_bmax_code_pop_args 1 (code_properties B o1 top_properties ?f2))
      (with_eval [e'] (with_objs [x] vm), w') (with_objs [x] vm, w')"
    by (intro runs_pop_args) simp
  ultimately have "vm_runs B L ?ac f (fts_bmax_code_pop_args 1 (code_properties B o1 top_properties ?f2)) (vm, w) (with_objs [x] vm, w')"
    by simp (meson runs_trans)
  then show ?thesis by (simp add: fts_bmax_code_new_top_object_def Let_def)
qed

text \<open>The code of a patcher has at least one symbol.\<close>

lemma symbols_code:
  "bf_symbols (code_with_arg opcode value f) = bf_symbols f" "bf_symbols (code_with_symbol opcode s f) \<noteq> []"
  "bf_symbols (bmax_fwrite bs f) = bf_symbols f"
  by (auto simp: code_with_arg_def code_with_symbol_def write_int fts_bmax_write_opcode_for_def bmax_fwrite_def
      fts_bmax_add_symbol_def split: option.splits prod.splits)

lemma symbols_property: "bf_symbols f \<noteq> [] \<Longrightarrow> bf_symbols (fts_bmax_code_new_property B o1 prop f) \<noteq> []"
  by (simp add: fts_bmax_code_new_property_def Let_def fts_bmax_code_put_prop_def symbols_code)

lemma symbols_properties: "bf_symbols f \<noteq> [] \<Longrightarrow> bf_symbols (code_properties B o1 props f) \<noteq> []"
  unfolding code_properties_def by (induction props arbitrary: f) (simp_all add: symbols_property)

lemma symbols_top_object: "bf_symbols (fts_bmax_code_new_top_object B o1 f) \<noteq> []"
  by (simp add: fts_bmax_code_new_top_object_def Let_def fts_bmax_code_pop_args_def fts_bmax_code_make_top_obj_def
      push_atom_def fts_bmax_code_push_symbol_def symbols_code symbols_properties)

subsection \<open>Connections\<close>

lemma objidx_from_range: "x \<in> set ys \<Longrightarrow> i \<le> objidx_from x ys i \<and> objidx_from x ys i < i + int (length ys)"
proof (induction ys arbitrary: i)
  case (Cons y ys)
  show ?case using Cons.IH [of "i + 1"] Cons.prems by auto
qed simp

lemma objidx_range:
  "sc_dst c \<in> set (map (so_object \<circ> tree_object) ps) \<Longrightarrow>
     0 \<le> fts_bmax_find_objidx (sc_dst c) ps \<and> fts_bmax_find_objidx (sc_dst c) ps < int (length ps)"
  unfolding fts_bmax_find_objidx_def using objidx_from_range [of "sc_dst c" "map (so_object \<circ> tree_object) ps" 0] by simp

lemma runs_connection:
  assumes "object_tables vm = map Some xs # ts" "length xs = length ps" "length ps \<le> 32767" "0 \<le> fromidx" "fromidx < int (length ps)"
    and "length (object_stack vm) + 2 \<le> OBJECT_STACK_DEPTH" "fits_eval 2 vm" "connection_ok ps c"
  shows "vm_runs B L ac f (fts_bmax_code_new_connection ps fromidx woutlet c f) (vm, w) (vm, load_connection L ps xs fromidx woutlet c w)"
proof (cases "sc_type c > c_hidden")
  case True
  let ?j = "fts_bmax_find_objidx (sc_dst c) ps"
  have j: "0 \<le> ?j" "?j < int (length ps)" using assms(8) True objidx_range by (auto simp: connection_ok_def)
  have si: "sint (word_of_int i :: int32) = i" if "0 \<le> i" "i < int (length ps)" for i
    using that assms(3) sint_of_nat [of "nat i"] by simp
  let ?src = "xs ! nat fromidx" and ?dst = "xs ! nat ?j"
  let ?f1 = "fts_bmax_code_push_int (sc_winlet c) f" let ?f2 = "fts_bmax_code_push_int (word_of_int woutlet) ?f1"
  let ?f3 = "fts_bmax_code_push_obj (word_of_int ?j) ?f2" let ?f4 = "fts_bmax_code_push_obj (word_of_int fromidx) ?f3"
  let ?f5 = "fts_bmax_code_connect ?f4" let ?f6 = "fts_bmax_code_pop_args 2 ?f5"
  let ?es = "[AInt (word_of_int woutlet), AInt (sc_winlet c)]"
  let ?w' = "lo_connect L ?src (word_of_int woutlet) ?dst (sc_winlet c) w"
  have "vm_runs B L ac f ?f1 (vm, w) (with_eval [AInt (sc_winlet c)] vm, w)"
    using assms(7) by (intro runs_push_int) (simp add: fits_eval_def)
  moreover have "vm_runs B L ac ?f1 ?f2 (with_eval [AInt (sc_winlet c)] vm, w) (with_eval [AInt (word_of_int woutlet)] (with_eval [AInt (sc_winlet c)] vm), w)"
    using assms(7) by (intro runs_push_int) (simp add: fits_with_eval numeral_2_eq_2)
  moreover have "vm_runs B L ac ?f2 ?f3 (with_eval ?es vm, w) (with_objs [?dst] (with_eval ?es vm), w)"
    using assms(1,2,6) j si [OF j] by (intro runs_push_obj [of _ "map Some xs" ts]) simp_all
  moreover have "vm_runs B L ac ?f3 ?f4 (with_objs [?dst] (with_eval ?es vm), w) (with_objs [?src] (with_objs [?dst] (with_eval ?es vm)), w)"
    using assms(1,2,4,5,6) si [OF assms(4,5)] by (intro runs_push_obj [of _ "map Some xs" ts]) simp_all
  moreover have "vm_runs B L ac ?f4 ?f5 (with_objs [?src, ?dst] (with_eval ?es vm), w) (with_objs [?src, ?dst] (with_eval ?es vm), ?w')"
    by (rule runs_connect)
  moreover have "vm_runs B L ac ?f5 ?f6 (with_objs [?src, ?dst] (with_eval ?es vm), ?w') (with_objs [?src, ?dst] vm, ?w')"
    using runs_pop_args [of 2 ?es B L ac ?f5 "with_objs [?src, ?dst] vm" ?w'] by simp
  moreover have "vm_runs B L ac ?f6 (fts_bmax_code_pop_objs 2 ?f6) (with_objs [?src, ?dst] vm, ?w') (vm, ?w')"
    by (intro runs_pop_objs) simp
  ultimately have "vm_runs B L ac f (fts_bmax_code_pop_objs 2 ?f6) (vm, w) (vm, ?w')" by simp (meson runs_trans)
  with True show ?thesis by (simp add: fts_bmax_code_new_connection_def load_connection_def Let_def)
qed (simp add: fts_bmax_code_new_connection_def load_connection_def runs_refl)

lemma runs_connections:
  assumes "object_tables vm = map Some xs # ts" "length xs = length ps" "length ps \<le> 32767" "connections_ok ps"
    and "length (object_stack vm) + 2 \<le> OBJECT_STACK_DEPTH" "fits_eval 2 vm"
  shows "vm_runs B L ac f (code_connections ps f) (vm, w) (vm, load_connections L ps xs w)"
  unfolding code_connections_def load_connections_def
proof (rule runs_fold, clarify)
  fix i p f w
  assume ip: "(i, p) \<in> set (zip (map int [0..<length ps]) ps)"
  then have i: "0 \<le> i" "i < int (length ps)" and p: "p \<in> set ps" by (auto simp: set_zip)
  have "vm_runs B L ac f (fts_bmax_code_new_connection ps i woutlet c f) (vm, w) (vm, load_connection L ps xs i woutlet c w)"
    if "cs \<in> set (so_outlets (tree_object p))" "c \<in> set cs" for cs c woutlet f w
    using that p assms(4) by (intro runs_connection [OF assms(1-3) i assms(5,6)]) (auto simp: connections_ok_def list_all_iff)
  then show "vm_runs B L ac f (code_outlets ps i (so_outlets (tree_object p)) f) (vm, w)
      (vm, load_outlets L ps xs i (so_outlets (tree_object p)) w)"
    unfolding code_outlets_def load_outlets_def
    by (intro runs_fold) (auto dest!: set_zip_rightD intro!: runs_fold)
qed

subsection \<open>Patchers\<close>

definition tree_runs :: "bmax_env \<Rightarrow> 'w loader_ops \<Rightarrow> nat \<Rightarrow> saved_tree \<Rightarrow> bool" where
  "tree_runs B L ac p \<longleftrightarrow>
     (\<forall>vm t i parent xs f w x w'.
        object_stack vm = parent # xs \<longrightarrow> tree_ok B (length (eval_stack vm)) (length (object_stack vm)) (Suc (length (object_tables vm))) p \<longrightarrow>
        0 \<le> i \<longrightarrow> i < int (length t) \<longrightarrow> i \<le> 32767 \<longrightarrow> load_tree B L parent p w = (x, w') \<longrightarrow>
        vm_runs B L ac f (fts_bmax_code_new_patcher B p i f) (with_table t vm, w) (with_objs [x] (with_table (t[nat i := Some x]) vm), w'))"

lemma tree_runsD:
  "tree_runs B L ac p \<Longrightarrow> object_stack vm = parent # xs \<Longrightarrow>
     tree_ok B (length (eval_stack vm)) (length (object_stack vm)) (Suc (length (object_tables vm))) p \<Longrightarrow>
     0 \<le> i \<Longrightarrow> i < int (length t) \<Longrightarrow> i \<le> 32767 \<Longrightarrow> load_tree B L parent p w = (x, w') \<Longrightarrow>
     vm_runs B L ac f (fts_bmax_code_new_patcher B p i f) (with_table t vm, w) (with_objs [x] (with_table (t[nat i := Some x]) vm), w')"
  unfolding tree_runs_def by blast

lemma runs_trees:
  assumes "\<And>p. p \<in> set ps \<Longrightarrow> tree_runs B L ac p" "object_stack vm = parent # ys"
    "list_all (tree_ok B (length (eval_stack vm)) (length (object_stack vm)) (Suc (length (object_tables vm)))) ps"
    "length zs + length ps \<le> 32767" "load_trees B L parent ps w = (xs, w')"
  shows "vm_runs B L ac f (code_objects B ps (int (length zs)) f) (with_table (map Some zs @ replicate (length ps) None) vm, w)
    (with_table (map Some (zs @ xs)) vm, w') \<and> length xs = length ps"
  using assms
proof (induction ps arbitrary: zs f w xs)
  case Nil
  then show ?case by (simp add: runs_refl)
next
  case (Cons p ps)
  obtain x w1 xs' where w1: "load_tree B L parent p w = (x, w1)" "load_trees B L parent ps w1 = (xs', w')" "xs = x # xs'"
    using Cons.prems(5) by (auto split: prod.splits)
  let ?t = "map Some zs @ replicate (length (p # ps)) None" and ?i = "int (length zs)"
  have upd: "?t[nat ?i := Some x] = map Some (zs @ [x]) @ replicate (length ps) None" by (simp add: list_update_append)
  let ?f1 = "fts_bmax_code_new_patcher B p ?i f"
  have "tree_runs B L ac p" by (rule Cons.prems(1)) simp
  from this Cons.prems(2) have "vm_runs B L ac f ?f1 (with_table ?t vm, w) (with_objs [x] (with_table (?t[nat ?i := Some x]) vm), w1)"
    by (rule tree_runsD) (use Cons.prems(2-4) w1(1) in \<open>auto simp del: replicate_Suc\<close>)
  moreover have "vm_runs B L ac ?f1 (fts_bmax_code_pop_objs 1 ?f1) (with_objs [x] (with_table (?t[nat ?i := Some x]) vm), w1)
      (with_table (?t[nat ?i := Some x]) vm, w1)"
    by (intro runs_pop_objs) simp
  moreover have "vm_runs B L ac (fts_bmax_code_pop_objs 1 ?f1) (code_objects B ps (int (length (zs @ [x]))) (fts_bmax_code_pop_objs 1 ?f1))
      (with_table (map Some (zs @ [x]) @ replicate (length ps) None) vm, w1) (with_table (map Some ((zs @ [x]) @ xs')) vm, w')
      \<and> length xs' = length ps"
    using Cons.prems w1(2) by (intro Cons.IH) auto
  ultimately show ?case unfolding upd using w1(3) by (auto simp: add.commute intro: runs_trans)
qed

lemma runs_tree: "tree_runs B L ac p"
proof (induction p)
  case (Plain o1)
  show ?case unfolding tree_runs_def by (auto intro!: runs_object)
next
  case (Patcher o1 ps)
  show ?case unfolding tree_runs_def
  proof (intro allI impI)
    fix vm :: bmax_vm and t :: "addr option list" and i parent xs f w x w'
    assume vm: "object_stack vm = parent # xs"
      and ok: "tree_ok B (length (eval_stack vm)) (length (object_stack vm)) (Suc (length (object_tables vm))) (Patcher o1 ps)"
      and i: "0 \<le> i" "i < int (length t)" "i \<le> 32767" and load: "load_tree B L parent (Patcher o1 ps) w = (x, w')"
    obtain w1 ys w2 where w1: "load_object B L parent o1 w = (x, w1)" "load_trees B L x ps w1 = (ys, w2)" "w' = load_connections L ps ys w2"
      using load by (auto split: prod.splits)
    let ?vm = "with_objs [x] (with_table (t[nat i := Some x]) vm)" and ?n = "of_nat (length ps) :: int32"
    have n: "sint ?n = int (length ps)" using ok by (intro sint_of_nat) simp
    let ?f1 = "fts_bmax_code_new_object B o1 i f" let ?f2 = "fts_bmax_code_push_obj_table ?n ?f1"
    let ?f3 = "code_objects B ps 0 ?f2" let ?f4 = "code_connections ps ?f3"
    have "vm_runs B L ac f ?f1 (with_table t vm, w) (?vm, w1)"
      using ok vm i w1(1) by (intro runs_object) simp_all
    moreover have "vm_runs B L ac ?f1 ?f2 (?vm, w1) (with_table (replicate (length ps) None) ?vm, w1)"
      using runs_push_table [of ?n ?vm B L ac ?f1 w1] ok n by simp
    moreover have trees: "vm_runs B L ac ?f2 ?f3 (with_table (replicate (length ps) None) ?vm, w1) (with_table (map Some ys) ?vm, w2) \<and> length ys = length ps"
      using runs_trees [of ps B L ac ?vm x "parent # xs" "[]" w1 ys w2 ?f2] Patcher.IH ok vm w1(2) by simp
    moreover have "vm_runs B L ac ?f3 ?f4 (with_table (map Some ys) ?vm, w2) (with_table (map Some ys) ?vm, w')"
      unfolding w1(3) using trees ok vm
      by (intro runs_connections [where ts = "t[nat i := Some x] # object_tables vm"]) (auto simp: fits_eval_def object_ok_def)
    moreover have "vm_runs B L ac ?f4 (fts_bmax_code_pop_obj_table ?f4) (with_table (map Some ys) ?vm, w') (?vm, w')"
      by (rule runs_pop_table)
    ultimately have "vm_runs B L ac f (fts_bmax_code_pop_obj_table ?f4) (with_table t vm, w) (?vm, w')" by (meson runs_trans)
    then show "vm_runs B L ac f (fts_bmax_code_new_patcher B (Patcher o1 ps) i f) (with_table t vm, w) (?vm, w')"
      using i(1) by (simp add: Let_def)
  qed
qed

definition patcher_ok :: "bmax_env \<Rightarrow> nat \<Rightarrow> nat \<Rightarrow> nat \<Rightarrow> saved_object \<Rightarrow> saved_tree list \<Rightarrow> bool" where
  "patcher_ok B n k m o1 ps \<longleftrightarrow>
     object_ok B n o1 \<and> k + 4 \<le> OBJECT_STACK_DEPTH \<and> m + 1 \<le> OBJECT_TABLE_STACK_DEPTH \<and> length ps \<le> 32767
     \<and> list_all (tree_ok B n (k + 2) (m + 1)) ps \<and> connections_ok ps"

lemma runs_patcher:
  assumes "object_stack vm = parent # xs" "eval_stack vm = at @ es" "load_patcher B L parent at o1 ps w = (x, w')"
    and ok: "patcher_ok B (length (eval_stack vm)) (length xs) (length (object_tables vm)) o1 ps"
  shows "vm_runs B L (length at) f (fts_bmax_code_new_patcher B (Patcher o1 ps) (- 1) f) (vm, w) (with_objs [x] vm, w')
    \<and> bf_symbols (fts_bmax_code_new_patcher B (Patcher o1 ps) (- 1) f) \<noteq> []"
proof -
  let ?ac = "length at"
  obtain w1 ys w2 where w1: "load_top_object B L parent at o1 w = (x, w1)" "load_trees B L x ps w1 = (ys, w2)" "w' = load_connections L ps ys w2"
    using assms(3) by (auto simp: load_patcher_def split: prod.splits)
  let ?vm = "with_objs [x] vm" and ?n = "of_nat (length ps) :: int32"
  have n: "sint ?n = int (length ps)" using ok by (intro sint_of_nat) (simp add: patcher_ok_def)
  let ?f1 = "fts_bmax_code_new_top_object B o1 f" let ?f2 = "fts_bmax_code_push_obj_table ?n ?f1"
  let ?f3 = "code_objects B ps 0 ?f2" let ?f4 = "code_connections ps ?f3"
  have "vm_runs B L ?ac f ?f1 (vm, w) (?vm, w1)"
    using ok assms(1,2) w1(1) by (intro runs_top_object) (simp_all add: patcher_ok_def)
  moreover have "vm_runs B L ?ac ?f1 ?f2 (?vm, w1) (with_table (replicate (length ps) None) ?vm, w1)"
    using runs_push_table [of ?n ?vm B L ?ac ?f1 w1] ok n by (simp add: patcher_ok_def)
  moreover have trees: "vm_runs B L ?ac ?f2 ?f3 (with_table (replicate (length ps) None) ?vm, w1) (with_table (map Some ys) ?vm, w2) \<and> length ys = length ps"
    using runs_trees [OF runs_tree, of ?vm x "parent # xs" B ps "[]" L w1 ys w2 ?ac ?f2] ok assms(1) w1(2)
    by (simp add: patcher_ok_def)
  moreover have "vm_runs B L ?ac ?f3 ?f4 (with_table (map Some ys) ?vm, w2) (with_table (map Some ys) ?vm, w')"
    unfolding w1(3) using trees ok assms(1)
    by (intro runs_connections [where ts = "object_tables vm"]) (auto simp: fits_eval_def object_ok_def patcher_ok_def)
  moreover have "vm_runs B L ?ac ?f4 (fts_bmax_code_pop_obj_table ?f4) (with_table (map Some ys) ?vm, w') (?vm, w')"
    by (rule runs_pop_table)
  ultimately have "vm_runs B L ?ac f (fts_bmax_code_pop_obj_table ?f4) (vm, w) (?vm, w')"
    "vm_runs B L ?ac ?f1 (fts_bmax_code_pop_obj_table ?f4) (?vm, w1) (?vm, w')" by (meson runs_trans)+
  moreover have "bf_symbols (fts_bmax_code_pop_obj_table ?f4) \<noteq> []"
    using symbols_top_object [of B o1 f] calculation(2) by (auto simp: vm_runs_def)
  ultimately show ?thesis by (simp add: Let_def)
qed

definition saved_descr :: "bmax_file \<Rightarrow> bmax_file_descr" where
  "saved_descr f = \<lparr>bd_version = 2, bd_code = bf_code f, bd_symbols = bf_symbols f\<rparr>"

lemma run_saved_patcher:
  assumes "patcher_ok B (length at + length (eval_stack vm)) (length (object_stack vm)) (length (object_tables vm)) o1 ps"
    "length (bf_symbols (fts_save_patcher_as_bmax B (Patcher o1 ps))) < 2 ^ 31"
    "load_patcher B L parent at o1 ps w = (x, w')" "quiet L"
  shows "fts_run_mess_vm B L parent (saved_descr (fts_save_patcher_as_bmax B (Patcher o1 ps))) at vm w = Some (Some x, vm, w')"
proof -
  let ?init = "fts_bmax_file_open_fd None" let ?f = "fts_bmax_code_new_patcher B (Patcher o1 ps) (- 1) ?init"
  let ?vm = "vm\<lparr>object_stack := parent # object_stack vm, eval_stack := at @ eval_stack vm\<rparr>"
  let ?d = "saved_descr (fts_save_patcher_as_bmax B (Patcher o1 ps))"
  have f: "fts_save_patcher_as_bmax B (Patcher o1 ps) = bmax_fwrite [FVM_RETURN] ?f"
    by (simp only: fts_save_patcher_as_bmax_def fts_bmax_code_return_def fts_bmax_write_opcode_def)
  have "vm_runs B L (length at) ?init ?f (?vm, w) (with_objs [x] ?vm, w') \<and> bf_symbols ?f \<noteq> []"
    using assms(1,3) by (intro runs_patcher) simp_all
  then obtain bs where bs: "bf_code ?f = bf_code ?init @ bs" and
    run: "\<And>descr rest. quiet L \<Longrightarrow> bd_version descr = 2 \<Longrightarrow> prefix (bf_symbols ?f) (bd_symbols descr) \<Longrightarrow> length (bd_symbols descr) < 2 ^ 31 \<Longrightarrow>
      vm_loop B L descr (length at) (bs @ rest) ?vm w = vm_loop B L descr (length at) rest (with_objs [x] ?vm) w'"
    unfolding vm_runs_def fst_conv snd_conv by blast
  have d: "bd_version ?d = 2" "bd_symbols ?d = bf_symbols ?f" "bd_code ?d = bs @ [FVM_RETURN]"
    unfolding f saved_descr_def using bs by (simp_all add: bmax_fwrite_def fts_bmax_file_open_fd_def)
  have "vm_loop B L ?d (length at) (bs @ [FVM_RETURN]) ?vm w = vm_loop B L ?d (length at) [FVM_RETURN] (with_objs [x] ?vm) w'"
    using assms(2,4) d by (intro run) (simp_all add: f bmax_fwrite_def)
  also have "\<dots> = Some (Some x, vm, w')"
    by (simp add: vm_step_def vm_return_def with_objs_def)
  finally have "vm_loop B L ?d (length at) (bs @ [FVM_RETURN]) ?vm w = Some (Some x, vm, w')" .
  moreover have "length (object_stack vm) < OBJECT_STACK_DEPTH" "length at + length (eval_stack vm) \<le> EVAL_STACK_DEPTH"
    using assms(1) by (simp_all add: patcher_ok_def object_ok_def)
  ultimately show ?thesis unfolding fts_run_mess_vm_def d(3) by simp
qed

subsection \<open>The file\<close>

definition code_sized :: "bmax_file \<Rightarrow> bool" where
  "code_sized f \<longleftrightarrow> bf_code_size f = length (bf_code f)"

lemma runs_code_sized: "vm_runs B L ac f f' st st' \<Longrightarrow> code_sized f \<Longrightarrow> code_sized f'"
  by (auto simp: vm_runs_def code_sized_def)

lemma read_symbol:
  assumes "c_string s" "length buf + length s < 1024"
  shows "read_symbols (Suc n) buf (symbol_bytes s @ bs) = map_option (\<lambda>ss. (map char_of_byte buf @ s) # ss) (read_symbols n [] bs)"
  using assms
proof (induction s arbitrary: buf)
  case Nil
  then show ?case by (simp add: symbol_bytes_def)
next
  case (Cons c s)
  have "read_symbols (Suc n) (buf @ [byte_of_char c]) (symbol_bytes s @ bs) =
      map_option (\<lambda>ss. (map char_of_byte (buf @ [byte_of_char c]) @ s) # ss) (read_symbols n [] bs)"
    using Cons.prems by (intro Cons.IH) simp_all
  with Cons.prems show ?case by (simp add: symbol_bytes_def)
qed

lemma read_all_symbols:
  assumes "list_all (\<lambda>s. c_string s \<and> length s < 1024) ss"
  shows "read_symbols (length ss) [] (concat (map symbol_bytes ss) @ bs) = Some ss"
  using assms by (induction ss) (simp_all add: read_symbol)

lemma GET_L_drop: "GET_L (drop 4 (long_bytes u @ p)) = GET_L p" "GET_L (drop 8 (long_bytes u @ long_bytes v @ p)) = GET_L p"
  by (simp_all add: long_bytes_def)

text \<open>Bytes behind the symbols are not read.\<close>

lemma map_saved_file:
  assumes "code_sized f" "bf_code_size f < 2 ^ 32" "length (bf_symbols f) < 2 ^ 32"
    "list_all (\<lambda>s. new_symbol (nm s) = s \<and> c_string (nm s) \<and> length (nm s) < 1024) (bf_symbols f)"
  shows "fts_binary_file_map B new_symbol (fts_bmax_file_sync nm f @ left) = Some (Inr (saved_descr f))"
proof -
  let ?h = "bmax_header FTS_BINARY_FILE_MAGIC_V2 (bf_code_size f) (length (bf_symbols f))"
  let ?names = "map nm (bf_symbols f)"
  let ?rest = "bf_code f @ concat (map symbol_bytes ?names) @ [0] @ left"
  have layout: "fts_bmax_file_sync nm f @ left = ?h @ ?rest" by (simp add: fts_bmax_file_sync_def)
  have h: "length ?h = 12" by (simp add: bmax_header_def long_bytes_def)
  have read: "GET_L (?h @ ?rest) = Some FTS_BINARY_FILE_MAGIC_V2" "GET_L (drop 4 (?h @ ?rest)) = Some (of_nat (bf_code_size f))"
    "GET_L (drop 8 (?h @ ?rest)) = Some (of_nat (length (bf_symbols f)))"
    unfolding bmax_header_def append_assoc GET_L_drop by (rule get_l)+
  have "bf_code_size f = length (bf_code f)" using assms(1) by (simp add: code_sized_def)
  then have size: "unat (of_nat (bf_code_size f) :: int32) = length (bf_code f)" "unat (of_nat (length (bf_symbols f)) :: int32) = length ?names"
    using assms(1-3) by (simp_all add: code_sized_def unat_of_nat)
  have names: "list_all (\<lambda>s. c_string s \<and> length s < 1024) ?names" "map new_symbol ?names = bf_symbols f"
    using assms(4) by (simp_all add: list_all_iff map_idI)
  have "read_symbols (length ?names) [] (concat (map symbol_bytes ?names) @ [0] @ left) = Some ?names" using names(1) by (rule read_all_symbols)
  moreover have "FTS_BINARY_FILE_MAGIC_V2 \<noteq> FTS_BINARY_FILE_MAGIC_V1"
    by (simp add: FTS_BINARY_FILE_MAGIC_V1_def FTS_BINARY_FILE_MAGIC_V2_def)
  ultimately show ?thesis
    unfolding fts_binary_file_map_def layout read option.case prod.case Let_def size
    using h names(2) by (simp add: saved_descr_def del: map_map)
qed

text \<open>Names that can be saved: the strings of the symbols fit the buffer of the reader.\<close>

definition names_ok :: "(sym \<Rightarrow> string) \<Rightarrow> (string \<Rightarrow> sym) \<Rightarrow> sym list \<Rightarrow> bool" where
  "names_ok nm new_symbol symbols \<longleftrightarrow>
     list_all (\<lambda>s. new_symbol (nm s) = s \<and> c_string (nm s) \<and> length (nm s) < 1024) symbols"

lemma load_saved_file:
  fixes L :: "'w loader_ops"
  assumes ok: "patcher_ok B (length at + length (eval_stack vm)) (length (object_stack vm)) (length (object_tables vm)) o1 ps"
    and f: "f = fts_save_patcher_as_bmax B (Patcher o1 ps)" "length (bf_symbols f) < 2 ^ 31" "length (bf_code f) < 2 ^ 32"
    and names: "names_ok nm new_symbol (bf_symbols f)" and load: "load_patcher B L parent at o1 ps w = (x, w')"
    and quiet: "quiet L"
  shows "fts_bmax_filedesc_load B L new_symbol (fts_bmax_file_sync nm f) parent at vm w = Some (Inr (Some x, vm, w'))"
proof -
  let ?init = "fts_bmax_file_open_fd None" let ?f = "fts_bmax_code_new_patcher B (Patcher o1 ps) (- 1) ?init"
  let ?vm = "vm\<lparr>object_stack := parent # object_stack vm, eval_stack := at @ eval_stack vm\<rparr>"
  have run: "vm_runs B L (length at) ?init ?f (?vm, w) (with_objs [x] ?vm, w') \<and> bf_symbols ?f \<noteq> []"
    using ok load by (intro runs_patcher) simp_all
  have "code_sized ?init" by (simp add: code_sized_def fts_bmax_file_open_fd_def)
  with run have "code_sized ?f" by (blast intro: runs_code_sized)
  then have sized: "code_sized f" "bf_symbols f \<noteq> []"
    unfolding f(1) fts_save_patcher_as_bmax_def fts_bmax_code_return_def fts_bmax_write_opcode_def
    using run by (simp_all add: code_sized_def bmax_fwrite_def)
  have "fts_binary_file_map B new_symbol (fts_bmax_file_sync nm f @ []) = Some (Inr (saved_descr f))"
    using sized f(2,3) names by (intro map_saved_file) (simp_all add: code_sized_def names_ok_def)
  then show ?thesis
    using run_saved_patcher [OF ok _ load quiet] f(1,2) sized(2)
    by (simp add: fts_bmax_filedesc_load_def fts_binary_file_dispose_def saved_descr_def)
qed

end
