(* ===== verification/BmaxSelection.thy ===== *)
theory BmaxSelection
  imports BmaxLoad
begin

text \<open>
  Selections (\<open>fts/selection.c\<close>) and their code (\<open>fts/bmaxfile.c\<close>), for copy and paste. The array of a selection
  has holes; objects and connections are both in it. A connection carries what the saver reads of it.
\<close>

record selected_connection = saved_connection +
  sc_src :: addr
  sc_woutlet :: int32

datatype sel_item = Sel_object saved_tree | Sel_connection addr selected_connection

primrec item_address :: "sel_item \<Rightarrow> addr" where
  "item_address (Sel_object p) = so_object (tree_object p)"
| "item_address (Sel_connection x _) = x"

record selection =
  sel_objects :: "sel_item option list"
  sel_count :: int

definition INITIAL_SELECTION_SIZE :: nat where "INITIAL_SELECTION_SIZE = 16"

definition selection_init :: selection where
  "selection_init = \<lparr>sel_objects = replicate INITIAL_SELECTION_SIZE None, sel_count = 0\<rparr>"

definition selection_object_size_to_fit :: "selection \<Rightarrow> selection" where
  "selection_object_size_to_fit this = this\<lparr>sel_objects := sel_objects this @ replicate (length (sel_objects this)) None\<rparr>"

definition fts_selection_contains_object :: "selection \<Rightarrow> addr \<Rightarrow> bool" where
  "fts_selection_contains_object sel x \<longleftrightarrow> Some x \<in> set (map (map_option item_address) (sel_objects sel))"

definition fts_selection_connection_ends_selected :: "selection \<Rightarrow> selected_connection \<Rightarrow> bool" where
  "fts_selection_connection_ends_selected sel c \<longleftrightarrow>
     fts_selection_contains_object sel (sc_src c) \<and> fts_selection_contains_object sel (sc_dst c)"

fun put_in_hole :: "sel_item \<Rightarrow> sel_item option list \<Rightarrow> sel_item option list" where
  "put_in_hole x [] = []"
| "put_in_hole x (None # items) = Some x # items"
| "put_in_hole x (Some y # items) = Some y # put_in_hole x items"

definition fts_selection_add_object :: "sel_item \<Rightarrow> selection \<Rightarrow> selection" where
  "fts_selection_add_object x sel =
     (let sel1 = sel\<lparr>sel_count := sel_count sel + 1\<rparr>;
          sel2 = (if sel_count sel1 > int (length (sel_objects sel1)) then selection_object_size_to_fit sel1 else sel1)
      in sel2\<lparr>sel_objects := put_in_hole x (sel_objects sel2)\<rparr>)"

fun make_hole :: "addr \<Rightarrow> sel_item option list \<Rightarrow> sel_item option list" where
  "make_hole x [] = []"
| "make_hole x (None # items) = None # make_hole x items"
| "make_hole x (Some y # items) = (if item_address y = x then None # items else Some y # make_hole x items)"

definition selection_remove :: "addr \<Rightarrow> selection \<Rightarrow> selection" where
  "selection_remove x sel = sel\<lparr>sel_count := sel_count sel - 1, sel_objects := make_hole x (sel_objects sel)\<rparr>"

definition selection_clear :: "selection \<Rightarrow> selection" where
  "selection_clear sel = sel\<lparr>sel_count := 0, sel_objects := replicate (length (sel_objects sel)) None\<rparr>"

subsection \<open>The code of a selection\<close>

fun objidx_in :: "addr \<Rightarrow> sel_item option list \<Rightarrow> int \<Rightarrow> int" where
  "objidx_in x [] idx = - 1"
| "objidx_in x (None # items) idx = objidx_in x items idx"
| "objidx_in x (Some y # items) idx = (if x = item_address y then idx else objidx_in x items (idx + 1))"

definition fts_bmax_find_objidx_in_selection :: "addr \<Rightarrow> selection \<Rightarrow> int" where
  "fts_bmax_find_objidx_in_selection x sel = objidx_in x (sel_objects sel) 0"

definition fts_bmax_code_new_connection_in_selection :: "selection \<Rightarrow> selected_connection \<Rightarrow> bmax_file \<Rightarrow> bmax_file" where
  "fts_bmax_code_new_connection_in_selection sel c f =
     (if sc_type c > c_hidden
      then let f1 = fts_bmax_code_push_int (sc_woutlet c) (fts_bmax_code_push_int (sc_winlet c) f);
               f2 = fts_bmax_code_push_obj (word_of_int (fts_bmax_find_objidx_in_selection (sc_dst c) sel)) f1;
               f3 = fts_bmax_code_push_obj (word_of_int (fts_bmax_find_objidx_in_selection (sc_src c) sel)) f2
           in fts_bmax_code_pop_objs 2 (fts_bmax_code_pop_args 2 (fts_bmax_code_connect f3))
      else f)"

fun code_items :: "bmax_env \<Rightarrow> selection \<Rightarrow> sel_item option list \<Rightarrow> int \<Rightarrow> bmax_file \<Rightarrow> bmax_file" where
  "code_items B sel [] objidx f = f"
| "code_items B sel (None # items) objidx f = code_items B sel items objidx f"
| "code_items B sel (Some (Sel_object p) # items) objidx f =
     code_items B sel items (objidx + 1) (fts_bmax_code_pop_objs 1 (fts_bmax_code_new_patcher B p objidx f))"
| "code_items B sel (Some (Sel_connection x c) # items) objidx f =
     code_items B sel items (objidx + 1)
       (if fts_selection_connection_ends_selected sel c then fts_bmax_code_new_connection_in_selection sel c f else f)"

definition fts_bmax_code_new_selection :: "bmax_env \<Rightarrow> selection \<Rightarrow> bmax_file \<Rightarrow> bmax_file" where
  "fts_bmax_code_new_selection B sel f =
     fts_bmax_code_pop_obj_table (code_items B sel (sel_objects sel) 0
       (fts_bmax_code_push_obj_table (word_of_int (sel_count sel)) f))"

definition fts_save_selection_as_bmax :: "bmax_env \<Rightarrow> selection \<Rightarrow> bmax_file" where
  "fts_save_selection_as_bmax B sel = fts_bmax_code_return (fts_bmax_code_new_selection B sel (fts_bmax_file_open_fd None))"

subsection \<open>The count\<close>

definition selection_size :: "selection \<Rightarrow> nat" where
  "selection_size sel = length (filter (\<lambda>i. i \<noteq> None) (sel_objects sel))"

definition selection_ok :: "selection \<Rightarrow> bool" where
  "selection_ok sel \<longleftrightarrow> sel_count sel = int (selection_size sel) \<and> sel_objects sel \<noteq> []"

lemma put_in_hole:
  "length (filter (\<lambda>i. i \<noteq> None) items) < length items \<Longrightarrow>
     length (filter (\<lambda>i. i \<noteq> None) (put_in_hole x items)) = Suc (length (filter (\<lambda>i. i \<noteq> None) items))
     \<and> length (put_in_hole x items) = length items"
  by (induction x items rule: put_in_hole.induct) auto

lemma selection_init_ok: "selection_ok selection_init"
  by (simp add: selection_ok_def selection_init_def selection_size_def INITIAL_SELECTION_SIZE_def)

lemma selection_clear_ok: "sel_objects sel \<noteq> [] \<Longrightarrow> selection_ok (selection_clear sel)"
  by (simp add: selection_ok_def selection_clear_def selection_size_def)

lemma selection_add_ok: "selection_ok sel \<Longrightarrow> selection_ok (fts_selection_add_object x sel)"
proof -
  assume ok: "selection_ok sel"
  let ?items = "if sel_count sel + 1 > int (length (sel_objects sel))
    then sel_objects sel @ replicate (length (sel_objects sel)) None else sel_objects sel"
  have le: "length (filter (\<lambda>i. i \<noteq> None) (sel_objects sel)) \<le> length (sel_objects sel)" by (rule length_filter_le)
  have "1 \<le> length (sel_objects sel)" using ok by (simp add: selection_ok_def Suc_le_eq)
  note le = le this
  have "length (filter (\<lambda>i. i \<noteq> None) ?items) = selection_size sel" by (simp add: selection_size_def)
  moreover have "selection_size sel < length ?items"
  proof -
    have "selection_size sel \<le> length (sel_objects sel)" "sel_count sel = int (selection_size sel)"
      using ok le(1) by (simp_all add: selection_ok_def selection_size_def)
    with le(2) show ?thesis by (cases "sel_count sel + 1 > int (length (sel_objects sel))"; simp only: if_True if_False length_append length_replicate; linarith)
  qed
  moreover have "sel_objects (fts_selection_add_object x sel) = put_in_hole x ?items"
    by (simp add: fts_selection_add_object_def Let_def selection_object_size_to_fit_def)
  moreover have "sel_count (fts_selection_add_object x sel) = sel_count sel + 1"
    by (simp add: fts_selection_add_object_def Let_def selection_object_size_to_fit_def)
  ultimately show ?thesis
    using ok put_in_hole [of ?items x] by (auto simp: selection_ok_def selection_size_def)
qed

lemma make_hole:
  "length (filter (\<lambda>i. i \<noteq> None) (make_hole x items)) + (if Some x \<in> set (map (map_option item_address) items) then 1 else 0)
     = length (filter (\<lambda>i. i \<noteq> None) items)"
  by (induction x items rule: make_hole.induct) auto

text \<open>Removing what is not selected makes the count too small by one.\<close>

lemma selection_remove_count:
  assumes "selection_ok sel"
  shows "sel_count (selection_remove x sel) =
    int (selection_size (selection_remove x sel)) - (if fts_selection_contains_object sel x then 0 else 1)"
  using assms make_hole [of x "sel_objects sel"]
  by (auto simp: selection_ok_def selection_remove_def selection_size_def fts_selection_contains_object_def split: if_splits)

subsection \<open>Pasting\<close>

text \<open>What loading a selection does: \<open>env\<close> gives the new objects in place of the old ones.\<close>

fun load_items :: "bmax_env \<Rightarrow> 'w loader_ops \<Rightarrow> addr \<Rightarrow> selection \<Rightarrow> sel_item option list \<Rightarrow> (addr \<Rightarrow> addr) \<Rightarrow> 'w \<Rightarrow> 'w" where
  "load_items B L parent sel [] env w = w"
| "load_items B L parent sel (None # items) env w = load_items B L parent sel items env w"
| "load_items B L parent sel (Some (Sel_object p) # items) env w =
     (let (x, w1) = load_tree B L parent p w in load_items B L parent sel items (env(so_object (tree_object p) := x)) w1)"
| "load_items B L parent sel (Some (Sel_connection y c) # items) env w =
     load_items B L parent sel items env
       (if fts_selection_connection_ends_selected sel c \<and> sc_type c > c_hidden
        then lo_connect L (env (sc_src c)) (sc_woutlet c) (env (sc_dst c)) (sc_winlet c) w else w)"

definition n_items :: "sel_item option list \<Rightarrow> nat" where
  "n_items items = length (filter (\<lambda>i. i \<noteq> None) items)"

lemma n_items_simps [simp]:
  "n_items [] = 0" "n_items (None # items) = n_items items" "n_items (Some y # items) = Suc (n_items items)"
  "n_items (items @ items') = n_items items + n_items items'"
  by (simp_all add: n_items_def)

text \<open>A connection comes after the objects that it joins.\<close>

fun items_ok :: "bmax_env \<Rightarrow> selection \<Rightarrow> nat \<Rightarrow> nat \<Rightarrow> nat \<Rightarrow> sel_item option list \<Rightarrow> addr set \<Rightarrow> bool" where
  "items_ok B sel n k m [] seen \<longleftrightarrow> True"
| "items_ok B sel n k m (None # items) seen \<longleftrightarrow> items_ok B sel n k m items seen"
| "items_ok B sel n k m (Some (Sel_object p) # items) seen \<longleftrightarrow>
     tree_ok B n k m p \<and> items_ok B sel n k m items (insert (so_object (tree_object p)) seen)"
| "items_ok B sel n k m (Some (Sel_connection y c) # items) seen \<longleftrightarrow>
     (fts_selection_connection_ends_selected sel c \<longrightarrow> {sc_src c, sc_dst c} \<subseteq> seen) \<and> items_ok B sel n k m items seen"

definition addresses :: "sel_item option list \<Rightarrow> addr list" where
  "addresses items = map (item_address \<circ> the) (filter (\<lambda>i. i \<noteq> None) items)"

lemma addresses_simps [simp]:
  "addresses [] = []" "addresses (None # items) = addresses items" "addresses (Some y # items) = item_address y # addresses items"
  "addresses (items @ items') = addresses items @ addresses items'"
  by (simp_all add: addresses_def)

lemma objidx_in_append: "x \<notin> set (addresses pre) \<Longrightarrow> objidx_in x (pre @ items) idx = objidx_in x items (idx + int (n_items pre))"
  by (induction x pre idx rule: objidx_in.induct) (simp_all add: add.assoc)

definition placed :: "sel_item option list \<Rightarrow> addr option list \<Rightarrow> (addr \<Rightarrow> addr) \<Rightarrow> addr set \<Rightarrow> bool" where
  "placed pre t env seen \<longleftrightarrow>
     (\<forall>a \<in> seen. \<exists>pre1 y post. pre = pre1 @ Some y # post \<and> item_address y = a \<and> t ! n_items pre1 = Some (env a))"

lemma placed_None: "placed pre t env seen \<Longrightarrow> placed (pre @ [None]) t env seen"
  unfolding placed_def by (metis Cons_eq_appendI append.assoc)

lemma placed_connection: "placed pre t env seen \<Longrightarrow> placed (pre @ [Some (Sel_connection y c)]) t env seen"
  unfolding placed_def by (metis Cons_eq_appendI append.assoc)

lemma placed_object:
  assumes "placed pre t env seen" "n_items pre < length t" "so_object (tree_object p) \<notin> seen"
  shows "placed (pre @ [Some (Sel_object p)]) (t[n_items pre := Some x]) (env(so_object (tree_object p) := x))
    (insert (so_object (tree_object p)) seen)"
  unfolding placed_def
proof
  fix a
  assume a: "a \<in> insert (so_object (tree_object p)) seen"
  show "\<exists>pre1 y post. pre @ [Some (Sel_object p)] = pre1 @ Some y # post \<and> item_address y = a
      \<and> t[n_items pre := Some x] ! n_items pre1 = Some ((env(so_object (tree_object p) := x)) a)"
  proof (cases "a = so_object (tree_object p)")
    case True
    then show ?thesis using assms(2) by (intro exI [of _ pre] exI [of _ "Sel_object p"] exI [of _ "[]"]) simp
  next
    case False
    with a assms(1) obtain pre1 y post where "pre = pre1 @ Some y # post" "item_address y = a" "t ! n_items pre1 = Some (env a)"
      by (auto simp: placed_def)
    then show ?thesis using False by (intro exI [of _ pre1] exI [of _ y] exI [of _ "post @ [Some (Sel_object p)]"]) simp
  qed
qed

lemma placed_lookup:
  assumes "placed pre t env seen" "a \<in> seen" "sel_objects sel = pre @ items" "distinct (addresses (sel_objects sel))"
    "length t = n_items (sel_objects sel)"
  shows "0 \<le> fts_bmax_find_objidx_in_selection a sel \<and> nat (fts_bmax_find_objidx_in_selection a sel) < length t
    \<and> t ! nat (fts_bmax_find_objidx_in_selection a sel) = Some (env a)"
proof -
  obtain pre1 y post where y: "pre = pre1 @ Some y # post" "item_address y = a" "t ! n_items pre1 = Some (env a)"
    using assms(1,2) by (auto simp: placed_def)
  have "a \<notin> set (addresses pre1)" using assms(3,4) y by auto
  then have "fts_bmax_find_objidx_in_selection a sel = int (n_items pre1)"
    using y assms(3) by (simp add: fts_bmax_find_objidx_in_selection_def objidx_in_append)
  with y assms(3,5) show ?thesis by simp
qed

lemma runs_sel_connection:
  assumes "object_tables vm = t # ts" "length t \<le> 32767" "length (object_stack vm) + 2 \<le> OBJECT_STACK_DEPTH" "fits_eval 2 vm"
    and "placed pre t env seen" "{sc_src c, sc_dst c} \<subseteq> seen" "sel_objects sel = pre @ items" "distinct (addresses (sel_objects sel))"
    "length t = n_items (sel_objects sel)"
  shows "vm_runs B L ac f (fts_bmax_code_new_connection_in_selection sel c f) (vm, w)
    (vm, if sc_type c > c_hidden then lo_connect L (env (sc_src c)) (sc_woutlet c) (env (sc_dst c)) (sc_winlet c) w else w)"
proof (cases "sc_type c > c_hidden")
  case True
  let ?i = "\<lambda>a. fts_bmax_find_objidx_in_selection a sel"
  have i: "0 \<le> ?i a" "nat (?i a) < length t" "t ! nat (?i a) = Some (env a)" "sint (word_of_int (?i a) :: int32) = ?i a"
    if "a \<in> {sc_src c, sc_dst c}" for a
  proof -
    show *: "0 \<le> ?i a" "nat (?i a) < length t" "t ! nat (?i a) = Some (env a)"
      using placed_lookup [OF assms(5) _ assms(7-9), of a] that assms(6) by auto
    with assms(2) sint_of_nat [of "nat (?i a)"] show "sint (word_of_int (?i a) :: int32) = ?i a" by simp
  qed
  let ?src = "env (sc_src c)" and ?dst = "env (sc_dst c)"
  let ?f1 = "fts_bmax_code_push_int (sc_winlet c) f" let ?f2 = "fts_bmax_code_push_int (sc_woutlet c) ?f1"
  let ?f3 = "fts_bmax_code_push_obj (word_of_int (?i (sc_dst c))) ?f2" let ?f4 = "fts_bmax_code_push_obj (word_of_int (?i (sc_src c))) ?f3"
  let ?f5 = "fts_bmax_code_connect ?f4" let ?f6 = "fts_bmax_code_pop_args 2 ?f5"
  let ?es = "[AInt (sc_woutlet c), AInt (sc_winlet c)]" and ?w' = "lo_connect L ?src (sc_woutlet c) ?dst (sc_winlet c) w"
  have "vm_runs B L ac f ?f1 (vm, w) (with_eval [AInt (sc_winlet c)] vm, w)"
    using assms(4) by (intro runs_push_int) (simp add: fits_eval_def)
  moreover have "vm_runs B L ac ?f1 ?f2 (with_eval [AInt (sc_winlet c)] vm, w) (with_eval [AInt (sc_woutlet c)] (with_eval [AInt (sc_winlet c)] vm), w)"
    using assms(4) by (intro runs_push_int) (simp add: fits_with_eval numeral_2_eq_2)
  moreover have "vm_runs B L ac ?f2 ?f3 (with_eval ?es vm, w) (with_objs [?dst] (with_eval ?es vm), w)"
    using assms(1,3) i [of "sc_dst c"] by (intro runs_push_obj [of _ t ts]) simp_all
  moreover have "vm_runs B L ac ?f3 ?f4 (with_objs [?dst] (with_eval ?es vm), w) (with_objs [?src] (with_objs [?dst] (with_eval ?es vm)), w)"
    using assms(1,3) i [of "sc_src c"] by (intro runs_push_obj [of _ t ts]) simp_all
  moreover have "vm_runs B L ac ?f4 ?f5 (with_objs [?src, ?dst] (with_eval ?es vm), w) (with_objs [?src, ?dst] (with_eval ?es vm), ?w')"
    by (rule runs_connect)
  moreover have "vm_runs B L ac ?f5 ?f6 (with_objs [?src, ?dst] (with_eval ?es vm), ?w') (with_objs [?src, ?dst] vm, ?w')"
    using runs_pop_args [of 2 ?es B L ac ?f5 "with_objs [?src, ?dst] vm" ?w'] by simp
  moreover have "vm_runs B L ac ?f6 (fts_bmax_code_pop_objs 2 ?f6) (with_objs [?src, ?dst] vm, ?w') (vm, ?w')"
    by (intro runs_pop_objs) simp
  ultimately have "vm_runs B L ac f (fts_bmax_code_pop_objs 2 ?f6) (vm, w) (vm, ?w')" by simp (meson runs_trans)
  with True show ?thesis by (simp add: fts_bmax_code_new_connection_in_selection_def Let_def)
qed (simp add: fts_bmax_code_new_connection_in_selection_def runs_refl)

lemma runs_items:
  assumes "sel_objects sel = pre @ items" "object_stack vm = parent # ys" "distinct (addresses (sel_objects sel))"
    "n_items (sel_objects sel) \<le> 32767" "length t = n_items (sel_objects sel)" "placed pre t env seen"
    "seen \<subseteq> set (addresses pre)" "items_ok B sel (length (eval_stack vm)) (length (object_stack vm)) (Suc (length (object_tables vm))) items seen"
    "length (object_stack vm) + 2 \<le> OBJECT_STACK_DEPTH" "fits_eval 2 vm"
  shows "\<exists>t'. vm_runs B L ac f (code_items B sel items (int (n_items pre)) f) (with_table t vm, w)
    (with_table t' vm, load_items B L parent sel items env w)"
  using assms
proof (induction items arbitrary: pre t env seen f w)
  case Nil
  then show ?case by (auto intro: runs_refl)
next
  case (Cons item items)
  show ?case
  proof (cases item)
    case None
    have "\<exists>t'. vm_runs B L ac f (code_items B sel items (int (n_items (pre @ [None]))) f) (with_table t vm, w)
        (with_table t' vm, load_items B L parent sel items env w)"
      using Cons.prems None by (intro Cons.IH [of "pre @ [None]" t env seen]) (auto intro: placed_None)
    then show ?thesis using None by simp
  next
    case (Some y)
    show ?thesis
    proof (cases y)
      case (Sel_object p)
      let ?a = "so_object (tree_object p)" and ?i = "int (n_items pre)"
      obtain x w1 where x: "load_tree B L parent p w = (x, w1)" by (cases "load_tree B L parent p w")
      let ?t = "t[n_items pre := Some x]" and ?f1 = "fts_bmax_code_new_patcher B p ?i f"
      have lt: "n_items pre < length t" "n_items pre \<le> 32767" using Cons.prems(1,4,5) Some by simp_all
      have new: "?a \<notin> seen" using Cons.prems(1,3,7) Some Sel_object by auto
      have "vm_runs B L ac f ?f1 (with_table t vm, w) (with_objs [x] (with_table (t[nat ?i := Some x]) vm), w1)"
        using runs_tree Cons.prems(2,8) lt x Some Sel_object by (intro tree_runsD) auto
      then have "vm_runs B L ac f ?f1 (with_table t vm, w) (with_objs [x] (with_table ?t vm), w1)" by (simp only: nat_int)
      moreover have "vm_runs B L ac ?f1 (fts_bmax_code_pop_objs 1 ?f1) (with_objs [x] (with_table ?t vm), w1) (with_table ?t vm, w1)"
        by (intro runs_pop_objs) simp
      moreover obtain t' where "vm_runs B L ac (fts_bmax_code_pop_objs 1 ?f1)
          (code_items B sel items (int (n_items (pre @ [Some y]))) (fts_bmax_code_pop_objs 1 ?f1)) (with_table ?t vm, w1)
          (with_table t' vm, load_items B L parent sel items (env(?a := x)) w1)"
        using Cons.IH [of "pre @ [Some y]" ?t "env(?a := x)" "insert ?a seen" "fts_bmax_code_pop_objs 1 ?f1" w1]
          placed_object [OF Cons.prems(6) lt(1) new, of x] Cons.prems Some Sel_object by (auto simp del: fun_upd_apply)
      ultimately have "vm_runs B L ac f (code_items B sel items (int (n_items (pre @ [Some y]))) (fts_bmax_code_pop_objs 1 ?f1))
          (with_table t vm, w) (with_table t' vm, load_items B L parent sel items (env(?a := x)) w1)" by (meson runs_trans)
      then show ?thesis using Some Sel_object x by (auto simp: add.commute simp del: fun_upd_apply)
    next
      case (Sel_connection cid c)
      let ?sel = "fts_selection_connection_ends_selected sel c"
      let ?f1 = "if ?sel then fts_bmax_code_new_connection_in_selection sel c f else f"
      let ?w1 = "if ?sel \<and> sc_type c > c_hidden then lo_connect L (env (sc_src c)) (sc_woutlet c) (env (sc_dst c)) (sc_winlet c) w else w"
      have "vm_runs B L ac f ?f1 (with_table t vm, w) (with_table t vm, ?w1)"
      proof (cases ?sel)
        case True
        have "vm_runs B L ac f (fts_bmax_code_new_connection_in_selection sel c f) (with_table t vm, w) (with_table t vm,
            if sc_type c > c_hidden then lo_connect L (env (sc_src c)) (sc_woutlet c) (env (sc_dst c)) (sc_winlet c) w else w)"
          using Cons.prems Some Sel_connection True
          by (intro runs_sel_connection [where pre = pre and items = "item # items" and t = t and seen = seen and ts = "object_tables vm"])
            (auto simp: fits_eval_def)
        with True show ?thesis by simp
      qed (simp add: runs_refl)
      moreover obtain t' where "vm_runs B L ac ?f1 (code_items B sel items (int (n_items (pre @ [Some y]))) ?f1) (with_table t vm, ?w1)
          (with_table t' vm, load_items B L parent sel items env ?w1)"
        using Cons.IH [of "pre @ [Some y]" t env seen ?f1 ?w1] placed_connection [OF Cons.prems(6), of cid c] Cons.prems Some Sel_connection
        by auto
      ultimately have "vm_runs B L ac f (code_items B sel items (int (n_items (pre @ [Some y]))) ?f1)
          (with_table t vm, w) (with_table t' vm, load_items B L parent sel items env ?w1)" by (meson runs_trans)
      then show ?thesis using Some Sel_connection by (auto simp: add.commute split del: if_split)
    qed
  qed
qed

text \<open>
  Running the code of a selection creates its objects in the parent and connects them. Nothing is
  returned when the object stack was empty before.
\<close>

definition selection_fits :: "bmax_env \<Rightarrow> nat \<Rightarrow> nat \<Rightarrow> selection \<Rightarrow> bool" where
  "selection_fits B n m sel \<longleftrightarrow>
     n + 2 \<le> EVAL_STACK_DEPTH \<and> m + 1 \<le> OBJECT_TABLE_STACK_DEPTH \<and> selection_ok sel \<and> selection_size sel \<le> 32767
     \<and> distinct (addresses (sel_objects sel)) \<and> items_ok B sel n 1 (m + 1) (sel_objects sel) {}"

lemma runs_selection:
  assumes "selection_fits B (length (eval_stack vm)) (length (object_tables vm)) sel" "object_stack vm = [parent]"
  shows "vm_runs B L 0 f (fts_bmax_code_new_selection B sel f) (vm, w) (vm, load_items B L parent sel (sel_objects sel) env w)"
proof -
  let ?n = "word_of_int (sel_count sel) :: int32" and ?w' = "load_items B L parent sel (sel_objects sel) env w"
  let ?f1 = "fts_bmax_code_push_obj_table ?n f" let ?f2 = "code_items B sel (sel_objects sel) 0 ?f1"
  have fit: "n_items (sel_objects sel) = selection_size sel" "sel_count sel = int (selection_size sel)" "selection_size sel \<le> 32767"
    "length (eval_stack vm) + 2 \<le> EVAL_STACK_DEPTH" "length (object_tables vm) + 1 \<le> OBJECT_TABLE_STACK_DEPTH"
    using assms(1) by (simp_all add: selection_fits_def selection_ok_def selection_size_def n_items_def)
  then have n: "sint ?n = int (selection_size sel)" using sint_of_nat [of "selection_size sel"] by simp
  have "vm_runs B L 0 f ?f1 (vm, w) (with_table (replicate (selection_size sel) None) vm, w)"
    using runs_push_table [of ?n vm B L 0 f w] fit n by simp
  moreover obtain t' where "vm_runs B L 0 ?f1 ?f2 (with_table (replicate (selection_size sel) None) vm, w) (with_table t' vm, ?w')"
    using runs_items [of sel "[]" "sel_objects sel" vm parent "[]" "replicate (selection_size sel) None" env "{}" B L 0 ?f1 w]
      assms fit by (auto simp: selection_fits_def placed_def fits_eval_def OBJECT_STACK_DEPTH_def)
  moreover have "vm_runs B L 0 ?f2 (fts_bmax_code_pop_obj_table ?f2) (with_table t' vm, ?w') (vm, ?w')" by (rule runs_pop_table)
  ultimately have "vm_runs B L 0 f (fts_bmax_code_pop_obj_table ?f2) (vm, w) (vm, ?w')" by (meson runs_trans)
  then show ?thesis by (simp add: fts_bmax_code_new_selection_def)
qed

lemma run_saved_selection:
  assumes "selection_fits B (length (eval_stack vm)) (length (object_tables vm)) sel" "object_stack vm = []"
    "length (bf_symbols (fts_save_selection_as_bmax B sel)) < 2 ^ 31" "quiet L"
  shows "fts_run_mess_vm B L parent (saved_descr (fts_save_selection_as_bmax B sel)) [] vm w
    = Some (None, vm, load_items B L parent sel (sel_objects sel) env w)"
proof -
  let ?init = "fts_bmax_file_open_fd None" and ?vm = "vm\<lparr>object_stack := [parent]\<rparr>"
  let ?w' = "load_items B L parent sel (sel_objects sel) env w"
  let ?f = "fts_bmax_code_new_selection B sel ?init" and ?d = "saved_descr (fts_save_selection_as_bmax B sel)"
  have "vm_runs B L 0 ?init ?f (?vm, w) (?vm, ?w')" using assms(1) by (intro runs_selection) simp_all
  then obtain bs where bs: "bf_code ?f = bf_code ?init @ bs" and
    run: "\<And>descr rest. quiet L \<Longrightarrow> bd_version descr = 2 \<Longrightarrow> prefix (bf_symbols ?f) (bd_symbols descr) \<Longrightarrow> length (bd_symbols descr) < 2 ^ 31 \<Longrightarrow>
      vm_loop B L descr 0 (bs @ rest) ?vm w = vm_loop B L descr 0 rest ?vm ?w'"
    unfolding vm_runs_def fst_conv snd_conv by blast
  have save: "fts_save_selection_as_bmax B sel = bmax_fwrite [FVM_RETURN] ?f"
    by (simp only: fts_save_selection_as_bmax_def fts_bmax_code_return_def fts_bmax_write_opcode_def)
  have d: "bd_version ?d = 2" "bd_symbols ?d = bf_symbols ?f" "bd_code ?d = bs @ [FVM_RETURN]"
    unfolding save saved_descr_def using bs by (simp_all add: bmax_fwrite_def fts_bmax_file_open_fd_def)
  have "vm_loop B L ?d 0 (bs @ [FVM_RETURN]) ?vm w = vm_loop B L ?d 0 [FVM_RETURN] ?vm ?w'"
    using assms(3,4) d by (intro run) (simp_all add: save bmax_fwrite_def)
  also have "\<dots> = Some (None, vm, ?w')"
    using assms(2) by (simp add: vm_step_def vm_return_def)
  finally show ?thesis
    using assms(1,2) unfolding fts_run_mess_vm_def d(3) by (simp add: OBJECT_STACK_DEPTH_def selection_fits_def)
qed

subsection \<open>The clipboard\<close>

text \<open>
  The clipboard (\<open>fts/clipboard.c\<close>) is one file, opened when the object is made and never cut: a copy
  overwrites the front of what is there.
\<close>

record clipboard =
  cb_file :: "byte list option"

definition overwrite :: "byte list \<Rightarrow> byte list \<Rightarrow> byte list" where
  "overwrite new old = new @ drop (length new) old"

definition clipboard_init :: "bool \<Rightarrow> clipboard" where
  "clipboard_init opened = \<lparr>cb_file = (if opened then Some [] else None)\<rparr>"

definition clipboard_copy_selection :: "bmax_env \<Rightarrow> (sym \<Rightarrow> string) \<Rightarrow> selection \<Rightarrow> clipboard \<Rightarrow> clipboard" where
  "clipboard_copy_selection B nm sel cb =
     (case cb_file cb of
        None \<Rightarrow> cb
      | Some old \<Rightarrow> cb\<lparr>cb_file := Some (overwrite (fts_bmax_file_sync nm (fts_save_selection_as_bmax B sel)) old)\<rparr>)"

definition clipboard_paste_in ::
  "bmax_env \<Rightarrow> 'w loader_ops \<Rightarrow> (string \<Rightarrow> sym) \<Rightarrow> addr \<Rightarrow> clipboard \<Rightarrow> bmax_vm \<Rightarrow> 'w \<Rightarrow> (bmax_vm \<times> 'w) option" where
  "clipboard_paste_in B L new_symbol patcher cb vm w =
     (case cb_file cb of
        None \<Rightarrow> Some (vm, w)
      | Some bs \<Rightarrow> map_option (\<lambda>r. case r of Inl _ \<Rightarrow> (vm, w) | Inr (_, vm', w') \<Rightarrow> (vm', w'))
                    (fts_bmax_filedesc_load B L new_symbol bs patcher [] vm w))"

definition selection_savable :: "bmax_env \<Rightarrow> (sym \<Rightarrow> string) \<Rightarrow> (string \<Rightarrow> sym) \<Rightarrow> selection \<Rightarrow> bool" where
  "selection_savable B nm new_symbol sel \<longleftrightarrow>
     (let f = fts_save_selection_as_bmax B sel
      in bf_code_size f < 2 ^ 32 \<and> length (bf_symbols f) < 2 ^ 31 \<and> names_ok nm new_symbol (bf_symbols f))"

lemma map_saved_selection:
  assumes "selection_fits B n m sel" "selection_savable B nm new_symbol sel"
  shows "fts_binary_file_map B new_symbol (overwrite (fts_bmax_file_sync nm (fts_save_selection_as_bmax B sel)) old)
    = Some (Inr (saved_descr (fts_save_selection_as_bmax B sel)))"
proof -
  let ?init = "fts_bmax_file_open_fd None" let ?f = "fts_bmax_code_new_selection B sel ?init"
  let ?vm = "\<lparr>eval_stack = replicate n AVoid, object_stack = [0], object_tables = replicate m []\<rparr>"
  let ?L = "\<lparr>lo_eval = \<lambda>_ _ w. (0, w), lo_send = \<lambda>_ _ _ w. w, lo_put_prop = \<lambda>_ _ _ w. w, lo_connect = \<lambda>_ _ _ _ w. w,
    lo_is_patcher = \<lambda>_ _. False, lo_set_scope = \<lambda>_ w. w, lo_redefined = \<lambda>_ _. []\<rparr> :: unit loader_ops"
  have init: "code_sized ?init" by (simp add: code_sized_def fts_bmax_file_open_fd_def)
  have "vm_runs B ?L 0 ?init ?f (?vm, ()) (?vm, load_items B ?L 0 sel (sel_objects sel) id ())"
    using assms(1) by (intro runs_selection) simp_all
  then have "code_sized ?f" using init by (rule runs_code_sized)
  then have "code_sized (fts_save_selection_as_bmax B sel)"
    unfolding fts_save_selection_as_bmax_def fts_bmax_code_return_def fts_bmax_write_opcode_def
    by (simp add: code_sized_def bmax_fwrite_def)
  then show ?thesis
    unfolding overwrite_def using assms(2) by (intro map_saved_file) (simp_all add: selection_savable_def Let_def names_ok_def)
qed

lemma paste_copied_selection:
  assumes "selection_fits B (length (eval_stack vm)) (length (object_tables vm)) sel" "selection_savable B nm new_symbol sel"
    and "object_stack vm = []" "cb_file cb = Some old" "quiet L"
  shows "clipboard_paste_in B L new_symbol patcher (clipboard_copy_selection B nm sel cb) vm w =
    (if bf_symbols (fts_save_selection_as_bmax B sel) = [] then None
     else Some (vm, load_items B L patcher sel (sel_objects sel) env w))"
  using assms(4) map_saved_selection [OF assms(1,2)] run_saved_selection [OF assms(1,3) _ assms(5), of patcher w env] assms(2)
  by (simp add: clipboard_paste_in_def clipboard_copy_selection_def fts_bmax_filedesc_load_def fts_binary_file_dispose_def
      saved_descr_def selection_savable_def Let_def)

end
