(* ===== verification/BmaxBig.thy ===== *)
theory BmaxBig
  imports BmaxLoad
begin

text \<open>
  Patchers with more than 32767 objects. The saver writes the number of objects with four bytes, but
  the machine skips one of them only: the others are executed. The first of them is zero when the
  number is below 65536, and zero is the opcode that ends the loading.
\<close>

definition emits :: "bmax_file \<Rightarrow> bmax_file \<Rightarrow> bool" where
  "emits f g \<longleftrightarrow> prefix (bf_code f) (bf_code g) \<and> prefix (bf_symbols f) (bf_symbols g)"

lemma emits_refl [simp]: "emits f f"
  by (simp add: emits_def)

lemma emits_trans: "emits f g \<Longrightarrow> emits g h \<Longrightarrow> emits f h"
  by (auto simp: emits_def intro: prefix_order.trans)

lemma emits_fwrite [simp]: "emits f (bmax_fwrite bs f)"
  by (simp add: emits_def bmax_fwrite_def)

lemma emits_fwrite_right: "emits f g \<Longrightarrow> emits f (bmax_fwrite bs g)"
  by (rule emits_trans [OF _ emits_fwrite])

lemma emits_arg [simp]: "emits f (code_with_arg opcode value f)"
  by (simp add: code_with_arg_def write_int fts_bmax_write_opcode_for_def bmax_fwrite_twice)

lemma emits_add_symbol: "fts_bmax_add_symbol s f = (v, g) \<Longrightarrow> emits f g"
  by (auto simp: emits_def dest: add_symbol(1,3))

lemma emits_symbol [simp]: "emits f (code_with_symbol opcode s f)"
  by (auto simp: code_with_symbol_def split: prod.splits intro: emits_trans emits_add_symbol)

lemma emits_float [simp]: "emits f (fts_bmax_write_float B value (fts_bmax_write_opcode opcode f))"
  by (simp add: fts_bmax_write_float_def fts_bmax_write_opcode_def bmax_fwrite_twice)

lemma emits_push_atom [simp]: "emits f (push_atom B a f)"
  by (simp add: push_atom_def fts_bmax_code_push_int_def fts_bmax_code_push_float_def fts_bmax_code_push_symbol_def split: atom.split)

lemma emits_set_atom [simp]: "emits f (fts_bmax_code_set_atom B a f)"
  by (simp add: fts_bmax_code_set_atom_def fts_bmax_code_set_int_def fts_bmax_code_set_float_def fts_bmax_code_set_symbol_def
      split: atom.split)

lemma emits_push_atoms: "emits f g \<Longrightarrow> emits f (fts_bmax_code_push_atoms B at g)"
  by (induction B at g rule: fts_bmax_code_push_atoms.induct) (auto intro: emits_trans [OF _ emits_push_atom])

lemma emits_ops:
  "emits f g \<Longrightarrow> emits f (fts_bmax_code_push_int i g)" "emits f g \<Longrightarrow> emits f (fts_bmax_code_push_symbol s g)"
  "emits f g \<Longrightarrow> emits f (fts_bmax_code_pop_args n g)" "emits f g \<Longrightarrow> emits f (fts_bmax_code_push_obj n g)"
  "emits f g \<Longrightarrow> emits f (fts_bmax_code_mv_obj n g)" "emits f g \<Longrightarrow> emits f (fts_bmax_code_pop_objs n g)"
  "emits f g \<Longrightarrow> emits f (fts_bmax_code_make_obj n g)" "emits f g \<Longrightarrow> emits f (fts_bmax_code_make_top_obj n g)"
  "emits f g \<Longrightarrow> emits f (fts_bmax_code_put_prop s g)" "emits f g \<Longrightarrow> emits f (fts_bmax_code_push_obj_table n g)"
  "emits f g \<Longrightarrow> emits f (fts_bmax_code_pop_obj_table g)" "emits f g \<Longrightarrow> emits f (fts_bmax_code_connect g)"
  "emits f g \<Longrightarrow> emits f (fts_bmax_code_set_atom B a g)" "emits f g \<Longrightarrow> emits f (fts_bmax_code_return g)"
  by (auto simp: fts_bmax_code_push_int_def fts_bmax_code_push_symbol_def fts_bmax_code_pop_args_def fts_bmax_code_push_obj_def
      fts_bmax_code_mv_obj_def fts_bmax_code_pop_objs_def fts_bmax_code_make_obj_def fts_bmax_code_make_top_obj_def
      fts_bmax_code_put_prop_def fts_bmax_code_push_obj_table_def fts_bmax_code_pop_obj_table_def fts_bmax_code_connect_def
      fts_bmax_code_return_def fts_bmax_write_opcode_def intro: emits_trans)

lemma emits_obj_mess: "emits f g \<Longrightarrow> emits f (fts_bmax_code_obj_mess s n g)"
  by (auto simp: fts_bmax_code_obj_mess_def fts_bmax_write_l_int_def fts_bmax_write_opcode_def bmax_fwrite_twice
      split: prod.splits dest!: emits_add_symbol intro!: emits_fwrite_right intro: emits_trans)

lemma emits_fold: "(\<And>x g. emits f g \<Longrightarrow> emits f (h x g)) \<Longrightarrow> emits f g \<Longrightarrow> emits f (fold h xs g)"
  by (induction xs arbitrary: g) simp_all

lemma emits_dumps: "emits f g \<Longrightarrow> emits f (code_dumps B ms g)"
  unfolding code_dumps_def by (rule emits_fold) (auto simp: saver_dumper_send_def intro!: emits_ops emits_obj_mess emits_push_atoms)

lemma emits_properties: "emits f g \<Longrightarrow> emits f (code_properties B o1 props g)"
  unfolding code_properties_def by (rule emits_fold) (simp_all add: fts_bmax_code_new_property_def Let_def emits_ops)

lemma emits_object: "emits f g \<Longrightarrow> emits f (fts_bmax_code_new_object B o1 i g)"
  by (auto simp: fts_bmax_code_new_object_def Let_def code_state_def code_name_def
      intro!: emits_ops emits_obj_mess emits_dumps emits_properties emits_push_atoms)

lemma emits_top_object: "emits f g \<Longrightarrow> emits f (fts_bmax_code_new_top_object B o1 g)"
  by (auto simp: fts_bmax_code_new_top_object_def Let_def intro!: emits_ops emits_properties emits_trans [OF _ emits_push_atom])

lemma emits_connections: "emits f g \<Longrightarrow> emits f (code_connections ps g)"
  unfolding code_connections_def
  by (rule emits_fold) (auto simp: code_outlets_def fts_bmax_code_new_connection_def Let_def intro!: emits_fold emits_ops)

lemma emits_tree: "emits f (fts_bmax_code_new_patcher B p i f)" "emits g (code_objects B ps j g)"
proof (induction B p i f and B ps j g rule: fts_bmax_code_new_patcher_code_objects.induct)
  case (2 B x ps idx f)
  let ?f1 = "if idx = - 1 then fts_bmax_code_new_top_object B x f else fts_bmax_code_new_object B x idx f"
  have "emits f (fts_bmax_code_push_obj_table (of_nat (length ps)) ?f1)" by (auto intro!: emits_ops emits_object emits_top_object)
  then have "emits f (code_objects B ps 0 (fts_bmax_code_push_obj_table (of_nat (length ps)) ?f1))" using 2 emits_trans by blast
  then show ?case by (simp add: Let_def emits_ops emits_connections)
qed (auto simp: emits_object intro: emits_trans emits_ops)

lemma big_table_code:
  assumes "32767 < sint n"
  shows "bf_code (fts_bmax_code_push_obj_table n f) = bf_code f @ (FVM_PUSH_OBJ_TABLE OR FVM_L_ARG) # long_bytes n"
  using assms by (simp add: fts_bmax_code_push_obj_table_def code_with_arg_def write_int fts_bmax_write_opcode_for_def
      bmax_fwrite_def int_bytes_for_def fts_bmax_get_argcode_def FVM_L_ARG_def FVM_B_ARG_def FVM_S_ARG_def)

lemma length_long_bytes: "length (long_bytes n) = 4"
  by (simp add: long_bytes_def)

lemma big_table_step:
  "vm_step B L descr ac (FVM_PUSH_OBJ_TABLE OR FVM_L_ARG) (long_bytes n @ rest) vm w =
     vm_next (drop 1 (long_bytes n) @ rest) w (push_table n vm)"
  by (simp add: vm_step_def fvm_arg_def get_l vm_with_arg_def sized_opcodes_def FVM_PUSH_OBJ_TABLE_def FVM_L_ARG_def FVM_S_ARG_def
      FVM_B_ARG_def FVM_N_ARG_def opcode_values FVM_RETURN_def FVM_PUSH_FLOAT_def FVM_SET_FLOAT_def FVM_OBJ_MESS_def FVM_CONNECT_def
      FVM_POP_OBJ_TABLE_def Let_def length_long_bytes)

lemma second_byte_zero:
  fixes n :: int32
  assumes "unat n < 65536"
  shows "\<exists>b c. drop 1 (long_bytes n) = [0, b, c]"
proof -
  have "unat (drop_bit 16 n) = 0" unfolding unat_drop_bit_eq using assms by (simp add: drop_bit_eq_div)
  then have "drop_bit 16 n = 0" by (simp only: unsigned_eq_0_iff)
  then show ?thesis by (simp add: long_bytes_def)
qed

lemma big_patcher_lost:
  assumes ps: "32767 < length ps" "length ps < 65536" and f: "f = fts_save_patcher_as_bmax B (Patcher o1 ps)"
    and "length (bf_symbols f) < 2 ^ 31" "object_ok B (length at + length (eval_stack vm)) o1"
    and "length (object_stack vm) + 2 \<le> OBJECT_STACK_DEPTH" "length (object_tables vm) < OBJECT_TABLE_STACK_DEPTH"
    and load: "load_top_object B L parent at o1 w = (x, w')" and quiet: "quiet L"
  shows "fts_run_mess_vm B L parent (saved_descr f) at vm w =
    Some (Some x, vm\<lparr>object_tables := replicate (length ps) None # object_tables vm\<rparr>, w')"
proof -
  let ?init = "fts_bmax_file_open_fd None" and ?vm = "vm\<lparr>object_stack := parent # object_stack vm, eval_stack := at @ eval_stack vm\<rparr>"
  let ?f1 = "fts_bmax_code_new_top_object B o1 ?init" and ?n = "of_nat (length ps) :: int32" and ?d = "saved_descr f"
  let ?f2 = "fts_bmax_code_push_obj_table ?n ?f1" and ?t = "replicate (length ps) None" and ?op = "FVM_PUSH_OBJ_TABLE OR FVM_L_ARG"
  have n: "sint ?n = int (length ps)" "unat ?n < 65536" using ps sint_of_nat [of "length ps"] by (simp_all add: unat_of_nat)
  have "emits ?f1 f" "emits ?f2 f"
    unfolding f fts_save_patcher_as_bmax_def by (auto simp: Let_def intro!: emits_ops emits_connections emits_tree(2) intro: emits_trans [OF _ emits_tree(2)])
  then obtain tail where tail: "bf_code f = bf_code ?f2 @ tail" and sym: "prefix (bf_symbols ?f1) (bf_symbols f)"
    by (auto simp: emits_def prefix_def)
  have "vm_runs B L (length at) ?init ?f1 (?vm, w) (with_objs [x] ?vm, w')"
    using assms(5-8) by (intro runs_top_object) simp_all
  then obtain bs where bs: "bf_code ?f1 = bs" and
    run: "\<And>rest. vm_loop B L ?d (length at) (bs @ rest) ?vm w = vm_loop B L ?d (length at) rest (with_objs [x] ?vm) w'"
    using sym assms(4) quiet by (auto simp: vm_runs_def saved_descr_def fts_bmax_file_open_fd_def)
  obtain b c where bc: "drop 1 (long_bytes ?n) = [0, b, c]" using second_byte_zero n(2) by blast
  have "bd_code ?d = bs @ ?op # long_bytes ?n @ tail"
    using tail bs ps(1) n(1) by (simp add: saved_descr_def big_table_code)
  moreover have "vm_loop B L ?d (length at) (?op # long_bytes ?n @ tail) (with_objs [x] ?vm) w' =
      vm_loop B L ?d (length at) ([0, b, c] @ tail) (with_table ?t (with_objs [x] ?vm)) w'"
    using assms(7) n(1) by (simp add: big_table_step bc [unfolded One_nat_def] vm_next_def push_table_def with_table_def)
  moreover have "\<dots> = Some (Some x, vm\<lparr>object_tables := ?t # object_tables vm\<rparr>, w')"
    by (simp add: vm_step_def vm_return_def with_objs_def with_table_def FVM_RETURN_def)
  ultimately show ?thesis
    using assms(5,6) unfolding fts_run_mess_vm_def by (simp add: run object_ok_def)
qed

end
