(* ===== verification/SeqTrack.thy ===== *)
theory SeqTrack
  imports Atom
begin

text \<open>
  Tracks of the sequence package (\<open>packages/sequence/c/src/track.c\<close>, \<open>event.c\<close>): events with a time and a
  value on a doubly linked list, in the order of their times.

  Times are of any type with a linear order and a zero; the operations that compute times need a
  field, whose laws doubles obey up to rounding. Events and tracks are found by their addresses, 0 is
  the null pointer. An operation that follows a dangling or null pointer is \<^const>\<open>None\<close>.
\<close>

record 't seq_event =
  ev_time :: 't
  ev_value :: atom
  ev_track :: addr
  ev_prev :: addr
  ev_next :: addr

record seq_track =
  tr_first :: addr
  tr_last :: addr
  tr_size :: int

record 't seq_world =
  sq_events :: "addr \<Rightarrow> 't seq_event option"
  sq_tracks :: "addr \<Rightarrow> seq_track option"
  sq_refs :: obj_store

definition upd_event :: "addr \<Rightarrow> ('t seq_event \<Rightarrow> 't seq_event) \<Rightarrow> 't seq_world \<Rightarrow> 't seq_world option" where
  "upd_event x f s = map_option (\<lambda>e. s\<lparr>sq_events := (sq_events s)(x \<mapsto> f e)\<rparr>) (sq_events s x)"

definition upd_track :: "addr \<Rightarrow> (seq_track \<Rightarrow> seq_track) \<Rightarrow> 't seq_world \<Rightarrow> 't seq_world option" where
  "upd_track b f s = map_option (\<lambda>t. s\<lparr>sq_tracks := (sq_tracks s)(b \<mapsto> f t)\<rparr>) (sq_tracks s b)"

definition event_init :: "addr \<Rightarrow> atom option \<Rightarrow> 't::zero seq_world \<Rightarrow> 't seq_world option" where
  "event_init x value s =
     (let s1 = s\<lparr>sq_events := (sq_events s)(x \<mapsto> \<lparr>ev_time = 0, ev_value = AVoid, ev_track = 0, ev_prev = 0, ev_next = 0\<rparr>)\<rparr>
      in case value of
           None \<Rightarrow> Some s1
         | Some a \<Rightarrow> do {
             (v, st) \<leftarrow> fts_atom_assign AVoid a (sq_refs s1);
             upd_event x (\<lambda>e. e\<lparr>ev_value := v\<rparr>) (s1\<lparr>sq_refs := st\<rparr>) })"

definition event_delete :: "addr \<Rightarrow> 't seq_world \<Rightarrow> 't seq_world option" where
  "event_delete x s = do {
     e \<leftarrow> sq_events s x;
     (v, st) \<leftarrow> fts_atom_void (ev_value e) (sq_refs s);
     Some (s\<lparr>sq_refs := st, sq_events := (sq_events s)(x := None)\<rparr>) }"

text \<open>The last release of an event deletes it.\<close>

definition release_event :: "addr \<Rightarrow> 't seq_world \<Rightarrow> 't seq_world option" where
  "release_event x s = do {
     st \<leftarrow> fts_object_release x (sq_refs s);
     if st x = None then event_delete x (s\<lparr>sq_refs := st\<rparr>) else Some (s\<lparr>sq_refs := st\<rparr>) }"

definition refer_event :: "addr \<Rightarrow> 't seq_world \<Rightarrow> 't seq_world option" where
  "refer_event x s = map_option (\<lambda>st. s\<lparr>sq_refs := st\<rparr>) (fts_object_refer x (sq_refs s))"

subsection \<open>The list\<close>

definition prepend_event :: "addr \<Rightarrow> addr \<Rightarrow> 't seq_world \<Rightarrow> 't seq_world option" where
  "prepend_event track event s = do {
     t \<leftarrow> sq_tracks s track;
     if tr_size t = 0 then do {
       s1 \<leftarrow> upd_event event (\<lambda>e. e\<lparr>ev_next := 0, ev_prev := 0\<rparr>) s;
       upd_track track (\<lambda>t. t\<lparr>tr_first := event, tr_last := event, tr_size := 1\<rparr>) s1 }
     else do {
       s1 \<leftarrow> upd_event event (\<lambda>e. e\<lparr>ev_next := tr_first t, ev_prev := 0\<rparr>) s;
       s2 \<leftarrow> upd_event (tr_first t) (\<lambda>e. e\<lparr>ev_prev := event\<rparr>) s1;
       upd_track track (\<lambda>t. t\<lparr>tr_first := event, tr_size := tr_size t + 1\<rparr>) s2 } }"

definition append_event :: "addr \<Rightarrow> addr \<Rightarrow> 't seq_world \<Rightarrow> 't seq_world option" where
  "append_event track event s = do {
     t \<leftarrow> sq_tracks s track;
     if tr_size t = 0 then do {
       s1 \<leftarrow> upd_event event (\<lambda>e. e\<lparr>ev_next := 0, ev_prev := 0\<rparr>) s;
       upd_track track (\<lambda>t. t\<lparr>tr_first := event, tr_last := event, tr_size := 1\<rparr>) s1 }
     else do {
       s1 \<leftarrow> upd_event event (\<lambda>e. e\<lparr>ev_prev := tr_last t, ev_next := 0\<rparr>) s;
       s2 \<leftarrow> upd_event (tr_last t) (\<lambda>e. e\<lparr>ev_next := event\<rparr>) s1;
       upd_track track (\<lambda>t. t\<lparr>tr_last := event, tr_size := tr_size t + 1\<rparr>) s2 } }"

definition insert_event_before :: "addr \<Rightarrow> addr \<Rightarrow> addr \<Rightarrow> 't seq_world \<Rightarrow> 't seq_world option" where
  "insert_event_before track here event s = do {
     t \<leftarrow> sq_tracks s track;
     if here = 0 then append_event track event s
     else if here = tr_first t then prepend_event track event s
     else do {
       h \<leftarrow> sq_events s here;
       s1 \<leftarrow> upd_event event (\<lambda>e. e\<lparr>ev_prev := ev_prev h, ev_next := here\<rparr>) s;
       s2 \<leftarrow> upd_event (ev_prev h) (\<lambda>e. e\<lparr>ev_next := event\<rparr>) s1;
       s3 \<leftarrow> upd_event here (\<lambda>e. e\<lparr>ev_prev := event\<rparr>) s2;
       upd_track track (\<lambda>t. t\<lparr>tr_size := tr_size t + 1\<rparr>) s3 } }"

definition insert_event_behind :: "addr \<Rightarrow> addr \<Rightarrow> addr \<Rightarrow> 't seq_world \<Rightarrow> 't seq_world option" where
  "insert_event_behind track here event s = do {
     t \<leftarrow> sq_tracks s track;
     if here = 0 then prepend_event track event s
     else if here = tr_last t then append_event track event s
     else do {
       h \<leftarrow> sq_events s here;
       s1 \<leftarrow> upd_event event (\<lambda>e. e\<lparr>ev_next := ev_next h, ev_prev := here\<rparr>) s;
       s2 \<leftarrow> upd_event (ev_next h) (\<lambda>e. e\<lparr>ev_prev := event\<rparr>) s1;
       s3 \<leftarrow> upd_event here (\<lambda>e. e\<lparr>ev_next := event\<rparr>) s2;
       upd_track track (\<lambda>t. t\<lparr>tr_size := tr_size t + 1\<rparr>) s3 } }"

definition cutout_event :: "addr \<Rightarrow> addr \<Rightarrow> 't seq_world \<Rightarrow> 't seq_world option" where
  "cutout_event track event s = do {
     e \<leftarrow> sq_events s event;
     s1 \<leftarrow> (if ev_prev e = 0
            then if ev_next e = 0 then upd_track track (\<lambda>t. t\<lparr>tr_first := 0, tr_last := 0\<rparr>) s
                 else do {
                   s1 \<leftarrow> upd_track track (\<lambda>t. t\<lparr>tr_first := ev_next e\<rparr>) s;
                   upd_event (ev_next e) (\<lambda>e. e\<lparr>ev_prev := 0\<rparr>) s1 }
            else if ev_next e = 0
            then do {
              s1 \<leftarrow> upd_track track (\<lambda>t. t\<lparr>tr_last := ev_prev e\<rparr>) s;
              upd_event (ev_prev e) (\<lambda>e. e\<lparr>ev_next := 0\<rparr>) s1 }
            else do {
              s1 \<leftarrow> upd_event (ev_prev e) (\<lambda>p. p\<lparr>ev_next := ev_next e\<rparr>) s;
              upd_event (ev_next e) (\<lambda>n. n\<lparr>ev_prev := ev_prev e\<rparr>) s1 });
     upd_track track (\<lambda>t. t\<lparr>tr_size := tr_size t - 1\<rparr>) s1 }"

subsection \<open>Searching\<close>

text \<open>The loops that follow the links as long as a test of the event holds.\<close>

partial_function (option) skip_forward :: "('t seq_event \<Rightarrow> bool) \<Rightarrow> 't seq_world \<Rightarrow> addr \<Rightarrow> addr option" where
  "skip_forward P s x =
     (if x = 0 then Some 0
      else Option.bind (sq_events s x) (\<lambda>e. if P e then skip_forward P s (ev_next e) else Some x))"

partial_function (option) skip_backward :: "('t seq_event \<Rightarrow> bool) \<Rightarrow> 't seq_world \<Rightarrow> addr \<Rightarrow> addr option" where
  "skip_backward P s x =
     (if x = 0 then Some 0
      else Option.bind (sq_events s x) (\<lambda>e. if P e then skip_backward P s (ev_prev e) else Some x))"

text \<open>The test \<open>track_get_size(track) > 0 && ... event_get_time(track->last)\<close>, then the loop.\<close>

definition search_from :: "('t seq_event \<Rightarrow> bool) \<Rightarrow> ('t seq_event \<Rightarrow> bool) \<Rightarrow> addr \<Rightarrow> addr \<Rightarrow> 't seq_world \<Rightarrow> addr option" where
  "search_from Q P track here s = do {
     t \<leftarrow> sq_tracks s track;
     if tr_size t > 0 then do {
       l \<leftarrow> sq_events s (tr_last t);
       if Q l then skip_forward P s (if here \<noteq> 0 then here else tr_first t) else Some 0 }
     else Some 0 }"

definition track_get_event_by_time :: "addr \<Rightarrow> 't::linorder \<Rightarrow> 't seq_world \<Rightarrow> addr option" where
  "track_get_event_by_time track time s = search_from (\<lambda>l. time \<le> ev_time l) (\<lambda>e. time > ev_time e) track 0 s"

definition track_get_next_by_time :: "addr \<Rightarrow> 't::linorder \<Rightarrow> 't seq_world \<Rightarrow> addr option" where
  "track_get_next_by_time track time s = search_from (\<lambda>l. time < ev_time l) (\<lambda>e. time \<ge> ev_time e) track 0 s"

definition track_get_next_by_time_after :: "addr \<Rightarrow> 't::linorder \<Rightarrow> addr \<Rightarrow> 't seq_world \<Rightarrow> addr option" where
  "track_get_next_by_time_after track time here s =
     search_from (\<lambda>l. time \<le> ev_time l) (\<lambda>e. time \<ge> ev_time e) track here s"

definition last_time :: "addr \<Rightarrow> 't::zero seq_world \<Rightarrow> 't option" where
  "last_time track s = do {
     t \<leftarrow> sq_tracks s track;
     if tr_last t = 0 then Some 0 else map_option ev_time (sq_events s (tr_last t)) }"

text \<open>The second loop: as long as the next event is not after \<open>time\<close>.\<close>

partial_function (option) go_right :: "'t::linorder \<Rightarrow> 't seq_world \<Rightarrow> addr \<Rightarrow> addr option" where
  "go_right time s x =
     (if x = 0 then Some 0
      else Option.bind (sq_events s x) (\<lambda>e.
        if ev_next e = 0 then Some x
        else Option.bind (sq_events s (ev_next e)) (\<lambda>n.
          if ev_time n > time then Some x else go_right time s (ev_next e))))"

definition track_get_left_by_time_from :: "addr \<Rightarrow> 't::linordered_field \<Rightarrow> addr \<Rightarrow> 't seq_world \<Rightarrow> addr option" where
  "track_get_left_by_time_from track time here s = do {
     t \<leftarrow> sq_tracks s track;
     l \<leftarrow> last_time track s;
     x \<leftarrow> skip_backward (\<lambda>e. ev_time e > time) s
            (if here \<noteq> 0 then here else if time < l / 2 then tr_first t else tr_last t);
     go_right time s x }"

subsection \<open>Adding, removing and moving events\<close>

definition place_event :: "addr \<Rightarrow> 't::{linorder,zero} \<Rightarrow> addr \<Rightarrow> 't seq_world \<Rightarrow> 't seq_world option" where
  "place_event track time event s = do {
     s1 \<leftarrow> refer_event event s;
     upd_event event (\<lambda>e. e\<lparr>ev_track := track, ev_time := (if time < 0 then 0 else time)\<rparr>) s1 }"

definition track_add_event :: "addr \<Rightarrow> 't::{linorder,zero} \<Rightarrow> addr \<Rightarrow> 't seq_world \<Rightarrow> 't seq_world option" where
  "track_add_event track time event s = do {
     here \<leftarrow> track_get_next_by_time track time s;
     s1 \<leftarrow> insert_event_before track here event s;
     place_event track time event s1 }"

definition track_add_event_after :: "addr \<Rightarrow> 't::{linorder,zero} \<Rightarrow> addr \<Rightarrow> addr \<Rightarrow> 't seq_world \<Rightarrow> 't seq_world option" where
  "track_add_event_after track time event after s = do {
     here \<leftarrow> track_get_next_by_time_after track time after s;
     s1 \<leftarrow> insert_event_before track here event s;
     place_event track time event s1 }"

definition track_append_event :: "addr \<Rightarrow> 't::{linorder,zero} \<Rightarrow> addr \<Rightarrow> 't seq_world \<Rightarrow> 't seq_world option" where
  "track_append_event track time event s = do {
     s1 \<leftarrow> append_event track event s;
     place_event track time event s1 }"

text \<open>The event keeps its track: the code sets the pointer to \<open>track\<close>, not to \<open>NULL\<close>.\<close>

definition track_remove_event :: "addr \<Rightarrow> addr \<Rightarrow> 't seq_world \<Rightarrow> 't seq_world option" where
  "track_remove_event track event s = do {
     s1 \<leftarrow> cutout_event track event s;
     s2 \<leftarrow> upd_event event (\<lambda>e. e\<lparr>ev_next := 0, ev_prev := 0, ev_track := track\<rparr>) s1;
     release_event event s2 }"

definition track_move_event :: "addr \<Rightarrow> addr \<Rightarrow> 't::{linorder,zero} \<Rightarrow> 't seq_world \<Rightarrow> 't seq_world option" where
  "track_move_event track event time0 s = do {
     e \<leftarrow> sq_events s event;
     let time = (if time0 < 0 then 0 else time0);
     behind \<leftarrow> (if ev_next e = 0 then Some False else map_option (\<lambda>n. time > ev_time n) (sq_events s (ev_next e)));
     before \<leftarrow> (if behind then Some True else if ev_prev e = 0 then Some False
                else map_option (\<lambda>p. time < ev_time p) (sq_events s (ev_prev e)));
     if before then do {
       s1 \<leftarrow> cutout_event track event s;
       s2 \<leftarrow> upd_event event (\<lambda>e. e\<lparr>ev_time := time\<rparr>) s1;
       here \<leftarrow> track_get_next_by_time track time s2;
       insert_event_before track here event s2 }
     else upd_event event (\<lambda>e. e\<lparr>ev_time := time\<rparr>) s }"

subsection \<open>Merging and erasing\<close>

partial_function (option) merge_events ::
  "addr \<Rightarrow> addr \<Rightarrow> addr \<Rightarrow> 't::linorder seq_world \<Rightarrow> 't seq_world option" where
  "merge_events track here event s =
     (if event = 0 then Some s
      else Option.bind (sq_events s event) (\<lambda>e.
        Option.bind (skip_forward (\<lambda>h. ev_time e \<ge> ev_time h) s here) (\<lambda>here1.
        Option.bind (insert_event_before track here1 event s) (\<lambda>s1.
        Option.bind (upd_event event (\<lambda>x. x\<lparr>ev_track := track, ev_time := ev_time e\<rparr>) s1) (\<lambda>s2.
          merge_events track here1 (ev_next e) s2)))))"

definition track_merge :: "addr \<Rightarrow> addr \<Rightarrow> 't::linorder seq_world \<Rightarrow> 't seq_world option" where
  "track_merge track merge s = do {
     t \<leftarrow> sq_tracks s track;
     m \<leftarrow> sq_tracks s merge;
     s1 \<leftarrow> (if tr_first t \<noteq> 0 then merge_events track (tr_first t) (tr_first m) s
            else upd_track track (\<lambda>_. m) s);
     upd_track merge (\<lambda>_. \<lparr>tr_first = 0, tr_last = 0, tr_size = 0\<rparr>) s1 }"

partial_function (option) erase_events :: "addr \<Rightarrow> 't seq_world \<Rightarrow> 't seq_world option" where
  "erase_events event s =
     (if event = 0 then Some s
      else Option.bind (sq_events s event) (\<lambda>e.
        Option.bind (upd_event event (\<lambda>e. e\<lparr>ev_next := 0, ev_prev := 0, ev_track := 0\<rparr>) s) (\<lambda>s1.
        Option.bind (release_event event s1) (erase_events (ev_next e)))))"

definition track_erase_events :: "addr \<Rightarrow> 't seq_world \<Rightarrow> 't seq_world option" where
  "track_erase_events track s = do {
     t \<leftarrow> sq_tracks s track;
     s1 \<leftarrow> erase_events (tr_first t) s;
     upd_track track (\<lambda>_. \<lparr>tr_first = 0, tr_last = 0, tr_size = 0\<rparr>) s1 }"

subsection \<open>Segments\<close>

definition track_segment_get :: "addr \<Rightarrow> 't::{linorder,zero} \<Rightarrow> 't \<Rightarrow> 't seq_world \<Rightarrow> (addr \<times> addr) option" where
  "track_segment_get track begin0 end0 s = do {
     t \<leftarrow> sq_tracks s track;
     let b = (if begin0 < 0 then 0 else begin0);
     let (from, to) = (if end0 < b then (end0, b) else (b, end0));
     first \<leftarrow> skip_forward (\<lambda>e. ev_time e < from) s (tr_first t);
     after \<leftarrow> skip_forward (\<lambda>e. ev_time e < to) s first;
     Some (first, after) }"

text \<open>
  The three loops of \<open>track_segment_shift\<close>: events that pass the event before the segment are moved one
  by one, then events are shifted in place up to \<open>to\<close>, and the rest is moved from the last one backwards.
\<close>

partial_function (option) shift_before ::
  "addr \<Rightarrow> addr \<Rightarrow> 't::linordered_field \<Rightarrow> 't \<Rightarrow> addr \<Rightarrow> 't seq_world \<Rightarrow> (addr \<times> 't seq_world) option" where
  "shift_before track after before shift event s =
     (if event = after then Some (event, s)
      else Option.bind (sq_events s event) (\<lambda>e.
        if ev_time e + shift < before
        then Option.bind (track_move_event track event (if ev_time e + shift < 0 then 0 else ev_time e + shift) s)
               (shift_before track after before shift (ev_next e))
        else Some (event, s)))"

partial_function (option) shift_in_place ::
  "addr \<Rightarrow> 't::linordered_field \<Rightarrow> 't \<Rightarrow> addr \<Rightarrow> 't seq_world \<Rightarrow> (addr \<times> 't seq_world) option" where
  "shift_in_place after to shift event s =
     (if event = after then Some (event, s)
      else Option.bind (sq_events s event) (\<lambda>e.
        if ev_time e + shift < to
        then Option.bind (upd_event event (\<lambda>x. x\<lparr>ev_time := ev_time e + shift\<rparr>) s)
               (shift_in_place after to shift (ev_next e))
        else Some (event, s)))"

partial_function (option) shift_behind ::
  "addr \<Rightarrow> addr \<Rightarrow> 't::linordered_field \<Rightarrow> addr \<Rightarrow> 't seq_world \<Rightarrow> 't seq_world option" where
  "shift_behind track stop shift event s =
     (if event = stop then Some s
      else Option.bind (sq_events s event) (\<lambda>e.
        Option.bind (track_move_event track event (ev_time e + shift) s) (shift_behind track stop shift (ev_prev e))))"

definition track_segment_shift ::
  "addr \<Rightarrow> addr \<Rightarrow> addr \<Rightarrow> 't::linordered_field \<Rightarrow> 't \<Rightarrow> 't seq_world \<Rightarrow> 't seq_world option" where
  "track_segment_shift track first after to shift s =
     (if first \<noteq> 0 \<and> shift \<noteq> 0
      then do {
        f \<leftarrow> sq_events s first;
        before \<leftarrow> (if ev_prev f = 0 then Some 0 else map_option ev_time (sq_events s (ev_prev f)));
        (event, s1) \<leftarrow> shift_before track after before shift first s;
        (event, s2) \<leftarrow> shift_in_place after to shift event s1;
        if event = 0 then Some s2
        else do {
          e \<leftarrow> sq_events s2 event;
          start \<leftarrow> (if after \<noteq> 0 then map_option ev_prev (sq_events s2 after) else map_option tr_last (sq_tracks s2 track));
          shift_behind track (ev_prev e) shift start s2 } }
      else Some s)"

text \<open>
  Stretching also changes the durations of values that are objects with a method \<open>stretch\<close>. This is the
  code for tracks whose class of values has none (\<open>meth_stretch\<close> is \<open>NULL\<close>).
\<close>

partial_function (option) map_times :: "('t \<Rightarrow> 't) \<Rightarrow> addr \<Rightarrow> addr \<Rightarrow> 't seq_world \<Rightarrow> (addr \<times> 't seq_world) option" where
  "map_times f after event s =
     (if event = after then Some (event, s)
      else Option.bind (sq_events s event) (\<lambda>e.
        Option.bind (upd_event event (\<lambda>x. x\<lparr>ev_time := f (ev_time e)\<rparr>) s) (map_times f after (ev_next e))))"

definition track_segment_stretch ::
  "addr \<Rightarrow> addr \<Rightarrow> 't::linordered_field \<Rightarrow> 't \<Rightarrow> 't \<Rightarrow> 't seq_world \<Rightarrow> 't seq_world option" where
  "track_segment_stretch first after from to stretch0 s =
     (let stretch = (if stretch0 < 0 then 0 else stretch0)
      in if stretch \<noteq> 1 \<and> first \<noteq> 0
         then do {
           (event, s1) \<leftarrow> map_times (\<lambda>time. from + (time - from) * stretch) after first s;
           map_option snd (map_times (\<lambda>time. (to - from) * (stretch - 1) + time) 0 event s1) }
         else Some s)"

text \<open>
  The messages \<open>shift\<close> and \<open>stretch\<close>, without the messages to an editor: the segment is that of
  the ordered bounds, but the bounds are passed on as they are.
\<close>

definition track_shift :: "addr \<Rightarrow> 't::linordered_field \<Rightarrow> 't \<Rightarrow> 't \<Rightarrow> 't seq_world \<Rightarrow> 't seq_world option" where
  "track_shift track from to shift s = do {
     (first, after) \<leftarrow> track_segment_get track from to s;
     if first \<noteq> 0 then track_segment_shift track first after to shift s else Some s }"

definition track_stretch :: "addr \<Rightarrow> 't::linordered_field \<Rightarrow> 't \<Rightarrow> 't \<Rightarrow> 't seq_world \<Rightarrow> 't seq_world option" where
  "track_stretch track from to stretch s = do {
     (first, after) \<leftarrow> track_segment_get track from to s;
     if first \<noteq> 0 then track_segment_stretch first after from to stretch s else Some s }"

end
