(* ===== verification/SeqOrder.thy ===== *)
theory SeqOrder
  imports SeqTrack
begin

text \<open>
  Tracks as sorted lists. \<open>dseg\<close> is a segment of the doubly linked list on the heap, \<open>track_list\<close> a whole
  track; the operations are followed on the list of the addresses, then on the list of times and
  events.
\<close>

subsection \<open>Segments of a doubly linked list\<close>

fun dseg :: "(addr \<Rightarrow> 't seq_event option) \<Rightarrow> addr \<Rightarrow> addr list \<Rightarrow> addr \<Rightarrow> bool" where
  "dseg h p [] q \<longleftrightarrow> True"
| "dseg h p (x # xs) q \<longleftrightarrow> x \<noteq> 0 \<and> (\<exists>e. h x = Some e \<and> ev_prev e = p \<and> ev_next e = hd (xs @ [q])) \<and> dseg h x xs q"

lemma hd_append_singleton: "hd ((xs @ ys) @ [q]) = hd (xs @ [hd (ys @ [q])])"
  by (cases xs) simp_all

lemma hd_append_two [simp]: "hd (us @ u # v # rest) = hd (us @ [u])"
  by (cases us) simp_all

lemma dseg_append: "dseg h p (xs @ ys) q \<longleftrightarrow> dseg h p xs (hd (ys @ [q])) \<and> dseg h (last (p # xs)) ys q"
proof (induction xs arbitrary: p)
  case (Cons x xs)
  then show ?case by (simp add: hd_append_singleton del: append_assoc)
qed simp

definition links :: "'t seq_event \<Rightarrow> addr \<times> addr" where
  "links e = (ev_prev e, ev_next e)"

lemma dseg_cong: "(\<And>x. x \<in> set xs \<Longrightarrow> map_option links (h' x) = map_option links (h x)) \<Longrightarrow> dseg h' p xs q \<longleftrightarrow> dseg h p xs q"
proof (induction xs arbitrary: p)
  case (Cons x xs)
  have "map_option links (h' x) = map_option links (h x)" using Cons.prems by simp
  then have "(\<exists>e. h' x = Some e \<and> ev_prev e = p \<and> ev_next e = y) \<longleftrightarrow> (\<exists>e. h x = Some e \<and> ev_prev e = p \<and> ev_next e = y)" for y
    by (cases "h x"; cases "h' x") (auto simp: links_def)
  with Cons show ?case by simp
qed simp

lemma dseg_upd_other [simp]: "x \<notin> set xs \<Longrightarrow> dseg (h(x \<mapsto> e)) p xs q \<longleftrightarrow> dseg h p xs q"
  by (rule dseg_cong) auto

lemma dseg_nonzero: "dseg h p xs q \<Longrightarrow> 0 \<notin> set xs"
  by (induction xs arbitrary: p) auto

lemma dseg_live: "dseg h p xs q \<Longrightarrow> x \<in> set xs \<Longrightarrow> \<exists>e. h x = Some e"
  by (induction xs arbitrary: p) auto

lemma hd_zero_iff: "dseg h p xs 0 \<Longrightarrow> hd (xs @ [0]) = 0 \<longleftrightarrow> xs = []"
  by (cases xs) auto

definition track_list :: "'t seq_world \<Rightarrow> addr \<Rightarrow> addr list \<Rightarrow> bool" where
  "track_list s b xs \<longleftrightarrow>
     sq_tracks s b = Some \<lparr>tr_first = hd (xs @ [0]), tr_last = last (0 # xs), tr_size = int (length xs)\<rparr>
     \<and> distinct xs \<and> dseg (sq_events s) 0 xs 0"

text \<open>What an edit of the links leaves as it was.\<close>

definition body :: "'t seq_event \<Rightarrow> 't \<times> atom \<times> addr" where
  "body e = (ev_time e, ev_value e, ev_track e)"

definition relinked :: "addr set \<Rightarrow> addr \<Rightarrow> 't seq_world \<Rightarrow> 't seq_world \<Rightarrow> bool" where
  "relinked A b s s' \<longleftrightarrow>
     sq_refs s' = sq_refs s \<and> (\<forall>x. map_option body (sq_events s' x) = map_option body (sq_events s x))
     \<and> (\<forall>x. x \<notin> A \<longrightarrow> sq_events s' x = sq_events s x) \<and> (\<forall>c. c \<noteq> b \<longrightarrow> sq_tracks s' c = sq_tracks s c)"

lemma upd_event_Some: "sq_events s x = Some e \<Longrightarrow> upd_event x f s = Some (s\<lparr>sq_events := (sq_events s)(x \<mapsto> f e)\<rparr>)"
  by (simp add: upd_event_def)

lemma upd_track_Some: "sq_tracks s b = Some t \<Longrightarrow> upd_track b f s = Some (s\<lparr>sq_tracks := (sq_tracks s)(b \<mapsto> f t)\<rparr>)"
  by (simp add: upd_track_def)

lemma prepend_event_list:
  assumes "track_list s b xs" "event \<notin> set xs" "event \<noteq> 0" "sq_events s event = Some e"
  shows "\<exists>s'. prepend_event b event s = Some s' \<and> track_list s' b (event # xs) \<and> relinked (insert event (set xs)) b s s'"
proof (cases xs)
  case Nil
  with assms show ?thesis
    by (simp add: prepend_event_def track_list_def upd_event_Some upd_track_Some relinked_def body_def)
next
  case (Cons y ys)
  obtain d where d: "sq_events s y = Some d" "ev_prev d = 0" "ev_next d = hd (ys @ [0])" "y \<noteq> 0" "y \<notin> set ys" "event \<noteq> y"
    using assms Cons by (auto simp: track_list_def)
  let ?h = "(sq_events s)(event \<mapsto> e\<lparr>ev_next := y, ev_prev := 0\<rparr>, y \<mapsto> d\<lparr>ev_prev := event\<rparr>)"
  have "prepend_event b event s = Some (s\<lparr>sq_events := ?h, sq_tracks := (sq_tracks s)(b \<mapsto>
      \<lparr>tr_first = event, tr_last = last xs, tr_size = int (length xs) + 1\<rparr>)\<rparr>)"
    using assms Cons d by (simp add: prepend_event_def track_list_def upd_event_Some upd_track_Some)
  moreover have "dseg ?h 0 (event # xs) 0" using assms Cons d by (simp add: track_list_def)
  ultimately show ?thesis using assms Cons d by (simp add: track_list_def relinked_def body_def)
qed

lemma append_event_list:
  assumes "track_list s b xs" "event \<notin> set xs" "event \<noteq> 0" "sq_events s event = Some e"
  shows "\<exists>s'. append_event b event s = Some s' \<and> track_list s' b (xs @ [event]) \<and> relinked (insert event (set xs)) b s s'"
proof (cases xs rule: rev_cases)
  case Nil
  with assms show ?thesis
    by (simp add: append_event_def track_list_def upd_event_Some upd_track_Some relinked_def body_def)
next
  case (snoc ys y)
  obtain d where d: "sq_events s y = Some d" "ev_prev d = last (0 # ys)" "ev_next d = 0" "y \<noteq> 0" "y \<notin> set ys" "event \<noteq> y"
    using assms snoc by (auto simp: track_list_def dseg_append)
  let ?h = "(sq_events s)(event \<mapsto> e\<lparr>ev_prev := y, ev_next := 0\<rparr>, y \<mapsto> d\<lparr>ev_next := event\<rparr>)"
  have "append_event b event s = Some (s\<lparr>sq_events := ?h, sq_tracks := (sq_tracks s)(b \<mapsto>
      \<lparr>tr_first = hd (ys @ [y]), tr_last = event, tr_size = int (length xs) + 1\<rparr>)\<rparr>)"
    using assms snoc d by (simp add: append_event_def track_list_def upd_event_Some upd_track_Some)
  moreover have "dseg ?h 0 (xs @ [event]) 0" using assms snoc d by (simp add: track_list_def dseg_append)
  ultimately show ?thesis using assms snoc d by (simp add: track_list_def relinked_def body_def)
qed

lemma insert_event_before_list:
  assumes "track_list s b (xs @ ys)" "event \<notin> set (xs @ ys)" "event \<noteq> 0" "sq_events s event = Some e"
  shows "\<exists>s'. insert_event_before b (hd (ys @ [0])) event s = Some s' \<and> track_list s' b (xs @ event # ys)
    \<and> relinked (insert event (set (xs @ ys))) b s s'"
proof -
  consider "ys = []" | z zs where "ys = z # zs" "xs = []" | us u z zs where "xs = us @ [u]" "ys = z # zs"
    by (cases ys; cases xs rule: rev_cases) auto
  then show ?thesis
  proof cases
    case 1
    with append_event_list [OF assms] assms(1) show ?thesis by (auto simp: insert_event_before_def track_list_def)
  next
    case 2
    with prepend_event_list [OF assms] assms(1) show ?thesis by (auto simp: insert_event_before_def track_list_def)
  next
    case 3
    obtain d where d: "sq_events s u = Some d" "ev_prev d = last (0 # us)" "ev_next d = z" "u \<noteq> 0"
      using assms 3 by (auto simp: track_list_def dseg_append)
    obtain c where c: "sq_events s z = Some c" "ev_prev c = u" "ev_next c = hd (zs @ [0])" "z \<noteq> 0"
      using assms 3 by (auto simp: track_list_def dseg_append)
    have ne: "event \<noteq> u" "event \<noteq> z" "u \<noteq> z" "u \<notin> set us" "z \<notin> set us" "u \<notin> set zs" "z \<notin> set zs" "event \<notin> set us" "event \<notin> set zs"
      using assms 3 by (auto simp: track_list_def)
    have first: "hd (us @ [u]) \<noteq> z" using ne by (cases us) auto
    let ?h = "(sq_events s)(event \<mapsto> e\<lparr>ev_prev := u, ev_next := z\<rparr>, u \<mapsto> d\<lparr>ev_next := event\<rparr>, z \<mapsto> c\<lparr>ev_prev := event\<rparr>)"
    have "insert_event_before b z event s = Some (s\<lparr>sq_events := ?h, sq_tracks := (sq_tracks s)(b \<mapsto>
        \<lparr>tr_first = hd (us @ [u]), tr_last = last (z # zs), tr_size = int (length (xs @ ys)) + 1\<rparr>)\<rparr>)"
      using assms 3 d c ne first by (simp add: insert_event_before_def track_list_def upd_event_Some upd_track_Some)
    moreover have "dseg ?h 0 (xs @ event # ys) 0"
      using assms 3 d c ne by (simp add: track_list_def dseg_append)
    ultimately show ?thesis using assms 3 ne d c by (simp add: track_list_def relinked_def body_def)
  qed
qed

lemma cutout_event_list:
  assumes "track_list s b (xs @ event # ys)"
  shows "\<exists>s'. cutout_event b event s = Some s' \<and> track_list s' b (xs @ ys) \<and> relinked (set (xs @ ys)) b s s'"
proof -
  obtain e where e: "sq_events s event = Some e" "ev_prev e = last (0 # xs)" "ev_next e = hd (ys @ [0])" "event \<noteq> 0"
    "event \<notin> set (xs @ ys)" "distinct (xs @ ys)" "0 \<notin> set (xs @ ys)"
    using assms by (auto simp: track_list_def dseg_append dest: dseg_nonzero)
  consider "xs = []" "ys = []" | z zs where "ys = z # zs" "xs = []" | us u where "xs = us @ [u]" "ys = []"
    | us u z zs where "xs = us @ [u]" "ys = z # zs"
    by (cases ys; cases xs rule: rev_cases) auto
  then show ?thesis
  proof cases
    case 1
    with assms e show ?thesis by (simp add: cutout_event_def track_list_def upd_track_Some relinked_def)
  next
    case 2
    obtain c where c: "sq_events s z = Some c" "ev_prev c = event" "ev_next c = hd (zs @ [0])" "z \<noteq> 0" "z \<notin> set zs"
      using assms 2 by (auto simp: track_list_def dseg_append)
    with assms e 2 show ?thesis
      by (simp add: cutout_event_def track_list_def upd_event_Some upd_track_Some relinked_def body_def)
  next
    case 3
    obtain d where d: "sq_events s u = Some d" "ev_prev d = last (0 # us)" "ev_next d = event" "u \<noteq> 0" "u \<notin> set us"
      using assms 3 by (auto simp: track_list_def dseg_append)
    with assms e d 3 show ?thesis
      by (simp add: cutout_event_def track_list_def upd_event_Some upd_track_Some relinked_def body_def dseg_append)
  next
    case 4
    obtain d where d: "sq_events s u = Some d" "ev_prev d = last (0 # us)" "ev_next d = event" "u \<noteq> 0"
      using assms 4 by (auto simp: track_list_def dseg_append)
    obtain c where c: "sq_events s z = Some c" "ev_prev c = event" "ev_next c = hd (zs @ [0])" "z \<noteq> 0"
      using assms 4 by (auto simp: track_list_def dseg_append)
    have ne: "u \<noteq> z" "u \<notin> set us" "z \<notin> set us" "u \<notin> set zs" "z \<notin> set zs" using e(6) 4 by auto
    with assms e d c ne 4 show ?thesis
      by (simp add: cutout_event_def track_list_def upd_event_Some upd_track_Some relinked_def body_def dseg_append)
  qed
qed

lemma insert_event_behind_list:
  assumes "track_list s b (xs @ ys)" "event \<notin> set (xs @ ys)" "event \<noteq> 0" "sq_events s event = Some e"
  shows "\<exists>s'. insert_event_behind b (last (0 # xs)) event s = Some s' \<and> track_list s' b (xs @ event # ys)
    \<and> relinked (insert event (set (xs @ ys))) b s s'"
proof -
  consider "xs = []" | us u where "xs = us @ [u]" "ys = []" | us u z zs where "xs = us @ [u]" "ys = z # zs"
    by (cases ys; cases xs rule: rev_cases) auto
  then show ?thesis
  proof cases
    case 1
    with prepend_event_list [OF assms] assms(1) show ?thesis by (auto simp: insert_event_behind_def track_list_def)
  next
    case 2
    then have "u \<noteq> 0" using assms(1) by (auto simp: track_list_def dest: dseg_nonzero)
    with 2 append_event_list [OF assms] assms(1) show ?thesis by (auto simp: insert_event_behind_def track_list_def)
  next
    case 3
    obtain d where d: "sq_events s u = Some d" "ev_prev d = last (0 # us)" "ev_next d = z" "u \<noteq> 0"
      using assms 3 by (auto simp: track_list_def dseg_append)
    obtain c where c: "sq_events s z = Some c" "ev_prev c = u" "ev_next c = hd (zs @ [0])" "z \<noteq> 0"
      using assms 3 by (auto simp: track_list_def dseg_append)
    have ne: "event \<noteq> u" "event \<noteq> z" "u \<noteq> z" "u \<notin> set us" "z \<notin> set us" "u \<notin> set zs" "z \<notin> set zs" "event \<notin> set us" "event \<notin> set zs"
      using assms 3 by (auto simp: track_list_def)
    have last: "last (z # zs) \<noteq> u" using ne by auto
    let ?h = "(sq_events s)(event \<mapsto> e\<lparr>ev_next := z, ev_prev := u\<rparr>, z \<mapsto> c\<lparr>ev_prev := event\<rparr>, u \<mapsto> d\<lparr>ev_next := event\<rparr>)"
    have "insert_event_behind b u event s = Some (s\<lparr>sq_events := ?h, sq_tracks := (sq_tracks s)(b \<mapsto>
        \<lparr>tr_first = hd (us @ [u]), tr_last = last (z # zs), tr_size = int (length (xs @ ys)) + 1\<rparr>)\<rparr>)"
      using assms 3 d c ne last by (simp add: insert_event_behind_def track_list_def upd_event_Some upd_track_Some)
    moreover have "dseg ?h 0 (xs @ event # ys) 0"
      using assms 3 d c ne by (simp add: track_list_def dseg_append)
    ultimately show ?thesis using assms 3 ne d c by (simp add: track_list_def relinked_def body_def)
  qed
qed

subsection \<open>Searching\<close>

lemma skip_forward_list:
  "dseg (sq_events s) p xs 0 \<Longrightarrow> skip_forward P s (hd (xs @ [0])) = Some (hd (dropWhile (\<lambda>x. P (the (sq_events s x))) xs @ [0]))"
proof (induction xs arbitrary: p)
  case Nil
  then show ?case by (simp add: skip_forward.simps)
next
  case (Cons x xs)
  then obtain e where "sq_events s x = Some e" "ev_next e = hd (xs @ [0])" "x \<noteq> 0" by auto
  with Cons show ?case by (subst skip_forward.simps) auto
qed

lemma skip_backward_list:
  "dseg (sq_events s) 0 xs q \<Longrightarrow>
     skip_backward P s (last (0 # xs)) = Some (last (0 # rev (dropWhile (\<lambda>x. P (the (sq_events s x))) (rev xs))))"
proof (induction xs arbitrary: q rule: rev_induct)
  case Nil
  then show ?case by (simp add: skip_backward.simps)
next
  case (snoc x xs)
  then obtain e where "sq_events s x = Some e" "ev_prev e = last (0 # xs)" "x \<noteq> 0" by (auto simp: dseg_append)
  with snoc show ?case by (subst skip_backward.simps) (auto simp: dseg_append)
qed

text \<open>A track with the times of its events.\<close>

definition plain_event :: "'t seq_world \<Rightarrow> addr \<Rightarrow> int \<Rightarrow> bool" where
  "plain_event s x n \<longleftrightarrow> x \<noteq> 0 \<and> sq_refs s x = Some n \<and> (\<exists>e. sq_events s x = Some e \<and> (\<forall>v. ev_value e \<noteq> AObject v))"

definition track_holds :: "'t::{linorder,zero} seq_world \<Rightarrow> addr \<Rightarrow> ('t \<times> addr) list \<Rightarrow> bool" where
  "track_holds s b ps \<longleftrightarrow>
     track_list s b (map snd ps) \<and> sorted (map fst ps) \<and> list_all (\<lambda>(t, x). 0 \<le> t \<and> plain_event s x 1 \<and> map_option ev_time (sq_events s x) = Some t) ps"

lemma track_holdsD:
  "track_holds s b ps \<Longrightarrow> (t, x) \<in> set ps \<Longrightarrow> 0 \<le> t \<and> plain_event s x 1 \<and> map_option ev_time (sq_events s x) = Some t"
  by (fastforce simp: track_holds_def list_all_iff)

lemma track_time: "track_holds s b ps \<Longrightarrow> (t, x) \<in> set ps \<Longrightarrow> ev_time (the (sq_events s x)) = t"
  by (auto dest: track_holdsD)

lemma dropWhile_times:
  assumes "track_holds s b ps" "set qs \<subseteq> set ps"
  shows "dropWhile (\<lambda>x. P (ev_time (the (sq_events s x)))) (map snd qs) = map snd (dropWhile (\<lambda>p. P (fst p)) qs)"
  using assms(2) by (induction qs) (auto simp: track_time [OF assms(1)])

lemma dropWhile_late:
  assumes "sorted (map fst ps)" "ps \<noteq> []" "P (fst (last ps))" "\<And>t u. t \<le> u \<Longrightarrow> P u \<Longrightarrow> P t"
  shows "dropWhile (\<lambda>p. P (fst p)) ps = []"
proof -
  have "fst p \<le> fst (last ps)" if "p \<in> set ps" for p
    using assms(1,2) that by (induction ps) auto
  with assms(3,4) show ?thesis by (auto simp: dropWhile_eq_Nil_conv)
qed

lemma search_from_track:
  assumes "track_holds s b (ps @ qs)" "\<And>t u. t \<le> u \<Longrightarrow> P u \<Longrightarrow> P t" "\<And>t. \<not> Q t \<Longrightarrow> P t"
    and "here = 0 \<and> ps = [] \<or> here \<noteq> 0 \<and> here = hd (map snd qs @ [0])"
  shows "search_from (\<lambda>l. Q (ev_time l)) (\<lambda>e. P (ev_time e)) b here s = Some (hd (map snd (dropWhile (\<lambda>p. P (fst p)) qs) @ [0]))"
proof (cases "qs = []")
  case True
  with assms(1,4) show ?thesis by (auto simp: search_from_def track_holds_def track_list_def)
next
  case False
  let ?all = "ps @ qs"
  have list: "track_list s b (map snd ?all)" "sorted (map fst ?all)" using assms(1) by (simp_all add: track_holds_def)
  have last: "fst (last ?all) = fst (last qs)" "last (0 # map snd ?all) = snd (last qs)" "last qs \<in> set ?all"
    using False by (simp_all add: last_map)
  have lt: "map_option ev_time (sq_events s (snd (last qs))) = Some (fst (last qs))"
    using track_holdsD [OF assms(1)] last(3) by (cases "last qs") simp
  then obtain l where l: "sq_events s (snd (last qs)) = Some l" "ev_time l = fst (last qs)" by auto
  have len: "0 < int (length ps) + int (length qs)" using False by (cases qs) simp_all
  obtain t where t: "sq_tracks s b = Some t" "0 < tr_size t" "tr_last t = snd (last qs)"
    "(if here \<noteq> 0 then here else tr_first t) = hd (map snd qs @ [0])"
    using list(1) last(2) False assms(4) len by (auto simp: track_list_def)
  have found: "search_from (\<lambda>l. Q (ev_time l)) R b here s =
      (if Q (fst (last qs)) then skip_forward R s (hd (map snd qs @ [0])) else Some 0)" for R
    unfolding search_from_def t(1) using t(2,4) l by (cases "here = 0") (simp_all add: t(3))
  have "dseg (sq_events s) (last (0 # map snd ps)) (map snd qs) 0" using list(1) by (simp add: track_list_def dseg_append)
  from skip_forward_list [OF this, of "\<lambda>e. P (ev_time e)"]
  have skip: "skip_forward (\<lambda>e. P (ev_time e)) s (hd (map snd qs @ [0])) = Some (hd (map snd (dropWhile (\<lambda>p. P (fst p)) qs) @ [0]))"
    using dropWhile_times [OF assms(1), of qs P] by simp
  show ?thesis
  proof (cases "Q (fst (last qs))")
    case True
    with skip found show ?thesis by simp
  next
    case late: False
    with assms(3) have "P (fst (last qs))" by blast
    with dropWhile_late [of qs P] list(2) False assms(2) have nil: "dropWhile (\<lambda>p. P (fst p)) qs = []" by (auto simp: sorted_append)
    show ?thesis unfolding nil using found late by simp
  qed
qed

lemma get_event_by_time:
  "track_holds s b ps \<Longrightarrow> track_get_event_by_time b t s = Some (hd (map snd (dropWhile (\<lambda>p. fst p < t) ps) @ [0]))"
  unfolding track_get_event_by_time_def
  using search_from_track [of s b "[]" ps "\<lambda>u. u < t" "\<lambda>u. t \<le> u" 0] by auto

lemma get_next_by_time:
  "track_holds s b ps \<Longrightarrow> track_get_next_by_time b t s = Some (hd (map snd (dropWhile (\<lambda>p. fst p \<le> t) ps) @ [0]))"
  unfolding track_get_next_by_time_def
  using search_from_track [of s b "[]" ps "\<lambda>u. u \<le> t" "\<lambda>u. t < u" 0] by auto

lemma get_next_by_time_after:
  assumes "track_holds s b (ps @ qs)" "after = 0 \<and> ps = [] \<or> after \<noteq> 0 \<and> after = hd (map snd qs @ [0])"
  shows "track_get_next_by_time_after b t after s = Some (hd (map snd (dropWhile (\<lambda>p. fst p \<le> t) qs) @ [0]))"
  unfolding track_get_next_by_time_after_def
  using search_from_track [of s b ps qs "\<lambda>u. u \<le> t" "\<lambda>u. t \<le> u" after] assms by auto

end
