(* ===== verification/SeqOps.thy ===== *)
theory SeqOps
  imports SeqOrder
begin

text \<open>
  The operations on tracks as operations on sorted lists of times and events, for all tracks of a
  world at once. An event belongs to one track, which holds the only reference to it, or to none.
\<close>

subsection \<open>Worlds of tracks\<close>

definition others_same :: "addr set \<Rightarrow> addr \<Rightarrow> 't seq_world \<Rightarrow> 't seq_world \<Rightarrow> bool" where
  "others_same A b s s' \<longleftrightarrow>
     (\<forall>y. y \<notin> A \<longrightarrow> sq_events s' y = sq_events s y \<and> sq_refs s' y = sq_refs s y) \<and> (\<forall>c. c \<noteq> b \<longrightarrow> sq_tracks s' c = sq_tracks s c)"

definition seq_holds :: "'t::{linorder,zero} seq_world \<Rightarrow> (addr \<Rightarrow> ('t \<times> addr) list option) \<Rightarrow> addr set \<Rightarrow> bool" where
  "seq_holds s T L \<longleftrightarrow>
     (\<forall>b ps. T b = Some ps \<longrightarrow> track_holds s b ps \<and> snd ` set ps \<inter> L = {})
     \<and> (\<forall>b c ps qs. T b = Some ps \<and> T c = Some qs \<and> b \<noteq> c \<longrightarrow> snd ` set ps \<inter> snd ` set qs = {})
     \<and> (\<forall>x \<in> L. plain_event s x 0)"

lemma track_list_cong:
  "track_list s b xs \<Longrightarrow> sq_tracks s' b = sq_tracks s b \<Longrightarrow>
     (\<And>x. x \<in> set xs \<Longrightarrow> map_option links (sq_events s' x) = map_option links (sq_events s x)) \<Longrightarrow> track_list s' b xs"
  using dseg_cong [of xs "sq_events s'" "sq_events s" 0 0] by (simp add: track_list_def)

lemma plain_event_cong: "sq_events s' x = sq_events s x \<Longrightarrow> sq_refs s' x = sq_refs s x \<Longrightarrow> plain_event s' x n = plain_event s x n"
  by (simp add: plain_event_def)

lemma track_holds_frame:
  assumes "track_holds s c qs" "others_same A b s s'" "c \<noteq> b" "snd ` set qs \<inter> A = {}"
  shows "track_holds s' c qs"
proof -
  have same: "sq_events s' x = sq_events s x" "sq_refs s' x = sq_refs s x" if x: "x \<in> snd ` set qs" for x
  proof -
    have "x \<notin> A" using assms(4) x by blast
    then show "sq_events s' x = sq_events s x" "sq_refs s' x = sq_refs s x" using assms(2) by (simp_all add: others_same_def)
  qed
  have "track_list s c (map snd qs)" "sq_tracks s' c = sq_tracks s c" using assms(1-3) by (simp_all add: track_holds_def others_same_def)
  then have "track_list s' c (map snd qs)" by (rule track_list_cong) (simp add: same)
  moreover have "0 \<le> t \<and> plain_event s' x 1 \<and> map_option ev_time (sq_events s' x) = Some t" if tx: "(t, x) \<in> set qs" for t x
  proof -
    have "x \<in> snd ` set qs" using tx by (simp add: rev_image_eqI)
    with track_holdsD [OF assms(1) tx] same [of x] show ?thesis by (simp add: plain_event_def)
  qed
  then have "list_all (\<lambda>(t, x). 0 \<le> t \<and> plain_event s' x 1 \<and> map_option ev_time (sq_events s' x) = Some t) qs"
    unfolding list_all_iff by blast
  ultimately show ?thesis using assms(1) by (simp add: track_holds_def)
qed

lemma seq_holdsD:
  "seq_holds s T L \<Longrightarrow> T b = Some ps \<Longrightarrow> track_holds s b ps"
  "seq_holds s T L \<Longrightarrow> T b = Some ps \<Longrightarrow> snd ` set ps \<inter> L = {}"
  "seq_holds s T L \<Longrightarrow> x \<in> L \<Longrightarrow> plain_event s x 0"
  by (simp_all add: seq_holds_def)

lemma seq_holds_disjoint: "seq_holds s T L \<Longrightarrow> T b = Some ps \<Longrightarrow> T c = Some qs \<Longrightarrow> b \<noteq> c \<Longrightarrow> snd ` set ps \<inter> snd ` set qs = {}"
  unfolding seq_holds_def by blast

lemma loose_sets:
  assumes "A \<subseteq> L" "P' \<subseteq> P \<union> A" "L' \<subseteq> L - A"
  shows "Q \<inter> L = {} \<Longrightarrow> Q \<inter> P = {} \<Longrightarrow> Q \<inter> L' = {} \<and> Q \<inter> P' = {} \<and> Q \<inter> (P \<union> A) = {}"
    "P \<inter> L = {} \<Longrightarrow> P' \<inter> L' = {} \<and> (\<forall>x \<in> L'. x \<in> L \<and> x \<notin> P \<union> A)"
  using assms by blast+

lemma seq_holds_upd:
  assumes "seq_holds s T L" "T b = Some ps" "track_holds s' b ps'" "others_same (snd ` set ps \<union> A) b s s'"
    and "A \<subseteq> L" "snd ` set ps' \<subseteq> snd ` set ps \<union> A" "L' \<subseteq> L - A"
  shows "seq_holds s' (T(b \<mapsto> ps')) L'"
proof -
  note T = seq_holdsD [OF assms(1)] and disjoint = seq_holds_disjoint [OF assms(1)]
  have other: "track_holds s' c qs \<and> snd ` set qs \<inter> L' = {} \<and> snd ` set qs \<inter> snd ` set ps' = {}" if c: "T c = Some qs" "c \<noteq> b" for c qs
  proof -
    note sets = loose_sets(1) [OF assms(5-7) T(2) [OF c(1)] disjoint [OF c(1) assms(2) c(2)]]
    have "track_holds s' c qs" by (rule track_holds_frame [OF T(1) [OF c(1)] assms(4) c(2)]) (use sets in simp)
    with sets show ?thesis by simp
  qed
  note own = loose_sets(2) [OF assms(5-7) T(2) [OF assms(2)]]
  have loose: "plain_event s' x 0" if "x \<in> L'" for x
    using own T(3) [of x] assms(4) plain_event_cong [of s' x s] that by (simp add: others_same_def)
  show ?thesis unfolding seq_holds_def
  proof (intro conjI allI impI ballI)
    fix c qs assume "(T(b \<mapsto> ps')) c = Some qs"
    then have c: "c = b \<and> qs = ps' \<or> c \<noteq> b \<and> T c = Some qs" by (auto split: if_splits)
    then show "track_holds s' c qs" using assms(3) other [of c qs] by (elim disjE conjE) simp_all
    show "snd ` set qs \<inter> L' = {}" using c own other [of c qs] by (elim disjE conjE) simp_all
  next
    fix c d qs rs assume "(T(b \<mapsto> ps')) c = Some qs \<and> (T(b \<mapsto> ps')) d = Some rs \<and> c \<noteq> d"
    then consider "c = b" "qs = ps'" "d \<noteq> b" "T d = Some rs" | "d = b" "rs = ps'" "c \<noteq> b" "T c = Some qs"
      | "c \<noteq> b" "d \<noteq> b" "T c = Some qs" "T d = Some rs" "c \<noteq> d"
      by (auto split: if_splits)
    then show "snd ` set qs \<inter> snd ` set rs = {}"
    proof cases
      case 1
      then show ?thesis using other [of d rs] by (simp add: Int_commute)
    next
      case 2
      then show ?thesis using other [of c qs] by simp
    qed (rule disjoint)
  qed (rule loose)
qed

subsection \<open>Adding\<close>

definition seq_add :: "'t::{linorder,zero} \<Rightarrow> addr \<Rightarrow> ('t \<times> addr) list \<Rightarrow> ('t \<times> addr) list" where
  "seq_add t x ps = takeWhile (\<lambda>p. fst p \<le> t) ps @ (if t < 0 then 0 else t, x) # dropWhile (\<lambda>p. fst p \<le> t) ps"

lemma seq_add_sorted:
  assumes "sorted (map fst ps)" "\<forall>p \<in> set ps. 0 \<le> fst p"
  shows "sorted (map fst (seq_add t x ps))"
proof -
  let ?us = "takeWhile (\<lambda>p. fst p \<le> t) ps" and ?vs = "dropWhile (\<lambda>p. fst p \<le> t) ps"
  have "sorted (map fst (?us @ ?vs))" using assms(1) by simp
  then have 1: "sorted (map fst ?us)" "sorted (map fst ?vs)" by (simp_all only: map_append sorted_append)
  have 2: "fst p \<le> t" if "p \<in> set ?us" for p using set_takeWhileD [OF that] by simp
  have 3: "t < fst p" if p: "p \<in> set ?vs" for p
  proof -
    obtain q qs where q: "?vs = q # qs" using p by (cases ?vs) (simp_all del: dropWhile_eq_Nil_conv)
    then have "t < fst q" using hd_dropWhile [of "\<lambda>p. fst p \<le> t" ps] by (simp del: dropWhile_eq_Nil_conv)
    with 1(2) p show ?thesis unfolding q by auto
  qed
  have 4: "0 \<le> fst p" if "p \<in> set ?vs" for p using assms(2) set_dropWhileD [OF that] by blast
  show ?thesis
  proof (cases "t < 0")
    case True
    have "?us = []"
    proof (cases ps)
      case (Cons q qs)
      then have "0 \<le> fst q" using assms(2) by simp
      with True Cons show ?thesis by auto
    qed simp
    with True 1 4 show ?thesis by (auto simp: seq_add_def)
  next
    case False
    with 1 2 3 show ?thesis by (fastforce simp: seq_add_def sorted_append)
  qed
qed

lemma set_seq_add: "set (seq_add t x ps) = insert (if t < 0 then 0 else t, x) (set ps)"
proof -
  have "set ps = set (takeWhile (\<lambda>p. fst p \<le> t) ps) \<union> set (dropWhile (\<lambda>p. fst p \<le> t) ps)"
    by (metis set_append takeWhile_dropWhile_id)
  then show ?thesis by (auto simp: seq_add_def)
qed

lemma place_event_Some:
  assumes "sq_refs s x = Some n" "sq_events s x = Some e"
  shows "place_event b t x s = Some (s\<lparr>sq_refs := (sq_refs s)(x \<mapsto> n + 1),
    sq_events := (sq_events s)(x \<mapsto> e\<lparr>ev_track := b, ev_time := (if t < 0 then 0 else t)\<rparr>)\<rparr>)"
  using assms by (simp add: place_event_def refer_event_def fts_object_refer_def upd_event_def)

lemma relinked_others: "relinked A b s s' \<Longrightarrow> others_same A b s s'"
  by (auto simp: relinked_def others_same_def)

lemma relinked_event:
  assumes "relinked A b s s'"
  shows "plain_event s' x n = plain_event s x n" "map_option ev_time (sq_events s' x) = map_option ev_time (sq_events s x)"
proof -
  have "map_option body (sq_events s' x) = map_option body (sq_events s x)" "sq_refs s' = sq_refs s"
    using assms by (simp_all add: relinked_def)
  then show "plain_event s' x n = plain_event s x n" "map_option ev_time (sq_events s' x) = map_option ev_time (sq_events s x)"
    by (cases "sq_events s x"; cases "sq_events s' x"; simp add: plain_event_def body_def)+
qed

text \<open>Placing an event that has just been linked in.\<close>

lemma place_linked:
  assumes "track_holds s b (us @ vs)" "x \<notin> snd ` set (us @ vs)" "plain_event s x 0"
    and "track_list s1 b (map snd us @ x # map snd vs)" "relinked (insert x (set (map snd us @ map snd vs))) b s s1"
    and "sorted (map fst (us @ (if t < 0 then 0 else t, x) # vs))"
  shows "\<exists>s'. place_event b t x s1 = Some s' \<and> track_holds s' b (us @ (if t < 0 then 0 else t, x) # vs)
    \<and> others_same (insert x (snd ` set (us @ vs))) b s s' \<and> map_option ev_track (sq_events s' x) = Some b"
proof -
  let ?t = "if t < 0 then 0 else t"
  have "plain_event s1 x 0" using assms(3) relinked_event(1) [OF assms(5)] by simp
  then obtain e where e: "sq_events s1 x = Some e" "sq_refs s1 x = Some 0" "x \<noteq> 0" "\<forall>v. ev_value e \<noteq> AObject v"
    by (auto simp: plain_event_def)
  let ?s' = "s1\<lparr>sq_refs := (sq_refs s1)(x \<mapsto> 1), sq_events := (sq_events s1)(x \<mapsto> e\<lparr>ev_track := b, ev_time := ?t\<rparr>)\<rparr>"
  have place: "place_event b t x s1 = Some ?s'" using place_event_Some [OF e(2,1), of b t] by simp
  have list: "track_list ?s' b (map snd (us @ (?t, x) # vs))"
    using assms(4) e(1) by - (rule track_list_cong [of s1], simp_all add: links_def)
  have "0 \<le> u \<and> plain_event ?s' y 1 \<and> map_option ev_time (sq_events ?s' y) = Some u" if uy: "(u, y) \<in> set (us @ (?t, x) # vs)" for u y
  proof (cases "y = x")
    case True
    have "y \<notin> snd ` set (us @ vs)" using assms(2) True by simp
    then have "(u, y) \<notin> set us" "(u, y) \<notin> set vs"
      using imageI [of "(u, y)" "set us" snd] imageI [of "(u, y)" "set vs" snd] by auto
    with uy have "u = ?t" by simp
    with True e show ?thesis by (simp add: plain_event_def not_less)
  next
    case False
    with uy have "(u, y) \<in> set (us @ vs)" by auto
    from track_holdsD [OF assms(1) this] False relinked_event [OF assms(5), of y] show ?thesis by (simp add: plain_event_def)
  qed
  then have "list_all (\<lambda>(u, y). 0 \<le> u \<and> plain_event ?s' y 1 \<and> map_option ev_time (sq_events ?s' y) = Some u) (us @ (?t, x) # vs)"
    unfolding list_all_iff by blast
  with list assms(6) have holds: "track_holds ?s' b (us @ (?t, x) # vs)" unfolding track_holds_def by (intro conjI)
  have "others_same (insert x (snd ` set (us @ vs))) b s ?s'"
    using relinked_others [OF assms(5)] by (simp add: others_same_def image_Un)
  moreover have "map_option ev_track (sq_events ?s' x) = Some b" by simp
  ultimately show ?thesis using place holds by blast
qed

lemma track_holds_nonneg: "track_holds s b ps \<Longrightarrow> p \<in> set ps \<Longrightarrow> 0 \<le> fst p"
  using track_holdsD [of s b ps "fst p" "snd p"] by simp

text \<open>Inserting an event at the place that a search has found.\<close>

lemma insert_placed:
  assumes "track_holds s b (us @ vs)" "x \<notin> snd ` set (us @ vs)" "plain_event s x 0"
    and "sorted (map fst (us @ (if t < 0 then 0 else t, x) # vs))"
  shows "\<exists>s1 s'. insert_event_before b (hd (map snd vs @ [0])) x s = Some s1 \<and> place_event b t x s1 = Some s'
    \<and> track_holds s' b (us @ (if t < 0 then 0 else t, x) # vs)
    \<and> others_same (insert x (snd ` set (us @ vs))) b s s' \<and> map_option ev_track (sq_events s' x) = Some b"
proof -
  obtain e where e: "sq_events s x = Some e" "x \<noteq> 0" using assms(3) by (auto simp: plain_event_def)
  have list: "track_list s b (map snd us @ map snd vs)" using assms(1) by (simp add: track_holds_def)
  have x: "x \<notin> set (map snd us @ map snd vs)" using assms(2) by (simp add: image_Un)
  from insert_event_before_list [OF list x e(2,1)] obtain s1 where
    s1: "insert_event_before b (hd (map snd vs @ [0])) x s = Some s1" "track_list s1 b (map snd us @ x # map snd vs)"
    "relinked (insert x (set (map snd us @ map snd vs))) b s s1" by blast
  from place_linked [OF assms(1-3) s1(2,3) assms(4)] s1(1) show ?thesis by blast
qed

lemma track_add_event_list:
  assumes "track_holds s b ps" "x \<notin> snd ` set ps" "plain_event s x 0"
  shows "\<exists>s'. track_add_event b t x s = Some s' \<and> track_holds s' b (seq_add t x ps)
    \<and> others_same (insert x (snd ` set ps)) b s s' \<and> map_option ev_track (sq_events s' x) = Some b"
proof -
  let ?us = "takeWhile (\<lambda>p. fst p \<le> t) ps" and ?vs = "dropWhile (\<lambda>p. fst p \<le> t) ps"
  have ps: "?us @ ?vs = ps" by simp
  have "sorted (map fst (seq_add t x ps))"
    using assms(1) track_holds_nonneg [OF assms(1)] by (intro seq_add_sorted) (simp_all add: track_holds_def)
  then obtain s1 s' where "insert_event_before b (hd (map snd ?vs @ [0])) x s = Some s1" "place_event b t x s1 = Some s'"
    "track_holds s' b (seq_add t x ps)" "others_same (insert x (snd ` set ps)) b s s'" "map_option ev_track (sq_events s' x) = Some b"
    using insert_placed [of s b ?us ?vs x t] assms unfolding ps seq_add_def by blast
  with get_next_by_time [OF assms(1), of t] show ?thesis by (simp add: track_add_event_def)
qed

text \<open>Appending keeps the order when the time is not before the last one.\<close>

lemma track_append_event_list:
  assumes "track_holds s b ps" "x \<notin> snd ` set ps" "plain_event s x 0" "\<forall>p \<in> set ps. fst p \<le> (if t < 0 then 0 else t)"
  shows "\<exists>s'. track_append_event b t x s = Some s' \<and> track_holds s' b (ps @ [(if t < 0 then 0 else t, x)])
    \<and> others_same (insert x (snd ` set ps)) b s s' \<and> map_option ev_track (sq_events s' x) = Some b"
proof -
  have "sorted (map fst (ps @ [(if t < 0 then 0 else t, x)]))"
    using assms(1,4) by (auto simp: track_holds_def sorted_append)
  with insert_placed [of s b ps "[]" x t] assms(1-3) obtain s1 s' where s1: "insert_event_before b 0 x s = Some s1"
    "place_event b t x s1 = Some s'" "track_holds s' b (ps @ [(if t < 0 then 0 else t, x)])"
    "others_same (insert x (snd ` set ps)) b s s'" "map_option ev_track (sq_events s' x) = Some b" by auto
  have "append_event b x s = Some s1" using s1(1) assms(1) by (simp add: insert_event_before_def track_holds_def track_list_def)
  with s1 show ?thesis by (simp add: track_append_event_def)
qed

text \<open>Starting the search at an event that is not after the new one finds the same place.\<close>

lemma track_add_event_after_same:
  assumes "track_holds s b ps" "after = 0 \<or> (\<exists>u. (u, after) \<in> set ps \<and> u \<le> t)"
  shows "track_add_event_after b t x after s = track_add_event b t x s"
proof -
  have "track_get_next_by_time_after b t after s = track_get_next_by_time b t s"
  proof (cases "after = 0")
    case True
    then show ?thesis using get_next_by_time_after [of s b "[]" ps after t] get_next_by_time [OF assms(1), of t] assms(1) by simp
  next
    case False
    then obtain u us vs where ps: "ps = us @ (u, after) # vs" and u: "u \<le> t" using assms(2) by (auto dest: split_list)
    then have "\<forall>p \<in> set us. fst p \<le> t" using assms(1) by (force simp: track_holds_def sorted_append)
    then have "dropWhile (\<lambda>p. fst p \<le> t) ps = dropWhile (\<lambda>p. fst p \<le> t) ((u, after) # vs)" unfolding ps by (simp add: dropWhile_append2)
    with get_next_by_time_after [of s b us "(u, after) # vs" after t] get_next_by_time [OF assms(1), of t] assms(1) False
    show ?thesis by (simp add: ps)
  qed
  then show ?thesis by (simp add: track_add_event_after_def track_add_event_def)
qed

subsection \<open>Removing and moving\<close>

lemma track_holds_relinked:
  assumes "track_holds s b ps" "set qs \<subseteq> set ps" "track_list s1 b (map snd qs)" "sorted (map fst qs)" "relinked A b s s1"
  shows "track_holds s1 b qs"
proof -
  have "0 \<le> t \<and> plain_event s1 x 1 \<and> map_option ev_time (sq_events s1 x) = Some t" if "(t, x) \<in> set qs" for t x
    using track_holdsD [OF assms(1), of t x] that assms(2) relinked_event [OF assms(5), of x] by auto
  then have "list_all (\<lambda>(t, x). 0 \<le> t \<and> plain_event s1 x 1 \<and> map_option ev_time (sq_events s1 x) = Some t) qs"
    unfolding list_all_iff by blast
  with assms(3,4) show ?thesis unfolding track_holds_def by (intro conjI)
qed

lemma cutout_holds:
  assumes "track_holds s b (us @ (t, x) # vs)"
  shows "\<exists>s1. cutout_event b x s = Some s1 \<and> track_holds s1 b (us @ vs) \<and> relinked (snd ` set (us @ vs)) b s s1
    \<and> x \<notin> snd ` set (us @ vs)"
proof -
  have list: "track_list s b (map snd us @ x # map snd vs)" and sorted: "sorted (map fst (us @ vs))"
    using assms by (simp_all add: track_holds_def sorted_append)
  obtain s1 where s1: "cutout_event b x s = Some s1" "track_list s1 b (map snd us @ map snd vs)"
    "relinked (set (map snd us @ map snd vs)) b s s1"
    using cutout_event_list [OF list] by blast
  have "track_holds s1 b (us @ vs)"
    by (rule track_holds_relinked [OF assms _ _ sorted s1(3)]) (use s1(2) in auto)
  moreover have "x \<notin> snd ` set (us @ vs)" using list by (simp add: track_list_def image_Un)
  moreover have "relinked (snd ` set (us @ vs)) b s s1" using s1(3) by (simp add: image_Un)
  ultimately show ?thesis using s1(1) by blast
qed

lemma track_holds_upd_other:
  assumes "track_holds s b ps" "x \<notin> snd ` set ps"
  shows "track_holds (s\<lparr>sq_events := (sq_events s)(x := e), sq_refs := (sq_refs s)(x := n)\<rparr>) b ps"
    and "track_holds (s\<lparr>sq_events := (sq_events s)(x := e)\<rparr>) b ps"
proof -
  have "0 \<le> t \<and> plain_event s y 1 \<and> map_option ev_time (sq_events s y) = Some t \<and> y \<noteq> x" if "(t, y) \<in> set ps" for t y
    using track_holdsD [OF assms(1) that] imageI [OF that, of snd] assms(2) by auto
  note same = this
  have list: "track_list s b (map snd ps)" "sorted (map fst ps)" using assms(1) by (simp_all add: track_holds_def)
  show "track_holds (s\<lparr>sq_events := (sq_events s)(x := e), sq_refs := (sq_refs s)(x := n)\<rparr>) b ps" (is "track_holds ?s' b ps")
  proof -
    have "track_list ?s' b (map snd ps)" by (rule track_list_cong [OF list(1)]) (use assms(2) in auto)
    moreover have "list_all (\<lambda>(t, y). 0 \<le> t \<and> plain_event ?s' y 1 \<and> map_option ev_time (sq_events ?s' y) = Some t) ps"
      unfolding list_all_iff using same by (auto simp: plain_event_def)
    ultimately show ?thesis using list(2) unfolding track_holds_def by (intro conjI)
  qed
  show "track_holds (s\<lparr>sq_events := (sq_events s)(x := e)\<rparr>) b ps" (is "track_holds ?s2 b ps")
  proof -
    have "track_list ?s2 b (map snd ps)" by (rule track_list_cong [OF list(1)]) (use assms(2) in auto)
    moreover have "list_all (\<lambda>(t, y). 0 \<le> t \<and> plain_event ?s2 y 1 \<and> map_option ev_time (sq_events ?s2 y) = Some t) ps"
      unfolding list_all_iff using same by (auto simp: plain_event_def)
    ultimately show ?thesis using list(2) unfolding track_holds_def by (intro conjI)
  qed
qed

text \<open>Removing an event from its track deletes it.\<close>

lemma track_remove_event_list:
  assumes "track_holds s b (us @ (t, x) # vs)"
  shows "\<exists>s'. track_remove_event b x s = Some s' \<and> track_holds s' b (us @ vs)
    \<and> others_same (snd ` set (us @ (t, x) # vs)) b s s' \<and> sq_events s' x = None \<and> sq_refs s' x = None"
proof -
  obtain s1 where s1: "cutout_event b x s = Some s1" "track_holds s1 b (us @ vs)" "relinked (snd ` set (us @ vs)) b s s1"
    "x \<notin> snd ` set (us @ vs)" using cutout_holds [OF assms] by blast
  have "plain_event s1 x 1" using track_holdsD [OF assms, of t x] relinked_event [OF s1(3), of x] by simp
  then obtain e where e: "sq_events s1 x = Some e" "sq_refs s1 x = Some 1" "\<And>v. ev_value e \<noteq> AObject v" by (auto simp: plain_event_def)
  have free: "fts_atom_release (ev_value e) st = Some st" for st
    using e(3) by (cases "ev_value e") (auto simp: fts_atom_release_def)
  let ?s' = "s1\<lparr>sq_events := (sq_events s1)(x := None), sq_refs := (sq_refs s1)(x := None)\<rparr>"
  have "track_remove_event b x s = Some ?s'"
    using s1(1) e(1,2) free by (simp add: track_remove_event_def upd_event_Some release_event_def fts_object_release_def
      event_delete_def fts_atom_void_def)
  moreover have "track_holds ?s' b (us @ vs)" by (rule track_holds_upd_other(1) [OF s1(2,4)])
  moreover have "others_same (snd ` set (us @ (t, x) # vs)) b s ?s'"
    using relinked_others [OF s1(3)] by (simp add: others_same_def)
  ultimately show ?thesis by (intro exI [of _ ?s']) simp
qed

definition seq_move :: "'t::{linorder,zero} \<Rightarrow> 't \<times> addr \<Rightarrow> ('t \<times> addr) list \<Rightarrow> ('t \<times> addr) list \<Rightarrow> ('t \<times> addr) list" where
  "seq_move t0 p us vs =
     (let t = (if t0 < 0 then 0 else t0)
      in if (vs \<noteq> [] \<and> t > fst (hd vs)) \<or> (us \<noteq> [] \<and> t < fst (last us)) then seq_add t (snd p) (us @ vs)
         else us @ (t, snd p) # vs)"

lemma insert_kept:
  assumes "track_holds s b (us @ vs)" "x \<notin> snd ` set (us @ vs)" "plain_event s x 1" "map_option ev_time (sq_events s x) = Some t" "0 \<le> t"
    and "sorted (map fst (us @ (t, x) # vs))"
  shows "\<exists>s1. insert_event_before b (hd (map snd vs @ [0])) x s = Some s1 \<and> track_holds s1 b (us @ (t, x) # vs)
    \<and> relinked (insert x (snd ` set (us @ vs))) b s s1"
proof -
  obtain e where e: "sq_events s x = Some e" "x \<noteq> 0" using assms(3) by (auto simp: plain_event_def)
  have list: "track_list s b (map snd us @ map snd vs)" using assms(1) by (simp add: track_holds_def)
  have x: "x \<notin> set (map snd us @ map snd vs)" using assms(2) by (simp add: image_Un)
  from insert_event_before_list [OF list x e(2,1)] obtain s1 where
    s1: "insert_event_before b (hd (map snd vs @ [0])) x s = Some s1" "track_list s1 b (map snd us @ x # map snd vs)"
    "relinked (insert x (set (map snd us @ map snd vs))) b s s1" by blast
  have "0 \<le> u \<and> plain_event s1 y 1 \<and> map_option ev_time (sq_events s1 y) = Some u" if "(u, y) \<in> set (us @ (t, x) # vs)" for u y
  proof (cases "(u, y) = (t, x)")
    case True
    with assms(3-5) relinked_event [OF s1(3), of x] show ?thesis by simp
  next
    case False
    with that have "(u, y) \<in> set (us @ vs)" by auto
    from track_holdsD [OF assms(1) this] relinked_event [OF s1(3), of y] show ?thesis by simp
  qed
  then have "list_all (\<lambda>(u, y). 0 \<le> u \<and> plain_event s1 y 1 \<and> map_option ev_time (sq_events s1 y) = Some u) (us @ (t, x) # vs)"
    unfolding list_all_iff by blast
  moreover have "track_list s1 b (map snd (us @ (t, x) # vs))" using s1(2) by simp
  ultimately have "track_holds s1 b (us @ (t, x) # vs)" using assms(6) unfolding track_holds_def by (intro conjI)
  with s1(1,3) show ?thesis by (simp add: image_Un)
qed

lemma sorted_at_last: "sorted (map fst us) \<Longrightarrow> p \<in> set us \<Longrightarrow> fst p \<le> fst (last us)"
  by (induction us) auto

lemma track_move_event_list:
  assumes holds: "track_holds s b (us @ (t, x) # vs)"
  shows "\<exists>s'. track_move_event b x t0 s = Some s' \<and> track_holds s' b (seq_move t0 (t, x) us vs)
    \<and> others_same (snd ` set (us @ (t, x) # vs)) b s s'"
proof -
  let ?t = "if t0 < 0 then 0 else t0" and ?all = "us @ (t, x) # vs"
  have list: "track_list s b (map snd us @ x # map snd vs)" and sorted: "sorted (map fst us)" "sorted (map fst vs)" "sorted (map fst (us @ vs))"
    using holds by (simp_all add: track_holds_def sorted_append)
  have x: "plain_event s x 1" using track_holdsD [OF holds, of t x] by simp
  obtain e where e: "sq_events s x = Some e" "ev_prev e = last (0 # map snd us)" "ev_next e = hd (map snd vs @ [0])"
    using list by (auto simp: track_list_def dseg_append)
  have ne: "x \<notin> snd ` set (us @ vs)" using list by (simp add: track_list_def image_Un)
  have next_time: "(if ev_next e = 0 then Some False else map_option (\<lambda>n. ?t > ev_time n) (sq_events s (ev_next e))) =
      Some (vs \<noteq> [] \<and> ?t > fst (hd vs))"
  proof (cases vs)
    case (Cons v ws)
    with track_holdsD [OF holds, of "fst v" "snd v"] e(3) show ?thesis by (auto simp: plain_event_def)
  qed (use e(3) in simp)
  have prev_time: "(if ev_prev e = 0 then Some False else map_option (\<lambda>p. ?t < ev_time p) (sq_events s (ev_prev e))) =
      Some (us \<noteq> [] \<and> ?t < fst (last us))"
  proof (cases us rule: rev_cases)
    case (snoc ws u)
    with track_holdsD [OF holds, of "fst u" "snd u"] e(2) show ?thesis by (auto simp: plain_event_def)
  qed (use e(2) in simp)
  let ?out = "(vs \<noteq> [] \<and> ?t > fst (hd vs)) \<or> (us \<noteq> [] \<and> ?t < fst (last us))"
  have move: "track_move_event b x t0 s = (if ?out then do {
       s1 \<leftarrow> cutout_event b x s;
       s2 \<leftarrow> upd_event x (\<lambda>e. e\<lparr>ev_time := ?t\<rparr>) s1;
       here \<leftarrow> track_get_next_by_time b ?t s2;
       insert_event_before b here x s2 }
     else upd_event x (\<lambda>e. e\<lparr>ev_time := ?t\<rparr>) s)"
    unfolding track_move_event_def e(1) Let_def bind.bind_lunit next_time
    by (cases "vs \<noteq> [] \<and> ?t > fst (hd vs)") (simp_all only: if_True if_False prev_time bind.bind_lunit simp_thms)
  show ?thesis
  proof (cases ?out)
    case False
    let ?s' = "s\<lparr>sq_events := (sq_events s)(x \<mapsto> e\<lparr>ev_time := ?t\<rparr>)\<rparr>"
    have "fst p \<le> ?t" if "p \<in> set us" for p
      using sorted_at_last [OF sorted(1) that] False that by (cases us) auto
    moreover have "?t \<le> fst p" if "p \<in> set vs" for p
      using sorted(2) False that by (cases vs) auto
    ultimately have "sorted (map fst (us @ (?t, x) # vs))" using sorted by (simp add: sorted_append)
    moreover have "track_list ?s' b (map snd (us @ (?t, x) # vs))"
      by (rule track_list_cong [of s]) (use list e(1) in \<open>auto simp: links_def\<close>)
    moreover have "0 \<le> u \<and> plain_event ?s' y 1 \<and> map_option ev_time (sq_events ?s' y) = Some u" if "(u, y) \<in> set (us @ (?t, x) # vs)" for u y
    proof (cases "(u, y) = (?t, x)")
      case True
      with x e(1) show ?thesis by (auto simp: plain_event_def not_less)
    next
      case False
      with that have uy: "(u, y) \<in> set (us @ vs)" by auto
      then have "y \<noteq> x" using ne imageI [OF uy, of snd] by auto
      with track_holdsD [OF holds, of u y] uy show ?thesis by (simp add: plain_event_def)
    qed
    then have "list_all (\<lambda>(u, y). 0 \<le> u \<and> plain_event ?s' y 1 \<and> map_option ev_time (sq_events ?s' y) = Some u) (us @ (?t, x) # vs)"
      unfolding list_all_iff by blast
    ultimately have "track_holds ?s' b (us @ (?t, x) # vs)" unfolding track_holds_def by (intro conjI)
    moreover have "others_same (snd ` set ?all) b s ?s'" by (simp add: others_same_def)
    moreover have "track_move_event b x t0 s = Some ?s'" unfolding move using False e(1) by (simp only: if_False upd_event_Some)
    moreover have "seq_move t0 (t, x) us vs = us @ (?t, x) # vs" using False by (simp only: seq_move_def Let_def if_False snd_conv)
    ultimately show ?thesis by metis
  next
    case True
    obtain s1 where s1: "cutout_event b x s = Some s1" "track_holds s1 b (us @ vs)" "relinked (snd ` set (us @ vs)) b s s1"
      using cutout_holds [OF holds] by blast
    have x1: "plain_event s1 x 1" using x relinked_event(1) [OF s1(3)] by simp
    then obtain d where d: "sq_events s1 x = Some d" by (auto simp: plain_event_def)
    let ?s2 = "s1\<lparr>sq_events := (sq_events s1)(x \<mapsto> d\<lparr>ev_time := ?t\<rparr>)\<rparr>"
    let ?us = "takeWhile (\<lambda>p. fst p \<le> ?t) (us @ vs)" and ?vs = "dropWhile (\<lambda>p. fst p \<le> ?t) (us @ vs)"
    have s2: "track_holds ?s2 b (us @ vs)" by (rule track_holds_upd_other(2) [OF s1(2) ne])
    have ps: "?us @ ?vs = us @ vs" by simp
    have pos: "0 \<le> ?t" by (simp add: not_less)
    have add: "seq_add ?t x (us @ vs) = ?us @ (?t, x) # ?vs" unfolding seq_add_def if_not_P [OF pos [folded not_less]] by (rule refl)
    have "sorted (map fst (seq_add ?t x (us @ vs)))"
      using sorted(3) track_holds_nonneg [OF s1(2)] by (intro seq_add_sorted) simp_all
    then obtain s3 where s3: "insert_event_before b (hd (map snd ?vs @ [0])) x ?s2 = Some s3" "track_holds s3 b (seq_add ?t x (us @ vs))"
      "relinked (insert x (snd ` set (us @ vs))) b ?s2 s3"
      using insert_kept [of ?s2 b ?us ?vs x ?t, unfolded ps add [symmetric]] s2 ne x1 d pos by (auto simp: plain_event_def)
    have "track_move_event b x t0 s = Some s3"
      unfolding move using True s1(1) d get_next_by_time [OF s2, of ?t] s3(1) by (simp only: if_True upd_event_Some bind.bind_lunit)
    moreover have "seq_move t0 (t, x) us vs = seq_add ?t x (us @ vs)" using True by (simp only: seq_move_def Let_def if_True snd_conv)
    moreover have "others_same (snd ` set ?all) b s s3"
      using relinked_others [OF s1(3)] relinked_others [OF s3(3)] by (simp add: others_same_def)
    ultimately show ?thesis using s3(2) by metis
  qed
qed

end
