(* ===== verification/SeqMerge.thy ===== *)
theory SeqMerge
  imports SeqOps
begin

text \<open>
  Merging and erasing tracks, segments, and the operations of a session on all tracks of a world.
\<close>

subsection \<open>Merging\<close>

fun seq_merge :: "('t::linorder \<times> addr) list \<Rightarrow> ('t \<times> addr) list \<Rightarrow> ('t \<times> addr) list" where
  "seq_merge vs [] = vs"
| "seq_merge vs (m # ms) =
     takeWhile (\<lambda>p. fst p \<le> fst m) vs @ m # seq_merge (dropWhile (\<lambda>p. fst p \<le> fst m) vs) ms"

lemma set_seq_merge: "set (seq_merge vs ms) = set vs \<union> set ms"
proof (induction vs ms rule: seq_merge.induct)
  case (2 vs m ms)
  have "set vs = set (takeWhile (\<lambda>p. fst p \<le> fst m) vs) \<union> set (dropWhile (\<lambda>p. fst p \<le> fst m) vs)"
    by (metis set_append takeWhile_dropWhile_id)
  with 2 show ?case by auto
qed simp

lemma seq_merge_Nil [simp]: "seq_merge [] ms = ms"
  by (induction ms) simp_all

lemma track_holds_retrack:
  assumes "track_holds s b ps" "sq_events s x = Some d"
  shows "track_holds (s\<lparr>sq_events := (sq_events s)(x \<mapsto> d\<lparr>ev_track := c, ev_time := ev_time d\<rparr>)\<rparr>) b ps" (is "track_holds ?s' b ps")
proof -
  have "track_list ?s' b (map snd ps)"
    by (rule track_list_cong [of s]) (use assms in \<open>auto simp: track_holds_def links_def\<close>)
  moreover have "0 \<le> t \<and> plain_event ?s' y 1 \<and> map_option ev_time (sq_events ?s' y) = Some t" if "(t, y) \<in> set ps" for t y
    using track_holdsD [OF assms(1) that] assms(2) by (auto simp: plain_event_def)
  then have "list_all (\<lambda>(t, y). 0 \<le> t \<and> plain_event ?s' y 1 \<and> map_option ev_time (sq_events ?s' y) = Some t) ps"
    unfolding list_all_iff by blast
  ultimately show ?thesis using assms(1) unfolding track_holds_def by (intro conjI) simp_all
qed

text \<open>Events that are linked to each other but in no track that matters.\<close>

definition chained :: "'t::{linorder,zero} seq_world \<Rightarrow> ('t \<times> addr) list \<Rightarrow> bool" where
  "chained s ms \<longleftrightarrow> (\<exists>p. dseg (sq_events s) p (map snd ms) 0) \<and> distinct (map snd ms) \<and> sorted (map fst ms)
     \<and> list_all (\<lambda>(t, x). 0 \<le> t \<and> plain_event s x 1 \<and> map_option ev_time (sq_events s x) = Some t) ms"

lemma chained_track: "track_holds s b ms \<Longrightarrow> chained s ms"
  by (auto simp: chained_def track_holds_def track_list_def)

lemma chained_frame:
  assumes "chained s ms" "others_same A b s s'" "snd ` set ms \<inter> A = {}"
  shows "chained s' ms"
proof -
  have same: "sq_events s' x = sq_events s x \<and> sq_refs s' x = sq_refs s x" if "x \<in> snd ` set ms" for x
    using assms(2,3) that by (auto simp: others_same_def)
  obtain p where "dseg (sq_events s) p (map snd ms) 0" using assms(1) by (auto simp: chained_def)
  then have "dseg (sq_events s') p (map snd ms) 0" using dseg_cong [of "map snd ms" "sq_events s'" "sq_events s" p 0] same by simp
  moreover have "0 \<le> t \<and> plain_event s' x 1 \<and> map_option ev_time (sq_events s' x) = Some t" if tx: "(t, x) \<in> set ms" for t x
  proof -
    have "0 \<le> t \<and> plain_event s x 1 \<and> map_option ev_time (sq_events s x) = Some t"
      using assms(1) tx by (fastforce simp: chained_def list_all_iff)
    with same [of x] imageI [OF tx, of snd] show ?thesis by (simp add: plain_event_def)
  qed
  then have "list_all (\<lambda>(t, x). 0 \<le> t \<and> plain_event s' x 1 \<and> map_option ev_time (sq_events s' x) = Some t) ms"
    unfolding list_all_iff by blast
  ultimately show ?thesis using assms(1) unfolding chained_def by blast
qed

lemma chained_tl: "chained s (m # ms) \<Longrightarrow> chained s ms"
  by (auto simp: chained_def)

lemma others_same_trans: "others_same A b s s1 \<Longrightarrow> others_same C b s1 s2 \<Longrightarrow> others_same (A \<union> C) b s s2"
  by (auto simp: others_same_def)

lemma others_same_mono: "others_same A b s s' \<Longrightarrow> A \<subseteq> C \<Longrightarrow> others_same C b s s'"
  by (auto simp: others_same_def)

lemma merge_events_list:
  assumes "track_holds s b (us @ vs)" "chained s ms" "snd ` set ms \<inter> snd ` set (us @ vs) = {}" "\<forall>p \<in> set us. \<forall>q \<in> set ms. fst p \<le> fst q"
  shows "\<exists>s'. merge_events b (hd (map snd vs @ [0])) (hd (map snd ms @ [0])) s = Some s' \<and> track_holds s' b (us @ seq_merge vs ms)
    \<and> others_same (snd ` set (us @ vs @ ms)) b s s' \<and> (\<forall>y. map_option ev_track (sq_events s' y) = (if y \<in> snd ` set ms then Some b else map_option ev_track (sq_events s y)))"
  using assms
proof (induction ms arbitrary: us vs s)
  case Nil
  then show ?case by (auto simp: merge_events.simps others_same_def)
next
  case (Cons m ms)
  obtain t x where m: "m = (t, x)" by (cases m)
  have pos: "0 \<le> t" "plain_event s x 1" "map_option ev_time (sq_events s x) = Some t" "x \<notin> snd ` set ms" "\<forall>q \<in> set ms. t \<le> fst q"
    using Cons.prems(2) m by (auto simp: chained_def)
  then obtain e where e: "sq_events s x = Some e" "ev_time e = t" "x \<noteq> 0" "ev_next e = hd (map snd ms @ [0])"
    using Cons.prems(2) m by (auto simp: chained_def)
  let ?vs1 = "takeWhile (\<lambda>p. fst p \<le> t) vs" and ?vs2 = "dropWhile (\<lambda>p. fst p \<le> t) vs"
  have vs: "us @ vs = (us @ ?vs1) @ ?vs2" by simp
  have new: "x \<notin> snd ` set (us @ vs)" using Cons.prems(3) m by auto
  have sorted: "sorted (map fst ((us @ ?vs1) @ (t, x) # ?vs2))"
  proof -
    have "sorted (map fst (seq_add t x (us @ vs)))"
      using Cons.prems(1) track_holds_nonneg [OF Cons.prems(1)] by (intro seq_add_sorted) (simp_all add: track_holds_def)
    moreover have "\<forall>p \<in> set us. fst p \<le> t" using Cons.prems(4) m by simp
    then have "seq_add t x (us @ vs) = (us @ ?vs1) @ (t, x) # ?vs2"
      using pos(1) unfolding seq_add_def if_not_P [OF pos(1) [folded not_less]] by (simp add: takeWhile_append2 dropWhile_append2)
    ultimately show ?thesis by simp
  qed
  have "dseg (sq_events s) (last (0 # map snd us)) (map snd vs) 0" using Cons.prems(1) by (simp add: track_holds_def track_list_def dseg_append)
  from skip_forward_list [OF this, of "\<lambda>h. ev_time h \<le> t"]
  have skip: "skip_forward (\<lambda>h. t \<ge> ev_time h) s (hd (map snd vs @ [0])) = Some (hd (map snd ?vs2 @ [0]))"
    using dropWhile_times [OF Cons.prems(1), of vs "\<lambda>u. u \<le> t"] by simp
  have tr: "track_holds s b ((us @ ?vs1) @ ?vs2)" "x \<notin> snd ` set ((us @ ?vs1) @ ?vs2)" using Cons.prems(1) new unfolding vs by simp_all
  obtain s1 where s1: "insert_event_before b (hd (map snd ?vs2 @ [0])) x s = Some s1" "track_holds s1 b ((us @ ?vs1) @ (t, x) # ?vs2)"
    "relinked (insert x (snd ` set (us @ vs))) b s s1"
    using insert_kept [OF tr pos(2,3,1) sorted] unfolding vs by blast
  obtain d where d: "sq_events s1 x = Some d" "ev_time d = t"
    using track_holdsD [OF s1(2), of t x] by (auto simp: plain_event_def)
  let ?s2 = "s1\<lparr>sq_events := (sq_events s1)(x \<mapsto> d\<lparr>ev_track := b, ev_time := t\<rparr>)\<rparr>"
  have holds2: "track_holds ?s2 b ((us @ ?vs1 @ [(t, x)]) @ ?vs2)"
    using track_holds_retrack [OF s1(2) d(1), of b] d(2) by simp
  have same2: "others_same (insert x (snd ` set (us @ vs))) b s ?s2"
    using relinked_others [OF s1(3)] by (simp add: others_same_def)
  have sets: "snd ` set ((us @ ?vs1 @ [(t, x)]) @ ?vs2) = insert x (snd ` set (us @ vs))"
  proof -
    have "set vs = set ?vs1 \<union> set ?vs2" by (metis set_append takeWhile_dropWhile_id)
    then show ?thesis by auto
  qed
  have dis: "snd ` set ms \<inter> insert x (snd ` set (us @ vs)) = {}" using Cons.prems(3) pos(4) m by auto
  have "\<exists>s'. merge_events b (hd (map snd ?vs2 @ [0])) (hd (map snd ms @ [0])) ?s2 = Some s'
      \<and> track_holds s' b ((us @ ?vs1 @ [(t, x)]) @ seq_merge ?vs2 ms)
      \<and> others_same (snd ` set ((us @ ?vs1 @ [(t, x)]) @ ?vs2 @ ms)) b ?s2 s'
      \<and> (\<forall>y. map_option ev_track (sq_events s' y) = (if y \<in> snd ` set ms then Some b else map_option ev_track (sq_events ?s2 y)))"
  proof (rule Cons.IH [OF holds2])
    show "chained ?s2 ms" using chained_frame [OF chained_tl [OF Cons.prems(2)] same2 dis] .
    show "snd ` set ms \<inter> snd ` set ((us @ ?vs1 @ [(t, x)]) @ ?vs2) = {}" unfolding sets by (rule dis)
    show "\<forall>p \<in> set (us @ ?vs1 @ [(t, x)]). \<forall>q \<in> set ms. fst p \<le> fst q"
    proof (intro ballI)
      fix p q assume p: "p \<in> set (us @ ?vs1 @ [(t, x)])" and q: "q \<in> set ms"
      have "fst p \<le> t" using p Cons.prems(4) m set_takeWhileD [of p "\<lambda>p. fst p \<le> t" vs] by auto
      moreover have "t \<le> fst q" using pos(5) q by blast
      ultimately show "fst p \<le> fst q" by (rule order_trans)
    qed
  qed
  then obtain s' where s': "merge_events b (hd (map snd ?vs2 @ [0])) (hd (map snd ms @ [0])) ?s2 = Some s'"
    "track_holds s' b ((us @ ?vs1 @ [(t, x)]) @ seq_merge ?vs2 ms)"
    "others_same (snd ` set ((us @ ?vs1 @ [(t, x)]) @ ?vs2 @ ms)) b ?s2 s'"
    "\<And>y. map_option ev_track (sq_events s' y) = (if y \<in> snd ` set ms then Some b else map_option ev_track (sq_events ?s2 y))" by blast
  have upd: "upd_event x (\<lambda>y. y\<lparr>ev_track := b, ev_time := ev_time e\<rparr>) s1 = Some ?s2" using d e(2) by (simp add: upd_event_Some)
  have "merge_events b (hd (map snd vs @ [0])) (hd (map snd (m # ms) @ [0])) s = Some s'"
    unfolding merge_events.simps [of b "hd (map snd vs @ [0])" "hd (map snd (m # ms) @ [0])"]
    using m e skip s1(1) upd s'(1) by simp
  moreover have "track_holds s' b (us @ seq_merge vs (m # ms))" using s'(2) m by simp
  moreover have "others_same (snd ` set (us @ vs @ m # ms)) b s s'"
  proof (rule others_same_mono [OF others_same_trans [OF same2 s'(3)]])
    show "insert x (snd ` set (us @ vs)) \<union> snd ` set ((us @ ?vs1 @ [(t, x)]) @ ?vs2 @ ms) \<subseteq> snd ` set (us @ vs @ m # ms)"
      using m set_takeWhileD [of _ "\<lambda>p. fst p \<le> t" vs] set_dropWhileD [of _ "\<lambda>p. fst p \<le> t" vs] by auto
  qed
  moreover have "map_option ev_track (sq_events s' y) = (if y \<in> snd ` set (m # ms) then Some b else map_option ev_track (sq_events s y))" for y
  proof -
    have "map_option body (sq_events s1 y) = map_option body (sq_events s y)" using s1(3) by (simp add: relinked_def)
    then have "map_option ev_track (sq_events s1 y) = map_option ev_track (sq_events s y)"
      by (cases "sq_events s y"; cases "sq_events s1 y") (simp_all add: body_def)
    with s'(4) [of y] m show ?thesis by simp
  qed
  ultimately show ?case by blast
qed

text \<open>Merging \<open>qs\<close> into \<open>ps\<close>: when the track was empty its new events keep their old track.\<close>

lemma track_merge_list:
  assumes "track_holds s b ps" "track_holds s c qs" "b \<noteq> c" "snd ` set qs \<inter> snd ` set ps = {}"
  shows "\<exists>s'. track_merge b c s = Some s' \<and> track_holds s' b (seq_merge ps qs) \<and> track_holds s' c []
    \<and> (\<forall>y. y \<notin> snd ` set (ps @ qs) \<longrightarrow> sq_events s' y = sq_events s y \<and> sq_refs s' y = sq_refs s y)
    \<and> (\<forall>d. d \<noteq> b \<and> d \<noteq> c \<longrightarrow> sq_tracks s' d = sq_tracks s d)
    \<and> (\<forall>y. map_option ev_track (sq_events s' y) =
         (if ps \<noteq> [] \<and> y \<in> snd ` set qs then Some b else map_option ev_track (sq_events s y)))"
proof -
  obtain t m where t: "sq_tracks s b = Some t" "tr_first t = hd (map snd ps @ [0])" and
    m: "sq_tracks s c = Some m" "tr_first m = hd (map snd qs @ [0])"
    using assms(1,2) by (auto simp: track_holds_def track_list_def)
  let ?none = "\<lparr>tr_first = 0, tr_last = 0, tr_size = 0\<rparr>"
  have empty: "track_holds (s1\<lparr>sq_tracks := (sq_tracks s1)(c \<mapsto> ?none)\<rparr>) c []" for s1 :: "'a seq_world"
    by (simp add: track_holds_def track_list_def)
  have keep: "track_holds (s1\<lparr>sq_tracks := (sq_tracks s1)(c \<mapsto> ?none)\<rparr>) b rs" if "track_holds s1 b rs" for s1 :: "'a seq_world" and rs
    by (rule track_holds_frame [OF that, of "{}" c]) (use assms(3) in \<open>simp_all add: others_same_def\<close>)
  have zero: "tr_first t = 0 \<longleftrightarrow> ps = []"
  proof (cases ps)
    case (Cons p rs)
    with assms(1) t(2) show ?thesis by (auto simp: track_holds_def track_list_def)
  qed (use t(2) in simp)
  show ?thesis
  proof (cases "ps = []")
    case True
    let ?s1 = "s\<lparr>sq_tracks := (sq_tracks s)(b \<mapsto> m)\<rparr>"
    have "track_holds ?s1 b qs"
      using assms(2) m(1) by (simp add: track_holds_def track_list_def plain_event_def)
    from keep [OF this] empty [of ?s1] True zero t(1) m(1) show ?thesis
      by (simp add: track_merge_def upd_track_def)
  next
    case False
    obtain s1 where s1: "merge_events b (tr_first t) (tr_first m) s = Some s1" "track_holds s1 b (seq_merge ps qs)"
      "others_same (snd ` set (ps @ qs)) b s s1"
      "\<And>y. map_option ev_track (sq_events s1 y) = (if y \<in> snd ` set qs then Some b else map_option ev_track (sq_events s y))"
      using merge_events_list [of s b "[]" ps qs] assms(1,4) chained_track [OF assms(2)] t(2) m(2) by auto
    have "sq_tracks s1 c = Some m" using s1(3) m(1) assms(3) by (simp add: others_same_def)
    with keep [OF s1(2)] empty [of s1] False zero t(1) m(1) s1(1,3,4) show ?thesis
      by (simp add: track_merge_def upd_track_def others_same_def)
  qed
qed

subsection \<open>Erasing\<close>

lemma erase_events_list:
  assumes "chained s ms"
  shows "\<exists>s'. erase_events (hd (map snd ms @ [0])) s = Some s' \<and> others_same (snd ` set ms) b s s' \<and> sq_tracks s' = sq_tracks s
    \<and> (\<forall>x \<in> snd ` set ms. sq_events s' x = None \<and> sq_refs s' x = None)"
  using assms
proof (induction ms arbitrary: s)
  case Nil
  then show ?case by (auto simp: erase_events.simps others_same_def)
next
  case (Cons m ms)
  obtain t x where m: "m = (t, x)" by (cases m)
  obtain e where e: "sq_events s x = Some e" "ev_next e = hd (map snd ms @ [0])" "x \<noteq> 0" "sq_refs s x = Some 1"
    "\<And>v. ev_value e \<noteq> AObject v" "x \<notin> snd ` set ms"
    using Cons.prems m by (auto simp: chained_def plain_event_def)
  have free: "fts_atom_release (ev_value e) st = Some st" for st
    using e(5) by (cases "ev_value e") (auto simp: fts_atom_release_def)
  let ?s1 = "s\<lparr>sq_events := (sq_events s)(x \<mapsto> e\<lparr>ev_next := 0, ev_prev := 0, ev_track := 0\<rparr>)\<rparr>"
  let ?s2 = "s\<lparr>sq_events := (sq_events s)(x := None), sq_refs := (sq_refs s)(x := None)\<rparr>"
  have "release_event x ?s1 = Some ?s2"
    using e(1,4) free by (simp add: release_event_def fts_object_release_def event_delete_def fts_atom_void_def)
  moreover have "upd_event x (\<lambda>e. e\<lparr>ev_next := 0, ev_prev := 0, ev_track := 0\<rparr>) s = Some ?s1" using e(1) by (simp add: upd_event_Some)
  ultimately have step: "erase_events (hd (map snd (m # ms) @ [0])) s = erase_events (hd (map snd ms @ [0])) ?s2"
    using m e(1-3) by (subst erase_events.simps) simp
  have same: "others_same {x} b s ?s2" by (simp add: others_same_def)
  have "chained ?s2 ms" by (rule chained_frame [OF chained_tl [OF Cons.prems] same]) (use e(6) in simp)
  from Cons.IH [OF this] obtain s' where s': "erase_events (hd (map snd ms @ [0])) ?s2 = Some s'" "others_same (snd ` set ms) b ?s2 s'"
    "sq_tracks s' = sq_tracks ?s2" "\<forall>x \<in> snd ` set ms. sq_events s' x = None \<and> sq_refs s' x = None" by blast
  have "sq_events s' x = None \<and> sq_refs s' x = None" using s'(2) e(6) by (simp add: others_same_def)
  moreover have "others_same (snd ` set (m # ms)) b s s'"
    by (rule others_same_mono [OF others_same_trans [OF same s'(2)]]) (use m in auto)
  ultimately show ?case using step s'(1,3,4) m by simp
qed

lemma track_erase_events_list:
  assumes "track_holds s b ps"
  shows "\<exists>s'. track_erase_events b s = Some s' \<and> track_holds s' b [] \<and> others_same (snd ` set ps) b s s'
    \<and> (\<forall>x \<in> snd ` set ps. sq_events s' x = None \<and> sq_refs s' x = None)"
proof -
  obtain t where t: "sq_tracks s b = Some t" "tr_first t = hd (map snd ps @ [0])"
    using assms by (auto simp: track_holds_def track_list_def)
  obtain s1 where s1: "erase_events (hd (map snd ps @ [0])) s = Some s1" "others_same (snd ` set ps) b s s1" "sq_tracks s1 = sq_tracks s"
    "\<forall>x \<in> snd ` set ps. sq_events s1 x = None \<and> sq_refs s1 x = None"
    using erase_events_list [OF chained_track [OF assms], of b] by blast
  let ?s' = "s1\<lparr>sq_tracks := (sq_tracks s1)(b \<mapsto> \<lparr>tr_first = 0, tr_last = 0, tr_size = 0\<rparr>)\<rparr>"
  have "track_erase_events b s = Some ?s'" using t s1(1,3) by (simp add: track_erase_events_def upd_track_def)
  moreover have "track_holds ?s' b []" by (simp add: track_holds_def track_list_def)
  moreover have "others_same (snd ` set ps) b s ?s'" using s1(2) by (simp add: others_same_def)
  ultimately show ?thesis using s1(4) by (intro exI [of _ ?s']) simp
qed

subsection \<open>Segments\<close>

lemma track_segment_get_list:
  assumes "track_holds s b ps" "0 \<le> from" "from \<le> to"
  shows "track_segment_get b from to s =
    Some (hd (map snd (dropWhile (\<lambda>p. fst p < from) ps) @ [0]), hd (map snd (dropWhile (\<lambda>p. fst p < to) ps) @ [0]))"
proof -
  let ?ps = "dropWhile (\<lambda>p. fst p < from) ps"
  obtain t where t: "sq_tracks s b = Some t" "tr_first t = hd (map snd ps @ [0])"
    and seg: "dseg (sq_events s) 0 (map snd ps) 0"
    using assms(1) by (auto simp: track_holds_def track_list_def)
  have sub: "set ?ps \<subseteq> set ps" by (auto dest: set_dropWhileD)
  have 1: "skip_forward (\<lambda>e. ev_time e < from) s (hd (map snd ps @ [0])) = Some (hd (map snd ?ps @ [0]))"
    using skip_forward_list [OF seg, of "\<lambda>e. ev_time e < from"] dropWhile_times [OF assms(1), of ps "\<lambda>u. u < from"] by simp
  have "dseg (sq_events s) (last (0 # map snd (takeWhile (\<lambda>p. fst p < from) ps))) (map snd ?ps) 0"
    using seg dseg_append [of "sq_events s" 0 "map snd (takeWhile (\<lambda>p. fst p < from) ps)" "map snd ?ps" 0]
    by (simp flip: map_append)
  from skip_forward_list [OF this, of "\<lambda>e. ev_time e < to"]
  have "skip_forward (\<lambda>e. ev_time e < to) s (hd (map snd ?ps @ [0])) = Some (hd (map snd (dropWhile (\<lambda>p. fst p < to) ?ps) @ [0]))"
    using dropWhile_times [OF assms(1) sub, of "\<lambda>u. u < to"] by simp
  moreover have "dropWhile (\<lambda>p. fst p < to) ?ps = dropWhile (\<lambda>p. fst p < to) ps"
    using assms(3) by (induction ps) auto
  moreover have "\<not> from < 0" "\<not> to < from" using assms(2,3) by (simp_all add: not_less)
  ultimately show ?thesis using 1 t by (simp add: track_segment_get_def Let_def)
qed

end
