(* ===== verification/SeqSession.thy ===== *)
theory SeqSession
  imports SeqMerge
begin

text \<open>
  Sessions: any sequence of operations on the tracks of a world, and the sorted lists that they stand
  for. \<open>New\<close> is \<open>fts_object_create(event_class, 1, &value)\<close> with the address that the allocator chose.
\<close>

datatype 't seq_op =
  New_event addr atom
| Add_event addr 't addr
| Remove_event addr addr
| Move_event addr addr 't
| Merge_tracks addr addr
| Erase_track addr

fun seq_exec :: "'t::{linorder,zero} seq_op \<Rightarrow> 't seq_world \<Rightarrow> 't seq_world option" where
  "seq_exec (New_event x a) s = event_init x (Some a) (s\<lparr>sq_refs := (sq_refs s)(x \<mapsto> 0)\<rparr>)"
| "seq_exec (Add_event b t x) s = track_add_event b t x s"
| "seq_exec (Remove_event b x) s = track_remove_event b x s"
| "seq_exec (Move_event b x t) s = track_move_event b x t s"
| "seq_exec (Merge_tracks b c) s = track_merge b c s"
| "seq_exec (Erase_track b) s = track_erase_events b s"

fun seq_run :: "'t::{linorder,zero} seq_op list \<Rightarrow> 't seq_world \<Rightarrow> 't seq_world option" where
  "seq_run [] s = Some s"
| "seq_run (op # ops) s = Option.bind (seq_exec op s) (seq_run ops)"

definition before_event :: "addr \<Rightarrow> ('t \<times> addr) list \<Rightarrow> ('t \<times> addr) list" where
  "before_event x ps = takeWhile (\<lambda>p. snd p \<noteq> x) ps"

definition behind_event :: "addr \<Rightarrow> ('t \<times> addr) list \<Rightarrow> ('t \<times> addr) list" where
  "behind_event x ps = tl (dropWhile (\<lambda>p. snd p \<noteq> x) ps)"

fun seq_spec :: "'t::{linorder,zero} seq_op \<Rightarrow> (addr \<Rightarrow> ('t \<times> addr) list option) \<times> addr set \<Rightarrow> (addr \<Rightarrow> ('t \<times> addr) list option) \<times> addr set" where
  "seq_spec (New_event x a) (T, L) = (T, insert x L)"
| "seq_spec (Add_event b t x) (T, L) = (T(b \<mapsto> seq_add t x (the (T b))), L - {x})"
| "seq_spec (Remove_event b x) (T, L) = (T(b \<mapsto> before_event x (the (T b)) @ behind_event x (the (T b))), L)"
| "seq_spec (Move_event b x t) (T, L) = (T(b \<mapsto> seq_move t (0, x) (before_event x (the (T b))) (behind_event x (the (T b)))), L)"
| "seq_spec (Merge_tracks b c) (T, L) = (T(b \<mapsto> seq_merge (the (T b)) (the (T c)), c \<mapsto> []), L)"
| "seq_spec (Erase_track b) (T, L) = (T(b \<mapsto> []), L)"

definition in_track :: "(addr \<Rightarrow> ('t \<times> addr) list option) \<Rightarrow> addr \<Rightarrow> addr \<Rightarrow> bool" where
  "in_track T b x \<longleftrightarrow> (\<exists>ps. T b = Some ps \<and> x \<in> snd ` set ps)"

text \<open>
  What a caller has to take care of: the tracks exist, a new event has an address of its own and no
  object as its value, only events in no track are added, only events of the track are removed or
  moved, and a track is not merged with itself.
\<close>

fun seq_op_ok :: "'t seq_op \<Rightarrow> (addr \<Rightarrow> ('t \<times> addr) list option) \<times> addr set \<Rightarrow> bool" where
  "seq_op_ok (New_event x a) (T, L) \<longleftrightarrow> x \<noteq> 0 \<and> x \<notin> L \<and> (\<forall>b. \<not> in_track T b x) \<and> (\<forall>v. a \<noteq> AObject v)"
| "seq_op_ok (Add_event b t x) (T, L) \<longleftrightarrow> T b \<noteq> None \<and> x \<in> L"
| "seq_op_ok (Remove_event b x) (T, L) \<longleftrightarrow> in_track T b x"
| "seq_op_ok (Move_event b x t) (T, L) \<longleftrightarrow> in_track T b x"
| "seq_op_ok (Merge_tracks b c) (T, L) \<longleftrightarrow> T b \<noteq> None \<and> T c \<noteq> None \<and> b \<noteq> c"
| "seq_op_ok (Erase_track b) (T, L) \<longleftrightarrow> T b \<noteq> None"

fun seq_ops_ok :: "'t::{linorder,zero} seq_op list \<Rightarrow> (addr \<Rightarrow> ('t \<times> addr) list option) \<times> addr set \<Rightarrow> bool" where
  "seq_ops_ok [] A \<longleftrightarrow> True"
| "seq_ops_ok (op # ops) A \<longleftrightarrow> seq_op_ok op A \<and> seq_ops_ok ops (seq_spec op A)"

lemma split_event:
  assumes "x \<in> snd ` set ps"
  shows "\<exists>t. ps = before_event x ps @ (t, x) # behind_event x ps"
proof -
  have "dropWhile (\<lambda>p. snd p \<noteq> x) ps \<noteq> []" using assms by auto
  then obtain p qs where p: "dropWhile (\<lambda>p. snd p \<noteq> x) ps = p # qs" by (cases "dropWhile (\<lambda>p. snd p \<noteq> x) ps") blast+
  then have "snd p = x" using hd_dropWhile [of "\<lambda>p. snd p \<noteq> x" ps] by simp
  moreover have "ps = takeWhile (\<lambda>p. snd p \<noteq> x) ps @ p # qs" using takeWhile_dropWhile_id [of "\<lambda>p. snd p \<noteq> x" ps] p by simp
  ultimately show ?thesis unfolding before_event_def behind_event_def p by (cases p) auto
qed

lemma seq_new:
  assumes "seq_holds s T L" "x \<noteq> 0" "x \<notin> L" "\<forall>b. \<not> in_track T b x" "\<forall>v. a \<noteq> AObject v"
  shows "\<exists>s'. event_init x (Some a) (s\<lparr>sq_refs := (sq_refs s)(x \<mapsto> 0)\<rparr>) = Some s' \<and> seq_holds s' T (insert x L)"
proof -
  let ?e = "\<lparr>ev_time = 0, ev_value = a, ev_track = 0, ev_prev = 0, ev_next = 0\<rparr>"
  let ?s' = "s\<lparr>sq_refs := (sq_refs s)(x \<mapsto> 0), sq_events := (sq_events s)(x \<mapsto> ?e)\<rparr>"
  have "fts_atom_refer a st = Some st" for st using assms(5) by (cases a) (auto simp: fts_atom_refer_def)
  then have init: "event_init x (Some a) (s\<lparr>sq_refs := (sq_refs s)(x \<mapsto> 0)\<rparr>) = Some ?s'"
    by (simp add: event_init_def fts_atom_assign_def fts_atom_release_def upd_event_def)
  have same: "others_same {x} b s ?s'" for b by (simp add: others_same_def)
  have "seq_holds ?s' T (insert x L)"
    unfolding seq_holds_def
  proof (intro conjI allI impI ballI)
    fix b ps assume b: "T b = Some ps"
    then have x: "x \<notin> snd ` set ps" using assms(4) by (auto simp: in_track_def)
    show "track_holds ?s' b ps" by (rule track_holds_frame [OF seq_holdsD(1) [OF assms(1) b] same, of "Suc b"]) (use x in simp_all)
    show "snd ` set ps \<inter> insert x L = {}" using x seq_holdsD(2) [OF assms(1) b] by simp
  next
    fix b c ps qs assume "T b = Some ps \<and> T c = Some qs \<and> b \<noteq> c"
    then show "snd ` set ps \<inter> snd ` set qs = {}" by (elim conjE) (rule seq_holds_disjoint [OF assms(1)])
  next
    fix y assume y: "y \<in> insert x L"
    show "plain_event ?s' y 0"
    proof (cases "y = x")
      case False
      with y seq_holdsD(3) [OF assms(1), of y] show ?thesis by (simp add: plain_event_def)
    qed (use assms(2,5) in \<open>simp add: plain_event_def\<close>)
  qed
  with init show ?thesis by blast
qed

lemma two_updates:
  "(T(b \<mapsto> x, c \<mapsto> y)) d = Some r \<Longrightarrow> b \<noteq> c \<Longrightarrow> d = c \<and> r = y \<or> d = b \<and> r = x \<or> d \<noteq> b \<and> d \<noteq> c \<and> T d = Some r"
  by (simp split: if_splits)

lemma seq_merge_step:
  assumes "seq_holds s T L" "T b = Some ps" "T c = Some qs" "b \<noteq> c"
  shows "\<exists>s'. track_merge b c s = Some s' \<and> seq_holds s' (T(b \<mapsto> seq_merge ps qs, c \<mapsto> [])) L"
proof -
  note T = seq_holdsD [OF assms(1)] and disjoint = seq_holds_disjoint [OF assms(1)]
  have "snd ` set qs \<inter> snd ` set ps = {}" by (rule disjoint [OF assms(3,2) assms(4) [symmetric]])
  from track_merge_list [OF T(1) [OF assms(2)] T(1) [OF assms(3)] assms(4) this]
  obtain s' where s': "track_merge b c s = Some s'" "track_holds s' b (seq_merge ps qs)" "track_holds s' c []"
    "\<And>y. y \<notin> snd ` set (ps @ qs) \<Longrightarrow> sq_events s' y = sq_events s y \<and> sq_refs s' y = sq_refs s y"
    "\<And>d. d \<noteq> b \<Longrightarrow> d \<noteq> c \<Longrightarrow> sq_tracks s' d = sq_tracks s d"
    by blast
  have all: "snd ` set (seq_merge ps qs) = snd ` set ps \<union> snd ` set qs" by (simp add: set_seq_merge image_Un)
  have other: "track_holds s' d rs \<and> snd ` set rs \<inter> snd ` set (seq_merge ps qs) = {}" if d: "T d = Some rs" "d \<noteq> b" "d \<noteq> c" for d rs
  proof -
    have dis: "snd ` set rs \<inter> snd ` set ps = {}" "snd ` set rs \<inter> snd ` set qs = {}"
      using disjoint [OF d(1) assms(2) d(2)] disjoint [OF d(1) assms(3) d(3)] by simp_all
    let ?s1 = "s'\<lparr>sq_tracks := (sq_tracks s)(b := sq_tracks s' b)\<rparr>"
    have "others_same (snd ` set (ps @ qs)) b s ?s1" using s'(4) by (simp add: others_same_def)
    moreover have "snd ` set rs \<inter> snd ` set (ps @ qs) = {}" using dis by (simp add: image_Un Int_Un_distrib)
    ultimately have "track_holds ?s1 d rs" using track_holds_frame [OF T(1) [OF d(1)] _ d(2)] by blast
    then have "track_holds s' d rs" using s'(5) [OF d(2,3)] d(2) by (simp add: track_holds_def track_list_def plain_event_def)
    with dis all show ?thesis by (simp add: Int_Un_distrib)
  qed
  have "seq_holds s' (T(b \<mapsto> seq_merge ps qs, c \<mapsto> [])) L"
    unfolding seq_holds_def
  proof (intro conjI allI impI ballI)
    fix d rs assume d: "(T(b \<mapsto> seq_merge ps qs, c \<mapsto> [])) d = Some rs"
    show "track_holds s' d rs" using two_updates [OF d assms(4)] s'(2,3) other [of d rs] by (elim disjE conjE) simp_all
    show "snd ` set rs \<inter> L = {}" using two_updates [OF d assms(4)]
    proof (elim disjE conjE)
      assume "rs = seq_merge ps qs"
      then show ?thesis using T(2) [OF assms(2)] T(2) [OF assms(3)] all by (simp add: Int_Un_distrib2)
    qed (simp_all add: T(2))
  next
    fix d e rs us assume de: "(T(b \<mapsto> seq_merge ps qs, c \<mapsto> [])) d = Some rs \<and> (T(b \<mapsto> seq_merge ps qs, c \<mapsto> [])) e = Some us \<and> d \<noteq> e"
    note two_updates [OF conjunct1 [OF de] assms(4)] two_updates [OF conjunct1 [OF conjunct2 [OF de]] assms(4)]
    moreover have "d \<noteq> e" using de by blast
    ultimately show "snd ` set rs \<inter> snd ` set us = {}"
      using other [of d rs] other [of e us] disjoint [of d rs e us] by (elim disjE conjE) (simp_all add: Int_commute)
  next
    fix x assume x: "x \<in> L"
    then have "x \<notin> snd ` set (ps @ qs)" using T(2) [OF assms(2)] T(2) [OF assms(3)] by auto
    from s'(4) [OF this] T(3) [OF x] show "plain_event s' x 0" by (simp add: plain_event_def)
  qed
  with s'(1) show ?thesis by blast
qed

lemma seq_exec_step:
  assumes "seq_holds s T L" "seq_op_ok op (T, L)"
  shows "\<exists>s'. seq_exec op s = Some s' \<and> seq_holds s' (fst (seq_spec op (T, L))) (snd (seq_spec op (T, L)))"
proof (cases op)
  case (New_event x a)
  with seq_new [OF assms(1)] assms(2) show ?thesis by simp
next
  case (Add_event b t x)
  then obtain ps where ps: "T b = Some ps" "x \<in> L" using assms(2) by auto
  have "x \<notin> snd ` set ps" "plain_event s x 0" using seq_holdsD(2,3) [OF assms(1)] ps by blast+
  from track_add_event_list [OF seq_holdsD(1) [OF assms(1) ps(1)] this, of t]
  obtain s' where s': "track_add_event b t x s = Some s'" "track_holds s' b (seq_add t x ps)" "others_same (insert x (snd ` set ps)) b s s'"
    by blast
  have "seq_holds s' (T(b \<mapsto> seq_add t x ps)) (L - {x})"
    by (rule seq_holds_upd [OF assms(1) ps(1) s'(2), of "{x}"]) (use s'(3) ps(2) in \<open>simp_all add: set_seq_add\<close>)
  with s'(1) Add_event ps(1) show ?thesis by simp
next
  case (Remove_event b x)
  then obtain ps where ps: "T b = Some ps" "x \<in> snd ` set ps" using assms(2) by (auto simp: in_track_def)
  obtain t where split: "ps = before_event x ps @ (t, x) # behind_event x ps" using split_event [OF ps(2)] by blast
  have holds: "track_holds s b (before_event x ps @ (t, x) # behind_event x ps)" using seq_holdsD(1) [OF assms(1) ps(1)] split by simp
  from track_remove_event_list [OF holds, folded split] obtain s' where s': "track_remove_event b x s = Some s'"
    "track_holds s' b (before_event x ps @ behind_event x ps)" "others_same (snd ` set ps) b s s'" by blast
  have "set (before_event x ps @ behind_event x ps) \<subseteq> set (before_event x ps @ (t, x) # behind_event x ps)" by auto
  note this [folded split]
  then have "seq_holds s' (T(b \<mapsto> before_event x ps @ behind_event x ps)) L"
    by (intro seq_holds_upd [OF assms(1) ps(1) s'(2), of "{}"]) (use s'(3) in auto)
  with s'(1) Remove_event ps(1) show ?thesis by simp
next
  case (Move_event b x t0)
  then obtain ps where ps: "T b = Some ps" "x \<in> snd ` set ps" using assms(2) by (auto simp: in_track_def)
  let ?us = "before_event x ps" and ?vs = "behind_event x ps"
  obtain t where split: "ps = ?us @ (t, x) # ?vs" using split_event [OF ps(2)] by blast
  have holds: "track_holds s b (?us @ (t, x) # ?vs)" using seq_holdsD(1) [OF assms(1) ps(1)] split by simp
  from track_move_event_list [OF holds, of t0, folded split] obtain s' where s': "track_move_event b x t0 s = Some s'"
    "track_holds s' b (seq_move t0 (t, x) ?us ?vs)" "others_same (snd ` set ps) b s s'" by blast
  have move: "seq_move t0 (t, x) ?us ?vs = seq_move t0 (0, x) ?us ?vs" by (simp add: seq_move_def)
  have "snd ` set (seq_move t0 (0, x) ?us ?vs) \<subseteq> snd ` set (?us @ (t, x) # ?vs)"
    by (auto simp: seq_move_def Let_def set_seq_add image_Un)
  then have "seq_holds s' (T(b \<mapsto> seq_move t0 (0, x) ?us ?vs)) L"
    unfolding split [symmetric]
    by (intro seq_holds_upd [OF assms(1) ps(1) s'(2) [unfolded move], of "{}"]) (use s'(3) in simp_all)
  with s'(1) Move_event ps(1) show ?thesis by simp
next
  case (Merge_tracks b c)
  then obtain ps qs where "T b = Some ps" "T c = Some qs" "b \<noteq> c" using assms(2) by auto
  with seq_merge_step [OF assms(1), of b ps c qs] Merge_tracks show ?thesis by simp
next
  case (Erase_track b)
  then obtain ps where ps: "T b = Some ps" using assms(2) by auto
  from track_erase_events_list [OF seq_holdsD(1) [OF assms(1) ps]] obtain s' where s': "track_erase_events b s = Some s'"
    "track_holds s' b []" "others_same (snd ` set ps) b s s'" by blast
  have "seq_holds s' (T(b \<mapsto> [])) L" by (rule seq_holds_upd [OF assms(1) ps s'(2), of "{}"]) (use s'(3) in simp_all)
  with s'(1) Erase_track ps show ?thesis by simp
qed

lemma seq_run_spec:
  assumes "seq_holds s T L" "seq_ops_ok ops (T, L)"
  shows "\<exists>s'. seq_run ops s = Some s' \<and> seq_holds s' (fst (fold seq_spec ops (T, L))) (snd (fold seq_spec ops (T, L)))"
  using assms
proof (induction ops arbitrary: s T L)
  case (Cons op ops)
  obtain T' L' where TL: "seq_spec op (T, L) = (T', L')" by (cases "seq_spec op (T, L)")
  obtain s1 where "seq_exec op s = Some s1" "seq_holds s1 T' L'"
    using seq_exec_step [OF Cons.prems(1), of op] Cons.prems(2) TL by auto
  with Cons.IH [of s1 T' L'] Cons.prems(2) TL show ?case by simp
qed simp

end
