(* ===== verification/SeqShift.thy ===== *)
theory SeqShift
  imports SeqMerge
begin

text \<open>
  Shifting a segment. Between its loops the track is not in order: \<open>track_times\<close> is what holds then.
\<close>

definition track_times :: "'t::{linorder,zero} seq_world \<Rightarrow> addr \<Rightarrow> ('t \<times> addr) list \<Rightarrow> bool" where
  "track_times s b ps \<longleftrightarrow> track_list s b (map snd ps)
     \<and> list_all (\<lambda>(t, x). 0 \<le> t \<and> plain_event s x 1 \<and> map_option ev_time (sq_events s x) = Some t) ps"

lemma track_holds_times: "track_holds s b ps \<longleftrightarrow> track_times s b ps \<and> sorted (map fst ps)"
  by (auto simp: track_holds_def track_times_def)

lemma track_timesI:
  "track_list s b (map snd ps) \<Longrightarrow>
     (\<And>t x. (t, x) \<in> set ps \<Longrightarrow> 0 \<le> t \<and> plain_event s x 1 \<and> map_option ev_time (sq_events s x) = Some t) \<Longrightarrow> track_times s b ps"
  unfolding track_times_def list_all_iff by blast

lemma track_timesD:
  "track_times s b ps \<Longrightarrow> (t, x) \<in> set ps \<Longrightarrow> 0 \<le> t \<and> plain_event s x 1 \<and> map_option ev_time (sq_events s x) = Some t"
  by (fastforce simp: track_times_def list_all_iff)

lemma track_times_list: "track_times s b ps \<Longrightarrow> track_list s b (map snd ps)"
  by (simp add: track_times_def)

lemma track_times_new:
  assumes "track_times s b (us @ (t, x) # vs)"
  shows "x \<notin> snd ` set (us @ vs)" "x \<noteq> 0"
  using assms by (auto simp: track_times_def track_list_def dseg_append)

lemma times_set:
  assumes "track_times s b (us @ (t, x) # vs)" "0 \<le> t'"
  shows "\<exists>s'. upd_event x (\<lambda>e. e\<lparr>ev_time := t'\<rparr>) s = Some s' \<and> track_times s' b (us @ (t', x) # vs) \<and> others_same {x} b s s'"
proof -
  have x: "plain_event s x 1" using track_timesD [OF assms(1), of t x] by simp
  then obtain e where e: "sq_events s x = Some e" by (auto simp: plain_event_def)
  let ?s' = "s\<lparr>sq_events := (sq_events s)(x \<mapsto> e\<lparr>ev_time := t'\<rparr>)\<rparr>"
  have "track_times ?s' b (us @ (t', x) # vs)"
  proof (rule track_timesI)
    have "track_list s b (map snd (us @ (t', x) # vs))" using track_times_list [OF assms(1)] by simp
    then show "track_list ?s' b (map snd (us @ (t', x) # vs))" by (rule track_list_cong) (use e in \<open>auto simp: links_def\<close>)
  next
    fix u y assume uy: "(u, y) \<in> set (us @ (t', x) # vs)"
    show "0 \<le> u \<and> plain_event ?s' y 1 \<and> map_option ev_time (sq_events ?s' y) = Some u"
    proof (cases "(u, y) = (t', x)")
      case True
      with x e assms(2) show ?thesis by (simp add: plain_event_def)
    next
      case False
      with uy have uy: "(u, y) \<in> set (us @ vs)" by auto
      then have "y \<noteq> x" using track_times_new(1) [OF assms(1)] imageI [OF uy, of snd] by auto
      with track_timesD [OF assms(1), of u y] uy show ?thesis by (simp add: plain_event_def)
    qed
  qed
  moreover have "others_same {x} b s ?s'" by (simp add: others_same_def)
  moreover have "upd_event x (\<lambda>e. e\<lparr>ev_time := t'\<rparr>) s = Some ?s'" using e by (simp add: upd_event_Some)
  ultimately show ?thesis by blast
qed

lemma times_search:
  assumes "track_times s b (pre @ vs)" "vs \<noteq> []" "\<forall>p \<in> set pre. fst p \<le> t" "sorted (map fst vs)"
  shows "track_get_next_by_time b t s = Some (hd (map snd (dropWhile (\<lambda>p. fst p \<le> t) vs) @ [0]))"
proof -
  let ?all = "pre @ vs"
  have list: "track_list s b (map snd ?all)" by (rule track_times_list [OF assms(1)])
  have "last vs \<in> set ?all" using assms(2) by simp
  then obtain l where l: "sq_events s (snd (last vs)) = Some l" "ev_time l = fst (last vs)"
    using track_timesD [OF assms(1), of "fst (last vs)" "snd (last vs)"] by auto
  have last: "last (0 # map snd ?all) = snd (last vs)" using assms(2) by (simp add: last_map)
  have len: "0 < int (length pre) + int (length vs)" using assms(2) by (cases vs) simp_all
  have seg: "dseg (sq_events s) 0 (map snd ?all) 0" using list by (simp add: track_list_def)
  have times: "dropWhile (\<lambda>x. ev_time (the (sq_events s x)) \<le> t) (map snd qs) = map snd (dropWhile (\<lambda>p. fst p \<le> t) qs)"
    if "set qs \<subseteq> set ?all" for qs
    using that track_timesD [OF assms(1)] by (induction qs) fastforce+
  have skip: "skip_forward (\<lambda>e. t \<ge> ev_time e) s (hd (map snd ?all @ [0])) = Some (hd (map snd (dropWhile (\<lambda>p. fst p \<le> t) vs) @ [0]))"
    using skip_forward_list [OF seg, of "\<lambda>e. ev_time e \<le> t"] times [of ?all] assms(3) by (simp add: dropWhile_append2)
  have "track_get_next_by_time b t s = (if t < fst (last vs) then skip_forward (\<lambda>e. t \<ge> ev_time e) s (hd (map snd ?all @ [0])) else Some 0)"
    using list last len l by (simp add: track_get_next_by_time_def search_from_def track_list_def)
  also have "\<dots> = Some (hd (map snd (dropWhile (\<lambda>p. fst p \<le> t) vs) @ [0]))"
  proof (cases "t < fst (last vs)")
    case False
    then have nil: "dropWhile (\<lambda>p. fst p \<le> t) vs = []"
      using dropWhile_late [of vs "\<lambda>u. u \<le> t"] assms(2,4) by (auto simp: not_less)
    show ?thesis unfolding nil using False by simp
  qed (use skip in simp)
  finally show ?thesis .
qed

lemma times_relinked:
  assumes "track_times s b ps" "set qs \<subseteq> set ps" "track_list s1 b (map snd qs)" "relinked A b s s1"
  shows "track_times s1 b qs"
proof (rule track_timesI [OF assms(3)])
  fix t x assume "(t, x) \<in> set qs"
  with track_timesD [OF assms(1), of t x] assms(2) relinked_event [OF assms(4), of x]
  show "0 \<le> t \<and> plain_event s1 x 1 \<and> map_option ev_time (sq_events s1 x) = Some t" by auto
qed

text \<open>Moving an event to a time that is not before those in front of it.\<close>

lemma times_move:
  assumes times: "track_times s b (pre @ (t, x) # vs)" and vs: "sorted (map fst vs)" and pre: "\<forall>p \<in> set pre. fst p \<le> t'" and pos: "0 \<le> t'"
  shows "\<exists>s' vs'. track_move_event b x t' s = Some s' \<and> track_times s' b (pre @ vs') \<and> sorted (map fst vs')
    \<and> set vs' = insert (t', x) (set vs) \<and> others_same (snd ` set (pre @ (t, x) # vs)) b s s'"
proof -
  have list: "track_list s b (map snd pre @ x # map snd vs)" using track_times_list [OF times] by simp
  have x: "plain_event s x 1" using track_timesD [OF times, of t x] by simp
  obtain e where e: "sq_events s x = Some e" "ev_prev e = last (0 # map snd pre)" "ev_next e = hd (map snd vs @ [0])"
    using list by (auto simp: track_list_def dseg_append)
  note new = track_times_new [OF times]
  have next_time: "(if ev_next e = 0 then Some False else map_option (\<lambda>n. t' > ev_time n) (sq_events s (ev_next e))) =
      Some (vs \<noteq> [] \<and> t' > fst (hd vs))"
  proof (cases vs)
    case (Cons v ws)
    with track_timesD [OF times, of "fst v" "snd v"] e(3) show ?thesis by (auto simp: plain_event_def)
  qed (use e(3) in simp)
  have prev_time: "(if ev_prev e = 0 then Some False else map_option (\<lambda>p. t' < ev_time p) (sq_events s (ev_prev e))) = Some False"
  proof (cases pre rule: rev_cases)
    case (snoc ws u)
    with track_timesD [OF times, of "fst u" "snd u"] e(2) pre show ?thesis by (auto simp: plain_event_def)
  qed (use e(2) in simp)
  have t': "(if t' < 0 then 0 else t') = t'" by (rule if_not_P) (simp add: pos not_less)
  have move: "track_move_event b x t' s = (if vs \<noteq> [] \<and> t' > fst (hd vs) then do {
       s1 \<leftarrow> cutout_event b x s;
       s2 \<leftarrow> upd_event x (\<lambda>e. e\<lparr>ev_time := t'\<rparr>) s1;
       here \<leftarrow> track_get_next_by_time b t' s2;
       insert_event_before b here x s2 }
     else upd_event x (\<lambda>e. e\<lparr>ev_time := t'\<rparr>) s)"
    unfolding track_move_event_def e(1) Let_def bind.bind_lunit t' next_time
    by (cases "vs \<noteq> [] \<and> t' > fst (hd vs)") (simp_all only: if_True if_False prev_time bind.bind_lunit simp_thms)
  show ?thesis
  proof (cases "vs \<noteq> [] \<and> t' > fst (hd vs)")
    case False
    obtain s' where s': "upd_event x (\<lambda>e. e\<lparr>ev_time := t'\<rparr>) s = Some s'" "track_times s' b (pre @ (t', x) # vs)" "others_same {x} b s s'"
      using times_set [OF times pos] by blast
    have "t' \<le> fst p" if "p \<in> set vs" for p using vs False that by (cases vs) auto
    then have "sorted (map fst ((t', x) # vs))" using vs by simp
    moreover have "others_same (snd ` set (pre @ (t, x) # vs)) b s s'" by (rule others_same_mono [OF s'(3)]) simp
    moreover have "track_move_event b x t' s = Some s'" unfolding move if_not_P [OF False] by (rule s'(1))
    ultimately show ?thesis using s'(2) by (intro exI [of _ s'] exI [of _ "(t', x) # vs"]) simp
  next
    case True
    obtain s1 where s1: "cutout_event b x s = Some s1" "track_list s1 b (map snd (pre @ vs))" "relinked (set (map snd pre @ map snd vs)) b s s1"
      using cutout_event_list [OF list] by auto
    have times1: "track_times s1 b (pre @ vs)" by (rule times_relinked [OF times _ s1(2,3)]) auto
    have x1: "plain_event s1 x 1" using x relinked_event(1) [OF s1(3)] by simp
    then obtain d where d: "sq_events s1 x = Some d" by (auto simp: plain_event_def)
    let ?s2 = "s1\<lparr>sq_events := (sq_events s1)(x \<mapsto> d\<lparr>ev_time := t'\<rparr>)\<rparr>"
    let ?vs1 = "takeWhile (\<lambda>p. fst p \<le> t') vs" and ?vs2 = "dropWhile (\<lambda>p. fst p \<le> t') vs"
    have same2: "others_same {x} b s1 ?s2" by (simp add: others_same_def)
    have times2: "track_times ?s2 b (pre @ vs)"
    proof (rule track_timesI)
      show "track_list ?s2 b (map snd (pre @ vs))" by (rule track_list_cong [OF s1(2)]) (use new(1) in auto)
    next
      fix u y assume uy: "(u, y) \<in> set (pre @ vs)"
      then have "y \<noteq> x" using new(1) imageI [OF uy, of snd] by auto
      with track_timesD [OF times1 uy] show "0 \<le> u \<and> plain_event ?s2 y 1 \<and> map_option ev_time (sq_events ?s2 y) = Some u"
        by (simp add: plain_event_def)
    qed
    have here: "track_get_next_by_time b t' ?s2 = Some (hd (map snd ?vs2 @ [0]))"
      using times_search [OF times2 _ pre vs] True by blast
    have list2: "track_list ?s2 b (map snd (pre @ ?vs1) @ map snd ?vs2)"
      using track_times_list [OF times2] by (simp flip: map_append)
    have new2: "x \<notin> set (map snd (pre @ ?vs1) @ map snd ?vs2)" using new(1) by (simp flip: map_append)
    obtain s3 where s3: "insert_event_before b (hd (map snd ?vs2 @ [0])) x ?s2 = Some s3"
      "track_list s3 b (map snd (pre @ ?vs1) @ x # map snd ?vs2)" "relinked (insert x (set (map snd (pre @ ?vs1) @ map snd ?vs2))) b ?s2 s3"
      using insert_event_before_list [OF list2 new2 new(2), of "d\<lparr>ev_time := t'\<rparr>"] by auto
    let ?vs' = "?vs1 @ (t', x) # ?vs2"
    have "track_times s3 b (pre @ ?vs')"
    proof (rule track_timesI)
      show "track_list s3 b (map snd (pre @ ?vs'))" using s3(2) by simp
    next
      fix u y assume uy: "(u, y) \<in> set (pre @ ?vs')"
      show "0 \<le> u \<and> plain_event s3 y 1 \<and> map_option ev_time (sq_events s3 y) = Some u"
      proof (cases "(u, y) = (t', x)")
        case True
        with pos x1 d relinked_event [OF s3(3), of x] show ?thesis by (simp add: plain_event_def)
      next
        case False
        with uy have "(u, y) \<in> set (pre @ vs)" using set_takeWhileD [of _ "\<lambda>p. fst p \<le> t'" vs] set_dropWhileD [of _ "\<lambda>p. fst p \<le> t'" vs] by auto
        from track_timesD [OF times2 this] relinked_event [OF s3(3), of y] show ?thesis by simp
      qed
    qed
    moreover have "sorted (map fst ?vs')"
    proof -
      have "\<forall>p \<in> set vs. 0 \<le> fst p" using track_timesD [OF times] by fastforce
      from seq_add_sorted [OF vs this, of t' x] show ?thesis unfolding seq_add_def t' .
    qed
    moreover have "set ?vs' = insert (t', x) (set vs)" using set_seq_add [of t' x vs] unfolding seq_add_def t' .
    moreover have "track_move_event b x t' s = Some s3"
      unfolding move if_P [OF True] using s1(1) d here s3(1) by (simp only: upd_event_Some bind.bind_lunit)
    moreover have "others_same (snd ` set (pre @ (t, x) # vs)) b s s3"
    proof (rule others_same_mono [OF others_same_trans [OF relinked_others [OF s1(3)] others_same_trans [OF same2 relinked_others [OF s3(3)]]]])
      show "set (map snd pre @ map snd vs) \<union> ({x} \<union> insert x (set (map snd (pre @ ?vs1) @ map snd ?vs2))) \<subseteq> snd ` set (pre @ (t, x) # vs)"
        using set_takeWhileD [of _ "\<lambda>p. fst p \<le> t'" vs] set_dropWhileD [of _ "\<lambda>p. fst p \<le> t'" vs] by auto
    qed
    ultimately show ?thesis by blast
  qed
qed

subsection \<open>The loops\<close>

lemma shift_in_place_list:
  assumes "track_times s b (pre @ seg @ vs)" "after = hd (map snd vs @ [0])" "\<forall>p \<in> set seg. 0 \<le> fst p + shift"
  shows "\<exists>s' seg1 seg2. shift_in_place after to shift (hd (map snd seg @ [after])) s = Some (hd (map snd seg2 @ [after]), s')
    \<and> seg = seg1 @ seg2 \<and> track_times s' b (pre @ map (\<lambda>p. (fst p + shift, snd p)) seg1 @ seg2 @ vs)
    \<and> (\<forall>p \<in> set seg1. fst p + shift < to) \<and> (seg2 \<noteq> [] \<longrightarrow> to \<le> fst (hd seg2) + shift) \<and> others_same (snd ` set seg) b s s'"
  using assms
proof (induction seg arbitrary: pre s)
  case Nil
  then show ?case by (intro exI [of _ s] exI [of _ "[]"]) (simp add: shift_in_place.simps others_same_def)
next
  case (Cons p seg)
  obtain t x where p: "p = (t, x)" by (cases p)
  have times: "track_times s b (pre @ (t, x) # seg @ vs)" using Cons.prems(1) p by simp
  have x: "x \<noteq> after"
  proof (cases vs)
    case Nil
    with track_times_new(2) [OF times] Cons.prems(2) show ?thesis by simp
  next
    case (Cons v ws)
    with track_times_new(1) [OF times] Cons.prems(2) show ?thesis by auto
  qed
  have nxt: "hd (map snd (seg @ vs) @ [0]) = hd (map snd seg @ [after])" using Cons.prems(2) by (cases seg) simp_all
  have list: "track_list s b (map snd pre @ x # map snd (seg @ vs))" using track_times_list [OF times] by simp
  obtain e where e: "sq_events s x = Some e" "ev_time e = t" "ev_next e = hd (map snd seg @ [after])"
    using list track_timesD [OF times, of t x] nxt by (auto simp: track_list_def dseg_append)
  show ?case
  proof (cases "t + shift < to")
    case False
    have "shift_in_place after to shift x s = Some (x, s)" using x e False by (subst shift_in_place.simps) simp
    then show ?thesis using p False Cons.prems(1)
      by (intro exI [of _ s] exI [of _ "[]"] exI [of _ "p # seg"]) (simp add: others_same_def not_less)
  next
    case True
    have "0 \<le> t + shift" using Cons.prems(3) p by simp
    from times_set [OF times this] obtain s1 where s1: "upd_event x (\<lambda>e. e\<lparr>ev_time := t + shift\<rparr>) s = Some s1"
      "track_times s1 b (pre @ (t + shift, x) # seg @ vs)" "others_same {x} b s s1" by blast
    have "track_times s1 b ((pre @ [(t + shift, x)]) @ seg @ vs)" using s1(2) by simp
    moreover have "\<forall>p \<in> set seg. 0 \<le> fst p + shift" using Cons.prems(3) by simp
    ultimately obtain s' seg1 seg2 where
      s': "shift_in_place after to shift (hd (map snd seg @ [after])) s1 = Some (hd (map snd seg2 @ [after]), s')" "seg = seg1 @ seg2"
      "track_times s' b ((pre @ [(t + shift, x)]) @ map (\<lambda>p. (fst p + shift, snd p)) seg1 @ seg2 @ vs)" "\<forall>p \<in> set seg1. fst p + shift < to"
      "seg2 \<noteq> [] \<longrightarrow> to \<le> fst (hd seg2) + shift" "others_same (snd ` set seg) b s1 s'"
      using Cons.IH [OF _ Cons.prems(2)] by blast
    have "shift_in_place after to shift x s = Some (hd (map snd seg2 @ [after]), s')"
      using x e True s1(1) s'(1) by (subst shift_in_place.simps) simp
    moreover have "others_same (snd ` set (p # seg)) b s s'"
      by (rule others_same_mono [OF others_same_trans [OF s1(3) s'(6)]]) (use p in auto)
    ultimately show ?thesis using s'(2-5) True p by (intro exI [of _ s'] exI [of _ "p # seg1"] exI [of _ seg2]) simp
  qed
qed

lemma shift_behind_list:
  assumes "track_times s b (pre @ seg @ vs)" "sorted (map fst vs)" "\<forall>q \<in> set seg. \<forall>p \<in> set (pre @ seg). fst p \<le> fst q + shift"
    and "\<forall>q \<in> set seg. 0 \<le> fst q + shift" "stop = last (0 # map snd pre)"
  shows "\<exists>s' vs'. shift_behind b stop shift (last (stop # map snd seg)) s = Some s' \<and> track_times s' b (pre @ vs') \<and> sorted (map fst vs')
    \<and> set vs' = (\<lambda>p. (fst p + shift, snd p)) ` set seg \<union> set vs \<and> others_same (snd ` set (pre @ seg @ vs)) b s s'"
  using assms(1-4)
proof (induction seg arbitrary: vs s rule: rev_induct)
  case Nil
  then show ?case by (intro exI [of _ s] exI [of _ vs]) (simp add: shift_behind.simps others_same_def)
next
  case (snoc q seg)
  obtain t x where q: "q = (t, x)" by (cases q)
  have times: "track_times s b ((pre @ seg) @ (t, x) # vs)" using snoc.prems(1) q by simp
  have x: "x \<noteq> stop"
  proof (cases "pre = []")
    case False
    then have "stop \<in> snd ` set (pre @ seg)" using assms(5) by (simp add: last_map)
    with track_times_new(1) [OF times] show ?thesis by auto
  qed (use track_times_new(2) [OF times] assms(5) in simp)
  have list: "track_list s b (map snd (pre @ seg) @ x # map snd vs)" using track_times_list [OF times] by simp
  have prv: "last (0 # map snd (pre @ seg)) = last (stop # map snd seg)" using assms(5) by simp
  have "plain_event s x 1 \<and> map_option ev_time (sq_events s x) = Some t" using track_timesD [OF times, of t x] by simp
  then obtain e where e: "sq_events s x = Some e" "ev_time e = t" by auto
  have "ev_prev e = last (0 # map snd (pre @ seg))"
    using list e(1) unfolding track_list_def dseg_append dseg.simps by fastforce
  note e = e this [unfolded prv]
  have "\<forall>p \<in> set (pre @ seg). fst p \<le> t + shift" "0 \<le> t + shift" using snoc.prems(3,4) q by simp_all
  from times_move [OF times snoc.prems(2) this] obtain s1 vs1 where s1: "track_move_event b x (t + shift) s = Some s1"
    "track_times s1 b ((pre @ seg) @ vs1)" "sorted (map fst vs1)" "set vs1 = insert (t + shift, x) (set vs)"
    "others_same (snd ` set ((pre @ seg) @ (t, x) # vs)) b s s1" by blast
  have times1: "track_times s1 b (pre @ seg @ vs1)" using s1(2) by simp
  have 3: "\<forall>q \<in> set seg. \<forall>p \<in> set (pre @ seg). fst p \<le> fst q + shift" and 4: "\<forall>q \<in> set seg. 0 \<le> fst q + shift"
    using snoc.prems(3,4) by simp_all
  from snoc.IH [OF times1 s1(3) 3 4] obtain s' vs' where s': "shift_behind b stop shift (last (stop # map snd seg)) s1 = Some s'"
    "track_times s' b (pre @ vs')" "sorted (map fst vs')" "set vs' = (\<lambda>p. (fst p + shift, snd p)) ` set seg \<union> set vs1"
    "others_same (snd ` set (pre @ seg @ vs1)) b s1 s'" by blast
  have "shift_behind b stop shift x s = Some s'" using x e s1(1) s'(1) by (subst shift_behind.simps) simp
  moreover have "set vs' = (\<lambda>p. (fst p + shift, snd p)) ` set (seg @ [q]) \<union> set vs" using s'(4) s1(4) q by auto
  moreover have "others_same (snd ` set (pre @ (seg @ [q]) @ vs)) b s s'"
    by (rule others_same_mono [OF others_same_trans [OF s1(5) s'(5)]]) (use s1(4) q in auto)
  ultimately show ?case using s'(2,3) q by (intro exI [of _ s'] exI [of _ vs']) simp
qed

lemma shift_before_list:
  assumes "track_holds s b (us @ seg @ vs)" "after = hd (map snd vs @ [0])" "shift < 0" "\<forall>p \<in> set us. fst p \<le> before" "0 \<le> before"
  shows "\<exists>s' us' seg1 seg2. shift_before b after before shift (hd (map snd seg @ [after])) s = Some (hd (map snd seg2 @ [after]), s')
    \<and> seg = seg1 @ seg2 \<and> track_holds s' b (us' @ seg2 @ vs) \<and> (\<forall>p \<in> set us'. fst p \<le> before)
    \<and> set us' = set us \<union> (\<lambda>p. (max 0 (fst p + shift), snd p)) ` set seg1
    \<and> (seg2 \<noteq> [] \<longrightarrow> before \<le> fst (hd seg2) + shift) \<and> others_same (snd ` set (us @ seg @ vs)) b s s'"
  using assms(1,4)
proof (induction seg arbitrary: us s)
  case Nil
  then show ?case using assms(2)
    by (intro exI [of _ s] exI [of _ us] exI [of _ "[]"]) (simp add: shift_before.simps others_same_def)
next
  case (Cons p seg)
  obtain t x where p: "p = (t, x)" by (cases p)
  have holds: "track_holds s b (us @ (t, x) # seg @ vs)" using Cons.prems(1) p by simp
  have times: "track_times s b (us @ (t, x) # seg @ vs)" using holds by (simp add: track_holds_times)
  have x: "x \<noteq> after"
  proof (cases vs)
    case Nil
    with track_times_new(2) [OF times] assms(2) show ?thesis by simp
  next
    case (Cons v ws)
    with track_times_new(1) [OF times] assms(2) show ?thesis by auto
  qed
  have nxt: "hd (map snd (seg @ vs) @ [0]) = hd (map snd seg @ [after])" using assms(2) by (cases seg) simp_all
  have list: "track_list s b (map snd us @ x # map snd (seg @ vs))" using track_times_list [OF times] by simp
  obtain e where e: "sq_events s x = Some e" "ev_time e = t" "ev_next e = hd (map snd seg @ [after])"
    using list track_timesD [OF times, of t x] nxt by (auto simp: track_list_def dseg_append)
  show ?case
  proof (cases "t + shift < before")
    case False
    have "shift_before b after before shift x s = Some (x, s)" using x e False by (subst shift_before.simps) simp
    then show ?thesis using p False Cons.prems
      by (intro exI [of _ s] exI [of _ us] exI [of _ "[]"] exI [of _ "p # seg"]) (simp add: others_same_def not_less)
  next
    case True
    let ?t = "max 0 (t + shift)"
    have t: "(if t + shift < 0 then 0 else t + shift) = ?t" "(if ?t < 0 then 0 else ?t) = ?t" by (simp_all add: max_def)
    have t0: "0 \<le> t" using track_timesD [OF times, of t x] by simp
    then have le: "?t \<le> t" using assms(3) by simp
    have sorted: "sorted (map fst (us @ (t, x) # seg @ vs))" using holds by (simp add: track_holds_def)
    then have rest: "\<forall>q \<in> set (seg @ vs). t \<le> fst q" "\<forall>q \<in> set us. fst q \<le> t" by (auto simp: sorted_append)
    obtain s1 where s1: "track_move_event b x ?t s = Some s1" "track_holds s1 b (seq_move ?t (t, x) us (seg @ vs))"
      "others_same (snd ` set (us @ (t, x) # seg @ vs)) b s s1"
      using track_move_event_list [OF holds, of ?t] by blast
    have behind: "\<not> (seg @ vs \<noteq> [] \<and> ?t > fst (hd (seg @ vs)))"
    proof
      assume late: "seg @ vs \<noteq> [] \<and> ?t > fst (hd (seg @ vs))"
      then have "hd (seg @ vs) \<in> set (seg @ vs)" by (intro hd_in_set) blast
      with rest(1) late le show False by (meson leD le_less_trans not_le)
    qed
    have "\<exists>us1. seq_move ?t (t, x) us (seg @ vs) = us1 @ seg @ vs \<and> set us1 = insert (?t, x) (set us)"
    proof (cases "us \<noteq> [] \<and> ?t < fst (last us)")
      case False
      then have "seq_move ?t (t, x) us (seg @ vs) = us @ (?t, x) # seg @ vs"
        unfolding seq_move_def Let_def t(2) using behind by (simp only: simp_thms if_False snd_conv)
      then show ?thesis by (intro exI [of _ "us @ [(?t, x)]"]) simp
    next
      case True
      then have "\<exists>q \<in> set us. \<not> fst q \<le> ?t" using last_in_set [of us] by (intro bexI [of _ "last us"]) (simp_all add: not_le)
      then have "seq_add ?t x (us @ seg @ vs) = seq_add ?t x us @ seg @ vs"
        unfolding seq_add_def by (auto simp: takeWhile_append1 dropWhile_append1)
      then have "seq_move ?t (t, x) us (seg @ vs) = seq_add ?t x us @ seg @ vs"
        unfolding seq_move_def Let_def t(2) using True by (simp only: simp_thms if_True snd_conv)
      then show ?thesis using set_seq_add [of ?t x us] unfolding t(2) by blast
    qed
    then obtain us1 where us1: "seq_move ?t (t, x) us (seg @ vs) = us1 @ seg @ vs" "set us1 = insert (?t, x) (set us)" by blast
    have 1: "track_holds s1 b (us1 @ seg @ vs)" using s1(2) unfolding us1(1) .
    have 2: "\<forall>p \<in> set us1. fst p \<le> before" using us1(2) Cons.prems(2) True assms(5) by simp
    from Cons.IH [OF 1 2] obtain s' us' seg1 seg2 where
      s': "shift_before b after before shift (hd (map snd seg @ [after])) s1 = Some (hd (map snd seg2 @ [after]), s')" "seg = seg1 @ seg2"
      "track_holds s' b (us' @ seg2 @ vs)" "\<forall>p \<in> set us'. fst p \<le> before"
      "set us' = set us1 \<union> (\<lambda>p. (max 0 (fst p + shift), snd p)) ` set seg1" "seg2 \<noteq> [] \<longrightarrow> before \<le> fst (hd seg2) + shift"
      "others_same (snd ` set (us1 @ seg @ vs)) b s1 s'" by blast
    have "shift_before b after before shift x s = Some (hd (map snd seg2 @ [after]), s')"
      by (subst shift_before.simps) (simp only: x e True t(1) s1(1) s'(1) if_True if_False bind.bind_lunit)
    moreover have "set us' = set us \<union> (\<lambda>p. (max 0 (fst p + shift), snd p)) ` set (p # seg1)" using s'(5) us1(2) p by auto
    moreover have "others_same (snd ` set (us @ (p # seg) @ vs)) b s s'"
      by (rule others_same_mono [OF others_same_trans [OF s1(3) s'(7)]]) (use us1(2) p in auto)
    ultimately show ?thesis using s'(2-4,6) p
      by (intro exI [of _ s'] exI [of _ us'] exI [of _ "p # seg1"] exI [of _ seg2]) simp
  qed
qed

subsection \<open>Shifting a segment\<close>

lemma shift_rest:
  assumes "track_times s b (pre @ sb @ vs)" "after = hd (map snd vs @ [0])" "event = hd (map snd sb @ [after])" "stop = last (0 # map snd pre)"
  shows "(if event = 0 then Some s
     else do {
       e \<leftarrow> sq_events s event;
       start \<leftarrow> (if after \<noteq> 0 then map_option ev_prev (sq_events s after) else map_option tr_last (sq_tracks s b));
       shift_behind b (ev_prev e) shift start s }) = shift_behind b stop shift (last (stop # map snd sb)) s"
proof (cases "event = 0")
  case True
  have "sb = []"
  proof (cases sb)
    case (Cons q qs)
    with assms(1,3) True track_times_new(2) [of s b pre "fst q" "snd q" "qs @ vs"] show ?thesis by simp
  qed
  with True show ?thesis by (simp add: shift_behind.simps)
next
  case False
  have list: "track_list s b (map snd pre @ map snd (sb @ vs))" using track_times_list [OF assms(1)] by simp
  have event: "event = hd (map snd (sb @ vs) @ [0])" using assms(2,3) by (cases sb) simp_all
  then obtain q qs where q: "sb @ vs = q # qs" "event = snd q" using False by (cases "sb @ vs") simp_all
  obtain e where e: "sq_events s event = Some e" "ev_prev e = stop"
    using list q assms(4) by (auto simp: track_list_def dseg_append)
  have "(if after \<noteq> 0 then map_option ev_prev (sq_events s after) else map_option tr_last (sq_tracks s b)) =
      Some (last (0 # map snd (pre @ sb)))"
  proof (cases vs)
    case Nil
    then show ?thesis using list assms(2) by (auto simp: track_list_def)
  next
    case (Cons v ws)
    with track_times_new(2) [of s b "pre @ sb" "fst v" "snd v" ws] assms(1,2) have "after = snd v" "after \<noteq> 0" by simp_all
    moreover have "track_list s b (map snd (pre @ sb) @ snd v # map snd ws)" using track_times_list [OF assms(1)] Cons by simp
    then obtain d where "sq_events s (snd v) = Some d" "ev_prev d = last (0 # map snd (pre @ sb))"
      unfolding track_list_def dseg_append dseg.simps by fastforce
    ultimately show ?thesis by simp
  qed
  moreover have "last (0 # map snd (pre @ sb)) = last (stop # map snd sb)" using assms(4) by simp
  ultimately show ?thesis using False e by (simp del: last.simps)
qed

lemma track_segment_shift_runs:
  assumes "first \<noteq> 0" "shift \<noteq> 0" "sq_events s first = Some f"
    and "(if ev_prev f = 0 then Some 0 else map_option ev_time (sq_events s (ev_prev f))) = Some before"
    and "shift_before b after before shift first s = Some (event1, s1)" "shift_in_place after to shift event1 s1 = Some (event, s2)"
    and "track_times s2 b (pre @ sb @ vs)" "after = hd (map snd vs @ [0])" "event = hd (map snd sb @ [after])" "stop = last (0 # map snd pre)"
  shows "track_segment_shift b first after to shift s = shift_behind b stop shift (last (stop # map snd sb)) s2"
  unfolding track_segment_shift_def using assms(1-6) shift_rest [OF assms(7-10), of shift]
  by (simp only: simp_thms if_True bind.bind_lunit prod.case)

lemma shifted_sorted: "sorted (map fst ps) \<Longrightarrow> sorted (map fst (map (\<lambda>p. (fst p + (shift :: 'a::linordered_field), snd p)) ps))"
  by (induction ps) auto

lemma times_sorted_append:
  "sorted (map fst (us @ vs)) \<longleftrightarrow> sorted (map fst us) \<and> sorted (map fst vs) \<and> (\<forall>p \<in> set us. \<forall>q \<in> set vs. fst p \<le> fst q)"
  by (auto simp: sorted_append)

lemma track_holds_sorted_append:
  "track_holds s b (us @ vs) \<Longrightarrow> sorted (map fst us) \<and> sorted (map fst vs) \<and> (\<forall>p \<in> set us. \<forall>q \<in> set vs. fst p \<le> fst q)"
  by (auto simp: track_holds_def sorted_append)

text \<open>
  Shifting the events of a segment: every one of them has its time moved by \<open>shift\<close>, down to zero at most,
  the other events keep theirs, and the track is in order again.
\<close>

lemma segment_shift_back:
  assumes holds: "track_holds s b (us @ seg @ vs)" and after: "after = hd (map snd vs @ [0])" and first: "first = hd (map snd seg @ [after])" "first \<noteq> 0"
    and shift: "shift < 0" and seg: "\<forall>p \<in> set seg. fst p < to" and vs: "\<forall>p \<in> set vs. to \<le> fst p"
    and f: "sq_events s first = Some f" and before: "before = fst (last ((0, 0) # us))"
      "(if ev_prev f = 0 then Some 0 else map_option ev_time (sq_events s (ev_prev f))) = Some before" "0 \<le> before"
  shows "\<exists>s' ps'. track_segment_shift b first after to shift s = Some s' \<and> track_holds s' b ps'
    \<and> set ps' = set us \<union> (\<lambda>p. (max 0 (fst p + shift), snd p)) ` set seg \<union> set vs"
proof -
  let ?g = "\<lambda>p. (max 0 (fst p + shift), snd p)" and ?f = "\<lambda>p. (fst p + shift, snd p)"
  have sorted: "sorted (map fst us)" "sorted (map fst seg)" "sorted (map fst vs)" using holds by (auto simp: track_holds_def sorted_append)
  have us: "\<forall>p \<in> set us. fst p \<le> before"
  proof (cases us rule: rev_cases)
    case (snoc ws w)
    with sorted(1) before(1) show ?thesis by (auto simp: sorted_append)
  qed simp
  from shift_before_list [OF holds after shift us before(3)] obtain s1 us' seg1 seg2 where
    1: "shift_before b after before shift first s = Some (hd (map snd seg2 @ [after]), s1)" "seg = seg1 @ seg2"
      "track_holds s1 b (us' @ seg2 @ vs)" "\<forall>p \<in> set us'. fst p \<le> before" "set us' = set us \<union> ?g ` set seg1"
      "seg2 \<noteq> [] \<longrightarrow> before \<le> fst (hd seg2) + shift" unfolding first(1) [symmetric] by blast
  have sorted2: "sorted (map fst seg2)" using sorted(2) 1(2) by (simp add: sorted_append)
  have low: "before \<le> fst p + shift" if p: "p \<in> set seg2" for p
  proof (cases seg2)
    case (Cons q qs)
    with sorted2 p have "fst q \<le> fst p" by auto
    with 1(6) Cons show ?thesis by (simp add: order_trans [of before "fst q + shift"])
  qed (use p in simp)
  have 2: "track_times s1 b (us' @ seg2 @ vs)" using 1(3) by (simp add: track_holds_times)
  have "\<forall>p \<in> set seg2. 0 \<le> fst p + shift" using low before(3) by fastforce
  from shift_in_place_list [OF 2 after this, of to] obtain s2 sa sb where
    3: "shift_in_place after to shift (hd (map snd seg2 @ [after])) s1 = Some (hd (map snd sb @ [after]), s2)" "seg2 = sa @ sb"
      "track_times s2 b (us' @ map ?f sa @ sb @ vs)" "sb \<noteq> [] \<longrightarrow> to \<le> fst (hd sb) + shift" by blast
  have sb: "sb = []"
  proof (rule ccontr)
    assume ne: "sb \<noteq> []"
    then have "hd sb \<in> set seg" using 1(2) 3(2) by simp
    with seg have "fst (hd sb) < to" by blast
    with 3(4) ne shift show False by linarith
  qed
  then have 4: "track_times s2 b ((us' @ map ?f seg2) @ [] @ vs)" using 3(2,3) by simp
  have "track_segment_shift b first after to shift s = Some s2"
    using track_segment_shift_runs [OF first(2) _ f before(2) 1(1) 3(1) 4 after _ refl] shift sb by (simp add: shift_behind.simps)
  moreover have "sorted (map fst ((us' @ map ?f seg2) @ [] @ vs))"
  proof -
    have "sorted (map fst us')" "\<forall>p \<in> set us'. \<forall>q \<in> set vs. fst p \<le> fst q" using track_holds_sorted_append [OF 1(3)] by auto
    moreover have "fst p + shift \<le> fst q" if "p \<in> set seg2" "q \<in> set vs" for p q
    proof -
      have "fst p < to" "to \<le> fst q" using that seg vs 1(2) by auto
      with shift show ?thesis by linarith
    qed
    moreover have "fst p \<le> fst q + shift" if "p \<in> set us'" "q \<in> set seg2" for p q
      using that 1(4) low order_trans by blast
    ultimately show ?thesis using shifted_sorted [OF sorted2, of shift] sorted(3)
      unfolding map_append sorted_append set_append set_map by fastforce
  qed
  moreover have "?f ` set seg2 = ?g ` set seg2"
  proof (rule image_cong [OF refl])
    fix p assume "p \<in> set seg2"
    with low before(3) have "0 \<le> fst p + shift" using order_trans by blast
    then show "?f p = ?g p" by (simp add: max_def)
  qed
  then have "set ((us' @ map ?f seg2) @ [] @ vs) = set us \<union> ?g ` set seg \<union> set vs" using 1(2,5) by (simp add: image_Un Un_assoc)
  ultimately show ?thesis using 4 unfolding track_holds_times append_Nil
    by (intro exI [of _ s2] exI [of _ "(us' @ map ?f seg2) @ vs"]) simp
qed

lemma segment_shift_forward:
  assumes holds: "track_holds s b (us @ seg @ vs)" and after: "after = hd (map snd vs @ [0])" and first: "first = hd (map snd seg @ [after])" "first \<noteq> 0"
    and shift: "0 < shift" and seg: "\<forall>p \<in> set seg. fst p < to" and vs: "\<forall>p \<in> set vs. to \<le> fst p"
    and f: "sq_events s first = Some f" and before: "before = fst (last ((0, 0) # us))"
      "(if ev_prev f = 0 then Some 0 else map_option ev_time (sq_events s (ev_prev f))) = Some before" "0 \<le> before"
  shows "\<exists>s' ps'. track_segment_shift b first after to shift s = Some s' \<and> track_holds s' b ps'
    \<and> set ps' = set us \<union> (\<lambda>p. (max 0 (fst p + shift), snd p)) ` set seg \<union> set vs"
proof -
  let ?g = "\<lambda>p. (max 0 (fst p + shift), snd p)" and ?f = "\<lambda>p. (fst p + shift, snd p)"
  have times: "track_times s b (us @ seg @ vs)" using holds by (simp add: track_holds_times)
  have order: "sorted (map fst us)" "sorted (map fst seg)" "sorted (map fst vs)" "\<forall>p \<in> set us. \<forall>q \<in> set (seg @ vs). fst p \<le> fst q"
    using track_holds_sorted_append [OF holds] by (simp_all add: sorted_append)
  have pos: "0 \<le> fst p + shift" "0 \<le> fst p" if "p \<in> set seg" for p
  proof -
    show "0 \<le> fst p" using track_timesD [OF times, of "fst p" "snd p"] that by simp
    then show "0 \<le> fst p + shift" using shift by simp
  qed
  have 1: "shift_before b after before shift first s = Some (first, s)"
  proof (cases seg)
    case Nil
    then show ?thesis using first(1) by (simp add: shift_before.simps)
  next
    case (Cons p qs)
    have "ev_time f = fst p" using track_timesD [OF times, of "fst p" "snd p"] Cons f first(1) by simp
    moreover have "before \<le> fst p"
    proof (cases us rule: rev_cases)
      case Nil
      then show ?thesis using before(1) pos(2) Cons by simp
    next
      case (snoc ws w)
      then show ?thesis using before(1) order(4) Cons by simp
    qed
    then have "\<not> fst p + shift < before" using shift by linarith
    ultimately show ?thesis using f by (subst shift_before.simps) simp
  qed
  have "\<forall>p \<in> set seg. 0 \<le> fst p + shift" using pos by blast
  from shift_in_place_list [OF times after this, of to] obtain s2 sa sb where
    2: "shift_in_place after to shift first s = Some (hd (map snd sb @ [after]), s2)" "seg = sa @ sb"
      "track_times s2 b (us @ map ?f sa @ sb @ vs)" "\<forall>p \<in> set sa. fst p + shift < to" "sb \<noteq> [] \<longrightarrow> to \<le> fst (hd sb) + shift"
    unfolding first(1) [symmetric] by blast
  have late: "to \<le> fst q + shift" if q: "q \<in> set sb" for q
  proof (cases sb)
    case (Cons p qs)
    with order(2) 2(2) q have "fst p \<le> fst q" by (auto simp: sorted_append)
    with 2(5) Cons show ?thesis by (simp add: order_trans [of to "fst p + shift"])
  qed (use q in simp)
  let ?pre = "us @ map ?f sa"
  have 3: "track_times s2 b (?pre @ sb @ vs)" using 2(3) by simp
  have early: "fst p \<le> fst q + shift" if "p \<in> set ?pre" "q \<in> set sb" for p q
  proof -
    from that(1) consider "p \<in> set us" | "fst p < to" using 2(4) by auto
    then show ?thesis
    proof cases
      case 1
      then have "fst p \<le> fst q" using order(4) that(2) 2(2) by auto
      then show ?thesis using shift by linarith
    next
      case 2
      then show ?thesis using late [OF that(2)] by linarith
    qed
  qed
  moreover have "fst p \<le> fst q + shift" if "p \<in> set sb" "q \<in> set sb" for p q
  proof -
    have "fst p < to" using seg 2(2) that(1) by simp
    then show ?thesis using late [OF that(2)] by linarith
  qed
  ultimately have 4: "\<forall>q \<in> set sb. \<forall>p \<in> set (?pre @ sb). fst p \<le> fst q + shift"
    unfolding set_append [of ?pre sb] by blast
  have 5: "\<forall>q \<in> set sb. 0 \<le> fst q + shift" using pos 2(2) by simp
  from shift_behind_list [OF 3 order(3) 4 5 refl] obtain s' vs' where
    6: "shift_behind b (last (0 # map snd ?pre)) shift (last (last (0 # map snd ?pre) # map snd sb)) s2 = Some s'"
      "track_times s' b (?pre @ vs')" "sorted (map fst vs')" "set vs' = ?f ` set sb \<union> set vs" by blast
  have run: "track_segment_shift b first after to shift s = Some s'"
    using track_segment_shift_runs [OF first(2) _ f before(2) 1 2(1) 3 after refl refl] 6(1) shift by simp
  have ordered: "sorted (map fst (?pre @ vs'))"
  proof -
    have sa: "sorted (map fst sa)" using order(2) 2(2) by (simp add: sorted_append)
    have "fst p \<le> fst q" if "p \<in> set us" "q \<in> set (map ?f sa)" for p q
    proof -
      from that(2) obtain r where r: "r \<in> set sa" "q = ?f r" by auto
      with order(4) that(1) 2(2) have "fst p \<le> fst r" by auto
      with r(2) shift show ?thesis by simp
    qed
    moreover have "fst p \<le> fst q" if pq: "p \<in> set ?pre" "q \<in> set vs'" for p q
    proof -
      from pq(2) 6(4) consider r where "r \<in> set sb" "q = ?f r" | "q \<in> set vs" by blast
      then show ?thesis
      proof cases
        case 1
        then show ?thesis using early [OF pq(1)] by simp
      next
        case 2
        from pq(1) consider "p \<in> set us" | "fst p < to" using \<open>\<forall>p \<in> set sa. fst p + shift < to\<close> by auto
        then show ?thesis
        proof cases
          case 1
          then show ?thesis using 2 order(4) by simp
        next
          case late: 2
          have "to \<le> fst q" using 2 vs by blast
          with late show ?thesis by linarith
        qed
      qed
    qed
    ultimately show ?thesis using shifted_sorted [OF sa, of shift] order(1) 6(3)
      unfolding times_sorted_append by blast
  qed
  have "?f ` set seg = ?g ` set seg"
    by (rule image_cong [OF refl]) (use pos in \<open>simp add: max_def\<close>)
  moreover have "set (?pre @ vs') = set us \<union> ?f ` set seg \<union> set vs"
    unfolding 2(2) set_append set_map 6(4) image_Un by (simp only: Un_assoc)
  ultimately have "set (?pre @ vs') = set us \<union> ?g ` set seg \<union> set vs" by simp
  then show ?thesis using 6(2) run ordered unfolding track_holds_times
    by (intro exI [of _ s'] exI [of _ "?pre @ vs'"]) simp
qed

lemma track_segment_shift_list:
  assumes holds: "track_holds s b (us @ seg @ vs)" and shift: "shift \<noteq> 0"
    and seg: "\<forall>p \<in> set seg. fst p < to" and vs: "\<forall>p \<in> set vs. to \<le> fst p"
  shows "\<exists>s' ps'. track_segment_shift b (hd (map snd (seg @ vs) @ [0])) (hd (map snd vs @ [0])) to shift s = Some s' \<and> track_holds s' b ps'
    \<and> set ps' = set us \<union> (\<lambda>p. (max 0 (fst p + shift), snd p)) ` set seg \<union> set vs"
proof (cases "seg @ vs = []")
  case True
  then show ?thesis using holds by (intro exI [of _ s] exI [of _ us]) (simp add: track_segment_shift_def)
next
  case False
  then obtain q qs where q: "seg @ vs = q # qs" by (cases "seg @ vs") auto
  have times: "track_times s b (us @ (fst q, snd q) # qs)" using holds q by (simp add: track_holds_times)
  define after where "after = hd (map snd vs @ [0])"
  have first: "snd q = hd (map snd seg @ [after])" using q by (cases seg) (auto simp: after_def)
  obtain f where f: "sq_events s (snd q) = Some f" "ev_prev f = last (0 # map snd us)"
    using track_times_list [OF times] unfolding map_append list.map snd_conv track_list_def dseg_append dseg.simps by auto
  define before where "before = fst (last ((0, 0) # us))"
  have prev: "(if ev_prev f = 0 then Some 0 else map_option ev_time (sq_events s (ev_prev f))) = Some before \<and> 0 \<le> before"
  proof (cases us rule: rev_cases)
    case (snoc ws w)
    with track_timesD [OF times, of "fst w" "snd w"] f(2) track_times_new(2) [of s b ws "fst w" "snd w" "q # qs"] times
    show ?thesis by (auto simp: before_def)
  qed (use f(2) in \<open>simp add: before_def\<close>)
  note run = holds after_def first track_times_new(2) [OF times]
  from shift have "shift < 0 \<or> 0 < shift" by linarith
  then have "\<exists>s' ps'. track_segment_shift b (snd q) after to shift s = Some s' \<and> track_holds s' b ps'
      \<and> set ps' = set us \<union> (\<lambda>p. (max 0 (fst p + shift), snd p)) ` set seg \<union> set vs"
    using segment_shift_back [OF run _ seg vs f(1) before_def] segment_shift_forward [OF run _ seg vs f(1) before_def] prev by blast
  then show ?thesis using q by (simp add: after_def)
qed

end
