(* ===== verification/SeqStretch.thy ===== *)
theory SeqStretch
  imports SeqShift
begin

text \<open>
  The messages that change the times of a segment, on the list of the whole track.
\<close>

lemma split_segment:
  assumes "track_holds s b ps" "from \<le> to"
  obtains us seg vs where "ps = us @ seg @ vs" "dropWhile (\<lambda>p. fst p < from) ps = seg @ vs" "dropWhile (\<lambda>p. fst p < to) ps = vs"
    "\<forall>p \<in> set us. fst p < from" "\<forall>p \<in> set seg. from \<le> fst p \<and> fst p < to" "\<forall>p \<in> set vs. to \<le> fst p"
proof -
  have sorted: "sorted (map fst ps)" using assms(1) by (simp add: track_holds_def)
  have late: "\<forall>p \<in> set (dropWhile (\<lambda>p. fst p < u) qs). u \<le> fst p" if "sorted (map fst qs)" for u and qs :: "('a \<times> addr) list"
    using that by (induction qs) auto
  let ?us = "takeWhile (\<lambda>p. fst p < from) ps" and ?rest = "dropWhile (\<lambda>p. fst p < from) ps"
  let ?seg = "takeWhile (\<lambda>p. fst p < to) ?rest" and ?vs = "dropWhile (\<lambda>p. fst p < to) ?rest"
  have ps: "ps = ?us @ ?rest" by simp
  have rest: "sorted (map fst ?rest)" using sorted by (subst (asm) ps, unfold times_sorted_append) blast
  have us: "\<forall>p \<in> set ?us. fst p < from" by (auto dest: set_takeWhileD)
  then have "\<forall>p \<in> set ?us. fst p < to" using assms(2) less_le_trans by blast
  then have "dropWhile (\<lambda>p. fst p < to) ps = ?vs" by (subst ps) (rule dropWhile_append2, blast)
  moreover have "\<forall>p \<in> set ?seg. from \<le> fst p \<and> fst p < to"
    using late [OF sorted] set_takeWhileD [of _ "\<lambda>p. fst p < to" ?rest] by blast
  ultimately show ?thesis using that [of ?us ?seg ?vs] us late [OF rest] by simp
qed

definition moved_segment :: "'t::linordered_field \<Rightarrow> 't \<Rightarrow> 't \<Rightarrow> 't \<times> addr \<Rightarrow> 't \<times> addr" where
  "moved_segment from to shift p = (if from \<le> fst p \<and> fst p < to then max 0 (fst p + shift) else fst p, snd p)"

lemma track_shift_nonzero:
  assumes "track_holds s b ps" "0 \<le> from" "from \<le> to" "shift \<noteq> 0"
  shows "\<exists>s' ps'. track_shift b from to shift s = Some s' \<and> track_holds s' b ps' \<and> set ps' = moved_segment from to shift ` set ps"
proof -
  obtain us seg vs where ps: "ps = us @ seg @ vs" "dropWhile (\<lambda>p. fst p < from) ps = seg @ vs" "dropWhile (\<lambda>p. fst p < to) ps = vs"
    "\<forall>p \<in> set us. fst p < from" "\<forall>p \<in> set seg. from \<le> fst p \<and> fst p < to" "\<forall>p \<in> set vs. to \<le> fst p"
    using split_segment [OF assms(1,3)] .
  let ?first = "hd (map snd (seg @ vs) @ [0])" and ?after = "hd (map snd vs @ [0])"
  have get: "track_segment_get b from to s = Some (?first, ?after)"
    using track_segment_get_list [OF assms(1-3)] ps(2,3) by simp
  have seg: "\<forall>p \<in> set seg. fst p < to" using ps(5) by blast
  obtain s' ps' where s': "track_segment_shift b ?first ?after to shift s = Some s'" "track_holds s' b ps'"
    "set ps' = set us \<union> (\<lambda>p. (max 0 (fst p + shift), snd p)) ` set seg \<union> set vs"
    using track_segment_shift_list [OF assms(1) [unfolded ps(1)] assms(4) seg ps(6)] by blast
  have "track_shift b from to shift s = track_segment_shift b ?first ?after to shift s"
    unfolding track_shift_def get by (simp add: track_segment_shift_def)
  moreover have "moved_segment from to shift ` set us = set us" "moved_segment from to shift ` set vs = set vs"
    using ps(4,6) by (force simp: moved_segment_def)+
  moreover have "moved_segment from to shift ` set seg = (\<lambda>p. (max 0 (fst p + shift), snd p)) ` set seg"
    by (rule image_cong [OF refl]) (use ps(5) in \<open>simp add: moved_segment_def\<close>)
  ultimately show ?thesis using s' ps(1) by (intro exI [of _ s'] exI [of _ ps']) (simp add: image_Un Un_assoc)
qed

lemma track_shift_list:
  assumes "track_holds s b ps" "0 \<le> from" "from \<le> to"
  shows "\<exists>s' ps'. track_shift b from to shift s = Some s' \<and> track_holds s' b ps' \<and> set ps' = moved_segment from to shift ` set ps"
proof (cases "shift = 0")
  case True
  have "moved_segment from to 0 p = p" if "p \<in> set ps" for p
    using track_holdsD [OF assms(1), of "fst p" "snd p"] that by (simp add: moved_segment_def)
  moreover have "track_shift b from to 0 s = Some s"
    using track_segment_get_list [OF assms] by (simp add: track_shift_def track_segment_shift_def)
  ultimately show ?thesis using True assms(1) by auto
qed (use track_shift_nonzero [OF assms] in blast)

subsection \<open>Stretching\<close>

lemma map_times_list:
  assumes "track_times s b (pre @ seg @ vs)" "after = hd (map snd vs @ [0])" "\<forall>p \<in> set seg. 0 \<le> f (fst p)"
  shows "\<exists>s'. map_times f after (hd (map snd seg @ [after])) s = Some (after, s')
    \<and> track_times s' b (pre @ map (\<lambda>p. (f (fst p), snd p)) seg @ vs)"
  using assms
proof (induction seg arbitrary: pre s)
  case Nil
  then show ?case by (simp add: map_times.simps)
next
  case (Cons p seg)
  obtain t x where p: "p = (t, x)" by (cases p)
  have times: "track_times s b (pre @ (t, x) # seg @ vs)" using Cons.prems(1) p by simp
  have x: "x \<noteq> after"
  proof (cases vs)
    case Nil
    with track_times_new(2) [OF times] Cons.prems(2) show ?thesis by simp
  next
    case (Cons v ws)
    with track_times_new(1) [OF times] Cons.prems(2) show ?thesis by auto
  qed
  have nxt: "hd (map snd (seg @ vs) @ [0]) = hd (map snd seg @ [after])" using Cons.prems(2) by (cases seg) simp_all
  have list: "track_list s b (map snd pre @ x # map snd (seg @ vs))" using track_times_list [OF times] by simp
  obtain e where e: "sq_events s x = Some e" "ev_time e = t" "ev_next e = hd (map snd seg @ [after])"
    using list track_timesD [OF times, of t x] nxt by (auto simp: track_list_def dseg_append)
  have "0 \<le> f t" using Cons.prems(3) p by simp
  from times_set [OF times this] obtain s1 where s1: "upd_event x (\<lambda>e. e\<lparr>ev_time := f t\<rparr>) s = Some s1"
    "track_times s1 b (pre @ (f t, x) # seg @ vs)" by blast
  have "track_times s1 b ((pre @ [(f t, x)]) @ seg @ vs)" using s1(2) by simp
  from Cons.IH [OF this Cons.prems(2)] Cons.prems(3) obtain s' where
    s': "map_times f after (hd (map snd seg @ [after])) s1 = Some (after, s')"
      "track_times s' b ((pre @ [(f t, x)]) @ map (\<lambda>p. (f (fst p), snd p)) seg @ vs)" by auto
  have "map_times f after x s = Some (after, s')" using x e s1(1) s'(1) by (subst map_times.simps) simp
  with s'(2) p show ?case by simp
qed

definition stretched :: "'t::linordered_field \<Rightarrow> 't \<Rightarrow> 't \<Rightarrow> 't \<Rightarrow> 't" where
  "stretched from to k t = (if t < from then t else if t < to then from + (t - from) * k else t + (to - from) * (k - 1))"

lemma stretched_mono:
  assumes "from \<le> to" "0 \<le> k" "t \<le> u"
  shows "stretched from to k t \<le> stretched from to k u"
proof -
  have 1: "from \<le> from + (u - from) * k" if "from \<le> u" for u using that assms(2) by simp
  have 2: "from + (t - from) * k \<le> from + (u - from) * k" if "t \<le> u" for t u
    using that assms(2) by (simp add: mult_right_mono)
  have 3: "from + (to - from) * k = to + (to - from) * (k - 1)" by (simp add: algebra_simps)
  have 4: "from + (t - from) * k \<le> u + (to - from) * (k - 1)" if "t \<le> to" "to \<le> u" for t u
    using 2 [OF that(1)] 3 that(2) by linarith
  have 5: "from \<le> u + (to - from) * (k - 1)" if "to \<le> u" for u using 1 [OF assms(1)] 3 that by linarith
  from assms(3) show ?thesis unfolding stretched_def
    using 1 [of u] 2 [of t u] 4 [of t u] 5 [of u] by (simp add: not_less) linarith
qed

lemma stretched_pos: "0 \<le> from \<Longrightarrow> from \<le> to \<Longrightarrow> 0 \<le> k \<Longrightarrow> 0 \<le> t \<Longrightarrow> 0 \<le> stretched from to k t"
  using stretched_mono [of "from" to k 0 t] by (cases "from = 0") (simp_all add: stretched_def not_less split: if_splits)

lemma sorted_map_mono: "sorted ts \<Longrightarrow> (\<And>t u. t \<le> u \<Longrightarrow> f t \<le> f u) \<Longrightarrow> sorted (map f ts)"
  by (induction ts) auto

lemma track_stretch_list:
  assumes "track_holds s b ps" "0 \<le> from" "from \<le> to"
  shows "\<exists>s'. track_stretch b from to k s = Some s' \<and> track_holds s' b (map (\<lambda>p. (stretched from to (max 0 k) (fst p), snd p)) ps)"
proof -
  obtain us seg vs where ps: "ps = us @ seg @ vs" "dropWhile (\<lambda>p. fst p < from) ps = seg @ vs" "dropWhile (\<lambda>p. fst p < to) ps = vs"
    "\<forall>p \<in> set us. fst p < from" "\<forall>p \<in> set seg. from \<le> fst p \<and> fst p < to" "\<forall>p \<in> set vs. to \<le> fst p"
    using split_segment [OF assms(1,3)] .
  let ?k = "max 0 k" and ?S = "map (\<lambda>p. (stretched from to (max 0 k) (fst p), snd p))"
  define after where "after = hd (map snd vs @ [0])"
  define first where "first = hd (map snd seg @ [after])"
  have first: "first = hd (map snd (seg @ vs) @ [0])" by (cases seg) (simp_all add: first_def after_def)
  have get: "track_segment_get b from to s = Some (first, after)"
    using track_segment_get_list [OF assms(1-3)] ps(2,3) first after_def by simp
  have times: "track_times s b (us @ seg @ vs)" using assms(1) ps(1) by (simp add: track_holds_times)
  have us: "?S us = us" using ps(4) by (induction us) (auto simp: stretched_def)
  have pos: "0 \<le> stretched from to ?k (fst p)" if "p \<in> set ps" for p
    using track_holdsD [OF assms(1), of "fst p" "snd p"] that stretched_pos [OF assms(2,3), of ?k "fst p"] by simp
  have sorted: "sorted (map fst (?S ps))"
    using assms(1) sorted_map_mono [of "map fst ps" "stretched from to ?k"] stretched_mono [OF assms(3), of ?k]
    by (simp add: track_holds_def comp_def)
  show ?thesis
  proof (cases "?k \<noteq> 1 \<and> first \<noteq> 0")
    case True
    have seg: "stretched from to ?k (fst p) = from + (fst p - from) * ?k" if "p \<in> set seg" for p
      using ps(5) that by (auto simp: stretched_def)
    have vs: "stretched from to ?k (fst p) = (to - from) * (?k - 1) + fst p" if "p \<in> set vs" for p
      using ps(6) that assms(3) by (force simp: stretched_def)
    have eq: "map (\<lambda>p. (from + (fst p - from) * ?k, snd p)) seg = ?S seg" "map (\<lambda>p. ((to - from) * (?k - 1) + fst p, snd p)) vs = ?S vs"
      using seg vs by simp_all
    have "\<forall>p \<in> set seg. 0 \<le> from + (fst p - from) * ?k" using pos seg ps(1) by force
    from map_times_list [OF times after_def this] obtain s1 where s1:
      "map_times (\<lambda>t. from + (t - from) * ?k) after first s = Some (after, s1)" "track_times s1 b (us @ ?S seg @ vs)"
      unfolding eq first_def by blast
    have "track_times s1 b ((us @ ?S seg) @ vs @ [])" using s1(2) by simp
    moreover have "\<forall>p \<in> set vs. 0 \<le> (to - from) * (?k - 1) + fst p" using pos vs ps(1) by force
    ultimately obtain s2 where s2: "map_times (\<lambda>t. (to - from) * (?k - 1) + t) 0 after s1 = Some (0, s2)"
      "track_times s2 b ((us @ ?S seg) @ ?S vs @ [])"
      using map_times_list [of s1 b "us @ ?S seg" vs "[]" 0 "\<lambda>t. (to - from) * (?k - 1) + t"] unfolding eq after_def by auto
    have "track_holds s2 b (?S ps)" using s2(2) sorted us ps(1) by (simp add: track_holds_times)
    moreover have "track_stretch b from to k s = Some s2"
      using True get s1(1) s2(1) by (auto simp: track_stretch_def track_segment_stretch_def Let_def max_def not_less le_less split: if_splits)
    ultimately show ?thesis by blast
  next
    case False
    then have "track_stretch b from to k s = Some s"
      using get by (auto simp: track_stretch_def track_segment_stretch_def Let_def max_def not_less le_less split: if_splits)
    moreover have "?S ps = ps"
    proof (cases "?k = 1")
      case True
      then have "stretched from to ?k t = t" for t by (simp only: stretched_def) simp
      then show ?thesis by simp
    next
      case False
      have "seg @ vs = []"
        using \<open>\<not> (?k \<noteq> 1 \<and> first \<noteq> 0)\<close> False first track_times_list [OF times] 
        by (cases "seg @ vs") (auto simp: track_list_def dseg_append dest: dseg_nonzero)
      then show ?thesis using us ps(1) by simp
    qed
    ultimately show ?thesis using assms(1) by simp
  qed
qed

end
