(* ===== verification/Spec2Isabelle.thy ===== *)
theory Spec2Isabelle
  imports Complex_Main Hashtable Fifo Stack AtomArray Heap FtsList SymbolTable ObjectSet Client Timebase
    MidiEvent MidiFile Classes Connection PatchGraph Outlet SendTermination PatchSend
    DspGraph DspSchedule GraphIterator DspPatch Bmax BmaxSave BmaxLoad BmaxSelection BmaxBig
    SeqSession SeqStretch
begin

text \<open>
  jMax is a visual programming environment for real-time music. Its engine FTS, written in C, is a
  set of run-time libraries (\<open>src/fts\<close>, \<open>src/include/fts\<close>), the packages of object classes built on
  them (\<open>src/packages\<close>) and a Java client that talks to the engine through a byte stream. This
  development models the engine.

  Parts and theories:
  \<^item> \<open>Prelude\<close>: bytes, 32-bit integers, addresses, C strings.
  \<^item> \<open>Atom\<close> (\<open>fts/atom.c\<close>, \<open>include/fts/atom.h\<close>, \<open>object.h\<close>): the tagged values of the engine, doubles as bit
    patterns, reference counts. The object store maps live objects to their counts; a refer or
    release of a dead object is the result \<open>None\<close>.
  \<^item> \<open>Hashtable\<close> (\<open>fts/hashtable.c\<close>): the chained hash table with its rehashing and its iterator; the
    lemmas refine it to a finite map over keys up to the code's equality, as an interpretation of the
    locale \<open>key_table\<close>.
  \<^item> \<open>Heap\<close> (\<open>fts/mem.c\<close>): the block allocator with the free list threaded through memory.
  \<^item> \<open>Fifo\<close>, \<open>Stack\<close>, \<open>AtomArray\<close>, \<open>FtsList\<close> (\<open>fts/fifo.c\<close>, \<open>stack.c\<close>, \<open>array.c\<close>, \<open>list.c\<close>): the containers. The ring
    buffer is a step relation of a writer and a reader, the stack and the array are refined to lists,
    the array with exact reference counts.
  \<^item> \<open>SymbolTable\<close>, \<open>ObjectSet\<close> (\<open>fts/symbol.c\<close>, \<open>objectset.c\<close>, \<open>objectlist.c\<close>): users of the hash table;
    symbols are equal as pointers exactly when their strings are, and the messages of an object set
    keep a mirror of it up to date.
  \<^item> \<open>Protocol\<close> (\<open>fts/binaryprotocol.c\<close>): the wire format, encoder and byte-driven decoder automaton with
    the symbol caches of both ends. What the decoder does at the end of an object or a message is a
    parameter of the locale \<open>wire_decoder\<close>, which is interpreted for the plain protocol and for the client.
  \<^item> \<open>Client\<close> (\<open>fts/client.c\<close>): the table of clients, the object ids, sending and receiving of messages.
  \<^item> \<open>Timebase\<close> (\<open>fts/time.c\<close>): the scheduler: time-ordered queues of calls, slaves, advance and locate.
  \<^item> \<open>MidiEvent\<close> (\<open>fts/midievent.c\<close>): MIDI events and the MIDI byte parser.
  \<^item> \<open>MidiFile\<close> (\<open>fts/midifile.c\<close>): reading and writing of standard MIDI files, with the tempo map,
    whose read pointer follows entries that are added while a track is read. Times are rationals instead of doubles.

  \<^item> \<open>Classes\<close> (\<open>fts/class.c\<close>): classes, the table of their methods, the declarations of inlets and outlets.
  \<^item> \<open>Connection\<close> (\<open>fts/connection.c\<close>, the inlets and outlets of \<open>patcherobject.c\<close>, \<open>errobj.c\<close>): the connections of a
    patch as nodes of two linked lists each, on the level of the pointers, and the invariant \<open>linked\<close>.
  \<^item> \<open>PatchGraph\<close>: the graph of ordered edges that a patch stands for, and the refinement of all edits.
  \<^item> \<open>Outlet\<close> (\<open>fts/outlet.c\<close>, \<open>fts/message.c\<close>): sending through outlets, with the caches of the connections and the
    object stack; \<open>SendTermination\<close> shows when a send returns, \<open>PatchSend\<close> puts edits and sends together.
  \<^item> \<open>DspGraph\<close> (\<open>fts/dspgraph.c\<close>): the compiler of the graph of signal objects, with the allotment of the signal
    buffers, and the meaning of the chain of calls that it emits. \<open>DspSchedule\<close> proves it: topological order,
    exactly the objects behind a loop are left out, and every call reads the sums of what its
    predecessors wrote although buffers are reused, for objects that do not change the vector size and edges
    that end at signal inlets (\<open>graph_ok\<close>). \<open>GraphIterator\<close> is the walk over the connections that finds
    the edges, with its termination, and \<open>DspPatch\<close> (\<open>fts/dsp.c\<close>) puts it on top of a patch.

  \<^item> \<open>Bmax\<close> (\<open>fts/bmaxfile.c\<close>): the stack machine that runs the code of a patcher file, files of version 1 included;
    \<open>BmaxSave\<close>: the saver, which turns a patcher into code and a table of symbols, and the file. \<open>BmaxLoad\<close> shows what
    the machine does with saved code. \<open>BmaxSelection\<close> (\<open>fts/selection.c\<close>, \<open>fts/clipboard.c\<close>): copy and paste.
    \<open>BmaxBig\<close>: patchers with more objects than the machine can count.

  \<^item> \<open>SeqTrack\<close> (\<open>packages/sequence/c/src/track.c\<close>, \<open>event.c\<close>): the tracks of the sequence package, doubly linked lists of
    events in order of time, on the level of the pointers. \<open>SeqOrder\<close>, \<open>SeqOps\<close> and \<open>SeqMerge\<close> show what the
    operations do to sorted lists, \<open>SeqSession\<close> puts them in sequence, \<open>SeqShift\<close> and \<open>SeqStretch\<close> are about
    segments, where the list is out of order between the loops. The loops are partial functions, which
    return for every linked list (C29, C40). Times are of an ordered type; where they are
    computed, of an ordered field, whose laws doubles obey up to rounding.

  Conventions: a C struct is a record, an enum a datatype, pointers are addresses (naturals, 0 is
  NULL), machine integers are words where their width matters. A function that can run into
  undefined behaviour (a null or dangling pointer, an index out of bounds, an uninitialised read)
  returns an option, with \<open>None\<close> for undefined behaviour. Loops are structural recursions, or functions
  with a measure. \<open>fire_entries\<close> and \<open>retime_entries\<close> of \<open>Timebase\<close> carry a bound on the number of turns, because a
  called method may schedule new calls forever; the length of the queue is enough when the methods
  schedule nothing before the end of the tick, and the due calls are then made in the order of the queue (C11). A send carries fuel because methods may send
  in a cycle: for methods that send values, without input handlers, some fuel is enough (C1), with
  input handlers none may be (C25). \<open>iterate\<close> of \<open>Hashtable\<close> is bounded by the number of
  cells plus one. The depth first search of the DSP compiler has the number of objects plus one as its
  fuel, which is enough (C2); the graph iterator is a partial function that returns
  (C7). Hosts are little-endian and ILP32, as the code assumes.

  Not under \<open>src\<close>, or left abstract, and so parameters: \<open>malloc\<close> (the fresh addresses \<open>M\<close> and \<open>mem\<close>), the hash
  and equality functions of user classes (\<open>class_env\<close>), the tokenizer (\<open>T\<close>, generated by flex), the tick
  and locate methods of timebases, the methods that the scheduler calls (\<open>H\<close>, the operations they
  perform on the timebase), the methods of the classes of a patch (\<open>M\<close>, the computations and outputs they
  perform) the functions that declare the classes, the outlets that a propagating object passes a signal on to (\<open>P\<close>), what a signal object computes in a tick (\<open>dsp_sem\<close>), and the
  creation of objects, their methods, their properties and the redefinitions of objects that they cause while a
  patcher is loaded (\<open>loader_ops\<close>; the theorems on loading are for loads that redefine nothing, \<open>quiet\<close>).

  The theorems below are the properties of the components, in the order of their importance. Each
  rests on the lemmas of its component's theory. The witnesses apply them to concrete data.

  Not modelled: the Java client (\<open>src/java\<close>), the C++ client library, the audio and MIDI drivers
  and other system glue (\<open>src/fts/linux.c\<close> and its like), the DSP code of the signal packages
  (floating-point), the graphical objects, the patcher object itself, the text loader \<open>patfile.c\<close>, and the object
  packages but for the tracks.
\<close>

subsection \<open>Classes, connections and messages in a patch\<close>

definition blank_class :: fts_class where
  "blank_class = \<lparr>cl_name = 0, cl_size = 0, cl_methods = None, cl_input_handler = None, cl_ninlets = 0,
     cl_noutlets = 0, cl_out_alloc = 0, cl_outlets = None, cl_import_handlers = Map.empty,
     cl_export_handlers = Map.empty, cl_doc = []\<rparr>"

definition class_of_decls :: "class_decl list \<Rightarrow> fts_class" where
  "class_of_decls ds = the (class_declares id (fts_class_init blank_class 1) ds)"

definition one_class_world :: "fts_class \<Rightarrow> patch_world" where
  "one_class_world cl =
     \<lparr>w_env = \<lparr>obj_class = \<lambda>_. 0, class_hash = \<lambda>_ _. 0, class_equals = \<lambda>_ x y. x = y\<rparr>,
      w_classes = \<lambda>_. cl, w_error_class = 1, w_signal_class = 2, w_s_propagate_input = 300\<rparr>"

definition thru_class :: fts_class where
  "thru_class = class_of_decls [DInlet 0 (Some IntClass) 7, DInletThru 1, DOutlet 0 (Some IntClass), DMessage 400 None 8]"

definition handler_class :: fts_class where
  "handler_class = class_of_decls [DInputHandler 7, DOutlet 0 (Some IntClass)]"

definition thru_methods :: "nat methods" where
  "thru_methods m x s args u i = Output (u + 1) x (OutAtom 0 (AInt (word_of_int i))) (\<lambda>u' j. Finish u')"

definition sample_machine :: "patch \<Rightarrow> nat machine" where
  "sample_machine s = \<lparr>m_user = 0, m_patch = s, m_top = 0, m_stack = \<lambda>_. 0, m_errors = []\<rparr>"

lemma class_of_decls_ok:
  assumes "list_all decl_ok ds"
  shows "class_declares id (fts_class_init blank_class 1) ds = Some (class_of_decls ds) \<and>
    class_abs (class_of_decls ds) (fold (\<lambda>d S. spec_declare S d) ds spec_init)"
  using class_declares_abs [OF class_abs_init [of 1 blank_class] assms, of id] by (auto simp: class_of_decls_def)

lemma one_class_world_ok: "list_all decl_ok ds \<Longrightarrow> world_ok (one_class_world (class_of_decls ds))"
  using class_of_decls_ok [of ds] by (auto simp: world_ok_def one_class_world_def)

lemma thru_world_ok: "world_ok (one_class_world thru_class)"
  unfolding thru_class_def by (rule one_class_world_ok) (simp add: CLASS_INLET_MAX_def)

lemma thru_world_eval:
  "object_class (one_class_world thru_class) x = thru_class" "fts_object_is_error (one_class_world thru_class) x = False"
  "cl_ninlets thru_class = 2" "cl_noutlets thru_class = 1" "cl_input_handler thru_class = None"
proof -
  show "cl_ninlets thru_class = 2" "cl_noutlets thru_class = 1" "cl_input_handler thru_class = None"
    by code_simp+
qed (simp_all add: object_class_def fts_object_is_error_def one_class_world_def)

lemmas graph_eval = g_new_def g_data_def g_accepts_def g_joined_def g_add_def g_outlets_def g_inlets_def g_set_outlets_def
  g_set_inlets_def g_cut_def graph_empty_def Let_def thru_world_eval fts_c_null_def fts_c_anything_def

lemma thru_world_check:
  "connection_check (one_class_world thru_class) x 0 y 0 = Some True"
  "connection_check (one_class_world thru_class) x 0 y 1 = Some False"
proof -
  have "connection_check (one_class_world thru_class) 0 0 0 0 = Some True"
    "connection_check (one_class_world thru_class) 0 0 0 1 = Some False" by code_simp+
  then show "connection_check (one_class_world thru_class) x 0 y 0 = Some True"
    "connection_check (one_class_world thru_class) x 0 y 1 = Some False" by (simp_all add: connection_check_def thru_world_eval)
qed

lemma thru_methods_ok: "value_methods thru_methods" "methods_ok thru_methods"
proof -
  show "value_methods thru_methods" by (simp add: value_methods_def thru_methods_def)
  then show "methods_ok thru_methods" by (rule value_methods_ok)
qed

lemma thru_no_handlers: "no_handlers (one_class_world thru_class)"
  by (simp add: no_handlers_def one_class_world_def thru_world_eval(5))

definition sample_edits :: "patch_op list" where
  "sample_edits = [NewConnection 1 0 2 0 0, NewConnection 1 0 3 1 0, NewConnection 1 0 2 0 0, DeleteConnection 1 0 9 0,
     SetInlets 3 1, SetOutlets 4 1, NewConnection 1 0 3 0 0]"

text \<open>
  C1: In any session that starts with an empty patch and mixes edits with sends of values, every
  step returns, cycles of connections included, and the patch is the graph that the edits describe,
  if no class has an input handler and methods send only values.
\<close>

theorem session_returns:
  assumes "world_ok W" "no_handlers W" "value_methods M" "list_all step_ok steps" "m_patch st = patch_empty"
  shows "\<exists>st'. settles (\<lambda>n. session_run W M n steps st) st' \<and> m_top st' = m_top st \<and>
    modelled (m_patch st') (fold (graph_apply W) (edits_of steps) graph_empty)"
  using session_settles [OF assms(1-4), of st graph_empty] modelledI [OF models_empty] assms(5)
  by (simp add: caches_ok_def patch_empty_def)

theorem session_returns_witness:
  "\<exists>st'. settles (\<lambda>n. session_run (one_class_world thru_class) thru_methods n
      [Edit (NewConnection 1 0 1 0 0), Send 1 (OutInt 0 5), Edit (NewConnection 1 0 2 0 0), Send 1 (OutBang 0)]
      (sample_machine patch_empty)) st' \<and>
    m_top st' = 0 \<and>
    modelled (m_patch st') (fold (graph_apply (one_class_world thru_class)) [NewConnection 1 0 1 0 0, NewConnection 1 0 2 0 0] graph_empty)"
  using session_returns [OF thru_world_ok thru_no_handlers thru_methods_ok(1), of
      "[Edit (NewConnection 1 0 1 0 0), Send 1 (OutInt 0 5), Edit (NewConnection 1 0 2 0 0), Send 1 (OutBang 0)]"
      "sample_machine patch_empty"]
  by (simp add: sample_machine_def)

text \<open>
  C6: Edits of a patch (connecting, disconnecting, changing the number of inlets and outlets,
  removing objects, with error objects) always succeed on the linked lists and have the effect of
  the same edits on a graph of ordered edges; a lookup finds a connection exactly when the graph has
  the edge.
\<close>

theorem patch_refines_graph:
  assumes "world_ok W" "list_all edit_ok ops"
  defines "G \<equiv> fold (graph_apply W) ops graph_empty"
  shows "\<exists>s. patch_run W ops patch_empty = Some s \<and> modelled s G \<and>
    (\<forall>x. fts_object_get_inlets_number x s = g_inlets G x \<and> fts_object_get_outlets_number x s = g_outlets G x) \<and>
    (\<forall>src i dst j. 0 \<le> i \<and> i < g_outlets G src \<longrightarrow>
       (\<exists>r. fts_connection_get src i dst j s = Some r \<and> (r \<noteq> None \<longleftrightarrow> g_joined G src i dst j)))"
proof -
  obtain s where s: "patch_run W ops patch_empty = Some s" "modelled s G"
    using patch_run_spec [OF modelledI [OF models_empty] assms(1,2)] unfolding G_def by blast
  then obtain outs ins where m: "models s outs ins G" by (auto simp: modelled_def)
  have "\<exists>r. fts_connection_get src i dst j s = Some r \<and> (r \<noteq> None \<longleftrightarrow> g_joined G src i dst j)"
    if "0 \<le> i \<and> i < g_outlets G src" for src i dst j
    using connection_get_spec [OF m, of i src dst j] that by (auto simp: models_numbers [OF m])
  with s models_numbers [OF m] show ?thesis by auto
qed

theorem patch_refines_graph_witness:
  "\<exists>s. patch_run (one_class_world thru_class) sample_edits patch_empty = Some s \<and>
    modelled s (fold (graph_apply (one_class_world thru_class)) sample_edits graph_empty) \<and>
    g_targets (fold (graph_apply (one_class_world thru_class)) sample_edits graph_empty) (1, 0) = [(3, 0, 0), (2, 0, 0)] "
proof -
  have "g_targets (fold (graph_apply (one_class_world thru_class)) sample_edits graph_empty) (1, 0) = [(3, 0, 0), (2, 0, 0)]"
    by (simp add: sample_edits_def graph_eval thru_world_check)
  with patch_refines_graph [OF thru_world_ok, of sample_edits] show ?thesis by (auto simp: sample_edits_def)
qed

text \<open>
  C10: In every patch that edits can make, the list of each outlet and of each inlet is finite and
  its connections are those that start or end there, each in both of its lists, and no two
  connections of an outlet join the same ports.
\<close>

theorem patch_links_consistent:
  assumes "world_ok W" "list_all edit_ok ops" "patch_run W ops patch_empty = Some s"
  shows "\<exists>outs ins. (\<forall>x i h. out_head s x i = Some h \<longrightarrow> linked_list (nxt_src s) h (outs (x, i))) \<and>
    (\<forall>x i h. in_head s x i = Some h \<longrightarrow> linked_list (nxt_dst s) h (ins (x, i))) \<and>
    (\<forall>x i c. c \<in> set (outs (x, i)) \<longrightarrow> (\<exists>k. conns s c = Some k \<and> (c_src k, c_woutlet k) = (x, i) \<and> c \<in> set (ins (c_dst k, c_winlet k)))) \<and>
    (\<forall>y j c. c \<in> set (ins (y, j)) \<longrightarrow> (\<exists>k. conns s c = Some k \<and> (c_dst k, c_winlet k) = (y, j) \<and> c \<in> set (outs (c_src k, c_woutlet k)))) \<and>
    (\<forall>p. distinct (map (\<lambda>c. ends s c) (outs p)))"
proof -
  obtain outs ins where l: "linked s outs ins"
    using patch_run_spec [OF modelledI [OF models_empty] assms(1,2)] assms(3) by (auto simp: modelled_def models_def)
  note parts = linked_parts [OF l]
  have d: "distinct (map (\<lambda>c. ends s c) (outs p))" for p
  proof -
    have "set (outs p) \<subseteq> live_conns outs" by (auto simp: live_conns_def)
    moreover have "inj_on (ends s) (live_conns outs)" using parts(4) by (simp add: ends_ok_def)
    ultimately show ?thesis
      using ports_distinct [OF parts(2,3), of p] inj_on_subset by (auto simp: distinct_map)
  qed
  have o: "\<exists>k. conns s c = Some k \<and> (c_src k, c_woutlet k) = (x, i) \<and> c \<in> set (ins (c_dst k, c_winlet k))"
    if c: "c \<in> set (outs (x, i))" for x i c
  proof -
    obtain y j where "ends s c = Some (x, i, y, j)" "c \<in> set (ins (y, j))" using ends_okD(1) [OF parts(4) c] by blast
    then show ?thesis by (auto simp: ends_def)
  qed
  have i: "\<exists>k. conns s c = Some k \<and> (c_dst k, c_winlet k) = (y, j) \<and> c \<in> set (outs (c_src k, c_woutlet k))"
    if c: "c \<in> set (ins (y, j))" for y j c
  proof -
    obtain x i where "ends s c = Some (x, i, y, j)" "c \<in> set (outs (x, i))" using ends_okD(2) [OF parts(4) c] by blast
    then show ?thesis by (auto simp: ends_def)
  qed
  show ?thesis
    by (rule exI [of _ outs], rule exI [of _ ins]) (intro conjI allI impI o i d out_list [OF l] in_list [OF l])
qed

theorem patch_links_consistent_witness:
  "\<exists>s h cs. patch_run (one_class_world thru_class) sample_edits patch_empty = Some s \<and>
    out_head s 1 0 = Some h \<and> linked_list (nxt_src s) h cs \<and> distinct (map (\<lambda>c. ends s c) cs)"
proof -
  have ok: "list_all edit_ok sample_edits" by (simp add: sample_edits_def)
  let ?G = "fold (graph_apply (one_class_world thru_class)) sample_edits graph_empty"
  obtain s where s: "patch_run (one_class_world thru_class) sample_edits patch_empty = Some s" "modelled s ?G"
    using patch_run_spec [OF modelledI [OF models_empty] thru_world_ok ok] by blast
  then obtain outs ins where m: "models s outs ins ?G" by (auto simp: modelled_def)
  have "g_outlets ?G 1 = 1" by (simp add: sample_edits_def graph_eval thru_world_check)
  then obtain h where "out_head s 1 0 = Some h"
    using out_head_range [OF linked_parts(1) [OF models_linked [OF m]], of 1 0] models_numbers [OF m] by auto
  with patch_links_consistent [OF thru_world_ok ok s(1)] s(1) show ?thesis by blast
qed

text \<open>
  C9: Sending with the message caches of the connections has the same outcome and the same effects
  as looking up every method anew, and leaves the caches in order.
\<close>

theorem cache_transparent:
  assumes "methods_ok M" "caches_ok W (m_patch st)" "cmd_ok cmd"
  shows "send W (plain_lookup W) M n x cmd (erase st) = map_outcome erase (send W (cached_lookup W) M n x cmd st) \<and>
    (case send W (cached_lookup W) M n x cmd st of Done st' \<Rightarrow> caches_ok W (m_patch st') | _ \<Rightarrow> True)"
  using send_follows [OF assms, of n x] by (auto simp: follows_def split: outcome.split)

theorem cache_transparent_witness:
  "\<exists>s. patch_run (one_class_world thru_class) sample_edits patch_empty = Some s \<and>
    send (one_class_world thru_class) (plain_lookup (one_class_world thru_class)) thru_methods 9 1 (OutInt 0 5) (erase (sample_machine s)) =
    map_outcome erase (send (one_class_world thru_class) (cached_lookup (one_class_world thru_class)) thru_methods 9 1 (OutInt 0 5) (sample_machine s))"
proof -
  obtain s where s: "patch_run (one_class_world thru_class) sample_edits patch_empty = Some s"
    using patch_run_spec [OF modelledI [OF models_empty] thru_world_ok, of sample_edits] by (auto simp: sample_edits_def)
  have "caches_ok (one_class_world thru_class) s"
    using s by (rule patch_run_caches) (simp add: caches_ok_def patch_empty_def)
  with cache_transparent [OF thru_methods_ok(2), of "one_class_world thru_class" "sample_machine s" "OutInt 0 5" 9 1] s
  show ?thesis by (simp add: sample_machine_def)
qed

text \<open>
  C21: A send that returns leaves the call depth, the object stack below it and all connections as
  they were, and only adds to the error log, whatever the methods do with their own state.
\<close>

theorem send_preserves:
  assumes "send W L M n x cmd st = Done st'"
  shows "m_top st' = m_top st \<and> (\<forall>i < m_top st. m_stack st' i = m_stack st i) \<and>
    same_links (m_patch st) (m_patch st') \<and> (\<exists>es. m_errors st' = m_errors st @ es)"
  using send_keeps [OF assms] unfolding keeps_def .

theorem send_preserves_witness:
  "\<exists>n s st'. patch_run (one_class_world thru_class) [NewConnection 1 0 1 0 0] patch_empty = Some s \<and>
    send (one_class_world thru_class) (cached_lookup (one_class_world thru_class)) thru_methods n 1 (OutInt 0 5) (sample_machine s) = Done st' \<and>
    m_top st' = 0 \<and> same_links s (m_patch st')"
proof -
  let ?W = "one_class_world thru_class" and ?ops = "[NewConnection 1 0 1 0 0]"
  have ops: "list_all edit_ok ?ops" by simp
  obtain s where s: "patch_run ?W ?ops patch_empty = Some s" "modelled s (fold (graph_apply ?W) ?ops graph_empty)"
    using patch_run_spec [OF modelledI [OF models_empty] thru_world_ok ops] by blast
  have "caches_ok ?W s"
    using s(1) by (rule patch_run_caches) (simp add: caches_ok_def patch_empty_def)
  then have "can_send ?W (sample_machine s)" using s(2) by (intro modelled_can_send) (simp_all add: sample_machine_def)
  from send_returns [OF thru_methods_ok(1) thru_no_handlers this, of "OutInt 0 5" 1]
  obtain st' n where n: "send ?W (cached_lookup ?W) thru_methods n 1 (OutInt 0 5) (sample_machine s) = Done st'"
    using settles_at by fastforce
  have "m_top st' = 0" "same_links s (m_patch st')" using send_preserves [OF n] by (simp_all add: sample_machine_def)
  with n s(1) show ?thesis by blast
qed

text \<open>
  C20: A class that is built by declarations answers requests for message methods, inlet methods and
  outlet types like three separate tables, although messages and inlets share one hashtable of
  pointer keys.
\<close>

theorem class_tables:
  assumes "sz \<noteq> 0" "list_all decl_ok ds"
  defines "S \<equiv> fold (\<lambda>d S. spec_declare S d) ds spec_init"
  shows "\<exists>cl'. class_declares inst (fts_class_init cl sz) ds = Some cl' \<and>
    (\<forall>s t. int s > CLASS_INLET_MAX \<longrightarrow> fts_class_get_method cl' s t = spec_method S s t) \<and>
    (sp_ninlets S > 0 \<longrightarrow> (\<forall>w t. fts_class_get_inlet_method cl' w t = spec_inlet_method S w t)) \<and>
    (\<forall>E w t. fts_class_outlet_has_type E cl' w t = Some (t \<in> set (spec_declarations S w)))"
proof -
  obtain cl' where cl': "class_declares inst (fts_class_init cl sz) ds = Some cl'" "class_abs cl' S"
    using class_declares_abs [OF class_abs_init [OF assms(1)] assms(2)] unfolding S_def by blast
  then show ?thesis by (simp add: abs_get_method abs_get_inlet_method abs_has_type)
qed

theorem class_tables_witness:
  "\<exists>cl'. class_declares id (fts_class_init blank_class 1) [DInlet 300 None 7, DMessage 400 (Some IntClass) 8, DOutlet 2 None] = Some cl' \<and>
    fts_class_get_inlet_method cl' 1000 (Some IntClass) = Some 7 \<and> fts_class_get_inlet_method cl' 1000 (Some VoidClass) = None \<and>
    fts_class_get_method cl' 400 (Some IntClass) = Some 8 \<and> fts_class_get_method cl' 400 None = None \<and>
    fts_class_outlet_has_type (w_env (one_class_world cl')) cl' 9 None = Some True"
  using class_tables [of 1 "[DInlet 300 None 7, DMessage 400 (Some IntClass) 8, DOutlet 2 None]" id blank_class]
  by (auto simp: CLASS_INLET_MAX_def spec_method_def spec_inlet_method_def spec_inlet_def spec_declarations_def spec_init_def clip_max_def)

lemma handler_world_ok: "world_ok (one_class_world handler_class)"
  unfolding handler_class_def by (rule one_class_world_ok) simp

lemma handler_world_eval:
  "object_class (one_class_world handler_class) x = handler_class" "fts_object_is_error (one_class_world handler_class) x = False"
  "cl_ninlets handler_class = 1" "cl_noutlets handler_class = 1" "cl_input_handler handler_class = Some 7"
  "connection_check (one_class_world handler_class) x 0 y 0 = Some True"
proof -
  show "cl_ninlets handler_class = 1" "cl_noutlets handler_class = 1" "cl_input_handler handler_class = Some 7"
    by code_simp+
  have "connection_check (one_class_world handler_class) 0 0 0 0 = Some True" by code_simp
  then show "connection_check (one_class_world handler_class) x 0 y 0 = Some True"
    by (simp add: connection_check_def object_class_def one_class_world_def)
qed (simp_all add: object_class_def fts_object_is_error_def one_class_world_def)

text \<open>
  C25: A send to an object whose input handler sends on through an outlet that is connected back to
  the object never returns: calls of input handlers are not counted on the object stack.
\<close>

theorem handler_cycle:
  assumes "cl_input_handler (object_class W x) = Some h" "echoes M h x i" "self_loop x i st"
  shows "send W (cached_lookup W) M n x (OutAtom i a) st = NoFuel"
  using handler_loops [OF assms] by blast

theorem handler_cycle_witness:
  "\<exists>s. patch_run (one_class_world handler_class) [NewConnection 1 0 1 0 0] patch_empty = Some s \<and>
    (\<forall>n. send (one_class_world handler_class) (cached_lookup (one_class_world handler_class)) thru_methods n 1
           (OutAtom 0 (AInt 5)) (sample_machine s) = NoFuel)"
proof -
  let ?W = "one_class_world handler_class" and ?ops = "[NewConnection 1 0 1 0 0]"
  let ?G = "fold (graph_apply ?W) ?ops graph_empty"
  obtain s where s: "patch_run ?W ?ops patch_empty = Some s" "modelled s ?G"
    using patch_run_spec [OF modelledI [OF models_empty] handler_world_ok, of ?ops] by auto
  then obtain outs ins where m: "models s outs ins ?G" by (auto simp: modelled_def)
  have G: "g_targets ?G (1, 0) = [(1, 0, 0)]" "g_outlets ?G 1 = 1"
    by (simp_all add: graph_eval handler_world_eval)
  obtain c k where "out_head s 1 0 = Some (Some c)" "conns s c = Some k" "c_dst k = 1"
    using live_target [OF m G(1)] by blast
  then have "self_loop 1 0 (sample_machine s)"
    using G(2) models_numbers [OF m] by (auto simp: self_loop_def check_outlet_def FTS_REACHED_MAX_CALL_DEPTH_def
        FTS_CALL_DEPTH_def sample_machine_def)
  moreover have "echoes thru_methods 7 1 0" by (simp add: echoes_def thru_methods_def)
  ultimately show ?thesis
    using handler_cycle [of ?W 1 7 thru_methods 0 "sample_machine s"] s(1) handler_world_eval(1,5) by auto
qed

definition redefine_edits :: "patch_op list" where
  "redefine_edits = [NewConnection 1 0 2 0 0, NewConnection 1 0 3 0 0, SetOutlets 4 1]"

text \<open>
  C26: Moving the connections of an outlet to a new object, as the redefinition of an object does,
  makes the new outlet send in the reverse order.
\<close>

theorem redefinition_reverses:
  assumes "modelled s G" "world_ok W" "old \<noteq> new" "\<not> fts_object_is_error W new"
    and "0 \<le> i" "i < g_outlets G old" "i < g_outlets G new" "g_targets G (new, i) = []"
    and "list_all (\<lambda>(y, j, ty). ty \<ge> fts_c_anything \<and> \<not> fts_object_is_error W y \<and> connection_check W new i y j = Some True)
           (g_targets G (old, i))"
  shows "\<exists>s' G'. move_outlet W old new i s = Some s' \<and> modelled s' G' \<and>
    g_targets G' (old, i) = [] \<and> g_targets G' (new, i) = rev (g_targets G (old, i))"
proof -
  obtain outs ins where m: "models s outs ins G" using assms(1) by (auto simp: modelled_def)
  show ?thesis
    using move_outlet_spec [OF m assms(2-7) refl assms(8)] assms(9) by (fastforce simp: list_all_iff)
qed

theorem redefinition_reverses_witness:
  "\<exists>s s' G'. patch_run (one_class_world thru_class) redefine_edits patch_empty = Some s \<and>
    move_outlet (one_class_world thru_class) 1 4 0 s = Some s' \<and> modelled s' G' \<and> g_targets G' (1, 0) = [] \<and>
    g_targets G' (4, 0) = rev (g_targets (fold (graph_apply (one_class_world thru_class)) redefine_edits graph_empty) (1, 0)) \<and>
    g_targets G' (4, 0) = [(2, 0, 0), (3, 0, 0)]"
proof -
  let ?G = "fold (graph_apply (one_class_world thru_class)) redefine_edits graph_empty"
  obtain s where s: "patch_run (one_class_world thru_class) redefine_edits patch_empty = Some s" "modelled s ?G"
    using patch_run_spec [OF modelledI [OF models_empty] thru_world_ok, of redefine_edits] by (auto simp: redefine_edits_def)
  have G: "g_targets ?G (1, 0) = [(3, 0, 0), (2, 0, 0)]" "g_targets ?G (4, 0) = []" "g_outlets ?G 1 = 1" "g_outlets ?G 4 = 1"
    by (simp_all add: redefine_edits_def graph_eval thru_world_check)
  show ?thesis
    using redefinition_reverses [OF s(2) thru_world_ok, of 1 4 0] s(1) G
    by (fastforce simp: thru_world_eval thru_world_check fts_c_anything_def)
qed

subsection \<open>The DSP graph\<close>

definition chain_ok :: "dsp_world \<Rightarrow> 'v dsp_sem \<Rightarrow> obj list \<Rightarrow> dsp_state \<Rightarrow> bool" where
  "chain_ok D X objects st \<longleftrightarrow>
     (\<exists>mem tr. run_chain X (d_chain st) = (mem, tr) \<and> trace_ok D X objects tr \<and>
        fst ` set tr = set objects \<inter> Wellfounded.acc (precedes D objects)) \<and>
     d_errs st = map LoopInGraph (filter (\<lambda>x. x \<notin> Wellfounded.acc (precedes D objects)) objects)"

text \<open>
  C2: If all edges end at signal inlets of listed objects and no object changes the vector size, the
  compiled chain calls each object that is not behind a loop once, after its predecessors, and each
  inlet reads the sum of the connected outlets in this tick; exactly the objects behind a loop are
  reported. In \<open>graph_ok\<close>: the edges of the listed objects go to leading signal inlets
  (\<open>ninputs\<close>) of listed objects, and no object has a resampling factor other than 0.
  With up~, down~ or fft~ objects the compiler may also refuse an object because of the vector sizes
  of its inputs (\<open>gen_outputs\<close>), and dspgraph.c does not check the number of an inlet.
  The buffers of signals that nobody will read any more are used again.
\<close>

theorem dsp_chain_correct:
  assumes "graph_ok D objects" "sem_ok D X" "0 \<le> tick" "d_errs st = []" "\<not> d_compiled st"
  shows "\<exists>st'. fts_dsp_graph_compile D tick objects st = Some st' \<and> chain_ok D X objects st' \<and> d_compiled st'"
  using compile_spec [OF assms] by (force simp: chain_ok_def)

definition sample_dsp :: dsp_world where
  "sample_dsp =
     \<lparr>dw_edges = \<lambda>x i. (case map_of [((2, 0), [(4, 0)]), ((3, 0), [(4, 0)]), ((4, 0), [(5, 0)]), ((6, 0), [(7, 0)]), ((7, 0), [(6, 0)])] (x, i) of None \<Rightarrow> [] | Some ds \<Rightarrow> ds),
      dw_forcing = \<lambda>_ _ _ _. False, dw_ninputs = \<lambda>_. 1, dw_noutputs = \<lambda>_. 1, dw_resamp = \<lambda>_. 0\<rparr>"

definition sample_sem :: "int dsp_sem" where
  "sample_sem = \<lparr>ds_fun = \<lambda>x vs. [sum_list vs + int x], ds_add = (+), ds_mem = \<lambda>_. 0\<rparr>"

definition dsp_blank :: dsp_state where
  "dsp_blank = \<lparr>d_pred = \<lambda>_. 0, d_in = \<lambda>_. [], d_out = \<lambda>_. [], d_signals = [], d_chain = [], d_errs = [], d_compiled = False\<rparr>"

definition sample_dsp_objects :: "obj list" where
  "sample_dsp_objects = [2, 3, 4, 5, 6, 7]"

lemma sample_dsp_ok: "graph_ok sample_dsp sample_dsp_objects"
  by (simp add: graph_ok_def out_edges_def edge_into_def sample_dsp_def sample_dsp_objects_def)

lemma sample_dsp_precedes: "precedes sample_dsp sample_dsp_objects = {(2, 4), (3, 4), (4, 5), (6, 7), (7, 6)}"
proof -
  have "out_edges sample_dsp 2 = [(0, 4, 0)]" "out_edges sample_dsp 3 = [(0, 4, 0)]" "out_edges sample_dsp 4 = [(0, 5, 0)]"
    "out_edges sample_dsp 5 = []" "out_edges sample_dsp 6 = [(0, 7, 0)]" "out_edges sample_dsp 7 = [(0, 6, 0)]"
    by (simp_all add: out_edges_def sample_dsp_def)
  then have "precedes sample_dsp sample_dsp_objects = (\<Union>w \<in> set sample_dsp_objects. {w} \<times> (\<lambda>(_, y, _). y) ` set (out_edges sample_dsp w))"
    by (force simp: precedes_def)
  also have "\<dots> = {(2, 4), (3, 4), (4, 5), (6, 7), (7, 6)}"
    unfolding sample_dsp_objects_def by (simp add: \<open>out_edges sample_dsp 2 = _\<close> \<open>out_edges sample_dsp 3 = _\<close>
      \<open>out_edges sample_dsp 4 = _\<close> \<open>out_edges sample_dsp 5 = _\<close> \<open>out_edges sample_dsp 6 = _\<close> \<open>out_edges sample_dsp 7 = _\<close>) blast
  finally show ?thesis .
qed

lemma sample_dsp_acc: "Wellfounded.acc (precedes sample_dsp sample_dsp_objects) = - {6, 7}"
proof -
  let ?R = "precedes sample_dsp sample_dsp_objects"
  have loop: "x \<noteq> 6 \<and> x \<noteq> 7" if "x \<in> Wellfounded.acc ?R" for x
    using that
  proof (induction rule: acc.induct)
    case (accI x)
    have "(7, 6) \<in> ?R" "(6, 7) \<in> ?R" by (simp_all add: sample_dsp_precedes)
    with accI(2) [of 6] accI(2) [of 7] show ?case by metis
  qed
  have first: "x \<in> Wellfounded.acc ?R" if "x \<notin> {4, 5, 6, 7}" for x
  proof (rule accI)
    fix y assume "(y, x) \<in> ?R"
    with that show "y \<in> Wellfounded.acc ?R" by (simp add: sample_dsp_precedes)
  qed
  have 4: "4 \<in> Wellfounded.acc ?R"
  proof (rule accI)
    fix y assume "(y, 4) \<in> ?R"
    then have "y = 2 \<or> y = 3" by (simp add: sample_dsp_precedes)
    then show "y \<in> Wellfounded.acc ?R" using first [of y] by auto
  qed
  have 5: "5 \<in> Wellfounded.acc ?R"
  proof (rule accI)
    fix y assume "(y, 5) \<in> ?R"
    then show "y \<in> Wellfounded.acc ?R" using 4 by (simp add: sample_dsp_precedes)
  qed
  show ?thesis
  proof (rule set_eqI)
    fix x
    show "x \<in> Wellfounded.acc ?R \<longleftrightarrow> x \<in> - {6, 7}"
    proof (cases "x = 4 \<or> x = 5")
      case True
      then show ?thesis using 4 5 by (elim disjE) simp_all
    next
      case False
      then have "x \<notin> {6, 7} \<Longrightarrow> x \<in> Wellfounded.acc ?R" by (intro first) simp
      with loop [of x] show ?thesis by blast
    qed
  qed
qed

theorem dsp_chain_correct_witness:
  "\<exists>st' mem tr. fts_dsp_graph_compile sample_dsp 64 sample_dsp_objects dsp_blank = Some st' \<and>
    run_chain sample_sem (d_chain st') = (mem, tr) \<and> trace_ok sample_dsp sample_sem sample_dsp_objects tr \<and>
    fst ` set tr = {2, 3, 4, 5} \<and> d_errs st' = [LoopInGraph 6, LoopInGraph 7]"
proof -
  have "sem_ok sample_dsp sample_sem" by (simp add: sem_ok_def sample_dsp_def sample_sem_def)
  then obtain st' where st': "fts_dsp_graph_compile sample_dsp 64 sample_dsp_objects dsp_blank = Some st'"
    "chain_ok sample_dsp sample_sem sample_dsp_objects st'"
    using dsp_chain_correct [OF sample_dsp_ok, of sample_sem 64 dsp_blank] by (auto simp: dsp_blank_def)
  have "set sample_dsp_objects \<inter> Wellfounded.acc (precedes sample_dsp sample_dsp_objects) = {2, 3, 4, 5}"
    unfolding sample_dsp_acc by (auto simp: sample_dsp_objects_def)
  moreover have "map LoopInGraph (filter (\<lambda>x. x \<notin> Wellfounded.acc (precedes sample_dsp sample_dsp_objects)) sample_dsp_objects) =
      [LoopInGraph 6, LoopInGraph 7]"
    unfolding sample_dsp_acc by (simp add: sample_dsp_objects_def)
  ultimately show ?thesis using st' unfolding chain_ok_def by metis
qed

text \<open>
  C7: For a patch made by edits, whose signal outlets lead only to signal inlets of registered
  objects, finitely many propagating objects and no change of the vector size, the graph iterator
  ends on each signal outlet, cycles included, and the compiler succeeds on the edges it finds with
  a correct chain. The condition \<open>dsp_patch_ok\<close> is on the graph of the edits: where a
  signal arrives from a signal outlet of a registered object, directly or through objects that
  propagate it, there is a leading signal inlet of a registered object or an object that is not a
  signal object. Control connections, from the other outlets, may join any ports.
\<close>

theorem dsp_patch_compiles:
  fixes X :: "'v dsp_sem"
  assumes "world_ok W" "list_all edit_ok ops" "pushes_within (fold (graph_apply W) ops graph_empty) N P"
    and "dsp_patch_ok W P s_put (fold (graph_apply W) ops graph_empty) G" "list_all (\<lambda>x. resamp x = 0) (do_objects G)"
    and "\<And>x vs. length (ds_fun X x vs) = nat (dd_noutputs (descr G x))" "0 \<le> tick" "d_errs st = []" "\<not> d_compiled st"
  shows "\<exists>s st'. patch_run W ops patch_empty = Some s \<and>
    (\<forall>x \<in> set (do_objects G). \<forall>i < nat (dd_noutputs (descr G x)). graph_successors W P s x (int i) \<noteq> None) \<and>
    fts_dsp_graph_compile (dsp_world_of W P s_put s G resamp) tick (do_objects G) st = Some st' \<and>
    chain_ok (dsp_world_of W P s_put s G resamp) X (do_objects G) st'"
proof -
  let ?H = "fold (graph_apply W) ops graph_empty"
  obtain s where s: "patch_run W ops patch_empty = Some s" "modelled s ?H"
    using patch_run_spec [OF modelledI [OF models_empty] assms(1,2)] by blast
  then obtain outs ins where m: "models s outs ins ?H" by (auto simp: modelled_def)
  let ?D = "dsp_world_of W P s_put s G resamp"
  have "graph_ok ?D (do_objects G)"
    using dsp_world_graph_ok [OF m assms(4)] assms(5) by (simp add: list_all_iff)
  moreover have "sem_ok ?D X" using assms(6) by (simp add: sem_ok_def dsp_world_of_def)
  ultimately obtain st' where "fts_dsp_graph_compile ?D tick (do_objects G) st = Some st'" "chain_ok ?D X (do_objects G) st'"
    using compile_spec [of ?D "do_objects G" X tick st] assms(7-9) by (force simp: chain_ok_def)
  moreover have "graph_successors W P s x (int i) \<noteq> None"
    if "x \<in> set (do_objects G)" "i < nat (dd_noutputs (descr G x))" for x i
    using patch_edges_defined [OF m assms(3,4) that(1), of i] that(2) by (auto simp: dsp_world_of_def)
  ultimately show ?thesis using s(1) by blast
qed

definition signal_class :: fts_class where
  "signal_class = class_of_decls [DInlet 0 (Some (UserClass 2)) 7, DOutlet 0 (Some (UserClass 2)), DMessage 400 None 8]"

definition signal_world :: patch_world where
  "signal_world = one_class_world signal_class"

definition signal_edits :: "patch_op list" where
  "signal_edits = [NewConnection 1 0 2 0 0, NewConnection 2 0 3 0 0, NewConnection 1 0 3 0 0]"

definition signal_objects :: dsp_objects where
  "signal_objects = \<lparr>do_descr = (\<lambda>x. Some \<lparr>dd_ninputs = 1, dd_noutputs = 1\<rparr>), do_objects = [3, 2, 1]\<rparr>"

lemma signal_world_eval:
  "object_class signal_world x = signal_class" "fts_object_is_error signal_world x = False"
  "cl_ninlets signal_class = 1" "cl_noutlets signal_class = 1"
  "connection_check signal_world x 0 y 0 = Some True"
proof -
  have "connection_check signal_world 0 0 0 0 = Some True" by code_simp
  then show "connection_check signal_world x 0 y 0 = Some True"
    by (simp add: connection_check_def object_class_def signal_world_def one_class_world_def)
  show "cl_ninlets signal_class = 1" "cl_noutlets signal_class = 1"
    by code_simp+
qed (simp_all add: object_class_def fts_object_is_error_def signal_world_def one_class_world_def)

theorem dsp_patch_compiles_witness:
  "\<exists>s st'. patch_run signal_world signal_edits patch_empty = Some s \<and>
    fts_dsp_graph_compile (dsp_world_of signal_world (\<lambda>_ _. []) 400 s signal_objects (\<lambda>_. 0)) 64 [3, 2, 1] dsp_blank = Some st' \<and>
    chain_ok (dsp_world_of signal_world (\<lambda>_ _. []) 400 s signal_objects (\<lambda>_. 0)) sample_sem [3, 2, 1] st'"
proof -
  let ?H = "fold (graph_apply signal_world) signal_edits graph_empty"
  have W: "world_ok signal_world" unfolding signal_world_def signal_class_def by (rule one_class_world_ok) (simp add: CLASS_INLET_MAX_def)
  note eval = g_new_def g_data_def g_accepts_def g_joined_def g_add_def g_outlets_def g_inlets_def graph_empty_def Let_def
    signal_world_eval fts_c_null_def fts_c_anything_def signal_edits_def
  have H: "g_targets ?H p = (if p = (1, 0) then [(3, 0, 0), (2, 0, 0)] else if p = (2, 0) then [(3, 0, 0)] else [])" for p
    by (auto simp: eval)
  have n: "g_outlets ?H (Suc 0) = 1" "g_outlets ?H 2 = 1" "g_outlets ?H 3 = 1" by (simp_all add: eval)
  have "dsp_patch_ok signal_world (\<lambda>_ _. []) 400 ?H signal_objects"
    by (simp add: dsp_patch_ok_def H n signal_objects_def descr_def)
  moreover have "pushes_within ?H {} (\<lambda>_ _. [])" by (simp add: pushes_within_def)
  moreover have "list_all edit_ok signal_edits" by (simp add: signal_edits_def)
  ultimately show ?thesis
    using dsp_patch_compiles [OF W, of signal_edits "{}" "\<lambda>_ _. []" 400 signal_objects "\<lambda>_. 0" sample_sem 64 dsp_blank]
    by (auto simp: signal_objects_def descr_def sample_sem_def dsp_blank_def)
qed

subsection \<open>Patcher files and the clipboard\<close>

text \<open>
  C8: Loading a saved patcher that fits the machine (at most 32767 objects per patcher, values that
  are numbers or symbols) makes its objects, properties, names, states and connections in their
  order, returns it and restores the stacks of the loader, while the load redefines no object. In
  \<open>patcher_ok\<close>: room on the three stacks, at most 32767 objects in each patcher,
  properties that are numbers or symbols, and connections that are saved lead to objects of their
  patcher. As in the code, floats are rounded to single precision and atoms of other types are saved
  as 0 (\<open>saved_atom\<close>). The names of the symbols fit the buffer of the reader and are
  interned to the symbols (\<open>names_ok\<close>). The creation functions and methods that run
  during the load are any functions (\<open>loader_ops\<close>) that redefine no existing object
  (\<open>quiet\<close>): for a redefinition the machine substitutes objects in its stacks and
  tables.
\<close>

theorem bmax_roundtrip:
  assumes "patcher_ok B (length atoms + length (eval_stack vm)) (length (object_stack vm)) (length (object_tables vm)) o1 ps"
    and "f = fts_save_patcher_as_bmax B (Patcher o1 ps)" "length (bf_symbols f) < 2 ^ 31" "length (bf_code f) < 2 ^ 32"
    and "names_ok nm intern (bf_symbols f)" "load_patcher B L parent atoms o1 ps w = (x, w')" "quiet L"
  shows "fts_bmax_filedesc_load B L intern (fts_bmax_file_sync nm f) parent atoms vm w = Some (Inr (Some x, vm, w'))"
  by (rule load_saved_file [OF assms])

definition bmax_names :: "string list" where
  "bmax_names = ['''', ''jpatcher'', ''x'', ''y'', ''height'', ''width'', ''font'', ''fontSize'', ''fontStyle'', ''layer'',
     ''wx'', ''wy'', ''ww'', ''wh'', ''name'', ''persistence'', ''error'', ''osc'', ''dac'', ''carrier'', ''set'']"

definition bmax_sym :: "string \<Rightarrow> sym" where
  "bmax_sym s = (case map_of (zip bmax_names [0..<length bmax_names]) s of None \<Rightarrow> 16 | Some n \<Rightarrow> n)"

definition sample_bmax :: bmax_env where
  "sample_bmax = \<lparr>be_sym = bmax_sym, be_float = (\<lambda>d. ucast (drop_bit 32 (dbits d))), be_double = (\<lambda>f. Double (push_bit 32 (ucast f)))\<rparr>"

definition sample_loader :: "(string \<times> addr \<times> atom list) list loader_ops" where
  "sample_loader =
     \<lparr>lo_eval = (\<lambda>p args w. (100 + length w, w @ [(''new'', p, args)])), lo_send = (\<lambda>x s args w. w @ [(''send'', x, ASymbol s # args)]),
      lo_put_prop = (\<lambda>x s v w. w @ [(''prop'', x, [ASymbol s, v])]),
      lo_connect = (\<lambda>x woutlet y winlet w. w @ [(''connect'', x, [AInt woutlet, AObject y, AInt winlet])]),
      lo_is_patcher = (\<lambda>x w. x = 100), lo_set_scope = (\<lambda>x w. w @ [(''scope'', x, [])]),
      lo_redefined = (\<lambda>_ _. [])\<rparr>"

lemma sample_loader_quiet: "quiet sample_loader"
  by (simp add: quiet_def sample_loader_def)

definition sample_saved :: saved_object where
  "sample_saved = \<lparr>so_object = 0, so_description = [], so_prop = (\<lambda>_. AVoid), so_is_patcher = False, so_name = 0, so_global = False,
     so_gui = [], so_persistent = False, so_state = [], so_outlets = []\<rparr>"

definition saved_osc :: saved_object where
  "saved_osc = sample_saved\<lparr>so_object := 11, so_description := [ASymbol 17, AInt 440], so_name := 19, so_global := True,
     so_prop := (\<lambda>s. if s = 2 then AInt 300 else AVoid), so_outlets := [[\<lparr>sc_type = 0, sc_winlet = 1, sc_dst = 12\<rparr>]]\<rparr>"

definition saved_dac :: saved_object where
  "saved_dac = sample_saved\<lparr>so_object := 12, so_description := [ASymbol 18], so_persistent := True, so_state := [(20, [AInt (- 5)])]\<rparr>"

definition idle_vm :: bmax_vm where
  "idle_vm = \<lparr>eval_stack = [], object_stack = [], object_tables = []\<rparr>"

theorem bmax_roundtrip_witness:
  "fts_bmax_filedesc_load sample_bmax sample_loader bmax_sym
     (fts_bmax_file_sync (nth bmax_names) (fts_save_patcher_as_bmax sample_bmax (Patcher sample_saved [Plain saved_osc, Plain saved_dac])))
     7 [AInt 3] idle_vm [] =
   Some (Inr (Some 100, idle_vm,
     [(''new'', 7, [ASymbol 1, AInt 3]), (''scope'', 100, []),
      (''new'', 100, [ASymbol 17, AInt 440]), (''prop'', 102, [ASymbol 2, AInt 300]), (''send'', 102, [ASymbol 14, ASymbol 19, AInt 1]),
      (''new'', 100, [ASymbol 18]), (''send'', 105, [ASymbol 20, AInt (- 5)]), (''send'', 105, [ASymbol 15, AInt 1]),
      (''connect'', 102, [AInt 0, AObject 105, AInt 1])]))"
proof -
  let ?ps = "[Plain saved_osc, Plain saved_dac]"
  let ?f = "fts_save_patcher_as_bmax sample_bmax (Patcher sample_saved ?ps)"
  have "(bf_symbols ?f, length (bf_code ?f)) = ([1, 17, 2, 19, 14, 18, 20, 15], 104)" by code_simp
  then have f: "bf_symbols ?f = [1, 17, 2, 19, 14, 18, 20, 15]" "length (bf_code ?f) = 104" by simp_all
  have "names_ok (nth bmax_names) bmax_sym (bf_symbols ?f)"
    unfolding f by (simp add: names_ok_def bmax_sym_def bmax_names_def c_string_def)
  moreover have "patcher_ok sample_bmax 1 0 0 sample_saved ?ps"
    by (simp add: patcher_ok_def object_ok_def connections_ok_def connection_ok_def plain_value_def top_properties_def
      saved_osc_def saved_dac_def sample_saved_def EVAL_STACK_DEPTH_def OBJECT_STACK_DEPTH_def OBJECT_TABLE_STACK_DEPTH_def)
  moreover have "load_patcher sample_bmax sample_loader 7 [AInt 3] sample_saved ?ps [] = (100,
     [(''new'', 7, [ASymbol 1, AInt 3]), (''scope'', 100, []),
      (''new'', 100, [ASymbol 17, AInt 440]), (''prop'', 102, [ASymbol 2, AInt 300]), (''send'', 102, [ASymbol 14, ASymbol 19, AInt 1]),
      (''new'', 100, [ASymbol 18]), (''send'', 105, [ASymbol 20, AInt (- 5)]), (''send'', 105, [ASymbol 15, AInt 1]),
      (''connect'', 102, [AInt 0, AObject 105, AInt 1])])" by code_simp
  ultimately show ?thesis
    using f sample_loader_quiet by (intro bmax_roundtrip) (simp_all add: idle_vm_def)
qed

text \<open>
  C22: Pasting a copied selection makes its objects and the connections between them, if each
  connection follows its end points in the array, the selection fits the machine and nothing is
  redefined meanwhile; a selection whose code has no symbol frees a pointer that was never set. In
  \<open>selection_fits\<close>: at most 32767 items, room on the stacks, properties that are
  numbers or symbols, and each connection whose ends are selected stands behind both of them in the
  array. Removing and adding items can put a connection into a hole in front of its end points; the
  code of such a selection then reads a slot of the object table that is not yet set.
\<close>

theorem clipboard_roundtrip:
  assumes "selection_fits B (length (eval_stack vm)) (length (object_tables vm)) sel" "selection_savable B nm intern sel"
    and "object_stack vm = []" "cb_file cb = Some old" "quiet L"
  shows "clipboard_paste_in B L intern patcher (clipboard_copy_selection B nm sel cb) vm w =
    (if bf_symbols (fts_save_selection_as_bmax B sel) = [] then None
     else Some (vm, load_items B L patcher sel (sel_objects sel) id w))"
  by (rule paste_copied_selection [OF assms])

definition sample_selection :: selection where
  "sample_selection = \<lparr>sel_objects = [Some (Sel_object (Plain saved_osc)), None, Some (Sel_object (Plain saved_dac)),
     Some (Sel_connection 13 \<lparr>sc_type = 0, sc_winlet = 1, sc_dst = 12, sc_src = 11, sc_woutlet = 0\<rparr>), None], sel_count = 3\<rparr>"

definition empty_selection :: selection where
  "empty_selection = selection_clear sample_selection"

theorem clipboard_roundtrip_witness:
  "clipboard_paste_in sample_bmax sample_loader bmax_sym 7
     (clipboard_copy_selection sample_bmax (nth bmax_names) sample_selection \<lparr>cb_file = Some (replicate 1000 255)\<rparr>) idle_vm [] =
   Some (idle_vm,
     [(''new'', 7, [ASymbol 17, AInt 440]), (''prop'', 100, [ASymbol 2, AInt 300]), (''send'', 100, [ASymbol 14, ASymbol 19, AInt 1]),
      (''new'', 7, [ASymbol 18]), (''send'', 103, [ASymbol 20, AInt (- 5)]), (''send'', 103, [ASymbol 15, AInt 1]),
      (''connect'', 100, [AInt 0, AObject 103, AInt 1])]) \<and>
   clipboard_paste_in sample_bmax sample_loader bmax_sym 7
     (clipboard_copy_selection sample_bmax (nth bmax_names) empty_selection \<lparr>cb_file = Some []\<rparr>) idle_vm [] = None"
proof -
  let ?f = "fts_save_selection_as_bmax sample_bmax sample_selection" and ?e = "fts_save_selection_as_bmax sample_bmax empty_selection"
  have "(bf_symbols ?f, bf_code_size ?f) = ([17, 2, 19, 14, 18, 20, 15], 98)" by code_simp
  then have f: "bf_symbols ?f = [17, 2, 19, 14, 18, 20, 15]" "bf_code_size ?f = 98" by simp_all
  have "(bf_symbols ?e, bf_code_size ?e) = ([], 4)" by code_simp
  then have e: "bf_symbols ?e = []" "bf_code_size ?e = 4" by simp_all
  have savable: "selection_savable sample_bmax (nth bmax_names) bmax_sym sample_selection"
    "selection_savable sample_bmax (nth bmax_names) bmax_sym empty_selection"
    by (simp_all add: selection_savable_def Let_def f e names_ok_def bmax_sym_def bmax_names_def c_string_def)
  have fits: "selection_fits sample_bmax 0 0 sample_selection" "selection_fits sample_bmax 0 0 empty_selection"
    by (simp_all add: selection_fits_def selection_ok_def selection_size_def sample_selection_def empty_selection_def selection_clear_def
      object_ok_def plain_value_def top_properties_def saved_osc_def saved_dac_def sample_saved_def EVAL_STACK_DEPTH_def
      OBJECT_STACK_DEPTH_def OBJECT_TABLE_STACK_DEPTH_def)
  have load: "load_items sample_bmax sample_loader 7 sample_selection (sel_objects sample_selection) id [] =
     [(''new'', 7, [ASymbol 17, AInt 440]), (''prop'', 100, [ASymbol 2, AInt 300]), (''send'', 100, [ASymbol 14, ASymbol 19, AInt 1]),
      (''new'', 7, [ASymbol 18]), (''send'', 103, [ASymbol 20, AInt (- 5)]), (''send'', 103, [ASymbol 15, AInt 1]),
      (''connect'', 100, [AInt 0, AObject 103, AInt 1])]" by code_simp
  show ?thesis
    using clipboard_roundtrip [of sample_bmax idle_vm sample_selection "nth bmax_names" bmax_sym "\<lparr>cb_file = Some (replicate 1000 255)\<rparr>"
        "replicate 1000 255" sample_loader 7 "[]"]
      clipboard_roundtrip [of sample_bmax idle_vm empty_selection "nth bmax_names" bmax_sym "\<lparr>cb_file = Some []\<rparr>" "[]" sample_loader 7 "[]"]
      sample_loader_quiet savable fits f(1) e(1) load by (simp add: idle_vm_def)
qed

text \<open>
  C23: A saved patcher of 32768 to 65535 objects loads without any of them, if making the patcher
  redefines no object: of the four bytes of the number of objects three are executed, and the first
  is the opcode that returns.
\<close>

theorem big_patcher_misread:
  assumes "32767 < length ps" "length ps < 65536" "f = fts_save_patcher_as_bmax B (Patcher o1 ps)" "length (bf_symbols f) < 2 ^ 31"
    and "object_ok B (length atoms + length (eval_stack vm)) o1" "length (object_stack vm) + 2 \<le> OBJECT_STACK_DEPTH"
    and "length (object_tables vm) < OBJECT_TABLE_STACK_DEPTH" "load_top_object B L parent atoms o1 w = (x, w')" "quiet L"
  shows "fts_run_mess_vm B L parent (saved_descr f) atoms vm w =
    Some (Some x, vm\<lparr>object_tables := replicate (length ps) None # object_tables vm\<rparr>, w')"
  by (rule big_patcher_lost [OF assms])

lemma symbols_blank_objects:
  "bf_symbols (code_objects sample_bmax (replicate n (Plain sample_saved)) i f) = bf_symbols f"
proof (induction n arbitrary: i f)
  case (Suc n)
  have blank: "fts_bmax_code_new_property sample_bmax sample_saved p g = g" for p g
    by (simp add: fts_bmax_code_new_property_def sample_saved_def)
  have "code_properties sample_bmax sample_saved props g = g" for props g
    unfolding code_properties_def by (induction props arbitrary: g) (simp_all add: blank)
  moreover have "bmax_sym '''' = 0" by (simp add: bmax_sym_def bmax_names_def)
  ultimately have "bf_symbols (fts_bmax_code_new_object sample_bmax sample_saved i g) = bf_symbols g" for i g
    by (simp add: fts_bmax_code_new_object_def Let_def code_state_def code_dumps_def code_name_def sample_bmax_def sample_saved_def
      fts_bmax_code_pop_args_def fts_bmax_code_push_int_def fts_bmax_code_mv_obj_def fts_bmax_code_make_obj_def symbols_code)
  with Suc show ?case by (simp add: fts_bmax_code_pop_objs_def symbols_code)
qed simp

theorem big_patcher_misread_witness:
  "fts_run_mess_vm sample_bmax sample_loader 7
     (saved_descr (fts_save_patcher_as_bmax sample_bmax (Patcher sample_saved (replicate 40000 (Plain sample_saved))))) [] idle_vm [] =
   Some (Some 100, idle_vm\<lparr>object_tables := [replicate 40000 None]\<rparr>, [(''new'', 7, [ASymbol 1]), (''scope'', 100, [])])"
proof -
  let ?ps = "replicate 40000 (Plain sample_saved)" and ?top = "fts_bmax_code_new_top_object sample_bmax sample_saved (fts_bmax_file_open_fd None)"
  have none: "code_connections (replicate n (Plain sample_saved)) f = f" for n f
  proof -
    have "code_outlets ps i (so_outlets sample_saved) f = f" for ps i f by (simp add: code_outlets_def sample_saved_def)
    then have "fold (\<lambda>(i, p). code_outlets ps i (so_outlets (tree_object p))) xs f = f"
      if "\<forall>(i, p) \<in> set xs. p = Plain sample_saved" for xs ps f
      using that by (induction xs arbitrary: f) auto
    moreover have "\<forall>(i, p) \<in> set (zip (map int [0..<n]) (replicate n (Plain sample_saved))). p = Plain sample_saved"
      by (auto dest: set_zip_rightD)
    ultimately show ?thesis unfolding code_connections_def by simp
  qed
  have "bf_symbols (fts_save_patcher_as_bmax sample_bmax (Patcher sample_saved ?ps)) = bf_symbols ?top"
    by (simp add: fts_save_patcher_as_bmax_def Let_def none symbols_blank_objects fts_bmax_code_push_obj_table_def
      fts_bmax_code_return_def fts_bmax_code_pop_obj_table_def fts_bmax_write_opcode_def symbols_code del: replicate.simps)
  also have "\<dots> = [1]" by code_simp
  finally have "length (bf_symbols (fts_save_patcher_as_bmax sample_bmax (Patcher sample_saved ?ps))) < 2 ^ 31" by simp
  moreover have "load_top_object sample_bmax sample_loader 7 [] sample_saved [] = (100, [(''new'', 7, [ASymbol 1]), (''scope'', 100, [])])"
    by code_simp
  moreover have "object_ok sample_bmax 0 sample_saved"
    by (simp add: object_ok_def top_properties_def sample_saved_def EVAL_STACK_DEPTH_def)
  ultimately show ?thesis
    using big_patcher_misread [of ?ps "fts_save_patcher_as_bmax sample_bmax (Patcher sample_saved ?ps)" sample_bmax sample_saved "[]" idle_vm
        sample_loader 7 "[]" 100] sample_loader_quiet
    by (simp add: idle_vm_def OBJECT_STACK_DEPTH_def OBJECT_TABLE_STACK_DEPTH_def del: replicate.simps)
qed

text \<open>
  C24: Adding an object keeps the count of a selection equal to its number of objects; removing one
  that is not selected makes the count too small.
\<close>

theorem selection_counts:
  assumes "selection_ok sel"
  shows "selection_ok (fts_selection_add_object x sel) \<and>
    sel_count (selection_remove a sel) = int (selection_size (selection_remove a sel)) - (if fts_selection_contains_object sel a then 0 else 1)"
  using selection_add_ok [OF assms] selection_remove_count [OF assms] by simp

theorem selection_counts_witness:
  "selection_ok (fts_selection_add_object (Sel_object (Plain sample_saved)) sample_selection) \<and>
   sel_count (selection_remove 99 sample_selection) = 2 \<and> selection_size (selection_remove 99 sample_selection) = 3"
proof -
  have "selection_ok sample_selection" by (simp add: selection_ok_def selection_size_def sample_selection_def)
  from selection_counts [OF this, of "Sel_object (Plain sample_saved)" 99] show ?thesis
    by (simp add: selection_remove_def selection_size_def sample_selection_def fts_selection_contains_object_def saved_osc_def saved_dac_def)
qed

subsection \<open>Messages between the engine and its clients\<close>

definition sample_env :: class_env where
  "sample_env = \<lparr>obj_class = \<lambda>_. 0, class_hash = \<lambda>_ _. 0, class_equals = \<lambda>_ x y. x = y\<rparr>"

definition sample_names :: "addr \<Rightarrow> string option" where
  "sample_names = [3 \<mapsto> ''go'', 4 \<mapsto> ''x'']"

definition sample_process :: process where
  "sample_process = \<lparr>pc_symtab = symbol_init, pc_mallocs = 0\<rparr>"

lemma sample_process_inv: "process_inv sample_env (\<lambda>k. k) sample_process"
  by (simp add: process_inv_def sample_process_def sym_inv_init) (simp add: symbol_init_def)

lemma sample_decoder:
  "decoder_at sample_env (\<lambda>k. k) mem (output_cache binary_protocol_init) [] (binary_protocol_init, sample_process)"
  by (rule decoder_at_init [OF sample_process_inv])

definition sample_client :: client where
  "sample_client =
     \<lparr>pr_state = 1, input_args = fts_stack_init, input_buffer = fts_stack_init, input_cache = symbol_cache_init,
      output_buffer = fts_stack_init, output_cache = symbol_cache_init, client_id = 0,
      object_table = snd (fts_hashtable_put sample_env (fts_hashtable_init FTS_HASHTABLE_MEDIUM) (AInt 1) (AObject 7)),
      object_id_count = 17, root_patcher = 0, client_stream = Some 2, client_messages = []\<rparr>"

definition sample_world :: world where
  "sample_world =
     \<lparr>w_flags = (\<lambda>x. if x = 5 then \<lparr>of_client = 0, of_id = 1\<rparr> else \<lparr>of_client = - 1, of_id = - 1\<rparr>),
      client_table = \<lparr>st_buffer = [Some 1], st_size = 1\<rparr>, w_clients = [1 \<mapsto> sample_client], w_output = [],
      w_names = sample_names\<rparr>"

lemma sample_connected: "obj_connected sample_world 5 1 sample_client 2"
  by (simp add: obj_connected_def sample_world_def sample_client_def fts_object_has_client_def fts_object_get_client_id_def
      object_get_client_def client_table_get_def buffer_read_def FTS_NO_ID_def)

lemma sample_peer:
  "decoder_at sample_env (\<lambda>k. k) sample_names (output_cache sample_client) [] (sample_client, sample_process)"
  using sample_decoder [of sample_names]
  by (simp add: decoder_at_def sample_client_def binary_protocol_init_def q_initial_def)

lemma sample_objects: "client_get_object sample_env (object_table sample_client) i = Some (if i = 1 then 7 else 0)"
proof -
  have "fts_hashtable_get sample_env (object_table sample_client) (AInt i) = (if i = 1 then Some (AObject 7) else None)"
    using ht.lookup_update [OF ht_inv_init, of "AInt 1" "AInt i" sample_env FTS_HASHTABLE_MEDIUM "AObject 7"]
    by (simp add: sample_client_def plain_def nkey_def get_abs [OF ht_inv_init])
  then show ?thesis by (simp add: client_get_object_def fts_get_object_def)
qed

text \<open>
  C3: A message that a connected object sends is written to its client's stream as bytes that a peer
  with a synchronised symbol cache decodes to one call of the registered object, with the same
  selector and arguments.
\<close>

theorem message_delivery:
  assumes "obj_connected w obj c cl st" "stack_is (output_buffer cl) []"
    and "sendable (w_names w) (ASymbol selector)" "\<forall>a \<in> set xs. sendable (w_names w) a"
    and "decoder_at E M (w_names w) (output_cache cl) [] d"
    and "objects_only E (object_table (fst d))"
      "client_get_object E (object_table (fst d)) (obj_ids w obj) = Some x" "x \<noteq> 0"
  shows "\<exists>w' cl' bs d' sel args. fts_client_send_message obj selector xs w = Some w' \<and>
      obj_connected w' obj c cl' st \<and> stack_is (output_buffer cl') [] \<and> w_output w' = w_output w @ [(st, bs)] \<and>
      receive_loop E M T bs d = Some d' \<and> decoder_at E M (w_names w') (output_cache cl') [] d' \<and>
      object_table (fst d') = object_table (fst d) \<and>
      client_messages (fst d') = client_messages (fst d) @
        [\<lparr>msg_target = x, msg_selector = sel, msg_argc = int (length args), msg_args = args\<rparr>] \<and>
      same_atom (w_names w) (sy_mem (pc_symtab (snd d'))) (ASymbol selector) sel \<and>
      list_all2 (same_atom (w_names w) (sy_mem (pc_symtab (snd d'))))
        (delivered E (object_table (fst d)) (obj_ids w) xs) args"
  by (rule message_roundtrip [OF assms])

theorem message_delivery_witness:
  "\<exists>w' bs d' args. fts_client_send_message 5 3 [AInt 60, AObject 5] sample_world = Some w' \<and>
     w_output w' = [(2, bs)] \<and>
     receive_loop sample_env (\<lambda>k. k) (\<lambda>_ g. ([], g)) bs (sample_client, sample_process) = Some d' \<and>
     map msg_target (client_messages (fst d')) = [7] \<and> length args = 2 \<and>
     map msg_args (client_messages (fst d')) = [args]"
proof -
  have "obj_ids sample_world 5 = 1"
    by (simp add: obj_ids_def fts_object_get_id_def sample_world_def)
  moreover have "w_names sample_world = sample_names" "w_output sample_world = []" "client_messages sample_client = []"
    "stack_is (output_buffer sample_client) []"
    by (simp_all add: sample_world_def sample_client_def stack_is_init)
  ultimately show ?thesis
    using message_delivery [OF sample_connected, of 3 "[AInt 60, AObject 5]" sample_env "\<lambda>k. k"
        "(sample_client, sample_process)" 7 "\<lambda>_ g. ([], g)"] sample_peer
    by (fastforce simp: objects_only_def sample_objects sample_names_def c_string_def delivered_def received_def
        lookup_object_def dest: list_all2_lengthD)
qed

text \<open>
  C4: Decoding the bytes of the encoder yields the atoms that were encoded: ints, doubles, strings,
  and symbols through the caches of the two ends, which stay synchronised.
\<close>

theorem wire_roundtrip:
  assumes "stack_is (output_buffer p) []" "decoder_at E M mem (output_cache p) as d"
    and "\<forall>a \<in> set xs. sendable mem a"
  shows "\<exists>p' bs d' ws. fts_binary_protocol_add_atoms mem oid xs p = Some p' \<and>
      stack_is (output_buffer p') bs \<and>
      fts_binary_protocol_decode E M T bs d = Some (int (length bs), d') \<and>
      decoder_at E M mem (output_cache p') (as @ ws) d' \<and>
      list_all2 (same_atom mem (sy_mem (pc_symtab (snd d')))) (filter by_value xs) ws"
  by (rule encode_decode [OF assms])

theorem wire_roundtrip_witness:
  "\<exists>p' bs d'. fts_binary_protocol_add_atoms sample_names (\<lambda>_. 0)
       [ASymbol 3, AInt 7, AString ''hi'', ASymbol 3] binary_protocol_init = Some p' \<and>
     stack_is (output_buffer p') bs \<and>
     fts_binary_protocol_decode sample_env (\<lambda>k. k) (\<lambda>_ g. ([], g)) bs (binary_protocol_init, sample_process) =
       Some (int (length bs), d')"
  using wire_roundtrip [OF _ sample_decoder [of sample_names],
      of "[ASymbol 3, AInt 7, AString ''hi'', ASymbol 3]" "\<lambda>_. 0" "\<lambda>_ g. ([], g)"]
  by (fastforce simp: sample_names_def c_string_def stack_is_init binary_protocol_init_def)

text \<open>
  C33: After a protocol error a client ignores all bytes up to the end of the message and then
  decodes again, keeping the arguments it had read before the error.
\<close>

theorem client_error_recovery:
  assumes "pr_state (fst d) = 0" "FTS_PROTOCOL_END_OF_MESSAGE \<notin> set bs"
  shows "receive_loop E M T (bs @ [FTS_PROTOCOL_END_OF_MESSAGE]) d = Some ((fst d)\<lparr>pr_state := q_initial\<rparr>, snd d)"
  by (rule client_error_skip [OF assms])

theorem client_error_recovery_witness:
  "receive_loop sample_env (\<lambda>k. k) (\<lambda>_ g. ([], g)) ([9, 3] @ [FTS_PROTOCOL_END_OF_MESSAGE])
     (sample_client\<lparr>pr_state := 0\<rparr>, sample_process) = Some (sample_client\<lparr>pr_state := q_initial\<rparr>, sample_process)"
  using client_error_recovery [of "(sample_client\<lparr>pr_state := 0\<rparr>, sample_process)" "[9, 3]"]
  by (simp add: FTS_PROTOCOL_END_OF_MESSAGE_def)

lemma sample_client_inv: "ht_inv sample_env (object_table sample_client)"
  by (simp add: sample_client_def ht.inv_update ht_inv_init plain_def)

text \<open>
  C18: Objects without an id that are registered with a client one after the other get the ids n,
  n+2, n+4 and are found under these ids; older bindings and the ids of other objects do not change.
\<close>

theorem object_registration:
  assumes "w_clients w c = Some cl" "ht_inv E (object_table cl)" "distinct xs"
    and "\<forall>x \<in> set xs. fts_object_get_id w x < 0"
    and "0 \<le> sint (object_id_count cl)" "sint (object_id_count cl) + 2 * int (length xs) \<le> 2 ^ 25"
  shows "\<exists>w' cl'. register_objects E c xs w = Some w' \<and> w_clients w' c = Some cl' \<and> ht_inv E (object_table cl') \<and>
      (\<forall>k < length xs. fts_object_get_id w' (xs ! k) = sint (object_id_count cl) + 2 * int k \<and>
         client_get_object E (object_table cl') (obj_ids w' (xs ! k)) = Some (xs ! k)) \<and>
      (\<forall>y. y \<notin> set xs \<longrightarrow> fts_object_get_id w' y = fts_object_get_id w y) \<and>
      (\<forall>i. sint i < sint (object_id_count cl) \<longrightarrow>
         client_get_object E (object_table cl') i = client_get_object E (object_table cl) i)"
  by (rule register_objects_spec [OF assms])

theorem object_registration_witness:
  "\<exists>w'. register_objects sample_env 1 [8, 9] sample_world = Some w' \<and>
     fts_object_get_id w' 8 = 17 \<and> fts_object_get_id w' 9 = 19"
proof -
  have w: "w_clients sample_world 1 = Some sample_client" "object_id_count sample_client = 17"
    "\<forall>x \<in> set [8, 9]. fts_object_get_id sample_world x < 0"
    by (simp_all add: sample_world_def sample_client_def fts_object_get_id_def)
  from object_registration [OF w(1) sample_client_inv _ w(3)] show ?thesis
    by (fastforce simp: w(2) nth_Cons')
qed

text \<open>
  C19: An object registered by the clients 0 to 7 carries the client id; with the ids 8 to 15 the
  4-bit field becomes negative and the object counts as having no client.
\<close>

theorem client_id_wraps:
  assumes "w_clients w c = Some cl" "ht_inv E (object_table cl)"
    "0 \<le> sint (object_id_count cl)" "sint (object_id_count cl) < 2 ^ 25"
    and "client_register_object E c x w = Some w'" and "0 \<le> client_id cl" "client_id cl \<le> 15"
  shows "if client_id cl \<le> 7 then fts_object_get_client_id w' x = client_id cl else \<not> fts_object_has_client w' x"
  using register_client_id [OF assms(1-5)] assms(6,7) by auto

theorem client_id_wraps_witness:
  "\<exists>w'. client_register_object sample_env 1 8 (sample_world\<lparr>w_clients := [1 \<mapsto> sample_client\<lparr>client_id := 8\<rparr>]\<rparr>) = Some w' \<and>
     \<not> fts_object_has_client w' 8"
proof -
  let ?cl = "sample_client\<lparr>client_id := 8\<rparr>"
  let ?w = "sample_world\<lparr>w_clients := [1 \<mapsto> ?cl]\<rparr>"
  have w: "w_clients ?w 1 = Some ?cl" "ht_inv sample_env (object_table ?cl)" "sint (object_id_count ?cl) = 17"
    using sample_client_inv by simp_all (simp add: sample_client_def)
  obtain w' where w': "client_register_object sample_env 1 8 ?w = Some w'"
    using register_object_spec [OF w(1,2), of 8] w(3) by auto
  with client_id_wraps [OF w(1,2) _ _ w'] w(3) show ?thesis by auto
qed

subsection \<open>Hash tables, symbols and object sets\<close>





text \<open>
  C30: The iterator over the keys terminates and yields every key of the table once.
\<close>

theorem hashtable_iteration:
  fixes E :: class_env and c :: capacity
  assumes "list_all op_plain ps"
  defines "h \<equiv> fold (apply_table_op E) ps (fts_hashtable_init c)"
  shows "\<exists>ks. iterate (Suc (ht_count h)) (fts_hashtable_get_keys h) = Some ks \<and> length ks = ht_count h \<and>
           distinct (map nkey ks) \<and> set (map nkey ks) = dom (fold apply_map_op ps Map.empty)"
proof -
  have "ht_inv E h" "ht_abs h = fold apply_map_op ps Map.empty"
    using table_ops [OF ht_inv_init assms(1), of E c] by (simp_all add: h_def)
  then show ?thesis
    using iterate_keys [of E h "Suc (ht_count h)"] by simp
qed

theorem hashtable_iteration_witness:
  "\<exists>ks fuel. iterate fuel (fts_hashtable_get_keys (fold (apply_table_op sample_env)
     [Put_op (AInt 3) (AInt 7), Put_op (AInt 4) AVoid] (fts_hashtable_init FTS_HASHTABLE_SMALL))) = Some ks \<and>
     nkey ` set ks = {AInt 3, AInt 4}"
proof -
  have "list_all op_plain [Put_op (AInt 3) (AInt 7), Put_op (AInt 4) AVoid]" by (simp add: plain_def)
  from hashtable_iteration [OF this, where E = sample_env and c = FTS_HASHTABLE_SMALL] show ?thesis
    by (fastforce simp: nkey_def)
qed

text \<open>
  C12: Two symbols created from strings are the same pointer exactly when the strings are equal.
\<close>

theorem symbols_unique:
  assumes "distinct (map snd bs)"
  shows "\<exists>qs st. new_symbols E bs symbol_init = Some (qs, st) \<and>
           list_all2 (\<lambda>q b. sy_mem st q = Some (fst b)) qs bs \<and>
           (\<forall>i < length bs. \<forall>j < length bs. qs ! i = qs ! j \<longleftrightarrow> fst (bs ! i) = fst (bs ! j))"
proof -
  obtain qs st where q: "new_symbols E bs symbol_init = Some (qs, st)" "sym_inv E st"
      "list_all2 (\<lambda>q b. sy_mem st q = Some (fst b)) qs bs"
    using new_symbols_spec [OF sym_inv_init assms] by (force simp: symbol_init_def)
  moreover have "sy_mem st (qs ! i) = Some (fst (bs ! i))" if "i < length bs" for i
    using q(3) that by (auto simp: list_all2_conv_all_nth)
  ultimately show ?thesis
    using symbol_eq_iff [OF q(2)] by meson
qed

theorem symbols_unique_witness:
  "\<exists>qs st. new_symbols sample_env [(''in'', 4), (''out'', 9), (''in'', 6)] symbol_init = Some (qs, st) \<and>
     qs ! 0 = qs ! 2 \<and> qs ! 0 \<noteq> qs ! 1"
  using symbols_unique [of "[(''in'', 4), (''out'', 9), (''in'', 6)]" sample_env] by fastforce

text \<open>
  C27: A client that obeys the messages of an object set holds exactly its members, without
  duplicates, after any sequence of add, remove and clear.
\<close>

theorem objectset_mirror:
  fixes E :: class_env and ms :: "set_op list"
  defines "s \<equiv> fold (apply_set_op E) ms fts_objectset_init"
  shows "distinct (mirror [] (os_sent s)) \<and>
         set (mirror [] (os_sent s)) = {x. fts_hashtable_get E (os_table s) (APointer x) \<noteq> None}"
  using os_inv_run [OF os_inv_init, of E ms] by (simp add: os_inv_def members_def s_def)

subsection \<open>The scheduler\<close>

theorem timebase_queue_sorts: "fold timebase_insert_entry es [] = sort_key en_time es"
  by (rule queue_stable_sort)

definition sample_base :: "rat timebase" where
  "sample_base = \<lparr>tb_time = 0, tb_step = 10, tb_tick_time = 0,
     tb_entries = [\<lparr>en_time = 3, en_object = 5, en_method = 0, en_atom = AVoid\<rparr>,
                   \<lparr>en_time = 12, en_object = 5, en_method = 0, en_atom = AVoid\<rparr>],
     tb_slaves = [], tb_master = 0, tb_origin = 0, tb_tick = True, tb_locate = True\<rparr>"

definition sample_bases :: "rat tworld" where
  "sample_bases = \<lparr>tw_bases = [1 \<mapsto> sample_base], tw_refs = [5 \<mapsto> 3], tw_calls = []\<rparr>"

lemma sample_bases_inv: "tb_inv (\<lambda>x. if x = 5 then 1 else 0) [] 1 sample_base sample_bases"
  by (auto simp: tb_inv_def sample_bases_def sample_base_def balanced_def queue_refs_def entry_refs_def)



text \<open>
  C35: Removing an object from a timebase removes exactly its entries, releases their references and
  keeps the order of the others.
\<close>

theorem timebase_remove_object:
  assumes "tb_inv ext xs b t w"
  shows "\<exists>w' t'. fts_timebase_remove_object b obj w = Some w' \<and> tb_inv ext xs b t' w' \<and>
      t' = t\<lparr>tb_entries := filter (\<lambda>e. en_object e \<noteq> obj) (tb_entries t)\<rparr> \<and>
      tw_bases w' = (tw_bases w)(b \<mapsto> t') \<and> tw_calls w' = tw_calls w"
  by (rule remove_object_ok [OF assms])

theorem timebase_remove_object_witness:
  "\<exists>w' t'. fts_timebase_remove_object 1 5 sample_bases = Some w' \<and> tw_bases w' 1 = Some t' \<and> tb_entries t' = []"
  using timebase_remove_object [OF sample_bases_inv, of 5] by (auto simp: sample_base_def)

definition sample_slaves :: "rat tworld" where
  "sample_slaves = \<lparr>tw_bases = [1 \<mapsto> fts_timebase_init True True, 2 \<mapsto> fts_timebase_init True True],
     tw_refs = [2 \<mapsto> 1, 5 \<mapsto> 1], tw_calls = []\<rparr>"

abbreviation (input) void_entry :: "rat tb_entry" where
  "void_entry \<equiv> \<lparr>en_time = 0, en_object = 0, en_method = 0, en_atom = AVoid\<rparr>"

lemma sample_slaves_run:
  "\<exists>w1 w2 w3 t sl. fts_timebase_add_slave 1 2 sample_slaves = Some w1 \<and> fts_timebase_set_step 2 10 w1 = Some w2 \<and>
     fts_timebase_add_call void_entry 2 5 0 None 3 w2 = Some w3 \<and> tb_reachable w3 \<and>
     tw_bases w3 1 = Some t \<and> tb_slaves t = [2] \<and> tw_bases w3 2 = Some sl \<and> tb_time sl = 0 \<and> tb_step sl = 10 \<and>
     tb_master sl = 1 \<and> tb_entries sl = [\<lparr>en_time = 3, en_object = 5, en_method = 0, en_atom = AVoid\<rparr>]"
proof -
  have r: "tb_reachable sample_slaves"
    by (rule tb_reachable.start) (auto simp: sample_slaves_def split: if_splits)
  obtain w1 where w1: "fts_timebase_add_slave 1 2 sample_slaves = Some w1"
      "w1 = \<lparr>tw_bases = [1 \<mapsto> (fts_timebase_init True True)\<lparr>tb_slaves := [2]\<rparr>,
                2 \<mapsto> (fts_timebase_init True True)\<lparr>tb_master := 1, tb_origin := 0\<rparr>],
              tw_refs = [2 \<mapsto> 2, 5 \<mapsto> 1], tw_calls = []\<rparr>"
    by (simp add: fts_timebase_add_slave_def sample_slaves_def fts_timebase_init_def fts_object_refer_def set_base_def
        fun_upd_twist)
  obtain w2 where w2: "fts_timebase_set_step 2 10 w1 = Some w2"
      "w2 = w1\<lparr>tw_bases := (tw_bases w1)(2 \<mapsto> (fts_timebase_init True True)\<lparr>tb_step := 10, tb_master := 1, tb_origin := 0\<rparr>)\<rparr>"
    by (simp add: fts_timebase_set_step_def w1(2) set_base_def fts_timebase_init_def)
  obtain w3 where w3: "fts_timebase_add_call void_entry 2 5 0 None 3 w2 = Some w3"
      "tw_bases w3 1 = Some ((fts_timebase_init True True)\<lparr>tb_slaves := [2]\<rparr>)"
      "tw_bases w3 2 = Some ((fts_timebase_init True True)\<lparr>tb_step := 10,
         tb_entries := [\<lparr>en_time = 3, en_object = 5, en_method = 0, en_atom = AVoid\<rparr>], tb_master := 1, tb_origin := 0\<rparr>)"
    by (simp add: fts_timebase_add_call_def w2(2) w1(2) set_base_def fts_timebase_init_def fts_timebase_entry_init_def
        fts_timebase_entry_set_def fts_object_refer_def)
  have "tb_reachable w3"
    using tb_reachable.add_call [OF tb_reachable.set_step [OF tb_reachable.add_slave [OF r w1(1)] w2(1)] w3(1)] .
  with w1(1) w2(1) w3 show ?thesis by (simp add: fts_timebase_init_def)
qed

text \<open>
  C34: The origin of a slave is always null, so advancing a timebase whose first slave has a due
  entry dereferences a null pointer.
\<close>

theorem slave_entry_crash:
  assumes "tw_bases w b = Some t" "tb_slaves t = s # ss" "tw_bases w s = Some sl0"
    and "(if tb_tick sl0 then tick s w else Some w) = Some w1" "tb_reachable w1"
    and "tw_bases w1 s = Some sl" "tb_entries sl = e # es" "en_time e < tb_time sl + tb_step sl"
  shows "fts_timebase_advance_slaves n tick b w = None"
  using assms(1-4) advance_slave_crash [OF assms(5-8)] by (simp add: fts_timebase_advance_slaves_def)

theorem slave_entry_crash_witness:
  "\<exists>w1 w2 w3. fts_timebase_add_slave 1 2 sample_slaves = Some w1 \<and> fts_timebase_set_step 2 10 w1 = Some w2 \<and>
     fts_timebase_add_call void_entry 2 5 0 None 3 w2 = Some w3 \<and>
     fts_timebase_advance_slaves 7 (\<lambda>_. Some) 1 w3 = None"
proof -
  obtain w1 w2 w3 t sl where w: "fts_timebase_add_slave 1 2 sample_slaves = Some w1" "fts_timebase_set_step 2 10 w1 = Some w2"
     "fts_timebase_add_call void_entry 2 5 0 None 3 w2 = Some w3" and r: "tb_reachable w3"
     "tw_bases w3 1 = Some t" "tb_slaves t = [2]" "tw_bases w3 2 = Some sl" "tb_time sl = 0" "tb_step sl = 10"
     "tb_entries sl = [\<lparr>en_time = 3, en_object = 5, en_method = 0, en_atom = AVoid\<rparr>]"
    using sample_slaves_run by blast
  have "fts_timebase_advance_slaves 7 (\<lambda>_. Some) 1 w3 = None"
    by (rule slave_entry_crash [OF r(2,3,4) _ r(1,4,7)]) (use r in simp_all)
  with w show ?thesis by blast
qed

subsection \<open>Containers and memory\<close>

text \<open>
  C16: In every interleaving of writer and reader steps the received bytes followed by the bytes in
  the ring buffer are the sent bytes, and one slot stays free.
\<close>

theorem fifo_in_order:
  assumes "fifo_reachable sz s" "0 < sz"
  shows "sys_sent s = sys_received s @ pending s \<and> length (pending s) = nat (fill (sys_fifo s)) \<and>
         0 \<le> fill (sys_fifo s) \<and> fill (sys_fifo s) \<le> fifo_size (sys_fifo s) - 1"
proof -
  have "fifo_sys_inv s" by (rule fifo_reachable_inv [OF assms])
  then show ?thesis by (auto simp: fifo_sys_inv_def fifo_inv_def pending_def fill_def)
qed

theorem fifo_in_order_witness:
  "\<exists>s. fifo_reachable 8 s \<and> sys_sent s = [5, 6 :: nat] \<and> sys_received s = [5] \<and> pending s = [6]"
proof -
  let ?s0 = "fifo_start 8 (\<lambda>_. 0 :: nat)" let ?s1 = "?s0\<lparr>seen_space := 7\<rparr>"
  have look: "fts_fifo_write_level (sys_fifo ?s0) = Some 7"
    by (simp add: fifo_start_def fts_fifo_init_def fts_fifo_write_level_def level_def)
  let ?s2 = "?s1\<lparr>sys_buf := ring_write 8 0 [5, 6] (sys_buf ?s1), sys_fifo := fts_fifo_incr_write (sys_fifo ?s1) 2,
    seen_space := 5, sys_sent := [5, 6]\<rparr>"
  have put: "fifo_step ?s1 ?s2" using fifo_step.put [of "[5, 6]" ?s1] by (simp add: fifo_start_def fts_fifo_init_def)
  let ?s3 = "?s2\<lparr>seen_bytes := 2\<rparr>"
  have look': "fts_fifo_read_level (sys_fifo ?s2) = Some 2"
    by (simp add: fifo_start_def fts_fifo_init_def fts_fifo_incr_write_def wrap_def fts_fifo_read_level_def level_def)
  let ?s4 = "?s3\<lparr>sys_received := [5], sys_fifo := fts_fifo_incr_read (sys_fifo ?s3) 1, seen_bytes := 1\<rparr>"
  have take: "fifo_step ?s3 ?s4" using fifo_step.take [of 1 ?s3]
    by (simp add: fifo_start_def fts_fifo_init_def fts_fifo_incr_write_def ring_read_def ring_write_def)
  have "fifo_reachable 8 ?s4"
    using fifo_reachable.step [OF fifo_reachable.step [OF fifo_reachable.step [OF fifo_reachable.step [OF fifo_reachable.start
      fifo_step.look_write [OF look]] put] fifo_step.look_read [OF look']] take] .
  moreover from fifo_in_order [OF this] have "[5, 6] = [5] @ pending ?s4" by (simp add: fifo_start_def)
  moreover have "sys_sent ?s4 = [5, 6]" "sys_received ?s4 = [5]" by simp_all
  ultimately show ?thesis by (metis append_Cons append_Nil list.inject)
qed

text \<open>
  C17: From every reachable state the block allocator returns a non-null block that is not in use.
\<close>

theorem heap_alloc_fresh:
  assumes "heap_reachable p" "free_list p = 0 \<Longrightarrow> fresh_region p [] mem"
  shows "fst (fts_heap_alloc mem p) \<notin> h_live p \<and> fst (fts_heap_alloc mem p) \<noteq> 0 \<and>
         h_live (snd (fts_heap_alloc mem p)) = insert (fst (fts_heap_alloc mem p)) (h_live p) \<and>
         heap_reachable (snd (fts_heap_alloc mem p))"
proof -
  obtain as where hp: "heap_is p as" using heap_reachable_is [OF assms(1)] by blast
  have fresh: "fresh_region p xs mem" if "heap_is p xs" "xs = []" for xs
    using that assms(2) by (simp add: heap_is_def)
  have "heap_step p (snd (fts_heap_alloc mem p))"
    by (rule heap_step.alloc) (use fresh in auto)
  then show ?thesis
    using heap_is_alloc [OF hp fresh [OF hp]] heap_reachable.step [OF assms(1)] by auto
qed

theorem heap_alloc_fresh_witness:
  "fst (fts_heap_alloc 4096 (unshared_heap 16)) \<noteq> 0 \<and> heap_reachable (snd (fts_heap_alloc 4096 (unshared_heap 16)))"
  using heap_alloc_fresh [OF heap_reachable.unshared [of 16], of 4096]
  by (simp add: fresh_region_def unshared_heap_def)



definition sample_array :: atom_array where
  "sample_array = \<lparr>ar_atoms = [AObject 5, AInt 1, AInt 2, AVoid], ar_size = 3, ar_alloc_increment = 8\<rparr>"

abbreviation (input) sample_ext :: "addr \<Rightarrow> nat" where
  "sample_ext \<equiv> \<lambda>x. if x = 5 then 1 else 0"

lemma sample_array_ok: "arr_ok [5 \<mapsto> 2] sample_ext sample_array [AObject 5, AInt 1, AInt 2]"
  by (auto simp: arr_ok_def arr_is_def sample_array_def balanced_def intro!: exI [of _ 1])

text \<open>
  C31: Inserting atoms at an index splices them into the array, shifts the rest, and counts one
  reference for every object inserted.
\<close>

theorem array_insert:
  assumes "arr_ok st ext a xs" "list_all (held ext) ys" "0 \<le> index"
  shows "\<exists>a' st'. fts_array_insert a index ys st = Some (a', st') \<and>
           arr_ok st' ext a' (take (nat index) xs @ ys @ drop (nat index) xs)"
  by (rule array_insert_spec [OF assms])

theorem array_insert_witness:
  "\<exists>a' st'. fts_array_insert sample_array 1 [AObject 5] [5 \<mapsto> 2] = Some (a', st') \<and>
     arr_ok st' sample_ext a' [AObject 5, AObject 5, AInt 1, AInt 2]"
  using array_insert [OF sample_array_ok, of "[AObject 5]" 1] by (simp add: held_def)

text \<open>
  C32: Cutting out of the middle of an array shortens it, but when the tail is shorter than the cut
  the last atoms of the cut stay behind the new size with their references.
\<close>

theorem array_cut_leak:
  assumes "arr_ok st ext a (pre @ c @ tail)" "c \<noteq> []"
    and "index = int (length pre)" "n = int (length c) \<or> (tail = [] \<and> n \<ge> int (length c))"
  shows "\<exists>a' st' k. fts_array_cut a index n st = Some (a', st') \<and> ar_size a' = length (pre @ tail) \<and>
           ar_atoms a' = pre @ tail @ drop (length tail) c @ replicate k AVoid \<and>
           balanced st' ext (pre @ tail @ drop (length tail) c)"
  using cut_spec [OF assms] by blast

theorem array_cut_leak_witness:
  "\<exists>a' st' k. fts_array_cut sample_array 0 2 [5 \<mapsto> 2] = Some (a', st') \<and> ar_size a' = 1 \<and>
     ar_atoms a' = [AInt 2, AInt 1] @ replicate k AVoid"
  using array_cut_leak [of "[5 \<mapsto> 2]" sample_ext sample_array "[]" "[AObject 5, AInt 1]" "[AInt 2]" 0 2]
    sample_array_ok by fastforce

subsection \<open>Tracks of events\<close>

text \<open>
  C29: Creating, adding, removing and moving events, merging and erasing tracks, in any order,
  succeeds and leaves each track a doubly linked list of its specified events in order of time; a
  search by time finds the first event at or after it. Values are no objects, an event is in at most
  one track. The operations are those of \<open>seq_ops_ok\<close>: the tracks exist, a new event
  has a new address, only events without a track are added, only events of a track are removed from
  it or moved in it, a track is not merged with itself; only the tracks refer to the events. An
  event is added behind the events of its time; the specifications are \<open>seq_add\<close>,
  \<open>seq_move\<close> and \<open>seq_merge\<close>.
\<close>

theorem track_sessions:
  assumes "seq_holds s T L" "seq_ops_ok ops (T, L)" "fold seq_spec ops (T, L) = (T', L')"
  shows "\<exists>s'. seq_run ops s = Some s' \<and> seq_holds s' T' L' \<and>
    (\<forall>b ps t. T' b = Some ps \<longrightarrow>
       track_get_event_by_time b t s' = Some (hd (map snd (dropWhile (\<lambda>p. fst p < t) ps) @ [0])))"
proof -
  obtain s' where "seq_run ops s = Some s'" "seq_holds s' T' L'"
    using seq_run_spec [OF assms(1,2)] assms(3) by auto
  then show ?thesis using get_event_by_time seq_holdsD(1) by blast
qed

definition two_tracks :: "int seq_world" where
  "two_tracks =
     \<lparr>sq_events = (\<lambda>_. None), sq_tracks = (\<lambda>_. None)(1 \<mapsto> \<lparr>tr_first = 0, tr_last = 0, tr_size = 0\<rparr>,
        2 \<mapsto> \<lparr>tr_first = 0, tr_last = 0, tr_size = 0\<rparr>), sq_refs = (\<lambda>_. None)\<rparr>"

definition track_edits :: "int seq_op list" where
  "track_edits =
     [New_event 10 (AInt 60), New_event 11 (AInt 62), New_event 12 (AInt 64), New_event 13 (AInt 65),
      Add_event 1 5 10, Add_event 1 2 11, Add_event 2 4 12, Add_event 2 7 13,
      Move_event 1 11 9, Remove_event 2 13, Merge_tracks 1 2]"

theorem track_sessions_witness:
  "\<exists>s. seq_run track_edits two_tracks = Some s \<and> track_holds s 1 [(4, 12), (5, 10), (9, 11)] \<and>
     track_get_event_by_time 1 6 s = Some 11"
proof -
  let ?T = "(\<lambda>_. None)(1 \<mapsto> [], 2 \<mapsto> []) :: addr \<Rightarrow> (int \<times> addr) list option"
  have holds: "seq_holds two_tracks ?T {}"
    by (auto simp: seq_holds_def two_tracks_def track_holds_def track_list_def split: if_splits)
  have ok: "seq_ops_ok track_edits (?T, {})"
    by (simp add: track_edits_def in_track_def seq_add_def seq_move_def before_event_def behind_event_def Let_def)
  obtain T' L' where spec: "fold seq_spec track_edits (?T, {}) = (T', L')" by (cases "fold seq_spec track_edits (?T, {})")
  then have "T' 1 = Some [(4, 12), (5, 10), (9, 11)]"
    by (auto simp: track_edits_def seq_add_def seq_move_def before_event_def behind_event_def Let_def)
  with track_sessions [OF holds ok spec] show ?thesis by (force dest: seq_holdsD(1))
qed

text \<open>
  C40: Shifting the events of a time segment moves each of them to its new time, not below 0, and
  stretching scales the segment and moves what follows; the track stays a doubly linked list in
  order of time with the same events, none lost. Values are no objects, times are of an ordered
  field. The bounds are ordered and not negative, and no editor is open. A stretch factor below 0
  counts as 0. Stretching is for tracks whose values have no method \<open>stretch\<close>.
\<close>

theorem track_segments:
  assumes "track_holds s b ps" "0 \<le> from" "from \<le> to"
  shows "(\<exists>s' ps'. track_shift b from to shift s = Some s' \<and> track_holds s' b ps' \<and>
      set ps' = (\<lambda>(t, x). (if from \<le> t \<and> t < to then max 0 (t + shift) else t, x)) ` set ps) \<and>
    (\<exists>s'. track_stretch b from to k s = Some s' \<and>
      track_holds s' b (map (\<lambda>(t, x). (stretched from to (max 0 k) t, x)) ps))"
  using track_shift_list [OF assms, of shift] track_stretch_list [OF assms, of k]
  by (simp add: moved_segment_def case_prod_beta')

definition three_events :: "rat seq_world" where
  "three_events =
     \<lparr>sq_events = (\<lambda>_. None)
        (10 \<mapsto> \<lparr>ev_time = 1, ev_value = AInt 60, ev_track = 1, ev_prev = 0, ev_next = 11\<rparr>,
         11 \<mapsto> \<lparr>ev_time = 2, ev_value = AInt 62, ev_track = 1, ev_prev = 10, ev_next = 12\<rparr>,
         12 \<mapsto> \<lparr>ev_time = 4, ev_value = AInt 64, ev_track = 1, ev_prev = 11, ev_next = 0\<rparr>),
      sq_tracks = (\<lambda>_. None)(1 \<mapsto> \<lparr>tr_first = 10, tr_last = 12, tr_size = 3\<rparr>),
      sq_refs = (\<lambda>_. None)(10 \<mapsto> 1, 11 \<mapsto> 1, 12 \<mapsto> 1)\<rparr>"

theorem track_segments_witness:
  "(\<exists>s ps. track_shift 1 1 3 4 three_events = Some s \<and> track_holds s 1 ps \<and> set ps = {(5, 10), (6, 11), (4, 12)}) \<and>
   (\<exists>s. track_stretch 1 1 3 2 three_events = Some s \<and> track_holds s 1 [(1, 10), (3, 11), (6, 12)])"
proof -
  have "track_holds three_events 1 [(1, 10), (2, 11), (4, 12)]"
    by (simp add: track_holds_def track_list_def plain_event_def three_events_def)
  from track_segments [OF this, of 1 3 4 2] show ?thesis by (simp add: stretched_def)
qed

subsection \<open>MIDI\<close>

text \<open>
  C13: Parsing the bytes of a sequence of channel, song, real-time and non-empty system exclusive
  messages from any parser state yields exactly these messages, if no system exclusive message is a
  full time code frame or a part of its header (0x7F, 0x7F 0x01, or 0x7F 0x01 0x01 and more). Time
  codes are sent as eight quarter frames; another property is about their decoding. An empty system
  exclusive message yields no event.
\<close>

theorem midi_stream_roundtrip:
  assumes "\<forall>e \<in> set es. midi_event_ok e"
  shows "fst (midiparser_stream (to_bytes (concat (map midi_bytes es))) p) = es"
  by (rule events_roundtrip [OF assms])

theorem midi_stream_roundtrip_witness:
  "fst (midiparser_stream (to_bytes (concat (map midi_bytes
     [Channel_message Midi_note 1 60 100, System_exclusive [1, 2, 3], Channel_message Midi_program_change 16 5 (- 1)])))
     fts_midiparser_init) =
   [Channel_message Midi_note 1 60 100, System_exclusive [1, 2, 3], Channel_message Midi_program_change 16 5 (- 1)]"
  by (rule midi_stream_roundtrip) (simp add: MIDI_EMPTY_BYTE_def two_data_bytes_def data_byte_def)

text \<open>
  C37: A real-time byte at any place of the stream yields its own event at that place and changes
  neither the other events nor the state of the parser; the real-time events of a stream are those
  of its bytes from 0xF8 on.
\<close>

theorem midi_real_time_transparent:
  assumes "248 \<le> uint b"
  shows "midiparser_stream (bs @ b # cs) p =
      (fst (midiparser_stream bs p) @ Real_time (uint b - 248) # fst (midiparser_stream cs (snd (midiparser_stream bs p))),
       snd (midiparser_stream (bs @ cs) p)) \<and>
    midiparser_stream (filter (\<lambda>b. uint b < 248) as) p =
      (filter (\<lambda>e. \<not> is_real_time e) (fst (midiparser_stream as p)), snd (midiparser_stream as p)) \<and>
    filter is_real_time (fst (midiparser_stream as p)) =
      map (\<lambda>b. Real_time (uint b - 248)) (filter (\<lambda>b. 248 \<le> uint b) as)"
  using real_time_insert [OF assms] real_time_transparent real_time_events by blast

theorem midi_real_time_transparent_witness:
  "fst (midiparser_stream ([0x90, 60] @ 0xF8 # [100]) fts_midiparser_init) = [Real_time 0, Channel_message Midi_note 1 60 100]"
proof -
  have "fst (midiparser_stream [0x90, 60] fts_midiparser_init) = []" 
    "fst (midiparser_stream [100] (snd (midiparser_stream [0x90, 60] fts_midiparser_init))) = [Channel_message Midi_note 1 60 100]"
    by code_simp+
  then show ?thesis using midi_real_time_transparent [of "0xF8" "[0x90, 60]" "[100]" fts_midiparser_init "[]"] by simp
qed

text \<open>
  C38: Whatever bytes come in, all parsed events are in range: channels 1 to 16, 7-bit data and song
  position bytes, real-time numbers 0 to 7, time codes of type 0 to 3, hour below 32 and other
  fields below 256.
\<close>

theorem midi_event_ranges:
  assumes "parser_inv p" "midiparser_stream bs p = (es, p')"
  shows "parser_inv p' \<and> (\<forall>e \<in> set es. event_in_range e)"
  by (rule stream_inv [OF assms])

theorem midi_event_ranges_witness:
  "list_all event_in_range (fst (midiparser_stream [0x9F, 60, 100, 0xF8, 0xF2, 5, 9] fts_midiparser_init))"
proof -
  have "parser_inv fts_midiparser_init"
    by (simp add: parser_inv_def mtc_in_range_def fits_bits_def fts_midiparser_init_def)
  from midi_event_ranges [OF this prod.collapse [symmetric], of "[0x9F, 60, 100, 0xF8, 0xF2, 5, 9]"] show ?thesis
    unfolding list_all_iff by (rule conjunct2)
qed



theorem midi_sysex_repeated:
  assumes "midi_event_ok (System_exclusive xs)"
  shows "fst (midiparser_stream (to_bytes (midi_bytes (System_exclusive xs) @ [247])) p) =
    [System_exclusive xs, System_exclusive xs]"
  by (rule sysex_repeated [OF assms])

theorem midi_sysex_repeated_witness:
  "fst (midiparser_stream (to_bytes (midi_bytes (System_exclusive [1, 2]) @ [247])) fts_midiparser_init) =
    [System_exclusive [1, 2], System_exclusive [1, 2]]"
  by (rule midi_sysex_repeated) (simp add: data_byte_def)

text \<open>
  C14: Reading a MIDI file of format 0 that was written as one track of channel messages makes the
  calls of the header, the track, each message at its tick and its time in milliseconds, and the end
  of the track, and reports no error. System exclusive events are left out: the writer does not
  write their size (midifile.c, line 950), so that they do not read back.
\<close>

theorem midifile_roundtrip:
  assumes "track_ok 0 es" "length (track_bytes 0 es) < 2 ^ 31 - 4" "0 < division" "division < 2 ^ 15"
  defines "conv \<equiv> tempo_conv FTS_MIDIFILE_DEFAULT_TEMPO division" and "u \<equiv> last (0 # map fst es)"
  shows "\<exists>f. fts_midifile_read (fts_midifile_init\<lparr>mf_in := mf_file (write_file division es)\<rparr>) = Some (1, f) \<and>
    mf_error f = None \<and> mf_in f = [] \<and>
    mf_calls f = [(0, 0, Call_header), (0, 0, Track_start)] @ map (event_call conv) es @
      [(u, of_int u * conv, End_of_track), (u, of_int u * conv, Track_end)]"
  using read_written_file [OF assms(1-4)] unfolding written_file [OF assms(1)] conv_def u_def .

theorem midifile_roundtrip_witness:
  "\<exists>f. fts_midifile_read (fts_midifile_init\<lparr>mf_in :=
       mf_file (write_file 480 [(0, Midi_note, 1, 60, 100), (100, Midi_note, 1, 60, 0)])\<rparr>) = Some (1, f) \<and>
     mf_error f = None \<and> length (mf_calls f) = 6"
proof -
  let ?es = "[(0, Midi_note, 1, 60, 100), (100, Midi_note, 1, 60, 0)] :: track_event list"
  have "varlen 100 = [100]"
    by (simp add: varlen_def varlen_pack.simps [of 100] varlen_bytes.simps [of 100] Let_def)
  then have "length (track_bytes 0 ?es) < 2 ^ 31 - 4" by (simp add: varlen_0)
  moreover have "track_ok 0 ?es" by (simp add: data_byte_def two_data_bytes_def)
  ultimately show ?thesis using midifile_roundtrip [of ?es 480] by fastforce
qed

text \<open>
  C15: Reading terminates on every sequence of bytes and never appends to a system exclusive event
  that does not exist.
\<close>

theorem midifile_reader_safe:
  "\<exists>n g. fts_midifile_read f = Some (n, g)"
  using midifile_read_safe [of f] by (cases "fts_midifile_read f") auto

end
